(* ===== verification/Pst_Prelude.thy ===== *)
theory Pst_Prelude
  imports Main "HOL-Library.Word" "HOL-Library.Multiset"
begin

text \<open>
  Shared vocabulary of the development: the machine integers and byte strings of the Rust
  sources, the checked arithmetic of the Rust standard library, little-endian encoding of
  integers, Rust's \<open>slice::chunks\<close> and \<open>slice::partition_point\<close>, and generic lemmas on
  words, lists and results that the component theories use through the collections
  \<open>le_simps\<close> and \<open>pst_result\<close>.
\<close>

unbundle bit_operations_syntax

named_theorems le_simps "encoding and decoding of little-endian integers"
named_theorems pst_result "rewriting of results of fallible operations"

type_synonym u8 = "8 word"
type_synonym u16 = "16 word"
type_synonym u32 = "32 word"
type_synonym u64 = "64 word"
type_synonym bytes = "u8 list"

section \<open>Checked arithmetic\<close>

text \<open>\<open>usize\<close> is a 64-bit integer on the supported targets.\<close>

definition usize_max :: nat where
  "usize_max = 2 ^ 64 - 1"

definition checked_add_w :: "'a::len word \<Rightarrow> 'a word \<Rightarrow> 'a word option" where
  "checked_add_w a b = (if unat a + unat b < 2 ^ LENGTH('a) then Some (a + b) else None)"

definition checked_mul_w :: "'a::len word \<Rightarrow> 'a word \<Rightarrow> 'a word option" where
  "checked_mul_w a b = (if unat a * unat b < 2 ^ LENGTH('a) then Some (a * b) else None)"

definition checked_sub_w :: "'a::len word \<Rightarrow> 'a word \<Rightarrow> 'a word option" where
  "checked_sub_w a b = (if b \<le> a then Some (a - b) else None)"

definition checked_add_usize :: "nat \<Rightarrow> nat \<Rightarrow> nat option" where
  "checked_add_usize a b = (if a + b \<le> usize_max then Some (a + b) else None)"

definition div_ceil :: "nat \<Rightarrow> nat \<Rightarrow> nat" where
  "div_ceil a b = (if a mod b = 0 then a div b else a div b + 1)"

lemma unat_word_bound [simp]: "unat (w :: 'a::len word) < 2 ^ LENGTH('a)"
  by (rule unsigned_less)

lemma checked_add_w_Some:
  "checked_add_w a b = Some c \<Longrightarrow> unat c = unat a + unat b"
  by (auto simp: checked_add_w_def unat_word_ariths split: if_splits)

lemma checked_add_w_SomeI:
  "unat a + unat b < 2 ^ LENGTH('a) \<Longrightarrow> checked_add_w a (b :: 'a::len word) = Some (a + b)"
  by (simp add: checked_add_w_def)

lemma checked_mul_w_Some:
  "checked_mul_w a b = Some c \<Longrightarrow> unat c = unat a * unat b"
  by (auto simp: checked_mul_w_def unat_word_ariths split: if_splits)

lemma checked_sub_w_Some:
  "checked_sub_w a b = Some c \<Longrightarrow> unat c = unat a - unat b \<and> b \<le> a"
  by (auto simp: checked_sub_w_def unat_sub split: if_splits)

lemma div_ceil_mult_ge: "0 < b \<Longrightarrow> a \<le> div_ceil a b * b"
proof -
  assume b: "0 < b"
  have a: "a = a div b * b + a mod b" by simp
  have "a mod b < b" using b by simp
  then have "a \<le> a div b * b + b" using a by linarith
  then show ?thesis using a by (auto simp: div_ceil_def)
qed

lemma div_ceil_mult_lt: "0 < b \<Longrightarrow> div_ceil a b * b < a + b"
proof -
  assume b: "0 < b"
  have a: "a = a div b * b + a mod b" by simp
  show ?thesis
  proof (cases "a mod b = 0")
    case True
    then have "div_ceil a b * b = a" using a by (simp add: div_ceil_def)
    then show ?thesis using b by simp
  next
    case False
    then have "div_ceil a b * b = a div b * b + b" by (simp add: div_ceil_def)
    then show ?thesis using a False by linarith
  qed
qed

lemma div_ceil_0 [simp]: "div_ceil 0 b = 0"
  by (simp add: div_ceil_def)

lemma div_ceil_pos_iff: "0 < b \<Longrightarrow> 0 < div_ceil a b \<longleftrightarrow> 0 < a"
  by (cases "a = 0") (auto simp: div_ceil_def div_greater_zero_iff mod_eq_0_iff_dvd
      intro: dvd_imp_le)

lemma div_ceil_less: "1 < a \<Longrightarrow> 1 < b \<Longrightarrow> div_ceil a b < a"
proof -
  assume a: "1 < a" and b: "1 < b"
  have "div_ceil a b * b < a + b" using b by (intro div_ceil_mult_lt) simp
  show ?thesis
  proof (rule ccontr)
    assume "\<not> div_ceil a b < a"
    then have "a * b \<le> div_ceil a b * b" by simp
    with \<open>div_ceil a b * b < a + b\<close> have "a * b < a + b" by linarith
    moreover have "a + b \<le> a * b"
    proof -
      obtain c where c: "a = c + 2" using a by (metis Suc_1 add.commute le_add_diff_inverse Suc_leI)
      obtain d where d: "b = d + 2" using b by (metis Suc_1 add.commute le_add_diff_inverse Suc_leI)
      show ?thesis by (simp add: c d algebra_simps)
    qed
    ultimately show False by simp
  qed
qed

section \<open>Results\<close>

lemma case_sum_Inr_iff [pst_result]:
  "(case r of Inl e \<Rightarrow> Inl e | Inr x \<Rightarrow> k x) = Inr y \<longleftrightarrow> (\<exists>x. r = Inr x \<and> k x = Inr y)"
  by (cases r) auto

lemma case_sum_pair_Inr_iff [pst_result]:
  "(case r of Inl e \<Rightarrow> Inl e | Inr (x, s) \<Rightarrow> k x s) = Inr y \<longleftrightarrow>
     (\<exists>x s. r = Inr (x, s) \<and> k x s = Inr y)"
  by (cases r) (auto split: prod.splits)

lemma case_option_Inr_iff [pst_result]:
  "(case r of None \<Rightarrow> Inl e | Some x \<Rightarrow> k x) = Inr y \<longleftrightarrow> (\<exists>x. r = Some x \<and> k x = Inr y)"
  by (cases r) auto

lemma if_Inl_Inr_iff [pst_result]:
  "(if b then Inl e else r) = Inr y \<longleftrightarrow> \<not> b \<and> r = Inr y"
  by simp

lemma if_Inr_Inl_iff [pst_result]:
  "(if b then r else Inl e) = Inr y \<longleftrightarrow> b \<and> r = Inr y"
  by simp

section \<open>Bytes\<close>

text \<open>Every byte, for checks by enumeration.\<close>

definition all_bytes :: "u8 list" where
  "all_bytes = map word_of_nat [0..<256]"

lemma byte_in_all: "b \<in> set all_bytes"
proof -
  have "b = word_of_nat (unat b)" by simp
  moreover have "unat b < 256" using unat_word_bound [of b] by simp
  ultimately show ?thesis unfolding all_bytes_def by (metis atLeastLessThan_iff image_eqI set_map set_upt zero_le)
qed

section \<open>Little-endian integers\<close>

primrec to_le :: "nat \<Rightarrow> 'a::len word \<Rightarrow> bytes" where
  "to_le 0 w = []"
| "to_le (Suc n) w = ucast w # to_le n (drop_bit 8 w)"

primrec from_le :: "bytes \<Rightarrow> 'a::len word" where
  "from_le [] = 0"
| "from_le (b # bs) = ucast b OR push_bit 8 (from_le bs)"

lemma length_to_le [simp, le_simps]: "length (to_le n w) = n"
  by (induction n arbitrary: w) auto

lemma to_le_Nil_iff [simp]: "to_le n w = [] \<longleftrightarrow> n = 0"
  by (cases n) auto

lemma bit_from_le:
  "bit (from_le bs :: 'a::len word) i \<longleftrightarrow>
     i < LENGTH('a) \<and> i < 8 * length bs \<and> bit (bs ! (i div 8)) (i mod 8)"
proof (induction bs arbitrary: i)
  case Nil
  then show ?case by simp
next
  case (Cons b bs)
  show ?case
  proof (cases "i < 8")
    case True
    then show ?thesis by (auto simp: bit_or_iff bit_push_bit_iff bit_ucast_iff)
  next
    case False
    then obtain j where j: "i = j + 8" by (metis add.commute le_add_diff_inverse not_less)
    have nb: "\<not> bit b i"
      using False bit_imp_le_length [of b i] by auto
    have "bit (from_le (b # bs) :: 'a word) i \<longleftrightarrow> i < LENGTH('a) \<and> bit (from_le bs :: 'a word) j"
      using nb j by (auto simp: bit_or_iff bit_push_bit_iff bit_ucast_iff)
    also have "\<dots> \<longleftrightarrow> i < LENGTH('a) \<and> j < 8 * length bs \<and> bit (bs ! (j div 8)) (j mod 8)"
      using j by (auto simp: Cons.IH)
    also have "\<dots> \<longleftrightarrow> i < LENGTH('a) \<and> i < 8 * length (b # bs)
        \<and> bit ((b # bs) ! (i div 8)) (i mod 8)"
      using j by (auto simp: nth_Cons' div_add1_eq)
    finally show ?thesis .
  qed
qed

lemma nth_to_le: "k < n \<Longrightarrow> to_le n w ! k = ucast (drop_bit (8 * k) w)"
proof (induction n arbitrary: w k)
  case 0
  then show ?case by simp
next
  case (Suc n)
  then show ?case by (cases k) (auto simp: drop_bit_drop_bit add.commute)
qed

lemma from_le_to_le:
  "from_le (to_le n (w :: 'a::len word)) = (take_bit (8 * n) w :: 'a word)"
proof (rule bit_word_eqI)
  fix i assume i: "i < LENGTH('a)"
  have "i < 8 * n \<Longrightarrow> bit (to_le n w ! (i div 8)) (i mod 8) \<longleftrightarrow> bit w i"
    using i by (subst nth_to_le) (auto simp: bit_ucast_iff bit_drop_bit_eq)
  then show "bit (from_le (to_le n w) :: 'a word) i = bit (take_bit (8 * n) w) i"
    using i by (auto simp: bit_from_le bit_take_bit_iff)
qed

lemma to_le_from_le:
  assumes "length bs = n" and "8 * n \<le> LENGTH('a)"
  shows "to_le n (from_le bs :: 'a::len word) = bs"
proof (rule nth_equalityI)
  show "length (to_le n (from_le bs :: 'a word)) = length bs" using assms by simp
next
  fix k assume "k < length (to_le n (from_le bs :: 'a word))"
  then have k: "k < n" by simp
  show "to_le n (from_le bs :: 'a word) ! k = bs ! k"
  proof (rule bit_word_eqI)
    fix i assume i: "i < LENGTH(8)"
    then have i8: "i < 8" by simp
    have "8 * k + i < 8 * n" using k i8 by linarith
    moreover have "(8 * k + i) div 8 = k" and "(8 * k + i) mod 8 = i" using i8 by simp_all
    ultimately show "bit (to_le n (from_le bs :: 'a word) ! k) i = bit (bs ! k) i"
      using k i8 assms by (simp add: nth_to_le bit_ucast_iff bit_drop_bit_eq bit_from_le)
  qed
qed

lemma from_le_2 [simp, le_simps]: "from_le (to_le 2 w) = (w :: u16)"
  by (simp add: from_le_to_le take_bit_word_eq_self del: to_le.simps)

lemma from_le_4 [simp, le_simps]: "from_le (to_le 4 w) = (w :: u32)"
  by (simp add: from_le_to_le take_bit_word_eq_self del: to_le.simps)

lemma from_le_8 [simp, le_simps]: "from_le (to_le 8 w) = (w :: u64)"
  by (simp add: from_le_to_le take_bit_word_eq_self del: to_le.simps)

section \<open>Slices\<close>

text \<open>\<open>slice::chunks\<close>; the sources never call it with a chunk size of zero, where Rust panics.\<close>

function chunks :: "nat \<Rightarrow> 'a list \<Rightarrow> 'a list list" where
  "chunks n xs = (if n = 0 \<or> xs = [] then [] else take n xs # chunks n (drop n xs))"
  by pat_completeness auto
termination
  by (relation "measure (\<lambda>(n, xs). length xs)") auto

declare chunks.simps [simp del]

lemma chunks_Nil [simp]: "chunks n [] = []"
  by (simp add: chunks.simps)

lemma concat_chunks [simp]: "0 < n \<Longrightarrow> concat (chunks n xs) = xs"
proof (induction n xs rule: chunks.induct)
  case (1 n xs)
  then show ?case
    by (cases "xs = []") (simp_all add: chunks.simps [of n xs])
qed

lemma chunks_bounds: "0 < n \<Longrightarrow> c \<in> set (chunks n xs) \<Longrightarrow> 0 < length c \<and> length c \<le> n"
proof (induction n xs rule: chunks.induct)
  case (1 n xs)
  then show ?case
    by (cases "xs = []") (auto simp: chunks.simps [of n xs])
qed

lemma chunks_short: "0 < n \<Longrightarrow> xs \<noteq> [] \<Longrightarrow> length xs \<le> n \<Longrightarrow> chunks n xs = [xs]"
  by (simp add: chunks.simps [of n xs])

lemma chunks_append:
  "0 < n \<Longrightarrow> length xs = n \<Longrightarrow> chunks n (xs @ ys) = xs # chunks n ys"
  by (subst chunks.simps) auto

lemma chunks_eq_Nil_iff: "0 < n \<Longrightarrow> chunks n xs = [] \<longleftrightarrow> xs = []"
  by (subst chunks.simps) auto

lemma length_chunks: "0 < n \<Longrightarrow> length (chunks n xs) = div_ceil (length xs) n"
proof (induction n xs rule: chunks.induct)
  case (1 n xs)
  show ?case
  proof (cases "xs = []")
    case True
    then show ?thesis by simp
  next
    case False
    have IH: "length (chunks n (drop n xs)) = div_ceil (length xs - n) n"
      using 1 False by simp
    have len: "length (chunks n xs) = Suc (div_ceil (length xs - n) n)"
      using IH False \<open>0 < n\<close> by (simp add: chunks.simps [of n xs])
    show ?thesis
    proof (cases "length xs \<le> n")
      case True
      then have "div_ceil (length xs) n = 1"
        using False \<open>0 < n\<close> by (cases "length xs = n") (auto simp: div_ceil_def)
      then show ?thesis using len True by simp
    next
      case ge: False
      then have "div_ceil (length xs) n = Suc (div_ceil (length xs - n) n)"
        using \<open>0 < n\<close> by (simp add: div_ceil_def le_div_geq le_mod_geq)
      then show ?thesis using len by simp
    qed
  qed
qed

text \<open>
  \<open>slice::partition_point\<close>: the branch-free binary search of the Rust standard library. On a
  slice that is not partitioned its result is unspecified in the documentation; the model is
  the library's loop, so the bounds below hold for damaged input as well.
\<close>

function pp_loop :: "('a \<Rightarrow> bool) \<Rightarrow> 'a list \<Rightarrow> nat \<Rightarrow> nat \<Rightarrow> nat" where
  "pp_loop P xs base sz =
     (if sz \<le> 1 then base
      else let half = sz div 2; mid = base + half
           in pp_loop P xs (if P (xs ! mid) then mid else base) (sz - half))"
  by pat_completeness auto
termination
  by (relation "measure (\<lambda>(P, xs, base, sz). sz)") auto

declare pp_loop.simps [simp del]

definition partition_point :: "('a \<Rightarrow> bool) \<Rightarrow> 'a list \<Rightarrow> nat" where
  "partition_point P xs =
     (if xs = [] then 0
      else let base = pp_loop P xs 0 (length xs)
           in if P (xs ! base) then base + 1 else base)"

definition partitioned :: "('a \<Rightarrow> bool) \<Rightarrow> 'a list \<Rightarrow> bool" where
  "partitioned P xs \<longleftrightarrow> (\<forall>i j. i < j \<longrightarrow> j < length xs \<longrightarrow> P (xs ! j) \<longrightarrow> P (xs ! i))"

lemma pp_loop_props:
  assumes "base = 0 \<or> P (xs ! base)" and "1 \<le> sz" and "base + sz \<le> length xs"
    and "partitioned P xs \<Longrightarrow> \<forall>j. base + sz \<le> j \<longrightarrow> j < length xs \<longrightarrow> \<not> P (xs ! j)"
  shows "pp_loop P xs base sz < length xs
    \<and> (pp_loop P xs base sz = 0 \<or> P (xs ! pp_loop P xs base sz))
    \<and> (partitioned P xs \<longrightarrow>
        (\<forall>j. pp_loop P xs base sz < j \<longrightarrow> j < length xs \<longrightarrow> \<not> P (xs ! j)))"
  using assms
proof (induction P xs base sz rule: pp_loop.induct)
  case (1 P xs base sz)
  show ?case
  proof (cases "sz \<le> 1")
    case True
    then have eq: "pp_loop P xs base sz = base" and "sz = 1"
      using 1(3) by (simp_all add: pp_loop.simps [of P xs base sz])
    then show ?thesis unfolding eq using 1(2,4,5) by (auto simp: Suc_le_eq)
  next
    case False
    let ?half = "sz div 2" and ?mid = "base + sz div 2"
    have half: "0 < ?half" "?half < sz" using False by auto
    have eq: "pp_loop P xs base sz
        = pp_loop P xs (if P (xs ! ?mid) then ?mid else base) (sz - ?half)"
      using False by (simp add: pp_loop.simps [of P xs base sz] Let_def)
    show ?thesis
    proof (cases "P (xs ! ?mid)")
      case True
      show ?thesis unfolding eq
        using 1(1) [OF False refl refl] True 1(2-5) half by auto
    next
      case nP: False
      have above: "\<forall>j. base + (sz - ?half) \<le> j \<longrightarrow> j < length xs \<longrightarrow> \<not> P (xs ! j)"
        if "partitioned P xs"
      proof (intro allI impI)
        fix j assume j: "base + (sz - ?half) \<le> j" "j < length xs"
        have "?mid \<le> j" using j by linarith
        then show "\<not> P (xs ! j)"
          using nP that j(2) unfolding partitioned_def by (metis le_neq_implies_less)
      qed
      show ?thesis unfolding eq
        using 1(1) [OF False refl refl] nP 1(2-4) half above by auto
    qed
  qed
qed

lemma pp_loop_start:
  assumes "xs \<noteq> []"
  shows "pp_loop P xs 0 (length xs) < length xs"
    and "pp_loop P xs 0 (length xs) = 0 \<or> P (xs ! pp_loop P xs 0 (length xs))"
  using pp_loop_props [of 0 P xs "length xs"] assms by (simp_all add: Suc_le_eq)

lemma partition_point_le: "partition_point P xs \<le> length xs"
  using pp_loop_start(1) [of xs P] by (cases "xs = []") (auto simp: partition_point_def Let_def)

lemma partition_point_prev:
  assumes "0 < partition_point P xs"
  shows "P (xs ! (partition_point P xs - 1))"
proof -
  let ?b = "pp_loop P xs 0 (length xs)"
  have ne: "xs \<noteq> []" using assms by (auto simp: partition_point_def)
  show ?thesis
  proof (cases "P (xs ! ?b)")
    case True
    then show ?thesis using ne by (simp add: partition_point_def)
  next
    case False
    then have "?b = 0" using pp_loop_start(2) [OF ne, of P] by blast
    then show ?thesis using assms ne False by (simp add: partition_point_def)
  qed
qed

lemma partition_point_ge:
  assumes "partitioned P xs" and "partition_point P xs \<le> j" and "j < length xs"
  shows "\<not> P (xs ! j)"
proof -
  have ne: "xs \<noteq> []" using assms(3) by auto
  let ?b = "pp_loop P xs 0 (length xs)"
  have props: "\<forall>j. ?b < j \<longrightarrow> j < length xs \<longrightarrow> \<not> P (xs ! j)"
    using pp_loop_props [of 0 P xs "length xs"] ne assms(1) by (simp add: Suc_le_eq)
  show ?thesis
  proof (cases "P (xs ! ?b)")
    case True
    then have "?b < j" using assms(2) ne by (simp add: partition_point_def)
    then show ?thesis using props assms(3) by blast
  next
    case False
    then have "?b \<le> j" using assms(2) ne by (simp add: partition_point_def)
    then show ?thesis using props assms(3) False by (metis le_neq_implies_less)
  qed
qed

lemma partition_point_eq:
  assumes "j \<le> length xs" "\<forall>i<length xs. P (xs ! i) \<longleftrightarrow> i < j"
  shows "partition_point P xs = j"
proof -
  have p: "partitioned P xs" using assms(2) by (auto simp: partitioned_def)
  have "\<not> j < partition_point P xs"
  proof
    assume j: "j < partition_point P xs"
    then have "P (xs ! (partition_point P xs - 1))" using partition_point_prev [of P xs] by simp
    then show False using assms(2) [rule_format, of "partition_point P xs - 1"] j partition_point_le [of P xs] by linarith
  qed
  moreover have "\<not> partition_point P xs < j"
    using partition_point_ge [OF p order.refl] assms by fastforce
  ultimately show ?thesis by simp
qed

lemma partition_point_prefix:
  assumes "partitioned P xs" and "j < partition_point P xs"
  shows "P (xs ! j)"
proof -
  let ?p = "partition_point P xs"
  have p: "P (xs ! (?p - 1))" "?p - 1 < length xs"
    using assms(2) partition_point_prev [of P xs] partition_point_le [of P xs] by simp_all
  show ?thesis
  proof (cases "j = ?p - 1")
    case True
    then show ?thesis using p by simp
  next
    case False
    then have "j < ?p - 1" using assms(2) by simp
    then show ?thesis using assms(1) p unfolding partitioned_def by blast
  qed
qed

end
