(* ===== verification/Pst_Error.thy ===== *)
theory Pst_Error
  imports Pst_Prelude
begin

text \<open>
  The enumerations and error types of the \<open>ndb\<close> and \<open>ltp\<close> modules, and the reader interface
  of \<open>std::io\<close> and \<open>byteorder\<close> that every decoder of the crate is written against. A decoder
  maps the bytes that remain in its source to an error or to a value and the bytes left over;
  an encoder yields the bytes it hands to the sink. Enumerations with a \<open>repr\<close> attribute have
  their discriminant as a separate function and their \<open>TryFrom\<close> as a partial inverse of it.
\<close>

section \<open>Enumerations\<close>

datatype node_id_type =
    HeapNode | Internal | NormalFolder | SearchFolder | NormalMessage | Attachment
  | SearchUpdateQueue | SearchCriteria | AssociatedMessage | OleObjectData | ContentsTableIndex
  | ReceiveFolderTable | OutgoingQueueTable | HierarchyTable | ContentsTable
  | AssociatedContentsTable | SearchContentsTable | AttachmentTable | RecipientTable
  | SearchTableIndex | ListsTablesProperties

datatype page_type =
    PageTypeNone | BlockBTree | NodeBTree | FreeMap | AllocationPageMap | AllocationMap
  | FreePageMap | DensityList

datatype amap_status =
    AmapInvalid | Valid1 | Valid2

datatype ndb_version =
    VersionAnsi | VersionUnicode

datatype ndb_crypt_method =
    CryptNone | Permute | Cyclic

datatype heap_node_type =
    HeapTypeReserved1 | HeapTypeTable | HeapTypeReserved2 | HeapTypeReserved3
  | HeapTypeReserved4 | HeapTypeReserved5 | HeapTypeTree | HeapTypeProperties
  | HeapTypeReserved6

datatype heap_fill_level =
    LevelEmpty | Level1 | Level2 | Level3 | Level4 | Level5 | Level6 | Level7 | Level8 | Level9
  | Level10 | Level11 | Level12 | Level13 | Level14 | Level15

datatype property_type =
    PtypNull | PtypInteger16 | PtypInteger32 | PtypFloating32 | PtypFloating64 | PtypCurrency
  | PtypFloatingTime | PtypErrorCode | PtypBoolean | PtypInteger64 | PtypString8 | PtypUnicode
  | PtypTime | PtypGuid | PtypBinary | PtypObject | PtypMultipleInteger16
  | PtypMultipleInteger32 | PtypMultipleFloating32 | PtypMultipleFloating64
  | PtypMultipleCurrency | PtypMultipleFloatingTime | PtypMultipleInteger64
  | PtypMultipleString8 | PtypMultipleUnicode | PtypMultipleTime | PtypMultipleGuid
  | PtypMultipleBinary

section \<open>Errors\<close>

text \<open>
  \<open>NdbError\<close>, \<open>LtpError\<close> and the values of \<open>std::io::Error\<close> the crate produces: a plain
  error of the kind the standard library raises, a converted \<open>NdbError\<close> or \<open>LtpError\<close>, or a Rust
  panic (an index or a slice out of range, a failed copy between slices of unequal length).
  The payload of \<open>InvalidInternalBlockData\<close> is an error of a cursor read, hence a plain one.
\<close>

datatype io_kind =
    UnexpectedEof | WriteZero | InvalidInput | InvalidData

datatype (plugins only: code) ndb_error =
    InvalidNodeIdType u8 | InvalidNodeIndex u32 | InvalidUnicodeBlockIndex u64
  | InvalidAnsiBlockIndex u32 | InvalidAmapStatus u8 | InvalidNdbVersion u16
  | InvalidNdbCryptMethod u8 | InvalidNdbHeaderMagicValue u32 | InvalidNdbHeaderPartialCrc u32
  | InvalidNdbHeaderMagicClientValue u16 | InvalidNdbHeaderFullCrc u32 | AnsiPstVersion u16
  | InvalidNdbHeaderClientVersion u16 | InvalidNdbHeaderPlatformCreate u8
  | InvalidNdbHeaderPlatformAccess u8 | InvalidNdbHeaderAlignValue u32
  | InvalidNdbHeaderSentinelValue u8 | InvalidNdbHeaderReservedValue u16
  | UnicodePstVersion u16 | InvalidNdbHeaderAnsiReservedBytes | MismatchPageTypeRepeat u8 u8
  | InvalidPageType u8 | UnexpectedPageType page_type | InvalidPageCrc u32
  | InvalidDensityListEntryPageNumber u32 | InvalidDensityListEntryFreeSlots u16
  | InvalidDensityListEntryCount nat | InvalidDensityListPadding | InvalidBTreePageLevel u8
  | InvalidBTreeEntryCount nat | InvalidBTreeEntryMaxCount u8 | InvalidBTreeEntrySize u8
  | InvalidBTreePagePadding u32 | BTreePageNotFound u64 | InvalidNodeBTreeEntryNodeId u64
  | InvalidBlockSize u16 | InvalidBlockCrc u32 | InvalidUnicodeBlockTrailerId u64
  | InvalidAnsiBlockTrailerId u32 | InvalidInternalBlockEncoding ndb_crypt_method
  | InvalidInternalBlockData io_kind | InvalidInternalBlockType u8
  | InvalidInternalBlockLevel u8 | InvalidInternalBlockEntryCount u16
  | InvalidSubNodeBlockPadding u32 | SubNodeNotFound u32 | SubNodeTreeDepthExceeded nat
  | SubNodeTreeCycle u64 | SubNodeTreeEntryLimitExceeded nat | DataTreeDepthExceeded nat
  | DataTreeCycle u64 | DataTreeEntryLimitExceeded nat
  | DataTreeMaterializationLimitExceeded nat | DataTreeSizeMismatch nat nat

datatype (plugins only: code) ltp_error =
    NodeDatabaseError ndb_error | InvalidHeapIndex u16 | InvalidNodeType node_id_type
  | InvalidHeapNodeSignature u8 | InvalidHeapNodeTypeSignature u8 | InvalidHeapFillLevel u8
  | HeapPageOutOfSpace | EmptyHeapPageAlloc | InvalidHeapPageAllocOffset u16
  | InvalidHeapPageAllocCount u16 | InvalidHeapPageFreeCount u16
  | InvalidHeapTreeNodeType heap_node_type | InvalidHeapTreeKeySize u8
  | InvalidHeapTreeDataSize u8 | HeapBlockIndexNotFound u16 | HeapAllocIndexNotFound u16
  | InvalidPropertyType u16 | InvalidVariableLengthPropertyType property_type
  | InvalidMultiValuePropertyOffset nat | InvalidMultiValuePropertyCount nat
  | PropertySubNodeValueNotFound u32 | InvalidSmallPropertyType property_type
  | InvalidPropertyTreeKeySize u8 | InvalidPropertyTreeEntrySize u8 | FailedToLockFile
  | InvalidTableContextHeapTreeNodeType heap_node_type | InvalidTableContextColumnCount nat
  | InvalidTableContext4ByteOffset u16 | InvalidTableContext2ByteOffset u16
  | InvalidTableContext1ByteOffset u16 | InvalidTableContextBitmaskOffset u16
  | TableContextRowIdColumnNotFound | InvalidTableContextRowIdColumn u16 property_type
  | TableContextRowVersionColumnNotFound
  | InvalidTableContextRowVersionColumn u16 property_type
  | InvalidTableColumnPropertyType property_type | InvalidTableColumnOffset u16
  | InvalidTableColumnSize u8 | InvalidTableColumnBitmaskOffset u8
  | InvalidTableColumnBooleanValue u8 | TableRowIdNotFound u32
  | InvalidTableRowIndex u32 nat nat | TableRowIdMismatch u32 u32
  | InvalidTableRowMatrixSize nat nat

datatype (plugins only: code) io_error =
    Io io_kind | NdbIo ndb_error | LtpIo ltp_error | Panic

section \<open>Discriminants and their partial inverses\<close>

primrec node_id_type_code :: "node_id_type \<Rightarrow> u8" where
  "node_id_type_code HeapNode = 0x00"
| "node_id_type_code Internal = 0x01"
| "node_id_type_code NormalFolder = 0x02"
| "node_id_type_code SearchFolder = 0x03"
| "node_id_type_code NormalMessage = 0x04"
| "node_id_type_code Attachment = 0x05"
| "node_id_type_code SearchUpdateQueue = 0x06"
| "node_id_type_code SearchCriteria = 0x07"
| "node_id_type_code AssociatedMessage = 0x08"
| "node_id_type_code OleObjectData = 0x09"
| "node_id_type_code ContentsTableIndex = 0x0A"
| "node_id_type_code ReceiveFolderTable = 0x0B"
| "node_id_type_code OutgoingQueueTable = 0x0C"
| "node_id_type_code HierarchyTable = 0x0D"
| "node_id_type_code ContentsTable = 0x0E"
| "node_id_type_code AssociatedContentsTable = 0x0F"
| "node_id_type_code SearchContentsTable = 0x10"
| "node_id_type_code AttachmentTable = 0x11"
| "node_id_type_code RecipientTable = 0x12"
| "node_id_type_code SearchTableIndex = 0x13"
| "node_id_type_code ListsTablesProperties = 0x1F"

definition node_id_type_try_from :: "u8 \<Rightarrow> ndb_error + node_id_type" where
  "node_id_type_try_from value =
    (if value = 0x00 then Inr HeapNode
     else if value = 0x01 then Inr Internal
     else if value = 0x02 then Inr NormalFolder
     else if value = 0x03 then Inr SearchFolder
     else if value = 0x04 then Inr NormalMessage
     else if value = 0x05 then Inr Attachment
     else if value = 0x06 then Inr SearchUpdateQueue
     else if value = 0x07 then Inr SearchCriteria
     else if value = 0x08 then Inr AssociatedMessage
     else if value = 0x09 then Inr OleObjectData
     else if value = 0x0A then Inr ContentsTableIndex
     else if value = 0x0B then Inr ReceiveFolderTable
     else if value = 0x0C then Inr OutgoingQueueTable
     else if value = 0x0D then Inr HierarchyTable
     else if value = 0x0E then Inr ContentsTable
     else if value = 0x0F then Inr AssociatedContentsTable
     else if value = 0x10 then Inr SearchContentsTable
     else if value = 0x11 then Inr AttachmentTable
     else if value = 0x12 then Inr RecipientTable
     else if value = 0x13 then Inr SearchTableIndex
     else if value = 0x1F then Inr ListsTablesProperties
     else Inl (InvalidNodeIdType value))"

primrec page_type_code :: "page_type \<Rightarrow> u8" where
  "page_type_code PageTypeNone = 0x00"
| "page_type_code BlockBTree = 0x80"
| "page_type_code NodeBTree = 0x81"
| "page_type_code FreeMap = 0x82"
| "page_type_code AllocationPageMap = 0x83"
| "page_type_code AllocationMap = 0x84"
| "page_type_code FreePageMap = 0x85"
| "page_type_code DensityList = 0x86"

definition page_type_try_from :: "u8 \<Rightarrow> ndb_error + page_type" where
  "page_type_try_from value =
    (if value = 0x80 then Inr BlockBTree
     else if value = 0x81 then Inr NodeBTree
     else if value = 0x82 then Inr FreeMap
     else if value = 0x83 then Inr AllocationPageMap
     else if value = 0x84 then Inr AllocationMap
     else if value = 0x85 then Inr FreePageMap
     else if value = 0x86 then Inr DensityList
     else Inl (InvalidPageType value))"

primrec amap_status_code :: "amap_status \<Rightarrow> u8" where
  "amap_status_code AmapInvalid = 0x00"
| "amap_status_code Valid1 = 0x01"
| "amap_status_code Valid2 = 0x02"

definition amap_status_try_from :: "u8 \<Rightarrow> ndb_error + amap_status" where
  "amap_status_try_from value =
    (if value = 0x00 then Inr AmapInvalid
     else if value = 0x01 then Inr Valid1
     else if value = 0x02 then Inr Valid2
     else Inl (InvalidAmapStatus value))"

primrec ndb_version_code :: "ndb_version \<Rightarrow> u16" where
  "ndb_version_code VersionAnsi = 15"
| "ndb_version_code VersionUnicode = 23"

definition ndb_version_try_from :: "u16 \<Rightarrow> ndb_error + ndb_version" where
  "ndb_version_try_from value =
    (if value = 14 \<or> value = 15 then Inr VersionAnsi
     else if value = 23 then Inr VersionUnicode
     else Inl (InvalidNdbVersion value))"

primrec ndb_crypt_method_code :: "ndb_crypt_method \<Rightarrow> u8" where
  "ndb_crypt_method_code CryptNone = 0x00"
| "ndb_crypt_method_code Permute = 0x01"
| "ndb_crypt_method_code Cyclic = 0x02"

definition ndb_crypt_method_try_from :: "u8 \<Rightarrow> ndb_error + ndb_crypt_method" where
  "ndb_crypt_method_try_from value =
    (if value = 0x00 then Inr CryptNone
     else if value = 0x01 then Inr Permute
     else if value = 0x02 then Inr Cyclic
     else Inl (InvalidNdbCryptMethod value))"

primrec heap_node_type_code :: "heap_node_type \<Rightarrow> u8" where
  "heap_node_type_code HeapTypeReserved1 = 0x6C"
| "heap_node_type_code HeapTypeTable = 0x7C"
| "heap_node_type_code HeapTypeReserved2 = 0x8C"
| "heap_node_type_code HeapTypeReserved3 = 0x9C"
| "heap_node_type_code HeapTypeReserved4 = 0xA5"
| "heap_node_type_code HeapTypeReserved5 = 0xAC"
| "heap_node_type_code HeapTypeTree = 0xB5"
| "heap_node_type_code HeapTypeProperties = 0xBC"
| "heap_node_type_code HeapTypeReserved6 = 0xCC"

definition heap_node_type_try_from :: "u8 \<Rightarrow> ltp_error + heap_node_type" where
  "heap_node_type_try_from value =
    (if value = 0x6C then Inr HeapTypeReserved1
     else if value = 0x7C then Inr HeapTypeTable
     else if value = 0x8C then Inr HeapTypeReserved2
     else if value = 0x9C then Inr HeapTypeReserved3
     else if value = 0xA5 then Inr HeapTypeReserved4
     else if value = 0xAC then Inr HeapTypeReserved5
     else if value = 0xB5 then Inr HeapTypeTree
     else if value = 0xBC then Inr HeapTypeProperties
     else if value = 0xCC then Inr HeapTypeReserved6
     else Inl (InvalidHeapNodeTypeSignature value))"

primrec heap_fill_level_code :: "heap_fill_level \<Rightarrow> u8" where
  "heap_fill_level_code LevelEmpty = 0x00"
| "heap_fill_level_code Level1 = 0x01"
| "heap_fill_level_code Level2 = 0x02"
| "heap_fill_level_code Level3 = 0x03"
| "heap_fill_level_code Level4 = 0x04"
| "heap_fill_level_code Level5 = 0x05"
| "heap_fill_level_code Level6 = 0x06"
| "heap_fill_level_code Level7 = 0x07"
| "heap_fill_level_code Level8 = 0x08"
| "heap_fill_level_code Level9 = 0x09"
| "heap_fill_level_code Level10 = 0x0A"
| "heap_fill_level_code Level11 = 0x0B"
| "heap_fill_level_code Level12 = 0x0C"
| "heap_fill_level_code Level13 = 0x0D"
| "heap_fill_level_code Level14 = 0x0E"
| "heap_fill_level_code Level15 = 0x0F"

definition heap_fill_level_try_from :: "u8 \<Rightarrow> ltp_error + heap_fill_level" where
  "heap_fill_level_try_from value =
    (if value = 0x00 then Inr LevelEmpty
     else if value = 0x01 then Inr Level1
     else if value = 0x02 then Inr Level2
     else if value = 0x03 then Inr Level3
     else if value = 0x04 then Inr Level4
     else if value = 0x05 then Inr Level5
     else if value = 0x06 then Inr Level6
     else if value = 0x07 then Inr Level7
     else if value = 0x08 then Inr Level8
     else if value = 0x09 then Inr Level9
     else if value = 0x0A then Inr Level10
     else if value = 0x0B then Inr Level11
     else if value = 0x0C then Inr Level12
     else if value = 0x0D then Inr Level13
     else if value = 0x0E then Inr Level14
     else if value = 0x0F then Inr Level15
     else Inl (InvalidHeapFillLevel value))"

primrec property_type_code :: "property_type \<Rightarrow> u16" where
  "property_type_code PtypNull = 0x0001"
| "property_type_code PtypInteger16 = 0x0002"
| "property_type_code PtypInteger32 = 0x0003"
| "property_type_code PtypFloating32 = 0x0004"
| "property_type_code PtypFloating64 = 0x0005"
| "property_type_code PtypCurrency = 0x0006"
| "property_type_code PtypFloatingTime = 0x0007"
| "property_type_code PtypErrorCode = 0x000A"
| "property_type_code PtypBoolean = 0x000B"
| "property_type_code PtypInteger64 = 0x0014"
| "property_type_code PtypString8 = 0x001E"
| "property_type_code PtypUnicode = 0x001F"
| "property_type_code PtypTime = 0x0040"
| "property_type_code PtypGuid = 0x0048"
| "property_type_code PtypBinary = 0x0102"
| "property_type_code PtypObject = 0x000D"
| "property_type_code PtypMultipleInteger16 = 0x1002"
| "property_type_code PtypMultipleInteger32 = 0x1003"
| "property_type_code PtypMultipleFloating32 = 0x1004"
| "property_type_code PtypMultipleFloating64 = 0x1005"
| "property_type_code PtypMultipleCurrency = 0x1006"
| "property_type_code PtypMultipleFloatingTime = 0x1007"
| "property_type_code PtypMultipleInteger64 = 0x1014"
| "property_type_code PtypMultipleString8 = 0x101E"
| "property_type_code PtypMultipleUnicode = 0x101F"
| "property_type_code PtypMultipleTime = 0x1040"
| "property_type_code PtypMultipleGuid = 0x1048"
| "property_type_code PtypMultipleBinary = 0x1102"

definition property_type_try_from :: "u16 \<Rightarrow> ltp_error + property_type" where
  "property_type_try_from value =
    (if value = 0x0001 then Inr PtypNull
     else if value = 0x0002 then Inr PtypInteger16
     else if value = 0x0003 then Inr PtypInteger32
     else if value = 0x0004 then Inr PtypFloating32
     else if value = 0x0005 then Inr PtypFloating64
     else if value = 0x0006 then Inr PtypCurrency
     else if value = 0x0007 then Inr PtypFloatingTime
     else if value = 0x000A then Inr PtypErrorCode
     else if value = 0x000B then Inr PtypBoolean
     else if value = 0x0014 then Inr PtypInteger64
     else if value = 0x001E then Inr PtypString8
     else if value = 0x001F then Inr PtypUnicode
     else if value = 0x0040 then Inr PtypTime
     else if value = 0x0048 then Inr PtypGuid
     else if value = 0x0102 then Inr PtypBinary
     else if value = 0x000D then Inr PtypObject
     else if value = 0x1002 then Inr PtypMultipleInteger16
     else if value = 0x1003 then Inr PtypMultipleInteger32
     else if value = 0x1004 then Inr PtypMultipleFloating32
     else if value = 0x1005 then Inr PtypMultipleFloating64
     else if value = 0x1006 then Inr PtypMultipleCurrency
     else if value = 0x1007 then Inr PtypMultipleFloatingTime
     else if value = 0x1014 then Inr PtypMultipleInteger64
     else if value = 0x101E then Inr PtypMultipleString8
     else if value = 0x101F then Inr PtypMultipleUnicode
     else if value = 0x1040 then Inr PtypMultipleTime
     else if value = 0x1048 then Inr PtypMultipleGuid
     else if value = 0x1102 then Inr PtypMultipleBinary
     else Inl (InvalidPropertyType value))"


section \<open>Readers\<close>

type_synonym 'a decoder = "bytes \<Rightarrow> io_error + 'a \<times> bytes"

definition read_exact :: "nat \<Rightarrow> bytes decoder" where
  "read_exact n bs = (if n \<le> length bs then Inr (take n bs, drop n bs) else Inl (Io UnexpectedEof))"

definition read_u8 :: "u8 decoder" where
  "read_u8 bs = (case bs of [] \<Rightarrow> Inl (Io UnexpectedEof) | b # r \<Rightarrow> Inr (b, r))"

definition read_u16 :: "u16 decoder" where
  "read_u16 bs = (case read_exact 2 bs of Inl e \<Rightarrow> Inl e | Inr (b, r) \<Rightarrow> Inr (from_le b, r))"

definition read_u32 :: "u32 decoder" where
  "read_u32 bs = (case read_exact 4 bs of Inl e \<Rightarrow> Inl e | Inr (b, r) \<Rightarrow> Inr (from_le b, r))"

definition read_u64 :: "u64 decoder" where
  "read_u64 bs = (case read_exact 8 bs of Inl e \<Rightarrow> Inl e | Inr (b, r) \<Rightarrow> Inr (from_le b, r))"

abbreviation write_u8 :: "u8 \<Rightarrow> bytes" where "write_u8 w \<equiv> [w]"
abbreviation write_u16 :: "u16 \<Rightarrow> bytes" where "write_u16 w \<equiv> to_le 2 w"
abbreviation write_u32 :: "u32 \<Rightarrow> bytes" where "write_u32 w \<equiv> to_le 4 w"
abbreviation write_u64 :: "u64 \<Rightarrow> bytes" where "write_u64 w \<equiv> to_le 8 w"

text \<open>A loop that calls a decoder \<open>n\<close> times and stops at the first error.\<close>

fun read_many :: "nat \<Rightarrow> 'a decoder \<Rightarrow> 'a list decoder" where
  "read_many 0 d bs = Inr ([], bs)"
| "read_many (Suc n) d bs =
    (case d bs of Inl e \<Rightarrow> Inl e
     | Inr (x, r) \<Rightarrow> (case read_many n d r of Inl e \<Rightarrow> Inl e | Inr (xs, r') \<Rightarrow> Inr (x # xs, r')))"

text \<open>
  \<open>Cursor<[u8; n]>\<close>: the array starts out zeroed, the bytes written overwrite its beginning,
  and a write that would pass its end fails with \<open>WriteZero\<close>.
\<close>

definition cursor_array :: "nat \<Rightarrow> bytes \<Rightarrow> io_error + bytes" where
  "cursor_array n bs =
    (if length bs \<le> n then Inr (bs @ replicate (n - length bs) 0) else Inl (Io WriteZero))"

text \<open>\<open>seek(Start(offset))\<close> followed by \<open>read_exact\<close> on the whole file.\<close>

definition read_at :: "bytes \<Rightarrow> nat \<Rightarrow> nat \<Rightarrow> io_error + bytes" where
  "read_at file offset n =
    (case read_exact n (drop offset file) of Inl e \<Rightarrow> Inl e | Inr (b, _) \<Rightarrow> Inr b)"

text \<open>\<open>seek(Start(offset))\<close> followed by \<open>write_all\<close>: a gap past the end is filled with zeros.\<close>

definition write_at :: "bytes \<Rightarrow> nat \<Rightarrow> bytes \<Rightarrow> bytes" where
  "write_at file offset bs =
    take offset (file @ replicate (offset - length file) 0) @ bs @
    drop (offset + length bs) file"

lemma length_write_at: "length (write_at file offset bs) = max (length file) (offset + length bs)"
  by (simp add: write_at_def)

lemma drop_write_at [simp]:
  "drop offset (write_at file offset bs) = bs @ drop (offset + length bs) file"
  by (simp add: write_at_def)

lemma read_exact_append [simp]:
  "length b = n \<Longrightarrow> read_exact n (b @ r) = Inr (b, r)"
  by (simp add: read_exact_def)

lemma read_exact_all [simp]: "length b = n \<Longrightarrow> read_exact n b = Inr (b, [])"
  by (simp add: read_exact_def)

lemma read_exact_short: "length bs < n \<Longrightarrow> read_exact n bs = Inl (Io UnexpectedEof)"
  by (simp add: read_exact_def)

lemma read_exact_Inr_iff [pst_result]:
  "read_exact n bs = Inr (b, r) \<longleftrightarrow> bs = b @ r \<and> length b = n"
  by (auto simp: read_exact_def)

lemma cursor_array_exact [simp]: "length bs = n \<Longrightarrow> cursor_array n bs = Inr bs"
  by (simp add: cursor_array_def)

lemma cursor_array_Inr_iff [pst_result]:
  "cursor_array n bs = Inr b \<longleftrightarrow> length bs \<le> n \<and> b = bs @ replicate (n - length bs) 0"
  by (auto simp: cursor_array_def)

section \<open>The codec interface\<close>

text \<open>
  The contract between the encoder and the decoder of a fixed-size value: every value that is
  \<open>ok\<close> has an encoding of the declared size, and decoding it gives the value back and
  leaves what follows untouched. A sequence of values is then a codec too.
\<close>

locale codec =
  fixes enc :: "'a \<Rightarrow> bytes"
    and dec :: "'a decoder"
    and ok :: "'a \<Rightarrow> bool"
    and sz :: nat
  assumes length_enc: "ok x \<Longrightarrow> length (enc x) = sz"
    and dec_enc: "ok x \<Longrightarrow> dec (enc x @ r) = Inr (x, r)"
begin

lemma dec_enc_all: "ok x \<Longrightarrow> dec (enc x) = Inr (x, [])"
  using dec_enc [of x "[]"] by simp

lemma enc_inj: "ok x \<Longrightarrow> ok y \<Longrightarrow> enc x = enc y \<Longrightarrow> x = y"
  by (metis dec_enc_all sum.inject(2) prod.inject)

lemma length_concat_enc: "\<forall>x\<in>set xs. ok x \<Longrightarrow> length (concat (map enc xs)) = sz * length xs"
  by (induction xs) (simp_all add: length_enc)

lemma read_many_enc:
  "\<forall>x\<in>set xs. ok x \<Longrightarrow> n = length xs \<Longrightarrow>
    read_many n dec (concat (map enc xs) @ r) = Inr (xs, r)"
  by (induction xs arbitrary: n) (simp_all add: dec_enc)

lemma read_many_enc_all:
  "\<forall>x\<in>set xs. ok x \<Longrightarrow> n = length xs \<Longrightarrow>
    read_many n dec (concat (map enc xs)) = Inr (xs, [])"
  using read_many_enc [of xs n "[]"] by simp

end

interpretation u8: codec "\<lambda>w. [w]" read_u8 "\<lambda>_. True" 1
  by unfold_locales (simp_all add: read_u8_def)

interpretation u16: codec "to_le 2" read_u16 "\<lambda>_. True" 2
  by unfold_locales (simp_all add: read_u16_def)

interpretation u32: codec "to_le 4" read_u32 "\<lambda>_. True" 4
  by unfold_locales (simp_all add: read_u32_def)

interpretation u64: codec "to_le 8" read_u64 "\<lambda>_. True" 8
  by unfold_locales (simp_all add: read_u64_def)

lemma read_u8_Cons [simp, le_simps]: "read_u8 (b # r) = Inr (b, r)"
  by (simp add: read_u8_def)

lemmas read_word_simps [simplified, simp, le_simps] =
  u16.dec_enc u32.dec_enc u64.dec_enc u16.dec_enc_all u32.dec_enc_all u64.dec_enc_all

lemma length_read_many: "read_many n d bs = Inr (xs, r) \<Longrightarrow> length xs = n"
  by (induction n d bs arbitrary: xs r rule: read_many.induct)
    (auto split: sum.splits prod.splits)

section \<open>Discriminants round trip\<close>

text \<open>Every variant is read back from its discriminant, and no value but a discriminant is
  accepted. The default \<open>PageType::None\<close> is never read; \<open>wVer\<close> 14 is a second encoding of
  the ANSI version.\<close>

lemma node_id_type_try_from_code [simp]:
  "node_id_type_try_from (node_id_type_code t) = Inr t"
  by (cases t) (simp_all add: node_id_type_try_from_def)

lemma node_id_type_code_try_from:
  "node_id_type_try_from v = Inr t \<Longrightarrow> node_id_type_code t = v"
  by (auto simp: node_id_type_try_from_def split: if_splits)

lemma page_type_try_from_code [simp]:
  "t \<noteq> PageTypeNone \<Longrightarrow> page_type_try_from (page_type_code t) = Inr t"
  by (cases t) (simp_all add: page_type_try_from_def)

lemma page_type_code_try_from:
  "page_type_try_from v = Inr t \<Longrightarrow> page_type_code t = v \<and> t \<noteq> PageTypeNone"
  by (auto simp: page_type_try_from_def split: if_splits)

lemma amap_status_try_from_code [simp]: "amap_status_try_from (amap_status_code t) = Inr t"
  by (cases t) (simp_all add: amap_status_try_from_def)

lemma ndb_version_try_from_code [simp]: "ndb_version_try_from (ndb_version_code t) = Inr t"
  by (cases t) (simp_all add: ndb_version_try_from_def)

lemma ndb_crypt_method_try_from_code [simp]:
  "ndb_crypt_method_try_from (ndb_crypt_method_code t) = Inr t"
  by (cases t) (simp_all add: ndb_crypt_method_try_from_def)

lemma heap_node_type_try_from_code [simp]:
  "heap_node_type_try_from (heap_node_type_code t) = Inr t"
  by (cases t) (simp_all add: heap_node_type_try_from_def)

lemma heap_fill_level_try_from_code [simp]:
  "heap_fill_level_try_from (heap_fill_level_code t) = Inr t"
  by (cases t) (simp_all add: heap_fill_level_try_from_def)

lemma property_type_try_from_code [simp]:
  "property_type_try_from (property_type_code t) = Inr t"
  by (cases t) (simp_all add: property_type_try_from_def)

lemma property_type_code_try_from:
  "property_type_try_from v = Inr t \<Longrightarrow> property_type_code t = v"
  by (auto simp: property_type_try_from_def split: if_splits)

end
