(* ===== verification/Encode.thy ===== *)
theory Encode
  imports Pst_Error
begin

text \<open>
  The \<open>encode\<close> module: the key table, the permutative encoding and the cyclic encoding of block
  data. The permutation tables are mutually inverse and the middle table is an involution, so
  the permutative encoding round trips and the cyclic one is its own inverse.
\<close>

section \<open>Definitions from the source\<close>

definition KEY_DATA :: "u8 list" where
  "KEY_DATA = [
    65, 54, 19, 98, 168, 33, 110, 187, 244, 22, 204, 4, 127, 100, 232, 93, 30, 242, 203, 42,
    116, 197, 94, 53, 210, 149, 71, 158, 150, 45, 154, 136, 76, 125, 132, 63, 219, 172, 49, 182,
    72, 95, 246, 196, 216, 57, 139, 231, 35, 59, 56, 142, 200, 193, 223, 37, 177, 32, 165, 70,
    96, 78, 156, 251, 170, 211, 86, 81, 69, 124, 85, 0, 7, 201, 43, 157, 133, 155, 9, 160,
    143, 173, 179, 15, 99, 171, 137, 75, 215, 167, 21, 90, 113, 102, 66, 191, 38, 74, 107, 152,
    250, 234, 119, 83, 178, 112, 5, 44, 253, 89, 58, 134, 126, 206, 6, 235, 130, 120, 87, 199,
    141, 67, 175, 180, 28, 212, 91, 205, 226, 233, 39, 79, 195, 8, 114, 128, 207, 176, 239, 245,
    40, 109, 190, 48, 77, 52, 146, 213, 14, 60, 34, 50, 229, 228, 249, 159, 194, 209, 10, 129,
    18, 225, 238, 145, 131, 118, 227, 151, 230, 97, 138, 23, 121, 164, 183, 220, 144, 122, 92, 140,
    2, 166, 202, 105, 222, 80, 26, 17, 147, 185, 82, 135, 88, 252, 237, 29, 55, 73, 27, 106,
    224, 41, 51, 153, 189, 108, 217, 148, 243, 64, 84, 111, 240, 198, 115, 184, 214, 62, 101, 24,
    68, 31, 221, 103, 16, 241, 12, 25, 236, 174, 3, 161, 20, 123, 169, 11, 255, 248, 163, 192,
    162, 1, 247, 46, 188, 36, 104, 117, 13, 254, 186, 47, 181, 208, 218, 61, 20, 83, 15, 86,
    179, 200, 122, 156, 235, 101, 72, 23, 22, 21, 159, 2, 204, 84, 124, 131, 0, 13, 12, 11,
    162, 98, 168, 118, 219, 217, 237, 199, 197, 164, 220, 172, 133, 116, 214, 208, 167, 155, 174, 154,
    150, 113, 102, 195, 99, 153, 184, 221, 115, 146, 142, 132, 125, 165, 94, 209, 93, 147, 177, 87,
    81, 80, 128, 137, 82, 148, 79, 78, 10, 107, 188, 141, 127, 110, 71, 70, 65, 64, 68, 1,
    17, 203, 3, 63, 247, 244, 225, 169, 143, 60, 58, 249, 251, 240, 25, 48, 130, 9, 46, 201,
    157, 160, 134, 73, 238, 111, 77, 109, 196, 45, 129, 52, 37, 135, 27, 136, 170, 252, 6, 161,
    18, 56, 253, 76, 66, 114, 100, 19, 55, 36, 106, 117, 119, 67, 255, 230, 180, 75, 54, 92,
    228, 216, 53, 61, 69, 185, 44, 236, 183, 49, 43, 41, 7, 104, 163, 14, 105, 123, 24, 158,
    33, 57, 190, 40, 26, 91, 120, 245, 35, 202, 42, 176, 175, 62, 254, 4, 140, 231, 229, 152,
    50, 149, 211, 246, 74, 232, 166, 234, 233, 243, 213, 47, 112, 32, 242, 31, 5, 103, 173, 85,
    16, 206, 205, 227, 39, 59, 218, 186, 215, 194, 38, 212, 145, 29, 210, 28, 34, 51, 248, 250,
    241, 90, 239, 207, 144, 182, 139, 181, 189, 192, 191, 8, 151, 30, 108, 226, 97, 224, 198, 193,
    89, 171, 187, 88, 222, 95, 223, 96, 121, 126, 178, 138, 71, 241, 180, 230, 11, 106, 114, 72,
    133, 78, 158, 235, 226, 248, 148, 83, 224, 187, 160, 2, 232, 90, 9, 171, 219, 227, 186, 198,
    124, 195, 16, 221, 57, 5, 150, 48, 245, 55, 96, 130, 140, 201, 19, 74, 107, 29, 243, 251,
    143, 38, 151, 202, 145, 23, 1, 196, 50, 45, 110, 49, 149, 255, 217, 35, 209, 0, 94, 121,
    220, 68, 59, 26, 40, 197, 97, 87, 32, 144, 61, 131, 185, 67, 190, 103, 210, 70, 66, 118,
    192, 109, 91, 126, 178, 15, 22, 41, 60, 169, 3, 84, 13, 218, 93, 223, 246, 183, 199, 98,
    205, 141, 6, 211, 105, 92, 134, 214, 20, 247, 165, 102, 117, 172, 177, 233, 69, 33, 112, 12,
    135, 159, 116, 164, 34, 76, 111, 191, 31, 86, 170, 46, 179, 120, 51, 80, 176, 163, 146, 188,
    207, 25, 28, 167, 99, 203, 30, 77, 62, 75, 27, 155, 79, 231, 240, 238, 173, 58, 181, 89,
    4, 234, 64, 85, 37, 81, 229, 122, 137, 56, 104, 82, 123, 252, 39, 174, 215, 189, 250, 7,
    244, 204, 142, 95, 239, 53, 156, 132, 43, 21, 213, 119, 52, 73, 182, 18, 10, 127, 113, 136,
    253, 157, 24, 65, 125, 147, 216, 88, 44, 206, 254, 36, 175, 222, 184, 54, 200, 161, 128, 166,
    153, 152, 168, 47, 14, 129, 101, 115, 228, 194, 162, 138, 212, 225, 17, 208, 8, 139, 42, 242,
    237, 154, 100, 63, 193, 108, 249, 236]"

definition key_data_r :: "u8 list" where "key_data_r = take 256 KEY_DATA"
definition key_data_s :: "u8 list" where "key_data_s = drop 256 (take 512 KEY_DATA)"
definition key_data_i :: "u8 list" where "key_data_i = drop 512 KEY_DATA"

definition permute :: "bytes \<Rightarrow> u8 list \<Rightarrow> bytes" where
  "permute data table = map (\<lambda>b. table ! unat b) data"

definition permute_encode_block :: "bytes \<Rightarrow> bytes" where
  "permute_encode_block data = permute data key_data_r"

definition permute_decode_block :: "bytes \<Rightarrow> bytes" where
  "permute_decode_block data = permute data key_data_i"

definition cyclic_byte :: "u16 \<Rightarrow> u8 \<Rightarrow> u8" where
  "cyclic_byte key b =
    (let low_key = ucast key; high_key = ucast (drop_bit 8 key);
         b = b + low_key;
         b = key_data_r ! unat b;
         b = b + high_key;
         b = key_data_s ! unat b;
         b = b - high_key;
         b = key_data_i ! unat b
     in b - low_key)"

fun cyclic_loop :: "u16 \<Rightarrow> bytes \<Rightarrow> bytes" where
  "cyclic_loop key [] = []"
| "cyclic_loop key (b # bs) = cyclic_byte key b # cyclic_loop (key + 1) bs"

definition encode_decode_block :: "bytes \<Rightarrow> u32 \<Rightarrow> bytes" where
  "encode_decode_block data key = cyclic_loop (ucast (key XOR drop_bit 16 key)) data"

section \<open>The tables\<close>

lemma i_after_r_all: "list_all (\<lambda>b. key_data_i ! unat (key_data_r ! unat b) = b) all_bytes"
  by code_simp

lemma s_after_s_all: "list_all (\<lambda>b. key_data_s ! unat (key_data_s ! unat b) = b) all_bytes"
  by code_simp

lemma i_after_r: "key_data_i ! unat (key_data_r ! unat b) = b"
  using i_after_r_all byte_in_all [of b] by (simp add: list_all_iff)

lemma s_after_s: "key_data_s ! unat (key_data_s ! unat b) = b"
  using s_after_s_all byte_in_all [of b] by (simp add: list_all_iff)

text \<open>A left inverse on the finite type of bytes is a right inverse too.\<close>

lemma byte_left_inverse:
  fixes f g :: "u8 \<Rightarrow> u8"
  assumes "\<And>b. g (f b) = b"
  shows "f (g b) = b"
proof -
  have "inj f" using assms by (rule inj_on_inverseI)
  then have "surj f" by (rule finite_UNIV_inj_surj [rotated]) simp
  then obtain a where "b = f a" by auto
  then show ?thesis using assms by simp
qed

lemma r_after_i: "key_data_r ! unat (key_data_i ! unat b) = b"
  by (rule byte_left_inverse [where f = "\<lambda>b. key_data_r ! unat b"]) (rule i_after_r)

section \<open>Properties\<close>

lemma cyclic_byte_involution: "cyclic_byte key (cyclic_byte key b) = b"
  by (simp add: cyclic_byte_def Let_def r_after_i i_after_r s_after_s)

lemma cyclic_loop_involution: "cyclic_loop key (cyclic_loop key bs) = bs"
  by (induction bs arbitrary: key) (simp_all add: cyclic_byte_involution)

lemma length_cyclic_loop [simp]: "length (cyclic_loop key bs) = length bs"
  by (induction bs arbitrary: key) simp_all

lemma length_encode_decode_block [simp]: "length (encode_decode_block bs key) = length bs"
  by (simp add: encode_decode_block_def)

lemma length_permute [simp]:
  "length (permute_encode_block bs) = length bs" "length (permute_decode_block bs) = length bs"
  by (simp_all add: permute_encode_block_def permute_decode_block_def permute_def)

lemma cyclic_loop_append:
  "cyclic_loop key (xs @ ys) = cyclic_loop key xs @ cyclic_loop (key + word_of_nat (length xs)) ys"
  by (induction xs arbitrary: key) (simp_all add: ac_simps)

lemma permute_decode_encode: "permute_decode_block (permute_encode_block data) = data"
  by (simp add: permute_decode_block_def permute_encode_block_def permute_def i_after_r comp_def)

lemma permute_encode_decode: "permute_encode_block (permute_decode_block data) = data"
  by (simp add: permute_decode_block_def permute_encode_block_def permute_def r_after_i comp_def)

lemma encode_decode_block_self: "encode_decode_block (encode_decode_block data key) key = data"
  by (simp add: encode_decode_block_def cyclic_loop_involution)

text \<open>
  The permutative decoding undoes the encoding and the encoding undoes the decoding, byte
  for byte, and neither changes the length of a block.
\<close>

theorem permute_round_trip:
  "permute_decode_block (permute_encode_block data) = data \<and>
   permute_encode_block (permute_decode_block data) = data \<and>
   length (permute_encode_block data) = length data"
  by (simp add: permute_decode_encode permute_encode_decode)

text \<open>
  The cyclic encoding is its own inverse under the same key, whatever the key, including
  keys whose running counter wraps around at 16 bits.
\<close>

theorem cyclic_round_trip:
  "encode_decode_block (encode_decode_block data key) key = data \<and>
   length (encode_decode_block data key) = length data"
  by (simp add: encode_decode_block_self)

end
