(* ===== verification/Ndb_Ids.thy ===== *)
theory Ndb_Ids
  imports Pst_Error
begin

text \<open>
  Node identifiers (\<open>node_id.rs\<close>), block and page identifiers (\<open>block_id.rs\<close>), byte indexes
  (\<open>byte_index.rs\<close>) and references (\<open>block_ref.rs\<close>). The newtypes over an integer are that
  integer; the Unicode and the ANSI variants keep their widths of 64 and 32 bits. A sum that may
  overflow is unchecked in the sources: it wraps in the release profile.
\<close>

section \<open>Node identifiers\<close>

type_synonym node_id = u32

definition MAX_NODE_INDEX :: u32 where
  "MAX_NODE_INDEX = word_rotr 5 1 - 1"

definition node_id_new :: "node_id_type \<Rightarrow> u32 \<Rightarrow> ndb_error + node_id" where
  "node_id_new id_type index =
    (let id = node_id_type_code id_type in
     if drop_bit 5 id \<noteq> 0 then Inl (InvalidNodeIdType id)
     else let shifted_index = word_rotl 5 index in
       if shifted_index AND 0x1F \<noteq> 0 then Inl (InvalidNodeIndex index)
       else Inr (shifted_index OR ucast id))"

definition node_id_id_type :: "node_id \<Rightarrow> ndb_error + node_id_type" where
  "node_id_id_type nid = node_id_type_try_from (ucast (nid AND 0x1F))"

definition node_id_index :: "node_id \<Rightarrow> u32" where
  "node_id_index nid = drop_bit 5 nid"

definition node_id_read :: "node_id decoder" where
  "node_id_read = read_u32"

definition node_id_write :: "node_id \<Rightarrow> bytes" where
  "node_id_write nid = write_u32 nid"

definition node_id_type_usize :: "node_id_type \<Rightarrow> ndb_error + nat" where
  "node_id_type_usize value =
    (let index = node_id_type_code value in
     if index > 0x1F then Inl (InvalidNodeIdType index) else Inr (unat index))"

section \<open>Block and page identifiers\<close>

type_synonym unicode_block_id = u64
type_synonym unicode_page_id = u64
type_synonym ansi_block_id = u32
type_synonym ansi_page_id = u32

definition MAX_UNICODE_BLOCK_INDEX :: u64 where
  "MAX_UNICODE_BLOCK_INDEX = word_rotr 2 1 - 1"

definition MAX_ANSI_BLOCK_INDEX :: u32 where
  "MAX_ANSI_BLOCK_INDEX = word_rotr 2 1 - 1"

definition unicode_block_id_new :: "bool \<Rightarrow> u64 \<Rightarrow> ndb_error + unicode_block_id" where
  "unicode_block_id_new is_internal index =
    (let flag = (if is_internal then 0x2 else 0x0);
         shifted_index = word_rotl 2 index in
     if shifted_index AND 0x3 \<noteq> 0 then Inl (InvalidUnicodeBlockIndex index)
     else Inr (shifted_index OR flag))"

definition ansi_block_id_new :: "bool \<Rightarrow> u32 \<Rightarrow> ndb_error + ansi_block_id" where
  "ansi_block_id_new is_internal index =
    (let flag = (if is_internal then 0x2 else 0x0);
         shifted_index = word_rotl 2 index in
     if shifted_index AND 0x3 \<noteq> 0 then Inl (InvalidAnsiBlockIndex index)
     else Inr (shifted_index OR flag))"

text \<open>\<open>is_internal\<close>, \<open>index\<close> and \<open>search_key\<close> are the same text for both widths.\<close>

definition block_id_is_internal :: "'a::len word \<Rightarrow> bool" where
  "block_id_is_internal bid \<longleftrightarrow> bid AND 0x2 = 0x2"

definition block_id_index :: "'a::len word \<Rightarrow> 'a word" where
  "block_id_index bid = drop_bit 2 bid"

definition block_id_search_key :: "'a::len word \<Rightarrow> 'a word" where
  "block_id_search_key bid = bid AND NOT 0x1"

definition unicode_block_id_next :: "unicode_block_id \<Rightarrow> ndb_error + unicode_block_id" where
  "unicode_block_id_next bid =
    unicode_block_id_new (block_id_is_internal bid) (block_id_index bid + 1)"

definition ansi_block_id_next :: "ansi_block_id \<Rightarrow> ndb_error + ansi_block_id" where
  "ansi_block_id_next bid =
    ansi_block_id_new (block_id_is_internal bid) (block_id_index bid + 1)"

definition page_id_next :: "'a::len word \<Rightarrow> ndb_error + 'a word" where
  "page_id_next pid = Inr (pid + 1)"

section \<open>References\<close>

record ('bid, 'ib) block_ref =
  ref_block :: 'bid
  ref_index :: 'ib

type_synonym unicode_block_ref = "(unicode_block_id, u64) block_ref"
type_synonym unicode_page_ref = "(unicode_page_id, u64) block_ref"
type_synonym ansi_block_ref = "(ansi_block_id, u32) block_ref"
type_synonym ansi_page_ref = "(ansi_page_id, u32) block_ref"

definition unicode_ref_read :: "(u64, u64) block_ref decoder" where
  "unicode_ref_read f =
    (case read_u64 f of Inl e \<Rightarrow> Inl e
     | Inr (block, f) \<Rightarrow>
    (case read_u64 f of Inl e \<Rightarrow> Inl e
     | Inr (index, f) \<Rightarrow> Inr (\<lparr>ref_block = block, ref_index = index\<rparr>, f)))"

definition unicode_ref_write :: "(u64, u64) block_ref \<Rightarrow> bytes" where
  "unicode_ref_write r = write_u64 (ref_block r) @ write_u64 (ref_index r)"

definition ansi_ref_read :: "(u32, u32) block_ref decoder" where
  "ansi_ref_read f =
    (case read_u32 f of Inl e \<Rightarrow> Inl e
     | Inr (block, f) \<Rightarrow>
    (case read_u32 f of Inl e \<Rightarrow> Inl e
     | Inr (index, f) \<Rightarrow> Inr (\<lparr>ref_block = block, ref_index = index\<rparr>, f)))"

definition ansi_ref_write :: "(u32, u32) block_ref \<Rightarrow> bytes" where
  "ansi_ref_write r = write_u32 (ref_block r) @ write_u32 (ref_index r)"

section \<open>Lemmas\<close>

interpretation uref: codec unicode_ref_write unicode_ref_read "\<lambda>_. True" 16
  by unfold_locales (simp_all add: unicode_ref_write_def unicode_ref_read_def)

interpretation aref: codec ansi_ref_write ansi_ref_read "\<lambda>_. True" 8
  by unfold_locales (simp_all add: ansi_ref_write_def ansi_ref_read_def)

lemmas ref_codec_simps [simplified, simp] =
  uref.dec_enc uref.dec_enc_all uref.length_enc aref.dec_enc aref.dec_enc_all aref.length_enc

text \<open>
  A rotation to the left whose low bits are zero lost nothing: the index had no high bits.
\<close>

lemma unat_less_exp_iff_bits:
  "unat (w :: 'a::len word) < 2 ^ m \<longleftrightarrow> (\<forall>j. bit w j \<longrightarrow> j < m)"
proof -
  have "unat w < 2 ^ m \<longleftrightarrow> take_bit m (unat w) = unat w"
    by (simp add: take_bit_nat_eq_self_iff)
  also have "\<dots> \<longleftrightarrow> (\<forall>j. bit w j \<longrightarrow> j < m)"
    by (auto simp: bit_eq_iff bit_simps dest: bit_imp_le_length)
  finally show ?thesis .
qed

lemma bit_rotl:
  fixes w :: "'a::len word"
  assumes "k < LENGTH('a)"
  shows "bit (word_rotl k w) n \<longleftrightarrow>
    n < LENGTH('a) \<and> (if n < k then bit w (LENGTH('a) - k + n) else bit w (n - k))"
proof (cases "n < LENGTH('a)")
  case n: True
  have "(n + (LENGTH('a) - k)) mod LENGTH('a) = (if n < k then LENGTH('a) - k + n else n - k)"
  proof (cases "n < k")
    case False
    then have "n + (LENGTH('a) - k) = (n - k) + LENGTH('a)" using assms by simp
    then have "(n + (LENGTH('a) - k)) mod LENGTH('a) = (n - k) mod LENGTH('a)"
      by (simp only: mod_add_self2)
    then show ?thesis using False n by (simp add: less_imp_diff_less)
  qed (use assms in simp)
  then show ?thesis using assms n by (simp add: bit_word_rotl_iff)
qed (simp add: bit_word_rotl_iff)

lemma rotl_low_zero_iff:
  fixes w :: "'a::len word"
  assumes "k < LENGTH('a)"
  shows "word_rotl k w AND mask k = 0 \<longleftrightarrow> unat w < 2 ^ (LENGTH('a) - k)"
proof -
  have "word_rotl k w AND mask k = 0 \<longleftrightarrow> (\<forall>n<k. \<not> bit w (LENGTH('a) - k + n))"
    using assms by (auto simp: bit_eq_iff bit_simps bit_rotl simp del: bit_word_rotl_iff)
  also have "\<dots> \<longleftrightarrow> (\<forall>j. bit w j \<longrightarrow> j < LENGTH('a) - k)"
  proof (intro iffI allI impI)
    fix j assume a: "\<forall>n<k. \<not> bit w (LENGTH('a) - k + n)" and b: "bit w j"
    have "j < LENGTH('a)" using b by (rule bit_imp_le_length)
    show "j < LENGTH('a) - k"
    proof (rule ccontr)
      assume "\<not> j < LENGTH('a) - k"
      then have "\<not> bit w (LENGTH('a) - k + (j - (LENGTH('a) - k)))"
        using a \<open>j < LENGTH('a)\<close> assms by (intro a [rule_format]) arith
      then show False using b \<open>\<not> j < LENGTH('a) - k\<close> by simp
    qed
  qed auto
  also have "\<dots> \<longleftrightarrow> unat w < 2 ^ (LENGTH('a) - k)"
    by (simp add: unat_less_exp_iff_bits)
  finally show ?thesis .
qed

lemma rotl_or_fields:
  fixes w f :: "'a::len word"
  assumes k: "k < LENGTH('a)" and w: "unat w < 2 ^ (LENGTH('a) - k)" and f: "unat f < 2 ^ k"
  shows "drop_bit k (word_rotl k w OR f) = w" and "(word_rotl k w OR f) AND mask k = f"
    and "word_rotl k w OR f = push_bit k w + f"
proof -
  have wb: "bit w j \<Longrightarrow> j < LENGTH('a) - k" and fb: "bit f j \<Longrightarrow> j < k" for j
    using w f by (simp_all add: unat_less_exp_iff_bits)
  show "drop_bit k (word_rotl k w OR f) = w"
    using k wb fb by (intro bit_word_eqI) (auto simp: bit_simps bit_rotl less_diff_conv simp del: bit_word_rotl_iff dest: wb fb)
  show "(word_rotl k w OR f) AND mask k = f"
    using k by (intro bit_word_eqI) (auto simp: bit_simps bit_rotl simp del: bit_word_rotl_iff dest: wb fb)
  have "word_rotl k w = push_bit k w"
    using k by (intro bit_word_eqI) (auto simp: bit_simps bit_rotl simp del: bit_word_rotl_iff dest: wb)
  moreover have "push_bit k w + f = push_bit k w OR f"
    by (rule disjunctive_add) (auto simp: bit_simps dest: fb)
  ultimately show "word_rotl k w OR f = push_bit k w + f" by simp
qed

lemma max_index_values:
  "unat MAX_NODE_INDEX = 2 ^ 27 - 1" "unat MAX_UNICODE_BLOCK_INDEX = 2 ^ 62 - 1"
  "unat MAX_ANSI_BLOCK_INDEX = 2 ^ 30 - 1"
proof -
  have "word_rotr 5 1 = (2 ^ 27 :: u32)" "word_rotr 2 1 = (2 ^ 62 :: u64)"
    "word_rotr 2 1 = (2 ^ 30 :: u32)"
    by code_simp+
  then show "unat MAX_NODE_INDEX = 2 ^ 27 - 1" "unat MAX_UNICODE_BLOCK_INDEX = 2 ^ 62 - 1"
    "unat MAX_ANSI_BLOCK_INDEX = 2 ^ 30 - 1"
    by (simp_all add: MAX_NODE_INDEX_def MAX_UNICODE_BLOCK_INDEX_def MAX_ANSI_BLOCK_INDEX_def)
qed

lemma le_max_index:
  assumes "unat m = 2 ^ k - 1"
  shows "w \<le> m \<longleftrightarrow> unat w < 2 ^ k"
proof -
  have "(0 :: nat) < 2 ^ k" by simp
  then show ?thesis unfolding word_le_nat_alt assms by linarith
qed

lemma flag_3_mask: "(0x3 :: 'a::len word) = mask 2" "(0x1F :: 'a::len word) = mask 5"
  by (simp_all add: mask_eq_exp_minus_1)

lemma node_id_type_code_bound: "unat (node_id_type_code t) < 2 ^ 5"
  by (cases t) simp_all

lemma ucast_u8_u32 [simp]: "ucast (ucast (b :: u8) :: u32) = b"
  by (rule bit_word_eqI) (auto simp: bit_simps)

lemma block_id_fields:
  fixes w :: "'a::len word" and internal :: bool
  assumes len: "2 < LENGTH('a)" and w: "unat w < 2 ^ (LENGTH('a) - 2)"
  defines "bid \<equiv> word_rotl 2 w OR (if internal then 2 else 0)"
  shows "block_id_is_internal bid = internal" and "block_id_index bid = w"
    and "bid = push_bit 2 w + (if internal then 2 else 0)"
proof -
  have f: "unat (if internal then 2 else 0 :: 'a word) < 2 ^ 2"
    by (auto simp: unat_less_exp_iff_bits bit_simps)
  have k: "2 < LENGTH('a)" using len .
  note fields = rotl_or_fields [OF k w f, folded bid_def]
  show "block_id_index bid = w" and "bid = push_bit 2 w + (if internal then 2 else 0)"
    using fields by (simp_all add: block_id_index_def)
  have "block_id_is_internal bid \<longleftrightarrow> bit (bid AND mask 2) 1"
    using len by (auto simp: block_id_is_internal_def bit_simps intro!: bit_word_eqI
        dest!: arg_cong [of _ _ "\<lambda>x. bit x 1"])
  then show "block_id_is_internal bid = internal"
    using fields(2) len by (simp add: bit_simps)
qed

section \<open>Properties\<close>

text \<open>
  \<open>NodeId::new\<close> accepts exactly the indexes up to \<open>MAX_NODE_INDEX\<close>; the type and the index
  are then recovered from the identifier, and any other index is reported as invalid.
\<close>

theorem node_id_new_spec:
  "case node_id_new t index of
     Inl e \<Rightarrow> MAX_NODE_INDEX < index \<and> e = InvalidNodeIndex index
   | Inr nid \<Rightarrow> index \<le> MAX_NODE_INDEX \<and> node_id_id_type nid = Inr t \<and> node_id_index nid = index"
proof -
  have code: "drop_bit 5 (node_id_type_code t) = 0" by (cases t) simp_all
  have le: "index \<le> MAX_NODE_INDEX \<longleftrightarrow> unat index < 2 ^ 27"
    by (rule le_max_index) (rule max_index_values)
  show ?thesis
  proof (cases "unat index < 2 ^ 27")
    case True
    have f: "unat (ucast (node_id_type_code t) :: u32) < 2 ^ 5"
      by (cases t) simp_all
    note fields = rotl_or_fields [of 5 index "ucast (node_id_type_code t)", simplified, OF True [simplified] f [simplified]]
    have "node_id_id_type (word_rotl 5 index OR ucast (node_id_type_code t)) = Inr t"
      by (simp add: node_id_id_type_def flag_3_mask fields(2))
    then show ?thesis
      using True le code rotl_low_zero_iff [of 5 index] fields(1)
      by (simp add: node_id_new_def Let_def flag_3_mask node_id_index_def)
  next
    case False
    then show ?thesis
      using le code rotl_low_zero_iff [of 5 index]
      by (simp add: node_id_new_def Let_def flag_3_mask not_less)
  qed
qed



lemma unicode_block_id_new_cases:
  "case unicode_block_id_new internal index of
     Inl e \<Rightarrow> MAX_UNICODE_BLOCK_INDEX < index \<and> e = InvalidUnicodeBlockIndex index
   | Inr bid \<Rightarrow> index \<le> MAX_UNICODE_BLOCK_INDEX \<and> block_id_is_internal bid = internal \<and>
       block_id_index bid = index \<and> bid = push_bit 2 index + (if internal then 2 else 0)"
proof -
  have le: "index \<le> MAX_UNICODE_BLOCK_INDEX \<longleftrightarrow> unat index < 2 ^ 62"
    by (rule le_max_index) (rule max_index_values)
  show ?thesis
  proof (cases "unat index < 2 ^ 62")
    case True
    note fields = block_id_fields [of index internal, simplified, OF True [simplified]]
    show ?thesis
      using True le rotl_low_zero_iff [of 2 index] fields
      by (simp add: unicode_block_id_new_def Let_def flag_3_mask)
  next
    case False
    then show ?thesis
      using le rotl_low_zero_iff [of 2 index]
      by (simp add: unicode_block_id_new_def Let_def flag_3_mask not_less)
  qed
qed

lemma ansi_block_id_new_cases:
  "case ansi_block_id_new internal index of
     Inl e \<Rightarrow> MAX_ANSI_BLOCK_INDEX < index \<and> e = InvalidAnsiBlockIndex index
   | Inr bid \<Rightarrow> index \<le> MAX_ANSI_BLOCK_INDEX \<and> block_id_is_internal bid = internal \<and>
       block_id_index bid = index \<and> bid = push_bit 2 index + (if internal then 2 else 0)"
proof -
  have le: "index \<le> MAX_ANSI_BLOCK_INDEX \<longleftrightarrow> unat index < 2 ^ 30"
    by (rule le_max_index) (rule max_index_values)
  show ?thesis
  proof (cases "unat index < 2 ^ 30")
    case True
    note fields = block_id_fields [of index internal, simplified, OF True [simplified]]
    show ?thesis
      using True le rotl_low_zero_iff [of 2 index] fields
      by (simp add: ansi_block_id_new_def Let_def flag_3_mask)
  next
    case False
    then show ?thesis
      using le rotl_low_zero_iff [of 2 index]
      by (simp add: ansi_block_id_new_def Let_def flag_3_mask not_less)
  qed
qed

text \<open>
  C33. \<open>BlockId::new\<close> of both formats accepts exactly the indexes up to the format's maximum, the
  flag and the index are recovered from the identifier, and the identifier is the index
  shifted by two plus the flag.
\<close>

theorem block_id_new_spec:
  "(case unicode_block_id_new internal index of
      Inl e \<Rightarrow> MAX_UNICODE_BLOCK_INDEX < index \<and> e = InvalidUnicodeBlockIndex index
    | Inr bid \<Rightarrow> index \<le> MAX_UNICODE_BLOCK_INDEX \<and> block_id_is_internal bid = internal \<and>
        block_id_index bid = index \<and> bid = push_bit 2 index + (if internal then 2 else 0)) \<and>
   (case ansi_block_id_new internal index' of
      Inl e \<Rightarrow> MAX_ANSI_BLOCK_INDEX < index' \<and> e = InvalidAnsiBlockIndex index'
    | Inr bid \<Rightarrow> index' \<le> MAX_ANSI_BLOCK_INDEX \<and> block_id_is_internal bid = internal \<and>
        block_id_index bid = index' \<and> bid = push_bit 2 index' + (if internal then 2 else 0))"
  using unicode_block_id_new_cases [of index internal] ansi_block_id_new_cases [of index' internal]
  by blast

lemma block_id_index_bound:
  "unat (block_id_index (bid :: u64)) < 2 ^ 62" "unat (block_id_index (bid' :: u32)) < 2 ^ 30"
proof -
  have "\<forall>j. bit (block_id_index bid) j \<longrightarrow> j < 62" "\<forall>j. bit (block_id_index bid') j \<longrightarrow> j < 30"
    by (auto simp: block_id_index_def bit_simps dest: bit_imp_le_length)
  then show "unat (block_id_index bid) < 2 ^ 62" "unat (block_id_index bid') < 2 ^ 30"
    by (simp_all only: unat_less_exp_iff_bits)
qed

lemma unat_index_Suc:
  "unat (block_id_index (bid :: u64) + 1) = unat (block_id_index bid) + 1"
  "unat (block_id_index (bid' :: u32) + 1) = unat (block_id_index bid') + 1"
  using block_id_index_bound(1) [of bid] block_id_index_bound(2) [of bid']
  by (simp_all add: unat_word_ariths)

text \<open>
  \<open>next\<close> of a block identifier either yields the identifier of the same kind whose index is
  one larger, or fails because the index was already the largest one; the sum inside never
  wraps around.
\<close>

theorem block_id_next_spec:
  "(case unicode_block_id_next bid of
      Inl e \<Rightarrow> block_id_index bid = MAX_UNICODE_BLOCK_INDEX
    | Inr bid2 \<Rightarrow> block_id_is_internal bid2 = block_id_is_internal bid \<and>
        unat (block_id_index bid2) = unat (block_id_index bid) + 1) \<and>
   (case ansi_block_id_next bid' of
      Inl e \<Rightarrow> block_id_index bid' = MAX_ANSI_BLOCK_INDEX
    | Inr bid2 \<Rightarrow> block_id_is_internal bid2 = block_id_is_internal bid' \<and>
        unat (block_id_index bid2) = unat (block_id_index bid') + 1)"
proof -
  have "MAX_UNICODE_BLOCK_INDEX < block_id_index bid + 1 \<Longrightarrow>
      block_id_index bid = MAX_UNICODE_BLOCK_INDEX"
    using block_id_index_bound(1) [of bid]
    by (simp add: word_less_nat_alt unat_index_Suc max_index_values word_unat_eq_iff)
  moreover have "MAX_ANSI_BLOCK_INDEX < block_id_index bid' + 1 \<Longrightarrow>
      block_id_index bid' = MAX_ANSI_BLOCK_INDEX"
    using block_id_index_bound(2) [of bid']
    by (simp add: word_less_nat_alt unat_index_Suc max_index_values word_unat_eq_iff)
  ultimately show ?thesis
    using unicode_block_id_new_cases [of "block_id_index bid + 1" "block_id_is_internal bid"]
      ansi_block_id_new_cases [of "block_id_index bid' + 1" "block_id_is_internal bid'"]
    by (auto simp: unicode_block_id_next_def ansi_block_id_next_def unat_index_Suc
        split: sum.splits)
qed

end
