(* ===== verification/Ndb_Header.thy ===== *)
theory Ndb_Header
  imports Crc Ndb_Ids
begin

text \<open>
  \<open>ROOT\<close> (\<open>root.rs\<close> and the trait \<open>RootReadWrite\<close>) and \<open>HEADER\<close> (\<open>header.rs\<close>) of both formats.
  The root is one record over the width of a byte index, read and written by the trait's
  default methods, which take the codecs of the byte index and of the page reference; the
  headers are separate, as in the source. Arrays of a fixed length are lists; the predicates
  \<open>unicode_header_wf\<close> and \<open>ansi_header_wf\<close> state their lengths.
\<close>

section \<open>Root\<close>

record 'w root =
  root_reserved1 :: u32
  root_file_eof_index :: 'w
  root_amap_last_index :: 'w
  root_amap_free_size :: 'w
  root_pmap_free_size :: 'w
  root_node_btree :: "('w, 'w) block_ref"
  root_block_btree :: "('w, 'w) block_ref"
  root_amap_is_valid :: amap_status
  root_reserved2 :: u8
  root_reserved3 :: u16

type_synonym unicode_root = "u64 root"
type_synonym ansi_root = "u32 root"

definition root_new ::
  "'w \<Rightarrow> 'w \<Rightarrow> 'w \<Rightarrow> 'w \<Rightarrow> ('w, 'w) block_ref \<Rightarrow> ('w, 'w) block_ref \<Rightarrow> amap_status \<Rightarrow> 'w root" where
  "root_new file_eof_index amap_last_index amap_free_size pmap_free_size node_btree block_btree
      amap_is_valid =
    \<lparr>root_reserved1 = 0, root_file_eof_index = file_eof_index,
     root_amap_last_index = amap_last_index, root_amap_free_size = amap_free_size,
     root_pmap_free_size = pmap_free_size, root_node_btree = node_btree,
     root_block_btree = block_btree, root_amap_is_valid = amap_is_valid,
     root_reserved2 = 0, root_reserved3 = 0\<rparr>"

definition root_load_reserved :: "u32 \<Rightarrow> u8 \<Rightarrow> u16 \<Rightarrow> 'w root \<Rightarrow> 'w root" where
  "root_load_reserved reserved1 reserved2 reserved3 root =
    root\<lparr>root_reserved1 := reserved1, root_reserved2 := reserved2, root_reserved3 := reserved3\<rparr>"

definition root_set_amap_status :: "amap_status \<Rightarrow> 'w root \<Rightarrow> 'w root" where
  "root_set_amap_status status root = root\<lparr>root_amap_is_valid := status\<rparr>"

definition root_reset_free_size :: "'w::zero \<Rightarrow> 'w root \<Rightarrow> ndb_error + 'w root" where
  "root_reset_free_size free_bytes root =
    Inr (root\<lparr>root_amap_free_size := free_bytes, root_pmap_free_size := 0\<rparr>)"

definition root_read :: "'w decoder \<Rightarrow> ('w, 'w) block_ref decoder \<Rightarrow> 'w root decoder" where
  "root_read read_index read_ref f =
    (case read_u32 f of Inl e \<Rightarrow> Inl e | Inr (reserved1, f) \<Rightarrow>
    (case read_index f of Inl e \<Rightarrow> Inl e | Inr (file_eof_index, f) \<Rightarrow>
    (case read_index f of Inl e \<Rightarrow> Inl e | Inr (amap_last_index, f) \<Rightarrow>
    (case read_index f of Inl e \<Rightarrow> Inl e | Inr (amap_free_size, f) \<Rightarrow>
    (case read_index f of Inl e \<Rightarrow> Inl e | Inr (pmap_free_size, f) \<Rightarrow>
    (case read_ref f of Inl e \<Rightarrow> Inl e | Inr (node_btree, f) \<Rightarrow>
    (case read_ref f of Inl e \<Rightarrow> Inl e | Inr (block_btree, f) \<Rightarrow>
    (case read_u8 f of Inl e \<Rightarrow> Inl e | Inr (status, f) \<Rightarrow>
    (let amap_is_valid = (case amap_status_try_from status of Inl _ \<Rightarrow> AmapInvalid | Inr s \<Rightarrow> s) in
    (case read_u8 f of Inl e \<Rightarrow> Inl e | Inr (reserved2, f) \<Rightarrow>
    (case read_u16 f of Inl e \<Rightarrow> Inl e | Inr (reserved3, f) \<Rightarrow>
     Inr (root_load_reserved reserved1 reserved2 reserved3
       (root_new file_eof_index amap_last_index amap_free_size pmap_free_size node_btree
         block_btree amap_is_valid), f))))))))))))"

definition root_write :: "('w \<Rightarrow> bytes) \<Rightarrow> (('w, 'w) block_ref \<Rightarrow> bytes) \<Rightarrow> 'w root \<Rightarrow> bytes" where
  "root_write write_index write_ref root =
    write_u32 (root_reserved1 root) @
    write_index (root_file_eof_index root) @
    write_index (root_amap_last_index root) @
    write_index (root_amap_free_size root) @
    write_index (root_pmap_free_size root) @
    write_ref (root_node_btree root) @
    write_ref (root_block_btree root) @
    write_u8 (amap_status_code (root_amap_is_valid root)) @
    write_u8 (root_reserved2 root) @
    write_u16 (root_reserved3 root)"

abbreviation unicode_root_read :: "unicode_root decoder" where
  "unicode_root_read \<equiv> root_read read_u64 unicode_ref_read"
abbreviation unicode_root_write :: "unicode_root \<Rightarrow> bytes" where
  "unicode_root_write \<equiv> root_write (to_le 8) unicode_ref_write"
abbreviation ansi_root_read :: "ansi_root decoder" where
  "ansi_root_read \<equiv> root_read read_u32 ansi_ref_read"
abbreviation ansi_root_write :: "ansi_root \<Rightarrow> bytes" where
  "ansi_root_write \<equiv> root_write (to_le 4) ansi_ref_write"

section \<open>Header constants\<close>

definition HEADER_MAGIC :: u32 where "HEADER_MAGIC = 0x4E444221"
definition HEADER_MAGIC_CLIENT :: u16 where "HEADER_MAGIC_CLIENT = 0x4D53"
definition NDB_CLIENT_VERSION :: u16 where "NDB_CLIENT_VERSION = 19"
definition NDB_PLATFORM_CREATE :: u8 where "NDB_PLATFORM_CREATE = 0x01"
definition NDB_PLATFORM_ACCESS :: u8 where "NDB_PLATFORM_ACCESS = 0x01"
definition NDB_SENTINEL :: u8 where "NDB_SENTINEL = 0x80"

definition NDB_DEFAULT_NIDS :: "u32 list" where
  "NDB_DEFAULT_NIDS = [
    0x400, 0x400, 0x400, 0x4000, 0x10000, 0x400, 0x400, 0x400, 0x8000, 0x400, 0x400, 0x400, 0x400,
    0x400, 0x400, 0x400, 0x400, 0x400, 0x400, 0x400, 0x400, 0x400, 0x400, 0x400, 0x400, 0x400,
    0x400, 0x400, 0x400, 0x400, 0x400, 0x400]"

section \<open>The Unicode header\<close>

record unicode_header =
  uh_next_page :: unicode_page_id
  uh_unique :: u32
  uh_nids :: "u32 list"
  uh_root :: unicode_root
  uh_free_map :: bytes
  uh_free_page_map :: bytes
  uh_crypt_method :: ndb_crypt_method
  uh_next_block :: unicode_block_id
  uh_reserved1 :: u32
  uh_reserved2 :: u32
  uh_unused1 :: u64
  uh_unused2 :: u64
  uh_reserved3 :: bytes

definition unicode_header_new :: "unicode_root \<Rightarrow> ndb_crypt_method \<Rightarrow> unicode_header" where
  "unicode_header_new root crypt_method =
    \<lparr>uh_next_page = 1, uh_unique = 0, uh_nids = NDB_DEFAULT_NIDS, uh_root = root,
     uh_free_map = replicate 128 0xFF, uh_free_page_map = replicate 128 0xFF,
     uh_crypt_method = crypt_method, uh_next_block = 4, uh_reserved1 = 0, uh_reserved2 = 0,
     uh_unused1 = 0, uh_unused2 = 0, uh_reserved3 = replicate 36 0\<rparr>"

definition unicode_header_new_store ::
  "unicode_root \<Rightarrow> ndb_crypt_method \<Rightarrow> unicode_page_id \<Rightarrow> unicode_block_id \<Rightarrow> u32 \<Rightarrow> u32 list
    \<Rightarrow> unicode_header" where
  "unicode_header_new_store root crypt_method next_page next_block unique nids =
    (unicode_header_new root crypt_method)
      \<lparr>uh_next_page := next_page, uh_next_block := next_block, uh_unique := unique,
       uh_nids := nids, uh_unused1 := 0x0000000100000004\<rparr>"

definition unicode_header_update_unique :: "unicode_header \<Rightarrow> unicode_header" where
  "unicode_header_update_unique h = h\<lparr>uh_unique := uh_unique h + 1\<rparr>"

text \<open>The fields that follow \<open>wVer\<close>, read from the checksummed bytes.\<close>

definition unicode_header_parse :: "bytes \<Rightarrow> bytes \<Rightarrow> io_error + unicode_header \<times> bytes" where
  "unicode_header_parse cursor f =
    (case read_u16 cursor of Inl e \<Rightarrow> Inl e | Inr (version, cursor) \<Rightarrow>
    (if version \<noteq> NDB_CLIENT_VERSION then Inl (NdbIo (InvalidNdbHeaderClientVersion version)) else
    (case read_u8 cursor of Inl e \<Rightarrow> Inl e | Inr (platform_create, cursor) \<Rightarrow>
    (if platform_create \<noteq> NDB_PLATFORM_CREATE
     then Inl (NdbIo (InvalidNdbHeaderPlatformCreate platform_create)) else
    (case read_u8 cursor of Inl e \<Rightarrow> Inl e | Inr (platform_access, cursor) \<Rightarrow>
    (if platform_access \<noteq> NDB_PLATFORM_ACCESS
     then Inl (NdbIo (InvalidNdbHeaderPlatformAccess platform_access)) else
    (case read_u32 cursor of Inl e \<Rightarrow> Inl e | Inr (reserved1, cursor) \<Rightarrow>
    (case read_u32 cursor of Inl e \<Rightarrow> Inl e | Inr (reserved2, cursor) \<Rightarrow>
    (case read_u64 cursor of Inl e \<Rightarrow> Inl e | Inr (unused1, cursor) \<Rightarrow>
    (case read_u64 cursor of Inl e \<Rightarrow> Inl e | Inr (next_page, cursor) \<Rightarrow>
    (case read_u32 cursor of Inl e \<Rightarrow> Inl e | Inr (unique, cursor) \<Rightarrow>
    (case read_many 32 read_u32 cursor of Inl e \<Rightarrow> Inl e | Inr (nids, cursor) \<Rightarrow>
    (case read_u64 cursor of Inl e \<Rightarrow> Inl e | Inr (unused2, cursor) \<Rightarrow>
    (case unicode_root_read cursor of Inl e \<Rightarrow> Inl e | Inr (root, cursor) \<Rightarrow>
    (case read_u32 cursor of Inl e \<Rightarrow> Inl e | Inr (align, cursor) \<Rightarrow>
    (if align \<noteq> 0 then Inl (NdbIo (InvalidNdbHeaderAlignValue align)) else
    (case read_exact 128 cursor of Inl e \<Rightarrow> Inl e | Inr (free_map, cursor) \<Rightarrow>
    (case read_exact 128 cursor of Inl e \<Rightarrow> Inl e | Inr (free_page_map, cursor) \<Rightarrow>
    (case read_u8 cursor of Inl e \<Rightarrow> Inl e | Inr (sentinel, cursor) \<Rightarrow>
    (if sentinel \<noteq> NDB_SENTINEL then Inl (NdbIo (InvalidNdbHeaderSentinelValue sentinel)) else
    (case read_u8 cursor of Inl e \<Rightarrow> Inl e | Inr (crypt, cursor) \<Rightarrow>
    (case ndb_crypt_method_try_from crypt of Inl e \<Rightarrow> Inl (NdbIo e) | Inr crypt_method \<Rightarrow>
    (case read_u16 cursor of Inl e \<Rightarrow> Inl e | Inr (reserved, cursor) \<Rightarrow>
    (if reserved \<noteq> 0 then Inl (NdbIo (InvalidNdbHeaderReservedValue reserved)) else
    (case read_u64 cursor of Inl e \<Rightarrow> Inl e | Inr (next_block, cursor) \<Rightarrow>
    (case read_exact 36 f of Inl e \<Rightarrow> Inl e | Inr (reserved3, f) \<Rightarrow>
     Inr (\<lparr>uh_next_page = next_page, uh_unique = unique, uh_nids = nids, uh_root = root,
       uh_free_map = free_map, uh_free_page_map = free_page_map,
       uh_crypt_method = crypt_method, uh_next_block = next_block, uh_reserved1 = reserved1,
       uh_reserved2 = reserved2, uh_unused1 = unused1, uh_unused2 = unused2,
       uh_reserved3 = reserved3\<rparr>, f)))))))))))))))))))))))))))"

definition unicode_header_read :: "unicode_header decoder" where
  "unicode_header_read f =
    (case read_u32 f of Inl e \<Rightarrow> Inl e | Inr (magic, f) \<Rightarrow>
    (if magic \<noteq> HEADER_MAGIC then Inl (NdbIo (InvalidNdbHeaderMagicValue magic)) else
    (case read_u32 f of Inl e \<Rightarrow> Inl e | Inr (crc_partial, f) \<Rightarrow>
    (case read_exact 471 f of Inl e \<Rightarrow> Inl e | Inr (crc_data, f) \<Rightarrow>
    (if crc_partial \<noteq> compute_crc 0 crc_data
     then Inl (NdbIo (InvalidNdbHeaderPartialCrc crc_partial)) else
    (case read_u16 (crc_data @ replicate 45 0) of Inl e \<Rightarrow> Inl e | Inr (magic, cursor) \<Rightarrow>
    (if magic \<noteq> HEADER_MAGIC_CLIENT
     then Inl (NdbIo (InvalidNdbHeaderMagicClientValue magic)) else
    (case read_u16 cursor of Inl e \<Rightarrow> Inl e | Inr (ver, cursor) \<Rightarrow>
    (case ndb_version_try_from ver of Inl e \<Rightarrow> Inl (NdbIo e) | Inr version \<Rightarrow>
    (if version \<noteq> VersionUnicode
     then Inl (NdbIo (AnsiPstVersion (ndb_version_code version))) else
    (case read_exact 45 f of Inl e \<Rightarrow> Inl e | Inr (tail, f) \<Rightarrow>
    (case read_u32 f of Inl e \<Rightarrow> Inl e | Inr (crc_full, f) \<Rightarrow>
    (if crc_full \<noteq> compute_crc 0 (crc_data @ tail)
     then Inl (NdbIo (InvalidNdbHeaderFullCrc crc_full)) else
     unicode_header_parse (drop 4 (crc_data @ tail)) f)))))))))))))"

definition unicode_header_body :: "unicode_header \<Rightarrow> bytes" where
  "unicode_header_body h =
    write_u16 HEADER_MAGIC_CLIENT @
    write_u16 (ndb_version_code VersionUnicode) @
    write_u16 NDB_CLIENT_VERSION @
    write_u8 NDB_PLATFORM_CREATE @
    write_u8 NDB_PLATFORM_ACCESS @
    write_u32 (uh_reserved1 h) @
    write_u32 (uh_reserved2 h) @
    write_u64 (uh_unused1 h) @
    write_u64 (uh_next_page h) @
    write_u32 (uh_unique h) @
    concat (map (to_le 4) (uh_nids h)) @
    write_u64 (uh_unused2 h) @
    unicode_root_write (uh_root h) @
    write_u32 0 @
    uh_free_map h @
    uh_free_page_map h @
    write_u8 NDB_SENTINEL @
    write_u8 (ndb_crypt_method_code (uh_crypt_method h)) @
    write_u16 0 @
    write_u64 (uh_next_block h)"

definition unicode_header_write :: "unicode_header \<Rightarrow> io_error + bytes" where
  "unicode_header_write h =
    (case cursor_array 516 (unicode_header_body h) of Inl e \<Rightarrow> Inl e
     | Inr crc_data \<Rightarrow>
       Inr (write_u32 HEADER_MAGIC @ write_u32 (compute_crc 0 (take 471 crc_data)) @ crc_data @
         write_u32 (compute_crc 0 crc_data) @ uh_reserved3 h))"

definition unicode_header_wf :: "unicode_header \<Rightarrow> bool" where
  "unicode_header_wf h \<longleftrightarrow> length (uh_nids h) = 32 \<and> length (uh_free_map h) = 128 \<and>
     length (uh_free_page_map h) = 128 \<and> length (uh_reserved3 h) = 36"

section \<open>The ANSI header\<close>

record ansi_header =
  ah_next_block :: ansi_block_id
  ah_next_page :: ansi_page_id
  ah_unique :: u32
  ah_nids :: "u32 list"
  ah_root :: ansi_root
  ah_free_map :: bytes
  ah_free_page_map :: bytes
  ah_crypt_method :: ndb_crypt_method
  ah_reserved1 :: u32
  ah_reserved2 :: u32
  ah_reserved3 :: bytes

definition ansi_header_new :: "ansi_root \<Rightarrow> ndb_crypt_method \<Rightarrow> ansi_header" where
  "ansi_header_new root crypt_method =
    \<lparr>ah_next_block = 4, ah_next_page = 1, ah_unique = 0, ah_nids = NDB_DEFAULT_NIDS,
     ah_root = root, ah_free_map = replicate 128 0xFF, ah_free_page_map = replicate 128 0xFF,
     ah_crypt_method = crypt_method, ah_reserved1 = 0, ah_reserved2 = 0,
     ah_reserved3 = replicate 36 0\<rparr>"

definition ansi_header_update_unique :: "ansi_header \<Rightarrow> ansi_header" where
  "ansi_header_update_unique h = h\<lparr>ah_unique := ah_unique h + 1\<rparr>"

definition ansi_header_parse :: "bytes \<Rightarrow> io_error + ansi_header" where
  "ansi_header_parse cursor =
    (case read_u16 cursor of Inl e \<Rightarrow> Inl e | Inr (version, cursor) \<Rightarrow>
    (if version \<noteq> NDB_CLIENT_VERSION then Inl (NdbIo (InvalidNdbHeaderClientVersion version)) else
    (case read_u8 cursor of Inl e \<Rightarrow> Inl e | Inr (platform_create, cursor) \<Rightarrow>
    (if platform_create \<noteq> NDB_PLATFORM_CREATE
     then Inl (NdbIo (InvalidNdbHeaderPlatformCreate platform_create)) else
    (case read_u8 cursor of Inl e \<Rightarrow> Inl e | Inr (platform_access, cursor) \<Rightarrow>
    (if platform_access \<noteq> NDB_PLATFORM_ACCESS
     then Inl (NdbIo (InvalidNdbHeaderPlatformAccess platform_access)) else
    (case read_u32 cursor of Inl e \<Rightarrow> Inl e | Inr (reserved1, cursor) \<Rightarrow>
    (case read_u32 cursor of Inl e \<Rightarrow> Inl e | Inr (reserved2, cursor) \<Rightarrow>
    (case read_u32 cursor of Inl e \<Rightarrow> Inl e | Inr (next_block, cursor) \<Rightarrow>
    (case read_u32 cursor of Inl e \<Rightarrow> Inl e | Inr (next_page, cursor) \<Rightarrow>
    (case read_u32 cursor of Inl e \<Rightarrow> Inl e | Inr (unique, cursor) \<Rightarrow>
    (case read_many 32 read_u32 cursor of Inl e \<Rightarrow> Inl e | Inr (nids, cursor) \<Rightarrow>
    (case ansi_root_read cursor of Inl e \<Rightarrow> Inl e | Inr (root, cursor) \<Rightarrow>
    (case read_exact 128 cursor of Inl e \<Rightarrow> Inl e | Inr (free_map, cursor) \<Rightarrow>
    (case read_exact 128 cursor of Inl e \<Rightarrow> Inl e | Inr (free_page_map, cursor) \<Rightarrow>
    (case read_u8 cursor of Inl e \<Rightarrow> Inl e | Inr (sentinel, cursor) \<Rightarrow>
    (if sentinel \<noteq> NDB_SENTINEL then Inl (NdbIo (InvalidNdbHeaderSentinelValue sentinel)) else
    (case read_u8 cursor of Inl e \<Rightarrow> Inl e | Inr (crypt, cursor) \<Rightarrow>
    (case ndb_crypt_method_try_from crypt of Inl e \<Rightarrow> Inl (NdbIo e) | Inr crypt_method \<Rightarrow>
    (case read_u16 cursor of Inl e \<Rightarrow> Inl e | Inr (reserved, cursor) \<Rightarrow>
    (if reserved \<noteq> 0 then Inl (NdbIo (InvalidNdbHeaderReservedValue reserved)) else
    (case read_exact 12 cursor of Inl e \<Rightarrow> Inl e | Inr (reserved, cursor) \<Rightarrow>
    (if reserved \<noteq> replicate 12 0 then Inl (NdbIo InvalidNdbHeaderAnsiReservedBytes) else
    (case read_exact 36 cursor of Inl e \<Rightarrow> Inl e | Inr (reserved3, cursor) \<Rightarrow>
     Inr \<lparr>ah_next_block = next_block, ah_next_page = next_page, ah_unique = unique,
       ah_nids = nids, ah_root = root, ah_free_map = free_map,
       ah_free_page_map = free_page_map, ah_crypt_method = crypt_method,
       ah_reserved1 = reserved1, ah_reserved2 = reserved2, ah_reserved3 = reserved3\<rparr>))))))))))))))))))))))))"

definition ansi_header_read :: "ansi_header decoder" where
  "ansi_header_read f =
    (case read_u32 f of Inl e \<Rightarrow> Inl e | Inr (magic, f) \<Rightarrow>
    (if magic \<noteq> HEADER_MAGIC then Inl (NdbIo (InvalidNdbHeaderMagicValue magic)) else
    (case read_u32 f of Inl e \<Rightarrow> Inl e | Inr (crc_partial, f) \<Rightarrow>
    (case read_exact 504 f of Inl e \<Rightarrow> Inl e | Inr (crc_data, f) \<Rightarrow>
    (if crc_partial \<noteq> compute_crc 0 (take 471 crc_data)
     then Inl (NdbIo (InvalidNdbHeaderPartialCrc crc_partial)) else
    (case read_u16 crc_data of Inl e \<Rightarrow> Inl e | Inr (magic, cursor) \<Rightarrow>
    (if magic \<noteq> HEADER_MAGIC_CLIENT
     then Inl (NdbIo (InvalidNdbHeaderMagicClientValue magic)) else
    (case read_u16 cursor of Inl e \<Rightarrow> Inl e | Inr (ver, cursor) \<Rightarrow>
    (case ndb_version_try_from ver of Inl e \<Rightarrow> Inl (NdbIo e) | Inr version \<Rightarrow>
    (if version \<noteq> VersionAnsi
     then Inl (NdbIo (UnicodePstVersion (ndb_version_code version))) else
    (case ansi_header_parse cursor of Inl e \<Rightarrow> Inl e | Inr h \<Rightarrow> Inr (h, f))))))))))))"

definition ansi_header_body :: "ansi_header \<Rightarrow> bytes" where
  "ansi_header_body h =
    write_u16 HEADER_MAGIC_CLIENT @
    write_u16 (ndb_version_code VersionAnsi) @
    write_u16 NDB_CLIENT_VERSION @
    write_u8 NDB_PLATFORM_CREATE @
    write_u8 NDB_PLATFORM_ACCESS @
    write_u32 (ah_reserved1 h) @
    write_u32 (ah_reserved2 h) @
    write_u32 (ah_next_block h) @
    write_u32 (ah_next_page h) @
    write_u32 (ah_unique h) @
    concat (map (to_le 4) (ah_nids h)) @
    ansi_root_write (ah_root h) @
    ah_free_map h @
    ah_free_page_map h @
    write_u8 NDB_SENTINEL @
    write_u8 (ndb_crypt_method_code (ah_crypt_method h)) @
    write_u16 0 @
    replicate 12 0 @
    ah_reserved3 h"

definition ansi_header_write :: "ansi_header \<Rightarrow> io_error + bytes" where
  "ansi_header_write h =
    (case cursor_array 504 (ansi_header_body h) of Inl e \<Rightarrow> Inl e
     | Inr crc_data \<Rightarrow>
       Inr (write_u32 HEADER_MAGIC @ write_u32 (compute_crc 0 (take 471 crc_data)) @ crc_data))"

definition ansi_header_wf :: "ansi_header \<Rightarrow> bool" where
  "ansi_header_wf h \<longleftrightarrow> length (ah_nids h) = 32 \<and> length (ah_free_map h) = 128 \<and>
     length (ah_free_page_map h) = 128 \<and> length (ah_reserved3 h) = 36"

text \<open>A root for the examples.\<close>

definition sample_root :: "'w::zero root" where
  "sample_root = root_new 0 0 0 0 \<lparr>ref_block = 0, ref_index = 0\<rparr> \<lparr>ref_block = 0, ref_index = 0\<rparr> Valid2"

section \<open>The root is a codec\<close>

locale root_layout =
  index: codec write_index read_index "\<lambda>_. True" index_size +
  reference: codec write_ref read_ref "\<lambda>_. True" ref_size
  for write_index :: "'w \<Rightarrow> bytes" and read_index :: "'w decoder" and index_size :: nat
    and write_ref :: "('w, 'w) block_ref \<Rightarrow> bytes" and read_ref :: "('w, 'w) block_ref decoder"
    and ref_size :: nat
begin

lemma root_read_write: "root_read read_index read_ref (root_write write_index write_ref x @ r) = Inr (x, r)"
  by (simp add: root_read_def root_write_def index.dec_enc reference.dec_enc
      root_load_reserved_def root_new_def)

lemma length_root_write:
  "length (root_write write_index write_ref x) = 8 + 4 * index_size + 2 * ref_size"
  by (simp add: root_write_def index.length_enc reference.length_enc)

end

sublocale root_layout \<subseteq> root: codec "root_write write_index write_ref"
    "root_read read_index read_ref" "\<lambda>_. True" "8 + 4 * index_size + 2 * ref_size"
  by unfold_locales (simp_all add: root_read_write length_root_write)

interpretation uroot: root_layout "to_le 8" read_u64 8 unicode_ref_write unicode_ref_read 16
  by unfold_locales

interpretation aroot: root_layout "to_le 4" read_u32 4 ansi_ref_write ansi_ref_read 8
  by unfold_locales

lemmas root_codec_simps [simplified, simp] =
  uroot.root_read_write uroot.length_root_write aroot.root_read_write aroot.length_root_write

section \<open>Round trips\<close>

lemma unicode_header_parse_body:
  assumes "unicode_header_wf h"
  shows "unicode_header_parse (drop 4 (unicode_header_body h)) (uh_reserved3 h @ r) = Inr (h, r)"
proof -
  have "drop 4 (write_u16 a @ write_u16 b @ rest) = rest" for a b rest by simp
  then show ?thesis
    using assms
    by (simp add: unicode_header_wf_def unicode_header_parse_def unicode_header_body_def
        u32.read_many_enc)
qed

lemma length_unicode_header_body: "unicode_header_wf h \<Longrightarrow> length (unicode_header_body h) = 516"
  by (simp add: unicode_header_wf_def unicode_header_body_def u32.length_concat_enc)

lemma ansi_header_parse_body:
  assumes "ansi_header_wf h"
  shows "ansi_header_parse (drop 4 (ansi_header_body h)) = Inr h"
proof -
  have "drop 4 (write_u16 a @ write_u16 b @ rest) = rest" for a b rest by simp
  then show ?thesis
    using assms
    by (simp add: ansi_header_wf_def ansi_header_parse_def ansi_header_body_def u32.read_many_enc)
qed

lemma length_ansi_header_body: "ansi_header_wf h \<Longrightarrow> length (ansi_header_body h) = 504"
  by (simp add: ansi_header_wf_def ansi_header_body_def u32.length_concat_enc)

lemma unicode_header_body_prefix:
  "unicode_header_body h = write_u16 HEADER_MAGIC_CLIENT @ write_u16 23 @ drop 4 (unicode_header_body h)"
  by (simp add: unicode_header_body_def)

lemma ansi_header_body_prefix:
  "ansi_header_body h = write_u16 HEADER_MAGIC_CLIENT @ write_u16 15 @ drop 4 (ansi_header_body h)"
  by (simp add: ansi_header_body_def)

lemma take_prefix_4:
  "b = write_u16 m @ write_u16 v @ d \<Longrightarrow> 4 \<le> n \<Longrightarrow>
    take n b @ z = write_u16 m @ write_u16 v @ take (n - 4) d @ z"
  by simp

lemma unicode_header_write_bytes:
  assumes "unicode_header_wf h"
  shows "unicode_header_write h = Inr (write_u32 HEADER_MAGIC @
    write_u32 (compute_crc 0 (take 471 (unicode_header_body h))) @ unicode_header_body h @
    write_u32 (compute_crc 0 (unicode_header_body h)) @ uh_reserved3 h)"
  using assms by (simp add: unicode_header_write_def length_unicode_header_body)

lemma ansi_header_write_bytes:
  assumes "ansi_header_wf h"
  shows "ansi_header_write h = Inr (write_u32 HEADER_MAGIC @
    write_u32 (compute_crc 0 (take 471 (ansi_header_body h))) @ ansi_header_body h)"
  using assms by (simp add: ansi_header_write_def length_ansi_header_body)

lemma unicode_header_read_bytes:
  assumes wf: "unicode_header_wf h"
  shows "unicode_header_read (write_u32 HEADER_MAGIC @
    write_u32 (compute_crc 0 (take 471 (unicode_header_body h))) @ unicode_header_body h @
    write_u32 (compute_crc 0 (unicode_header_body h)) @ uh_reserved3 h @ r) = Inr (h, r)"
proof -
  define b where "b = unicode_header_body h"
  have len: "length b = 516" using wf by (simp add: b_def length_unicode_header_body)
  have split: "b @ z = take 471 b @ drop 471 b @ z" for z by simp
  have cur: "take 471 b @ replicate 45 0 =
      write_u16 HEADER_MAGIC_CLIENT @ write_u16 23 @ take 467 (drop 4 b) @ replicate 45 0"
    using take_prefix_4 [OF unicode_header_body_prefix, of 471 h "replicate 45 0"]
    by (simp add: b_def)
  have ver: "ndb_version_try_from 23 = Inr VersionUnicode"
    by (simp add: ndb_version_try_from_def)
  show ?thesis
    unfolding b_def [symmetric]
    apply (subst split)
    using len
    by (simp add: unicode_header_read_def cur ver unicode_header_parse_body [OF wf, folded b_def])
qed

lemma ansi_header_read_bytes:
  assumes wf: "ansi_header_wf h"
  shows "ansi_header_read (write_u32 HEADER_MAGIC @
    write_u32 (compute_crc 0 (take 471 (ansi_header_body h))) @ ansi_header_body h @ r) = Inr (h, r)"
proof -
  define b where "b = ansi_header_body h"
  have len: "length b = 504" using wf by (simp add: b_def length_ansi_header_body)
  have cur: "read_u16 b = Inr (HEADER_MAGIC_CLIENT, write_u16 15 @ drop 4 b)"
    by (metis ansi_header_body_prefix b_def read_word_simps(1))
  have ver: "ndb_version_try_from 15 = Inr VersionAnsi"
    by (simp add: ndb_version_try_from_def)
  show ?thesis
    unfolding b_def [symmetric] using len
    by (simp add: ansi_header_read_def cur ver ansi_header_parse_body [OF wf, folded b_def])
qed

section \<open>Properties\<close>

text \<open>
  C23. A Unicode header with arrays of their declared lengths is written as 564 bytes, and reading
  those bytes gives the header back, both checksums included, and leaves what follows in the
  source.
\<close>

theorem unicode_header_round_trip:
  assumes "unicode_header_wf h"
  shows "\<exists>bs. unicode_header_write h = Inr bs \<and> length bs = 564 \<and>
    (\<forall>r. unicode_header_read (bs @ r) = Inr (h, r))"
  using unicode_header_write_bytes [OF assms] unicode_header_read_bytes [OF assms] assms
  by (simp add: length_unicode_header_body) (simp add: unicode_header_wf_def)

lemma new_header_wf:
  "unicode_header_wf (unicode_header_new root c)" "ansi_header_wf (ansi_header_new root' c)"
  by (simp_all add: unicode_header_wf_def unicode_header_new_def ansi_header_wf_def
      ansi_header_new_def NDB_DEFAULT_NIDS_def)

theorem unicode_header_round_trip_witness:
  "\<exists>bs. unicode_header_write (unicode_header_new sample_root Cyclic) = Inr bs \<and> length bs = 564 \<and>
    (\<forall>r. unicode_header_read (bs @ r) = Inr (unicode_header_new sample_root Cyclic, r))"
  by (rule unicode_header_round_trip) (rule new_header_wf)

text \<open>
  C29. An ANSI header with arrays of their declared lengths is written as 512 bytes, and reading
  those bytes gives the header back.
\<close>

theorem ansi_header_round_trip:
  assumes "ansi_header_wf h"
  shows "\<exists>bs. ansi_header_write h = Inr bs \<and> length bs = 512 \<and>
    (\<forall>r. ansi_header_read (bs @ r) = Inr (h, r))"
  using ansi_header_write_bytes [OF assms] ansi_header_read_bytes [OF assms] assms
  by (simp add: length_ansi_header_body)

theorem ansi_header_round_trip_witness:
  "\<exists>bs. ansi_header_write (ansi_header_new sample_root Permute) = Inr bs \<and> length bs = 512 \<and>
    (\<forall>r. ansi_header_read (bs @ r) = Inr (ansi_header_new sample_root Permute, r))"
  by (rule ansi_header_round_trip) (rule new_header_wf)

text \<open>
  C26. A Unicode header of which any four adjacent checksummed bytes were overwritten by other
  ones is rejected with the partial-checksum error, whatever follows it in the file.
\<close>

theorem unicode_header_corruption:
  assumes "unicode_header_wf h" "i + 4 \<le> 471" "length w = 4"
    and "w \<noteq> take 4 (drop i (unicode_header_body h))"
  shows "unicode_header_read (write_u32 HEADER_MAGIC @
      write_u32 (compute_crc 0 (take 471 (unicode_header_body h))) @
      (take i (unicode_header_body h) @ w @ drop (i + 4) (unicode_header_body h)) @ rest) =
    Inl (NdbIo (InvalidNdbHeaderPartialCrc (compute_crc 0 (take 471 (unicode_header_body h)))))"
proof -
  define b where "b = unicode_header_body h"
  have len: "length b = 516" using assms(1) by (simp add: b_def length_unicode_header_body)
  define post where "post = drop (i + 4) (take 471 b)"
  have "take (i + 4) (take 471 b) = take i b @ take 4 (drop i b)"
    using assms(2) by (simp add: min_def take_add)
  then have orig: "take 471 b = take i b @ take 4 (drop i b) @ post"
    unfolding post_def by (metis append_assoc append_take_drop_id)
  have "drop (i + 4) b = post @ drop 471 b"
    using assms(2) append_take_drop_id [of "471 - (i + 4)" "drop (i + 4) b"]
    by (simp add: post_def drop_take)
  then have bad: "take i b @ w @ drop (i + 4) b = (take i b @ w @ post) @ drop 471 b"
    by simp
  have len': "length (take i b @ w @ post) = 471"
    using assms(2,3) len by (simp add: post_def)
  have "compute_crc 0 (take i b @ w @ post) \<noteq> compute_crc 0 (take 471 b)"
    unfolding orig using assms len by (intro crc_burst) (simp_all add: b_def)
  moreover have "read_exact 471 ((take i b @ w @ post) @ drop 471 b @ rest) =
      Inr (take i b @ w @ post, drop 471 b @ rest)"
    using len' by (rule read_exact_append)
  ultimately show ?thesis
    unfolding b_def [symmetric] bad by (simp add: unicode_header_read_def)
qed

lemma magic_client_bytes: "write_u16 HEADER_MAGIC_CLIENT = [0x53, 0x4D]"
  by code_simp

theorem unicode_header_corruption_witness:
  "unicode_header_read (write_u32 HEADER_MAGIC @
      write_u32 (compute_crc 0 (take 471 (unicode_header_body (unicode_header_new sample_root Cyclic)))) @
      (take 0 (unicode_header_body (unicode_header_new sample_root Cyclic)) @ [0, 0, 0, 0] @
       drop (0 + 4) (unicode_header_body (unicode_header_new sample_root Cyclic))) @ []) =
    Inl (NdbIo (InvalidNdbHeaderPartialCrc
      (compute_crc 0 (take 471 (unicode_header_body (unicode_header_new sample_root Cyclic))))))"
proof (rule unicode_header_corruption)
  show "[0, 0, 0, 0] \<noteq> take 4 (drop 0 (unicode_header_body (unicode_header_new sample_root Cyclic)))"
    by (simp add: unicode_header_body_def magic_client_bytes)
qed (simp_all add: new_header_wf)

end
