(* ===== verification/Ndb_Page.thy ===== *)
theory Ndb_Page
  imports Crc Ndb_Ids
begin

text \<open>
  The pages of \<open>page.rs\<close> that are not B-tree pages: page trailers, the four kinds of map
  pages, the search for free slots in an allocation map, and the density list. The trailer is
  one record over the width of a page identifier; its two layouts on disk differ in the order of
  the checksum and the identifier.
\<close>

section \<open>Page trailers\<close>

definition page_type_signature :: "page_type \<Rightarrow> u64 \<Rightarrow> u64 \<Rightarrow> u16" where
  "page_type_signature t index block_id =
    (if t \<in> {BlockBTree, NodeBTree, DensityList}
     then compute_sig (ucast (index AND 0xFFFFFFFF)) (ucast (block_id AND 0xFFFFFFFF)) else 0)"

record 'w page_trailer =
  pt_page_type :: page_type
  pt_signature :: u16
  pt_crc :: u32
  pt_block_id :: 'w

type_synonym unicode_page_trailer = "u64 page_trailer"
type_synonym ansi_page_trailer = "u32 page_trailer"

definition page_trailer_new :: "page_type \<Rightarrow> u16 \<Rightarrow> 'w \<Rightarrow> u32 \<Rightarrow> 'w page_trailer" where
  "page_trailer_new page_type signature block_id crc =
    \<lparr>pt_page_type = page_type, pt_signature = signature, pt_crc = crc, pt_block_id = block_id\<rparr>"

definition unicode_page_trailer_read :: "unicode_page_trailer decoder" where
  "unicode_page_trailer_read f =
    (case read_exact 2 f of Inl e \<Rightarrow> Inl e | Inr (page_type, f) \<Rightarrow>
    (if page_type ! 0 \<noteq> page_type ! 1
     then Inl (NdbIo (MismatchPageTypeRepeat (page_type ! 0) (page_type ! 1))) else
    (case page_type_try_from (page_type ! 0) of Inl e \<Rightarrow> Inl (NdbIo e) | Inr page_type \<Rightarrow>
    (case read_u16 f of Inl e \<Rightarrow> Inl e | Inr (signature, f) \<Rightarrow>
    (case read_u32 f of Inl e \<Rightarrow> Inl e | Inr (crc, f) \<Rightarrow>
    (case read_u64 f of Inl e \<Rightarrow> Inl e | Inr (block_id, f) \<Rightarrow>
     Inr (\<lparr>pt_page_type = page_type, pt_signature = signature, pt_crc = crc,
       pt_block_id = block_id\<rparr>, f)))))))"

definition unicode_page_trailer_write :: "unicode_page_trailer \<Rightarrow> bytes" where
  "unicode_page_trailer_write t =
    replicate 2 (page_type_code (pt_page_type t)) @ write_u16 (pt_signature t) @
    write_u32 (pt_crc t) @ write_u64 (pt_block_id t)"

definition ansi_page_trailer_read :: "ansi_page_trailer decoder" where
  "ansi_page_trailer_read f =
    (case read_exact 2 f of Inl e \<Rightarrow> Inl e | Inr (page_type, f) \<Rightarrow>
    (if page_type ! 0 \<noteq> page_type ! 1
     then Inl (NdbIo (MismatchPageTypeRepeat (page_type ! 0) (page_type ! 1))) else
    (case page_type_try_from (page_type ! 0) of Inl e \<Rightarrow> Inl (NdbIo e) | Inr page_type \<Rightarrow>
    (case read_u16 f of Inl e \<Rightarrow> Inl e | Inr (signature, f) \<Rightarrow>
    (case read_u32 f of Inl e \<Rightarrow> Inl e | Inr (block_id, f) \<Rightarrow>
    (case read_u32 f of Inl e \<Rightarrow> Inl e | Inr (crc, f) \<Rightarrow>
     Inr (\<lparr>pt_page_type = page_type, pt_signature = signature, pt_crc = crc,
       pt_block_id = block_id\<rparr>, f)))))))"

definition ansi_page_trailer_write :: "ansi_page_trailer \<Rightarrow> bytes" where
  "ansi_page_trailer_write t =
    replicate 2 (page_type_code (pt_page_type t)) @ write_u16 (pt_signature t) @
    write_u32 (pt_block_id t) @ write_u32 (pt_crc t)"

section \<open>Map pages\<close>

record unicode_map_page =
  um_map_bits :: bytes
  um_trailer :: unicode_page_trailer

record ansi_map_page =
  am_map_bits :: bytes
  am_trailer :: ansi_page_trailer
  am_padding :: u32

definition unicode_map_page_new ::
  "u8 \<Rightarrow> bytes \<Rightarrow> unicode_page_trailer \<Rightarrow> ndb_error + unicode_map_page" where
  "unicode_map_page_new PAGE_TYPE map_bits trailer =
    (if page_type_code (pt_page_type trailer) \<noteq> PAGE_TYPE
     then Inl (UnexpectedPageType (pt_page_type trailer))
     else Inr \<lparr>um_map_bits = map_bits, um_trailer = trailer\<rparr>)"

definition unicode_map_page_read :: "u8 \<Rightarrow> unicode_map_page decoder" where
  "unicode_map_page_read PAGE_TYPE f =
    (case read_exact 496 f of Inl e \<Rightarrow> Inl e | Inr (map_bits, f) \<Rightarrow>
    (case unicode_page_trailer_read f of Inl e \<Rightarrow> Inl e | Inr (trailer, f) \<Rightarrow>
    (if page_type_code (pt_page_type trailer) \<noteq> PAGE_TYPE
     then Inl (NdbIo (UnexpectedPageType (pt_page_type trailer))) else
    (let crc = compute_crc 0 map_bits in
     if crc \<noteq> pt_crc trailer then Inl (NdbIo (InvalidPageCrc crc))
     else Inr (\<lparr>um_map_bits = map_bits, um_trailer = trailer\<rparr>, f)))))"

definition unicode_map_page_write :: "unicode_map_page \<Rightarrow> bytes" where
  "unicode_map_page_write p =
    um_map_bits p @
    unicode_page_trailer_write ((um_trailer p)\<lparr>pt_crc := compute_crc 0 (um_map_bits p)\<rparr>)"

text \<open>
  The four ANSI map pages repeat one text with the type of the page filled in; allocation maps
  and allocation page maps put the padding first, free maps and free page maps put it last.
\<close>

definition ansi_map_page_new ::
  "page_type \<Rightarrow> bytes \<Rightarrow> ansi_page_trailer \<Rightarrow> ndb_error + ansi_map_page" where
  "ansi_map_page_new PAGE_TYPE amap_bits trailer =
    (if pt_page_type trailer \<noteq> PAGE_TYPE then Inl (UnexpectedPageType (pt_page_type trailer))
     else Inr \<lparr>am_map_bits = amap_bits, am_trailer = trailer, am_padding = 0\<rparr>)"

definition ansi_map_page_finish ::
  "page_type \<Rightarrow> bytes \<Rightarrow> bytes \<Rightarrow> u32 \<Rightarrow> ansi_map_page decoder" where
  "ansi_map_page_finish PAGE_TYPE buffer map_bits padding f =
    (case ansi_page_trailer_read f of Inl e \<Rightarrow> Inl e | Inr (trailer, f) \<Rightarrow>
    (if pt_page_type trailer \<noteq> PAGE_TYPE
     then Inl (NdbIo (UnexpectedPageType (pt_page_type trailer))) else
    (let crc = compute_crc 0 buffer in
     if crc \<noteq> pt_crc trailer then Inl (NdbIo (InvalidPageCrc crc))
     else Inr (\<lparr>am_map_bits = map_bits, am_trailer = trailer, am_padding = padding\<rparr>, f))))"

definition ansi_padded_map_read :: "page_type \<Rightarrow> ansi_map_page decoder" where
  "ansi_padded_map_read PAGE_TYPE f =
    (case read_exact 500 f of Inl e \<Rightarrow> Inl e | Inr (buffer, f) \<Rightarrow>
    (case read_u32 buffer of Inl e \<Rightarrow> Inl e | Inr (padding, cursor) \<Rightarrow>
    (case read_exact 496 cursor of Inl e \<Rightarrow> Inl e | Inr (map_bits, cursor) \<Rightarrow>
     ansi_map_page_finish PAGE_TYPE buffer map_bits padding f)))"

definition ansi_trailing_map_read :: "page_type \<Rightarrow> ansi_map_page decoder" where
  "ansi_trailing_map_read PAGE_TYPE f =
    (case read_exact 500 f of Inl e \<Rightarrow> Inl e | Inr (buffer, f) \<Rightarrow>
    (case read_exact 496 buffer of Inl e \<Rightarrow> Inl e | Inr (map_bits, cursor) \<Rightarrow>
    (case read_u32 cursor of Inl e \<Rightarrow> Inl e | Inr (padding, cursor) \<Rightarrow>
     ansi_map_page_finish PAGE_TYPE buffer map_bits padding f)))"

definition ansi_map_page_emit :: "ansi_map_page \<Rightarrow> bytes \<Rightarrow> io_error + bytes" where
  "ansi_map_page_emit p contents =
    (case cursor_array 500 contents of Inl e \<Rightarrow> Inl e
     | Inr buffer \<Rightarrow>
       Inr (buffer @ ansi_page_trailer_write ((am_trailer p)\<lparr>pt_crc := compute_crc 0 buffer\<rparr>)))"

definition ansi_padded_map_write :: "ansi_map_page \<Rightarrow> io_error + bytes" where
  "ansi_padded_map_write p =
    ansi_map_page_emit p (write_u32 (am_padding p) @ am_map_bits p)"

definition ansi_trailing_map_write :: "ansi_map_page \<Rightarrow> io_error + bytes" where
  "ansi_trailing_map_write p =
    ansi_map_page_emit p (am_map_bits p @ write_u32 (am_padding p))"

definition ansi_amap_read :: "ansi_map_page decoder" where
  "ansi_amap_read = ansi_padded_map_read AllocationMap"
definition ansi_pmap_read :: "ansi_map_page decoder" where
  "ansi_pmap_read = ansi_padded_map_read AllocationPageMap"
definition ansi_fmap_read :: "ansi_map_page decoder" where
  "ansi_fmap_read = ansi_trailing_map_read FreeMap"
definition ansi_fpmap_read :: "ansi_map_page decoder" where
  "ansi_fpmap_read = ansi_trailing_map_read FreePageMap"
definition ansi_amap_write :: "ansi_map_page \<Rightarrow> io_error + bytes" where
  "ansi_amap_write = ansi_padded_map_write"
definition ansi_pmap_write :: "ansi_map_page \<Rightarrow> io_error + bytes" where
  "ansi_pmap_write = ansi_padded_map_write"
definition ansi_fmap_write :: "ansi_map_page \<Rightarrow> io_error + bytes" where
  "ansi_fmap_write = ansi_trailing_map_write"
definition ansi_fpmap_write :: "ansi_map_page \<Rightarrow> io_error + bytes" where
  "ansi_fpmap_write = ansi_trailing_map_write"

section \<open>Density list\<close>

type_synonym density_list_entry = u32

definition DENSITY_LIST_ENTRY_PAGE_NUMBER_MASK :: u32 where
  "DENSITY_LIST_ENTRY_PAGE_NUMBER_MASK = 0x000FFFFF"

definition DENSITY_LIST_FILE_OFFSET :: nat where
  "DENSITY_LIST_FILE_OFFSET = 0x4200"

definition density_list_entry_new :: "u32 \<Rightarrow> u16 \<Rightarrow> ndb_error + density_list_entry" where
  "density_list_entry_new page free_slots =
    (if page AND NOT 0x000FFFFF \<noteq> 0 then Inl (InvalidDensityListEntryPageNumber page)
     else if free_slots AND NOT 0x0FFF \<noteq> 0
     then Inl (InvalidDensityListEntryFreeSlots free_slots)
     else Inr (page OR push_bit 20 (ucast free_slots)))"

definition density_list_entry_page :: "density_list_entry \<Rightarrow> u32" where
  "density_list_entry_page e = e AND DENSITY_LIST_ENTRY_PAGE_NUMBER_MASK"

definition density_list_entry_free_slots :: "density_list_entry \<Rightarrow> u16" where
  "density_list_entry_free_slots e = ucast (drop_bit 20 e)"

record 'w density_list_page =
  dl_backfill_complete :: bool
  dl_current_page :: u32
  dl_entry_count :: u8
  dl_entries :: "density_list_entry list"
  dl_trailer :: "'w page_trailer"

definition density_list_new ::
  "nat \<Rightarrow> bool \<Rightarrow> u32 \<Rightarrow> density_list_entry list \<Rightarrow> 'w page_trailer
    \<Rightarrow> ndb_error + 'w density_list_page" where
  "density_list_new MAX_ENTRIES backfill_complete current_page entries trailer =
    (if length entries > MAX_ENTRIES then Inl (InvalidDensityListEntryCount (length entries))
     else if pt_page_type trailer \<noteq> DensityList
     then Inl (UnexpectedPageType (pt_page_type trailer))
     else Inr \<lparr>dl_backfill_complete = backfill_complete, dl_current_page = current_page,
       dl_entry_count = word_of_nat (length entries),
       dl_entries = entries @ replicate (MAX_ENTRIES - length entries) 0,
       dl_trailer = trailer\<rparr>)"

definition density_list_page_entries :: "'w density_list_page \<Rightarrow> density_list_entry list" where
  "density_list_page_entries p = take (unat (dl_entry_count p)) (dl_entries p)"

definition density_list_read ::
  "nat \<Rightarrow> nat \<Rightarrow> 'w page_trailer decoder \<Rightarrow> bytes \<Rightarrow> io_error + 'w density_list_page" where
  "density_list_read BUFFER MAX_ENTRIES read_trailer file =
    (case read_exact BUFFER (drop DENSITY_LIST_FILE_OFFSET file) of Inl e \<Rightarrow> Inl e
     | Inr (buffer, f) \<Rightarrow>
    (case read_u8 buffer of Inl e \<Rightarrow> Inl e | Inr (flags, cursor) \<Rightarrow>
    (let backfill_complete = (flags AND 0x01 \<noteq> 0) in
    (case read_u8 cursor of Inl e \<Rightarrow> Inl e | Inr (entry_count, cursor) \<Rightarrow>
    (if entry_count > word_of_nat MAX_ENTRIES
     then Inl (NdbIo (InvalidDensityListEntryCount (unat entry_count))) else
    (case read_u16 cursor of Inl e \<Rightarrow> Inl e | Inr (padding, cursor) \<Rightarrow>
    (if padding \<noteq> 0 then Inl (NdbIo InvalidDensityListPadding) else
    (case read_u32 cursor of Inl e \<Rightarrow> Inl e | Inr (current_page, cursor) \<Rightarrow>
    (case read_many (unat entry_count) read_u32 cursor of Inl e \<Rightarrow> Inl e | Inr (entries, cursor) \<Rightarrow>
    (case read_exact 12 (drop ((MAX_ENTRIES - unat entry_count) * 4) cursor) of Inl e \<Rightarrow> Inl e
     | Inr (padding, cursor) \<Rightarrow>
    (if padding \<noteq> replicate 12 0 then Inl (NdbIo InvalidDensityListPadding) else
    (case read_trailer f of Inl e \<Rightarrow> Inl e | Inr (trailer, f) \<Rightarrow>
    (if pt_page_type trailer \<noteq> DensityList
     then Inl (NdbIo (UnexpectedPageType (pt_page_type trailer))) else
    (let crc = compute_crc 0 buffer in
     if crc \<noteq> pt_crc trailer then Inl (NdbIo (InvalidPageCrc crc))
     else Inr \<lparr>dl_backfill_complete = backfill_complete, dl_current_page = current_page,
       dl_entry_count = entry_count,
       dl_entries = entries @ replicate (MAX_ENTRIES - unat entry_count) 0,
       dl_trailer = trailer\<rparr>))))))))))))))"

definition density_list_write ::
  "nat \<Rightarrow> ('w page_trailer \<Rightarrow> bytes) \<Rightarrow> 'w density_list_page \<Rightarrow> bytes \<Rightarrow> io_error + bytes" where
  "density_list_write BUFFER write_trailer p file =
    (case cursor_array BUFFER
       (write_u8 (if dl_backfill_complete p then 0x01 else 0) @
        write_u8 (dl_entry_count p) @
        write_u16 0 @
        write_u32 (dl_current_page p) @
        concat (map (to_le 4) (dl_entries p)) @
        replicate 12 0) of Inl e \<Rightarrow> Inl e
     | Inr buffer \<Rightarrow>
       Inr (write_at file DENSITY_LIST_FILE_OFFSET
         (buffer @ write_trailer ((dl_trailer p)\<lparr>pt_crc := compute_crc 0 buffer\<rparr>))))"

definition unicode_density_list_read :: "bytes \<Rightarrow> io_error + u64 density_list_page" where
  "unicode_density_list_read = density_list_read 496 (476 div 4) unicode_page_trailer_read"
definition unicode_density_list_write :: "u64 density_list_page \<Rightarrow> bytes \<Rightarrow> io_error + bytes" where
  "unicode_density_list_write = density_list_write 496 unicode_page_trailer_write"
definition ansi_density_list_read :: "bytes \<Rightarrow> io_error + u32 density_list_page" where
  "ansi_density_list_read = density_list_read 500 (480 div 4) ansi_page_trailer_read"
definition ansi_density_list_write :: "u32 density_list_page \<Rightarrow> bytes \<Rightarrow> io_error + bytes" where
  "ansi_density_list_write = density_list_write 500 ansi_page_trailer_write"

definition density_list_wf :: "nat \<Rightarrow> 'w density_list_page \<Rightarrow> bool" where
  "density_list_wf MAX_ENTRIES p \<longleftrightarrow>
    unat (dl_entry_count p) \<le> MAX_ENTRIES \<and> length (dl_entries p) = MAX_ENTRIES \<and>
    (\<forall>e\<in>set (drop (unat (dl_entry_count p)) (dl_entries p)). e = 0) \<and>
    pt_page_type (dl_trailer p) = DensityList"

text \<open>Pages for the examples.\<close>

definition sample_ansi_map :: ansi_map_page where
  "sample_ansi_map = \<lparr>am_map_bits = replicate 496 0xFF,
     am_trailer = page_trailer_new FreeMap 0 0x4600 0, am_padding = 7\<rparr>"

definition sample_density :: "'w::zero density_list_page" where
  "sample_density = \<lparr>dl_backfill_complete = True, dl_current_page = 3, dl_entry_count = 1,
     dl_entries = 9 # replicate 118 0, dl_trailer = page_trailer_new DensityList 0 0 0\<rparr>"

section \<open>Round trips of pages\<close>

interpretation uptrailer: codec unicode_page_trailer_write unicode_page_trailer_read
    "\<lambda>t. pt_page_type t \<noteq> PageTypeNone" 16
  by unfold_locales
    (simp_all add: unicode_page_trailer_write_def unicode_page_trailer_read_def)

interpretation aptrailer: codec ansi_page_trailer_write ansi_page_trailer_read
    "\<lambda>t. pt_page_type t \<noteq> PageTypeNone" 12
  by unfold_locales
    (simp_all add: ansi_page_trailer_write_def ansi_page_trailer_read_def)

lemma unicode_map_page_read_write:
  assumes "length (um_map_bits p) = 496" and "pt_page_type (um_trailer p) \<noteq> PageTypeNone"
  shows "unicode_map_page_read (page_type_code (pt_page_type (um_trailer p)))
      (unicode_map_page_write p @ r) =
    Inr (p\<lparr>um_trailer := (um_trailer p)\<lparr>pt_crc := compute_crc 0 (um_map_bits p)\<rparr>\<rparr>, r)"
  using assms by (simp add: unicode_map_page_read_def unicode_map_page_write_def uptrailer.dec_enc)

lemma ansi_padded_map_read_write:
  assumes "length (am_map_bits p) = 496" and "pt_page_type (am_trailer p) \<noteq> PageTypeNone"
  shows "\<exists>bs. ansi_padded_map_write p = Inr bs \<and> length bs = 512 \<and>
    (\<forall>r. ansi_padded_map_read (pt_page_type (am_trailer p)) (bs @ r) =
      Inr (p\<lparr>am_trailer := (am_trailer p)
        \<lparr>pt_crc := compute_crc 0 (write_u32 (am_padding p) @ am_map_bits p)\<rparr>\<rparr>, r))"
proof -
  define buffer where "buffer = write_u32 (am_padding p) @ am_map_bits p"
  have len: "length buffer = 500" using assms by (simp add: buffer_def)
  have bits: "read_u32 buffer = Inr (am_padding p, am_map_bits p)" by (simp add: buffer_def)
  show ?thesis
    unfolding ansi_padded_map_write_def buffer_def [symmetric]
    using assms len bits
    by (simp add: ansi_map_page_emit_def ansi_padded_map_read_def ansi_map_page_finish_def
        aptrailer.dec_enc aptrailer.length_enc)
qed

lemma ansi_trailing_map_read_write:
  assumes "length (am_map_bits p) = 496" and "pt_page_type (am_trailer p) \<noteq> PageTypeNone"
  shows "\<exists>bs. ansi_trailing_map_write p = Inr bs \<and> length bs = 512 \<and>
    (\<forall>r. ansi_trailing_map_read (pt_page_type (am_trailer p)) (bs @ r) =
      Inr (p\<lparr>am_trailer := (am_trailer p)
        \<lparr>pt_crc := compute_crc 0 (am_map_bits p @ write_u32 (am_padding p))\<rparr>\<rparr>, r))"
proof -
  define buffer where "buffer = am_map_bits p @ write_u32 (am_padding p)"
  have len: "length buffer = 500" using assms by (simp add: buffer_def)
  have bits: "read_exact 496 buffer = Inr (am_map_bits p, write_u32 (am_padding p))"
    using assms by (simp add: buffer_def)
  show ?thesis
    unfolding ansi_trailing_map_write_def buffer_def [symmetric]
    using assms len bits
    by (simp add: ansi_map_page_emit_def ansi_trailing_map_read_def ansi_map_page_finish_def
        aptrailer.dec_enc aptrailer.length_enc)
qed

locale density_list_layout =
  trailer: codec write_trailer read_trailer "\<lambda>t. pt_page_type t \<noteq> PageTypeNone" trailer_size
  for write_trailer :: "'w page_trailer \<Rightarrow> bytes" and read_trailer :: "'w page_trailer decoder"
    and trailer_size :: nat +
  fixes buffer_size :: nat and max_entries :: nat
  assumes layout: "buffer_size = 4 * max_entries + 20"
    and max_entries: "max_entries < 256"
begin

lemma density_list_read_write:
  assumes wf: "density_list_wf max_entries p"
  shows "\<exists>crc file'. density_list_write buffer_size write_trailer p file = Inr file' \<and>
      density_list_read buffer_size max_entries read_trailer file' =
      Inr (p\<lparr>dl_trailer := (dl_trailer p)\<lparr>pt_crc := crc\<rparr>\<rparr>)"
proof -
  define n where "n = unat (dl_entry_count p)"
  define used where "used = take n (dl_entries p)"
  define gap where "gap = concat (map (to_le 4) (replicate (max_entries - n) (0 :: u32)))"
  have n: "n \<le> max_entries" "length used = n"
    using wf by (auto simp: density_list_wf_def n_def used_def)
  have "drop n (dl_entries p) = replicate (max_entries - n) 0"
    using wf replicate_length_same [of "drop n (dl_entries p)" 0]
    by (simp add: density_list_wf_def n_def)
  then have tl: "dl_entries p = used @ replicate (max_entries - n) 0"
    unfolding used_def by (metis append_take_drop_id)
  have gap: "length gap = (max_entries - n) * 4"
    unfolding gap_def by (subst u32.length_concat_enc) simp_all
  define rest where "rest = write_u16 0 @ write_u32 (dl_current_page p) @
    concat (map (to_le 4) used) @ gap @ replicate 12 0"
  define buffer where "buffer = (if dl_backfill_complete p then 1 else 0) # dl_entry_count p # rest"
  have len: "length buffer = buffer_size"
    using n gap by (simp add: buffer_def rest_def layout u32.length_concat_enc)
  have max: "\<not> word_of_nat max_entries < dl_entry_count p"
    using n max_entries by (simp add: word_less_nat_alt unat_of_nat n_def)
  define t where "t = (dl_trailer p)\<lparr>pt_crc := compute_crc 0 buffer\<rparr>"
  have t: "pt_page_type t = DensityList" "pt_crc t = compute_crc 0 buffer"
    using wf by (simp_all add: t_def density_list_wf_def)
  have w: "density_list_write buffer_size write_trailer p file =
      Inr (write_at file DENSITY_LIST_FILE_OFFSET (buffer @ write_trailer t))"
    using len tl
    by (simp add: density_list_write_def buffer_def rest_def gap_def t_def)
  define tail where "tail = drop (DENSITY_LIST_FILE_OFFSET + length (buffer @ write_trailer t)) file"
  have rd: "read_exact buffer_size (drop DENSITY_LIST_FILE_OFFSET
      (write_at file DENSITY_LIST_FILE_OFFSET (buffer @ write_trailer t))) =
      Inr (buffer, write_trailer t @ tail)"
    using len by (simp add: tail_def)
  have many: "read_many (unat (dl_entry_count p)) read_u32
      (concat (map (to_le 4) used) @ gap @ replicate 12 0) = Inr (used, gap @ replicate 12 0)"
    using n by (intro u32.read_many_enc) (simp_all add: n_def)
  have tr: "read_trailer (write_trailer t @ tail) = Inr (t, tail)"
    using t by (simp add: trailer.dec_enc)
  have r0: "read_u8 buffer = Inr (if dl_backfill_complete p then 1 else 0, dl_entry_count p # rest)"
    by (simp add: buffer_def)
  have "density_list_read buffer_size max_entries read_trailer
      (write_at file DENSITY_LIST_FILE_OFFSET (buffer @ write_trailer t)) =
      Inr (p\<lparr>dl_trailer := t\<rparr>)"
    unfolding density_list_read_def rd
    using n by (simp add: r0 rest_def max many gap [unfolded n_def] tr t tl n_def)
  then show ?thesis using w unfolding t_def by blast
qed

end

interpretation udensity: density_list_layout unicode_page_trailer_write unicode_page_trailer_read
    16 496 "476 div 4"
  by unfold_locales simp_all

interpretation adensity: density_list_layout ansi_page_trailer_write ansi_page_trailer_read
    12 500 "480 div 4"
  by unfold_locales simp_all

lemma density_list_new_wf:
  "density_list_new m b c es t = Inr p \<Longrightarrow> m < 256 \<Longrightarrow> density_list_wf m p"
  by (auto simp: density_list_new_def density_list_wf_def unat_of_nat split: if_splits)

lemma density_list_new_entries:
  "density_list_new m b c es t = Inr p \<Longrightarrow> m < 256 \<Longrightarrow> density_list_page_entries p = es"
  by (auto simp: density_list_new_def density_list_page_entries_def unat_of_nat split: if_splits)

section \<open>Properties\<close>

text \<open>
  C31. A Unicode map page of any of the four kinds is written as 512 bytes; reading them as a
  page of that kind gives the page back with the checksum filled in.
\<close>

theorem unicode_map_page_round_trip:
  assumes "length (um_map_bits p) = 496" "pt_page_type (um_trailer p) \<noteq> PageTypeNone"
  shows "length (unicode_map_page_write p) = 512 \<and>
    unicode_map_page_read (page_type_code (pt_page_type (um_trailer p)))
      (unicode_map_page_write p @ r) =
    Inr (p\<lparr>um_trailer := (um_trailer p)\<lparr>pt_crc := compute_crc 0 (um_map_bits p)\<rparr>\<rparr>, r)"
  using assms unicode_map_page_read_write [OF assms]
  by (simp add: unicode_map_page_write_def uptrailer.length_enc)

theorem unicode_map_page_round_trip_witness:
  "length (unicode_map_page_write \<lparr>um_map_bits = replicate 496 0xFF,
      um_trailer = page_trailer_new AllocationMap 0 0x4400 0\<rparr>) = 512 \<and>
   unicode_map_page_read (page_type_code AllocationMap)
     (unicode_map_page_write \<lparr>um_map_bits = replicate 496 0xFF,
        um_trailer = page_trailer_new AllocationMap 0 0x4400 0\<rparr> @ []) =
   Inr (\<lparr>um_map_bits = replicate 496 0xFF,
        um_trailer = page_trailer_new AllocationMap 0 0x4400 (compute_crc 0 (replicate 496 0xFF))\<rparr>, [])"
  using unicode_map_page_round_trip [of "\<lparr>um_map_bits = replicate 496 0xFF,
      um_trailer = page_trailer_new AllocationMap 0 0x4400 0\<rparr>" "[]"]
  by (simp add: page_trailer_new_def)

text \<open>
  C32. An ANSI map page is written as 512 bytes and read back with the checksum filled in; the two
  kinds with the padding in front and the two with the padding behind each by their own pair
  of operations.
\<close>

theorem ansi_map_page_round_trip:
  assumes "length (am_map_bits p) = 496"
  shows "(pt_page_type (am_trailer p) = AllocationMap \<longrightarrow>
      (\<exists>bs crc. ansi_amap_write p = Inr bs \<and> length bs = 512 \<and>
        ansi_amap_read (bs @ r) = Inr (p\<lparr>am_trailer := (am_trailer p)\<lparr>pt_crc := crc\<rparr>\<rparr>, r))) \<and>
    (pt_page_type (am_trailer p) = AllocationPageMap \<longrightarrow>
      (\<exists>bs crc. ansi_pmap_write p = Inr bs \<and> length bs = 512 \<and>
        ansi_pmap_read (bs @ r) = Inr (p\<lparr>am_trailer := (am_trailer p)\<lparr>pt_crc := crc\<rparr>\<rparr>, r))) \<and>
    (pt_page_type (am_trailer p) = FreeMap \<longrightarrow>
      (\<exists>bs crc. ansi_fmap_write p = Inr bs \<and> length bs = 512 \<and>
        ansi_fmap_read (bs @ r) = Inr (p\<lparr>am_trailer := (am_trailer p)\<lparr>pt_crc := crc\<rparr>\<rparr>, r))) \<and>
    (pt_page_type (am_trailer p) = FreePageMap \<longrightarrow>
      (\<exists>bs crc. ansi_fpmap_write p = Inr bs \<and> length bs = 512 \<and>
        ansi_fpmap_read (bs @ r) = Inr (p\<lparr>am_trailer := (am_trailer p)\<lparr>pt_crc := crc\<rparr>\<rparr>, r)))"
  using ansi_padded_map_read_write [OF assms] ansi_trailing_map_read_write [OF assms]
  by (intro conjI impI)
    (fastforce simp: ansi_amap_write_def ansi_amap_read_def ansi_pmap_write_def ansi_pmap_read_def
      ansi_fmap_write_def ansi_fmap_read_def ansi_fpmap_write_def ansi_fpmap_read_def)+

theorem ansi_map_page_round_trip_witness:
  "\<exists>bs crc. ansi_fmap_write sample_ansi_map = Inr bs \<and> length bs = 512 \<and>
     ansi_fmap_read (bs @ []) = Inr (sample_ansi_map
       \<lparr>am_trailer := (am_trailer sample_ansi_map)\<lparr>pt_crc := crc\<rparr>\<rparr>, [])"
  using ansi_map_page_round_trip [of sample_ansi_map "[]"]
  by (simp add: sample_ansi_map_def page_trailer_new_def)

text \<open>
  C30. A density list that \<open>new\<close> accepts is written over any file so that reading the file
  gives the list back, in both formats, whatever the file held before and even when it was
  shorter than the offset of the density list.
\<close>

theorem density_list_round_trip:
  "(density_list_new (476 div 4) b c es t = Inr p \<longrightarrow>
     (\<exists>crc file'. unicode_density_list_write p file = Inr file' \<and>
       unicode_density_list_read file' = Inr (p\<lparr>dl_trailer := (dl_trailer p)\<lparr>pt_crc := crc\<rparr>\<rparr>) \<and>
       density_list_page_entries p = es)) \<and>
   (density_list_new (480 div 4) b c es t' = Inr p' \<longrightarrow>
     (\<exists>crc file'. ansi_density_list_write p' file = Inr file' \<and>
       ansi_density_list_read file' = Inr (p'\<lparr>dl_trailer := (dl_trailer p')\<lparr>pt_crc := crc\<rparr>\<rparr>) \<and>
       density_list_page_entries p' = es))"
  using udensity.density_list_read_write [of p "file"] adensity.density_list_read_write [of p' "file"]
    density_list_new_wf [of "476 div 4" b c es t p] density_list_new_wf [of "480 div 4" b c es t' p']
    density_list_new_entries [of "476 div 4" b c es t p]
    density_list_new_entries [of "480 div 4" b c es t' p']
  unfolding unicode_density_list_write_def unicode_density_list_read_def
    ansi_density_list_write_def ansi_density_list_read_def
  by simp

theorem density_list_round_trip_witness:
  "\<exists>crc file'. unicode_density_list_write sample_density [] = Inr file' \<and>
     unicode_density_list_read file' =
       Inr (sample_density\<lparr>dl_trailer := (dl_trailer sample_density)\<lparr>pt_crc := crc\<rparr>\<rparr>) \<and>
     density_list_page_entries (sample_density :: u64 density_list_page) = [9]"
proof -
  have "density_list_new (476 div 4) True 3 [9] (page_trailer_new DensityList 0 0 0) =
      Inr (sample_density :: u64 density_list_page)"
    by (simp add: density_list_new_def sample_density_def page_trailer_new_def)
  then show ?thesis
    using density_list_round_trip [of True 3 "[9]" "page_trailer_new DensityList 0 0 0"
        "sample_density :: u64 density_list_page" "[]"] by blast
qed

end
