(* ===== verification/Ndb_BTree.thy ===== *)
theory Ndb_BTree
  imports Ndb_Page
begin

text \<open>
  B-tree pages (\<open>BTPAGE\<close>) of both formats, the entries of intermediate, block and node pages,
  and \<open>RootBTreePage\<close> with its cached search. The page traits of the source are generic in the
  entry type; here the generic functions take the entry's minimum size, its codec and the
  constructor of the page, and the concrete pages are instances of them. The page types of the
  source share one record: a leaf page has level 0.
\<close>

section \<open>Entries\<close>

record 'w btree_page_entry =
  pe_key :: 'w
  pe_block :: "('w, 'w) block_ref"

definition unicode_page_entry_read :: "u64 btree_page_entry decoder" where
  "unicode_page_entry_read f =
    (case read_u64 f of Inl e \<Rightarrow> Inl e | Inr (key, f) \<Rightarrow>
    (case unicode_ref_read f of Inl e \<Rightarrow> Inl e | Inr (block, f) \<Rightarrow>
     Inr (\<lparr>pe_key = key, pe_block = block\<rparr>, f)))"

definition unicode_page_entry_write :: "u64 btree_page_entry \<Rightarrow> bytes" where
  "unicode_page_entry_write e = write_u64 (pe_key e) @ unicode_ref_write (pe_block e)"

definition ansi_page_entry_read :: "u32 btree_page_entry decoder" where
  "ansi_page_entry_read f =
    (case read_u32 f of Inl e \<Rightarrow> Inl e | Inr (key, f) \<Rightarrow>
    (case ansi_ref_read f of Inl e \<Rightarrow> Inl e | Inr (block, f) \<Rightarrow>
     Inr (\<lparr>pe_key = key, pe_block = block\<rparr>, f)))"

definition ansi_page_entry_write :: "u32 btree_page_entry \<Rightarrow> bytes" where
  "ansi_page_entry_write e = write_u32 (pe_key e) @ ansi_ref_write (pe_block e)"

record unicode_block_entry =
  ub_block :: unicode_block_ref
  ub_size :: u16
  ub_ref_count :: u16
  ub_padding :: u32

definition unicode_block_entry_new_with_ref_count ::
  "unicode_block_ref \<Rightarrow> u16 \<Rightarrow> u16 \<Rightarrow> unicode_block_entry" where
  "unicode_block_entry_new_with_ref_count block sz ref_count =
    \<lparr>ub_block = block, ub_size = sz, ub_ref_count = ref_count, ub_padding = 0\<rparr>"

definition unicode_block_entry_new :: "unicode_block_ref \<Rightarrow> u16 \<Rightarrow> unicode_block_entry" where
  "unicode_block_entry_new block sz = unicode_block_entry_new_with_ref_count block sz 1"

definition unicode_block_entry_key :: "unicode_block_entry \<Rightarrow> u64" where
  "unicode_block_entry_key e = block_id_search_key (ref_block (ub_block e))"

definition unicode_block_entry_read :: "unicode_block_entry decoder" where
  "unicode_block_entry_read f =
    (case unicode_ref_read f of Inl e \<Rightarrow> Inl e | Inr (block, f) \<Rightarrow>
    (case read_u16 f of Inl e \<Rightarrow> Inl e | Inr (sz, f) \<Rightarrow>
    (case read_u16 f of Inl e \<Rightarrow> Inl e | Inr (ref_count, f) \<Rightarrow>
    (case read_u32 f of Inl e \<Rightarrow> Inl e | Inr (padding, f) \<Rightarrow>
     Inr (\<lparr>ub_block = block, ub_size = sz, ub_ref_count = ref_count, ub_padding = padding\<rparr>, f)))))"

definition unicode_block_entry_write :: "unicode_block_entry \<Rightarrow> bytes" where
  "unicode_block_entry_write e = unicode_ref_write (ub_block e) @ write_u16 (ub_size e) @
    write_u16 (ub_ref_count e) @ write_u32 (ub_padding e)"

record ansi_block_entry =
  ab_block :: ansi_block_ref
  ab_size :: u16
  ab_ref_count :: u16

definition ansi_block_entry_new :: "ansi_block_ref \<Rightarrow> u16 \<Rightarrow> ansi_block_entry" where
  "ansi_block_entry_new block sz = \<lparr>ab_block = block, ab_size = sz, ab_ref_count = 1\<rparr>"

definition ansi_block_entry_key :: "ansi_block_entry \<Rightarrow> u32" where
  "ansi_block_entry_key e = block_id_search_key (ref_block (ab_block e))"

definition ansi_block_entry_read :: "ansi_block_entry decoder" where
  "ansi_block_entry_read f =
    (case ansi_ref_read f of Inl e \<Rightarrow> Inl e | Inr (block, f) \<Rightarrow>
    (case read_u16 f of Inl e \<Rightarrow> Inl e | Inr (sz, f) \<Rightarrow>
    (case read_u16 f of Inl e \<Rightarrow> Inl e | Inr (ref_count, f) \<Rightarrow>
     Inr (\<lparr>ab_block = block, ab_size = sz, ab_ref_count = ref_count\<rparr>, f))))"

definition ansi_block_entry_write :: "ansi_block_entry \<Rightarrow> bytes" where
  "ansi_block_entry_write e =
    ansi_ref_write (ab_block e) @ write_u16 (ab_size e) @ write_u16 (ab_ref_count e)"

record unicode_node_entry =
  un_node :: node_id
  un_data :: unicode_block_id
  un_sub_node :: "unicode_block_id option"
  un_parent :: "node_id option"
  un_padding :: u32

definition unicode_node_entry_new ::
  "node_id \<Rightarrow> unicode_block_id \<Rightarrow> unicode_block_id option \<Rightarrow> node_id option \<Rightarrow> unicode_node_entry" where
  "unicode_node_entry_new node data sub_node parent =
    \<lparr>un_node = node, un_data = data, un_sub_node = sub_node, un_parent = parent, un_padding = 0\<rparr>"

definition unicode_node_entry_key :: "unicode_node_entry \<Rightarrow> u64" where
  "unicode_node_entry_key e = ucast (un_node e)"

definition unwrap_or_default :: "'a::zero option \<Rightarrow> 'a" where
  "unwrap_or_default x = (case x of None \<Rightarrow> 0 | Some v \<Rightarrow> v)"

definition unicode_node_entry_read :: "unicode_node_entry decoder" where
  "unicode_node_entry_read f =
    (case read_u64 f of Inl e \<Rightarrow> Inl e | Inr (node, f) \<Rightarrow>
    (if unat node \<ge> 2 ^ 32 then Inl (NdbIo (InvalidNodeBTreeEntryNodeId node)) else
    (case read_u64 f of Inl e \<Rightarrow> Inl e | Inr (data, f) \<Rightarrow>
    (case read_u64 f of Inl e \<Rightarrow> Inl e | Inr (sub_node, f) \<Rightarrow>
    (case read_u32 f of Inl e \<Rightarrow> Inl e | Inr (parent, f) \<Rightarrow>
    (case read_u32 f of Inl e \<Rightarrow> Inl e | Inr (padding, f) \<Rightarrow>
     Inr (\<lparr>un_node = ucast node, un_data = data,
       un_sub_node = (if block_id_search_key sub_node = 0 then None else Some sub_node),
       un_parent = (if parent = 0 then None else Some parent), un_padding = padding\<rparr>, f)))))))"

definition unicode_node_entry_write :: "unicode_node_entry \<Rightarrow> bytes" where
  "unicode_node_entry_write e =
    write_u64 (ucast (un_node e)) @ write_u64 (un_data e) @
    write_u64 (unwrap_or_default (un_sub_node e)) @
    write_u32 (unwrap_or_default (un_parent e)) @ write_u32 (un_padding e)"

record ansi_node_entry =
  an_node :: node_id
  an_data :: ansi_block_id
  an_sub_node :: "ansi_block_id option"
  an_parent :: "node_id option"

definition ansi_node_entry_key :: "ansi_node_entry \<Rightarrow> u32" where
  "ansi_node_entry_key e = an_node e"

definition ansi_node_entry_read :: "ansi_node_entry decoder" where
  "ansi_node_entry_read f =
    (case node_id_read f of Inl e \<Rightarrow> Inl e | Inr (node, f) \<Rightarrow>
    (case read_u32 f of Inl e \<Rightarrow> Inl e | Inr (data, f) \<Rightarrow>
    (case read_u32 f of Inl e \<Rightarrow> Inl e | Inr (sub_node, f) \<Rightarrow>
    (case node_id_read f of Inl e \<Rightarrow> Inl e | Inr (parent, f) \<Rightarrow>
     Inr (\<lparr>an_node = node, an_data = data,
       an_sub_node = (if block_id_search_key sub_node = 0 then None else Some sub_node),
       an_parent = (if parent = 0 then None else Some parent)\<rparr>, f)))))"

definition ansi_node_entry_write :: "ansi_node_entry \<Rightarrow> bytes" where
  "ansi_node_entry_write e =
    node_id_write (an_node e) @ write_u32 (an_data e) @
    write_u32 (unwrap_or_default (an_sub_node e)) @
    node_id_write (unwrap_or_default (an_parent e))"

section \<open>Pages\<close>

record ('e, 'w) btree_page =
  bp_level :: u8
  bp_max_entries :: u8
  bp_entry_size :: u8
  bp_entries :: "'e list"
  bp_trailer :: "'w page_trailer"

type_synonym ('e, 'w) page_new =
  "u8 \<Rightarrow> u8 \<Rightarrow> u8 \<Rightarrow> 'e list \<Rightarrow> 'w page_trailer \<Rightarrow> ndb_error + ('e, 'w) btree_page"

definition btree_page_make :: "u8 \<Rightarrow> u8 \<Rightarrow> u8 \<Rightarrow> 'e list \<Rightarrow> 'w page_trailer \<Rightarrow> ('e, 'w) btree_page" where
  "btree_page_make level max_entries entry_size entries trailer =
    \<lparr>bp_level = level, bp_max_entries = max_entries, bp_entry_size = entry_size,
     bp_entries = entries, bp_trailer = trailer\<rparr>"

definition intermediate_page_new :: "('e, 'w) page_new" where
  "intermediate_page_new level max_entries entry_size entries trailer =
    (if \<not> (1 \<le> level \<and> level \<le> 8) then Inl (InvalidBTreePageLevel level)
     else if length entries > unat max_entries then Inl (InvalidBTreeEntryCount (length entries))
     else if pt_page_type trailer \<noteq> BlockBTree \<and> pt_page_type trailer \<noteq> NodeBTree
     then Inl (UnexpectedPageType (pt_page_type trailer))
     else Inr (btree_page_make level max_entries entry_size entries trailer))"

definition leaf_page_new :: "page_type \<Rightarrow> ('e, 'w) page_new" where
  "leaf_page_new page_type level max_entries entry_size entries trailer =
    (if level \<noteq> 0 then Inl (InvalidBTreePageLevel level)
     else if length entries > unat max_entries then Inl (InvalidBTreeEntryCount (length entries))
     else if pt_page_type trailer \<noteq> page_type
     then Inl (UnexpectedPageType (pt_page_type trailer))
     else Inr (btree_page_make 0 max_entries entry_size entries trailer))"

definition block_page_new :: "('e, 'w) page_new" where
  "block_page_new = leaf_page_new BlockBTree"

definition node_page_new :: "('e, 'w) page_new" where
  "node_page_new = leaf_page_new NodeBTree"

definition UNICODE_BTREE_ENTRIES_SIZE :: nat where "UNICODE_BTREE_ENTRIES_SIZE = 488"
definition ANSI_BTREE_ENTRIES_SIZE :: nat where "ANSI_BTREE_ENTRIES_SIZE = 496"

text \<open>The loops over the entries; a slice that passes the end of the buffer panics.\<close>

fun btree_read_entries :: "'e decoder \<Rightarrow> bytes \<Rightarrow> nat \<Rightarrow> nat \<Rightarrow> nat \<Rightarrow> io_error + 'e list" where
  "btree_read_entries read_entry buffer entry_size i 0 = Inr []"
| "btree_read_entries read_entry buffer entry_size i (Suc n) =
    (let offset = i * entry_size; end = offset + entry_size in
     if end > length buffer then Inl Panic
     else case read_entry (take entry_size (drop offset buffer)) of Inl e \<Rightarrow> Inl e
       | Inr (entry, _) \<Rightarrow>
         (case btree_read_entries read_entry buffer entry_size (Suc i) n of Inl e \<Rightarrow> Inl e
          | Inr entries \<Rightarrow> Inr (entry # entries)))"

fun btree_write_entries ::
  "('e \<Rightarrow> bytes) \<Rightarrow> nat \<Rightarrow> nat \<Rightarrow> 'e list \<Rightarrow> bytes \<Rightarrow> io_error + bytes" where
  "btree_write_entries write_entry entry_size i [] buffer = Inr buffer"
| "btree_write_entries write_entry entry_size i (entry # entries) buffer =
    (let offset = i * entry_size; end = offset + entry_size; bs = write_entry entry in
     if end > length buffer then Inl Panic
     else if length bs > entry_size then Inl (Io WriteZero)
     else btree_write_entries write_entry entry_size (Suc i) entries
       (take offset buffer @ bs @ drop (offset + length bs) buffer))"

definition btree_page_checks :: "nat \<Rightarrow> nat \<Rightarrow> u8 \<Rightarrow> u8 \<Rightarrow> u8 \<Rightarrow> io_error + unit" where
  "btree_page_checks ENTRIES_SIZE ENTRY_SIZE entry_count max_entries entry_size =
    (if unat entry_count > unat max_entries
     then Inl (NdbIo (InvalidBTreeEntryCount (unat entry_count)))
     else if unat entry_size < ENTRY_SIZE then Inl (NdbIo (InvalidBTreeEntrySize entry_size))
     else if unat max_entries > ENTRIES_SIZE div unat entry_size
     then Inl (NdbIo (InvalidBTreeEntryMaxCount max_entries))
     else Inr ())"

definition btree_page_finish ::
  "'w page_trailer decoder \<Rightarrow> 'e decoder \<Rightarrow> ('e, 'w) page_new \<Rightarrow> bytes \<Rightarrow> u8 \<Rightarrow> u8 \<Rightarrow> u8 \<Rightarrow> u8
    \<Rightarrow> ('e, 'w) btree_page decoder" where
  "btree_page_finish read_trailer read_entry new buffer entry_count max_entries entry_size level f =
    (case read_trailer f of Inl e \<Rightarrow> Inl e | Inr (trailer, f) \<Rightarrow>
    (if pt_page_type trailer \<noteq> BlockBTree \<and> pt_page_type trailer \<noteq> NodeBTree
     then Inl (NdbIo (UnexpectedPageType (pt_page_type trailer))) else
    (let crc = compute_crc 0 buffer in
     if crc \<noteq> pt_crc trailer then Inl (NdbIo (InvalidPageCrc crc)) else
    (case btree_read_entries read_entry buffer (unat entry_size) 0 (unat entry_count) of
       Inl e \<Rightarrow> Inl e | Inr entries \<Rightarrow>
    (case new level max_entries entry_size entries trailer of
       Inl e \<Rightarrow> Inl (NdbIo e) | Inr page \<Rightarrow> Inr (page, f))))))"

definition unicode_btree_page_read ::
  "nat \<Rightarrow> 'e decoder \<Rightarrow> ('e, u64) page_new \<Rightarrow> ('e, u64) btree_page decoder" where
  "unicode_btree_page_read ENTRY_SIZE read_entry new f =
    (case read_exact 496 f of Inl e \<Rightarrow> Inl e | Inr (buffer, f) \<Rightarrow>
    (case read_u8 (drop UNICODE_BTREE_ENTRIES_SIZE buffer) of Inl e \<Rightarrow> Inl e
     | Inr (entry_count, cursor) \<Rightarrow>
    (case read_u8 cursor of Inl e \<Rightarrow> Inl e | Inr (max_entries, cursor) \<Rightarrow>
    (case read_u8 cursor of Inl e \<Rightarrow> Inl e | Inr (entry_size, cursor) \<Rightarrow>
    (case btree_page_checks UNICODE_BTREE_ENTRIES_SIZE ENTRY_SIZE entry_count max_entries entry_size of
       Inl e \<Rightarrow> Inl e | Inr _ \<Rightarrow>
    (case read_u8 cursor of Inl e \<Rightarrow> Inl e | Inr (level, cursor) \<Rightarrow>
    (if \<not> level \<le> 8 then Inl (NdbIo (InvalidBTreePageLevel level)) else
    (case read_u32 cursor of Inl e \<Rightarrow> Inl e | Inr (padding, cursor) \<Rightarrow>
    (if padding \<noteq> 0 then Inl (NdbIo (InvalidBTreePagePadding padding)) else
     btree_page_finish unicode_page_trailer_read read_entry new buffer entry_count max_entries
       entry_size level f)))))))))"

definition unicode_btree_page_write ::
  "('e \<Rightarrow> bytes) \<Rightarrow> ('e, u64) btree_page \<Rightarrow> io_error + bytes" where
  "unicode_btree_page_write write_entry p =
    (case btree_write_entries write_entry (unat (bp_entry_size p)) 0 (bp_entries p)
       (replicate 496 0) of Inl e \<Rightarrow> Inl e | Inr buffer \<Rightarrow>
     let buffer = take UNICODE_BTREE_ENTRIES_SIZE buffer @
       write_u8 (word_of_nat (length (bp_entries p))) @ write_u8 (bp_max_entries p) @
       write_u8 (bp_entry_size p) @ write_u8 (bp_level p) @ write_u32 0;
       trailer = bp_trailer p
     in Inr (buffer @ unicode_page_trailer_write (page_trailer_new (pt_page_type trailer)
         (pt_signature trailer) (pt_block_id trailer) (compute_crc 0 buffer))))"

definition ansi_btree_page_read ::
  "nat \<Rightarrow> 'e decoder \<Rightarrow> ('e, u32) page_new \<Rightarrow> ('e, u32) btree_page decoder" where
  "ansi_btree_page_read ENTRY_SIZE read_entry new f =
    (case read_exact 500 f of Inl e \<Rightarrow> Inl e | Inr (buffer, f) \<Rightarrow>
    (case read_u8 (drop ANSI_BTREE_ENTRIES_SIZE buffer) of Inl e \<Rightarrow> Inl e
     | Inr (entry_count, cursor) \<Rightarrow>
    (case read_u8 cursor of Inl e \<Rightarrow> Inl e | Inr (max_entries, cursor) \<Rightarrow>
    (case read_u8 cursor of Inl e \<Rightarrow> Inl e | Inr (entry_size, cursor) \<Rightarrow>
    (case btree_page_checks ANSI_BTREE_ENTRIES_SIZE ENTRY_SIZE entry_count max_entries entry_size of
       Inl e \<Rightarrow> Inl e | Inr _ \<Rightarrow>
    (case read_u8 cursor of Inl e \<Rightarrow> Inl e | Inr (level, cursor) \<Rightarrow>
    (if \<not> level \<le> 8 then Inl (NdbIo (InvalidBTreePageLevel level)) else
     btree_page_finish ansi_page_trailer_read read_entry new buffer entry_count max_entries
       entry_size level f)))))))"

definition ansi_btree_page_write ::
  "('e \<Rightarrow> bytes) \<Rightarrow> ('e, u32) btree_page \<Rightarrow> io_error + bytes" where
  "ansi_btree_page_write write_entry p =
    (case btree_write_entries write_entry (unat (bp_entry_size p)) 0 (bp_entries p)
       (replicate 500 0) of Inl e \<Rightarrow> Inl e | Inr buffer \<Rightarrow>
     let buffer = take ANSI_BTREE_ENTRIES_SIZE buffer @
       write_u8 (word_of_nat (length (bp_entries p))) @ write_u8 (bp_max_entries p) @
       write_u8 (bp_entry_size p) @ write_u8 (bp_level p);
       trailer = bp_trailer p
     in Inr (buffer @ ansi_page_trailer_write (page_trailer_new (pt_page_type trailer)
         (pt_signature trailer) (pt_block_id trailer) (compute_crc 0 buffer))))"

text \<open>What a page needs to survive a round trip, beyond what its constructor checks.\<close>

definition btree_page_fits :: "nat \<Rightarrow> nat \<Rightarrow> ('e, 'w) btree_page \<Rightarrow> bool" where
  "btree_page_fits ENTRIES_SIZE ENTRY_SIZE p \<longleftrightarrow>
    0 < ENTRY_SIZE \<and> ENTRY_SIZE \<le> unat (bp_entry_size p) \<and> length (bp_entries p) \<le> unat (bp_max_entries p) \<and>
    unat (bp_max_entries p) * unat (bp_entry_size p) \<le> ENTRIES_SIZE \<and> bp_level p \<le> 8 \<and>
    pt_page_type (bp_trailer p) \<in> {BlockBTree, NodeBTree}"

definition page_new_keeps :: "('e, 'w) page_new \<Rightarrow> ('e, 'w) btree_page \<Rightarrow> bool" where
  "page_new_keeps new p \<longleftrightarrow> (\<forall>trailer. pt_page_type trailer = pt_page_type (bp_trailer p) \<longrightarrow>
     new (bp_level p) (bp_max_entries p) (bp_entry_size p) (bp_entries p) trailer =
       Inr (p\<lparr>bp_trailer := trailer\<rparr>))"

section \<open>Round trips of B-tree pages\<close>

lemma page_trailer_new_crc:
  "page_trailer_new (pt_page_type t) (pt_signature t) (pt_block_id t) c = t\<lparr>pt_crc := c\<rparr>"
  by (cases t) (simp add: page_trailer_new_def)

lemma intermediate_page_new_keeps:
  "1 \<le> bp_level p \<Longrightarrow> btree_page_fits n m p \<Longrightarrow> page_new_keeps intermediate_page_new p"
  by (auto simp: page_new_keeps_def intermediate_page_new_def btree_page_fits_def btree_page_make_def)

lemma leaf_page_new_keeps:
  "bp_level p = 0 \<Longrightarrow> btree_page_fits n m p \<Longrightarrow> pt_page_type (bp_trailer p) = t \<Longrightarrow>
    page_new_keeps (leaf_page_new t) p"
  by (auto simp: page_new_keeps_def leaf_page_new_def btree_page_fits_def btree_page_make_def)

context codec
begin

lemma btree_write_entries_enc:
  assumes "sz \<le> es"
  shows "\<forall>x\<in>set xs. ok x \<Longrightarrow> length pre = i * es \<Longrightarrow> es * length xs \<le> m \<Longrightarrow>
    btree_write_entries enc es i xs (pre @ replicate m 0) =
    Inr (pre @ concat (map (\<lambda>x. enc x @ replicate (es - sz) 0) xs) @
      replicate (m - es * length xs) 0)"
proof (induction xs arbitrary: i pre m)
  case (Cons x xs)
  have m: "es \<le> m" "m - sz = (es - sz) + (m - es)" using Cons.prems(3) assms by auto
  have "btree_write_entries enc es i (x # xs) (pre @ replicate m 0) =
      btree_write_entries enc es (Suc i) xs (pre @ enc x @ replicate (m - sz) 0)"
    using Cons.prems assms m(1) by (simp add: Let_def length_enc)
  also have "pre @ enc x @ replicate (m - sz) 0 =
      (pre @ enc x @ replicate (es - sz) 0) @ replicate (m - es) 0"
    unfolding m(2) by (simp add: replicate_add)
  also have "btree_write_entries enc es (Suc i) xs \<dots> = Inr ((pre @ enc x @ replicate (es - sz) 0) @
      concat (map (\<lambda>x. enc x @ replicate (es - sz) 0) xs) @
      replicate (m - es - es * length xs) 0)"
    using Cons.prems assms by (intro Cons.IH) (simp_all add: length_enc)
  finally show ?case by simp
qed simp

lemma btree_read_entries_dec:
  assumes "sz \<le> es"
  shows "\<forall>x\<in>set xs. ok x \<Longrightarrow> length pre = i * es \<Longrightarrow>
    btree_read_entries dec (pre @ concat (map (\<lambda>x. enc x @ replicate (es - sz) 0) xs) @ rest)
      es i (length xs) = Inr xs"
proof (induction xs arbitrary: i pre)
  case (Cons x xs)
  have "btree_read_entries dec ((pre @ enc x @ replicate (es - sz) 0) @
      concat (map (\<lambda>x. enc x @ replicate (es - sz) 0) xs) @ rest) es (Suc i) (length xs) = Inr xs"
    using Cons.prems assms by (intro Cons.IH) (simp_all add: length_enc)
  then show ?case
    using Cons.prems assms by (simp add: Let_def length_enc dec_enc)
qed simp

lemma length_padded:
  "sz \<le> es \<Longrightarrow> \<forall>x\<in>set xs. ok x \<Longrightarrow>
    length (concat (map (\<lambda>x. enc x @ replicate (es - sz) 0) xs)) = es * length xs"
  by (induction xs) (simp_all add: length_enc)

end

lemma btree_page_checks_fits:
  assumes "btree_page_fits n m p"
  shows "btree_page_checks n m (word_of_nat (length (bp_entries p))) (bp_max_entries p)
    (bp_entry_size p) = Inr ()"
proof -
  have "length (bp_entries p) < 256"
    using assms unat_word_bound [of "bp_max_entries p"] by (auto simp: btree_page_fits_def)
  then show ?thesis
    using assms
    by (auto simp: btree_page_fits_def btree_page_checks_def unat_of_nat not_less
        less_eq_div_iff_mult_less_eq)
qed

context codec
begin

lemma btree_buffer:
  assumes fits: "btree_page_fits n sz p" and ok: "\<forall>x\<in>set (bp_entries p). ok x"
    and m: "n \<le> m"
  obtains buf where
    "btree_write_entries enc (unat (bp_entry_size p)) 0 (bp_entries p) (replicate m 0) = Inr buf"
    and "length buf = m"
    and "\<And>rest. btree_read_entries dec (take n buf @ rest) (unat (bp_entry_size p)) 0
      (unat (word_of_nat (length (bp_entries p)) :: u8)) = Inr (bp_entries p)"
proof -
  define es xs where "es = unat (bp_entry_size p)" and "xs = bp_entries p"
  define body where "body = concat (map (\<lambda>x. enc x @ replicate (es - sz) 0) xs)"
  have es: "sz \<le> es" "length xs \<le> unat (bp_max_entries p)"
    using fits by (auto simp: btree_page_fits_def es_def xs_def)
  have "es * length xs \<le> es * unat (bp_max_entries p)" using es by simp
  also have "\<dots> \<le> n" using fits by (simp add: btree_page_fits_def es_def mult.commute)
  finally have len: "es * length xs \<le> n" .
  have small: "length xs < 256"
    using es(2) unat_word_bound [of "bp_max_entries p"] by simp
  have body: "length body = es * length xs"
    unfolding body_def using es ok by (intro length_padded) (simp_all add: xs_def)
  have w: "btree_write_entries enc es 0 xs (replicate m 0) =
      Inr (body @ replicate (m - es * length xs) 0)"
    using btree_write_entries_enc [OF es(1), of xs "[]" 0 m] ok len m
    by (simp add: xs_def body_def)
  have r: "btree_read_entries dec (take n (body @ replicate (m - es * length xs) 0) @ rest) es 0
      (unat (word_of_nat (length xs) :: u8)) = Inr xs" for rest
    using btree_read_entries_dec [OF es(1), of xs "[]" 0
        "replicate (min (n - es * length xs) (m - es * length xs)) 0 @ rest"] ok len body small
    by (simp add: xs_def body_def unat_of_nat)
  show thesis
    using that [of "body @ replicate (m - es * length xs) 0"] w r body len m
    by (simp add: es_def xs_def)
qed

lemma unicode_btree_page_read_write:
  assumes fits: "btree_page_fits UNICODE_BTREE_ENTRIES_SIZE sz p"
    and ok: "\<forall>x\<in>set (bp_entries p). ok x" and new: "page_new_keeps new p"
  shows "\<exists>bs crc. unicode_btree_page_write enc p = Inr bs \<and> length bs = 512 \<and>
    bs ! (UNICODE_BTREE_ENTRIES_SIZE + 3) = bp_level p \<and>
    (\<forall>r. unicode_btree_page_read sz dec new (bs @ r) =
      Inr (p\<lparr>bp_trailer := (bp_trailer p)\<lparr>pt_crc := crc\<rparr>\<rparr>, r))"
proof -
  let ?n = UNICODE_BTREE_ENTRIES_SIZE
  obtain buf where w: "btree_write_entries enc (unat (bp_entry_size p)) 0 (bp_entries p)
      (replicate 496 0) = Inr buf" and len: "length buf = 496"
    and r: "\<And>rest. btree_read_entries dec (take ?n buf @ rest) (unat (bp_entry_size p)) 0
      (unat (word_of_nat (length (bp_entries p)) :: u8)) = Inr (bp_entries p)"
    using btree_buffer [OF fits ok, of 496] by (auto simp: UNICODE_BTREE_ENTRIES_SIZE_def)
  define fields where "fields = word_of_nat (length (bp_entries p)) # bp_max_entries p #
    bp_entry_size p # bp_level p # write_u32 0"
  define buffer where "buffer = take ?n buf @ fields"
  define t where "t = (bp_trailer p)\<lparr>pt_crc := compute_crc 0 buffer\<rparr>"
  have lenb: "length buffer = 496" and drop: "drop ?n buffer = fields"
    and nth: "buffer ! (?n + 3) = bp_level p"
    using len by (simp_all add: buffer_def fields_def UNICODE_BTREE_ENTRIES_SIZE_def nth_append)
  have t: "pt_page_type t = pt_page_type (bp_trailer p)" "pt_crc t = compute_crc 0 buffer"
    "pt_page_type t \<noteq> PageTypeNone" "pt_page_type t \<in> {BlockBTree, NodeBTree}"
    using fits by (auto simp: t_def btree_page_fits_def)
  have out: "unicode_btree_page_write enc p = Inr (buffer @ unicode_page_trailer_write t)"
    using w by (simp add: unicode_btree_page_write_def Let_def buffer_def fields_def t_def
        page_trailer_new_crc)
  have "unicode_btree_page_read sz dec new ((buffer @ unicode_page_trailer_write t) @ rest) =
      Inr (p\<lparr>bp_trailer := t\<rparr>, rest)" for rest
  proof -
    have "btree_page_finish unicode_page_trailer_read dec new buffer
        (word_of_nat (length (bp_entries p))) (bp_max_entries p) (bp_entry_size p) (bp_level p)
        (unicode_page_trailer_write t @ rest) = Inr (p\<lparr>bp_trailer := t\<rparr>, rest)"
      using t new r [of fields, folded buffer_def] uptrailer.dec_enc [OF t(3)]
      by (auto simp: btree_page_finish_def page_new_keeps_def)
    then show ?thesis
      using lenb fits btree_page_checks_fits [OF fits]
      by (simp add: unicode_btree_page_read_def drop) (simp add: fields_def btree_page_fits_def)
  qed
  then show ?thesis
    using out lenb nth uptrailer.length_enc [OF t(3)]
    by (intro exI [of _ "buffer @ unicode_page_trailer_write t"] exI [of _ "compute_crc 0 buffer"])
      (simp add: nth_append UNICODE_BTREE_ENTRIES_SIZE_def flip: t_def)
qed

lemma ansi_btree_page_read_write:
  assumes fits: "btree_page_fits ANSI_BTREE_ENTRIES_SIZE sz p"
    and ok: "\<forall>x\<in>set (bp_entries p). ok x" and new: "page_new_keeps new p"
  shows "\<exists>bs crc. ansi_btree_page_write enc p = Inr bs \<and> length bs = 512 \<and>
    bs ! (ANSI_BTREE_ENTRIES_SIZE + 3) = bp_level p \<and>
    (\<forall>r. ansi_btree_page_read sz dec new (bs @ r) =
      Inr (p\<lparr>bp_trailer := (bp_trailer p)\<lparr>pt_crc := crc\<rparr>\<rparr>, r))"
proof -
  let ?n = ANSI_BTREE_ENTRIES_SIZE
  obtain buf where w: "btree_write_entries enc (unat (bp_entry_size p)) 0 (bp_entries p)
      (replicate 500 0) = Inr buf" and len: "length buf = 500"
    and r: "\<And>rest. btree_read_entries dec (take ?n buf @ rest) (unat (bp_entry_size p)) 0
      (unat (word_of_nat (length (bp_entries p)) :: u8)) = Inr (bp_entries p)"
    using btree_buffer [OF fits ok, of 500] by (auto simp: ANSI_BTREE_ENTRIES_SIZE_def)
  define fields where "fields = [word_of_nat (length (bp_entries p)), bp_max_entries p,
    bp_entry_size p, bp_level p]"
  define buffer where "buffer = take ?n buf @ fields"
  define t where "t = (bp_trailer p)\<lparr>pt_crc := compute_crc 0 buffer\<rparr>"
  have lenb: "length buffer = 500" and drop: "drop ?n buffer = fields"
    and nth: "buffer ! (?n + 3) = bp_level p"
    using len by (simp_all add: buffer_def fields_def ANSI_BTREE_ENTRIES_SIZE_def nth_append)
  have t: "pt_page_type t = pt_page_type (bp_trailer p)" "pt_crc t = compute_crc 0 buffer"
    "pt_page_type t \<noteq> PageTypeNone" "pt_page_type t \<in> {BlockBTree, NodeBTree}"
    using fits by (auto simp: t_def btree_page_fits_def)
  have out: "ansi_btree_page_write enc p = Inr (buffer @ ansi_page_trailer_write t)"
    using w by (simp add: ansi_btree_page_write_def Let_def buffer_def fields_def t_def
        page_trailer_new_crc)
  have "ansi_btree_page_read sz dec new ((buffer @ ansi_page_trailer_write t) @ rest) =
      Inr (p\<lparr>bp_trailer := t\<rparr>, rest)" for rest
  proof -
    have "btree_page_finish ansi_page_trailer_read dec new buffer
        (word_of_nat (length (bp_entries p))) (bp_max_entries p) (bp_entry_size p) (bp_level p)
        (ansi_page_trailer_write t @ rest) = Inr (p\<lparr>bp_trailer := t\<rparr>, rest)"
      using t new r [of fields, folded buffer_def] aptrailer.dec_enc [OF t(3)]
      by (auto simp: btree_page_finish_def page_new_keeps_def)
    then show ?thesis
      using lenb fits btree_page_checks_fits [OF fits]
      by (simp add: ansi_btree_page_read_def drop) (simp add: fields_def btree_page_fits_def)
  qed
  then show ?thesis
    using out lenb nth aptrailer.length_enc [OF t(3)]
    by (intro exI [of _ "buffer @ ansi_page_trailer_write t"] exI [of _ "compute_crc 0 buffer"])
      (simp add: nth_append ANSI_BTREE_ENTRIES_SIZE_def flip: t_def)
qed

end

definition unicode_node_entry_ok :: "unicode_node_entry \<Rightarrow> bool" where
  "unicode_node_entry_ok e \<longleftrightarrow> (\<forall>b. un_sub_node e = Some b \<longrightarrow> block_id_search_key b \<noteq> 0) \<and>
    un_parent e \<noteq> Some 0"

definition ansi_node_entry_ok :: "ansi_node_entry \<Rightarrow> bool" where
  "ansi_node_entry_ok e \<longleftrightarrow> (\<forall>b. an_sub_node e = Some b \<longrightarrow> block_id_search_key b \<noteq> 0) \<and>
    an_parent e \<noteq> Some 0"

interpretation upentry: codec unicode_page_entry_write unicode_page_entry_read "\<lambda>_. True" 24
  by unfold_locales (simp_all add: unicode_page_entry_write_def unicode_page_entry_read_def)

interpretation apentry: codec ansi_page_entry_write ansi_page_entry_read "\<lambda>_. True" 12
  by unfold_locales (simp_all add: ansi_page_entry_write_def ansi_page_entry_read_def)

interpretation ubentry: codec unicode_block_entry_write unicode_block_entry_read "\<lambda>_. True" 24
  by unfold_locales (simp_all add: unicode_block_entry_write_def unicode_block_entry_read_def)

interpretation abentry: codec ansi_block_entry_write ansi_block_entry_read "\<lambda>_. True" 12
  by unfold_locales (simp_all add: ansi_block_entry_write_def ansi_block_entry_read_def)

lemma unat_ucast_node: "unat (ucast (w :: u32) :: u64) = unat w"
proof -
  have "unat w < 2 ^ 64" using unat_word_bound [of w] by simp
  then show ?thesis by (simp add: unsigned_ucast_eq take_bit_nat_eq_self)
qed

lemma ucast_ucast_node: "ucast (ucast (w :: u32) :: u64) = w"
  by (rule bit_word_eqI) (auto simp: bit_simps)

interpretation unentry: codec unicode_node_entry_write unicode_node_entry_read
    unicode_node_entry_ok 32
  using unat_word_bound [where 'a = 32]
  by unfold_locales
    (auto simp: unicode_node_entry_write_def unicode_node_entry_read_def unicode_node_entry_ok_def
      unwrap_or_default_def unat_ucast_node ucast_ucast_node not_le block_id_search_key_def
      split: option.splits)

interpretation anentry: codec ansi_node_entry_write ansi_node_entry_read ansi_node_entry_ok 16
  by unfold_locales
    (auto simp: ansi_node_entry_write_def ansi_node_entry_read_def ansi_node_entry_ok_def
      node_id_read_def node_id_write_def unwrap_or_default_def block_id_search_key_def
      split: option.splits)

end
