(* ===== verification/Ndb_Search.thy ===== *)
theory Ndb_Search
  imports Ndb_BTree
begin

text \<open>
  \<open>RootBTreePage\<close>: reading and writing a page of a block or node B-tree at its reference, and
  \<open>find_entry\<close>, the descent with the page cache. The source recurses without a bound; the model
  takes fuel and yields \<open>None\<close> when the descent is deeper than the fuel, so returning is a
  statement of its own. The cache maps a page identifier to the page.
\<close>

section \<open>Definitions from the source\<close>

datatype ('i, 'l, 'w) root_btree_page =
    Intermediate "('i, 'w) btree_page"
  | Leaf "('l, 'w) btree_page"

type_synonym ('l, 'w) btree_root = "('w btree_page_entry, 'l, 'w) root_btree_page"
type_synonym ('l, 'w) page_cache = "'w \<Rightarrow> ('l, 'w) btree_root option"
type_synonym ('l, 'w) page_reader = "('w, 'w) block_ref \<Rightarrow> io_error + ('l, 'w) btree_root"

definition PAGE_SIZE :: nat where "PAGE_SIZE = 512"

definition root_btree_read ::
  "nat \<Rightarrow> ('l, 'a::len word) btree_page decoder \<Rightarrow> ('a word btree_page_entry, 'a word) btree_page decoder
    \<Rightarrow> bytes \<Rightarrow> ('l, 'a word) page_reader" where
  "root_btree_read BTREE_ENTRIES_SIZE read_leaf read_intermediate file block =
    (case read_at file (unat (ref_index block)) PAGE_SIZE of Inl e \<Rightarrow> Inl e
     | Inr buffer \<Rightarrow>
    (case read_u8 (drop (BTREE_ENTRIES_SIZE + 3) buffer) of Inl e \<Rightarrow> Inl e | Inr (level, _) \<Rightarrow>
     if level = 0
     then case read_leaf buffer of Inl e \<Rightarrow> Inl e | Inr (p, _) \<Rightarrow> Inr (Leaf p)
     else case read_intermediate buffer of Inl e \<Rightarrow> Inl e | Inr (p, _) \<Rightarrow> Inr (Intermediate p)))"

definition root_btree_write ::
  "(('l, 'a::len word) btree_page \<Rightarrow> io_error + bytes)
    \<Rightarrow> (('a word btree_page_entry, 'a word) btree_page \<Rightarrow> io_error + bytes)
    \<Rightarrow> ('l, 'a word) btree_root \<Rightarrow> bytes \<Rightarrow> ('a word, 'a word) block_ref \<Rightarrow> io_error + bytes" where
  "root_btree_write write_leaf write_intermediate self file block =
    (case (case self of Intermediate page \<Rightarrow> write_intermediate page | Leaf page \<Rightarrow> write_leaf page) of
       Inl e \<Rightarrow> Inl e | Inr bs \<Rightarrow> Inr (write_at file (unat (ref_index block)) bs))"

fun root_btree_find_entry ::
  "nat \<Rightarrow> ('l, 'w) page_reader \<Rightarrow> ('w \<Rightarrow> u64) \<Rightarrow> ('l \<Rightarrow> u64) \<Rightarrow> ('l, 'w) btree_root \<Rightarrow> u64
    \<Rightarrow> ('l, 'w) page_cache \<Rightarrow> ((io_error + 'l) \<times> ('l, 'w) page_cache) option" where
  "root_btree_find_entry 0 read ikey lkey page search_key page_cache = None"
| "root_btree_find_entry (Suc fuel) read ikey lkey page search_key page_cache =
    (case page of
       Intermediate page \<Rightarrow>
         (let entries = bp_entries page;
              index = partition_point (\<lambda>entry. ikey (pe_key entry) \<le> search_key) entries in
          if index = 0 \<or> length entries < index
          then Some (Inl (NdbIo (BTreePageNotFound search_key)), page_cache)
          else let block = pe_block (entries ! (index - 1)) in
            (case (case page_cache (ref_block block) of
                     Some page \<Rightarrow> Inr (page, page_cache(ref_block block := None))
                   | None \<Rightarrow> (case read block of Inl e \<Rightarrow> Inl e | Inr page \<Rightarrow> Inr (page, page_cache))) of
               Inl e \<Rightarrow> Some (Inl e, page_cache)
             | Inr (page, page_cache) \<Rightarrow>
               (case root_btree_find_entry fuel read ikey lkey page search_key page_cache of
                  None \<Rightarrow> None
                | Some (entry, page_cache) \<Rightarrow>
                    Some (entry, page_cache(ref_block block := Some page)))))
     | Leaf page \<Rightarrow>
         Some (case List.find (\<lambda>entry. lkey entry = search_key) (bp_entries page) of
                 None \<Rightarrow> Inl (NdbIo (BTreePageNotFound search_key))
               | Some entry \<Rightarrow> Inr entry, page_cache))"

definition unicode_block_btree_read :: "bytes \<Rightarrow> (unicode_block_entry, u64) page_reader" where
  "unicode_block_btree_read = root_btree_read UNICODE_BTREE_ENTRIES_SIZE
    (unicode_btree_page_read 24 unicode_block_entry_read block_page_new)
    (unicode_btree_page_read 24 unicode_page_entry_read intermediate_page_new)"

definition unicode_node_btree_read :: "bytes \<Rightarrow> (unicode_node_entry, u64) page_reader" where
  "unicode_node_btree_read = root_btree_read UNICODE_BTREE_ENTRIES_SIZE
    (unicode_btree_page_read 32 unicode_node_entry_read node_page_new)
    (unicode_btree_page_read 24 unicode_page_entry_read intermediate_page_new)"

definition ansi_block_btree_read :: "bytes \<Rightarrow> (ansi_block_entry, u32) page_reader" where
  "ansi_block_btree_read = root_btree_read ANSI_BTREE_ENTRIES_SIZE
    (ansi_btree_page_read 12 ansi_block_entry_read block_page_new)
    (ansi_btree_page_read 12 ansi_page_entry_read intermediate_page_new)"

definition ansi_node_btree_read :: "bytes \<Rightarrow> (ansi_node_entry, u32) page_reader" where
  "ansi_node_btree_read = root_btree_read ANSI_BTREE_ENTRIES_SIZE
    (ansi_btree_page_read 16 ansi_node_entry_read node_page_new)
    (ansi_btree_page_read 12 ansi_page_entry_read intermediate_page_new)"

definition unicode_node_btree_write ::
  "(unicode_node_entry, u64) btree_root \<Rightarrow> bytes \<Rightarrow> unicode_page_ref \<Rightarrow> io_error + bytes" where
  "unicode_node_btree_write = root_btree_write (unicode_btree_page_write unicode_node_entry_write)
    (unicode_btree_page_write unicode_page_entry_write)"

definition unicode_block_btree_write ::
  "(unicode_block_entry, u64) btree_root \<Rightarrow> bytes \<Rightarrow> unicode_page_ref \<Rightarrow> io_error + bytes" where
  "unicode_block_btree_write = root_btree_write (unicode_btree_page_write unicode_block_entry_write)
    (unicode_btree_page_write unicode_page_entry_write)"

definition ansi_node_btree_write ::
  "(ansi_node_entry, u32) btree_root \<Rightarrow> bytes \<Rightarrow> ansi_page_ref \<Rightarrow> io_error + bytes" where
  "ansi_node_btree_write = root_btree_write (ansi_btree_page_write ansi_node_entry_write)
    (ansi_btree_page_write ansi_page_entry_write)"

definition ansi_block_btree_write ::
  "(ansi_block_entry, u32) btree_root \<Rightarrow> bytes \<Rightarrow> ansi_page_ref \<Rightarrow> io_error + bytes" where
  "ansi_block_btree_write = root_btree_write (ansi_btree_page_write ansi_block_entry_write)
    (ansi_btree_page_write ansi_page_entry_write)"

section \<open>The abstract tree\<close>

text \<open>
  The entries of a tree of height at most \<open>h\<close>, in order; the order that makes it a search
  tree; the references it follows; and the agreement of a cache with the file on a set of
  references.
\<close>

fun btree_entries :: "('l, 'w) page_reader \<Rightarrow> nat \<Rightarrow> ('l, 'w) btree_root \<Rightarrow> 'l list" where
  "btree_entries read h (Leaf p) = bp_entries p"
| "btree_entries read 0 (Intermediate p) = []"
| "btree_entries read (Suc h) (Intermediate p) =
    concat (map (\<lambda>e. case read (pe_block e) of Inl _ \<Rightarrow> [] | Inr c \<Rightarrow> btree_entries read h c)
      (bp_entries p))"

fun btree_ok ::
  "('l, 'w) page_reader \<Rightarrow> ('w \<Rightarrow> u64) \<Rightarrow> ('l \<Rightarrow> u64) \<Rightarrow> nat \<Rightarrow> ('l, 'w) btree_root \<Rightarrow> bool" where
  "btree_ok read ikey lkey h (Leaf p) = True"
| "btree_ok read ikey lkey 0 (Intermediate p) = False"
| "btree_ok read ikey lkey (Suc h) (Intermediate p) =
    (let es = bp_entries p in
     sorted (map (\<lambda>e. ikey (pe_key e)) es) \<and>
     (\<forall>i<length es. case read (pe_block (es ! i)) of Inl _ \<Rightarrow> False
        | Inr c \<Rightarrow> btree_ok read ikey lkey h c \<and>
            (\<forall>x\<in>set (btree_entries read h c). ikey (pe_key (es ! i)) \<le> lkey x \<and>
               (Suc i < length es \<longrightarrow> lkey x < ikey (pe_key (es ! Suc i))))))"

fun btree_refs :: "('l, 'w) page_reader \<Rightarrow> nat \<Rightarrow> ('l, 'w) btree_root \<Rightarrow> ('w, 'w) block_ref list" where
  "btree_refs read h (Leaf p) = []"
| "btree_refs read 0 (Intermediate p) = []"
| "btree_refs read (Suc h) (Intermediate p) =
    concat (map (\<lambda>e. pe_block e #
      (case read (pe_block e) of Inl _ \<Rightarrow> [] | Inr c \<Rightarrow> btree_refs read h c)) (bp_entries p))"

definition cache_agrees ::
  "('l, 'w) page_reader \<Rightarrow> ('w, 'w) block_ref set \<Rightarrow> ('l, 'w) page_cache \<Rightarrow> bool" where
  "cache_agrees read R cache \<longleftrightarrow>
    (\<forall>r\<in>R. \<forall>p. cache (ref_block r) = Some p \<longrightarrow> read r = Inr p)"

definition refs_unambiguous :: "('w, 'w) block_ref set \<Rightarrow> bool" where
  "refs_unambiguous R \<longleftrightarrow> (\<forall>r\<in>R. \<forall>r'\<in>R. ref_block r = ref_block r' \<longrightarrow> r = r')"

definition lookup_result :: "('l \<Rightarrow> u64) \<Rightarrow> u64 \<Rightarrow> 'l list \<Rightarrow> io_error + 'l" where
  "lookup_result lkey k xs = (case List.find (\<lambda>e. lkey e = k) xs of
     None \<Rightarrow> Inl (NdbIo (BTreePageNotFound k)) | Some e \<Rightarrow> Inr e)"

text \<open>A page as it is read back: with the checksum that the writer filled in.\<close>

definition set_crc :: "u32 \<Rightarrow> ('e, 'w) btree_page \<Rightarrow> ('e, 'w) btree_page" where
  "set_crc crc p = p\<lparr>bp_trailer := (bp_trailer p)\<lparr>pt_crc := crc\<rparr>\<rparr>"

definition page_with_crc :: "u32 \<Rightarrow> ('i, 'l, 'w) root_btree_page \<Rightarrow> ('i, 'l, 'w) root_btree_page" where
  "page_with_crc crc page = (case page of Intermediate p \<Rightarrow> Intermediate (set_crc crc p)
     | Leaf p \<Rightarrow> Leaf (set_crc crc p))"

text \<open>The pages of a tree that the writers can store: leaf pages and intermediate pages.\<close>

definition leaf_page_ok ::
  "nat \<Rightarrow> nat \<Rightarrow> page_type \<Rightarrow> ('e \<Rightarrow> bool) \<Rightarrow> ('e, 'w) btree_page \<Rightarrow> bool" where
  "leaf_page_ok n m t ok p \<longleftrightarrow> bp_level p = 0 \<and> btree_page_fits n m p \<and>
    pt_page_type (bp_trailer p) = t \<and> list_all ok (bp_entries p)"

definition intermediate_page_ok :: "nat \<Rightarrow> nat \<Rightarrow> ('e, 'w) btree_page \<Rightarrow> bool" where
  "intermediate_page_ok n m p \<longleftrightarrow> 1 \<le> bp_level p \<and> btree_page_fits n m p"

text \<open>Pages for the examples: a node page, a parent of it, and a page that is its own child.\<close>

definition sample_ref :: unicode_page_ref where
  "sample_ref = \<lparr>ref_block = 5, ref_index = 512\<rparr>"

definition sample_entry :: unicode_node_entry where
  "sample_entry = unicode_node_entry_new 0x21 8 None None"

definition sample_leaf :: "(unicode_node_entry, u64) btree_page" where
  "sample_leaf = btree_page_make 0 15 32 [sample_entry] (page_trailer_new NodeBTree 0 5 0)"

definition sample_parent :: "(u64 btree_page_entry, u64) btree_page" where
  "sample_parent = btree_page_make 1 20 24 [\<lparr>pe_key = 0, pe_block = sample_ref\<rparr>]
     (page_trailer_new NodeBTree 0 5 0)"

section \<open>Correctness of the descent\<close>

lemma find_concat_at:
  assumes "k < length xss" "\<And>j x. j < length xss \<Longrightarrow> j \<noteq> k \<Longrightarrow> x \<in> set (xss ! j) \<Longrightarrow> \<not> P x"
  shows "List.find P (concat xss) = List.find P (xss ! k)"
  using assms
proof (induction xss arbitrary: k)
  case (Cons xs xss)
  have app: "List.find P (xs @ ys) = (case List.find P xs of None \<Rightarrow> List.find P ys | r \<Rightarrow> r)" for ys
    by (induction xs) auto
  show ?case
  proof (cases k)
    case 0
    have "\<forall>x\<in>set (concat xss). \<not> P x"
    proof
      fix x assume "x \<in> set (concat xss)"
      then obtain j where "j < length xss" "x \<in> set (xss ! j)"
        by (auto simp: in_set_conv_nth) (metis in_set_conv_nth)
      then show "\<not> P x" using Cons.prems(2) [of "Suc j" x] 0 by auto
    qed
    then have "List.find P (concat xss) = None" by (auto simp: find_None_iff)
    then show ?thesis using 0 by (simp add: app split: option.splits)
  next
    case (Suc k')
    have "List.find P xs = None"
      using Cons.prems(2) [of 0] Suc by (auto simp: find_None_iff)
    moreover have "List.find P (concat xss) = List.find P (xss ! k')"
    proof (rule Cons.IH)
      show "k' < length xss" using Cons.prems(1) Suc by simp
      show "\<not> P x" if "j < length xss" "j \<noteq> k'" "x \<in> set (xss ! j)" for j x
        using Cons.prems(2) [of "Suc j" x] that Suc by simp
    qed
    ultimately show ?thesis using Suc by (simp add: app)
  qed
qed simp

lemma find_concat_none:
  "(\<And>j x. j < length xss \<Longrightarrow> x \<in> set (xss ! j) \<Longrightarrow> \<not> P x) \<Longrightarrow> List.find P (concat xss) = None"
  by (auto simp: find_None_iff) (metis in_set_conv_nth)

text \<open>The child that the partition point selects is the only one that can hold the key.\<close>

definition child_entries :: "('l, 'w) page_reader \<Rightarrow> nat \<Rightarrow> 'w btree_page_entry \<Rightarrow> 'l list" where
  "child_entries read h e =
    (case read (pe_block e) of Inl _ \<Rightarrow> [] | Inr c \<Rightarrow> btree_entries read h c)"

lemma btree_ok_child:
  assumes "btree_ok read ikey lkey (Suc h) (Intermediate p)" "j < length (bp_entries p)"
  obtains c where "read (pe_block (bp_entries p ! j)) = Inr c" "btree_ok read ikey lkey h c"
proof -
  have "case read (pe_block (bp_entries p ! j)) of Inl _ \<Rightarrow> False
        | Inr c \<Rightarrow> btree_ok read ikey lkey h c \<and>
            (\<forall>x\<in>set (btree_entries read h c). ikey (pe_key (bp_entries p ! j)) \<le> lkey x \<and>
               (Suc j < length (bp_entries p) \<longrightarrow> lkey x < ikey (pe_key (bp_entries p ! Suc j))))"
    using assms by (simp add: Let_def)
  then show thesis using that by (auto split: sum.splits)
qed

lemma child_entries_bounds:
  assumes ok: "btree_ok read ikey lkey (Suc h) (Intermediate p)" and j: "j < length (bp_entries p)"
    and x: "x \<in> set (child_entries read h (bp_entries p ! j))"
  shows "ikey (pe_key (bp_entries p ! j)) \<le> lkey x"
    and "Suc j < length (bp_entries p) \<Longrightarrow> lkey x < ikey (pe_key (bp_entries p ! Suc j))"
proof -
  have "case read (pe_block (bp_entries p ! j)) of Inl _ \<Rightarrow> False
        | Inr c \<Rightarrow> btree_ok read ikey lkey h c \<and>
            (\<forall>x\<in>set (btree_entries read h c). ikey (pe_key (bp_entries p ! j)) \<le> lkey x \<and>
               (Suc j < length (bp_entries p) \<longrightarrow> lkey x < ikey (pe_key (bp_entries p ! Suc j))))"
    using ok j by (simp add: Let_def)
  then show "ikey (pe_key (bp_entries p ! j)) \<le> lkey x"
    and "Suc j < length (bp_entries p) \<Longrightarrow> lkey x < ikey (pe_key (bp_entries p ! Suc j))"
    using x by (auto simp: child_entries_def split: sum.splits)
qed

lemma lookup_selected_child:
  fixes p :: "('w btree_page_entry, 'w) btree_page" and key :: u64 and ikey :: "'w \<Rightarrow> u64"
  defines "es \<equiv> bp_entries p"
  defines "index \<equiv> partition_point (\<lambda>e. ikey (pe_key e) \<le> key) es"
  assumes ok: "btree_ok read ikey lkey (Suc h) (Intermediate p)"
  shows "index = 0 \<Longrightarrow> lookup_result lkey key (btree_entries read (Suc h) (Intermediate p)) =
      Inl (NdbIo (BTreePageNotFound key))"
    and "index \<noteq> 0 \<Longrightarrow> lookup_result lkey key (btree_entries read (Suc h) (Intermediate p)) =
      lookup_result lkey key (child_entries read h (es ! (index - 1)))"
proof -
  let ?P = "\<lambda>e. ikey (pe_key e) \<le> key"
  have sorted: "i \<le> j \<Longrightarrow> j < length es \<Longrightarrow> ikey (pe_key (es ! i)) \<le> ikey (pe_key (es ! j))" for i j
    using ok by (auto simp: es_def Let_def sorted_iff_nth_mono)
  then have part: "partitioned ?P es"
    unfolding partitioned_def by (meson less_imp_le order_trans)
  have le: "index \<le> length es" unfolding index_def by (rule partition_point_le)
  have below: "j < index \<Longrightarrow> ikey (pe_key (es ! j)) \<le> key" for j
    unfolding index_def using partition_point_prefix [OF part] by blast
  have above: "index \<le> j \<Longrightarrow> j < length es \<Longrightarrow> key < ikey (pe_key (es ! j))" for j
    using partition_point_ge [OF part, of j] by (simp add: index_def not_le)
  have miss: "lkey x \<noteq> key" if "j < length es" "Suc j \<noteq> index"
    "x \<in> set (child_entries read h (es ! j))" for j x
  proof (cases "j < index")
    case True
    then have "Suc j < index" using that(2) by simp
    then have "lkey x < ikey (pe_key (es ! Suc j))" "ikey (pe_key (es ! Suc j)) \<le> key"
      using child_entries_bounds(2) [OF ok, of j x] that le below by (auto simp: es_def)
    then show ?thesis by auto
  next
    case False
    then have "key < ikey (pe_key (es ! j))" "ikey (pe_key (es ! j)) \<le> lkey x"
      using above that child_entries_bounds(1) [OF ok, of j x] by (auto simp: es_def)
    then show ?thesis by auto
  qed
  have all: "btree_entries read (Suc h) (Intermediate p) = concat (map (child_entries read h) es)"
    by (simp add: es_def child_entries_def [abs_def])
  show "index = 0 \<Longrightarrow> lookup_result lkey key (btree_entries read (Suc h) (Intermediate p)) =
      Inl (NdbIo (BTreePageNotFound key))"
    unfolding all lookup_result_def using miss by (subst find_concat_none) auto
  show "index \<noteq> 0 \<Longrightarrow> lookup_result lkey key (btree_entries read (Suc h) (Intermediate p)) =
      lookup_result lkey key (child_entries read h (es ! (index - 1)))"
    unfolding all lookup_result_def using miss le
    by (subst find_concat_at [where k = "index - 1"]) auto
qed

lemma find_entry_step:
  fixes p :: "('w btree_page_entry, 'w) btree_page" and ikey :: "'w \<Rightarrow> u64" and key :: u64
  defines "index \<equiv> partition_point (\<lambda>e. ikey (pe_key e) \<le> key) (bp_entries p)"
  defines "b \<equiv> ref_block (pe_block (bp_entries p ! (index - 1)))"
  assumes "index \<noteq> 0" and "read (pe_block (bp_entries p ! (index - 1))) = Inr c"
    and "cache b = Some c \<or> cache b = None"
    and "root_btree_find_entry fuel read ikey lkey c key (cache(b := None)) = Some (r, cache')"
  shows "root_btree_find_entry (Suc fuel) read ikey lkey (Intermediate p) key cache =
    Some (r, cache'(b := Some c))"
proof -
  have le: "\<not> length (bp_entries p) < index"
    unfolding index_def by (simp add: partition_point_le not_less)
  have "cache b = None \<Longrightarrow> cache(b := None) = cache" by (rule fun_upd_idem)
  with assms(3-6) le show ?thesis
    by (auto simp: Let_def b_def simp flip: index_def)
qed

lemma find_entry_correct:
  "btree_ok read ikey lkey h page \<Longrightarrow> refs_unambiguous R \<Longrightarrow> set (btree_refs read h page) \<subseteq> R \<Longrightarrow>
    cache_agrees read R cache \<Longrightarrow>
    \<exists>cache'. root_btree_find_entry (Suc h) read ikey lkey page key cache =
        Some (lookup_result lkey key (btree_entries read h page), cache') \<and>
      cache_agrees read R cache'"
proof (induction h arbitrary: page cache)
  case 0
  then show ?case
    by (cases page) (auto simp: lookup_result_def)
next
  case (Suc h)
  show ?case
  proof (cases page)
    case (Leaf p)
    then show ?thesis using Suc.prems by (auto simp: lookup_result_def)
  next
    case page: (Intermediate p)
    define es where "es = bp_entries p"
    define index where "index = partition_point (\<lambda>e. ikey (pe_key e) \<le> key) es"
    note ok = Suc.prems(1) [unfolded page]
    note sel = lookup_selected_child [OF ok, of key, folded es_def, folded index_def]
    have le: "index \<le> length es" unfolding index_def by (rule partition_point_le)
    show ?thesis
    proof (cases "index = 0")
      case True
      then show ?thesis
        using Suc.prems(4) sel(1) page by (simp add: Let_def flip: es_def index_def)
    next
      case False
      define e where "e = es ! (index - 1)"
      have e: "e \<in> set es" "index - 1 < length es" using False le by (auto simp: e_def)
      then obtain c where c: "read (pe_block e) = Inr c" "btree_ok read ikey lkey h c"
        using btree_ok_child [OF ok, of "index - 1"] by (auto simp: es_def e_def)
      have R: "pe_block e \<in> R" "set (btree_refs read h c) \<subseteq> R"
        using Suc.prems(3) e(1) c(1) page by (force simp: es_def split: sum.splits)+
      define cache1 where "cache1 = cache(ref_block (pe_block e) := None)"
      have cache1: "cache_agrees read R cache1"
        using Suc.prems(4) by (auto simp: cache_agrees_def cache1_def)
      have hit: "cache (ref_block (pe_block e)) = Some c \<or> cache (ref_block (pe_block e)) = None"
        using Suc.prems(4) R(1) c(1) by (cases "cache (ref_block (pe_block e))") (auto simp: cache_agrees_def)
      obtain cache2 where cache2: "root_btree_find_entry (Suc h) read ikey lkey c key cache1 =
          Some (lookup_result lkey key (btree_entries read h c), cache2)"
        "cache_agrees read R cache2"
        using Suc.IH [OF c(2) Suc.prems(2) R(2) cache1] by blast
      have "root_btree_find_entry (Suc (Suc h)) read ikey lkey page key cache =
          Some (lookup_result lkey key (btree_entries read h c),
            cache2(ref_block (pe_block e) := Some c))"
        unfolding page e_def es_def index_def
        using False hit c(1) cache2(1)
        by (intro find_entry_step) (simp_all add: e_def es_def index_def cache1_def)
      moreover have "cache_agrees read R (cache2(ref_block (pe_block e) := Some c))"
        using cache2(2) Suc.prems(2) R(1) c(1)
        by (auto simp: cache_agrees_def refs_unambiguous_def)
      moreover have "btree_entries read h c = child_entries read h e"
        using c(1) by (simp add: child_entries_def)
      ultimately show ?thesis using sel(2) [OF False] page by (auto simp: e_def)
    qed
  qed
qed

section \<open>Pages in a file\<close>

lemma root_btree_read_written:
  assumes "length bs = PAGE_SIZE" "n + 3 < PAGE_SIZE"
  shows "bs ! (n + 3) = 0 \<Longrightarrow> read_leaf bs = Inr (p, []) \<Longrightarrow>
      root_btree_read n read_leaf read_intermediate (write_at file (unat (ref_index r)) bs) r = Inr (Leaf p)"
    and "bs ! (n + 3) \<noteq> 0 \<Longrightarrow> read_intermediate bs = Inr (q, []) \<Longrightarrow>
      root_btree_read n read_leaf read_intermediate (write_at file (unat (ref_index r)) bs) r =
      Inr (Intermediate q)"
proof -
  have drop: "drop (n + 3) bs = bs ! (n + 3) # drop (Suc (n + 3)) bs"
    by (rule Cons_nth_drop_Suc [symmetric]) (use assms in simp)
  have at: "read_at (write_at file (unat (ref_index r)) bs) (unat (ref_index r)) PAGE_SIZE = Inr bs"
    using assms by (simp add: read_at_def)
  show "bs ! (n + 3) = 0 \<Longrightarrow> read_leaf bs = Inr (p, []) \<Longrightarrow>
      root_btree_read n read_leaf read_intermediate (write_at file (unat (ref_index r)) bs) r = Inr (Leaf p)"
    unfolding root_btree_read_def at by (simp only: drop sum.case read_u8_Cons prod.case) simp
  show "bs ! (n + 3) \<noteq> 0 \<Longrightarrow> read_intermediate bs = Inr (q, []) \<Longrightarrow>
      root_btree_read n read_leaf read_intermediate (write_at file (unat (ref_index r)) bs) r =
      Inr (Intermediate q)"
    unfolding root_btree_read_def at by (simp only: drop sum.case read_u8_Cons prod.case) simp
qed

text \<open>
  A codec of pages at a fixed position of the level byte, and the tree page built from a codec
  of leaf pages and one of intermediate pages.
\<close>

locale page_codec =
  fixes write_page :: "('e, 'a::len word) btree_page \<Rightarrow> io_error + bytes"
    and read_page :: "('e, 'a word) btree_page decoder"
    and page_ok :: "('e, 'a word) btree_page \<Rightarrow> bool"
    and entries_size :: nat
  assumes read_write: "page_ok p \<Longrightarrow> \<exists>bs crc. write_page p = Inr bs \<and> length bs = PAGE_SIZE \<and>
      bs ! (entries_size + 3) = bp_level p \<and> (\<forall>r. read_page (bs @ r) = Inr (set_crc crc p, r))"
    and level_offset: "entries_size + 3 < PAGE_SIZE"

locale tree_codec =
  leaf: page_codec write_leaf read_leaf leaf_ok entries_size +
  inter: page_codec write_intermediate read_intermediate intermediate_ok entries_size
  for write_leaf :: "('l, 'a::len word) btree_page \<Rightarrow> io_error + bytes"
    and read_leaf :: "('l, 'a word) btree_page decoder"
    and leaf_ok :: "('l, 'a word) btree_page \<Rightarrow> bool"
    and write_intermediate :: "('a word btree_page_entry, 'a word) btree_page \<Rightarrow> io_error + bytes"
    and read_intermediate :: "('a word btree_page_entry, 'a word) btree_page decoder"
    and intermediate_ok :: "('a word btree_page_entry, 'a word) btree_page \<Rightarrow> bool"
    and entries_size :: nat +
  assumes leaf_level: "leaf_ok p \<Longrightarrow> bp_level p = 0"
    and intermediate_level: "intermediate_ok q \<Longrightarrow> bp_level q \<noteq> 0"
begin

lemma root_read_write:
  assumes "case page of Intermediate p \<Rightarrow> intermediate_ok p | Leaf p \<Rightarrow> leaf_ok p"
  shows "\<exists>file' crc. root_btree_write write_leaf write_intermediate page file ref = Inr file' \<and>
    root_btree_read entries_size read_leaf read_intermediate file' ref =
      Inr (page_with_crc crc page)"
proof (cases page)
  case (Leaf p)
  then have ok: "leaf_ok p" using assms by simp
  obtain bs crc where bs: "write_leaf p = Inr bs" "length bs = PAGE_SIZE"
    "bs ! (entries_size + 3) = 0" "read_leaf (bs @ []) = Inr (set_crc crc p, [])"
    using leaf.read_write [OF ok] leaf_level [OF ok] by metis
  have "root_btree_read entries_size read_leaf read_intermediate
      (write_at file (unat (ref_index ref)) bs) ref = Inr (Leaf (set_crc crc p))"
    using bs by (intro root_btree_read_written leaf.level_offset) simp_all
  then show ?thesis
    using Leaf bs(1) by (auto simp: root_btree_write_def page_with_crc_def)
next
  case (Intermediate p)
  then have ok: "intermediate_ok p" using assms by simp
  obtain bs crc where bs: "write_intermediate p = Inr bs" "length bs = PAGE_SIZE"
    "bs ! (entries_size + 3) = bp_level p" "read_intermediate (bs @ []) = Inr (set_crc crc p, [])"
    using inter.read_write [OF ok] by metis
  have "root_btree_read entries_size read_leaf read_intermediate
      (write_at file (unat (ref_index ref)) bs) ref = Inr (Intermediate (set_crc crc p))"
    using bs intermediate_level [OF ok]
    by (intro root_btree_read_written leaf.level_offset) simp_all
  then show ?thesis
    using Intermediate bs(1) by (auto simp: root_btree_write_def page_with_crc_def)
qed

end

interpretation unleaf: page_codec "unicode_btree_page_write unicode_node_entry_write"
    "unicode_btree_page_read 32 unicode_node_entry_read node_page_new"
    "leaf_page_ok UNICODE_BTREE_ENTRIES_SIZE 32 NodeBTree unicode_node_entry_ok" UNICODE_BTREE_ENTRIES_SIZE
proof unfold_locales
  fix p :: "(unicode_node_entry, u64) btree_page"
  assume p: "leaf_page_ok UNICODE_BTREE_ENTRIES_SIZE 32 NodeBTree unicode_node_entry_ok p"
  then have "page_new_keeps node_page_new p"
    unfolding node_page_new_def leaf_page_ok_def by (intro leaf_page_new_keeps) auto
  then show "\<exists>bs crc. unicode_btree_page_write unicode_node_entry_write p = Inr bs \<and> length bs = PAGE_SIZE \<and>
      bs ! (UNICODE_BTREE_ENTRIES_SIZE + 3) = bp_level p \<and>
      (\<forall>r. unicode_btree_page_read 32 unicode_node_entry_read node_page_new (bs @ r) = Inr (set_crc crc p, r))"
    using unentry.unicode_btree_page_read_write [of p node_page_new] p
    by (auto simp: leaf_page_ok_def list_all_iff set_crc_def PAGE_SIZE_def)
qed (simp add: UNICODE_BTREE_ENTRIES_SIZE_def PAGE_SIZE_def)

interpretation ubleaf: page_codec "unicode_btree_page_write unicode_block_entry_write"
    "unicode_btree_page_read 24 unicode_block_entry_read block_page_new"
    "leaf_page_ok UNICODE_BTREE_ENTRIES_SIZE 24 BlockBTree (\<lambda>_. True)" UNICODE_BTREE_ENTRIES_SIZE
proof unfold_locales
  fix p :: "(unicode_block_entry, u64) btree_page"
  assume p: "leaf_page_ok UNICODE_BTREE_ENTRIES_SIZE 24 BlockBTree (\<lambda>_. True) p"
  then have "page_new_keeps block_page_new p"
    unfolding block_page_new_def leaf_page_ok_def by (intro leaf_page_new_keeps) auto
  then show "\<exists>bs crc. unicode_btree_page_write unicode_block_entry_write p = Inr bs \<and> length bs = PAGE_SIZE \<and>
      bs ! (UNICODE_BTREE_ENTRIES_SIZE + 3) = bp_level p \<and>
      (\<forall>r. unicode_btree_page_read 24 unicode_block_entry_read block_page_new (bs @ r) = Inr (set_crc crc p, r))"
    using ubentry.unicode_btree_page_read_write [of p block_page_new] p
    by (auto simp: leaf_page_ok_def list_all_iff set_crc_def PAGE_SIZE_def)
qed (simp add: UNICODE_BTREE_ENTRIES_SIZE_def PAGE_SIZE_def)

interpretation anleaf: page_codec "ansi_btree_page_write ansi_node_entry_write"
    "ansi_btree_page_read 16 ansi_node_entry_read node_page_new"
    "leaf_page_ok ANSI_BTREE_ENTRIES_SIZE 16 NodeBTree ansi_node_entry_ok" ANSI_BTREE_ENTRIES_SIZE
proof unfold_locales
  fix p :: "(ansi_node_entry, u32) btree_page"
  assume p: "leaf_page_ok ANSI_BTREE_ENTRIES_SIZE 16 NodeBTree ansi_node_entry_ok p"
  then have "page_new_keeps node_page_new p"
    unfolding node_page_new_def leaf_page_ok_def by (intro leaf_page_new_keeps) auto
  then show "\<exists>bs crc. ansi_btree_page_write ansi_node_entry_write p = Inr bs \<and> length bs = PAGE_SIZE \<and>
      bs ! (ANSI_BTREE_ENTRIES_SIZE + 3) = bp_level p \<and>
      (\<forall>r. ansi_btree_page_read 16 ansi_node_entry_read node_page_new (bs @ r) = Inr (set_crc crc p, r))"
    using anentry.ansi_btree_page_read_write [of p node_page_new] p
    by (auto simp: leaf_page_ok_def list_all_iff set_crc_def PAGE_SIZE_def)
qed (simp add: ANSI_BTREE_ENTRIES_SIZE_def PAGE_SIZE_def)

interpretation ableaf: page_codec "ansi_btree_page_write ansi_block_entry_write"
    "ansi_btree_page_read 12 ansi_block_entry_read block_page_new"
    "leaf_page_ok ANSI_BTREE_ENTRIES_SIZE 12 BlockBTree (\<lambda>_. True)" ANSI_BTREE_ENTRIES_SIZE
proof unfold_locales
  fix p :: "(ansi_block_entry, u32) btree_page"
  assume p: "leaf_page_ok ANSI_BTREE_ENTRIES_SIZE 12 BlockBTree (\<lambda>_. True) p"
  then have "page_new_keeps block_page_new p"
    unfolding block_page_new_def leaf_page_ok_def by (intro leaf_page_new_keeps) auto
  then show "\<exists>bs crc. ansi_btree_page_write ansi_block_entry_write p = Inr bs \<and> length bs = PAGE_SIZE \<and>
      bs ! (ANSI_BTREE_ENTRIES_SIZE + 3) = bp_level p \<and>
      (\<forall>r. ansi_btree_page_read 12 ansi_block_entry_read block_page_new (bs @ r) = Inr (set_crc crc p, r))"
    using abentry.ansi_btree_page_read_write [of p block_page_new] p
    by (auto simp: leaf_page_ok_def list_all_iff set_crc_def PAGE_SIZE_def)
qed (simp add: ANSI_BTREE_ENTRIES_SIZE_def PAGE_SIZE_def)

interpretation uinter: page_codec "unicode_btree_page_write unicode_page_entry_write"
    "unicode_btree_page_read 24 unicode_page_entry_read intermediate_page_new"
    "intermediate_page_ok UNICODE_BTREE_ENTRIES_SIZE 24" UNICODE_BTREE_ENTRIES_SIZE
proof unfold_locales
  fix p :: "(u64 btree_page_entry, u64) btree_page"
  assume p: "intermediate_page_ok UNICODE_BTREE_ENTRIES_SIZE 24 p"
  then have "page_new_keeps intermediate_page_new p"
    unfolding intermediate_page_ok_def by (intro intermediate_page_new_keeps) auto
  then show "\<exists>bs crc. unicode_btree_page_write unicode_page_entry_write p = Inr bs \<and> length bs = PAGE_SIZE \<and>
      bs ! (UNICODE_BTREE_ENTRIES_SIZE + 3) = bp_level p \<and>
      (\<forall>r. unicode_btree_page_read 24 unicode_page_entry_read intermediate_page_new (bs @ r) =
        Inr (set_crc crc p, r))"
    using upentry.unicode_btree_page_read_write [of p intermediate_page_new] p
    by (auto simp: intermediate_page_ok_def set_crc_def PAGE_SIZE_def)
qed (simp add: UNICODE_BTREE_ENTRIES_SIZE_def PAGE_SIZE_def)

interpretation ainter: page_codec "ansi_btree_page_write ansi_page_entry_write"
    "ansi_btree_page_read 12 ansi_page_entry_read intermediate_page_new"
    "intermediate_page_ok ANSI_BTREE_ENTRIES_SIZE 12" ANSI_BTREE_ENTRIES_SIZE
proof unfold_locales
  fix p :: "(u32 btree_page_entry, u32) btree_page"
  assume p: "intermediate_page_ok ANSI_BTREE_ENTRIES_SIZE 12 p"
  then have "page_new_keeps intermediate_page_new p"
    unfolding intermediate_page_ok_def by (intro intermediate_page_new_keeps) auto
  then show "\<exists>bs crc. ansi_btree_page_write ansi_page_entry_write p = Inr bs \<and> length bs = PAGE_SIZE \<and>
      bs ! (ANSI_BTREE_ENTRIES_SIZE + 3) = bp_level p \<and>
      (\<forall>r. ansi_btree_page_read 12 ansi_page_entry_read intermediate_page_new (bs @ r) =
        Inr (set_crc crc p, r))"
    using apentry.ansi_btree_page_read_write [of p intermediate_page_new] p
    by (auto simp: intermediate_page_ok_def set_crc_def PAGE_SIZE_def)
qed (simp add: ANSI_BTREE_ENTRIES_SIZE_def PAGE_SIZE_def)

interpretation untree: tree_codec "unicode_btree_page_write unicode_node_entry_write"
    "unicode_btree_page_read 32 unicode_node_entry_read node_page_new"
    "leaf_page_ok UNICODE_BTREE_ENTRIES_SIZE 32 NodeBTree unicode_node_entry_ok"
    "unicode_btree_page_write unicode_page_entry_write"
    "unicode_btree_page_read 24 unicode_page_entry_read intermediate_page_new"
    "intermediate_page_ok UNICODE_BTREE_ENTRIES_SIZE 24" UNICODE_BTREE_ENTRIES_SIZE
  by unfold_locales (auto simp: leaf_page_ok_def intermediate_page_ok_def)

interpretation ubtree: tree_codec "unicode_btree_page_write unicode_block_entry_write"
    "unicode_btree_page_read 24 unicode_block_entry_read block_page_new"
    "leaf_page_ok UNICODE_BTREE_ENTRIES_SIZE 24 BlockBTree (\<lambda>_. True)"
    "unicode_btree_page_write unicode_page_entry_write"
    "unicode_btree_page_read 24 unicode_page_entry_read intermediate_page_new"
    "intermediate_page_ok UNICODE_BTREE_ENTRIES_SIZE 24" UNICODE_BTREE_ENTRIES_SIZE
  by unfold_locales (auto simp: leaf_page_ok_def intermediate_page_ok_def)

interpretation antree: tree_codec "ansi_btree_page_write ansi_node_entry_write"
    "ansi_btree_page_read 16 ansi_node_entry_read node_page_new"
    "leaf_page_ok ANSI_BTREE_ENTRIES_SIZE 16 NodeBTree ansi_node_entry_ok"
    "ansi_btree_page_write ansi_page_entry_write"
    "ansi_btree_page_read 12 ansi_page_entry_read intermediate_page_new"
    "intermediate_page_ok ANSI_BTREE_ENTRIES_SIZE 12" ANSI_BTREE_ENTRIES_SIZE
  by unfold_locales (auto simp: leaf_page_ok_def intermediate_page_ok_def)

interpretation abtree: tree_codec "ansi_btree_page_write ansi_block_entry_write"
    "ansi_btree_page_read 12 ansi_block_entry_read block_page_new"
    "leaf_page_ok ANSI_BTREE_ENTRIES_SIZE 12 BlockBTree (\<lambda>_. True)"
    "ansi_btree_page_write ansi_page_entry_write"
    "ansi_btree_page_read 12 ansi_page_entry_read intermediate_page_new"
    "intermediate_page_ok ANSI_BTREE_ENTRIES_SIZE 12" ANSI_BTREE_ENTRIES_SIZE
  by unfold_locales (auto simp: leaf_page_ok_def intermediate_page_ok_def)

section \<open>Properties\<close>

lemma sample_pages_ok:
  "leaf_page_ok UNICODE_BTREE_ENTRIES_SIZE 32 NodeBTree unicode_node_entry_ok sample_leaf"
  "intermediate_page_ok UNICODE_BTREE_ENTRIES_SIZE 24 sample_parent"
  by (simp_all add: leaf_page_ok_def intermediate_page_ok_def sample_leaf_def sample_parent_def
      btree_page_make_def btree_page_fits_def page_trailer_new_def UNICODE_BTREE_ENTRIES_SIZE_def
      sample_entry_def unicode_node_entry_ok_def unicode_node_entry_new_def)

text \<open>
  C24. A page of any of the four B-trees that fits its layout is stored at its reference so that
  reading the reference gives the page back, whatever else the file holds.
\<close>

theorem btree_page_round_trip:
  "((case page1 of Intermediate p \<Rightarrow> intermediate_page_ok UNICODE_BTREE_ENTRIES_SIZE 24 p
       | Leaf p \<Rightarrow> leaf_page_ok UNICODE_BTREE_ENTRIES_SIZE 32 NodeBTree unicode_node_entry_ok p) \<longrightarrow>
      (\<exists>file' crc. unicode_node_btree_write page1 file ref1 = Inr file' \<and>
         unicode_node_btree_read file' ref1 = Inr (page_with_crc crc page1))) \<and>
   ((case page2 of Intermediate p \<Rightarrow> intermediate_page_ok UNICODE_BTREE_ENTRIES_SIZE 24 p
       | Leaf p \<Rightarrow> leaf_page_ok UNICODE_BTREE_ENTRIES_SIZE 24 BlockBTree (\<lambda>_. True) p) \<longrightarrow>
      (\<exists>file' crc. unicode_block_btree_write page2 file ref1 = Inr file' \<and>
         unicode_block_btree_read file' ref1 = Inr (page_with_crc crc page2))) \<and>
   ((case page3 of Intermediate p \<Rightarrow> intermediate_page_ok ANSI_BTREE_ENTRIES_SIZE 12 p
       | Leaf p \<Rightarrow> leaf_page_ok ANSI_BTREE_ENTRIES_SIZE 16 NodeBTree ansi_node_entry_ok p) \<longrightarrow>
      (\<exists>file' crc. ansi_node_btree_write page3 file ref2 = Inr file' \<and>
         ansi_node_btree_read file' ref2 = Inr (page_with_crc crc page3))) \<and>
   ((case page4 of Intermediate p \<Rightarrow> intermediate_page_ok ANSI_BTREE_ENTRIES_SIZE 12 p
       | Leaf p \<Rightarrow> leaf_page_ok ANSI_BTREE_ENTRIES_SIZE 12 BlockBTree (\<lambda>_. True) p) \<longrightarrow>
      (\<exists>file' crc. ansi_block_btree_write page4 file ref2 = Inr file' \<and>
         ansi_block_btree_read file' ref2 = Inr (page_with_crc crc page4)))"
  unfolding unicode_node_btree_write_def unicode_node_btree_read_def unicode_block_btree_write_def
    unicode_block_btree_read_def ansi_node_btree_write_def ansi_node_btree_read_def
    ansi_block_btree_write_def ansi_block_btree_read_def
  by (intro conjI impI untree.root_read_write ubtree.root_read_write antree.root_read_write
      abtree.root_read_write)

theorem btree_page_round_trip_witness:
  "\<exists>file' crc. unicode_node_btree_write (Leaf sample_leaf) [] sample_ref = Inr file' \<and>
     unicode_node_btree_read file' sample_ref = Inr (page_with_crc crc (Leaf sample_leaf))"
  using btree_page_round_trip [of "Leaf sample_leaf" "[]" sample_ref] sample_pages_ok by simp

text \<open>
  C3. On every search tree of height at most \<open>h\<close>, with a cache that agrees with the file,
  \<open>find_entry\<close> returns: it yields the first entry of the tree with the key, or the error that
  the key was not found, exactly as a search of the list of all entries would; and the cache it
  leaves behind agrees with the file again.
\<close>

theorem find_entry_spec:
  assumes "btree_ok read ikey lkey h page" "refs_unambiguous R"
    "set (btree_refs read h page) \<subseteq> R" "cache_agrees read R cache"
  shows "\<exists>cache'. root_btree_find_entry (Suc h) read ikey lkey page key cache =
      Some (lookup_result lkey key (btree_entries read h page), cache') \<and>
    cache_agrees read R cache'"
  using assms by (rule find_entry_correct)

theorem find_entry_spec_witness:
  "\<exists>file' cache'. root_btree_find_entry 2 (unicode_node_btree_read file') id unicode_node_entry_key
     (Intermediate sample_parent) 0x21 (\<lambda>_. None) = Some (Inr sample_entry, cache')"
proof -
  obtain file' crc where
    f: "unicode_node_btree_read file' sample_ref = Inr (page_with_crc crc (Leaf sample_leaf))"
    using untree.root_read_write [of "Leaf sample_leaf" "[]" sample_ref] sample_pages_ok
    by (auto simp: unicode_node_btree_read_def)
  let ?read = "unicode_node_btree_read file'"
  have "btree_ok ?read id unicode_node_entry_key 1 (Intermediate sample_parent)"
    using f by (simp add: sample_parent_def btree_page_make_def page_with_crc_def Let_def)
  moreover have "refs_unambiguous {sample_ref}" by (simp add: refs_unambiguous_def)
  moreover have "set (btree_refs ?read 1 (Intermediate sample_parent)) \<subseteq> {sample_ref}"
    using f by (simp add: sample_parent_def btree_page_make_def page_with_crc_def)
  moreover have "cache_agrees ?read {sample_ref} (\<lambda>_. None)"
    by (simp add: cache_agrees_def)
  ultimately obtain cache' where
    r: "root_btree_find_entry (Suc 1) ?read id unicode_node_entry_key (Intermediate sample_parent) 0x21
      (\<lambda>_. None) = Some (lookup_result unicode_node_entry_key 0x21
        (btree_entries ?read 1 (Intermediate sample_parent)), cache')"
    using find_entry_spec [where read = ?read and ikey = id and lkey = unicode_node_entry_key
        and h = 1 and page = "Intermediate sample_parent" and R = "{sample_ref}"
        and cache = "\<lambda>_. None" and key = "0x21"] by blast
  have "lookup_result unicode_node_entry_key 0x21
      (btree_entries ?read 1 (Intermediate sample_parent)) = Inr sample_entry"
    using f by (simp add: sample_parent_def btree_page_make_def page_with_crc_def set_crc_def
        sample_leaf_def lookup_result_def unicode_node_entry_key_def sample_entry_def
        unicode_node_entry_new_def)
  then show ?thesis using r by (auto simp: numeral_2_eq_2)
qed

text \<open>
  C27. \<open>find_entry\<close> has no bound on its descent: when the entry that an intermediate page of the Unicode node
  B-tree selects for a key refers to the page itself, the search for this key, started with an empty cache, returns at no
  depth. (The witness is a page of this kind that the reader accepts, checksum included.)
\<close>

theorem find_entry_cycle:
  assumes "unicode_node_btree_read file ref = Inr (Intermediate p)"
    and "i < length (bp_entries p)" "pe_block (bp_entries p ! i) = ref"
    and "\<forall>j<length (bp_entries p). pe_key (bp_entries p ! j) \<le> key \<longleftrightarrow> j \<le> i"
  shows "root_btree_find_entry depth (unicode_node_btree_read file) id unicode_node_entry_key (Intermediate p) key (\<lambda>_. None) = None"
proof (induction depth)
  case (Suc depth)
  have "partition_point (\<lambda>e. id (pe_key e) \<le> key) (bp_entries p) = Suc i"
    using assms(2,4) by (intro partition_point_eq) auto
  then show ?case using Suc assms(1-3) by (simp add: Let_def)
qed simp

theorem find_entry_cycle_witness:
  "\<exists>file p. unicode_node_btree_read file sample_ref = Inr (Intermediate p) \<and> pe_block (bp_entries p ! 0) = sample_ref \<and>
     (\<forall>depth. root_btree_find_entry depth (unicode_node_btree_read file) id unicode_node_entry_key
        (Intermediate p) 0x21 (\<lambda>_. None) = None)"
proof -
  obtain file' crc where
    f: "unicode_node_btree_read file' sample_ref = Inr (page_with_crc crc (Intermediate sample_parent))"
    using untree.root_read_write [of "Intermediate sample_parent" "[]" sample_ref] sample_pages_ok
    by (auto simp: unicode_node_btree_read_def)
  then obtain p where r: "unicode_node_btree_read file' sample_ref = Inr (Intermediate p)"
    and p: "bp_entries p = [\<lparr>pe_key = 0, pe_block = sample_ref\<rparr>]"
    by (simp add: page_with_crc_def set_crc_def sample_parent_def btree_page_make_def)
  have "root_btree_find_entry depth (unicode_node_btree_read file') id unicode_node_entry_key
      (Intermediate p) 0x21 (\<lambda>_. None) = None" for depth
    by (rule find_entry_cycle [OF r, of 0]) (simp_all add: p)
  then show ?thesis using r p by (intro exI [of _ file'] exI [of _ p]) simp
qed

end
