(* ===== verification/Ndb_Block.thy ===== *)
theory Ndb_Block
  imports Encode Ndb_BTree
begin

text \<open>
  Blocks of \<open>block.rs\<close> and the block traits of \<open>read_write.rs\<close>: block trailers, data blocks with
  their encodings, and the data tree blocks (\<open>XBLOCK\<close>, \<open>XXBLOCK\<close>). The source is generic over the
  file format \<open>Pst\<close>; the model passes the members of that trait that the block code uses as a
  record \<open>pst_format\<close>, with one value per format. A block is read from the bytes of its
  extent and written into a file at an offset; between its data and its trailer there is a
  gap that the writer seeks over.
\<close>

section \<open>Definitions from the source\<close>

definition MAX_BLOCK_SIZE :: nat where "MAX_BLOCK_SIZE = 8192"

definition block_size :: "nat \<Rightarrow> io_error + nat" where
  "block_size sz =
    (if sz = 0 \<or> sz > MAX_BLOCK_SIZE then Inl (NdbIo (InvalidBlockSize (word_of_nat sz)))
     else Inr (div_ceil sz 64 * 64))"

record 'w block_trailer =
  bt_size :: u16
  bt_signature :: u16
  bt_crc :: u32
  bt_block_id :: 'w

definition block_trailer_new ::
  "nat \<Rightarrow> u16 \<Rightarrow> u16 \<Rightarrow> u32 \<Rightarrow> 'w \<Rightarrow> ndb_error + 'w block_trailer" where
  "block_trailer_new SIZE sz signature crc block_id =
    (if \<not> (1 \<le> unat sz \<and> unat sz \<le> MAX_BLOCK_SIZE - SIZE) then Inl (InvalidBlockSize sz)
     else Inr \<lparr>bt_size = sz, bt_signature = signature, bt_crc = crc, bt_block_id = block_id\<rparr>)"

definition block_trailer_cyclic_key :: "'a::len word block_trailer \<Rightarrow> u32" where
  "block_trailer_cyclic_key t = ucast (block_id_search_key (bt_block_id t))"

definition block_trailer_verify_block_id ::
  "('a::len word \<Rightarrow> ndb_error) \<Rightarrow> 'a word block_trailer \<Rightarrow> bool \<Rightarrow> ndb_error + unit" where
  "block_trailer_verify_block_id id_error t is_internal =
    (if block_id_is_internal (bt_block_id t) \<noteq> is_internal then Inl (id_error (bt_block_id t))
     else Inr ())"

definition unicode_block_trailer_read :: "u64 block_trailer decoder" where
  "unicode_block_trailer_read f =
    (case read_u16 f of Inl e \<Rightarrow> Inl e | Inr (sz, f) \<Rightarrow>
    (if \<not> (1 \<le> unat sz \<and> unat sz \<le> MAX_BLOCK_SIZE - 16) then Inl (NdbIo (InvalidBlockSize sz)) else
    (case read_u16 f of Inl e \<Rightarrow> Inl e | Inr (signature, f) \<Rightarrow>
    (case read_u32 f of Inl e \<Rightarrow> Inl e | Inr (crc, f) \<Rightarrow>
    (case read_u64 f of Inl e \<Rightarrow> Inl e | Inr (block_id, f) \<Rightarrow>
     Inr (\<lparr>bt_size = sz, bt_signature = signature, bt_crc = crc, bt_block_id = block_id\<rparr>, f))))))"

definition unicode_block_trailer_write :: "u64 block_trailer \<Rightarrow> bytes" where
  "unicode_block_trailer_write t = write_u16 (bt_size t) @ write_u16 (bt_signature t) @
    write_u32 (bt_crc t) @ write_u64 (bt_block_id t)"

definition ansi_block_trailer_read :: "u32 block_trailer decoder" where
  "ansi_block_trailer_read f =
    (case read_u16 f of Inl e \<Rightarrow> Inl e | Inr (sz, f) \<Rightarrow>
    (if \<not> (1 \<le> unat sz \<and> unat sz \<le> MAX_BLOCK_SIZE - 12) then Inl (NdbIo (InvalidBlockSize sz)) else
    (case read_u16 f of Inl e \<Rightarrow> Inl e | Inr (signature, f) \<Rightarrow>
    (case read_u32 f of Inl e \<Rightarrow> Inl e | Inr (block_id, f) \<Rightarrow>
    (case read_u32 f of Inl e \<Rightarrow> Inl e | Inr (crc, f) \<Rightarrow>
     Inr (\<lparr>bt_size = sz, bt_signature = signature, bt_crc = crc, bt_block_id = block_id\<rparr>, f))))))"

definition ansi_block_trailer_write :: "u32 block_trailer \<Rightarrow> bytes" where
  "ansi_block_trailer_write t = write_u16 (bt_size t) @ write_u16 (bt_signature t) @
    write_u32 (bt_block_id t) @ write_u32 (bt_crc t)"

record 'w pst_format =
  pf_trailer_size :: nat
  pf_trailer_read :: "'w block_trailer decoder"
  pf_trailer_write :: "'w block_trailer \<Rightarrow> bytes"
  pf_id_error :: "'w \<Rightarrow> ndb_error"
  pf_id_size :: nat
  pf_id_read :: "'w decoder"
  pf_id_write :: "'w \<Rightarrow> bytes"

definition unicode_format :: "u64 pst_format" where
  "unicode_format = \<lparr>pf_trailer_size = 16, pf_trailer_read = unicode_block_trailer_read,
     pf_trailer_write = unicode_block_trailer_write, pf_id_error = InvalidUnicodeBlockTrailerId,
     pf_id_size = 8, pf_id_read = read_u64, pf_id_write = (\<lambda>w. write_u64 w)\<rparr>"

definition ansi_format :: "u32 pst_format" where
  "ansi_format = \<lparr>pf_trailer_size = 12, pf_trailer_read = ansi_block_trailer_read,
     pf_trailer_write = ansi_block_trailer_write, pf_id_error = InvalidAnsiBlockTrailerId,
     pf_id_size = 4, pf_id_read = read_u32, pf_id_write = (\<lambda>w. write_u32 w)\<rparr>"

text \<open>The gap between data and trailer that both the readers and the writers seek over.\<close>

definition block_gap :: "'a::len word pst_format \<Rightarrow> u16 \<Rightarrow> io_error + nat" where
  "block_gap F sz =
    (let offset = unat sz + pf_trailer_size F in
     if offset \<ge> 2 ^ 16 then Inl (NdbIo (InvalidBlockSize sz))
     else case block_size offset of Inl e \<Rightarrow> Inl e | Inr n \<Rightarrow> Inr (n - offset))"

subsection \<open>Data blocks\<close>

record 'w data_block =
  db_encoding :: ndb_crypt_method
  db_data :: bytes
  db_trailer :: "'w block_trailer"

definition data_block_new ::
  "ndb_crypt_method \<Rightarrow> bytes \<Rightarrow> 'w block_trailer \<Rightarrow> ndb_error + 'w data_block" where
  "data_block_new encoding data trailer =
    Inr \<lparr>db_encoding = encoding, db_data = data, db_trailer = trailer\<rparr>"

definition decode_block_data :: "ndb_crypt_method \<Rightarrow> u32 \<Rightarrow> bytes \<Rightarrow> bytes" where
  "decode_block_data encoding key data =
    (case encoding of Cyclic \<Rightarrow> encode_decode_block data key
     | Permute \<Rightarrow> permute_decode_block data | CryptNone \<Rightarrow> data)"

definition encode_block_data :: "ndb_crypt_method \<Rightarrow> u32 \<Rightarrow> bytes \<Rightarrow> bytes" where
  "encode_block_data encoding key data =
    (case encoding of Cyclic \<Rightarrow> encode_decode_block data key
     | Permute \<Rightarrow> permute_encode_block data | CryptNone \<Rightarrow> data)"

definition data_block_read ::
  "'a::len word pst_format \<Rightarrow> u16 \<Rightarrow> ndb_crypt_method \<Rightarrow> 'a word data_block decoder" where
  "data_block_read F sz encoding f =
    (case read_exact (unat sz) f of Inl e \<Rightarrow> Inl e | Inr (data, f) \<Rightarrow>
    (case block_gap F sz of Inl e \<Rightarrow> Inl e | Inr offset \<Rightarrow>
    (case pf_trailer_read F (drop offset f) of Inl e \<Rightarrow> Inl e | Inr (trailer, f) \<Rightarrow>
    (if bt_size trailer \<noteq> sz then Inl (NdbIo (InvalidBlockSize (bt_size trailer))) else
    (case block_trailer_verify_block_id (pf_id_error F) trailer False of Inl e \<Rightarrow> Inl (NdbIo e)
     | Inr _ \<Rightarrow>
    (let crc = compute_crc 0 data in
     if crc \<noteq> bt_crc trailer then Inl (NdbIo (InvalidBlockCrc crc)) else
    (case data_block_new encoding
            (decode_block_data encoding (block_trailer_cyclic_key trailer) data) trailer of
       Inl e \<Rightarrow> Inl (NdbIo e) | Inr block \<Rightarrow> Inr (block, f))))))))"

definition data_block_write ::
  "'a::len word pst_format \<Rightarrow> 'a word data_block \<Rightarrow> bytes \<Rightarrow> nat \<Rightarrow> io_error + bytes" where
  "data_block_write F b file pos =
    (let trailer = db_trailer b;
         data = encode_block_data (db_encoding b) (block_trailer_cyclic_key trailer) (db_data b);
         crc = compute_crc 0 data;
         sz = word_of_nat (length data) in
     case block_trailer_new (pf_trailer_size F) sz (bt_signature trailer) crc (bt_block_id trailer) of
       Inl e \<Rightarrow> Inl (NdbIo e)
     | Inr trailer \<Rightarrow>
       let file = write_at file pos data in
       (case block_gap F sz of Inl e \<Rightarrow> Inl e
        | Inr offset \<Rightarrow>
          Inr (write_at file (pos + length data + offset) (pf_trailer_write F trailer))))"

subsection \<open>Data tree blocks\<close>

record data_tree_header =
  dh_level :: u8
  dh_entry_count :: u16
  dh_total_size :: u32

definition data_tree_header_read :: "data_tree_header decoder" where
  "data_tree_header_read f =
    (case read_u8 f of Inl e \<Rightarrow> Inl e | Inr (block_type, f) \<Rightarrow>
    (if block_type \<noteq> 0x01 then Inl (NdbIo (InvalidInternalBlockType block_type)) else
    (case read_u8 f of Inl e \<Rightarrow> Inl e | Inr (level, f) \<Rightarrow>
    (case read_u16 f of Inl e \<Rightarrow> Inl e | Inr (entry_count, f) \<Rightarrow>
    (case read_u32 f of Inl e \<Rightarrow> Inl e | Inr (total_size, f) \<Rightarrow>
     Inr (\<lparr>dh_level = level, dh_entry_count = entry_count, dh_total_size = total_size\<rparr>, f))))))"

definition data_tree_header_write :: "data_tree_header \<Rightarrow> bytes" where
  "data_tree_header_write h = write_u8 0x01 @ write_u8 (dh_level h) @
    write_u16 (dh_entry_count h) @ write_u32 (dh_total_size h)"

record 'w data_tree_block =
  dt_header :: data_tree_header
  dt_entries :: "'w list"
  dt_trailer :: "'w block_trailer"

definition validate_data_tree_child_kind :: "u8 \<Rightarrow> bool \<Rightarrow> ndb_error + unit" where
  "validate_data_tree_child_kind parent_level child_is_internal =
    (if parent_level = 1 \<and> \<not> child_is_internal \<or> parent_level = 2 \<and> child_is_internal
     then Inr () else Inl (InvalidInternalBlockLevel parent_level))"

definition validate_data_tree_child_level :: "u8 \<Rightarrow> u8 \<Rightarrow> ndb_error + unit" where
  "validate_data_tree_child_level parent_level child_level =
    (if parent_level = 2 \<and> child_level = 1 then Inr () else Inl (InvalidInternalBlockLevel child_level))"

definition validate_data_tree_total :: "nat \<Rightarrow> nat \<Rightarrow> ndb_error + unit" where
  "validate_data_tree_total declared actual =
    (if declared = actual then Inr () else Inl (DataTreeSizeMismatch declared actual))"

fun validate_kinds :: "u8 \<Rightarrow> 'a::len word list \<Rightarrow> ndb_error + unit" where
  "validate_kinds level [] = Inr ()"
| "validate_kinds level (e # es) =
    (case validate_data_tree_child_kind level (block_id_is_internal e) of Inl err \<Rightarrow> Inl err
     | Inr _ \<Rightarrow> validate_kinds level es)"

definition data_tree_block_inner_new ::
  "'a::len word pst_format \<Rightarrow> data_tree_header \<Rightarrow> 'a word list \<Rightarrow> 'a word block_trailer
    \<Rightarrow> ndb_error + 'a word data_tree_block" where
  "data_tree_block_inner_new F header entries trailer =
    (let count = dh_entry_count header in
     if \<not> (1 \<le> dh_level header \<and> dh_level header \<le> 2) then Inl (InvalidInternalBlockLevel (dh_level header))
     else if unat count \<noteq> length entries then Inl (InvalidInternalBlockEntryCount count)
     else if unat count * pf_id_size F \<ge> 2 ^ 16 then Inl (InvalidInternalBlockEntryCount count)
     else if 8 + unat count * pf_id_size F \<ge> 2 ^ 16 then Inl (InvalidInternalBlockEntryCount count)
     else if unat (bt_size trailer) \<noteq> 8 + unat count * pf_id_size F
     then Inl (InvalidBlockSize (bt_size trailer))
     else case block_trailer_verify_block_id (pf_id_error F) trailer True of Inl e \<Rightarrow> Inl e
       | Inr _ \<Rightarrow> Inr \<lparr>dt_header = header, dt_entries = entries, dt_trailer = trailer\<rparr>)"

definition data_tree_block_new ::
  "'a::len word pst_format \<Rightarrow> data_tree_header \<Rightarrow> 'a word list \<Rightarrow> 'a word block_trailer
    \<Rightarrow> ndb_error + 'a word data_tree_block" where
  "data_tree_block_new F header entries trailer =
    (case validate_kinds (dh_level header) entries of Inl e \<Rightarrow> Inl e
     | Inr _ \<Rightarrow> data_tree_block_inner_new F header entries trailer)"

text \<open>
  The trait's \<open>read\<close> and \<open>write\<close> for intermediate tree blocks, in the parts that data trees and
  sub-node trees share: the size checks, the entries and the trailer.
\<close>

definition tree_block_check_size :: "nat \<Rightarrow> nat \<Rightarrow> u16 \<Rightarrow> u16 \<Rightarrow> io_error + unit" where
  "tree_block_check_size HEADER_SIZE ENTRY_SIZE entry_count sz =
    (if unat sz < HEADER_SIZE then Inl (NdbIo (InvalidBlockSize sz))
     else if unat entry_count * ENTRY_SIZE \<ge> 2 ^ 16
     then Inl (NdbIo (InvalidInternalBlockEntryCount entry_count))
     else if unat entry_count * ENTRY_SIZE > unat sz - HEADER_SIZE
     then Inl (NdbIo (InvalidInternalBlockEntryCount entry_count))
     else if HEADER_SIZE + unat entry_count * ENTRY_SIZE \<ge> 2 ^ 16
     then Inl (NdbIo (InvalidInternalBlockEntryCount entry_count))
     else if HEADER_SIZE + unat entry_count * ENTRY_SIZE \<noteq> unat sz
     then Inl (NdbIo (InvalidBlockSize sz))
     else Inr ())"

definition tree_block_read ::
  "'a::len word pst_format \<Rightarrow> nat \<Rightarrow> nat \<Rightarrow> 'e decoder
    \<Rightarrow> ('e list \<Rightarrow> 'a word block_trailer \<Rightarrow> ndb_error + 'b) \<Rightarrow> u16 \<Rightarrow> u16 \<Rightarrow> 'b decoder" where
  "tree_block_read F HEADER_SIZE ENTRY_SIZE read_entry new entry_count sz f =
    (case tree_block_check_size HEADER_SIZE ENTRY_SIZE entry_count sz of Inl e \<Rightarrow> Inl e | Inr _ \<Rightarrow>
    (case read_exact (unat sz) f of Inl e \<Rightarrow> Inl e | Inr (data, f) \<Rightarrow>
    (case read_many (unat entry_count) read_entry (drop HEADER_SIZE data) of Inl e \<Rightarrow> Inl e
     | Inr (entries, _) \<Rightarrow>
    (case block_gap F sz of Inl e \<Rightarrow> Inl e | Inr offset \<Rightarrow>
    (case pf_trailer_read F (drop offset f) of Inl e \<Rightarrow> Inl e | Inr (trailer, f) \<Rightarrow>
    (if bt_size trailer \<noteq> sz then Inl (NdbIo (InvalidBlockSize (bt_size trailer))) else
    (case block_trailer_verify_block_id (pf_id_error F) trailer True of Inl e \<Rightarrow> Inl (NdbIo e)
     | Inr _ \<Rightarrow>
    (let crc = compute_crc 0 data in
     if crc \<noteq> bt_crc trailer then Inl (NdbIo (InvalidBlockCrc crc)) else
    (case new entries trailer of Inl e \<Rightarrow> Inl (NdbIo e) | Inr block \<Rightarrow> Inr (block, f))))))))))"

definition tree_block_write ::
  "'a::len word pst_format \<Rightarrow> bytes \<Rightarrow> 'a word block_trailer \<Rightarrow> bytes \<Rightarrow> nat \<Rightarrow> io_error + bytes" where
  "tree_block_write F data trailer file pos =
    (let crc = compute_crc 0 data; sz = word_of_nat (length data) in
     case block_trailer_new (pf_trailer_size F) sz (bt_signature trailer) crc (bt_block_id trailer) of
       Inl e \<Rightarrow> Inl (NdbIo e)
     | Inr trailer \<Rightarrow>
       (case block_gap F (bt_size trailer) of Inl e \<Rightarrow> Inl e
        | Inr offset \<Rightarrow>
          Inr (write_at (write_at file pos data) (pos + length data + offset)
            (pf_trailer_write F trailer))))"

definition data_tree_block_read ::
  "'a::len word pst_format \<Rightarrow> data_tree_header \<Rightarrow> u16 \<Rightarrow> 'a word data_tree_block decoder" where
  "data_tree_block_read F header sz f =
    tree_block_read F 8 (pf_id_size F) (pf_id_read F) (data_tree_block_new F header)
      (dh_entry_count header) sz f"

definition data_tree_block_write ::
  "'a::len word pst_format \<Rightarrow> 'a word data_tree_block \<Rightarrow> bytes \<Rightarrow> nat \<Rightarrow> io_error + bytes" where
  "data_tree_block_write F b file pos =
    tree_block_write F (data_tree_header_write (dt_header b) @
      concat (map (pf_id_write F) (dt_entries b))) (dt_trailer b) file pos"

subsection \<open>Data trees\<close>

datatype 'w data_tree =
    DataIntermediate "'w data_tree_block"
  | DataLeaf "'w data_block"

definition declared_size :: "'w data_tree \<Rightarrow> nat" where
  "declared_size t = (case t of DataIntermediate b \<Rightarrow> unat (dh_total_size (dt_header b))
     | DataLeaf b \<Rightarrow> length (db_data b))"

definition data_tree_read ::
  "'a::len word pst_format \<Rightarrow> bytes \<Rightarrow> ndb_crypt_method \<Rightarrow> ('a word, 'a word) block_ref \<Rightarrow> u16
    \<Rightarrow> io_error + 'a word data_tree" where
  "data_tree_read F file encoding block sz =
    (let physical_size = unat sz + pf_trailer_size F in
     if physical_size \<ge> 2 ^ 16 then Inl (NdbIo (InvalidBlockSize sz)) else
    (case block_size physical_size of Inl e \<Rightarrow> Inl e | Inr extent \<Rightarrow>
    (case read_at file (unat (ref_index block)) extent of Inl e \<Rightarrow> Inl e | Inr data \<Rightarrow>
     if block_id_is_internal (ref_block block)
     then (case data_tree_header_read data of Inl e \<Rightarrow> Inl e | Inr (header, _) \<Rightarrow>
          (case data_tree_block_read F header sz data of Inl e \<Rightarrow> Inl e
           | Inr (b, _) \<Rightarrow> Inr (DataIntermediate b)))
     else (case data_block_read F sz encoding data of Inl e \<Rightarrow> Inl e
           | Inr (b, _) \<Rightarrow> Inr (DataLeaf b)))))"

definition data_tree_write ::
  "'a::len word pst_format \<Rightarrow> 'a word data_tree \<Rightarrow> bytes \<Rightarrow> ('a word, 'a word) block_ref
    \<Rightarrow> io_error + bytes" where
  "data_tree_write F t file block =
    (case t of DataIntermediate b \<Rightarrow> data_tree_block_write F b file (unat (ref_index block))
     | DataLeaf b \<Rightarrow> data_block_write F b file (unat (ref_index block)))"

section \<open>Specification\<close>

text \<open>The bytes a block stores, and the trailer that the writer computes for them.\<close>

definition stored_bytes :: "'a::len word pst_format \<Rightarrow> 'a word data_tree \<Rightarrow> bytes" where
  "stored_bytes F t = (case t of
     DataIntermediate b \<Rightarrow> data_tree_header_write (dt_header b) @ concat (map (pf_id_write F) (dt_entries b))
   | DataLeaf b \<Rightarrow> encode_block_data (db_encoding b) (block_trailer_cyclic_key (db_trailer b)) (db_data b))"

definition sealed_trailer :: "bytes \<Rightarrow> 'w block_trailer \<Rightarrow> 'w block_trailer" where
  "sealed_trailer data t = t\<lparr>bt_size := word_of_nat (length data), bt_crc := compute_crc 0 data\<rparr>"

definition sealed :: "'a::len word pst_format \<Rightarrow> 'a word data_tree \<Rightarrow> 'a word data_tree" where
  "sealed F t = (case t of
     DataIntermediate b \<Rightarrow> DataIntermediate (b\<lparr>dt_trailer := sealed_trailer (stored_bytes F t) (dt_trailer b)\<rparr>)
   | DataLeaf b \<Rightarrow> DataLeaf (b\<lparr>db_trailer := sealed_trailer (stored_bytes F t) (db_trailer b)\<rparr>))"

definition tree_block_id :: "'w data_tree \<Rightarrow> 'w" where
  "tree_block_id t = (case t of DataIntermediate b \<Rightarrow> bt_block_id (dt_trailer b)
     | DataLeaf b \<Rightarrow> bt_block_id (db_trailer b))"

definition data_tree_ok :: "'a::len word pst_format \<Rightarrow> ndb_crypt_method \<Rightarrow> 'a word data_tree \<Rightarrow> bool" where
  "data_tree_ok F encoding t = (case t of
     DataIntermediate b \<Rightarrow>
       1 \<le> dh_level (dt_header b) \<and> dh_level (dt_header b) \<le> 2 \<and>
       unat (dh_entry_count (dt_header b)) = length (dt_entries b) \<and>
       8 + length (dt_entries b) * pf_id_size F \<le> MAX_BLOCK_SIZE - pf_trailer_size F \<and>
       (\<forall>e\<in>set (dt_entries b). block_id_is_internal e \<longleftrightarrow> dh_level (dt_header b) = 2) \<and>
       block_id_is_internal (bt_block_id (dt_trailer b))
   | DataLeaf b \<Rightarrow>
       db_encoding b = encoding \<and> 1 \<le> length (db_data b) \<and>
       length (db_data b) \<le> MAX_BLOCK_SIZE - pf_trailer_size F \<and>
       \<not> block_id_is_internal (bt_block_id (db_trailer b)))"

definition sample_leaf_block :: "u64 data_tree" where
  "sample_leaf_block = DataLeaf \<lparr>db_encoding = Permute, db_data = [1, 2, 3, 4, 5],
     db_trailer = \<lparr>bt_size = 0, bt_signature = 0, bt_crc = 0, bt_block_id = 4\<rparr>\<rparr>"

definition sample_block_ref :: "(u64, u64) block_ref" where
  "sample_block_ref = \<lparr>ref_block = 4, ref_index = 3\<rparr>"

section \<open>Block extents\<close>

lemma block_size_ok:
  "0 < sz \<Longrightarrow> sz \<le> MAX_BLOCK_SIZE \<Longrightarrow> block_size sz = Inr (div_ceil sz 64 * 64)"
  by (simp add: block_size_def)

lemma block_size_bounds:
  "block_size sz = Inr n \<Longrightarrow> sz \<le> n \<and> n < sz + 64 \<and> n mod 64 = 0 \<and> n \<le> MAX_BLOCK_SIZE"
proof -
  assume "block_size sz = Inr n"
  then have n: "n = div_ceil sz 64 * 64" "0 < sz" "sz \<le> 8192"
    by (auto simp: block_size_def MAX_BLOCK_SIZE_def split: if_splits)
  have lt: "div_ceil sz 64 * 64 < sz + 64" by (rule div_ceil_mult_lt) simp
  have "n \<le> 8192"
  proof (rule ccontr)
    assume "\<not> n \<le> 8192"
    then have "div_ceil sz 64 * 64 > 128 * 64" using n by simp
    then have "div_ceil sz 64 \<ge> 129" by simp
    then show False using lt n by simp
  qed
  then show ?thesis
    using n lt div_ceil_mult_ge [of 64 sz] by (simp add: MAX_BLOCK_SIZE_def)
qed

lemma drop_write_at_past:
  assumes "offset + length bs \<le> n"
  shows "drop n (write_at file offset bs) = drop n file"
proof -
  obtain k where n: "n = offset + length bs + k" using assms le_Suc_ex by blast
  have "drop n (write_at file offset bs) = drop (length bs + k) (drop offset (write_at file offset bs))"
    by (simp add: n ac_simps del: drop_write_at)
  then show ?thesis by (simp add: n ac_simps)
qed

lemma drop_write_gap:
  "\<exists>gap. length gap = off \<and>
     drop pos (write_at (write_at file pos data) (pos + length data + off) tr) =
       data @ gap @ tr @ drop (pos + length data + off + length tr) file"
proof -
  define g where "g = write_at file pos data"
  define q where "q = pos + length data + off"
  have d: "drop pos g = data @ drop (pos + length data) file" by (simp add: g_def)
  have len: "pos + length data \<le> length g" by (simp add: g_def length_write_at)
  define gap where "gap = take off (drop (pos + length data) file @ replicate (q - length g) 0)"
  have "drop pos (take q (g @ replicate (q - length g) 0)) =
      take (length data + off) (drop pos g @ replicate (q - length g) 0)"
    using len by (simp add: drop_take q_def add.assoc)
  also have "\<dots> = data @ gap"
    by (simp add: d gap_def)
  finally have head: "drop pos (take q (g @ replicate (q - length g) 0)) = data @ gap" .
  have "length g - pos = length data + (length file - (pos + length data))"
    using arg_cong [OF d, of length] by simp
  then have "length gap = off"
    using len by (simp add: gap_def q_def)
  moreover have "drop pos (write_at g q tr) = data @ gap @ tr @ drop (q + length tr) g"
    unfolding write_at_def using head len by (simp add: q_def)
  moreover have "drop (q + length tr) g = drop (q + length tr) file"
    unfolding g_def by (rule drop_write_at_past) (simp add: q_def)
  ultimately have "length gap = off \<and> drop pos (write_at g q tr) =
      data @ gap @ tr @ drop (q + length tr) file"
    by (simp only: simp_thms)
  then show ?thesis unfolding g_def q_def by blast
qed

lemma read_at_Inr: "read_at file pos n = Inr ext \<longleftrightarrow> pos + n \<le> length file \<and> ext = take n (drop pos file) \<or> n = 0 \<and> ext = []"
  by (auto simp: read_at_def read_exact_def split: if_splits)

lemma read_at_overwritten:
  assumes "read_at file pos n = Inr ext" "i + length w \<le> n"
  shows "read_at (write_at file (pos + i) w) pos n = Inr (take i ext @ w @ drop (i + length w) ext)"
proof (cases "n = 0")
  case True
  then show ?thesis using assms by (auto simp: read_at_Inr)
next
  case False
  then have ext: "pos + n \<le> length file" "ext = take n (drop pos file)"
    using assms(1) by (auto simp: read_at_Inr)
  have "write_at file (pos + i) w = take (pos + i) file @ w @ drop (pos + i + length w) file"
    using ext(1) assms(2) by (simp add: write_at_def)
  then have "drop pos (write_at file (pos + i) w) =
      drop pos (take (pos + i) file) @ w @ drop (pos + i + length w) file"
    using ext(1) assms(2) by simp
  moreover have "drop pos (take (pos + i) file) = take i ext"
    using assms(2) by (simp add: ext(2) drop_take min_def)
  ultimately have "take n (drop pos (write_at file (pos + i) w)) = take i ext @ w @ drop (i + length w) ext"
    using ext assms(2) by (simp add: drop_take ac_simps)
  moreover have "pos + n \<le> length (write_at file (pos + i) w)"
    using ext(1) by (simp add: length_write_at)
  ultimately show ?thesis by (simp add: read_at_Inr)
qed

text \<open>Whatever is read back has passed the checksum.\<close>

lemma data_tree_read_checked:
  assumes "data_tree_read F file encoding block sz = Inr t"
  shows "\<exists>ext off tr r. block_gap F sz = Inr off \<and>
    read_at file (unat (ref_index block)) (unat sz + off + pf_trailer_size F) = Inr ext \<and>
    pf_trailer_read F (drop (unat sz + off) ext) = Inr (tr, r) \<and>
    compute_crc 0 (take (unat sz) ext) = bt_crc tr"
proof -
  obtain n ext where n: "unat sz + pf_trailer_size F < 2 ^ 16"
      "block_size (unat sz + pf_trailer_size F) = Inr n"
    and ext: "read_at file (unat (ref_index block)) n = Inr ext"
    and b: "(\<exists>header b r. data_tree_block_read F header sz ext = Inr (b, r)) \<or>
      (\<exists>b r. data_block_read F sz encoding ext = Inr (b, r))"
    using assms
    by (auto simp: data_tree_read_def Let_def split: if_splits sum.splits prod.splits) blast
  have gap: "block_gap F sz = Inr (n - (unat sz + pf_trailer_size F))"
    "n = unat sz + (n - (unat sz + pf_trailer_size F)) + pf_trailer_size F"
    using n block_size_bounds [OF n(2)] by (simp_all add: block_gap_def Let_def)
  have "\<exists>tr r. pf_trailer_read F (drop (unat sz + (n - (unat sz + pf_trailer_size F))) ext) = Inr (tr, r) \<and>
      compute_crc 0 (take (unat sz) ext) = bt_crc tr"
    using b gap(1)
    by (auto simp: data_tree_block_read_def tree_block_read_def data_block_read_def Let_def
        block_trailer_verify_block_id_def data_block_new_def pst_result add.commute
        split: sum.splits if_splits)
  then show ?thesis using gap ext by metis
qed

text \<open>
  What the block code relies on from a file format: the trailer and the identifiers are codecs,
  and the trailer has at most 16 bytes.
\<close>

definition trailer_ok :: "'w pst_format \<Rightarrow> 'w block_trailer \<Rightarrow> bool" where
  "trailer_ok F t \<longleftrightarrow> 1 \<le> unat (bt_size t) \<and> unat (bt_size t) \<le> MAX_BLOCK_SIZE - pf_trailer_size F"

locale block_format =
  trailer: codec "pf_trailer_write F" "pf_trailer_read F" "trailer_ok F" "pf_trailer_size F" +
  ident: codec "pf_id_write F" "pf_id_read F" "\<lambda>_. True" "pf_id_size F"
  for F :: "'a::len word pst_format" +
  assumes trailer_small: "pf_trailer_size F \<le> 16"
    and trailer_read_ok: "pf_trailer_read F f = Inr (t, r) \<Longrightarrow> trailer_ok F t"
begin

lemma block_gap_ok:
  assumes "1 \<le> n" "n \<le> MAX_BLOCK_SIZE - pf_trailer_size F"
  shows "block_gap F (word_of_nat n) = Inr (div_ceil (n + pf_trailer_size F) 64 * 64 - (n + pf_trailer_size F))"
    "unat (word_of_nat n :: u16) = n"
proof -
  show u: "unat (word_of_nat n :: u16) = n"
    using assms by (simp add: MAX_BLOCK_SIZE_def unat_of_nat)
  show "block_gap F (word_of_nat n) = Inr (div_ceil (n + pf_trailer_size F) 64 * 64 - (n + pf_trailer_size F))"
    using assms trailer_small by (simp add: block_gap_def u Let_def block_size_def MAX_BLOCK_SIZE_def)
qed

lemma sealed_trailer_ok:
  assumes "1 \<le> length data" "length data \<le> MAX_BLOCK_SIZE - pf_trailer_size F"
  shows "trailer_ok F (sealed_trailer data t)"
    "block_trailer_new (pf_trailer_size F) (word_of_nat (length data)) (bt_signature t)
      (compute_crc 0 data) (bt_block_id t) = Inr (sealed_trailer data t)"
  using assms by (simp_all add: trailer_ok_def sealed_trailer_def block_gap_ok block_trailer_new_def)

text \<open>The extent that the writers leave behind: the data, a gap, the trailer.\<close>

lemma written_extent:
  assumes "1 \<le> length data" "length data \<le> MAX_BLOCK_SIZE - pf_trailer_size F"
    and "trailer_ok F tr"
  shows "\<exists>gap. block_gap F (word_of_nat (length data)) = Inr (length gap) \<and>
    read_at (write_at (write_at file pos data) (pos + length data + length gap) (pf_trailer_write F tr))
      pos (div_ceil (length data + pf_trailer_size F) 64 * 64) =
    Inr (data @ gap @ pf_trailer_write F tr)"
proof -
  let ?n = "length data + pf_trailer_size F"
  obtain gap where gap: "length gap = div_ceil ?n 64 * 64 - ?n"
    "drop pos (write_at (write_at file pos data) (pos + length data + length gap) (pf_trailer_write F tr)) =
       data @ gap @ pf_trailer_write F tr @ drop (pos + length data + length gap + length (pf_trailer_write F tr)) file"
    using drop_write_gap [of "div_ceil ?n 64 * 64 - ?n"] by metis
  have "?n \<le> div_ceil ?n 64 * 64" by (rule div_ceil_mult_ge) simp
  then have "length (data @ gap @ pf_trailer_write F tr) = div_ceil ?n 64 * 64"
    using gap(1) trailer.length_enc [OF assms(3)] by simp
  from read_exact_append [OF this] have
    "read_at (write_at (write_at file pos data) (pos + length data + length gap) (pf_trailer_write F tr))
      pos (div_ceil ?n 64 * 64) = Inr (data @ gap @ pf_trailer_write F tr)"
    unfolding read_at_def gap(2) by (simp only: append_assoc sum.case prod.case)
  then show ?thesis
    using gap(1) block_gap_ok(1) [OF assms(1,2)] by (intro exI [of _ gap]) simp
qed

end

lemma decode_encode_block_data:
  "decode_block_data encoding key (encode_block_data encoding key data) = data"
  by (cases encoding) (simp_all add: decode_block_data_def encode_block_data_def
      permute_decode_encode encode_decode_block_self)

lemma length_encode_block_data [simp]:
  "length (encode_block_data encoding key data) = length data"
  by (cases encoding) (simp_all add: encode_block_data_def)

lemma sealed_trailer_simps [simp]:
  "bt_size (sealed_trailer data t) = word_of_nat (length data)"
  "bt_crc (sealed_trailer data t) = compute_crc 0 data"
  "bt_block_id (sealed_trailer data t) = bt_block_id t"
  "bt_signature (sealed_trailer data t) = bt_signature t"
  by (simp_all add: sealed_trailer_def)

lemma cyclic_key_sealed [simp]:
  "block_trailer_cyclic_key (sealed_trailer data t) = block_trailer_cyclic_key t"
  by (simp add: block_trailer_cyclic_key_def)

lemma validate_kinds_ok:
  "1 \<le> level \<Longrightarrow> level \<le> 2 \<Longrightarrow> \<forall>e\<in>set es. block_id_is_internal e \<longleftrightarrow> level = 2 \<Longrightarrow>
    validate_kinds level es = Inr ()"
proof (induction es)
  case (Cons e es)
  have "level = 1 \<or> level = 2"
    using Cons.prems(1,2) by (auto simp: word_le_nat_alt word_unat_eq_iff)
  then show ?case using Cons by (auto simp: validate_data_tree_child_kind_def)
qed simp

interpretation theader: codec data_tree_header_write data_tree_header_read "\<lambda>_. True" 8
  by unfold_locales (simp_all add: data_tree_header_write_def data_tree_header_read_def)

context block_format
begin

lemma data_block_read_extent:
  assumes "1 \<le> length data" "length data \<le> MAX_BLOCK_SIZE - pf_trailer_size F"
    and "block_gap F (word_of_nat (length data)) = Inr (length gap)"
    and "\<not> block_id_is_internal (bt_block_id t)"
  shows "data_block_read F (word_of_nat (length data)) encoding
      (data @ gap @ pf_trailer_write F (sealed_trailer data t) @ r) =
    Inr (\<lparr>db_encoding = encoding,
      db_data = decode_block_data encoding (block_trailer_cyclic_key t) data,
      db_trailer = sealed_trailer data t\<rparr>, r)"
  using assms sealed_trailer_ok(1) [OF assms(1,2), of t]
  by (simp add: data_block_read_def block_gap_ok(2) trailer.dec_enc block_trailer_verify_block_id_def
      data_block_new_def)

lemma tree_block_read_extent:
  assumes "1 \<le> length data" "length data \<le> MAX_BLOCK_SIZE - pf_trailer_size F"
    and "block_gap F (word_of_nat (length data)) = Inr (length gap)"
    and "block_id_is_internal (bt_block_id t)"
    and "length data = hsize + unat entry_count * esize"
    and "read_many (unat entry_count) read_entry (drop hsize data) = Inr (entries, [])"
    and "new entries (sealed_trailer data t) = Inr b"
  shows "tree_block_read F hsize esize read_entry new entry_count (word_of_nat (length data))
      (data @ gap @ pf_trailer_write F (sealed_trailer data t) @ r) = Inr (b, r)"
proof -
  have "length data < 2 ^ 16" using assms(2) by (simp add: MAX_BLOCK_SIZE_def)
  moreover have "unat (word_of_nat (length data) :: u16) = hsize + unat entry_count * esize"
    using block_gap_ok(2) [OF assms(1,2)] assms(5) by simp
  ultimately have "tree_block_check_size hsize esize entry_count (word_of_nat (length data)) = Inr ()"
    using assms(5) by (simp only: tree_block_check_size_def) simp
  then show ?thesis
    using assms(3,4,6,7) sealed_trailer_ok(1) [OF assms(1,2), of t]
    by (simp add: tree_block_read_def block_gap_ok(2) [OF assms(1,2)] trailer.dec_enc
        block_trailer_verify_block_id_def)
qed

lemma data_block_read_nonempty:
  assumes "data_block_read F sz encoding f = Inr (b, r)"
  shows "db_data b \<noteq> []"
proof -
  obtain data trailer g g' where d: "read_exact (unat sz) f = Inr (data, g)"
    "pf_trailer_read F g' = Inr (trailer, r)" "bt_size trailer = sz"
    "db_data b = decode_block_data encoding (block_trailer_cyclic_key trailer) data"
    using assms by (auto simp: data_block_read_def data_block_new_def Let_def
        split: sum.splits prod.splits if_splits)
  have "length data = unat sz" using d(1) by (simp add: read_exact_Inr_iff)
  moreover have "1 \<le> unat sz" using trailer_read_ok [OF d(2)] d(3) by (simp add: trailer_ok_def)
  ultimately have "length (db_data b) \<ge> 1"
    using d(4) by (cases encoding) (simp_all add: decode_block_data_def)
  then show ?thesis by auto
qed

lemma data_tree_block_new_ok:
  assumes "data_tree_ok F encoding (DataIntermediate b)"
  defines "data \<equiv> stored_bytes F (DataIntermediate b)"
  shows "length data = 8 + unat (dh_entry_count (dt_header b)) * pf_id_size F"
    "read_many (unat (dh_entry_count (dt_header b))) (pf_id_read F) (drop 8 data) = Inr (dt_entries b, [])"
    "data_tree_block_new F (dt_header b) (dt_entries b) (sealed_trailer data (dt_trailer b)) =
      Inr (b\<lparr>dt_trailer := sealed_trailer data (dt_trailer b)\<rparr>)"
proof -
  note ok = assms(1) [unfolded data_tree_ok_def, simplified]
  have hlen: "length (data_tree_header_write (dt_header b)) = 8" by (simp add: theader.length_enc)
  show len: "length data = 8 + unat (dh_entry_count (dt_header b)) * pf_id_size F"
    using ok by (simp add: data_def stored_bytes_def hlen ident.length_concat_enc)
  show "read_many (unat (dh_entry_count (dt_header b))) (pf_id_read F) (drop 8 data) = Inr (dt_entries b, [])"
    using ok by (simp add: data_def stored_bytes_def hlen ident.read_many_enc_all)
  have "unat (word_of_nat (length data) :: u16) = length data"
    using ok len by (intro block_gap_ok(2)) simp_all
  moreover have "length (dt_entries b) * pf_id_size F \<le> 8184"
    using ok by (auto simp: MAX_BLOCK_SIZE_def)
  ultimately show "data_tree_block_new F (dt_header b) (dt_entries b) (sealed_trailer data (dt_trailer b)) =
      Inr (b\<lparr>dt_trailer := sealed_trailer data (dt_trailer b)\<rparr>)"
    using ok len by (simp add: data_tree_block_new_def validate_kinds_ok data_tree_block_inner_new_def
        block_trailer_verify_block_id_def)
qed

lemma stored_length:
  assumes "data_tree_ok F encoding t"
  shows "1 \<le> length (stored_bytes F t)" "length (stored_bytes F t) \<le> MAX_BLOCK_SIZE - pf_trailer_size F"
  using assms data_tree_block_new_ok(1) [of encoding]
  by (cases t; simp add: data_tree_ok_def stored_bytes_def)+

text \<open>What \<open>write\<close> leaves in the file, for blocks of both kinds.\<close>

abbreviation tree_trailer :: "'a word data_tree \<Rightarrow> 'a word block_trailer" where
  "tree_trailer t \<equiv> (case t of DataIntermediate b \<Rightarrow> dt_trailer b | DataLeaf b \<Rightarrow> db_trailer b)"

lemma data_tree_write_eq:
  assumes "data_tree_ok F encoding t"
    and "block_gap F (word_of_nat (length (stored_bytes F t))) = Inr off"
  shows "data_tree_write F t file block = Inr (write_at (write_at file (unat (ref_index block)) (stored_bytes F t))
    (unat (ref_index block) + length (stored_bytes F t) + off)
    (pf_trailer_write F (sealed_trailer (stored_bytes F t) (tree_trailer t))))"
  using assms(2) sealed_trailer_ok(2) [OF stored_length [OF assms(1)], of "tree_trailer t"]
  by (cases t) (simp_all add: data_tree_write_def data_tree_block_write_def tree_block_write_def
      data_block_write_def stored_bytes_def Let_def)

lemma data_tree_written:
  assumes "data_tree_ok F encoding t"
  shows "\<exists>file' gap. data_tree_write F t file block = Inr file' \<and>
    block_gap F (word_of_nat (length (stored_bytes F t))) = Inr (length gap) \<and>
    read_at file' (unat (ref_index block)) (div_ceil (length (stored_bytes F t) + pf_trailer_size F) 64 * 64) =
      Inr (stored_bytes F t @ gap @ pf_trailer_write F (sealed_trailer (stored_bytes F t) (tree_trailer t)))"
proof -
  note len = stored_length [OF assms]
  obtain gap where gap: "block_gap F (word_of_nat (length (stored_bytes F t))) = Inr (length gap)"
    and ext: "read_at (write_at (write_at file (unat (ref_index block)) (stored_bytes F t))
        (unat (ref_index block) + length (stored_bytes F t) + length gap)
        (pf_trailer_write F (sealed_trailer (stored_bytes F t) (tree_trailer t))))
      (unat (ref_index block)) (div_ceil (length (stored_bytes F t) + pf_trailer_size F) 64 * 64) =
      Inr (stored_bytes F t @ gap @ pf_trailer_write F (sealed_trailer (stored_bytes F t) (tree_trailer t)))"
    using written_extent [OF len sealed_trailer_ok(1) [OF len]] by blast
  then show ?thesis using data_tree_write_eq [OF assms gap] by blast
qed

lemma data_tree_write_read:
  assumes "data_tree_ok F encoding t"
    and "block_id_is_internal (ref_block block) = block_id_is_internal (tree_block_id t)"
  shows "\<exists>file'. data_tree_write F t file block = Inr file' \<and>
    data_tree_read F file' encoding block (word_of_nat (length (stored_bytes F t))) = Inr (sealed F t)"
proof -
  define data where "data = stored_bytes F t"
  define tr where "tr = tree_trailer t"
  note len = stored_length [OF assms(1), folded data_def]
  obtain file' gap where w: "data_tree_write F t file block = Inr file'"
    and gap: "block_gap F (word_of_nat (length data)) = Inr (length gap)"
    and ext: "read_at file' (unat (ref_index block)) (div_ceil (length data + pf_trailer_size F) 64 * 64) =
      Inr (data @ gap @ pf_trailer_write F (sealed_trailer data tr))"
    using data_tree_written [OF assms(1), folded data_def tr_def] by blast
  have phys: "length data + pf_trailer_size F < 2 ^ 16"
    "block_size (length data + pf_trailer_size F) = Inr (div_ceil (length data + pf_trailer_size F) 64 * 64)"
    using len trailer_small
    by (auto simp add: block_size_def MAX_BLOCK_SIZE_def simp del: length_0_conv length_greater_0_conv)
  note u = block_gap_ok(2) [OF len]
  have "data_tree_read F file' encoding block (word_of_nat (length data)) = Inr (sealed F t)"
  proof (cases t)
    case (DataLeaf b)
    have id: "\<not> block_id_is_internal (bt_block_id tr)" "\<not> block_id_is_internal (ref_block block)"
      using assms DataLeaf by (simp_all add: data_tree_ok_def tr_def tree_block_id_def)
    have "decode_block_data encoding (block_trailer_cyclic_key tr) data = db_data b"
      using DataLeaf assms(1)
      by (simp add: data_tree_ok_def data_def stored_bytes_def tr_def decode_encode_block_data)
    then have r: "data_block_read F (word_of_nat (length data)) encoding
        (data @ gap @ pf_trailer_write F (sealed_trailer data tr)) =
      Inr (b\<lparr>db_trailer := sealed_trailer data tr\<rparr>, [])"
      using data_block_read_extent [OF len gap id(1), of encoding "[]"] DataLeaf assms(1)
      by (simp add: data_tree_ok_def)
    have "sealed F t = DataLeaf (b\<lparr>db_trailer := sealed_trailer data tr\<rparr>)"
      using DataLeaf by (simp add: sealed_def data_def tr_def)
    then show ?thesis using phys ext id(2) r by (simp add: data_tree_read_def u Let_def)
  next
    case (DataIntermediate b)
    have id: "block_id_is_internal (bt_block_id tr)" "block_id_is_internal (ref_block block)"
      using assms DataIntermediate by (simp_all add: data_tree_ok_def tr_def tree_block_id_def)
    note new = data_tree_block_new_ok [OF assms(1) [unfolded DataIntermediate]]
    have h: "data_tree_header_read (data @ r) =
        Inr (dt_header b, concat (map (pf_id_write F) (dt_entries b)) @ r)" for r
      using DataIntermediate by (simp add: data_def stored_bytes_def theader.dec_enc)
    have "data_tree_block_read F (dt_header b) (word_of_nat (length data))
        (data @ gap @ pf_trailer_write F (sealed_trailer data tr) @ []) =
      Inr (b\<lparr>dt_trailer := sealed_trailer data tr\<rparr>, [])"
      unfolding data_tree_block_read_def
      using new DataIntermediate by (intro tree_block_read_extent [OF len gap id(1)])
        (simp_all add: data_def tr_def)
    moreover have "sealed F t = DataIntermediate (b\<lparr>dt_trailer := sealed_trailer data tr\<rparr>)"
      using DataIntermediate by (simp add: sealed_def data_def tr_def)
    ultimately show ?thesis using phys ext id(2) by (simp add: data_tree_read_def u Let_def h)
  qed
  then show ?thesis using w by (simp add: data_def)
qed

lemma data_tree_overwritten:
  assumes "data_tree_ok F encoding t"
    and "data_tree_write F t file block = Inr file'"
    and "i + 4 \<le> length (stored_bytes F t)" "length w = 4"
    and "w \<noteq> take 4 (drop i (stored_bytes F t))"
  shows "\<exists>e. data_tree_read F (write_at file' (unat (ref_index block) + i) w) encoding' block
    (word_of_nat (length (stored_bytes F t))) = Inl e"
proof (rule ccontr)
  define data where "data = stored_bytes F t"
  note len = stored_length [OF assms(1), folded data_def]
  let ?pos = "unat (ref_index block)"
  let ?file = "write_at file' (?pos + i) w"
  assume "\<not> ?thesis"
  then obtain t' where "data_tree_read F ?file encoding' block (word_of_nat (length data)) = Inr t'"
    unfolding data_def by (metis sum.exhaust)
  from data_tree_read_checked [OF this] obtain ext off tr r where
    off: "block_gap F (word_of_nat (length data)) = Inr off" and
    ext: "read_at ?file ?pos (length data + off + pf_trailer_size F) = Inr ext" and
    tr: "pf_trailer_read F (drop (length data + off) ext) = Inr (tr, r)"
      "compute_crc 0 (take (length data) ext) = bt_crc tr"
    unfolding block_gap_ok(2) [OF len] by blast
  obtain u gap where gap: "length gap = off" and old: "read_at file' ?pos (div_ceil (length data + pf_trailer_size F) 64 * 64) =
      Inr (data @ gap @ pf_trailer_write F (sealed_trailer data u))"
    using data_tree_written [OF assms(1), of "file" block] assms(2) off unfolding data_def by fastforce
  have "length data + off + pf_trailer_size F = div_ceil (length data + pf_trailer_size F) 64 * 64"
    using off block_gap_ok(1) [OF len] div_ceil_mult_ge [of 64 "length data + pf_trailer_size F"] by simp
  then have "ext = take i data @ w @ drop (i + 4) data @ gap @ pf_trailer_write F (sealed_trailer data u)"
    using ext read_at_overwritten [OF old, of i w] assms(3,4) by (simp add: data_def)
  then have "take (length data) ext = take i data @ w @ drop (i + 4) data"
    "drop (length data + off) ext = pf_trailer_write F (sealed_trailer data u)"
    using assms(3,4) gap by (simp_all add: data_def)
  moreover from this(2) tr(1) have "tr = sealed_trailer data u"
    using trailer.dec_enc_all [OF sealed_trailer_ok(1) [OF len, of u]] by simp
  ultimately have "compute_crc 0 (take i data @ w @ drop (i + 4) data) = compute_crc 0 data"
    using tr(2) by simp
  moreover have "data = take i data @ take 4 (drop i data) @ drop (i + 4) data"
    by (metis append_take_drop_id drop_drop add.commute)
  ultimately show False
    using crc_burst [of w "take 4 (drop i data)" 0 "take i data" "drop (i + 4) data"] assms(3-5)
    by (simp add: data_def)
qed

end

lemma block_trailer_read_ok:
  "pf_trailer_read unicode_format f = Inr (t, r) \<Longrightarrow> trailer_ok unicode_format t"
  "pf_trailer_read ansi_format f = Inr (u, r) \<Longrightarrow> trailer_ok ansi_format u"
  by (auto simp: unicode_block_trailer_read_def ansi_block_trailer_read_def trailer_ok_def
      unicode_format_def ansi_format_def pst_result)

interpretation ublock: block_format unicode_format
  by (unfold_locales; (erule block_trailer_read_ok)?)
    (simp_all add: unicode_format_def trailer_ok_def unicode_block_trailer_write_def unicode_block_trailer_read_def)

interpretation ablock: block_format ansi_format
  by (unfold_locales; (erule block_trailer_read_ok)?)
    (simp_all add: ansi_format_def trailer_ok_def ansi_block_trailer_write_def ansi_block_trailer_read_def)

section \<open>Properties\<close>

text \<open>
  C16. Every block, a data block in each of the three encodings or a data tree block, is stored
  so that reading its extent gives it back with the size and checksum of the stored bytes in its
  trailer, in both file formats, whatever the file held before.
\<close>

theorem data_tree_round_trip:
  "(data_tree_ok unicode_format encoding t \<and>
      block_id_is_internal (ref_block block) = block_id_is_internal (tree_block_id t) \<longrightarrow>
    (\<exists>file'. data_tree_write unicode_format t file block = Inr file' \<and>
      data_tree_read unicode_format file' encoding block
        (word_of_nat (length (stored_bytes unicode_format t))) = Inr (sealed unicode_format t))) \<and>
   (data_tree_ok ansi_format encoding t' \<and>
      block_id_is_internal (ref_block block') = block_id_is_internal (tree_block_id t') \<longrightarrow>
    (\<exists>file'. data_tree_write ansi_format t' file block' = Inr file' \<and>
      data_tree_read ansi_format file' encoding block'
        (word_of_nat (length (stored_bytes ansi_format t'))) = Inr (sealed ansi_format t')))"
  by (intro conjI impI; elim conjE) (rule ublock.data_tree_write_read ablock.data_tree_write_read; assumption)+

theorem data_tree_round_trip_witness:
  "\<exists>file'. data_tree_write unicode_format sample_leaf_block [] sample_block_ref = Inr file' \<and>
      data_tree_read unicode_format file' Permute sample_block_ref
        (word_of_nat (length (stored_bytes unicode_format sample_leaf_block))) =
        Inr (sealed unicode_format sample_leaf_block)"
  using data_tree_round_trip [of Permute sample_leaf_block sample_block_ref "[]"]
  by (simp add: sample_leaf_block_def sample_block_ref_def data_tree_ok_def tree_block_id_def
      MAX_BLOCK_SIZE_def unicode_format_def block_id_is_internal_def)

text \<open>
  C25. Damage to a stored block is noticed: after a block was written, overwriting any four
  consecutive bytes of its stored data with other values makes reading it fail, whichever
  encoding the reader uses, in both file formats.
\<close>

theorem data_tree_corruption:
  "(data_tree_ok unicode_format encoding t \<and> data_tree_write unicode_format t file block = Inr file' \<and>
      i + 4 \<le> length (stored_bytes unicode_format t) \<and> length w = 4 \<and>
      w \<noteq> take 4 (drop i (stored_bytes unicode_format t)) \<longrightarrow>
    (\<exists>e. data_tree_read unicode_format (write_at file' (unat (ref_index block) + i) w) encoding' block
       (word_of_nat (length (stored_bytes unicode_format t))) = Inl e)) \<and>
   (data_tree_ok ansi_format encoding u \<and> data_tree_write ansi_format u file block' = Inr file' \<and>
      i + 4 \<le> length (stored_bytes ansi_format u) \<and> length w = 4 \<and>
      w \<noteq> take 4 (drop i (stored_bytes ansi_format u)) \<longrightarrow>
    (\<exists>e. data_tree_read ansi_format (write_at file' (unat (ref_index block') + i) w) encoding' block'
       (word_of_nat (length (stored_bytes ansi_format u))) = Inl e))"
  by (intro conjI impI; elim conjE)
    (rule ublock.data_tree_overwritten ablock.data_tree_overwritten; assumption)+

theorem data_tree_corruption_witness:
  "\<exists>file' e. data_tree_write unicode_format sample_leaf_block [] sample_block_ref = Inr file' \<and>
      data_tree_read unicode_format (write_at file' (unat (ref_index sample_block_ref) + 1) [0, 0, 0, 0])
        Permute sample_block_ref
        (word_of_nat (length (stored_bytes unicode_format sample_leaf_block))) = Inl e"
proof -
  have ok: "data_tree_ok unicode_format Permute sample_leaf_block"
    by (simp add: sample_leaf_block_def data_tree_ok_def MAX_BLOCK_SIZE_def unicode_format_def
        block_id_is_internal_def)
  have "stored_bytes unicode_format sample_leaf_block = permute_encode_block [1, 2, 3, 4, 5]"
    by (simp add: sample_leaf_block_def stored_bytes_def encode_block_data_def)
  also have "\<dots> = [0x36, 0x13, 0x62, 0xA8, 0x21]" by code_simp
  finally have bytes: "stored_bytes unicode_format sample_leaf_block = [0x36, 0x13, 0x62, 0xA8, 0x21]" .
  obtain file' where "data_tree_write unicode_format sample_leaf_block [] sample_block_ref = Inr file'"
    using ublock.data_tree_written [OF ok] by blast
  then show ?thesis
    using data_tree_corruption [of Permute sample_leaf_block "[]" sample_block_ref file' 1 "[0, 0, 0, 0]" Permute] ok
    by (simp add: bytes)
qed

end
