(* ===== verification/Ndb_DataTree.thy ===== *)
theory Ndb_DataTree
  imports Ndb_Search Ndb_Block
begin

text \<open>
  Traversal of data trees in \<open>block.rs\<close>: the traversal budget, the worklist that collects the data
  blocks of a tree (\<open>sub_entries\<close>), the materialised block list (\<open>blocks\<close>, \<open>nth\<close>) and the streaming
  reader \<open>DataTreeReader\<close>. What the traversal uses of the file is the record \<open>block_source\<close>: the
  block B-tree search with its page cache, the file and its encoding. Both caches are passed
  explicitly; an operation returns its result, an error included, with the caches it leaves.
\<close>

section \<open>The block source\<close>

record ('w, 'e, 'c) block_source =
  bs_format :: "'w pst_format"
  bs_find :: "'w \<Rightarrow> 'c \<Rightarrow> (io_error + 'e) \<times> 'c"
  bs_ref :: "'e \<Rightarrow> ('w, 'w) block_ref"
  bs_size :: "'e \<Rightarrow> u16"
  bs_file :: bytes
  bs_encoding :: ndb_crypt_method

type_synonym 'w block_cache = "'w \<Rightarrow> 'w data_tree option"

text \<open>
  The search of the block B-tree as the traversals call it. Its recursion is bounded by the call
  stack, whose depth is a parameter: a search that needs more aborts the program.
\<close>

definition btree_find ::
  "nat \<Rightarrow> ('l, 'w) page_reader \<Rightarrow> ('w \<Rightarrow> u64) \<Rightarrow> ('l \<Rightarrow> u64) \<Rightarrow> ('l, 'w) btree_root \<Rightarrow> 'w
    \<Rightarrow> ('l, 'w) page_cache \<Rightarrow> (io_error + 'l) \<times> ('l, 'w) page_cache" where
  "btree_find stack read ikey lkey page key cache =
    (case root_btree_find_entry stack read ikey lkey page (ikey key) cache of
       None \<Rightarrow> (Inl Panic, cache) | Some r \<Rightarrow> r)"

definition unicode_source ::
  "nat \<Rightarrow> bytes \<Rightarrow> ndb_crypt_method \<Rightarrow> (unicode_block_entry, u64) btree_root
    \<Rightarrow> (u64, unicode_block_entry, (unicode_block_entry, u64) page_cache) block_source" where
  "unicode_source stack file encoding page =
    \<lparr>bs_format = unicode_format,
     bs_find = btree_find stack (unicode_block_btree_read file) id unicode_block_entry_key page,
     bs_ref = ub_block, bs_size = ub_size, bs_file = file, bs_encoding = encoding\<rparr>"

definition ansi_source ::
  "nat \<Rightarrow> bytes \<Rightarrow> ndb_crypt_method \<Rightarrow> (ansi_block_entry, u32) btree_root
    \<Rightarrow> (u32, ansi_block_entry, (ansi_block_entry, u32) page_cache) block_source" where
  "ansi_source stack file encoding page =
    \<lparr>bs_format = ansi_format,
     bs_find = btree_find stack (ansi_block_btree_read file) ucast
       (\<lambda>e. ucast (ansi_block_entry_key e)) page,
     bs_ref = ab_block, bs_size = ab_size, bs_file = file, bs_encoding = encoding\<rparr>"

definition read_entry_tree :: "('a::len word, 'e, 'c) block_source \<Rightarrow> 'e \<Rightarrow> io_error + 'a word data_tree" where
  "read_entry_tree S entry =
    data_tree_read (bs_format S) (bs_file S) (bs_encoding S) (bs_ref S entry) (bs_size S entry)"

section \<open>The traversal budget\<close>

definition MAX_DATA_TREE_DEPTH :: nat where "MAX_DATA_TREE_DEPTH = 32"
definition MAX_DATA_TREE_ENTRIES :: nat where "MAX_DATA_TREE_ENTRIES = 16384"
definition MAX_STREAMING_DATA_TREE_ENTRIES :: nat where "MAX_STREAMING_DATA_TREE_ENTRIES = 300000"
definition MAX_MATERIALIZED_DATA_TREE_BYTES :: nat where
  "MAX_MATERIALIZED_DATA_TREE_BYTES = 64 * 1024 * 1024"

definition observe_materialized_data_tree_bytes :: "nat \<Rightarrow> nat \<Rightarrow> nat \<Rightarrow> io_error + nat" where
  "observe_materialized_data_tree_bytes declared materialized next =
    (case checked_add_usize materialized next of
       None \<Rightarrow> Inl (NdbIo (DataTreeMaterializationLimitExceeded MAX_MATERIALIZED_DATA_TREE_BYTES))
     | Some actual \<Rightarrow>
       if actual > MAX_MATERIALIZED_DATA_TREE_BYTES
       then Inl (NdbIo (DataTreeMaterializationLimitExceeded MAX_MATERIALIZED_DATA_TREE_BYTES))
       else if actual > declared then Inl (NdbIo (DataTreeSizeMismatch declared actual))
       else Inr actual)"

record traversal_budget =
  tb_visited_blocks :: "u64 set"
  tb_visited_entries :: nat
  tb_max_entries :: nat

definition traversal_budget_new :: "nat \<Rightarrow> traversal_budget" where
  "traversal_budget_new max_entries =
    \<lparr>tb_visited_blocks = {}, tb_visited_entries = 0, tb_max_entries = max_entries\<rparr>"

definition tb_observe_tree :: "nat \<Rightarrow> nat \<Rightarrow> traversal_budget \<Rightarrow> io_error + traversal_budget" where
  "tb_observe_tree depth entries budget =
    (if depth > MAX_DATA_TREE_DEPTH then Inl (NdbIo (DataTreeDepthExceeded MAX_DATA_TREE_DEPTH))
     else case checked_add_usize (tb_visited_entries budget) entries of
       None \<Rightarrow> Inl (NdbIo (DataTreeEntryLimitExceeded (tb_max_entries budget)))
     | Some visited_entries \<Rightarrow>
       if visited_entries > tb_max_entries budget
       then Inl (NdbIo (DataTreeEntryLimitExceeded (tb_max_entries budget)))
       else Inr (budget\<lparr>tb_visited_entries := visited_entries\<rparr>))"

definition tb_descend_to :: "u64 \<Rightarrow> traversal_budget \<Rightarrow> io_error + traversal_budget" where
  "tb_descend_to block_id budget =
    (if block_id \<in> tb_visited_blocks budget then Inl (NdbIo (DataTreeCycle block_id))
     else Inr (budget\<lparr>tb_visited_blocks := insert block_id (tb_visited_blocks budget)\<rparr>))"

section \<open>The worklist\<close>

text \<open>\<open>block_cache.remove\<close>, or a search and a read.\<close>

definition load_data_tree ::
  "('a::len word, 'e, 'c) block_source \<Rightarrow> 'a word \<Rightarrow> 'c \<Rightarrow> 'a word block_cache
    \<Rightarrow> (io_error + 'a word data_tree) \<times> 'c \<times> 'a word block_cache" where
  "load_data_tree S block_id pc bc =
    (case bc block_id of Some t \<Rightarrow> (Inr t, pc, bc(block_id := None))
     | None \<Rightarrow> (case bs_find S (block_id_search_key block_id) pc of
         (Inl e, pc) \<Rightarrow> (Inl e, pc, bc)
       | (Inr entry, pc) \<Rightarrow> (read_entry_tree S entry, pc, bc)))"

text \<open>The sum of the sizes of the data blocks below a child.\<close>

fun child_total_loop ::
  "('a::len word, 'e, 'c) block_source \<Rightarrow> u8 \<Rightarrow> 'a word list \<Rightarrow> nat \<Rightarrow> 'c \<Rightarrow> (io_error + nat) \<times> 'c" where
  "child_total_loop S level [] child_total pc = (Inr child_total, pc)"
| "child_total_loop S level (entry # entries) child_total pc =
    (case validate_data_tree_child_kind level (block_id_is_internal entry) of
       Inl e \<Rightarrow> (Inl (NdbIo e), pc)
     | Inr _ \<Rightarrow>
       (case bs_find S (block_id_search_key entry) pc of (Inl e, pc) \<Rightarrow> (Inl e, pc)
        | (Inr leaf, pc) \<Rightarrow>
          (case checked_add_usize child_total (unat (bs_size S leaf)) of
             None \<Rightarrow> (Inl (NdbIo (DataTreeMaterializationLimitExceeded MAX_MATERIALIZED_DATA_TREE_BYTES)), pc)
           | Some child_total \<Rightarrow> child_total_loop S level entries child_total pc)))"

definition check_child ::
  "('a::len word, 'e, 'c) block_source \<Rightarrow> u8 \<Rightarrow> 'a word data_tree_block \<Rightarrow> nat \<Rightarrow> traversal_budget \<Rightarrow> 'c
    \<Rightarrow> (io_error + traversal_budget) \<times> 'c" where
  "check_child S parent_level child depth budget pc =
    (case validate_data_tree_child_level parent_level (dh_level (dt_header child)) of
       Inl e \<Rightarrow> (Inl (NdbIo e), pc)
     | Inr _ \<Rightarrow>
       (case child_total_loop S (dh_level (dt_header child)) (dt_entries child) 0 pc of
          (Inl e, pc) \<Rightarrow> (Inl e, pc)
        | (Inr child_total, pc) \<Rightarrow>
          (case validate_data_tree_total (unat (dh_total_size (dt_header child))) child_total of
             Inl e \<Rightarrow> (Inl (NdbIo e), pc)
           | Inr _ \<Rightarrow> (tb_observe_tree depth (length (dt_entries child)) budget, pc))))"

type_synonym 'w pending = "'w \<times> u8 \<times> nat"

function sub_entries_loop ::
  "('a::len word, 'e, 'c) block_source \<Rightarrow> traversal_budget \<Rightarrow> 'a word pending list \<Rightarrow> 'e list \<Rightarrow> 'c
    \<Rightarrow> 'a word block_cache \<Rightarrow> (io_error + 'e list) \<times> 'c \<times> 'a word block_cache" where
  "sub_entries_loop S budget [] blocks pc bc = (Inr blocks, pc, bc)"
| "sub_entries_loop S budget ((block_id, parent_level, depth) # pending) blocks pc bc =
    (case validate_data_tree_child_kind parent_level (block_id_is_internal block_id) of
       Inl e \<Rightarrow> (Inl (NdbIo e), pc, bc)
     | Inr _ \<Rightarrow>
       if parent_level = 1
       then (case bs_find S (block_id_search_key block_id) pc of (Inl e, pc) \<Rightarrow> (Inl e, pc, bc)
             | (Inr entry, pc) \<Rightarrow> sub_entries_loop S budget pending (blocks @ [entry]) pc bc)
       else (case tb_descend_to (ucast block_id) budget of Inl e \<Rightarrow> (Inl e, pc, bc)
         | Inr budget \<Rightarrow>
           (case load_data_tree S block_id pc bc of (Inl e, pc, bc) \<Rightarrow> (Inl e, pc, bc)
            | (Inr data_tree, pc, bc) \<Rightarrow>
              (case data_tree of
                 DataLeaf _ \<Rightarrow> (Inl (NdbIo (InvalidInternalBlockLevel 0)), pc, bc)
               | DataIntermediate child \<Rightarrow>
                 (case check_child S parent_level child depth budget pc of
                    (Inl e, pc) \<Rightarrow> (Inl e, pc, bc)
                  | (Inr budget, pc) \<Rightarrow>
                    sub_entries_loop S budget
                      (map (\<lambda>entry. (entry, 1, depth + 1)) (dt_entries child) @ pending)
                      blocks pc (bc(block_id \<mapsto> data_tree)))))))"
  by pat_completeness auto
termination
  by (relation "measures [\<lambda>(S, budget, pending, _). length (filter (\<lambda>(_, level, _). level \<noteq> 1) pending),
        \<lambda>(S, budget, pending, _). length pending]")
    (auto simp: filter_map comp_def)

definition sub_entries ::
  "('a::len word, 'e, 'c) block_source \<Rightarrow> 'a word data_tree \<Rightarrow> nat \<Rightarrow> 'c \<Rightarrow> 'a word block_cache
    \<Rightarrow> (io_error + 'e list) \<times> 'c \<times> 'a word block_cache" where
  "sub_entries S t max_entries pc bc =
    (case t of
       DataIntermediate block \<Rightarrow>
         (case tb_observe_tree 0 (length (dt_entries block)) (traversal_budget_new max_entries) of
            Inl e \<Rightarrow> (Inl e, pc, bc)
          | Inr budget \<Rightarrow>
            sub_entries_loop S budget
              (map (\<lambda>entry. (entry, dh_level (dt_header block), 1)) (dt_entries block)) [] pc bc)
     | DataLeaf _ \<Rightarrow> (Inr [], pc, bc))"

section \<open>Materialised blocks\<close>

fun blocks_loop ::
  "('a::len word, 'e, 'c) block_source \<Rightarrow> nat \<Rightarrow> 'e list \<Rightarrow> nat \<Rightarrow> 'a word data_block list
    \<Rightarrow> 'a word block_cache \<Rightarrow> (io_error + nat \<times> 'a word data_block list) \<times> 'a word block_cache" where
  "blocks_loop S declared [] materialized blocks bc = (Inr (materialized, blocks), bc)"
| "blocks_loop S declared (entry # entries) materialized blocks bc =
    (let block_id = ref_block (bs_ref S entry) in
     case (case bc block_id of Some t \<Rightarrow> (Inr t, bc(block_id := None))
           | None \<Rightarrow> (read_entry_tree S entry, bc)) of
       (Inl e, bc) \<Rightarrow> (Inl e, bc)
     | (Inr (DataIntermediate _), bc) \<Rightarrow> (Inl (NdbIo (InvalidInternalBlockLevel 0)), bc)
     | (Inr (DataLeaf block), bc) \<Rightarrow>
       (case observe_materialized_data_tree_bytes declared materialized (length (db_data block)) of
          Inl e \<Rightarrow> (Inl e, bc)
        | Inr materialized \<Rightarrow>
          blocks_loop S declared entries materialized (blocks @ [block])
            (bc(block_id \<mapsto> DataLeaf block))))"

definition data_tree_blocks ::
  "('a::len word, 'e, 'c) block_source \<Rightarrow> 'a word data_tree \<Rightarrow> 'c \<Rightarrow> 'a word block_cache
    \<Rightarrow> (io_error + 'a word data_block list) \<times> 'c \<times> 'a word block_cache" where
  "data_tree_blocks S t pc bc =
    (case t of
       DataIntermediate _ \<Rightarrow>
         (let declared = declared_size t in
          if declared > MAX_MATERIALIZED_DATA_TREE_BYTES
          then (Inl (NdbIo (DataTreeMaterializationLimitExceeded MAX_MATERIALIZED_DATA_TREE_BYTES)), pc, bc)
          else case sub_entries S t MAX_DATA_TREE_ENTRIES pc bc of
            (Inl e, pc, bc) \<Rightarrow> (Inl e, pc, bc)
          | (Inr entries, pc, bc) \<Rightarrow>
            (case blocks_loop S declared entries 0 [] bc of
               (Inl e, bc) \<Rightarrow> (Inl e, pc, bc)
             | (Inr (materialized, blocks), bc) \<Rightarrow>
               if materialized \<noteq> declared
               then (Inl (NdbIo (DataTreeSizeMismatch declared materialized)), pc, bc)
               else (Inr blocks, pc, bc)))
     | DataLeaf block \<Rightarrow> (Inr [block], pc, bc))"

definition data_tree_nth ::
  "('a::len word, 'e, 'c) block_source \<Rightarrow> 'a word data_tree \<Rightarrow> nat \<Rightarrow> 'c \<Rightarrow> 'a word block_cache
    \<Rightarrow> (io_error + bytes option) \<times> 'c \<times> 'a word block_cache" where
  "data_tree_nth S t n pc bc =
    (case t of
       DataIntermediate _ \<Rightarrow>
         (case sub_entries S t MAX_DATA_TREE_ENTRIES pc bc of
            (Inl e, pc, bc) \<Rightarrow> (Inl e, pc, bc)
          | (Inr entries, pc, bc) \<Rightarrow>
            if n < length entries
            then (let entry = entries ! n; block_id = ref_block (bs_ref S entry) in
              case (case bc block_id of Some t \<Rightarrow> Inr t | None \<Rightarrow> read_entry_tree S entry) of
                Inl e \<Rightarrow> (Inl e, pc, bc)
              | Inr (DataIntermediate b) \<Rightarrow>
                (Inl (NdbIo (InvalidInternalBlockLevel 0)), pc, bc(block_id \<mapsto> DataIntermediate b))
              | Inr (DataLeaf block) \<Rightarrow> (Inr (Some (db_data block)), pc, bc(block_id \<mapsto> DataLeaf block)))
            else (Inr None, pc, bc))
     | DataLeaf block \<Rightarrow> (Inr (if n \<noteq> 0 then None else Some (db_data block)), pc, bc))"

section \<open>The streaming reader\<close>

text \<open>\<open>dr_current\<close> is what the cursor of the current block has not delivered yet.\<close>

record 'e data_tree_reader =
  dr_current :: bytes
  dr_next :: "'e list"
  dr_expected_size :: nat
  dr_total_read :: nat

definition data_tree_reader_new ::
  "('a::len word, 'e, 'c) block_source \<Rightarrow> 'a word data_tree \<Rightarrow> nat \<Rightarrow> 'c \<Rightarrow> 'a word block_cache
    \<Rightarrow> (io_error + 'e data_tree_reader) \<times> 'c \<times> 'a word block_cache" where
  "data_tree_reader_new S t max_entries pc bc =
    (case t of
       DataIntermediate _ \<Rightarrow>
         (case sub_entries S t max_entries pc bc of (Inl e, pc, bc) \<Rightarrow> (Inl e, pc, bc)
          | (Inr entries, pc, bc) \<Rightarrow>
            (Inr \<lparr>dr_current = [], dr_next = entries, dr_expected_size = declared_size t,
                  dr_total_read = 0\<rparr>, pc, bc))
     | DataLeaf block \<Rightarrow>
         (Inr \<lparr>dr_current = db_data block, dr_next = [], dr_expected_size = declared_size t,
               dr_total_read = 0\<rparr>, pc, bc))"

definition data_tree_reader_bounded ::
  "('a::len word, 'e, 'c) block_source \<Rightarrow> 'a word data_tree \<Rightarrow> 'c \<Rightarrow> 'a word block_cache
    \<Rightarrow> (io_error + 'e data_tree_reader) \<times> 'c \<times> 'a word block_cache" where
  "data_tree_reader_bounded S t pc bc =
    (if declared_size t > MAX_MATERIALIZED_DATA_TREE_BYTES
     then (Inl (NdbIo (DataTreeMaterializationLimitExceeded MAX_MATERIALIZED_DATA_TREE_BYTES)), pc, bc)
     else data_tree_reader_new S t MAX_DATA_TREE_ENTRIES pc bc)"

definition streaming_reader ::
  "('a::len word, 'e, 'c) block_source \<Rightarrow> 'a word data_tree \<Rightarrow> 'c \<Rightarrow> 'a word block_cache
    \<Rightarrow> (io_error + 'e data_tree_reader) \<times> 'c \<times> 'a word block_cache" where
  "streaming_reader S t pc bc = data_tree_reader_new S t MAX_STREAMING_DATA_TREE_ENTRIES pc bc"

text \<open>The loop that takes the next block while the buffer is not full.\<close>

fun reader_fill ::
  "('a::len word, 'e, 'c) block_source \<Rightarrow> nat \<Rightarrow> bytes \<Rightarrow> bytes \<Rightarrow> 'e list
    \<Rightarrow> (io_error + bytes) \<times> bytes \<times> 'e list" where
  "reader_fill S requested out current [] = (Inr out, current, [])"
| "reader_fill S requested out current (entry # next) =
    (if length out < requested
     then (case read_entry_tree S entry of Inl e \<Rightarrow> (Inl e, current, next)
           | Inr (DataIntermediate _) \<Rightarrow> (Inl (NdbIo (InvalidInternalBlockLevel 0)), current, next)
           | Inr (DataLeaf block) \<Rightarrow>
             (let k = requested - length out in
              reader_fill S requested (out @ take k (db_data block)) (drop k (db_data block)) next))
     else (Inr out, current, entry # next))"

definition data_tree_reader_read ::
  "('a::len word, 'e, 'c) block_source \<Rightarrow> nat \<Rightarrow> 'e data_tree_reader
    \<Rightarrow> (io_error + bytes) \<times> 'e data_tree_reader" where
  "data_tree_reader_read S buf_len r =
    (if buf_len = 0 then (Inr [], r)
     else let remaining = dr_expected_size r - dr_total_read r in
       if remaining = 0
       then (if dr_current r \<noteq> [] \<or> dr_next r \<noteq> [] then (Inl (Io InvalidData), r) else (Inr [], r))
       else let requested = min buf_len remaining in
         (case reader_fill S requested (take requested (dr_current r)) (drop requested (dr_current r))
              (dr_next r) of
            (Inl e, current, next) \<Rightarrow> (Inl e, r\<lparr>dr_current := current, dr_next := next\<rparr>)
          | (Inr out, current, next) \<Rightarrow>
            (case checked_add_usize (dr_total_read r) (length out) of
               None \<Rightarrow> (Inl (Io InvalidData), r\<lparr>dr_current := current, dr_next := next\<rparr>)
             | Some total_read \<Rightarrow>
               (let r = r\<lparr>dr_current := current, dr_next := next, dr_total_read := total_read\<rparr> in
                if out = [] \<and> total_read \<noteq> dr_expected_size r then (Inl (Io UnexpectedEof), r)
                else (Inr out, r)))))"

section \<open>Specification\<close>

text \<open>
  The data blocks of a tree in order, computed without a worklist, budget or caches. \<open>loc\<close> is
  the meaning of the block B-tree, a lookup that does not depend on a cache.
\<close>

fun collect :: "('x \<Rightarrow> io_error + 'y) \<Rightarrow> 'x list \<Rightarrow> io_error + 'y list" where
  "collect f [] = Inr []"
| "collect f (x # xs) = (case f x of Inl e \<Rightarrow> Inl e
     | Inr y \<Rightarrow> (case collect f xs of Inl e \<Rightarrow> Inl e | Inr ys \<Rightarrow> Inr (y # ys)))"

definition leaf_lookup :: "('a::len word \<Rightarrow> io_error + 'e) \<Rightarrow> 'a word \<Rightarrow> io_error + 'e" where
  "leaf_lookup loc block_id =
    (if block_id_is_internal block_id then Inl (NdbIo (InvalidInternalBlockLevel 1))
     else loc (block_id_search_key block_id))"

definition child_leaves ::
  "('a::len word, 'e, 'c) block_source \<Rightarrow> ('a word \<Rightarrow> io_error + 'e) \<Rightarrow> 'a word \<Rightarrow> io_error + 'e list" where
  "child_leaves S loc block_id =
    (if \<not> block_id_is_internal block_id then Inl (NdbIo (InvalidInternalBlockLevel 2)) else
    (case loc (block_id_search_key block_id) of Inl e \<Rightarrow> Inl e | Inr entry \<Rightarrow>
    (case read_entry_tree S entry of Inl e \<Rightarrow> Inl e
     | Inr (DataLeaf _) \<Rightarrow> Inl (NdbIo (InvalidInternalBlockLevel 0))
     | Inr (DataIntermediate child) \<Rightarrow>
       if dh_level (dt_header child) \<noteq> 1
       then Inl (NdbIo (InvalidInternalBlockLevel (dh_level (dt_header child)))) else
       (case collect (leaf_lookup loc) (dt_entries child) of Inl e \<Rightarrow> Inl e
        | Inr leaves \<Rightarrow>
          let total = sum_list (map (\<lambda>l. unat (bs_size S l)) leaves) in
          if unat (dh_total_size (dt_header child)) \<noteq> total
          then Inl (NdbIo (DataTreeSizeMismatch (unat (dh_total_size (dt_header child))) total))
          else Inr leaves))))"

definition item_leaves ::
  "('a::len word, 'e, 'c) block_source \<Rightarrow> ('a word \<Rightarrow> io_error + 'e) \<Rightarrow> 'a word pending \<Rightarrow> io_error + 'e list" where
  "item_leaves S loc item = (case item of (block_id, level, _) \<Rightarrow>
     if level = 1 then (case leaf_lookup loc block_id of Inl e \<Rightarrow> Inl e | Inr l \<Rightarrow> Inr [l])
     else if level = 2 then child_leaves S loc block_id
     else Inl (NdbIo (InvalidInternalBlockLevel level)))"

definition data_tree_leaves ::
  "('a::len word, 'e, 'c) block_source \<Rightarrow> ('a word \<Rightarrow> io_error + 'e) \<Rightarrow> 'a word data_tree \<Rightarrow> io_error + 'e list" where
  "data_tree_leaves S loc t = (case t of DataLeaf _ \<Rightarrow> Inr []
     | DataIntermediate b \<Rightarrow>
       (case collect (item_leaves S loc)
          (map (\<lambda>entry. (entry, dh_level (dt_header b), 1)) (dt_entries b)) of
          Inl e \<Rightarrow> Inl e | Inr lss \<Rightarrow> Inr (concat lss)))"

definition leaf_block :: "('a::len word, 'e, 'c) block_source \<Rightarrow> 'e \<Rightarrow> io_error + 'a word data_block" where
  "leaf_block S entry = (case read_entry_tree S entry of Inl e \<Rightarrow> Inl e
     | Inr (DataIntermediate _) \<Rightarrow> Inl (NdbIo (InvalidInternalBlockLevel 0))
     | Inr (DataLeaf b) \<Rightarrow> Inr b)"

text \<open>The data blocks of a tree, which together have the size that the tree declares.\<close>

definition tree_content ::
  "('a::len word, 'e, 'c) block_source \<Rightarrow> ('a word \<Rightarrow> io_error + 'e) \<Rightarrow> 'a word data_tree
    \<Rightarrow> 'a word data_block list \<Rightarrow> bool" where
  "tree_content S loc t bs \<longleftrightarrow> (case t of DataLeaf b \<Rightarrow> bs = [b]
     | DataIntermediate _ \<Rightarrow>
       \<exists>es. data_tree_leaves S loc t = Inr es \<and> collect (leaf_block S) es = Inr bs) \<and>
     length (concat (map db_data bs)) = declared_size t"

text \<open>What the budget lets through: the entries of the root and, below an \<open>XXBLOCK\<close>, those of
  its children, which have to be different blocks.\<close>

definition within_budget :: "nat \<Rightarrow> 'a::len word data_tree \<Rightarrow> 'e list \<Rightarrow> bool" where
  "within_budget max_entries t leaves = (case t of DataLeaf _ \<Rightarrow> True
     | DataIntermediate b \<Rightarrow>
       if dh_level (dt_header b) = 1 then length (dt_entries b) \<le> max_entries
       else length (dt_entries b) + length leaves \<le> max_entries \<and>
         distinct (map (\<lambda>e. ucast e :: u64) (dt_entries b)))"

text \<open>A tree whose blocks are all there and within the budget, whatever size it declares.\<close>

definition readable ::
  "('a::len word, 'e, 'c) block_source \<Rightarrow> ('a word \<Rightarrow> io_error + 'e) \<Rightarrow> nat \<Rightarrow> 'a word data_tree
    \<Rightarrow> 'a word data_block list \<Rightarrow> bool" where
  "readable S loc max_entries t bs \<longleftrightarrow> (case t of DataLeaf b \<Rightarrow> bs = [b]
     | DataIntermediate _ \<Rightarrow> \<exists>es. data_tree_leaves S loc t = Inr es \<and>
         within_budget max_entries t es \<and> collect (leaf_block S) es = Inr bs)"

text \<open>A one-block tree in a file, for concrete instances.\<close>

definition sample_block_entry :: unicode_block_entry where
  "sample_block_entry = unicode_block_entry_new sample_block_ref 5"

definition sample_block_page :: "(unicode_block_entry, u64) btree_root" where
  "sample_block_page =
    Leaf (btree_page_make 0 20 24 [sample_block_entry] (page_trailer_new BlockBTree 0 5 0))"

definition sample_tree :: "u64 data_tree" where
  "sample_tree = DataIntermediate \<lparr>dt_header = \<lparr>dh_level = 1, dh_entry_count = 1, dh_total_size = 5\<rparr>,
     dt_entries = [4], dt_trailer = \<lparr>bt_size = 16, bt_signature = 0, bt_crc = 0, bt_block_id = 10\<rparr>\<rparr>"

definition sample_file :: bytes where
  "sample_file = (case data_tree_write unicode_format sample_leaf_block [] sample_block_ref of
     Inl _ \<Rightarrow> [] | Inr f \<Rightarrow> f)"

definition sample_read_block :: "u64 data_block" where
  "sample_read_block = \<lparr>db_encoding = Permute, db_data = [1, 2, 3, 4, 5],
     db_trailer = sealed_trailer (permute_encode_block [1, 2, 3, 4, 5])
       \<lparr>bt_size = 0, bt_signature = 0, bt_crc = 0, bt_block_id = 4\<rparr>\<rparr>"

definition block_cache_agrees ::
  "('a::len word, 'e, 'c) block_source \<Rightarrow> ('a word \<Rightarrow> io_error + 'e) \<Rightarrow> 'a word block_cache \<Rightarrow> bool" where
  "block_cache_agrees S loc bc \<longleftrightarrow> (\<forall>block_id t. bc block_id = Some t \<longrightarrow>
     (\<exists>entry. loc (block_id_search_key block_id) = Inr entry \<and> read_entry_tree S entry = Inr t))"

definition inner_items :: "'a::len word pending list \<Rightarrow> u64 list" where
  "inner_items pending = map (\<lambda>(block_id, _). ucast block_id) (filter (\<lambda>(_, level, _). level \<noteq> 1) pending)"

definition inner_cost :: "'a::len word pending list \<Rightarrow> 'e list list \<Rightarrow> nat" where
  "inner_cost pending lss =
    sum_list (map (\<lambda>((_, level, _), ls). if level = 1 then 0 else length ls) (zip pending lss))"

section \<open>The worklist computes the leaves\<close>

lemma collect_Inr: "collect f xs = Inr ys \<longleftrightarrow> list_all2 (\<lambda>x y. f x = Inr y) xs ys"
proof (induction xs arbitrary: ys)
  case (Cons x xs)
  show ?case by (auto simp: Cons.IH [symmetric] list_all2_Cons1 split: sum.splits)
qed auto

lemma validate_kind_1 [simp]:
  "validate_data_tree_child_kind 1 internal =
    (if internal then Inl (InvalidInternalBlockLevel 1) else Inr ())"
  by (simp add: validate_data_tree_child_kind_def)

lemma checked_add_usize_Some:
  "checked_add_usize a b = Some c \<longleftrightarrow> c = a + b \<and> a + b \<le> usize_max"
  by (auto simp: checked_add_usize_def)

locale block_lookup =
  fixes S :: "('a::len word, 'e, 'c) block_source"
    and inv :: "'c \<Rightarrow> bool"
    and loc :: "'a word \<Rightarrow> io_error + 'e"
  assumes find: "inv pc \<Longrightarrow> \<exists>pc'. bs_find S k pc = (loc k, pc') \<and> inv pc'"
    and loc_key: "loc k = Inr e \<Longrightarrow> block_id_search_key (ref_block (bs_ref S e)) = k"
begin

lemma load_data_tree_spec:
  assumes "inv pc" "block_cache_agrees S loc bc"
  shows "\<exists>res pc' bc'. load_data_tree S block_id pc bc = (res, pc', bc') \<and> inv pc' \<and>
    block_cache_agrees S loc bc' \<and>
    (\<forall>t. res = Inr t \<longleftrightarrow> (\<exists>entry. loc (block_id_search_key block_id) = Inr entry \<and>
       read_entry_tree S entry = Inr t))"
proof (cases "bc block_id")
  case (Some t)
  then obtain entry where "loc (block_id_search_key block_id) = Inr entry" "read_entry_tree S entry = Inr t"
    using assms(2) by (auto simp: block_cache_agrees_def)
  then show ?thesis using Some assms by (simp add: load_data_tree_def block_cache_agrees_def)
next
  case None
  obtain pc' where "bs_find S (block_id_search_key block_id) pc = (loc (block_id_search_key block_id), pc')"
    "inv pc'" using find [OF assms(1)] by blast
  then show ?thesis
    using None assms by (cases "loc (block_id_search_key block_id)") (auto simp: load_data_tree_def)
qed

lemma child_total_loop_spec:
  assumes "inv pc" "acc \<le> usize_max"
  shows "\<exists>res pc'. child_total_loop S 1 es acc pc = (res, pc') \<and> inv pc' \<and>
    (\<forall>n. res = Inr n \<longleftrightarrow> (\<exists>ls. collect (leaf_lookup loc) es = Inr ls \<and>
       n = acc + sum_list (map (\<lambda>l. unat (bs_size S l)) ls) \<and> n \<le> usize_max))"
  using assms
proof (induction es arbitrary: acc pc)
  case (Cons e es)
  show ?case
  proof (cases "leaf_lookup loc e")
    case (Inl err)
    obtain pc' where "bs_find S (block_id_search_key e) pc = (loc (block_id_search_key e), pc')" "inv pc'"
      using find [OF Cons.prems(1)] by blast
    then show ?thesis using Inl Cons.prems(1)
      by (auto simp: leaf_lookup_def split: if_splits)
  next
    case (Inr l)
    then have l: "\<not> block_id_is_internal e" "loc (block_id_search_key e) = Inr l"
      by (auto simp: leaf_lookup_def split: if_splits)
    obtain pc' where f: "bs_find S (block_id_search_key e) pc = (Inr l, pc')" "inv pc'"
      using find [OF Cons.prems(1)] l(2) by metis
    show ?thesis
    proof (cases "acc + unat (bs_size S l) \<le> usize_max")
      case True
      have c: "child_total_loop S 1 (e # es) acc pc =
          child_total_loop S 1 es (acc + unat (bs_size S l)) pc'"
        using l f True by (simp add: checked_add_usize_def)
      show ?thesis
        unfolding c using Cons.IH [OF f(2) True] Inr
        by (cases "collect (leaf_lookup loc) es") (auto simp: add.assoc)
    next
      case False
      then show ?thesis
        using l f Inr
        by (cases "collect (leaf_lookup loc) es") (auto simp: checked_add_usize_def)
    qed
  qed
qed auto

lemma check_child_spec:
  assumes "inv pc" "depth \<le> MAX_DATA_TREE_DEPTH" "tb_max_entries budget \<le> usize_max"
  shows "\<exists>res pc'. check_child S 2 child depth budget pc = (res, pc') \<and> inv pc' \<and>
    (\<forall>b. res = Inr b \<longleftrightarrow> dh_level (dt_header child) = 1 \<and>
       (\<exists>ls. collect (leaf_lookup loc) (dt_entries child) = Inr ls \<and>
         unat (dh_total_size (dt_header child)) = sum_list (map (\<lambda>l. unat (bs_size S l)) ls)) \<and>
       tb_visited_entries budget + length (dt_entries child) \<le> tb_max_entries budget \<and>
       b = budget\<lparr>tb_visited_entries := tb_visited_entries budget + length (dt_entries child)\<rparr>)"
proof (cases "dh_level (dt_header child) = 1")
  case False
  then show ?thesis
    using assms(1) by (simp add: check_child_def validate_data_tree_child_level_def)
next
  case True
  let ?observe = "tb_observe_tree depth (length (dt_entries child)) budget"
  have obs: "?observe = Inr b \<longleftrightarrow>
      tb_visited_entries budget + length (dt_entries child) \<le> tb_max_entries budget \<and>
      b = budget\<lparr>tb_visited_entries := tb_visited_entries budget + length (dt_entries child)\<rparr>" for b
    using assms(2,3) by (auto simp: tb_observe_tree_def checked_add_usize_def)
  have small: "unat (dh_total_size (dt_header child)) \<le> usize_max"
    using unat_word_bound [of "dh_total_size (dt_header child)"] by (simp add: usize_max_def)
  obtain res pc' where r: "child_total_loop S 1 (dt_entries child) 0 pc = (res, pc')" "inv pc'"
    "\<And>n. res = Inr n \<longleftrightarrow> (\<exists>ls. collect (leaf_lookup loc) (dt_entries child) = Inr ls \<and>
       n = 0 + sum_list (map (\<lambda>l. unat (bs_size S l)) ls) \<and> n \<le> usize_max)"
    using child_total_loop_spec [OF assms(1), of 0 "dt_entries child"] by auto
  show ?thesis
  proof (cases res)
    case (Inl e)
    then have "\<nexists>ls. collect (leaf_lookup loc) (dt_entries child) = Inr ls \<and>
        unat (dh_total_size (dt_header child)) = sum_list (map (\<lambda>l. unat (bs_size S l)) ls)"
      using r(3) [of "unat (dh_total_size (dt_header child))"] small by auto
    then show ?thesis
      using True r(1,2) Inl by (auto simp: check_child_def validate_data_tree_child_level_def)
  next
    case (Inr n)
    then obtain ls where "collect (leaf_lookup loc) (dt_entries child) = Inr ls"
      "n = sum_list (map (\<lambda>l. unat (bs_size S l)) ls)"
      using r(3) [of n] by auto
    then show ?thesis
      using True r(1,2) Inr obs
      by (auto simp: check_child_def validate_data_tree_child_level_def validate_data_tree_total_def)
  qed
qed

text \<open>One inner item: what descending into a child of an \<open>XXBLOCK\<close> needs and gives.\<close>

lemma item_leaves_inner:
  "item_leaves S loc (block_id, 2, depth) = Inr ls \<longleftrightarrow> block_id_is_internal block_id \<and>
    (\<exists>entry child. loc (block_id_search_key block_id) = Inr entry \<and>
      read_entry_tree S entry = Inr (DataIntermediate child) \<and> dh_level (dt_header child) = 1 \<and>
      collect (leaf_lookup loc) (dt_entries child) = Inr ls \<and>
      unat (dh_total_size (dt_header child)) = sum_list (map (\<lambda>l. unat (bs_size S l)) ls))"
  by (auto simp: item_leaves_def child_leaves_def Let_def
      split: sum.splits data_tree.splits if_splits)

lemma collect_leaf_items:
  "collect (item_leaves S loc) (map (\<lambda>e. (e, 1, d)) es @ pending) = Inr lss \<longleftrightarrow>
    (\<exists>ls lss'. collect (leaf_lookup loc) es = Inr ls \<and>
      collect (item_leaves S loc) pending = Inr lss' \<and> lss = map (\<lambda>l. [l]) ls @ lss')"
proof (induction es arbitrary: lss)
  case (Cons e es)
  show ?case
  proof (cases "leaf_lookup loc e")
    case (Inr l)
    then have "collect (item_leaves S loc) (map (\<lambda>e. (e, 1, d)) (e # es) @ pending) = Inr lss \<longleftrightarrow>
        (\<exists>lss0. lss = [l] # lss0 \<and>
          collect (item_leaves S loc) (map (\<lambda>e. (e, 1, d)) es @ pending) = Inr lss0)"
      by (auto simp: item_leaves_def split: sum.splits)
    then show ?thesis
      using Inr unfolding Cons.IH
      by (cases "collect (leaf_lookup loc) es"; cases "collect (item_leaves S loc) pending") auto
  qed (simp add: item_leaves_def)
qed auto

definition loop_result ::
  "traversal_budget \<Rightarrow> 'a word pending list \<Rightarrow> 'e list \<Rightarrow> 'e list \<Rightarrow> bool" where
  "loop_result budget pending blocks out \<longleftrightarrow>
    (\<exists>lss. collect (item_leaves S loc) pending = Inr lss \<and> out = blocks @ concat lss \<and>
      tb_visited_entries budget + inner_cost pending lss \<le> tb_max_entries budget \<and>
      distinct (inner_items pending) \<and>
      set (inner_items pending) \<inter> tb_visited_blocks budget = {})"

lemma loop_result_leaf:
  "loop_result budget ((block_id, 1, depth) # pending) blocks out \<longleftrightarrow>
    (\<exists>l. leaf_lookup loc block_id = Inr l \<and> loop_result budget pending (blocks @ [l]) out)"
  by (cases "leaf_lookup loc block_id"; cases "collect (item_leaves S loc) pending")
    (auto simp: loop_result_def item_leaves_def inner_cost_def inner_items_def)

lemma inner_leaf_items:
  "inner_items (map (\<lambda>e. (e, 1, d)) es @ pending) = inner_items pending"
  "length ls = length es \<Longrightarrow>
    inner_cost (map (\<lambda>e. (e, 1, d)) es @ pending) (map (\<lambda>l. [l]) ls @ lss) = inner_cost pending lss"
proof -
  have f: "filter (\<lambda>(_, level, _). level \<noteq> 1) (map (\<lambda>e. (e, 1, d)) es) = []" by (induction es) auto
  then show "inner_items (map (\<lambda>e. (e, 1, d)) es @ pending) = inner_items pending"
    by (simp add: inner_items_def)
  have "sum_list (map (\<lambda>((_, level, _), ls). if level = 1 then 0 else length ls)
      (zip (map (\<lambda>e. (e, 1 :: u8, d)) es) (map (\<lambda>l. [l]) ls))) = 0"
    by (induction es ls rule: list_induct2') auto
  then show "length ls = length es \<Longrightarrow>
    inner_cost (map (\<lambda>e. (e, 1, d)) es @ pending) (map (\<lambda>l. [l]) ls @ lss) = inner_cost pending lss"
    by (simp add: inner_cost_def)
qed

lemma length_collect: "collect f xs = Inr ys \<Longrightarrow> length ys = length xs"
  by (auto simp: collect_Inr dest: list_all2_lengthD)

lemma loop_result_inner:
  "loop_result budget ((block_id, 2, depth) # pending) blocks out \<longleftrightarrow>
    block_id_is_internal block_id \<and> ucast block_id \<notin> tb_visited_blocks budget \<and>
    (\<exists>entry child ls. loc (block_id_search_key block_id) = Inr entry \<and>
      read_entry_tree S entry = Inr (DataIntermediate child) \<and> dh_level (dt_header child) = 1 \<and>
      collect (leaf_lookup loc) (dt_entries child) = Inr ls \<and>
      unat (dh_total_size (dt_header child)) = sum_list (map (\<lambda>l. unat (bs_size S l)) ls) \<and>
      tb_visited_entries budget + length (dt_entries child) \<le> tb_max_entries budget \<and>
      loop_result (budget\<lparr>tb_visited_blocks := insert (ucast block_id) (tb_visited_blocks budget),
          tb_visited_entries := tb_visited_entries budget + length (dt_entries child)\<rparr>)
        (map (\<lambda>e. (e, 1, depth + 1)) (dt_entries child) @ pending) blocks out)"
  (is "?lhs = ?rhs")
proof
  assume ?lhs
  then obtain ls lss where l: "item_leaves S loc (block_id, 2, depth) = Inr ls"
    "collect (item_leaves S loc) pending = Inr lss" "out = blocks @ ls @ concat lss"
    "tb_visited_entries budget + (length ls + inner_cost pending lss) \<le> tb_max_entries budget"
    "distinct (ucast block_id # inner_items pending)"
    "set (ucast block_id # inner_items pending) \<inter> tb_visited_blocks budget = {}"
    by (auto simp: loop_result_def inner_cost_def inner_items_def split: sum.splits)
  from l(1) obtain entry child where c: "block_id_is_internal block_id"
    "loc (block_id_search_key block_id) = Inr entry"
    "read_entry_tree S entry = Inr (DataIntermediate child)" "dh_level (dt_header child) = 1"
    "collect (leaf_lookup loc) (dt_entries child) = Inr ls"
    "unat (dh_total_size (dt_header child)) = sum_list (map (\<lambda>l. unat (bs_size S l)) ls)"
    unfolding item_leaves_inner by blast
  have len: "length ls = length (dt_entries child)" by (rule length_collect [OF c(5)])
  have "loop_result (budget\<lparr>tb_visited_blocks := insert (ucast block_id) (tb_visited_blocks budget),
          tb_visited_entries := tb_visited_entries budget + length (dt_entries child)\<rparr>)
        (map (\<lambda>e. (e, 1, depth + 1)) (dt_entries child) @ pending) blocks out"
    unfolding loop_result_def collect_leaf_items
    using l c(5) len by (intro exI [of _ "map (\<lambda>l. [l]) ls @ lss"])
      (auto simp: inner_leaf_items)
  then show ?rhs using c l(4,6) len by auto
next
  assume ?rhs
  then obtain entry child ls where c: "block_id_is_internal block_id"
    "ucast block_id \<notin> tb_visited_blocks budget"
    "loc (block_id_search_key block_id) = Inr entry"
    "read_entry_tree S entry = Inr (DataIntermediate child)" "dh_level (dt_header child) = 1"
    "collect (leaf_lookup loc) (dt_entries child) = Inr ls"
    "unat (dh_total_size (dt_header child)) = sum_list (map (\<lambda>l. unat (bs_size S l)) ls)"
    and r: "loop_result (budget\<lparr>tb_visited_blocks := insert (ucast block_id) (tb_visited_blocks budget),
          tb_visited_entries := tb_visited_entries budget + length (dt_entries child)\<rparr>)
        (map (\<lambda>e. (e, 1, depth + 1)) (dt_entries child) @ pending) blocks out"
    by blast
  have len: "length ls = length (dt_entries child)" by (rule length_collect [OF c(6)])
  have i: "item_leaves S loc (block_id, 2, depth) = Inr ls"
    unfolding item_leaves_inner using c by blast
  show ?lhs
    using r i c(2,6) len unfolding loop_result_def collect_leaf_items
    by (auto simp: inner_leaf_items inner_cost_def inner_items_def)
qed

lemma sub_entries_inner_step:
  assumes "inv pc" "block_cache_agrees S loc bc" "tb_max_entries budget \<le> usize_max"
    and "depth \<le> MAX_DATA_TREE_DEPTH" "block_id_is_internal block_id"
    and IH: "\<And>(budget' :: traversal_budget) (child :: 'a word data_tree_block) pc' bc'. inv pc' \<Longrightarrow> block_cache_agrees S loc bc' \<Longrightarrow>
      tb_max_entries budget' = tb_max_entries budget \<Longrightarrow>
      tb_visited_entries budget' \<le> tb_max_entries budget' \<Longrightarrow>
      \<exists>res pc'' bc''. sub_entries_loop S budget'
          (map (\<lambda>e. (e, 1, depth + 1)) (dt_entries child) @ pending) blocks pc' bc' = (res, pc'', bc'') \<and>
        inv pc'' \<and> block_cache_agrees S loc bc'' \<and>
        (\<forall>out. res = Inr out \<longleftrightarrow>
          loop_result budget' (map (\<lambda>e. (e, 1, depth + 1)) (dt_entries child) @ pending) blocks out)"
  shows "\<exists>res pc' bc'. sub_entries_loop S budget ((block_id, 2, depth) # pending) blocks pc bc =
      (res, pc', bc') \<and> inv pc' \<and> block_cache_agrees S loc bc' \<and>
    (\<forall>out. res = Inr out \<longleftrightarrow> loop_result budget ((block_id, 2, depth) # pending) blocks out)"
proof (cases "ucast block_id \<in> tb_visited_blocks budget")
  case True
  then show ?thesis using assms(1,2,5)
    by (simp add: validate_data_tree_child_kind_def tb_descend_to_def loop_result_inner)
next
  case False
  define budget1 where
    "budget1 = budget\<lparr>tb_visited_blocks := insert (ucast block_id) (tb_visited_blocks budget)\<rparr>"
  have max1: "tb_max_entries budget1 \<le> usize_max" using assms(3) by (simp add: budget1_def)
  have start: "validate_data_tree_child_kind 2 (block_id_is_internal block_id) = Inr ()"
    "tb_descend_to (ucast block_id) budget = Inr budget1"
    using assms(5) False
    by (simp_all add: validate_data_tree_child_kind_def tb_descend_to_def budget1_def)
  obtain loaded pc1 bc1 where load: "load_data_tree S block_id pc bc = (loaded, pc1, bc1)"
    "inv pc1" "block_cache_agrees S loc bc1"
    and loaded: "\<forall>t. loaded = Inr t \<longleftrightarrow> (\<exists>entry. loc (block_id_search_key block_id) = Inr entry \<and>
       read_entry_tree S entry = Inr t)"
    using load_data_tree_spec [OF assms(1,2), of block_id] by (elim exE conjE)
  show ?thesis
  proof (cases "\<exists>child. loaded = Inr (DataIntermediate child)")
    case False
    then have "\<not> loop_result budget ((block_id, 2, depth) # pending) blocks out" for out
      using loaded by (auto simp: loop_result_inner)
    then show ?thesis
      using False load start
      by (cases loaded; simp) (auto split: data_tree.splits)
  next
    case True
    then obtain child where child: "loaded = Inr (DataIntermediate child)" by blast
    then obtain entry where entry: "loc (block_id_search_key block_id) = Inr entry"
      "read_entry_tree S entry = Inr (DataIntermediate child)" using loaded by blast
    have cache: "block_cache_agrees S loc (bc1(block_id \<mapsto> DataIntermediate child))"
      using load(3) entry by (auto simp: block_cache_agrees_def)
    obtain checked pc2 where check: "check_child S 2 child depth budget1 pc1 = (checked, pc2)" "inv pc2"
      and checked: "\<forall>b. checked = Inr b \<longleftrightarrow> dh_level (dt_header child) = 1 \<and>
       (\<exists>ls. collect (leaf_lookup loc) (dt_entries child) = Inr ls \<and>
         unat (dh_total_size (dt_header child)) = sum_list (map (\<lambda>l. unat (bs_size S l)) ls)) \<and>
       tb_visited_entries budget1 + length (dt_entries child) \<le> tb_max_entries budget1 \<and>
       b = budget1\<lparr>tb_visited_entries := tb_visited_entries budget1 + length (dt_entries child)\<rparr>"
      using check_child_spec [OF load(2) assms(4) max1, of child] by (elim exE conjE)
    show ?thesis
    proof (cases checked)
      case (Inl e)
      then have "\<not> loop_result budget ((block_id, 2, depth) # pending) blocks out" for out
        using checked entry by (auto simp: loop_result_inner budget1_def)
      then show ?thesis using Inl load start child check by simp
    next
      case (Inr budget2)
      note b2 = checked [rule_format, of budget2, unfolded Inr, simplified]
      have step: "sub_entries_loop S budget ((block_id, 2, depth) # pending) blocks pc bc =
          sub_entries_loop S budget2 (map (\<lambda>e. (e, 1, depth + 1)) (dt_entries child) @ pending)
            blocks pc2 (bc1(block_id \<mapsto> DataIntermediate child))"
        using Inr load start child check by simp
      have res: "loop_result budget ((block_id, 2, depth) # pending) blocks out \<longleftrightarrow>
          loop_result budget2 (map (\<lambda>e. (e, 1, depth + 1)) (dt_entries child) @ pending) blocks out" for out
        using b2 entry False assms(5) by (auto simp: loop_result_inner budget1_def)
      have "tb_max_entries budget2 = tb_max_entries budget"
        "tb_visited_entries budget2 \<le> tb_max_entries budget2"
        using b2 by (simp_all add: budget1_def)
      then show ?thesis
        unfolding step res using IH [OF check(2) cache, of budget2 child] by blast
    qed
  qed
qed

lemma sub_entries_loop_spec:
  assumes "inv pc" "block_cache_agrees S loc bc" "tb_max_entries budget \<le> usize_max"
    and "tb_visited_entries budget \<le> tb_max_entries budget"
    and "\<forall>(_, level, depth)\<in>set pending. level \<noteq> 1 \<longrightarrow> depth \<le> MAX_DATA_TREE_DEPTH"
  shows "\<exists>res pc' bc'. sub_entries_loop S budget pending blocks pc bc = (res, pc', bc') \<and>
    inv pc' \<and> block_cache_agrees S loc bc' \<and>
    (\<forall>out. res = Inr out \<longleftrightarrow> loop_result budget pending blocks out)"
  using assms
proof (induction pending arbitrary: budget blocks pc bc
    rule: wf_induct_rule [OF wf_measures [of "[\<lambda>p. length (filter (\<lambda>(_, level, _). level \<noteq> 1) p), length]"]])
  case (1 pending)
  note IH = "1.IH" and prems = "1.prems"
  show ?case
  proof (cases pending)
    case Nil
    then show ?thesis using prems
      by (auto simp: loop_result_def inner_cost_def inner_items_def)
  next
    case (Cons item rest)
    obtain block_id level depth where item: "item = (block_id, level, depth)" by (cases item)
    show ?thesis
    proof (cases "validate_data_tree_child_kind level (block_id_is_internal block_id)")
      case (Inl e)
      then have "item_leaves S loc item = Inr ls \<longleftrightarrow> False" for ls
        unfolding item by (cases "level = 2")
          (auto simp: item_leaves_inner, auto simp: item_leaves_def leaf_lookup_def
            validate_data_tree_child_kind_def split: if_splits)
      then have "\<not> loop_result budget pending blocks out" for out
        by (auto simp: loop_result_def Cons split: sum.splits)
      then show ?thesis using Inl prems(1,2) by (simp add: Cons item)
    next
      case (Inr u)
      note kind = this
      consider (leaf) "level = 1" "\<not> block_id_is_internal block_id"
        | (inner) "level = 2" "block_id_is_internal block_id"
        using Inr by (auto simp: validate_data_tree_child_kind_def split: if_splits)
      then show ?thesis
      proof cases
        case leaf
        obtain pc' where f: "bs_find S (block_id_search_key block_id) pc =
            (leaf_lookup loc block_id, pc')" "inv pc'"
          using find [OF prems(1)] leaf(2) by (auto simp: leaf_lookup_def)
        show ?thesis
        proof (cases "leaf_lookup loc block_id")
          case (Inl e)
          then show ?thesis using f prems leaf
            by (auto simp: Cons item loop_result_leaf)
        next
          case (Inr l)
          have step: "sub_entries_loop S budget pending blocks pc bc =
              sub_entries_loop S budget rest (blocks @ [l]) pc' bc"
            using f Inr leaf by (simp add: Cons item)
          have "(rest, pending) \<in> measures
              [\<lambda>p. length (filter (\<lambda>(_, level, _). level \<noteq> 1) p), length]"
            using leaf by (simp add: Cons item)
          from IH [OF this f(2) prems(2-4)] show ?thesis
            unfolding step using prems(5) Inr leaf by (simp add: Cons item loop_result_leaf)
        qed
      next
        case inner
        have depth: "depth \<le> MAX_DATA_TREE_DEPTH" using prems(5) inner by (simp add: Cons item)
        have smaller: "(map (\<lambda>e. (e, 1, depth + 1)) (dt_entries child) @ rest, pending) \<in> measures
            [\<lambda>p. length (filter (\<lambda>(_, level, _). level \<noteq> 1) p), length]"
          for child :: "'a word data_tree_block"
          using inner by (simp add: Cons item filter_map comp_def)
        show ?thesis
          unfolding Cons item inner(1)
          by (rule sub_entries_inner_step [OF prems(1-3) depth inner(2)], rule IH [OF smaller])
            (use prems(3,5) in \<open>auto simp: Cons\<close>)
      qed
    qed
  qed
qed

lemma root_items:
  "inner_items (map (\<lambda>e. (e, level, d)) es) = (if level = 1 then [] else map (\<lambda>e. ucast e) es)"
  "length lss = length es \<Longrightarrow>
    inner_cost (map (\<lambda>e. (e, level, d)) es) lss = (if level = 1 then 0 else length (concat lss))"
proof -
  show "inner_items (map (\<lambda>e. (e, level, d)) es) = (if level = 1 then [] else map (\<lambda>e. ucast e) es)"
    by (induction es) (simp_all add: inner_items_def)
  show "length lss = length es \<Longrightarrow>
    inner_cost (map (\<lambda>e. (e, level, d)) es) lss = (if level = 1 then 0 else length (concat lss))"
    by (induction lss es rule: list_induct2) (simp_all add: inner_cost_def)
qed

lemma sub_entries_correct:
  assumes "inv pc" "block_cache_agrees S loc bc" "max_entries \<le> usize_max"
  shows "\<exists>res pc' bc'. sub_entries S t max_entries pc bc = (res, pc', bc') \<and>
    inv pc' \<and> block_cache_agrees S loc bc' \<and>
    (\<forall>out. res = Inr out \<longleftrightarrow> data_tree_leaves S loc t = Inr out \<and> within_budget max_entries t out)"
proof (cases t)
  case (DataLeaf b)
  then show ?thesis using assms
    by (auto simp: sub_entries_def data_tree_leaves_def within_budget_def)
next
  case (DataIntermediate b)
  let ?es = "dt_entries b" and ?level = "dh_level (dt_header b)"
  let ?pending = "map (\<lambda>e. (e, ?level, 1)) ?es"
  show ?thesis
  proof (cases "length ?es \<le> max_entries")
    case False
    then show ?thesis using assms DataIntermediate
      by (auto simp: sub_entries_def tb_observe_tree_def traversal_budget_new_def
          checked_add_usize_def within_budget_def)
  next
    case True
    define budget where "budget = (traversal_budget_new max_entries)\<lparr>tb_visited_entries := length ?es\<rparr>"
    have b: "tb_observe_tree 0 (length ?es) (traversal_budget_new max_entries) = Inr budget"
      using True assms(3) by (simp add: tb_observe_tree_def traversal_budget_new_def
          checked_add_usize_def budget_def)
    have "\<exists>res pc' bc'. sub_entries_loop S budget ?pending [] pc bc = (res, pc', bc') \<and>
        inv pc' \<and> block_cache_agrees S loc bc' \<and>
        (\<forall>out. res = Inr out \<longleftrightarrow> loop_result budget ?pending [] out)"
      using assms True by (intro sub_entries_loop_spec)
        (auto simp: budget_def traversal_budget_new_def MAX_DATA_TREE_DEPTH_def)
    moreover have "loop_result budget ?pending [] out \<longleftrightarrow>
        data_tree_leaves S loc t = Inr out \<and> within_budget max_entries t out" for out
      using True DataIntermediate length_collect [of "item_leaves S loc" ?pending]
      by (cases "collect (item_leaves S loc) ?pending")
        (auto simp: loop_result_def data_tree_leaves_def within_budget_def root_items
          budget_def traversal_budget_new_def)
    ultimately show ?thesis using b DataIntermediate by (simp add: sub_entries_def)
  qed
qed

lemma leaf_lookup_located:
  assumes "leaf_lookup loc x = Inr e"
  shows "loc (block_id_search_key (ref_block (bs_ref S e))) = Inr e"
proof -
  have "loc (block_id_search_key x) = Inr e"
    using assms by (simp add: leaf_lookup_def split: if_splits)
  moreover from loc_key [OF this] have "block_id_search_key (ref_block (bs_ref S e)) = block_id_search_key x" .
  ultimately show ?thesis by simp
qed

lemma collect_located:
  "collect (leaf_lookup loc) es = Inr ls \<Longrightarrow> e \<in> set ls \<Longrightarrow>
    loc (block_id_search_key (ref_block (bs_ref S e))) = Inr e"
proof (induction es arbitrary: ls)
  case (Cons x xs)
  then show ?case
    by (auto dest: leaf_lookup_located split: sum.splits)
qed simp

lemma data_tree_leaves_located:
  assumes "data_tree_leaves S loc t = Inr out" "e \<in> set out"
  shows "loc (block_id_search_key (ref_block (bs_ref S e))) = Inr e"
proof (cases t)
  case (DataIntermediate b)
  then obtain lss ls where c: "collect (item_leaves S loc)
      (map (\<lambda>entry. (entry, dh_level (dt_header b), 1)) (dt_entries b)) = Inr lss" "ls \<in> set lss" "e \<in> set ls"
    using assms by (auto simp: data_tree_leaves_def split: sum.splits)
  then obtain block_id where i: "item_leaves S loc (block_id, dh_level (dt_header b), 1) = Inr ls"
    by (auto simp: collect_Inr list_all2_map1 list_all2_conv_all_nth in_set_conv_nth)
  then consider "dh_level (dt_header b) = 1" | "dh_level (dt_header b) = 2"
    by (auto simp: item_leaves_def split: if_splits)
  then show ?thesis
  proof cases
    case 1
    then show ?thesis using i c(3)
      by (auto simp: item_leaves_def dest: leaf_lookup_located split: sum.splits)
  next
    case 2
    then show ?thesis using i [unfolded 2 item_leaves_inner] c(3) collect_located by blast
  qed
qed (use assms in \<open>simp add: data_tree_leaves_def\<close>)

lemma leaf_block_Inr:
  "leaf_block S e = Inr b \<longleftrightarrow> read_entry_tree S e = Inr (DataLeaf b)"
  by (auto simp: leaf_block_def split: sum.splits data_tree.splits)

lemma observe_Inr:
  "observe_materialized_data_tree_bytes declared m n = Inr a \<Longrightarrow> a = m + n \<and> a \<le> declared"
  by (auto simp: observe_materialized_data_tree_bytes_def checked_add_usize_def split: if_splits)

lemma blocks_loop_spec:
  assumes "block_cache_agrees S loc bc" "declared \<le> MAX_MATERIALIZED_DATA_TREE_BYTES" "m \<le> declared"
    and "\<forall>e\<in>set es. loc (block_id_search_key (ref_block (bs_ref S e))) = Inr e"
  shows "\<exists>res bc'. blocks_loop S declared es m acc bc = (res, bc') \<and> block_cache_agrees S loc bc' \<and>
    (\<forall>out. res = Inr out \<longleftrightarrow> (\<exists>bs. collect (leaf_block S) es = Inr bs \<and>
      out = (m + length (concat (map db_data bs)), acc @ bs) \<and> fst out \<le> declared))"
  using assms
proof (induction es arbitrary: m acc bc)
  case (Cons e es)
  let ?id = "ref_block (bs_ref S e)"
  have e: "loc (block_id_search_key ?id) = Inr e" using Cons.prems(4) by simp
  obtain bc1 where l: "(case bc ?id of Some t \<Rightarrow> (Inr t, bc(?id := None))
      | None \<Rightarrow> (read_entry_tree S e, bc)) = (read_entry_tree S e, bc1)"
    "block_cache_agrees S loc bc1"
  proof (cases "bc ?id")
    case (Some t)
    then have "read_entry_tree S e = Inr t"
      using Cons.prems(1) e unfolding block_cache_agrees_def by (metis sum.inject(2))
    then show ?thesis using that [of "bc(?id := None)"] Some Cons.prems(1)
      by (simp add: block_cache_agrees_def)
  qed (use that Cons.prems(1) in auto)
  show ?case
  proof (cases "leaf_block S e")
    case (Inl err)
    then have "\<nexists>b. read_entry_tree S e = Inr (DataLeaf b)"
      by (metis leaf_block_Inr sum.distinct(1))
    then show ?thesis using Inl l
      by (cases "read_entry_tree S e"; simp) (auto split: data_tree.splits)
  next
    case (Inr b)
    then have b: "read_entry_tree S e = Inr (DataLeaf b)" by (simp add: leaf_block_Inr)
    define bc2 where "bc2 = bc1(?id \<mapsto> DataLeaf b)"
    have cache: "block_cache_agrees S loc bc2"
      using l(2) e b by (auto simp: block_cache_agrees_def bc2_def)
    show ?thesis
    proof (cases "m + length (db_data b) \<le> declared")
      case True
      then have o: "observe_materialized_data_tree_bytes declared m (length (db_data b)) =
          Inr (m + length (db_data b))"
        using Cons.prems(2) by (simp add: observe_materialized_data_tree_bytes_def
            checked_add_usize_def MAX_MATERIALIZED_DATA_TREE_BYTES_def usize_max_def)
      have step: "blocks_loop S declared (e # es) m acc bc =
          blocks_loop S declared es (m + length (db_data b)) (acc @ [b]) bc2"
        using l b o by (simp add: Let_def bc2_def)
      show ?thesis
        unfolding step using Cons.IH [OF cache Cons.prems(2) True, of "acc @ [b]"] Cons.prems(4) Inr
        by (cases "collect (leaf_block S) es") (auto simp: add.assoc)
    next
      case False
      then obtain err where "observe_materialized_data_tree_bytes declared m (length (db_data b)) = Inl err"
        using observe_Inr by (cases "observe_materialized_data_tree_bytes declared m (length (db_data b))") fastforce+
      then show ?thesis
        using l b False Inr by (auto simp: Let_def split: sum.splits)
    qed
  qed
qed auto

lemma data_tree_blocks_correct:
  assumes "inv pc" "block_cache_agrees S loc bc"
  shows "\<exists>res pc' bc'. data_tree_blocks S t pc bc = (res, pc', bc') \<and>
    inv pc' \<and> block_cache_agrees S loc bc' \<and>
    (\<forall>out. res = Inr out \<longleftrightarrow> tree_content S loc t out \<and>
      (\<forall>b. t = DataIntermediate b \<longrightarrow> declared_size t \<le> MAX_MATERIALIZED_DATA_TREE_BYTES \<and>
        (\<forall>es. data_tree_leaves S loc t = Inr es \<longrightarrow> within_budget MAX_DATA_TREE_ENTRIES t es)))"
proof (cases t)
  case (DataLeaf b)
  then show ?thesis using assms
    by (auto simp: data_tree_blocks_def tree_content_def declared_size_def)
next
  case (DataIntermediate b)
  show ?thesis
  proof (cases "declared_size t \<le> MAX_MATERIALIZED_DATA_TREE_BYTES")
    case False
    then show ?thesis using assms DataIntermediate by (auto simp: data_tree_blocks_def)
  next
    case True
    obtain found pc1 bc1 where s: "sub_entries S t MAX_DATA_TREE_ENTRIES pc bc = (found, pc1, bc1)"
      "inv pc1" "block_cache_agrees S loc bc1"
      and found: "\<forall>out. found = Inr out \<longleftrightarrow> data_tree_leaves S loc t = Inr out \<and>
        within_budget MAX_DATA_TREE_ENTRIES t out"
      using sub_entries_correct [OF assms, of MAX_DATA_TREE_ENTRIES t]
      by (auto simp: MAX_DATA_TREE_ENTRIES_def usize_max_def)
    show ?thesis
    proof (cases found)
      case (Inl e)
      then show ?thesis using found s True DataIntermediate
        by (auto simp: data_tree_blocks_def tree_content_def Let_def)
    next
      case (Inr es)
      then have es: "data_tree_leaves S loc t = Inr es" "within_budget MAX_DATA_TREE_ENTRIES t es"
        using found by auto
      obtain res bc2 where r: "blocks_loop S (declared_size t) es 0 [] bc1 = (res, bc2)"
        "block_cache_agrees S loc bc2"
        and res: "\<forall>out. res = Inr out \<longleftrightarrow> (\<exists>bs. collect (leaf_block S) es = Inr bs \<and>
          out = (0 + length (concat (map db_data bs)), [] @ bs) \<and> fst out \<le> declared_size t)"
        using blocks_loop_spec [OF s(3) True, of 0 es "[]"] data_tree_leaves_located [OF es(1)] by auto
      consider (ok) bs where "collect (leaf_block S) es = Inr bs"
          "length (concat (map db_data bs)) \<le> declared_size t"
        | (bad) err where "res = Inl err"
          "\<forall>bs. collect (leaf_block S) es = Inr bs \<longrightarrow> \<not> length (concat (map db_data bs)) \<le> declared_size t"
      proof (cases res)
        case (Inl err)
        then show thesis using res that(2) [of err] by fastforce
      next
        case (Inr p)
        then show thesis using res [rule_format, of p] that(1) by auto
      qed
      then show ?thesis
      proof cases
        case ok
        then have "res = Inr (length (concat (map db_data bs)), bs)" using res by simp
        then show ?thesis using ok r s(1,2) es Inr True DataIntermediate
          by (auto simp: data_tree_blocks_def tree_content_def Let_def)
      next
        case bad
        then show ?thesis using r s(1,2) es Inr True DataIntermediate
          by (auto simp: data_tree_blocks_def tree_content_def Let_def)
      qed
    qed
  qed
qed

end

section \<open>The reader delivers the content\<close>

text \<open>
  What a reader has left to deliver, and a run of reads with given buffer sizes.
\<close>

definition reader_holds :: "('a::len word, 'e, 'c) block_source \<Rightarrow> 'e data_tree_reader \<Rightarrow> bytes \<Rightarrow> bool" where
  "reader_holds S r c \<longleftrightarrow> (\<exists>bs. collect (leaf_block S) (dr_next r) = Inr bs \<and>
     c = dr_current r @ concat (map db_data bs) \<and> (\<forall>b\<in>set bs. db_data b \<noteq> [])) \<and>
   dr_total_read r \<le> dr_expected_size r \<and> dr_expected_size r \<le> usize_max"

fun reader_run ::
  "('a::len word, 'e, 'c) block_source \<Rightarrow> nat list \<Rightarrow> 'e data_tree_reader
    \<Rightarrow> (io_error + bytes) \<times> 'e data_tree_reader" where
  "reader_run S [] r = (Inr [], r)"
| "reader_run S (n # ns) r = (case data_tree_reader_read S n r of (Inl e, r) \<Rightarrow> (Inl e, r)
     | (Inr out, r) \<Rightarrow> (case reader_run S ns r of (Inl e, r) \<Rightarrow> (Inl e, r)
       | (Inr outs, r) \<Rightarrow> (Inr (out @ outs), r)))"

lemma reader_fill_spec:
  assumes "collect (leaf_block S) next = Inr bs" "length out \<le> requested"
    and "length out < requested \<Longrightarrow> current = []" "\<forall>b\<in>set bs. db_data b \<noteq> []"
  shows "\<exists>out' cur' next' bs'. reader_fill S requested out current next = (Inr out', cur', next') \<and>
    collect (leaf_block S) next' = Inr bs' \<and> (\<forall>b\<in>set bs'. db_data b \<noteq> []) \<and>
    out' @ cur' @ concat (map db_data bs') = out @ current @ concat (map db_data bs) \<and>
    length out' = min requested (length (out @ current @ concat (map db_data bs)))"
  using assms
proof (induction "next" arbitrary: out current bs)
  case (Cons e es)
  obtain b bs0 where b: "leaf_block S e = Inr b" "collect (leaf_block S) es = Inr bs0" "bs = b # bs0"
    using Cons.prems(1) by (auto split: sum.splits)
  show ?case
  proof (cases "length out < requested")
    case True
    let ?k = "requested - length out"
    have step: "reader_fill S requested out current (e # es) =
        reader_fill S requested (out @ take ?k (db_data b)) (drop ?k (db_data b)) es"
      using True b(1) by (simp add: Let_def leaf_block_def split: sum.splits data_tree.splits)
    have "\<exists>out' cur' next' bs'. reader_fill S requested (out @ take ?k (db_data b)) (drop ?k (db_data b)) es =
        (Inr out', cur', next') \<and> collect (leaf_block S) next' = Inr bs' \<and> (\<forall>b\<in>set bs'. db_data b \<noteq> []) \<and>
      out' @ cur' @ concat (map db_data bs') =
        (out @ take ?k (db_data b)) @ drop ?k (db_data b) @ concat (map db_data bs0) \<and>
      length out' = min requested
        (length ((out @ take ?k (db_data b)) @ drop ?k (db_data b) @ concat (map db_data bs0)))"
      using b Cons.prems(4) True by (intro Cons.IH) auto
    moreover have "(out @ take ?k (db_data b)) @ drop ?k (db_data b) @ concat (map db_data bs0) =
        out @ current @ concat (map db_data bs)"
      using True Cons.prems(3) b(3) by simp
    ultimately show ?thesis unfolding step by (simp only:)
  next
    case False
    then show ?thesis using Cons.prems by (auto simp: b)
  qed
next
  case Nil
  then show ?case by (cases "length out < requested") auto
qed

lemma reader_read_end:
  "dr_total_read r = dr_expected_size r \<Longrightarrow> 0 < n \<Longrightarrow>
    data_tree_reader_read S n r =
      (if dr_current r \<noteq> [] \<or> dr_next r \<noteq> [] then (Inl (Io InvalidData), r) else (Inr [], r))"
  by (simp add: data_tree_reader_read_def)

lemma reader_holds_Nil:
  "reader_holds S r c \<Longrightarrow> c = [] \<longleftrightarrow> dr_current r = [] \<and> dr_next r = []"
  by (auto simp: reader_holds_def collect_Inr list_all2_Cons1 split: sum.splits)

lemma reader_read_step:
  assumes "reader_holds S r c" "dr_total_read r < dr_expected_size r" "0 < n"
  defines "k \<equiv> min n (dr_expected_size r - dr_total_read r)"
  shows "\<exists>r'. data_tree_reader_read S n r =
      (if c = [] then Inl (Io UnexpectedEof) else Inr (take k c), r') \<and>
    reader_holds S r' (drop k c) \<and> dr_expected_size r' = dr_expected_size r \<and>
    dr_total_read r' = dr_total_read r + min k (length c)"
proof -
  obtain bs where bs: "collect (leaf_block S) (dr_next r) = Inr bs"
    "c = dr_current r @ concat (map db_data bs)" "\<forall>b\<in>set bs. db_data b \<noteq> []"
    using assms(1) by (auto simp: reader_holds_def)
  have k: "0 < k" "k \<le> dr_expected_size r - dr_total_read r" using assms by auto
  have "\<exists>out' cur' next' bs'. reader_fill S k (take k (dr_current r)) (drop k (dr_current r)) (dr_next r) =
      (Inr out', cur', next') \<and> collect (leaf_block S) next' = Inr bs' \<and> (\<forall>b\<in>set bs'. db_data b \<noteq> []) \<and>
      out' @ cur' @ concat (map db_data bs') =
        take k (dr_current r) @ drop k (dr_current r) @ concat (map db_data bs) \<and>
      length out' = min k (length (take k (dr_current r) @ drop k (dr_current r) @ concat (map db_data bs)))"
    using bs by (intro reader_fill_spec) auto
  then obtain out' cur' next' bs' where f:
    "reader_fill S k (take k (dr_current r)) (drop k (dr_current r)) (dr_next r) = (Inr out', cur', next')"
    "collect (leaf_block S) next' = Inr bs'" "\<forall>b\<in>set bs'. db_data b \<noteq> []"
    "out' @ cur' @ concat (map db_data bs') = c" "length out' = min k (length c)"
    using bs(2) by auto
  have out: "out' = take k c" "cur' @ concat (map db_data bs') = drop k c"
    using arg_cong [OF f(4), of "take k"] arg_cong [OF f(4), of "drop k"] f(5)
    by (auto simp: min_def split: if_splits)
  let ?r = "r\<lparr>dr_current := cur', dr_next := next', dr_total_read := dr_total_read r + min k (length c)\<rparr>"
  have add: "checked_add_usize (dr_total_read r) (length out') = Some (dr_total_read r + min k (length c))"
    using assms(1) k f(5) by (auto simp: checked_add_usize_def reader_holds_def min_def)
  have "data_tree_reader_read S n r = (if c = [] then Inl (Io UnexpectedEof) else Inr (take k c), ?r)"
    using assms(2,3) k(1) f(1) add out(1)
    by (auto simp: data_tree_reader_read_def k_def [symmetric] Let_def)
  moreover have "reader_holds S ?r (drop k c)"
    using assms(1) f(2,3) out(2) k by (auto simp: reader_holds_def)
  ultimately show ?thesis by auto
qed

text \<open>Reading a tree of the declared size, and reading one of another size.\<close>

lemma reader_run_content:
  assumes "reader_holds S r c" "length c = dr_expected_size r - dr_total_read r"
  shows "\<exists>r'. reader_run S ns r = (Inr (take (sum_list ns) c), r')"
  using assms
proof (induction ns arbitrary: r c)
  case (Cons n ns)
  have le: "dr_total_read r \<le> dr_expected_size r" using Cons.prems(1) by (simp add: reader_holds_def)
  show ?case
  proof (cases "n = 0 \<or> c = []")
    case True
    have "data_tree_reader_read S n r = (Inr [], r)"
    proof (cases "n = 0")
      case False
      with True have "c = []" by simp
      then show ?thesis
        using False Cons.prems le reader_holds_Nil [OF Cons.prems(1)]
        by (subst reader_read_end) auto
    qed (simp add: data_tree_reader_read_def)
    then show ?thesis using Cons.IH [OF Cons.prems] True by auto
  next
    case False
    let ?k = "min n (dr_expected_size r - dr_total_read r)"
    have lt: "dr_total_read r < dr_expected_size r" using False Cons.prems(2) by (cases c) auto
    obtain r' where r': "data_tree_reader_read S n r = (Inr (take ?k c), r')"
      "reader_holds S r' (drop ?k c)" "dr_expected_size r' = dr_expected_size r"
      "dr_total_read r' = dr_total_read r + min ?k (length c)"
      using reader_read_step [OF Cons.prems(1) lt, of n] False by auto
    have "length (drop ?k c) = dr_expected_size r' - dr_total_read r'"
      using r'(3,4) Cons.prems(2) by auto
    from Cons.IH [OF r'(2) this] obtain r'' where
      "reader_run S ns r' = (Inr (take (sum_list ns) (drop ?k c)), r'')" by blast
    moreover have "take ?k c @ take (sum_list ns) (drop ?k c) = take (n + sum_list ns) c"
      using Cons.prems(2) by (cases "n \<le> length c") (simp_all add: take_add min_def)
    ultimately show ?thesis using r'(1) by simp
  qed
qed simp

lemma reader_run_mismatch:
  assumes "reader_holds S r c" "length c \<noteq> dr_expected_size r - dr_total_read r"
    and "\<forall>n\<in>set ns. 0 < n" "dr_expected_size r - dr_total_read r < length ns"
  shows "\<exists>e r'. reader_run S ns r = (Inl (Io e), r') \<and> (e = InvalidData \<or> e = UnexpectedEof)"
  using assms
proof (induction ns arbitrary: r c)
  case (Cons n ns)
  have le: "dr_total_read r \<le> dr_expected_size r" using Cons.prems(1) by (simp add: reader_holds_def)
  show ?case
  proof (cases "dr_total_read r = dr_expected_size r")
    case True
    then have "c \<noteq> []" using Cons.prems(2) by auto
    then show ?thesis
      using True Cons.prems(3) reader_holds_Nil [OF Cons.prems(1)] by (simp add: reader_read_end)
  next
    case False
    then have lt: "dr_total_read r < dr_expected_size r" using le by simp
    have n: "0 < n" using Cons.prems(3) by simp
    let ?k = "min n (dr_expected_size r - dr_total_read r)"
    obtain r' where r': "data_tree_reader_read S n r =
        (if c = [] then Inl (Io UnexpectedEof) else Inr (take ?k c), r')"
      "reader_holds S r' (drop ?k c)" "dr_expected_size r' = dr_expected_size r"
      "dr_total_read r' = dr_total_read r + min ?k (length c)"
      using reader_read_step [OF Cons.prems(1) lt n] by blast
    show ?thesis
    proof (cases "c = []")
      case False
      then have "0 < length c" by simp
      then have "\<exists>e r''. reader_run S ns r' = (Inl (Io e), r'') \<and> (e = InvalidData \<or> e = UnexpectedEof)"
        using r' Cons.prems False lt n
        by (intro Cons.IH [OF r'(2)]) (auto simp: min_def simp del: length_greater_0_conv split: if_splits)
      then show ?thesis using r'(1) False by auto
    qed (use r'(1) in auto)
  qed
qed simp

section \<open>Reading a stored tree\<close>

locale tree_source =
  block_lookup S inv loc + fmt: block_format "bs_format S"
  for S :: "('a::len word, 'e, 'c) block_source"
    and inv :: "'c \<Rightarrow> bool"
    and loc :: "'a word \<Rightarrow> io_error + 'e"
begin

lemma leaf_block_nonempty: "leaf_block S e = Inr b \<Longrightarrow> db_data b \<noteq> []"
  by (auto simp: leaf_block_Inr read_entry_tree_def data_tree_read_def Let_def
      dest: fmt.data_block_read_nonempty split: if_splits sum.splits prod.splits)

lemma collect_nonempty: "collect (leaf_block S) es = Inr bs \<Longrightarrow> \<forall>b\<in>set bs. db_data b \<noteq> []"
  by (auto simp: collect_Inr list_all2_conv_all_nth in_set_conv_nth) (metis leaf_block_nonempty)

lemma data_tree_reader_new_correct:
  assumes "inv pc" "block_cache_agrees S loc bc" "max_entries \<le> usize_max" "declared_size t \<le> usize_max"
    and "readable S loc max_entries t bs"
  shows "\<exists>r pc' bc'. data_tree_reader_new S t max_entries pc bc = (Inr r, pc', bc') \<and>
    reader_holds S r (concat (map db_data bs)) \<and> dr_expected_size r = declared_size t \<and>
    dr_total_read r = 0 \<and> inv pc' \<and> block_cache_agrees S loc bc'"
proof (cases t)
  case (DataLeaf b)
  then show ?thesis using assms
    by (auto simp: data_tree_reader_new_def reader_holds_def readable_def)
next
  case (DataIntermediate b)
  then obtain es where es: "data_tree_leaves S loc t = Inr es" "within_budget max_entries t es"
    "collect (leaf_block S) es = Inr bs"
    using assms(5) by (auto simp: readable_def)
  obtain pc' bc' where "sub_entries S t max_entries pc bc = (Inr es, pc', bc')" "inv pc'"
    "block_cache_agrees S loc bc'"
    using sub_entries_correct [OF assms(1-3), of t] es by auto
  then show ?thesis using DataIntermediate es assms(4) collect_nonempty [OF es(3)]
    by (auto simp: data_tree_reader_new_def reader_holds_def)
qed

lemma reader_delivers:
  assumes "inv pc" "block_cache_agrees S loc bc" "max_entries \<le> usize_max" "declared_size t \<le> usize_max"
    and "readable S loc max_entries t bs"
  shows "\<exists>r pc' bc'. data_tree_reader_new S t max_entries pc bc = (Inr r, pc', bc') \<and>
    (length (concat (map db_data bs)) = declared_size t \<longrightarrow>
      (\<forall>ns. \<exists>r'. reader_run S ns r = (Inr (take (sum_list ns) (concat (map db_data bs))), r'))) \<and>
    (length (concat (map db_data bs)) \<noteq> declared_size t \<longrightarrow>
      (\<forall>ns. (\<forall>n\<in>set ns. 0 < n) \<and> declared_size t < length ns \<longrightarrow>
        (\<exists>e r'. reader_run S ns r = (Inl (Io e), r') \<and> (e = InvalidData \<or> e = UnexpectedEof))))"
proof -
  obtain r pc' bc' where r: "data_tree_reader_new S t max_entries pc bc = (Inr r, pc', bc')"
    "reader_holds S r (concat (map db_data bs))" "dr_expected_size r = declared_size t"
    "dr_total_read r = 0"
    using data_tree_reader_new_correct [OF assms] by blast
  then show ?thesis
    using reader_run_content [OF r(2)] reader_run_mismatch [OF r(2)] by simp
qed

end

definition unicode_lookup_ok ::
  "nat \<Rightarrow> bytes \<Rightarrow> (unicode_block_entry, u64) btree_root \<Rightarrow> (unicode_block_entry, u64) page_cache \<Rightarrow> bool" where
  "unicode_lookup_ok h file page pc \<longleftrightarrow>
    btree_ok (unicode_block_btree_read file) id unicode_block_entry_key h page \<and>
    refs_unambiguous (set (btree_refs (unicode_block_btree_read file) h page)) \<and>
    cache_agrees (unicode_block_btree_read file)
      (set (btree_refs (unicode_block_btree_read file) h page)) pc"

definition unicode_lookup ::
  "nat \<Rightarrow> bytes \<Rightarrow> (unicode_block_entry, u64) btree_root \<Rightarrow> u64 \<Rightarrow> io_error + unicode_block_entry" where
  "unicode_lookup h file page k = lookup_result unicode_block_entry_key k
    (btree_entries (unicode_block_btree_read file) h page)"

definition ansi_lookup_ok ::
  "nat \<Rightarrow> bytes \<Rightarrow> (ansi_block_entry, u32) btree_root \<Rightarrow> (ansi_block_entry, u32) page_cache \<Rightarrow> bool" where
  "ansi_lookup_ok h file page pc \<longleftrightarrow>
    btree_ok (ansi_block_btree_read file) ucast (\<lambda>e. ucast (ansi_block_entry_key e)) h page \<and>
    refs_unambiguous (set (btree_refs (ansi_block_btree_read file) h page)) \<and>
    cache_agrees (ansi_block_btree_read file)
      (set (btree_refs (ansi_block_btree_read file) h page)) pc"

definition ansi_lookup ::
  "nat \<Rightarrow> bytes \<Rightarrow> (ansi_block_entry, u32) btree_root \<Rightarrow> u32 \<Rightarrow> io_error + ansi_block_entry" where
  "ansi_lookup h file page k = lookup_result (\<lambda>e. ucast (ansi_block_entry_key e)) (ucast k)
    (btree_entries (ansi_block_btree_read file) h page)"

lemma lookup_result_key: "lookup_result lkey k xs = Inr e \<Longrightarrow> lkey e = k"
  by (auto simp: lookup_result_def find_Some_iff split: option.splits)

lemma btree_find_lookup:
  assumes "btree_ok read ikey lkey h page" "refs_unambiguous (set (btree_refs read h page))"
    "cache_agrees read (set (btree_refs read h page)) pc"
  shows "\<exists>pc'. btree_find (Suc h) read ikey lkey page k pc =
      (lookup_result lkey (ikey k) (btree_entries read h page), pc') \<and>
    cache_agrees read (set (btree_refs read h page)) pc'"
  using find_entry_correct [OF assms(1,2) subset_refl assms(3), of "ikey k"]
  by (auto simp: btree_find_def)

interpretation usource: tree_source "unicode_source (Suc h) file encoding page"
    "unicode_lookup_ok h file page" "unicode_lookup h file page"
  for h "file" encoding page
proof unfold_locales
  fix pc k
  assume "unicode_lookup_ok h file page pc"
  then show "\<exists>pc'. bs_find (unicode_source (Suc h) file encoding page) k pc =
      (unicode_lookup h file page k, pc') \<and> unicode_lookup_ok h file page pc'"
    using btree_find_lookup [of "unicode_block_btree_read file" id unicode_block_entry_key h page pc k]
    by (auto simp: unicode_lookup_ok_def unicode_source_def unicode_lookup_def)
next
  fix k e
  assume "unicode_lookup h file page k = Inr e"
  then show "block_id_search_key (ref_block (bs_ref (unicode_source (Suc h) file encoding page) e)) = k"
    by (auto simp: unicode_lookup_def unicode_source_def unicode_block_entry_key_def
        dest: lookup_result_key)
qed (simp_all add: unicode_source_def ublock.trailer.length_enc ublock.trailer.dec_enc
    ublock.ident.length_enc ublock.ident.dec_enc ublock.trailer_small ublock.trailer_read_ok)

interpretation asource: tree_source "ansi_source (Suc h) file encoding page"
    "ansi_lookup_ok h file page" "ansi_lookup h file page"
  for h "file" encoding page
proof unfold_locales
  fix pc k
  assume "ansi_lookup_ok h file page pc"
  then show "\<exists>pc'. bs_find (ansi_source (Suc h) file encoding page) k pc =
      (ansi_lookup h file page k, pc') \<and> ansi_lookup_ok h file page pc'"
    using btree_find_lookup [of "ansi_block_btree_read file" ucast "\<lambda>e. ucast (ansi_block_entry_key e)" h page pc k]
    by (auto simp: ansi_lookup_ok_def ansi_source_def ansi_lookup_def)
next
  fix k e
  assume "ansi_lookup h file page k = Inr e"
  then have "(ucast (ansi_block_entry_key e) :: u64) = ucast k"
    unfolding ansi_lookup_def by (rule lookup_result_key)
  then have "ansi_block_entry_key e = k" by (metis ucast_ucast_node)
  then show "block_id_search_key (ref_block (bs_ref (ansi_source (Suc h) file encoding page) e)) = k"
    by (simp add: ansi_source_def ansi_block_entry_key_def)
qed (simp_all add: ansi_source_def ablock.trailer.length_enc ablock.trailer.dec_enc
    ablock.ident.length_enc ablock.ident.dec_enc ablock.trailer_small ablock.trailer_read_ok)

section \<open>Properties\<close>

abbreviation sample_source where
  "sample_source \<equiv> unicode_source (Suc 0) sample_file Permute sample_block_page"

lemma sample_tree_facts:
  "unicode_lookup_ok 0 sample_file sample_block_page (\<lambda>_. None)"
  "block_cache_agrees sample_source (unicode_lookup 0 sample_file sample_block_page) (\<lambda>_. None)"
  "data_tree_leaves sample_source (unicode_lookup 0 sample_file sample_block_page) sample_tree =
    Inr [sample_block_entry]"
  "within_budget 1 sample_tree [sample_block_entry]"
  "declared_size sample_tree = 5"
proof -
  show "unicode_lookup_ok 0 sample_file sample_block_page (\<lambda>_. None)"
    by (simp add: unicode_lookup_ok_def refs_unambiguous_def cache_agrees_def sample_block_page_def)
  have "unicode_lookup 0 sample_file sample_block_page 4 = Inr sample_block_entry"
    by (simp add: unicode_lookup_def lookup_result_def sample_block_page_def btree_page_make_def
        sample_block_entry_def unicode_block_entry_key_def unicode_block_entry_new_def
        unicode_block_entry_new_with_ref_count_def sample_block_ref_def block_id_search_key_def)
  then show "data_tree_leaves sample_source (unicode_lookup 0 sample_file sample_block_page) sample_tree =
      Inr [sample_block_entry]"
    by (simp add: data_tree_leaves_def sample_tree_def item_leaves_def leaf_lookup_def
        block_id_is_internal_def block_id_search_key_def)
qed (simp_all add: block_cache_agrees_def within_budget_def sample_tree_def declared_size_def)

lemma sample_tree_blocks:
  "collect (leaf_block sample_source) [sample_block_entry] = Inr [sample_read_block]"
proof -
  have ok: "data_tree_ok unicode_format Permute sample_leaf_block"
    by (simp add: sample_leaf_block_def data_tree_ok_def MAX_BLOCK_SIZE_def unicode_format_def
        block_id_is_internal_def)
  have "block_id_is_internal (ref_block sample_block_ref) = block_id_is_internal (tree_block_id sample_leaf_block)"
    by (simp add: sample_leaf_block_def sample_block_ref_def tree_block_id_def)
  from ublock.data_tree_write_read [OF ok this, of "[]"]
  have "data_tree_read unicode_format sample_file Permute sample_block_ref
      (word_of_nat (length (stored_bytes unicode_format sample_leaf_block))) =
    Inr (sealed unicode_format sample_leaf_block)"
    by (auto simp: sample_file_def)
  moreover have "stored_bytes unicode_format sample_leaf_block = permute_encode_block [1, 2, 3, 4, 5]"
    by (simp add: sample_leaf_block_def stored_bytes_def encode_block_data_def)
  moreover from this have "sealed unicode_format sample_leaf_block = DataLeaf sample_read_block"
    by (simp add: sealed_def sample_read_block_def sample_leaf_block_def)
  ultimately show ?thesis
    by (simp add: leaf_block_def read_entry_tree_def unicode_source_def sample_block_entry_def
        unicode_block_entry_new_def unicode_block_entry_new_with_ref_count_def)
qed

text \<open>
  C8. The worklist with its budget and its two caches is the recursive enumeration: it yields
  the data blocks of the tree in order exactly when the tree is well formed (kinds, levels and
  the declared totals of its inner blocks) and within the budget, and fails otherwise. It always
  returns, and both caches agree with the file afterwards. For both file formats.
\<close>

theorem sub_entries_spec:
  "(unicode_lookup_ok h file page pc \<and>
      block_cache_agrees (unicode_source (Suc h) file encoding page) (unicode_lookup h file page) bc \<and>
      max_entries \<le> usize_max \<longrightarrow>
    (\<exists>res pc' bc'. sub_entries (unicode_source (Suc h) file encoding page) t max_entries pc bc = (res, pc', bc') \<and>
      unicode_lookup_ok h file page pc' \<and>
      block_cache_agrees (unicode_source (Suc h) file encoding page) (unicode_lookup h file page) bc' \<and>
      (\<forall>out. res = Inr out \<longleftrightarrow>
        data_tree_leaves (unicode_source (Suc h) file encoding page) (unicode_lookup h file page) t = Inr out \<and>
        within_budget max_entries t out))) \<and>
   (ansi_lookup_ok h file page' pa \<and>
      block_cache_agrees (ansi_source (Suc h) file encoding page') (ansi_lookup h file page') ba \<and>
      max_entries \<le> usize_max \<longrightarrow>
    (\<exists>res pc' bc'. sub_entries (ansi_source (Suc h) file encoding page') u max_entries pa ba = (res, pc', bc') \<and>
      ansi_lookup_ok h file page' pc' \<and>
      block_cache_agrees (ansi_source (Suc h) file encoding page') (ansi_lookup h file page') bc' \<and>
      (\<forall>out. res = Inr out \<longleftrightarrow>
        data_tree_leaves (ansi_source (Suc h) file encoding page') (ansi_lookup h file page') u = Inr out \<and>
        within_budget max_entries u out)))"
  by (intro conjI impI; elim conjE)
    (rule usource.sub_entries_correct asource.sub_entries_correct; assumption)+

theorem sub_entries_spec_witness:
  "\<exists>pc' bc'. sub_entries sample_source sample_tree 1 (\<lambda>_. None) (\<lambda>_. None) =
    (Inr [sample_block_entry], pc', bc')"
proof -
  have one: "1 \<le> usize_max" by (simp add: usize_max_def)
  note spec = sub_entries_spec [of 0 sample_file sample_block_page "\<lambda>_. None" Permute "\<lambda>_. None" 1
      sample_tree, THEN conjunct1, THEN mp, OF conjI [OF sample_tree_facts(1) conjI [OF sample_tree_facts(2) one]]]
  then obtain res pc' bc' where
    s: "sub_entries sample_source sample_tree 1 (\<lambda>_. None) (\<lambda>_. None) = (res, pc', bc')"
    and out: "\<forall>out. res = Inr out \<longleftrightarrow>
      data_tree_leaves sample_source (unicode_lookup 0 sample_file sample_block_page) sample_tree = Inr out \<and>
      within_budget 1 sample_tree out" by (elim exE conjE)
  have "res = Inr [sample_block_entry]" using out sample_tree_facts(3,4) by blast
  then show ?thesis using s by blast
qed

text \<open>
  C21. Materialising a tree (\<open>blocks\<close>) succeeds exactly when its blocks can all be read, have
  the declared total size, and stay within the limits on entries and bytes; it then yields the
  blocks in order.
\<close>

theorem data_tree_blocks_spec:
  assumes "unicode_lookup_ok h file page pc"
    and "block_cache_agrees (unicode_source (Suc h) file encoding page) (unicode_lookup h file page) bc"
  shows "\<exists>res pc' bc'. data_tree_blocks (unicode_source (Suc h) file encoding page) t pc bc = (res, pc', bc') \<and>
    unicode_lookup_ok h file page pc' \<and>
    block_cache_agrees (unicode_source (Suc h) file encoding page) (unicode_lookup h file page) bc' \<and>
    (\<forall>out. res = Inr out \<longleftrightarrow>
      tree_content (unicode_source (Suc h) file encoding page) (unicode_lookup h file page) t out \<and>
      (\<forall>b. t = DataIntermediate b \<longrightarrow> declared_size t \<le> MAX_MATERIALIZED_DATA_TREE_BYTES \<and>
        (\<forall>es. data_tree_leaves (unicode_source (Suc h) file encoding page) (unicode_lookup h file page) t = Inr es
          \<longrightarrow> within_budget MAX_DATA_TREE_ENTRIES t es)))"
  by (rule usource.data_tree_blocks_correct [OF assms])

theorem data_tree_blocks_spec_witness:
  "\<exists>pc' bc'. data_tree_blocks sample_source sample_tree (\<lambda>_. None) (\<lambda>_. None) =
    (Inr [sample_read_block], pc', bc')"
proof -
  have "tree_content sample_source (unicode_lookup 0 sample_file sample_block_page) sample_tree [sample_read_block]"
    using sample_tree_facts(3,5) sample_tree_blocks
    by (simp add: tree_content_def sample_tree_def sample_read_block_def)
  moreover have "within_budget MAX_DATA_TREE_ENTRIES sample_tree [sample_block_entry]"
    by (simp add: within_budget_def sample_tree_def MAX_DATA_TREE_ENTRIES_def)
  ultimately show ?thesis
    using data_tree_blocks_spec [OF sample_tree_facts(1,2), of sample_tree] sample_tree_facts(3,5)
    by (auto simp: MAX_MATERIALIZED_DATA_TREE_BYTES_def)
qed

text \<open>
  C18. Streaming a tree: with any sequence of buffer sizes the reader delivers exactly the
  concatenated data of the blocks, in order, when they have the declared size. When they have
  not, reading to the end always ends in an error, so neither missing nor surplus data goes
  unnoticed. For both file formats.
\<close>

theorem data_tree_reader_spec:
  "(unicode_lookup_ok h file page pc \<and>
      block_cache_agrees (unicode_source (Suc h) file encoding page) (unicode_lookup h file page) bc \<and>
      max_entries \<le> usize_max \<and> declared_size t \<le> usize_max \<and>
      readable (unicode_source (Suc h) file encoding page) (unicode_lookup h file page) max_entries t bs \<longrightarrow>
    (\<exists>r pc' bc'. data_tree_reader_new (unicode_source (Suc h) file encoding page) t max_entries pc bc =
        (Inr r, pc', bc') \<and>
      (length (concat (map db_data bs)) = declared_size t \<longrightarrow>
        (\<forall>ns. \<exists>r'. reader_run (unicode_source (Suc h) file encoding page) ns r =
          (Inr (take (sum_list ns) (concat (map db_data bs))), r'))) \<and>
      (length (concat (map db_data bs)) \<noteq> declared_size t \<longrightarrow>
        (\<forall>ns. (\<forall>n\<in>set ns. 0 < n) \<and> declared_size t < length ns \<longrightarrow>
          (\<exists>e r'. reader_run (unicode_source (Suc h) file encoding page) ns r = (Inl (Io e), r') \<and>
            (e = InvalidData \<or> e = UnexpectedEof)))))) \<and>
   (ansi_lookup_ok h file page' pa \<and>
      block_cache_agrees (ansi_source (Suc h) file encoding page') (ansi_lookup h file page') ba \<and>
      max_entries \<le> usize_max \<and> declared_size u \<le> usize_max \<and>
      readable (ansi_source (Suc h) file encoding page') (ansi_lookup h file page') max_entries u bs' \<longrightarrow>
    (\<exists>r pc' bc'. data_tree_reader_new (ansi_source (Suc h) file encoding page') u max_entries pa ba =
        (Inr r, pc', bc') \<and>
      (length (concat (map db_data bs')) = declared_size u \<longrightarrow>
        (\<forall>ns. \<exists>r'. reader_run (ansi_source (Suc h) file encoding page') ns r =
          (Inr (take (sum_list ns) (concat (map db_data bs'))), r'))) \<and>
      (length (concat (map db_data bs')) \<noteq> declared_size u \<longrightarrow>
        (\<forall>ns. (\<forall>n\<in>set ns. 0 < n) \<and> declared_size u < length ns \<longrightarrow>
          (\<exists>e r'. reader_run (ansi_source (Suc h) file encoding page') ns r = (Inl (Io e), r') \<and>
            (e = InvalidData \<or> e = UnexpectedEof))))))"
  by (intro conjI impI; elim conjE)
    (rule usource.reader_delivers asource.reader_delivers; assumption)+

theorem data_tree_reader_spec_witness:
  "\<exists>r pc' bc'. data_tree_reader_new sample_source sample_tree 1 (\<lambda>_. None) (\<lambda>_. None) = (Inr r, pc', bc') \<and>
    (\<exists>r'. reader_run sample_source [2, 100] r = (Inr [1, 2, 3, 4, 5], r'))"
proof -
  have "readable sample_source (unicode_lookup 0 sample_file sample_block_page) 1 sample_tree [sample_read_block]"
    using sample_tree_facts(3,4) sample_tree_blocks by (simp add: readable_def sample_tree_def)
  then have "\<exists>r pc' bc'. data_tree_reader_new sample_source sample_tree 1 (\<lambda>_. None) (\<lambda>_. None) = (Inr r, pc', bc') \<and>
    (\<forall>ns. \<exists>r'. reader_run sample_source ns r = (Inr (take (sum_list ns) [1, 2, 3, 4, 5]), r'))"
    using data_tree_reader_spec [of 0 sample_file sample_block_page "\<lambda>_. None" Permute "\<lambda>_. None" 1
        sample_tree "[sample_read_block]"] sample_tree_facts(1,2,5)
    by (auto simp: usize_max_def sample_read_block_def)
  then obtain r pc' bc' where "data_tree_reader_new sample_source sample_tree 1 (\<lambda>_. None) (\<lambda>_. None) = (Inr r, pc', bc')"
    and run: "\<forall>ns. \<exists>r'. reader_run sample_source ns r = (Inr (take (sum_list ns) [1, 2, 3, 4, 5]), r')"
    by blast
  moreover have "\<exists>r'. reader_run sample_source [2, 100] r = (Inr [1, 2, 3, 4, 5], r')"
    using run [rule_format, of "[2, 100]"] by simp
  ultimately show ?thesis by blast
qed

end
