(* ===== verification/Ndb_SubNode.thy ===== *)
theory Ndb_SubNode
  imports Ndb_DataTree
begin

text \<open>
  Sub-node trees of \<open>block.rs\<close>: the headers and entries of \<open>SLBLOCK\<close> and \<open>SIBLOCK\<close> in both formats,
  reading and writing their blocks, the traversal budget, the search for a sub-node
  (\<open>find_leaf_entry_bounded\<close>) and the enumeration of all of them (\<open>entries\<close>).
\<close>

section \<open>Headers and entries\<close>

record subnode_header =
  sh_level :: u8
  sh_entry_count :: u16

definition unicode_subnode_header_read :: "subnode_header decoder" where
  "unicode_subnode_header_read f =
    (case read_u8 f of Inl e \<Rightarrow> Inl e | Inr (block_type, f) \<Rightarrow>
    (if block_type \<noteq> 0x02 then Inl (NdbIo (InvalidInternalBlockType block_type)) else
    (case read_u8 f of Inl e \<Rightarrow> Inl e | Inr (level, f) \<Rightarrow>
    (case read_u16 f of Inl e \<Rightarrow> Inl e | Inr (entry_count, f) \<Rightarrow>
    (case read_u32 f of Inl e \<Rightarrow> Inl e | Inr (padding, f) \<Rightarrow>
    (if padding \<noteq> 0 then Inl (NdbIo (InvalidSubNodeBlockPadding padding)) else
     Inr (\<lparr>sh_level = level, sh_entry_count = entry_count\<rparr>, f)))))))"

definition unicode_subnode_header_write :: "subnode_header \<Rightarrow> bytes" where
  "unicode_subnode_header_write h =
    write_u8 0x02 @ write_u8 (sh_level h) @ write_u16 (sh_entry_count h) @ write_u32 0"

definition ansi_subnode_header_read :: "subnode_header decoder" where
  "ansi_subnode_header_read f =
    (case read_u8 f of Inl e \<Rightarrow> Inl e | Inr (block_type, f) \<Rightarrow>
    (if block_type \<noteq> 0x02 then Inl (NdbIo (InvalidInternalBlockType block_type)) else
    (case read_u8 f of Inl e \<Rightarrow> Inl e | Inr (level, f) \<Rightarrow>
    (case read_u16 f of Inl e \<Rightarrow> Inl e | Inr (entry_count, f) \<Rightarrow>
     Inr (\<lparr>sh_level = level, sh_entry_count = entry_count\<rparr>, f)))))"

definition ansi_subnode_header_write :: "subnode_header \<Rightarrow> bytes" where
  "ansi_subnode_header_write h =
    write_u8 0x02 @ write_u8 (sh_level h) @ write_u16 (sh_entry_count h)"

record 'w subnode_entry =
  sn_node :: node_id
  sn_block :: 'w

record 'w subnode_leaf_entry =
  sl_node :: node_id
  sl_block :: 'w
  sl_sub_node :: "'w option"

definition unicode_subnode_entry_read :: "u64 subnode_entry decoder" where
  "unicode_subnode_entry_read f =
    (case read_u64 f of Inl e \<Rightarrow> Inl e | Inr (node, f) \<Rightarrow>
    (case read_u64 f of Inl e \<Rightarrow> Inl e | Inr (block, f) \<Rightarrow>
     Inr (\<lparr>sn_node = ucast node, sn_block = block\<rparr>, f)))"

definition unicode_subnode_entry_write :: "u64 subnode_entry \<Rightarrow> bytes" where
  "unicode_subnode_entry_write e = write_u64 (ucast (sn_node e)) @ write_u64 (sn_block e)"

definition ansi_subnode_entry_read :: "u32 subnode_entry decoder" where
  "ansi_subnode_entry_read f =
    (case node_id_read f of Inl e \<Rightarrow> Inl e | Inr (node, f) \<Rightarrow>
    (case read_u32 f of Inl e \<Rightarrow> Inl e | Inr (block, f) \<Rightarrow>
     Inr (\<lparr>sn_node = node, sn_block = block\<rparr>, f)))"

definition ansi_subnode_entry_write :: "u32 subnode_entry \<Rightarrow> bytes" where
  "ansi_subnode_entry_write e = node_id_write (sn_node e) @ write_u32 (sn_block e)"

definition unicode_subnode_leaf_entry_read :: "u64 subnode_leaf_entry decoder" where
  "unicode_subnode_leaf_entry_read f =
    (case unicode_subnode_entry_read f of Inl e \<Rightarrow> Inl e | Inr (inner, f) \<Rightarrow>
    (case read_u64 f of Inl e \<Rightarrow> Inl e | Inr (sub_node, f) \<Rightarrow>
     Inr (\<lparr>sl_node = sn_node inner, sl_block = sn_block inner,
       sl_sub_node = (if block_id_search_key sub_node \<noteq> 0 then Some sub_node else None)\<rparr>, f)))"

definition unicode_subnode_leaf_entry_write :: "u64 subnode_leaf_entry \<Rightarrow> bytes" where
  "unicode_subnode_leaf_entry_write e =
    unicode_subnode_entry_write \<lparr>sn_node = sl_node e, sn_block = sl_block e\<rparr> @
    write_u64 (unwrap_or_default (sl_sub_node e))"

definition ansi_subnode_leaf_entry_read :: "u32 subnode_leaf_entry decoder" where
  "ansi_subnode_leaf_entry_read f =
    (case ansi_subnode_entry_read f of Inl e \<Rightarrow> Inl e | Inr (inner, f) \<Rightarrow>
    (case read_u32 f of Inl e \<Rightarrow> Inl e | Inr (sub_node, f) \<Rightarrow>
     Inr (\<lparr>sl_node = sn_node inner, sl_block = sn_block inner,
       sl_sub_node = (if block_id_search_key sub_node \<noteq> 0 then Some sub_node else None)\<rparr>, f)))"

definition ansi_subnode_leaf_entry_write :: "u32 subnode_leaf_entry \<Rightarrow> bytes" where
  "ansi_subnode_leaf_entry_write e =
    ansi_subnode_entry_write \<lparr>sn_node = sl_node e, sn_block = sl_block e\<rparr> @
    write_u32 (unwrap_or_default (sl_sub_node e))"

section \<open>Blocks\<close>

record ('e, 'w) subnode_block =
  sb_header :: subnode_header
  sb_entries :: "'e list"
  sb_trailer :: "'w block_trailer"

definition subnode_block_new ::
  "'a::len word pst_format \<Rightarrow> subnode_header \<Rightarrow> 'e list \<Rightarrow> 'a word block_trailer
    \<Rightarrow> ndb_error + ('e, 'a word) subnode_block" where
  "subnode_block_new F header entries trailer =
    (case block_trailer_verify_block_id (pf_id_error F) trailer True of Inl e \<Rightarrow> Inl e
     | Inr _ \<Rightarrow> Inr \<lparr>sb_header = header, sb_entries = entries, sb_trailer = trailer\<rparr>)"

datatype 'w subnode_tree =
    SubIntermediate "('w subnode_entry, 'w) subnode_block"
  | SubLeaf "('w subnode_leaf_entry, 'w) subnode_block"

text \<open>The members of the \<open>Pst\<close> trait that differ between the formats of sub-node trees.\<close>

record 'w subnode_format =
  nf_header_size :: nat
  nf_header_read :: "subnode_header decoder"
  nf_header_write :: "subnode_header \<Rightarrow> bytes"
  nf_entry_size :: nat
  nf_entry_read :: "'w subnode_entry decoder"
  nf_entry_write :: "'w subnode_entry \<Rightarrow> bytes"
  nf_leaf_size :: nat
  nf_leaf_read :: "'w subnode_leaf_entry decoder"
  nf_leaf_write :: "'w subnode_leaf_entry \<Rightarrow> bytes"

definition unicode_subnode_format :: "u64 subnode_format" where
  "unicode_subnode_format = \<lparr>nf_header_size = 8, nf_header_read = unicode_subnode_header_read,
     nf_header_write = unicode_subnode_header_write, nf_entry_size = 16,
     nf_entry_read = unicode_subnode_entry_read, nf_entry_write = unicode_subnode_entry_write,
     nf_leaf_size = 24, nf_leaf_read = unicode_subnode_leaf_entry_read,
     nf_leaf_write = unicode_subnode_leaf_entry_write\<rparr>"

definition ansi_subnode_format :: "u32 subnode_format" where
  "ansi_subnode_format = \<lparr>nf_header_size = 4, nf_header_read = ansi_subnode_header_read,
     nf_header_write = ansi_subnode_header_write, nf_entry_size = 8,
     nf_entry_read = ansi_subnode_entry_read, nf_entry_write = ansi_subnode_entry_write,
     nf_leaf_size = 12, nf_leaf_read = ansi_subnode_leaf_entry_read,
     nf_leaf_write = ansi_subnode_leaf_entry_write\<rparr>"

definition subnode_tree_read ::
  "'a::len word pst_format \<Rightarrow> 'a word subnode_format \<Rightarrow> bytes \<Rightarrow> ('a word, 'a word) block_ref \<Rightarrow> u16
    \<Rightarrow> io_error + 'a word subnode_tree" where
  "subnode_tree_read F N file block sz =
    (let physical_size = unat sz + pf_trailer_size F in
     if physical_size \<ge> 2 ^ 16 then Inl (NdbIo (InvalidBlockSize sz)) else
    (case block_size physical_size of Inl e \<Rightarrow> Inl e | Inr extent \<Rightarrow>
    (case read_at file (unat (ref_index block)) extent of Inl e \<Rightarrow> Inl e | Inr data \<Rightarrow>
    (case nf_header_read N data of Inl e \<Rightarrow> Inl e | Inr (header, _) \<Rightarrow>
     if sh_level header > 0
     then (case tree_block_read F (nf_header_size N) (nf_entry_size N) (nf_entry_read N)
              (subnode_block_new F header) (sh_entry_count header) sz data of Inl e \<Rightarrow> Inl e
           | Inr (b, _) \<Rightarrow> Inr (SubIntermediate b))
     else (case tree_block_read F (nf_header_size N) (nf_leaf_size N) (nf_leaf_read N)
              (subnode_block_new F header) (sh_entry_count header) sz data of Inl e \<Rightarrow> Inl e
           | Inr (b, _) \<Rightarrow> Inr (SubLeaf b))))))"

definition subnode_tree_write ::
  "'a::len word pst_format \<Rightarrow> 'a word subnode_format \<Rightarrow> 'a word subnode_tree \<Rightarrow> bytes
    \<Rightarrow> ('a word, 'a word) block_ref \<Rightarrow> io_error + bytes" where
  "subnode_tree_write F N t file block =
    (case t of
       SubIntermediate b \<Rightarrow> tree_block_write F (nf_header_write N (sb_header b) @
         concat (map (nf_entry_write N) (sb_entries b))) (sb_trailer b) file (unat (ref_index block))
     | SubLeaf b \<Rightarrow> tree_block_write F (nf_header_write N (sb_header b) @
         concat (map (nf_leaf_write N) (sb_entries b))) (sb_trailer b) file (unat (ref_index block)))"

section \<open>The traversal budget\<close>

definition MAX_SUBNODE_TREE_DEPTH :: nat where "MAX_SUBNODE_TREE_DEPTH = 32"
definition MAX_SUBNODE_TREE_ENTRIES :: nat where "MAX_SUBNODE_TREE_ENTRIES = 4096"

record subnode_budget =
  nb_visited_blocks :: "u64 set"
  nb_visited_entries :: nat

definition subnode_budget_default :: subnode_budget where
  "subnode_budget_default = \<lparr>nb_visited_blocks = {}, nb_visited_entries = 0\<rparr>"

definition nb_observe_tree :: "nat \<Rightarrow> nat \<Rightarrow> subnode_budget \<Rightarrow> io_error + subnode_budget" where
  "nb_observe_tree depth entries budget =
    (if depth > MAX_SUBNODE_TREE_DEPTH
     then Inl (NdbIo (SubNodeTreeDepthExceeded MAX_SUBNODE_TREE_DEPTH))
     else case checked_add_usize (nb_visited_entries budget) entries of
       None \<Rightarrow> Inl (NdbIo (SubNodeTreeEntryLimitExceeded MAX_SUBNODE_TREE_ENTRIES))
     | Some visited_entries \<Rightarrow>
       if visited_entries > MAX_SUBNODE_TREE_ENTRIES
       then Inl (NdbIo (SubNodeTreeEntryLimitExceeded MAX_SUBNODE_TREE_ENTRIES))
       else Inr (budget\<lparr>nb_visited_entries := visited_entries\<rparr>))"

definition nb_descend_to :: "u64 \<Rightarrow> subnode_budget \<Rightarrow> io_error + subnode_budget" where
  "nb_descend_to block_id budget =
    (if block_id \<in> nb_visited_blocks budget then Inl (NdbIo (SubNodeTreeCycle block_id))
     else Inr (budget\<lparr>nb_visited_blocks := insert block_id (nb_visited_blocks budget)\<rparr>))"

section \<open>Search and enumeration\<close>

definition fetch_subnode_tree ::
  "('a::len word, 'e, 'c) block_source \<Rightarrow> 'a word subnode_format \<Rightarrow> 'a word \<Rightarrow> 'c
    \<Rightarrow> (io_error + 'a word subnode_tree) \<times> 'c" where
  "fetch_subnode_tree S N block_id pc =
    (case bs_find S (block_id_search_key block_id) pc of (Inl e, pc) \<Rightarrow> (Inl e, pc)
     | (Inr entry, pc) \<Rightarrow>
       (subnode_tree_read (bs_format S) N (bs_file S) (bs_ref S entry) (bs_size S entry), pc))"

definition subnode_entry_count :: "'w subnode_tree \<Rightarrow> nat" where
  "subnode_entry_count t = (case t of SubIntermediate b \<Rightarrow> length (sb_entries b)
     | SubLeaf b \<Rightarrow> length (sb_entries b))"

function subnode_descend ::
  "('a::len word, 'e, 'c) block_source \<Rightarrow> 'a word subnode_format \<Rightarrow> 'a word subnode_tree \<Rightarrow> node_id
    \<Rightarrow> 'c \<Rightarrow> nat \<Rightarrow> subnode_budget \<Rightarrow> (io_error + 'a word subnode_leaf_entry) \<times> 'c" where
  "subnode_descend S N tree node pc depth budget =
    (case nb_observe_tree depth (subnode_entry_count tree) budget of Inl e \<Rightarrow> (Inl e, pc)
     | Inr budget \<Rightarrow>
       (case tree of
          SubIntermediate block \<Rightarrow>
            (let entries = sb_entries block;
                 index = partition_point (\<lambda>entry. sn_node entry \<le> node) entries in
             if index = 0 \<or> length entries < index then (Inl (NdbIo (SubNodeNotFound node)), pc)
             else let block_id = sn_block (entries ! (index - 1)) in
               (case nb_descend_to (ucast block_id) budget of Inl e \<Rightarrow> (Inl e, pc)
                | Inr budget \<Rightarrow>
                  (case fetch_subnode_tree S N block_id pc of (Inl e, pc) \<Rightarrow> (Inl e, pc)
                   | (Inr child, pc) \<Rightarrow> subnode_descend S N child node pc (depth + 1) budget)))
        | SubLeaf block \<Rightarrow>
            (case List.find (\<lambda>entry. sl_node entry = node) (sb_entries block) of
               None \<Rightarrow> (Inl (NdbIo (SubNodeNotFound node)), pc)
             | Some entry \<Rightarrow> (Inr entry, pc))))"
  by pat_completeness auto
termination
  by (relation "measure (\<lambda>(_, _, _, _, _, depth, _). Suc MAX_SUBNODE_TREE_DEPTH - depth)")
    (auto simp: nb_observe_tree_def split: if_splits)

declare subnode_descend.simps [simp del]

definition find_leaf_entry_bounded ::
  "('a::len word, 'e, 'c) block_source \<Rightarrow> 'a word subnode_format \<Rightarrow> 'a word subnode_tree \<Rightarrow> node_id
    \<Rightarrow> 'c \<Rightarrow> (io_error + 'a word subnode_leaf_entry) \<times> 'c" where
  "find_leaf_entry_bounded S N tree node pc =
    subnode_descend S N tree node pc 0 subnode_budget_default"

definition subnode_find_entry ::
  "('a::len word, 'e, 'c) block_source \<Rightarrow> 'a word subnode_format \<Rightarrow> 'a word subnode_tree \<Rightarrow> node_id
    \<Rightarrow> 'c \<Rightarrow> (io_error + 'a word) \<times> 'c" where
  "subnode_find_entry S N tree node pc =
    (case find_leaf_entry_bounded S N tree node pc of (Inl e, pc) \<Rightarrow> (Inl e, pc)
     | (Inr entry, pc) \<Rightarrow> (Inr (sl_block entry), pc))"

function subnode_entries_loop ::
  "('a::len word, 'e, 'c) block_source \<Rightarrow> 'a word subnode_format \<Rightarrow> subnode_budget
    \<Rightarrow> ('a word \<times> nat) list \<Rightarrow> 'a word subnode_leaf_entry list \<Rightarrow> 'c
    \<Rightarrow> (io_error + 'a word subnode_leaf_entry list) \<times> 'c" where
  "subnode_entries_loop S N budget [] leaves pc = (Inr leaves, pc)"
| "subnode_entries_loop S N budget ((block_id, depth) # pending) leaves pc =
    (case nb_descend_to (ucast block_id) budget of Inl e \<Rightarrow> (Inl e, pc)
     | Inr budget \<Rightarrow>
       (case fetch_subnode_tree S N block_id pc of (Inl e, pc) \<Rightarrow> (Inl e, pc)
        | (Inr child, pc) \<Rightarrow>
          (case nb_observe_tree depth (subnode_entry_count child) budget of Inl e \<Rightarrow> (Inl e, pc)
           | Inr budget \<Rightarrow>
             (case child of
                SubIntermediate b \<Rightarrow>
                  subnode_entries_loop S N budget
                    (map (\<lambda>entry. (sn_block entry, depth + 1)) (sb_entries b) @ pending) leaves pc
              | SubLeaf b \<Rightarrow>
                  subnode_entries_loop S N budget pending (leaves @ sb_entries b) pc))))"
  by pat_completeness auto
termination
  by (relation "measure (\<lambda>(_, _, budget, pending, _).
      length pending + (MAX_SUBNODE_TREE_ENTRIES - nb_visited_entries budget))")
    (auto simp: nb_observe_tree_def nb_descend_to_def subnode_entry_count_def checked_add_usize_Some
      split: if_splits option.splits)

definition subnode_entries ::
  "('a::len word, 'e, 'c) block_source \<Rightarrow> 'a word subnode_format \<Rightarrow> 'a word subnode_tree \<Rightarrow> 'c
    \<Rightarrow> (io_error + 'a word subnode_leaf_entry list) \<times> 'c" where
  "subnode_entries S N tree pc =
    (case nb_observe_tree 0 (subnode_entry_count tree) subnode_budget_default of Inl e \<Rightarrow> (Inl e, pc)
     | Inr budget \<Rightarrow>
       (case tree of
          SubIntermediate block \<Rightarrow>
            subnode_entries_loop S N budget
              (map (\<lambda>entry. (sn_block entry, 1)) (sb_entries block)) [] pc
        | SubLeaf block \<Rightarrow> (Inr (sb_entries block), pc)))"

section \<open>Round trip\<close>

definition subnode_leaf_ok :: "'a::len word subnode_leaf_entry \<Rightarrow> bool" where
  "subnode_leaf_ok e \<longleftrightarrow> (\<forall>s. sl_sub_node e = Some s \<longrightarrow> block_id_search_key s \<noteq> 0)"

definition subnode_stored :: "'a::len word subnode_format \<Rightarrow> 'a word subnode_tree \<Rightarrow> bytes" where
  "subnode_stored N t = (case t of
     SubIntermediate b \<Rightarrow> nf_header_write N (sb_header b) @ concat (map (nf_entry_write N) (sb_entries b))
   | SubLeaf b \<Rightarrow> nf_header_write N (sb_header b) @ concat (map (nf_leaf_write N) (sb_entries b)))"

definition subnode_sealed :: "'a::len word subnode_format \<Rightarrow> 'a word subnode_tree \<Rightarrow> 'a word subnode_tree" where
  "subnode_sealed N t = (case t of
     SubIntermediate b \<Rightarrow> SubIntermediate (b\<lparr>sb_trailer := sealed_trailer (subnode_stored N t) (sb_trailer b)\<rparr>)
   | SubLeaf b \<Rightarrow> SubLeaf (b\<lparr>sb_trailer := sealed_trailer (subnode_stored N t) (sb_trailer b)\<rparr>))"

definition subnode_tree_ok :: "'a::len word pst_format \<Rightarrow> 'a word subnode_format \<Rightarrow> 'a word subnode_tree \<Rightarrow> bool" where
  "subnode_tree_ok F N t \<longleftrightarrow> (case t of
     SubIntermediate b \<Rightarrow> 0 < sh_level (sb_header b) \<and>
       unat (sh_entry_count (sb_header b)) = length (sb_entries b) \<and>
       nf_header_size N + length (sb_entries b) * nf_entry_size N \<le> MAX_BLOCK_SIZE - pf_trailer_size F \<and>
       block_id_is_internal (bt_block_id (sb_trailer b))
   | SubLeaf b \<Rightarrow> sh_level (sb_header b) = 0 \<and>
       unat (sh_entry_count (sb_header b)) = length (sb_entries b) \<and>
       nf_header_size N + length (sb_entries b) * nf_leaf_size N \<le> MAX_BLOCK_SIZE - pf_trailer_size F \<and>
       (\<forall>e\<in>set (sb_entries b). subnode_leaf_ok e) \<and>
       block_id_is_internal (bt_block_id (sb_trailer b)))"

definition sample_subnode_tree :: "u64 subnode_tree" where
  "sample_subnode_tree = SubLeaf \<lparr>sb_header = \<lparr>sh_level = 0, sh_entry_count = 1\<rparr>,
     sb_entries = [\<lparr>sl_node = 0x671, sl_block = 4, sl_sub_node = None\<rparr>],
     sb_trailer = \<lparr>bt_size = 0, bt_signature = 0, bt_crc = 0, bt_block_id = 10\<rparr>\<rparr>"

context block_format
begin

lemma tree_block_write_read:
  assumes "1 \<le> length data" "length data \<le> MAX_BLOCK_SIZE - pf_trailer_size F"
    and "block_id_is_internal (bt_block_id t)"
    and "length data = hsize + unat entry_count * esize"
    and "read_many (unat entry_count) read_entry (drop hsize data) = Inr (entries, [])"
    and "new entries (sealed_trailer data t) = Inr b"
  shows "\<exists>file' r. tree_block_write F data t file pos = Inr file' \<and>
    read_at file' pos (div_ceil (length data + pf_trailer_size F) 64 * 64) = Inr (data @ r) \<and>
    tree_block_read F hsize esize read_entry new entry_count (word_of_nat (length data)) (data @ r) =
      Inr (b, [])"
proof -
  obtain gap where gap: "block_gap F (word_of_nat (length data)) = Inr (length gap)"
    and ext: "read_at (write_at (write_at file pos data) (pos + length data + length gap)
        (pf_trailer_write F (sealed_trailer data t)))
      pos (div_ceil (length data + pf_trailer_size F) 64 * 64) =
      Inr (data @ gap @ pf_trailer_write F (sealed_trailer data t))"
    using written_extent [OF assms(1,2) sealed_trailer_ok(1) [OF assms(1,2)]] by blast
  have w: "tree_block_write F data t file pos =
      Inr (write_at (write_at file pos data) (pos + length data + length gap)
        (pf_trailer_write F (sealed_trailer data t)))"
    using gap sealed_trailer_ok(2) [OF assms(1,2), of t] by (simp add: tree_block_write_def Let_def)
  have "tree_block_read F hsize esize read_entry new entry_count (word_of_nat (length data))
      (data @ gap @ pf_trailer_write F (sealed_trailer data t) @ []) = Inr (b, [])"
    using tree_block_read_extent [where new = new, OF assms(1,2) gap assms(3-6)] .
  then show ?thesis using w ext by auto
qed

end

locale subnode_codec =
  block_format F +
  header: codec "nf_header_write N" "nf_header_read N" "\<lambda>_. True" "nf_header_size N" +
  entry: codec "nf_entry_write N" "nf_entry_read N" "\<lambda>_. True" "nf_entry_size N" +
  leaf: codec "nf_leaf_write N" "nf_leaf_read N" subnode_leaf_ok "nf_leaf_size N"
  for F :: "'a::len word pst_format" and N :: "'a word subnode_format" +
  assumes header_nonempty: "0 < nf_header_size N"
begin

lemma subnode_block_write_read:
  assumes "codec enc dec ok esize" "\<forall>e\<in>set (sb_entries b). ok e"
    and "unat (sh_entry_count (sb_header b)) = length (sb_entries b)"
    and "nf_header_size N + length (sb_entries b) * esize \<le> MAX_BLOCK_SIZE - pf_trailer_size F"
    and "block_id_is_internal (bt_block_id (sb_trailer b))"
  defines "data \<equiv> nf_header_write N (sb_header b) @ concat (map enc (sb_entries b))"
  shows "\<exists>file' r. tree_block_write F data (sb_trailer b) file pos = Inr file' \<and>
    read_at file' pos (div_ceil (length data + pf_trailer_size F) 64 * 64) = Inr (data @ r) \<and>
    nf_header_read N (data @ r) = Inr (sb_header b, concat (map enc (sb_entries b)) @ r) \<and>
    tree_block_read F (nf_header_size N) esize dec (subnode_block_new F (sb_header b))
      (sh_entry_count (sb_header b)) (word_of_nat (length data)) (data @ r) =
      Inr (b\<lparr>sb_trailer := sealed_trailer data (sb_trailer b)\<rparr>, []) \<and>
    length data + pf_trailer_size F < 2 ^ 16 \<and>
    block_size (length data + pf_trailer_size F) =
      Inr (div_ceil (length data + pf_trailer_size F) 64 * 64) \<and>
    unat (word_of_nat (length data) :: u16) = length data"
proof -
  have len: "length data = nf_header_size N + unat (sh_entry_count (sb_header b)) * esize"
    using assms(3) codec.length_concat_enc [OF assms(1,2)] by (simp add: data_def header.length_enc)
  then have bounds: "1 \<le> length data" "length data \<le> MAX_BLOCK_SIZE - pf_trailer_size F"
    using assms(3,4) header_nonempty by simp_all
  have entries: "read_many (unat (sh_entry_count (sb_header b))) dec (drop (nf_header_size N) data) =
      Inr (sb_entries b, [])"
    using codec.read_many_enc_all [OF assms(1,2)] assms(3) by (simp add: data_def header.length_enc)
  have new: "subnode_block_new F (sb_header b) (sb_entries b) (sealed_trailer data (sb_trailer b)) =
      Inr (b\<lparr>sb_trailer := sealed_trailer data (sb_trailer b)\<rparr>)"
    using assms(5) by (simp add: subnode_block_new_def block_trailer_verify_block_id_def)
  have "length data + pf_trailer_size F < 2 ^ 16"
    "block_size (length data + pf_trailer_size F) = Inr (div_ceil (length data + pf_trailer_size F) 64 * 64)"
    using bounds trailer_small
    by (auto simp add: block_size_def MAX_BLOCK_SIZE_def simp del: length_0_conv length_greater_0_conv)
  moreover have "nf_header_read N (data @ r) = Inr (sb_header b, concat (map enc (sb_entries b)) @ r)" for r
    by (simp add: data_def header.dec_enc)
  ultimately show ?thesis
    using tree_block_write_read [where new = "subnode_block_new F (sb_header b)",
        OF bounds assms(5) len entries new, of "file" pos] block_gap_ok(2) [OF bounds]
    by blast
qed

lemma subnode_tree_write_read:
  assumes "subnode_tree_ok F N t"
  shows "\<exists>file'. subnode_tree_write F N t file block = Inr file' \<and>
    subnode_tree_read F N file' block (word_of_nat (length (subnode_stored N t))) =
      Inr (subnode_sealed N t)"
proof (cases t)
  case (SubIntermediate b)
  have "0 < sh_level (sb_header b)" using assms SubIntermediate by (simp add: subnode_tree_ok_def)
  then show ?thesis
    using subnode_block_write_read [OF entry.codec_axioms, of b "file" "unat (ref_index block)"]
      assms SubIntermediate
    by (auto simp: subnode_tree_ok_def subnode_tree_write_def subnode_tree_read_def subnode_stored_def
        subnode_sealed_def Let_def)
next
  case (SubLeaf b)
  then show ?thesis
    using subnode_block_write_read [OF leaf.codec_axioms, of b "file" "unat (ref_index block)"] assms
    by (auto simp: subnode_tree_ok_def subnode_tree_write_def subnode_tree_read_def subnode_stored_def
        subnode_sealed_def Let_def)
qed

end

lemma search_key_0 [simp]: "block_id_search_key 0 = 0"
  by (simp add: block_id_search_key_def)

interpretation usub: subnode_codec unicode_format unicode_subnode_format
  by unfold_locales
    (simp_all add: unicode_subnode_format_def unicode_subnode_header_write_def
      unicode_subnode_header_read_def unicode_subnode_entry_write_def unicode_subnode_entry_read_def
      unicode_subnode_leaf_entry_write_def unicode_subnode_leaf_entry_read_def subnode_leaf_ok_def
      unwrap_or_default_def ucast_ucast_node split: option.split)

interpretation asub: subnode_codec ansi_format ansi_subnode_format
  by unfold_locales
    (simp_all add: ansi_subnode_format_def ansi_subnode_header_write_def
      ansi_subnode_header_read_def ansi_subnode_entry_write_def ansi_subnode_entry_read_def
      ansi_subnode_leaf_entry_write_def ansi_subnode_leaf_entry_read_def subnode_leaf_ok_def
      unwrap_or_default_def node_id_read_def node_id_write_def split: option.split)

section \<open>Specification of the traversals\<close>

text \<open>
  The whole tree, walked recursively with a bound on its height: its leaf entries in order, the
  identifiers of the blocks below the root, and the number of entries of all its blocks.
\<close>

fun subnode_walk ::
  "('w \<Rightarrow> io_error + 'w subnode_tree) \<Rightarrow> nat \<Rightarrow> 'w subnode_tree
    \<Rightarrow> io_error + 'w subnode_leaf_entry list \<times> 'w list \<times> nat" where
  "subnode_walk fetch 0 t = Inl (NdbIo (SubNodeTreeDepthExceeded MAX_SUBNODE_TREE_DEPTH))"
| "subnode_walk fetch (Suc h) (SubLeaf b) = Inr (sb_entries b, [], length (sb_entries b))"
| "subnode_walk fetch (Suc h) (SubIntermediate b) =
    (case collect (\<lambda>e. case fetch (sn_block e) of Inl e \<Rightarrow> Inl e
         | Inr c \<Rightarrow> (case subnode_walk fetch h c of Inl e \<Rightarrow> Inl e
           | Inr (ls, ids, n) \<Rightarrow> Inr (ls, sn_block e # ids, n))) (sb_entries b) of
       Inl e \<Rightarrow> Inl e
     | Inr rs \<Rightarrow> Inr (concat (map fst rs), concat (map (fst \<circ> snd) rs),
         length (sb_entries b) + sum_list (map (snd \<circ> snd) rs)))"

definition walk_child ::
  "('w \<Rightarrow> io_error + 'w subnode_tree) \<Rightarrow> nat \<Rightarrow> 'w
    \<Rightarrow> io_error + 'w subnode_leaf_entry list \<times> 'w list \<times> nat" where
  "walk_child fetch h block_id = (case fetch block_id of Inl e \<Rightarrow> Inl e
     | Inr c \<Rightarrow> (case subnode_walk fetch h c of Inl e \<Rightarrow> Inl e
       | Inr (ls, ids, n) \<Rightarrow> Inr (ls, block_id # ids, n)))"

text \<open>The order that the search relies on.\<close>

fun subnode_ordered :: "('w \<Rightarrow> io_error + 'w subnode_tree) \<Rightarrow> nat \<Rightarrow> 'w subnode_tree \<Rightarrow> bool" where
  "subnode_ordered fetch 0 t = True"
| "subnode_ordered fetch (Suc h) (SubLeaf b) = True"
| "subnode_ordered fetch (Suc h) (SubIntermediate b) =
    (let es = sb_entries b in
     sorted (map sn_node es) \<and>
     (\<forall>i<length es. case fetch (sn_block (es ! i)) of Inl _ \<Rightarrow> True
        | Inr c \<Rightarrow> subnode_ordered fetch h c \<and>
            (case subnode_walk fetch h c of Inl _ \<Rightarrow> True
             | Inr (ls, _) \<Rightarrow> (\<forall>x\<in>set ls. sn_node (es ! i) \<le> sl_node x \<and>
                 (Suc i < length es \<longrightarrow> sl_node x < sn_node (es ! Suc i))))))"

definition subnode_fetch ::
  "('a::len word, 'e, 'c) block_source \<Rightarrow> 'a word subnode_format \<Rightarrow> ('a word \<Rightarrow> io_error + 'e) \<Rightarrow> 'a word
    \<Rightarrow> io_error + 'a word subnode_tree" where
  "subnode_fetch S N loc block_id = (case loc (block_id_search_key block_id) of Inl e \<Rightarrow> Inl e
     | Inr entry \<Rightarrow> subnode_tree_read (bs_format S) N (bs_file S) (bs_ref S entry) (bs_size S entry))"

text \<open>What the budget lets through: 33 levels, 4096 entries, no block twice.\<close>

definition subnode_within :: "'a::len word list \<times> nat \<Rightarrow> bool" where
  "subnode_within r \<longleftrightarrow> snd r \<le> MAX_SUBNODE_TREE_ENTRIES \<and> distinct (map (\<lambda>i. ucast i :: u64) (fst r))"

definition subnode_lookup :: "node_id \<Rightarrow> 'w subnode_leaf_entry list \<Rightarrow> io_error + 'w subnode_leaf_entry" where
  "subnode_lookup node leaves = (case List.find (\<lambda>e. sl_node e = node) leaves of
     None \<Rightarrow> Inl (NdbIo (SubNodeNotFound node)) | Some e \<Rightarrow> Inr e)"

lemma collect_map: "collect f (map g xs) = collect (\<lambda>x. f (g x)) xs"
  by (induction xs) (simp_all split: sum.split)

lemma subnode_walk_intermediate:
  "subnode_walk fetch (Suc h) (SubIntermediate b) =
    (case collect (walk_child fetch h) (map sn_block (sb_entries b)) of
       Inl e \<Rightarrow> Inl e
     | Inr rs \<Rightarrow> Inr (concat (map fst rs), concat (map (fst \<circ> snd) rs),
         length (sb_entries b) + sum_list (map (snd \<circ> snd) rs)))"
  by (simp add: collect_map walk_child_def)

lemma collect_append:
  "collect f (xs @ ys) = Inr zs \<longleftrightarrow>
    (\<exists>as bs. collect f xs = Inr as \<and> collect f ys = Inr bs \<and> zs = as @ bs)"
  unfolding collect_Inr list_all2_append1 by (metis list_all2_lengthD)

section \<open>The enumeration\<close>

definition pending_walk ::
  "('w \<Rightarrow> io_error + 'w subnode_tree) \<Rightarrow> 'w \<times> nat \<Rightarrow> io_error + 'w subnode_leaf_entry list \<times> 'w list \<times> nat" where
  "pending_walk fetch item = walk_child fetch (Suc MAX_SUBNODE_TREE_DEPTH - snd item) (fst item)"

definition subnode_loop_result ::
  "('a::len word \<Rightarrow> io_error + 'a word subnode_tree) \<Rightarrow> subnode_budget \<Rightarrow> ('a word \<times> nat) list
    \<Rightarrow> 'a word subnode_leaf_entry list \<Rightarrow> 'a word subnode_leaf_entry list \<Rightarrow> bool" where
  "subnode_loop_result fetch budget pending leaves out \<longleftrightarrow>
    (\<exists>rs. collect (pending_walk fetch) pending = Inr rs \<and> out = leaves @ concat (map fst rs) \<and>
      nb_visited_entries budget + sum_list (map (snd \<circ> snd) rs) \<le> MAX_SUBNODE_TREE_ENTRIES \<and>
      distinct (map (\<lambda>i. ucast i :: u64) (concat (map (fst \<circ> snd) rs))) \<and>
      (\<lambda>i. ucast i) ` set (concat (map (fst \<circ> snd) rs)) \<inter> nb_visited_blocks budget = {})"

lemma observe_tree_Inr:
  "nb_observe_tree depth n budget = Inr b \<longleftrightarrow> depth \<le> MAX_SUBNODE_TREE_DEPTH \<and>
    nb_visited_entries budget + n \<le> MAX_SUBNODE_TREE_ENTRIES \<and>
    b = budget\<lparr>nb_visited_entries := nb_visited_entries budget + n\<rparr>"
  by (auto simp: nb_observe_tree_def checked_add_usize_def MAX_SUBNODE_TREE_ENTRIES_def usize_max_def
      not_less)

text \<open>One step of the worklist, on the specification.\<close>

lemma subnode_loop_result_Cons:
  "subnode_loop_result fetch budget ((block_id, depth) # pending) leaves out \<longleftrightarrow>
    ucast block_id \<notin> nb_visited_blocks budget \<and> depth \<le> MAX_SUBNODE_TREE_DEPTH \<and>
    (\<exists>child. fetch block_id = Inr child \<and>
      nb_visited_entries budget + subnode_entry_count child \<le> MAX_SUBNODE_TREE_ENTRIES \<and>
      subnode_loop_result fetch
        (budget\<lparr>nb_visited_blocks := insert (ucast block_id) (nb_visited_blocks budget),
          nb_visited_entries := nb_visited_entries budget + subnode_entry_count child\<rparr>)
        (case child of SubIntermediate b \<Rightarrow>
            map (\<lambda>e. (sn_block e, depth + 1)) (sb_entries b) @ pending | SubLeaf b \<Rightarrow> pending)
        (case child of SubIntermediate b \<Rightarrow> leaves | SubLeaf b \<Rightarrow> leaves @ sb_entries b) out)"
proof (cases "depth \<le> MAX_SUBNODE_TREE_DEPTH \<and> (\<exists>child. fetch block_id = Inr child)")
  case False
  then have "pending_walk fetch (block_id, depth) = Inr r \<longleftrightarrow> False" for r
    by (cases "fetch block_id") (auto simp: pending_walk_def walk_child_def)
  then show ?thesis using False by (auto simp: subnode_loop_result_def split: sum.splits)
next
  case True
  then obtain child where child: "fetch block_id = Inr child" by blast
  define h where "h = MAX_SUBNODE_TREE_DEPTH - depth"
  have h: "Suc MAX_SUBNODE_TREE_DEPTH - depth = Suc h" "Suc MAX_SUBNODE_TREE_DEPTH - (depth + 1) = h"
    using True by (auto simp: h_def)
  show ?thesis
  proof (cases child)
    case (SubLeaf b)
    then show ?thesis using True child
      by (cases "collect (pending_walk fetch) pending")
        (auto simp: subnode_loop_result_def pending_walk_def walk_child_def h subnode_entry_count_def)
  next
    case (SubIntermediate b)
    let ?kids = "map (\<lambda>e. (sn_block e, depth + 1)) (sb_entries b)"
    have kids: "collect (pending_walk fetch) ?kids = collect (walk_child fetch h) (map sn_block (sb_entries b))"
      by (simp add: collect_map pending_walk_def h(2) [simplified])
    show ?thesis
    proof (cases "collect (walk_child fetch h) (map sn_block (sb_entries b))")
      case (Inl e)
      have "pending_walk fetch (block_id, depth) = Inl e"
        using Inl child SubIntermediate
        by (simp add: pending_walk_def walk_child_def h(1) subnode_walk_intermediate del: subnode_walk.simps(3))
      then show ?thesis
        using True child SubIntermediate Inl kids
        by (simp add: subnode_loop_result_def collect_append)
    next
      case (Inr rs)
      have p: "pending_walk fetch (block_id, depth) = Inr (concat (map fst rs),
          block_id # concat (map (fst \<circ> snd) rs), length (sb_entries b) + sum_list (map (snd \<circ> snd) rs))"
        using Inr child SubIntermediate
        by (simp add: pending_walk_def walk_child_def h(1) subnode_walk_intermediate del: subnode_walk.simps(3))
      show ?thesis
        using True child SubIntermediate Inr kids p
        by (cases "collect (pending_walk fetch) pending")
          (auto simp: subnode_loop_result_def collect_append subnode_entry_count_def)
    qed
  qed
qed

context block_lookup
begin

lemma fetch_subnode_tree_spec:
  assumes "inv pc"
  shows "\<exists>pc'. fetch_subnode_tree S N block_id pc = (subnode_fetch S N loc block_id, pc') \<and> inv pc'"
  using find [OF assms, of "block_id_search_key block_id"]
  by (cases "loc (block_id_search_key block_id)")
    (auto simp: fetch_subnode_tree_def subnode_fetch_def)

lemma subnode_entries_loop_spec:
  assumes "inv pc" "nb_visited_entries budget \<le> MAX_SUBNODE_TREE_ENTRIES"
  shows "\<exists>res pc'. subnode_entries_loop S N budget pending leaves pc = (res, pc') \<and> inv pc' \<and>
    (\<forall>out. res = Inr out \<longleftrightarrow>
      subnode_loop_result (subnode_fetch S N loc) budget pending leaves out)"
  using assms
proof (induction "length pending + (MAX_SUBNODE_TREE_ENTRIES - nb_visited_entries budget)"
    arbitrary: budget pending leaves pc rule: less_induct)
  case less
  show ?case
  proof (cases pending)
    case Nil
    then show ?thesis using less.prems by (auto simp: subnode_loop_result_def)
  next
    case (Cons item rest)
    obtain block_id depth where item: "item = (block_id, depth)" by (cases item)
    define budget1 where
      "budget1 = budget\<lparr>nb_visited_blocks := insert (ucast block_id) (nb_visited_blocks budget)\<rparr>"
    obtain pc1 where f: "fetch_subnode_tree S N block_id pc = (subnode_fetch S N loc block_id, pc1)" "inv pc1"
      using fetch_subnode_tree_spec [OF less.prems(1)] by blast
    consider (seen) "ucast block_id \<in> nb_visited_blocks budget"
      | (failed) err where "ucast block_id \<notin> nb_visited_blocks budget"
          "subnode_fetch S N loc block_id = Inl err"
      | (child) child where "ucast block_id \<notin> nb_visited_blocks budget"
          "subnode_fetch S N loc block_id = Inr child"
      by (cases "subnode_fetch S N loc block_id") auto
    then show ?thesis
    proof cases
      case seen
      then show ?thesis using less.prems
        by (simp add: Cons item nb_descend_to_def subnode_loop_result_Cons)
    next
      case failed
      then show ?thesis using f
        by (simp add: Cons item nb_descend_to_def subnode_loop_result_Cons)
    next
      case child
      note down = child(1)
      show ?thesis
      proof (cases "nb_observe_tree depth (subnode_entry_count child) budget1")
        case (Inl err)
        then have "\<not> (depth \<le> MAX_SUBNODE_TREE_DEPTH \<and>
            nb_visited_entries budget1 + subnode_entry_count child \<le> MAX_SUBNODE_TREE_ENTRIES)"
          using observe_tree_Inr [of depth "subnode_entry_count child" budget1] by force
        then have "\<not> subnode_loop_result (subnode_fetch S N loc) budget pending leaves out" for out
          using child by (auto simp: Cons item subnode_loop_result_Cons budget1_def)
        then show ?thesis using Inl child f
          by (simp add: Cons item nb_descend_to_def budget1_def)
      next
        case (Inr budget2)
        note b2 = observe_tree_Inr [THEN iffD1, OF this]
        define pending2 where "pending2 = (case child of SubIntermediate b \<Rightarrow>
            map (\<lambda>e. (sn_block e, depth + 1)) (sb_entries b) @ rest | SubLeaf b \<Rightarrow> rest)"
        define leaves2 where "leaves2 =
          (case child of SubIntermediate b \<Rightarrow> leaves | SubLeaf b \<Rightarrow> leaves @ sb_entries b)"
        have step: "subnode_entries_loop S N budget pending leaves pc =
            subnode_entries_loop S N budget2 pending2 leaves2 pc1"
          using Inr child f
          by (cases child) (simp_all add: Cons item nb_descend_to_def budget1_def [symmetric]
              pending2_def leaves2_def)
        have "subnode_loop_result (subnode_fetch S N loc) budget pending leaves out \<longleftrightarrow>
            subnode_loop_result (subnode_fetch S N loc) budget2 pending2 leaves2 out" for out
          using child b2 by (auto simp: Cons item subnode_loop_result_Cons budget1_def pending2_def leaves2_def)
        moreover have "length pending2 + (MAX_SUBNODE_TREE_ENTRIES - nb_visited_entries budget2) <
            length pending + (MAX_SUBNODE_TREE_ENTRIES - nb_visited_entries budget)"
          using b2 by (cases child) (auto simp: pending2_def Cons budget1_def subnode_entry_count_def)
        moreover have "nb_visited_entries budget2 \<le> MAX_SUBNODE_TREE_ENTRIES" using b2 by simp
        ultimately show ?thesis unfolding step using less.hyps f(2) by presburger
      qed
    qed
  qed
qed

lemma subnode_entries_correct:
  assumes "inv pc"
  shows "\<exists>res pc'. subnode_entries S N t pc = (res, pc') \<and> inv pc' \<and>
    (\<forall>out. res = Inr out \<longleftrightarrow> (\<exists>r. subnode_walk (subnode_fetch S N loc) (Suc MAX_SUBNODE_TREE_DEPTH) t =
      Inr (out, r) \<and> subnode_within r))"
proof (cases t)
  case (SubLeaf b)
  show ?thesis
  proof (cases "nb_observe_tree 0 (length (sb_entries b)) subnode_budget_default")
    case (Inl err)
    then have "\<not> length (sb_entries b) \<le> MAX_SUBNODE_TREE_ENTRIES"
      using observe_tree_Inr [of 0 "length (sb_entries b)" subnode_budget_default]
      by (auto simp: subnode_budget_default_def)
    then show ?thesis using Inl assms SubLeaf
      by (simp add: subnode_entries_def subnode_entry_count_def subnode_within_def)
  next
    case (Inr budget)
    note b = observe_tree_Inr [THEN iffD1, OF this]
    then show ?thesis using Inr assms SubLeaf
      by (auto simp: subnode_entries_def subnode_entry_count_def subnode_within_def subnode_budget_default_def)
  qed
next
  case (SubIntermediate b)
  let ?fetch = "subnode_fetch S N loc"
  let ?pending = "map (\<lambda>entry. (sn_block entry, 1)) (sb_entries b)"
  have w: "collect (pending_walk ?fetch) ?pending =
      collect (walk_child ?fetch MAX_SUBNODE_TREE_DEPTH) (map sn_block (sb_entries b))"
    by (simp add: collect_map pending_walk_def)
  show ?thesis
  proof (cases "nb_observe_tree 0 (length (sb_entries b)) subnode_budget_default")
    case (Inl err)
    then have "\<not> length (sb_entries b) \<le> MAX_SUBNODE_TREE_ENTRIES"
      using observe_tree_Inr [of 0 "length (sb_entries b)" subnode_budget_default]
      by (auto simp: subnode_budget_default_def)
    then show ?thesis using Inl assms SubIntermediate
      by (auto simp: subnode_entries_def subnode_entry_count_def subnode_within_def
          subnode_walk_intermediate simp del: subnode_walk.simps(3) split: sum.splits)
  next
    case (Inr budget)
    note b = observe_tree_Inr [THEN iffD1, OF this]
    have "subnode_loop_result ?fetch budget ?pending [] out \<longleftrightarrow>
        (\<exists>r. subnode_walk ?fetch (Suc MAX_SUBNODE_TREE_DEPTH) t = Inr (out, r) \<and> subnode_within r)" for out
      unfolding subnode_loop_result_def w using b SubIntermediate
      by (cases "collect (walk_child ?fetch MAX_SUBNODE_TREE_DEPTH) (map sn_block (sb_entries b))")
        (auto simp: subnode_walk_intermediate subnode_within_def
          subnode_budget_default_def simp del: subnode_walk.simps(3))
    then show ?thesis
      using subnode_entries_loop_spec [OF assms, of budget N ?pending "[]"] b Inr SubIntermediate
      by (simp add: subnode_entries_def subnode_entry_count_def)
  qed
qed

end

section \<open>The search\<close>

lemma find_selected:
  fixes es :: "'x list" and nkey :: "'x \<Rightarrow> 'k::linorder" and lkey :: "'y \<Rightarrow> 'k"
  defines "index \<equiv> \<lambda>k. partition_point (\<lambda>e. nkey e \<le> k) es"
  assumes "sorted (map nkey es)" "length xss = length es"
    and bounds: "\<And>j x. j < length es \<Longrightarrow> x \<in> set (xss ! j) \<Longrightarrow>
      nkey (es ! j) \<le> lkey x \<and> (Suc j < length es \<longrightarrow> lkey x < nkey (es ! Suc j))"
  shows "index k = 0 \<Longrightarrow> List.find (\<lambda>x. lkey x = k) (concat xss) = None"
    and "index k \<noteq> 0 \<Longrightarrow> List.find (\<lambda>x. lkey x = k) (concat xss) =
      List.find (\<lambda>x. lkey x = k) (xss ! (index k - 1))"
proof -
  have "partitioned (\<lambda>e. nkey e \<le> k) es"
    using assms(2) unfolding partitioned_def sorted_iff_nth_mono
    by simp (meson less_imp_le order_trans)
  note part = this
  have le: "index k \<le> length es" unfolding index_def by (rule partition_point_le)
  have below: "j < index k \<Longrightarrow> nkey (es ! j) \<le> k" for j
    unfolding index_def using partition_point_prefix [OF part] by blast
  have above: "index k \<le> j \<Longrightarrow> j < length es \<Longrightarrow> k < nkey (es ! j)" for j
    using partition_point_ge [OF part, of j] by (simp add: index_def not_le)
  have miss: "lkey x \<noteq> k" if "j < length es" "Suc j \<noteq> index k" "x \<in> set (xss ! j)" for j x
  proof (cases "j < index k")
    case True
    then have "Suc j < index k" using that(2) by simp
    then show ?thesis using bounds [OF that(1,3)] below [of "Suc j"] le by auto
  next
    case False
    then show ?thesis using bounds [OF that(1,3)] above [of j] that(1) by auto
  qed
  show "index k = 0 \<Longrightarrow> List.find (\<lambda>x. lkey x = k) (concat xss) = None"
    using miss assms(3) by (intro find_concat_none) auto
  show "index k \<noteq> 0 \<Longrightarrow> List.find (\<lambda>x. lkey x = k) (concat xss) =
      List.find (\<lambda>x. lkey x = k) (xss ! (index k - 1))"
    using miss le assms(3) by (intro find_concat_at) auto
qed

text \<open>What a successful walk says of the children, and of the one that the search picks.\<close>

lemma walk_children:
  assumes "subnode_walk fetch (Suc h) (SubIntermediate b) = Inr (ls, ids, n)"
  obtains rs where "ls = concat (map fst rs)" "ids = concat (map (fst \<circ> snd) rs)"
    "n = length (sb_entries b) + sum_list (map (snd \<circ> snd) rs)" "length rs = length (sb_entries b)"
    "\<And>j. j < length rs \<Longrightarrow> \<exists>c ids'. fetch (sn_block (sb_entries b ! j)) = Inr c \<and>
      subnode_walk fetch h c = Inr (fst (rs ! j), ids', snd (snd (rs ! j))) \<and>
      fst (snd (rs ! j)) = sn_block (sb_entries b ! j) # ids'"
proof -
  obtain rs where rs: "collect (walk_child fetch h) (map sn_block (sb_entries b)) = Inr rs"
    "ls = concat (map fst rs)" "ids = concat (map (fst \<circ> snd) rs)"
    "n = length (sb_entries b) + sum_list (map (snd \<circ> snd) rs)"
    using assms unfolding subnode_walk_intermediate by (auto split: sum.splits)
  have len: "length rs = length (sb_entries b)"
    using rs(1) by (auto simp: collect_Inr dest: list_all2_lengthD)
  have "walk_child fetch h (sn_block (sb_entries b ! j)) = Inr (rs ! j)" if "j < length rs" for j
    using rs(1) that len by (auto simp: collect_Inr list_all2_conv_all_nth)
  then have "\<exists>c ids'. fetch (sn_block (sb_entries b ! j)) = Inr c \<and>
      subnode_walk fetch h c = Inr (fst (rs ! j), ids', snd (snd (rs ! j))) \<and>
      fst (snd (rs ! j)) = sn_block (sb_entries b ! j) # ids'" if "j < length rs" for j
    using that by (cases "rs ! j") (fastforce simp: walk_child_def split: sum.splits)
  then show thesis using that rs(2-4) len by blast
qed

lemma distinct_map_concat_at:
  "distinct (map g (concat xss)) \<Longrightarrow> i < length xss \<Longrightarrow> distinct (map g (xss ! i))"
  by (auto simp: map_concat distinct_concat_iff)

lemma walk_lookup:
  fixes node :: node_id
  assumes "subnode_walk fetch (Suc h) (SubIntermediate b) = Inr (ls, ids, n)"
    and "subnode_ordered fetch (Suc h) (SubIntermediate b)"
    and "distinct (map g ids)"
  defines "index \<equiv> partition_point (\<lambda>e. sn_node e \<le> node) (sb_entries b)"
  shows "index \<le> length (sb_entries b)"
    and "index = 0 \<Longrightarrow> subnode_lookup node ls = Inl (NdbIo (SubNodeNotFound node))"
    and "index \<noteq> 0 \<Longrightarrow> \<exists>child ls' ids' n'. fetch (sn_block (sb_entries b ! (index - 1))) = Inr child \<and>
      subnode_walk fetch h child = Inr (ls', ids', n') \<and> subnode_ordered fetch h child \<and>
      subnode_lookup node ls = subnode_lookup node ls' \<and> length (sb_entries b) + n' \<le> n \<and>
      set (sn_block (sb_entries b ! (index - 1)) # ids') \<subseteq> set ids \<and>
      distinct (map g (sn_block (sb_entries b ! (index - 1)) # ids'))"
proof -
  let ?es = "sb_entries b"
  show le: "index \<le> length ?es" unfolding index_def by (rule partition_point_le)
  obtain rs where rs: "ls = concat (map fst rs)" "ids = concat (map (fst \<circ> snd) rs)"
    "n = length ?es + sum_list (map (snd \<circ> snd) rs)" and len: "length rs = length ?es"
    and kid: "\<And>j. j < length rs \<Longrightarrow> \<exists>c ids'. fetch (sn_block (?es ! j)) = Inr c \<and>
      subnode_walk fetch h c = Inr (fst (rs ! j), ids', snd (snd (rs ! j))) \<and>
      fst (snd (rs ! j)) = sn_block (?es ! j) # ids'"
    using walk_children [OF assms(1)] by metis
  have order: "sorted (map sn_node ?es)"
    and bounds: "j < length ?es \<Longrightarrow> x \<in> set (map fst rs ! j) \<Longrightarrow>
      sn_node (?es ! j) \<le> sl_node x \<and> (Suc j < length ?es \<longrightarrow> sl_node x < sn_node (?es ! Suc j))" for j x
    using assms(2) kid [of j] len by (auto simp: Let_def)
  note sel = find_selected [where es = ?es and nkey = sn_node and lkey = sl_node and k = node
      and xss = "map fst rs", OF order _ bounds, folded index_def]
  show "index = 0 \<Longrightarrow> subnode_lookup node ls = Inl (NdbIo (SubNodeNotFound node))"
    using sel(1) len by (simp add: rs(1) subnode_lookup_def)
  show "index \<noteq> 0 \<Longrightarrow> \<exists>child ls' ids' n'. fetch (sn_block (?es ! (index - 1))) = Inr child \<and>
      subnode_walk fetch h child = Inr (ls', ids', n') \<and> subnode_ordered fetch h child \<and>
      subnode_lookup node ls = subnode_lookup node ls' \<and> length ?es + n' \<le> n \<and>
      set (sn_block (?es ! (index - 1)) # ids') \<subseteq> set ids \<and>
      distinct (map g (sn_block (?es ! (index - 1)) # ids'))"
  proof -
    assume "index \<noteq> 0"
    then have i: "index - 1 < length rs" using le len by simp
    obtain child ids' where c: "fetch (sn_block (?es ! (index - 1))) = Inr child"
      "subnode_walk fetch h child = Inr (fst (rs ! (index - 1)), ids', snd (snd (rs ! (index - 1))))"
      "fst (snd (rs ! (index - 1))) = sn_block (?es ! (index - 1)) # ids'"
      using kid [OF i] by blast
    have mem: "rs ! (index - 1) \<in> set rs" using i by simp
    have "subnode_ordered fetch h child" using assms(2) c(1) i len by (auto simp: Let_def)
    moreover have "subnode_lookup node ls = subnode_lookup node (fst (rs ! (index - 1)))"
      using sel(2) \<open>index \<noteq> 0\<close> i len by (simp add: rs(1) subnode_lookup_def)
    moreover have "snd (snd (rs ! (index - 1))) \<le> sum_list (map (snd \<circ> snd) rs)"
      using mem by (intro member_le_sum_list) auto
    moreover have "set (sn_block (?es ! (index - 1)) # ids') \<subseteq> set ids"
      unfolding c(3) [symmetric] rs(2) using mem by auto
    moreover have "distinct (map g (sn_block (?es ! (index - 1)) # ids'))"
      unfolding c(3) [symmetric]
      using distinct_map_concat_at [of g "map (fst \<circ> snd) rs" "index - 1"] assms(3) i by (simp add: rs(2))
    ultimately show ?thesis using c(1,2) rs(3) by (intro exI) auto
  qed
qed

context block_lookup
begin

lemma subnode_descend_correct:
  assumes "inv pc" "subnode_walk (subnode_fetch S N loc) h t = Inr (ls, ids, n)"
    and "subnode_ordered (subnode_fetch S N loc) h t" "depth + h \<le> Suc MAX_SUBNODE_TREE_DEPTH"
    and "nb_visited_entries budget + n \<le> MAX_SUBNODE_TREE_ENTRIES"
    and "distinct (map (\<lambda>i. ucast i :: u64) ids)" "(\<lambda>i. ucast i) ` set ids \<inter> nb_visited_blocks budget = {}"
  shows "\<exists>pc'. subnode_descend S N t node pc depth budget = (subnode_lookup node ls, pc') \<and> inv pc'"
  using assms
proof (induction h arbitrary: t ls ids n pc depth budget)
  case (Suc h t)
  show ?case
  proof (cases t)
    case (SubLeaf b)
    then have "nb_observe_tree depth (subnode_entry_count t) budget =
        Inr (budget\<lparr>nb_visited_entries := nb_visited_entries budget + length (sb_entries b)\<rparr>)"
      using Suc.prems by (subst observe_tree_Inr) (auto simp: subnode_entry_count_def)
    then show ?thesis using Suc.prems SubLeaf
      by (subst subnode_descend.simps) (auto simp: subnode_lookup_def split: option.split)
  next
    case (SubIntermediate b)
    let ?fetch = "subnode_fetch S N loc" and ?es = "sb_entries b"
    define index where "index = partition_point (\<lambda>e. sn_node e \<le> node) ?es"
    define budget1 where
      "budget1 = budget\<lparr>nb_visited_entries := nb_visited_entries budget + length ?es\<rparr>"
    note walk = walk_lookup [OF Suc.prems(2) [unfolded SubIntermediate] Suc.prems(3) [unfolded SubIntermediate]
        Suc.prems(6), of node, folded index_def]
    have "length ?es \<le> n"
      by (rule walk_children [OF Suc.prems(2) [unfolded SubIntermediate]]) simp
    then have obs: "nb_observe_tree depth (subnode_entry_count t) budget = Inr budget1"
      using Suc.prems(4,5) SubIntermediate
      by (subst observe_tree_Inr) (auto simp: subnode_entry_count_def budget1_def)
    show ?thesis
    proof (cases "index = 0")
      case True
      then show ?thesis using obs walk(2) Suc.prems(1) SubIntermediate
        by (subst subnode_descend.simps) (simp add: index_def [symmetric] Let_def)
    next
      case False
      let ?id = "sn_block (?es ! (index - 1))"
      obtain child ls' ids' n' where c: "?fetch ?id = Inr child"
        "subnode_walk ?fetch h child = Inr (ls', ids', n')" "subnode_ordered ?fetch h child"
        "subnode_lookup node ls = subnode_lookup node ls'" "length ?es + n' \<le> n"
        "set (?id # ids') \<subseteq> set ids" "distinct (map (\<lambda>i. ucast i :: u64) (?id # ids'))"
        using walk(3) [OF False] by blast
      define budget2 where
        "budget2 = budget1\<lparr>nb_visited_blocks := insert (ucast ?id) (nb_visited_blocks budget1)\<rparr>"
      have down: "nb_descend_to (ucast ?id) budget1 = Inr budget2"
        using Suc.prems(7) c(6) by (auto simp: nb_descend_to_def budget1_def budget2_def)
      obtain pc1 where f: "fetch_subnode_tree S N ?id pc = (Inr child, pc1)" "inv pc1"
        using fetch_subnode_tree_spec [OF Suc.prems(1)] c(1) by metis
      have step: "subnode_descend S N t node pc depth budget =
          subnode_descend S N child node pc1 (depth + 1) budget2"
        using obs down f walk(1) False SubIntermediate
        by (subst subnode_descend.simps) (simp add: index_def [symmetric] Let_def)
      have "\<exists>pc'. subnode_descend S N child node pc1 (depth + 1) budget2 =
          (subnode_lookup node ls', pc') \<and> inv pc'"
        using Suc.prems c by (intro Suc.IH [OF f(2) c(2,3)]) (auto simp: budget1_def budget2_def)
      then show ?thesis unfolding step c(4) .
    qed
  qed
qed simp

end

context block_lookup
begin

lemma find_leaf_entry_correct:
  assumes "inv pc"
    and "subnode_walk (subnode_fetch S N loc) (Suc MAX_SUBNODE_TREE_DEPTH) t = Inr (leaves, r)"
    and "subnode_within r" "subnode_ordered (subnode_fetch S N loc) (Suc MAX_SUBNODE_TREE_DEPTH) t"
  shows "\<exists>pc'. find_leaf_entry_bounded S N t node pc = (subnode_lookup node leaves, pc') \<and> inv pc'"
  using subnode_descend_correct [of pc N "Suc MAX_SUBNODE_TREE_DEPTH" t leaves "fst r" "snd r" 0
      subnode_budget_default node] assms
  by (simp add: find_leaf_entry_bounded_def subnode_within_def subnode_budget_default_def)

end

section \<open>Properties\<close>

text \<open>
  C22. A block of a sub-node tree, leaf or intermediate, is stored so that reading it gives it
  back with the size and checksum of the stored bytes in its trailer, in both file formats.
\<close>

theorem subnode_tree_round_trip:
  "(subnode_tree_ok unicode_format unicode_subnode_format t \<longrightarrow>
    (\<exists>file'. subnode_tree_write unicode_format unicode_subnode_format t file block = Inr file' \<and>
      subnode_tree_read unicode_format unicode_subnode_format file' block
        (word_of_nat (length (subnode_stored unicode_subnode_format t))) =
        Inr (subnode_sealed unicode_subnode_format t))) \<and>
   (subnode_tree_ok ansi_format ansi_subnode_format u \<longrightarrow>
    (\<exists>file'. subnode_tree_write ansi_format ansi_subnode_format u file block' = Inr file' \<and>
      subnode_tree_read ansi_format ansi_subnode_format file' block'
        (word_of_nat (length (subnode_stored ansi_subnode_format u))) =
        Inr (subnode_sealed ansi_subnode_format u)))"
  by (intro conjI impI usub.subnode_tree_write_read asub.subnode_tree_write_read)

lemma sample_subnode_tree_ok:
  "subnode_tree_ok unicode_format unicode_subnode_format sample_subnode_tree"
  by (simp add: subnode_tree_ok_def sample_subnode_tree_def MAX_BLOCK_SIZE_def unicode_format_def
      unicode_subnode_format_def block_id_is_internal_def subnode_leaf_ok_def)

theorem subnode_tree_round_trip_witness:
  "\<exists>file'. subnode_tree_write unicode_format unicode_subnode_format sample_subnode_tree [] sample_block_ref =
      Inr file' \<and>
    subnode_tree_read unicode_format unicode_subnode_format file' sample_block_ref
      (word_of_nat (length (subnode_stored unicode_subnode_format sample_subnode_tree))) =
      Inr (subnode_sealed unicode_subnode_format sample_subnode_tree)"
  using subnode_tree_round_trip [of sample_subnode_tree "[]" sample_block_ref] sample_subnode_tree_ok
  by blast

text \<open>
  C20. Enumerating a sub-node tree always returns. It yields the leaf entries in order exactly
  when the recursive walk succeeds on at most 33 levels, the blocks hold at most 4096 entries
  together and no block occurs twice; it fails otherwise, cycles included. For both formats.
\<close>

theorem subnode_entries_spec:
  "(unicode_lookup_ok h file page pc \<longrightarrow>
    (\<exists>res pc'. subnode_entries (unicode_source (Suc h) file encoding page) unicode_subnode_format t pc = (res, pc') \<and>
      unicode_lookup_ok h file page pc' \<and>
      (\<forall>out. res = Inr out \<longleftrightarrow> (\<exists>r. subnode_walk (subnode_fetch (unicode_source (Suc h) file encoding page)
          unicode_subnode_format (unicode_lookup h file page)) (Suc MAX_SUBNODE_TREE_DEPTH) t = Inr (out, r) \<and>
        subnode_within r)))) \<and>
   (ansi_lookup_ok h file page' pa \<longrightarrow>
    (\<exists>res pc'. subnode_entries (ansi_source (Suc h) file encoding page') ansi_subnode_format u pa = (res, pc') \<and>
      ansi_lookup_ok h file page' pc' \<and>
      (\<forall>out. res = Inr out \<longleftrightarrow> (\<exists>r. subnode_walk (subnode_fetch (ansi_source (Suc h) file encoding page')
          ansi_subnode_format (ansi_lookup h file page')) (Suc MAX_SUBNODE_TREE_DEPTH) u = Inr (out, r) \<and>
        subnode_within r))))"
  by (intro conjI impI usource.subnode_entries_correct asource.subnode_entries_correct)

theorem subnode_entries_spec_witness:
  "\<exists>pc'. subnode_entries sample_source unicode_subnode_format sample_subnode_tree (\<lambda>_. None) =
    (Inr [\<lparr>sl_node = 0x671, sl_block = 4, sl_sub_node = None\<rparr>], pc')"
proof -
  obtain res pc' where r: "subnode_entries sample_source unicode_subnode_format sample_subnode_tree (\<lambda>_. None) = (res, pc')"
    "\<forall>out. res = Inr out \<longleftrightarrow> (\<exists>r. subnode_walk (subnode_fetch sample_source unicode_subnode_format
        (unicode_lookup 0 sample_file sample_block_page)) (Suc MAX_SUBNODE_TREE_DEPTH) sample_subnode_tree =
        Inr (out, r) \<and> subnode_within r)"
    using subnode_entries_spec [of 0 sample_file sample_block_page "\<lambda>_. None" Permute sample_subnode_tree,
        THEN conjunct1, THEN mp, OF sample_tree_facts(1)] by (elim exE conjE)
  then have "res = Inr [\<lparr>sl_node = 0x671, sl_block = 4, sl_sub_node = None\<rparr>]"
    by (simp add: sample_subnode_tree_def subnode_within_def MAX_SUBNODE_TREE_ENTRIES_def)
  then show ?thesis using r(1) by blast
qed

text \<open>
  C19. The search for a sub-node agrees with the enumeration: on an ordered tree within the
  budget it returns the first leaf entry with the wanted node, or the error that there is none;
  the budget of the search never fails where the enumeration succeeds. For both formats.
\<close>

theorem find_leaf_entry_spec:
  "(unicode_lookup_ok h file page pc \<and>
      subnode_walk (subnode_fetch (unicode_source (Suc h) file encoding page) unicode_subnode_format
        (unicode_lookup h file page)) (Suc MAX_SUBNODE_TREE_DEPTH) t = Inr (leaves, r) \<and> subnode_within r \<and>
      subnode_ordered (subnode_fetch (unicode_source (Suc h) file encoding page) unicode_subnode_format
        (unicode_lookup h file page)) (Suc MAX_SUBNODE_TREE_DEPTH) t \<longrightarrow>
    (\<exists>pc'. find_leaf_entry_bounded (unicode_source (Suc h) file encoding page) unicode_subnode_format t node pc =
      (subnode_lookup node leaves, pc') \<and> unicode_lookup_ok h file page pc')) \<and>
   (ansi_lookup_ok h file page' pa \<and>
      subnode_walk (subnode_fetch (ansi_source (Suc h) file encoding page') ansi_subnode_format
        (ansi_lookup h file page')) (Suc MAX_SUBNODE_TREE_DEPTH) u = Inr (leaves', r') \<and> subnode_within r' \<and>
      subnode_ordered (subnode_fetch (ansi_source (Suc h) file encoding page') ansi_subnode_format
        (ansi_lookup h file page')) (Suc MAX_SUBNODE_TREE_DEPTH) u \<longrightarrow>
    (\<exists>pc'. find_leaf_entry_bounded (ansi_source (Suc h) file encoding page') ansi_subnode_format u node pa =
      (subnode_lookup node leaves', pc') \<and> ansi_lookup_ok h file page' pc'))"
  by (intro conjI impI; elim conjE)
    (rule usource.find_leaf_entry_correct asource.find_leaf_entry_correct; assumption)+

theorem find_leaf_entry_spec_witness:
  "\<exists>pc'. find_leaf_entry_bounded sample_source unicode_subnode_format sample_subnode_tree 0x671 (\<lambda>_. None) =
    (Inr \<lparr>sl_node = 0x671, sl_block = 4, sl_sub_node = None\<rparr>, pc')"
proof -
  have "subnode_walk (subnode_fetch sample_source unicode_subnode_format (unicode_lookup 0 sample_file sample_block_page))
      (Suc MAX_SUBNODE_TREE_DEPTH) sample_subnode_tree =
      Inr ([\<lparr>sl_node = 0x671, sl_block = 4, sl_sub_node = None\<rparr>], [], 1)"
    "subnode_ordered (subnode_fetch sample_source unicode_subnode_format (unicode_lookup 0 sample_file sample_block_page))
      (Suc MAX_SUBNODE_TREE_DEPTH) sample_subnode_tree"
    "subnode_within ([] :: u64 list, 1)"
    by (simp_all add: sample_subnode_tree_def subnode_within_def MAX_SUBNODE_TREE_ENTRIES_def)
  then have "\<exists>pc'. find_leaf_entry_bounded sample_source unicode_subnode_format sample_subnode_tree 0x671 (\<lambda>_. None) =
      (subnode_lookup 0x671 [\<lparr>sl_node = 0x671, sl_block = 4, sl_sub_node = None\<rparr>], pc')"
    using find_leaf_entry_spec [of 0 sample_file sample_block_page "\<lambda>_. None" Permute sample_subnode_tree
        "[\<lparr>sl_node = 0x671, sl_block = 4, sl_sub_node = None\<rparr>]" "([], 1)" "0x671"] sample_tree_facts(1)
    by blast
  then show ?thesis by (simp add: subnode_lookup_def)
qed

end
