(* ===== verification/Ltp_Heap.thy ===== *)
theory Ltp_Heap
  imports Ndb_DataTree
begin

text \<open>
  The heap on a node (\<open>heap.rs\<close>) and the B-tree on a heap (\<open>tree.rs\<close>): heap identifiers, the
  headers of heap blocks with their packed fill levels, the page map with the offsets of the
  allocations, the lookup of an allocation, and the entries of a tree whose records are heap
  allocations. A heap is the list of the data of its blocks. A slice that passes the end of a
  block is a panic of the program.
\<close>

section \<open>Heap identifiers\<close>

type_synonym heap_id = u32

definition HEAP_INDEX_MASK :: u32 where
  "HEAP_INDEX_MASK = ucast (word_rotr 5 (1 :: u16) - 1)"

definition heap_id_new :: "u16 \<Rightarrow> u16 \<Rightarrow> ltp_error + heap_id" where
  "heap_id_new index block_index =
    (let shifted_index = word_rotl 5 index in
     if shifted_index AND 0x1F \<noteq> 0 then Inl (InvalidHeapIndex index)
     else let node_index = push_bit 11 (ucast block_index) OR ucast index in
       (case node_id_new HeapNode node_index of Inl e \<Rightarrow> Inl (NodeDatabaseError e)
        | Inr nid \<Rightarrow> Inr nid))"

definition heap_id_index :: "heap_id \<Rightarrow> ltp_error + u16" where
  "heap_id_index hid =
    (let index = ucast (node_id_index hid AND HEAP_INDEX_MASK) in
     if index < 1 then Inl (InvalidHeapIndex index) else Inr (index - 1))"

definition heap_id_block_index :: "heap_id \<Rightarrow> u16" where
  "heap_id_block_index hid = ucast (drop_bit 11 (node_id_index hid))"

definition heap_id_read :: "heap_id decoder" where
  "heap_id_read f =
    (case node_id_read f of Inl e \<Rightarrow> Inl e | Inr (value, f) \<Rightarrow>
    (case node_id_id_type value of Inl e \<Rightarrow> Inl (NdbIo e) | Inr id_type \<Rightarrow>
     if id_type \<noteq> HeapNode then Inl (LtpIo (InvalidNodeType id_type)) else Inr (value, f)))"

definition heap_id_write :: "heap_id \<Rightarrow> bytes" where
  "heap_id_write hid = node_id_write hid"

section \<open>Fill levels and headers\<close>

definition FILL_LEVELS :: "heap_fill_level list" where
  "FILL_LEVELS = [LevelEmpty, Level1, Level2, Level3, Level4, Level5, Level6, Level7, Level8, Level9,
     Level10, Level11, Level12, Level13, Level14, Level15]"

definition unpack_fill_levels :: "u32 \<Rightarrow> heap_fill_level list" where
  "unpack_fill_levels value =
    map (\<lambda>index. FILL_LEVELS ! unat (drop_bit (index * 4) value AND 0x0F)) [0..<8]"

fun pack_fill_levels_fold :: "u32 \<Rightarrow> nat \<Rightarrow> heap_fill_level list \<Rightarrow> u32" where
  "pack_fill_levels_fold acc index [] = acc"
| "pack_fill_levels_fold acc index (level # levels) =
    pack_fill_levels_fold (acc OR push_bit (index * 4) (ucast (heap_fill_level_code level))) (Suc index) levels"

definition pack_fill_levels :: "heap_fill_level list \<Rightarrow> u32" where
  "pack_fill_levels fill_levels = pack_fill_levels_fold 0 0 fill_levels"

record heap_node_header =
  hn_page_map_offset :: u16
  hn_client_signature :: heap_node_type
  hn_user_root :: heap_id
  hn_fill_levels :: "heap_fill_level list"

definition heap_node_header_read :: "heap_node_header decoder" where
  "heap_node_header_read f =
    (case read_u16 f of Inl e \<Rightarrow> Inl e | Inr (page_map_offset, f) \<Rightarrow>
    (case read_u8 f of Inl e \<Rightarrow> Inl e | Inr (heap_signature, f) \<Rightarrow>
    (if heap_signature \<noteq> 0xEC then Inl (LtpIo (InvalidHeapNodeSignature heap_signature)) else
    (case read_u8 f of Inl e \<Rightarrow> Inl e | Inr (signature, f) \<Rightarrow>
    (case heap_node_type_try_from signature of Inl e \<Rightarrow> Inl (LtpIo e) | Inr client_signature \<Rightarrow>
    (case heap_id_read f of Inl e \<Rightarrow> Inl e | Inr (user_root, f) \<Rightarrow>
    (case read_u32 f of Inl e \<Rightarrow> Inl e | Inr (fill_levels, f) \<Rightarrow>
     Inr (\<lparr>hn_page_map_offset = page_map_offset, hn_client_signature = client_signature,
       hn_user_root = user_root, hn_fill_levels = unpack_fill_levels fill_levels\<rparr>, f))))))))"

definition heap_node_header_write :: "heap_node_header \<Rightarrow> bytes" where
  "heap_node_header_write h =
    write_u16 (hn_page_map_offset h) @ write_u8 0xEC @
    write_u8 (heap_node_type_code (hn_client_signature h)) @ heap_id_write (hn_user_root h) @
    write_u32 (pack_fill_levels (hn_fill_levels h))"

definition heap_page_header_read :: "u16 decoder" where
  "heap_page_header_read = read_u16"

definition heap_page_header_write :: "u16 \<Rightarrow> bytes" where
  "heap_page_header_write page_map_offset = write_u16 page_map_offset"

record heap_bitmap_header =
  hb_page_map_offset :: u16
  hb_fill_levels :: "heap_fill_level list"

definition heap_bitmap_header_read :: "heap_bitmap_header decoder" where
  "heap_bitmap_header_read f =
    (case read_u16 f of Inl e \<Rightarrow> Inl e | Inr (page_map_offset, f) \<Rightarrow>
    (case read_many 16 read_u32 f of Inl e \<Rightarrow> Inl e | Inr (packed, f) \<Rightarrow>
     Inr (\<lparr>hb_page_map_offset = page_map_offset,
       hb_fill_levels = concat (map unpack_fill_levels packed)\<rparr>, f)))"

definition heap_bitmap_header_write :: "heap_bitmap_header \<Rightarrow> bytes" where
  "heap_bitmap_header_write h =
    write_u16 (hb_page_map_offset h) @
    concat (map (\<lambda>i. write_u32 (pack_fill_levels (take 8 (drop (i * 8) (hb_fill_levels h))))) [0..<16])"

section \<open>The page map\<close>

record heap_page_alloc =
  ha_offset :: u16
  ha_size :: u16

record heap_page_map =
  pm_allocations :: "heap_page_alloc list"
  pm_next_offset :: u16
  pm_free_count :: u16

text \<open>The closure that turns offsets into allocations, with its captured state.\<close>

fun page_map_loop ::
  "u16 list \<Rightarrow> u16 option \<Rightarrow> u16 \<Rightarrow> ltp_error + heap_page_alloc list \<times> u16 option \<times> u16" where
  "page_map_loop [] offset free_count = Inr ([], offset, free_count)"
| "page_map_loop (next_offset # offsets) offset free_count =
    (case offset of
       None \<Rightarrow> page_map_loop offsets (Some next_offset) free_count
     | Some last_offset \<Rightarrow>
       if next_offset < last_offset then Inl (InvalidHeapPageAllocOffset next_offset)
       else let sz = next_offset - last_offset;
                alloc = \<lparr>ha_offset = last_offset, ha_size = sz\<rparr> in
         if sz = 0
         then (if 1 + unat free_count \<ge> 2 ^ 16 then Inl HeapPageOutOfSpace
               else (case page_map_loop offsets offset (free_count + 1) of Inl e \<Rightarrow> Inl e
                 | Inr (allocations, r) \<Rightarrow> Inr (alloc # allocations, r)))
         else (case page_map_loop offsets (Some next_offset) free_count of Inl e \<Rightarrow> Inl e
               | Inr (allocations, r) \<Rightarrow> Inr (alloc # allocations, r)))"

definition page_map_try_from :: "u16 list \<Rightarrow> ltp_error + heap_page_map" where
  "page_map_try_from offsets =
    (case page_map_loop offsets None 0 of Inl e \<Rightarrow> Inl e
     | Inr (allocations, None, _) \<Rightarrow> Inl EmptyHeapPageAlloc
     | Inr (allocations, Some next_offset, free_count) \<Rightarrow>
       Inr \<lparr>pm_allocations = allocations, pm_next_offset = next_offset, pm_free_count = free_count\<rparr>)"

definition page_map_new :: "u16 \<Rightarrow> u16 \<Rightarrow> u16 list \<Rightarrow> ltp_error + heap_page_map" where
  "page_map_new alloc_count free_count offsets =
    (case page_map_try_from offsets of Inl e \<Rightarrow> Inl e
     | Inr page_map \<Rightarrow>
       if unat alloc_count \<noteq> length (pm_allocations page_map)
       then Inl (InvalidHeapPageAllocCount alloc_count)
       else if free_count \<noteq> pm_free_count page_map then Inl (InvalidHeapPageFreeCount free_count)
       else Inr page_map)"

definition page_map_read :: "heap_page_map decoder" where
  "page_map_read f =
    (case read_u16 f of Inl e \<Rightarrow> Inl e | Inr (alloc_count, f) \<Rightarrow>
    (case read_u16 f of Inl e \<Rightarrow> Inl e | Inr (free_count, f) \<Rightarrow>
    (case read_many (Suc (unat alloc_count)) read_u16 f of Inl e \<Rightarrow> Inl e | Inr (offsets, f) \<Rightarrow>
    (case page_map_new alloc_count free_count offsets of Inl e \<Rightarrow> Inl (LtpIo e)
     | Inr page_map \<Rightarrow> Inr (page_map, f)))))"

definition page_map_write :: "heap_page_map \<Rightarrow> io_error + bytes" where
  "page_map_write m =
    (if length (pm_allocations m) \<ge> 2 ^ 16 then Inl (LtpIo HeapPageOutOfSpace)
     else Inr (write_u16 (word_of_nat (length (pm_allocations m))) @ write_u16 (pm_free_count m) @
       concat (map (\<lambda>a. write_u16 (ha_offset a)) (pm_allocations m)) @
       write_u16 (if pm_allocations m = [] then 0
         else ha_offset (last (pm_allocations m)) + ha_size (last (pm_allocations m)))))"

section \<open>Allocations\<close>

type_synonym heap_node = "bytes list"

definition heap_node_read ::
  "('a::len word, 'e, 'c) block_source \<Rightarrow> 'a word \<Rightarrow> 'c \<Rightarrow> (io_error + heap_node) \<times> 'c" where
  "heap_node_read S key pc =
    (case bs_find S key pc of (Inl e, pc) \<Rightarrow> (Inl e, pc)
     | (Inr block, pc) \<Rightarrow>
       (case read_entry_tree S block of Inl e \<Rightarrow> (Inl e, pc)
        | Inr data_tree \<Rightarrow>
          (case data_tree_blocks S data_tree pc (\<lambda>_. None) of
             (Inl e, pc, _) \<Rightarrow> (Inl e, pc)
           | (Inr blocks, pc, _) \<Rightarrow> (Inr (map db_data blocks), pc))))"

definition heap_header :: "heap_node \<Rightarrow> io_error + heap_node_header" where
  "heap_header heap =
    (case heap of [] \<Rightarrow> Inl (Io UnexpectedEof)
     | data # _ \<Rightarrow> (case heap_node_header_read data of Inl e \<Rightarrow> Inl e | Inr (header, _) \<Rightarrow> Inr header))"

definition heap_page_map_offset :: "u16 \<Rightarrow> bytes \<Rightarrow> io_error + u16" where
  "heap_page_map_offset block_index block =
    (if block_index = 0
     then (case heap_node_header_read block of Inl e \<Rightarrow> Inl e | Inr (h, _) \<Rightarrow> Inr (hn_page_map_offset h))
     else if block_index mod 128 = 8
     then (case heap_bitmap_header_read block of Inl e \<Rightarrow> Inl e | Inr (h, _) \<Rightarrow> Inr (hb_page_map_offset h))
     else (case heap_page_header_read block of Inl e \<Rightarrow> Inl e | Inr (h, _) \<Rightarrow> Inr h))"

definition heap_find_entry :: "heap_node \<Rightarrow> heap_id \<Rightarrow> io_error + bytes" where
  "heap_find_entry heap heap_id =
    (let block_index = heap_id_block_index heap_id in
     if unat block_index \<ge> length heap then Inl (LtpIo (HeapBlockIndexNotFound block_index))
     else let block = heap ! unat block_index in
    (case heap_page_map_offset block_index block of Inl e \<Rightarrow> Inl e | Inr page_map_offset \<Rightarrow>
    (case page_map_read (drop (unat page_map_offset) block) of Inl e \<Rightarrow> Inl e | Inr (page_map, _) \<Rightarrow>
    (let allocations = pm_allocations page_map in
    (case heap_id_index heap_id of Inl e \<Rightarrow> Inl (LtpIo e) | Inr index \<Rightarrow>
     if unat index \<ge> length allocations then Inl (LtpIo (HeapAllocIndexNotFound index))
     else let alloc = allocations ! unat index;
              start = unat (ha_offset alloc);
              end = start + unat (ha_size alloc) in
       if end > length block then Inl Panic
       else Inr (take (end - start) (drop start block)))))))"

section \<open>The tree on a heap\<close>

record heap_tree_header =
  ht_key_size :: u8
  ht_entry_size :: u8
  ht_levels :: u8
  ht_root :: heap_id

definition heap_tree_header_new :: "u8 \<Rightarrow> u8 \<Rightarrow> u8 \<Rightarrow> heap_id \<Rightarrow> ltp_error + heap_tree_header" where
  "heap_tree_header_new key_size entry_size levels root =
    (if key_size \<notin> {2, 4, 8, 16} then Inl (InvalidHeapTreeKeySize key_size)
     else if \<not> (1 \<le> entry_size \<and> entry_size \<le> 32) then Inl (InvalidHeapTreeDataSize entry_size)
     else Inr \<lparr>ht_key_size = key_size, ht_entry_size = entry_size, ht_levels = levels, ht_root = root\<rparr>)"

definition heap_tree_header_read :: "heap_tree_header decoder" where
  "heap_tree_header_read f =
    (case read_u8 f of Inl e \<Rightarrow> Inl e | Inr (code, f) \<Rightarrow>
    (case heap_node_type_try_from code of Inl e \<Rightarrow> Inl (LtpIo e) | Inr heap_type \<Rightarrow>
    (if heap_type \<noteq> HeapTypeTree then Inl (LtpIo (InvalidHeapTreeNodeType heap_type)) else
    (case read_u8 f of Inl e \<Rightarrow> Inl e | Inr (key_size, f) \<Rightarrow>
    (case read_u8 f of Inl e \<Rightarrow> Inl e | Inr (entry_size, f) \<Rightarrow>
    (case read_u8 f of Inl e \<Rightarrow> Inl e | Inr (levels, f) \<Rightarrow>
    (case heap_id_read f of Inl e \<Rightarrow> Inl e | Inr (root, f) \<Rightarrow>
    (case heap_tree_header_new key_size entry_size levels root of Inl e \<Rightarrow> Inl (LtpIo e)
     | Inr h \<Rightarrow> Inr (h, f)))))))))"

definition heap_tree_header_write :: "heap_tree_header \<Rightarrow> bytes" where
  "heap_tree_header_write h = write_u8 (heap_node_type_code HeapTypeTree) @ write_u8 (ht_key_size h) @
    write_u8 (ht_entry_size h) @ write_u8 (ht_levels h) @ heap_id_write (ht_root h)"

text \<open>
  The records of an allocation: rows are read until one fails. A row takes at least one byte,
  so \<open>length bs\<close> rounds are enough.
\<close>

fun read_rows :: "nat \<Rightarrow> 'r decoder \<Rightarrow> bytes \<Rightarrow> 'r list" where
  "read_rows 0 row bs = []"
| "read_rows (Suc fuel) row bs =
    (case row bs of Inl _ \<Rightarrow> [] | Inr (r, bs) \<Rightarrow> r # read_rows fuel row bs)"

definition intermediate_row :: "'k decoder \<Rightarrow> ('k \<times> heap_id) decoder" where
  "intermediate_row key f =
    (case key f of Inl e \<Rightarrow> Inl e | Inr (k, f) \<Rightarrow>
    (case heap_id_read f of Inl e \<Rightarrow> Inl e | Inr (next_level, f) \<Rightarrow> Inr ((k, next_level), f)))"

definition leaf_row :: "'k decoder \<Rightarrow> 'v decoder \<Rightarrow> ('k \<times> 'v) decoder" where
  "leaf_row key value f =
    (case key f of Inl e \<Rightarrow> Inl e | Inr (k, f) \<Rightarrow>
    (case value f of Inl e \<Rightarrow> Inl e | Inr (v, f) \<Rightarrow> Inr ((k, v), f)))"

text \<open>The rows of a list of allocations, in order.\<close>

fun rows_of :: "heap_node \<Rightarrow> 'r decoder \<Rightarrow> heap_id list \<Rightarrow> io_error + 'r list" where
  "rows_of heap row [] = Inr []"
| "rows_of heap row (heap_id # ids) =
    (case heap_find_entry heap heap_id of Inl e \<Rightarrow> Inl e
     | Inr bs \<Rightarrow> (case rows_of heap row ids of Inl e \<Rightarrow> Inl e
       | Inr rs \<Rightarrow> Inr (read_rows (length bs) row bs @ rs)))"

fun heap_tree_levels :: "heap_node \<Rightarrow> 'k decoder \<Rightarrow> nat \<Rightarrow> heap_id list \<Rightarrow> io_error + heap_id list" where
  "heap_tree_levels heap key 0 next_level = Inr next_level"
| "heap_tree_levels heap key (Suc level) next_level =
    (case rows_of heap (intermediate_row key) next_level of Inl e \<Rightarrow> Inl e
     | Inr rows \<Rightarrow> heap_tree_levels heap key level (map snd rows))"

definition heap_tree_header_of :: "heap_node \<Rightarrow> heap_id \<Rightarrow> io_error + heap_tree_header" where
  "heap_tree_header_of heap user_root =
    (case heap_find_entry heap user_root of Inl e \<Rightarrow> Inl e
     | Inr bs \<Rightarrow> (case heap_tree_header_read bs of Inl e \<Rightarrow> Inl e | Inr (h, _) \<Rightarrow> Inr h))"

definition heap_tree_entries ::
  "u8 \<Rightarrow> u8 \<Rightarrow> 'k decoder \<Rightarrow> 'v decoder \<Rightarrow> heap_node \<Rightarrow> heap_id \<Rightarrow> io_error + ('k \<times> 'v) list" where
  "heap_tree_entries KEY_SIZE VALUE_SIZE key value heap user_root =
    (case heap_tree_header_of heap user_root of Inl e \<Rightarrow> Inl e
     | Inr header \<Rightarrow>
       if ht_key_size header \<noteq> KEY_SIZE then Inl (LtpIo (InvalidHeapTreeKeySize (ht_key_size header)))
       else if ht_entry_size header \<noteq> VALUE_SIZE
       then Inl (LtpIo (InvalidHeapTreeDataSize (ht_entry_size header)))
       else if ht_root header = 0 then Inr []
       else (case heap_tree_levels heap key (unat (ht_levels header)) [ht_root header] of
               Inl e \<Rightarrow> Inl e
             | Inr leaves \<Rightarrow> rows_of heap (leaf_row key value) leaves))"


section \<open>Identifiers and headers\<close>

lemma case_sum_mapped_Inr_iff [pst_result]:
  "(case r of Inl e \<Rightarrow> Inl (f e) | Inr x \<Rightarrow> k x) = Inr y \<longleftrightarrow> (\<exists>x. r = Inr x \<and> k x = Inr y)"
  by (cases r) auto

lemma heap_index_mask: "HEAP_INDEX_MASK = mask 11"
  by (simp add: HEAP_INDEX_MASK_def) code_simp

lemma node_id_type_heap [simp]: "node_id_type_code HeapNode = 0" "node_id_type_try_from 0 = Inr HeapNode"
  by (simp_all add: node_id_type_try_from_def)

lemma from_le_u16 [simp]: "from_le (write_u16 w) = w"
  using take_bit_length_eq [of w] by (simp add: from_le_to_le)

lemma heap_id_new_cases:
  "heap_id_new index block_index =
    (if unat index < 2 ^ 11 then Inr (push_bit 5 (push_bit 11 (ucast block_index) OR ucast index))
     else Inl (InvalidHeapIndex index))"
proof (cases "unat index < 2 ^ 11")
  case True
  define n :: u32 where "n = push_bit 11 (ucast block_index) OR ucast index"
  have ib: "bit index j \<Longrightarrow> j < 11" for j using True by (simp only: unat_less_exp_iff_bits)
  have bb: "bit block_index j \<Longrightarrow> j < 16" for j by (drule bit_imp_le_length) simp
  have "bit n j \<Longrightarrow> j < 27" for j
    by (auto simp: n_def bit_simps dest!: ib bb)
  then have n: "unat n < 2 ^ 27" by (simp only: unat_less_exp_iff_bits) blast
  have low: "word_rotl 5 index AND mask 5 = 0"
    using True rotl_low_zero_iff [of 5 index] by simp
  have "word_rotl 5 n = push_bit 5 n"
    using rotl_or_fields(3) [of 5 n 0] n by simp
  moreover have "word_rotl 5 n AND mask 5 = 0"
    using n rotl_low_zero_iff [of 5 n] by simp
  ultimately show ?thesis
    using True low by (simp add: heap_id_new_def node_id_new_def Let_def flag_3_mask n_def [symmetric])
next
  case False
  then show ?thesis
    using rotl_low_zero_iff [of 5 index] by (simp add: heap_id_new_def Let_def flag_3_mask)
qed

lemma heap_id_fields:
  fixes index block_index :: u16
  assumes "unat index < 2 ^ 11"
  defines "hid \<equiv> push_bit 5 (push_bit 11 (ucast block_index) OR ucast index :: u32)"
  shows "heap_id_block_index hid = block_index" "node_id_index hid AND HEAP_INDEX_MASK = ucast index"
    "hid AND mask 5 = 0"
proof -
  have ib: "bit index j \<Longrightarrow> j < 11" for j using assms(1) by (simp only: unat_less_exp_iff_bits)
  have bb: "bit block_index j \<Longrightarrow> j < 16" for j by (drule bit_imp_le_length) simp
  show "heap_id_block_index hid = block_index"
    by (rule bit_word_eqI) (auto simp: heap_id_block_index_def node_id_index_def hid_def bit_simps
        dest: ib bb)
  show "node_id_index hid AND HEAP_INDEX_MASK = ucast index"
    by (rule bit_word_eqI) (auto simp: node_id_index_def hid_def bit_simps heap_index_mask dest: ib bb)
  show "hid AND mask 5 = 0"
    by (rule bit_word_eqI) (auto simp: hid_def bit_simps)
qed

lemma heap_id_codec:
  "nid AND mask 5 = 0 \<Longrightarrow> heap_id_read (heap_id_write nid @ rest) = Inr (nid, rest)"
  by (simp add: heap_id_read_def heap_id_write_def node_id_read_def node_id_write_def
      node_id_id_type_def flag_3_mask)

lemma ucast_u16_u32: "ucast (ucast (w :: u16) :: u32) = w"
  by (rule bit_word_eqI) (auto simp: bit_simps)

lemma heap_id_index_new:
  "heap_id_new index block_index = Inr hid \<Longrightarrow> 0 < index \<Longrightarrow> heap_id_index hid = Inr (index - 1)"
  using heap_id_fields [of index block_index]
  by (auto simp: heap_id_new_cases heap_id_index_def Let_def word_gt_0 word_less_1 ucast_u16_u32
      split: if_splits)

lemma heap_id_block_index_new:
  "heap_id_new index block_index = Inr hid \<Longrightarrow> heap_id_block_index hid = block_index"
  using heap_id_fields [of index block_index] by (auto simp: heap_id_new_cases split: if_splits)

lemma heap_id_new_codec:
  "heap_id_new index block_index = Inr hid \<Longrightarrow> heap_id_read (heap_id_write hid @ rest) = Inr (hid, rest)"
  using heap_id_fields [of index block_index] by (auto simp: heap_id_new_cases heap_id_codec split: if_splits)

lemma level_code_bound: "bit (heap_fill_level_code l) n \<Longrightarrow> n < 4"
proof -
  have "unat (heap_fill_level_code l) < 2 ^ 4" by (cases l) simp_all
  then show "bit (heap_fill_level_code l) n \<Longrightarrow> n < 4" by (simp only: unat_less_exp_iff_bits)
qed

lemma FILL_LEVELS_code [simp]: "FILL_LEVELS ! unat (heap_fill_level_code l) = l"
  by (cases l) (simp_all add: FILL_LEVELS_def)

lemma bit_pack_fold:
  "bit (pack_fill_levels_fold acc index ls) j \<longleftrightarrow>
     bit acc j \<or> j < 32 \<and> index \<le> j div 4 \<and> j div 4 < index + length ls \<and>
       bit (heap_fill_level_code (ls ! (j div 4 - index))) (j mod 4)"
proof (induction ls arbitrary: acc index)
  case Nil
  then show ?case by auto
next
  case (Cons l ls)
  have shifted: "bit (push_bit (index * 4) (ucast (heap_fill_level_code l)) :: u32) j \<longleftrightarrow>
      j < 32 \<and> j div 4 = index \<and> bit (heap_fill_level_code l) (j mod 4)"
  proof -
    have "j div 4 = index \<longleftrightarrow> index * 4 \<le> j \<and> j - index * 4 < 4" by auto
    moreover have "index * 4 \<le> j \<and> j - index * 4 < 4 \<Longrightarrow> j mod 4 = j - index * 4"
      by presburger
    ultimately show ?thesis by (auto simp: bit_simps dest: level_code_bound)
  qed
  have "(l # ls) ! (j div 4 - index) = (if j div 4 = index then l else ls ! (j div 4 - Suc index))"
    if "index \<le> j div 4" using that by (auto simp: nth_Cons')
  then show ?case by (auto simp: Cons.IH bit_or_iff shifted split: if_splits)
qed

lemma unpack_pack:
  assumes "length ls = 8"
  shows "unpack_fill_levels (pack_fill_levels ls) = ls"
proof (rule nth_equalityI)
  fix i assume "i < length (unpack_fill_levels (pack_fill_levels ls))"
  then have i: "i < 8" by (simp add: unpack_fill_levels_def)
  have "drop_bit (i * 4) (pack_fill_levels ls) AND mask 4 = (ucast (heap_fill_level_code (ls ! i)) :: u32)"
  proof (rule bit_word_eqI)
    fix m assume "m < LENGTH(32)"
    have "bit (drop_bit (i * 4) (pack_fill_levels ls) AND mask 4) m \<longleftrightarrow>
        m < 4 \<and> bit (heap_fill_level_code (ls ! i)) m"
      using i assms by (auto simp: bit_simps pack_fill_levels_def bit_pack_fold div_add1_eq)
    also have "\<dots> \<longleftrightarrow> bit (ucast (heap_fill_level_code (ls ! i)) :: u32) m"
      using \<open>m < LENGTH(32)\<close> by (auto simp: bit_simps dest: level_code_bound)
    finally show "bit (drop_bit (i * 4) (pack_fill_levels ls) AND mask 4) m \<longleftrightarrow>
        bit (ucast (heap_fill_level_code (ls ! i)) :: u32) m" .
  qed
  moreover have "unat (ucast (heap_fill_level_code l) :: u32) = unat (heap_fill_level_code l)" for l
    by (cases l) simp_all
  moreover have "(0x0F :: u32) = mask 4" by (simp add: mask_eq_exp_minus_1)
  ultimately show "unpack_fill_levels (pack_fill_levels ls) ! i = ls ! i"
    using i by (simp add: unpack_fill_levels_def)
qed (simp add: assms unpack_fill_levels_def)

definition heap_header_ok :: "heap_node_header \<Rightarrow> bool" where
  "heap_header_ok h \<longleftrightarrow> length (hn_fill_levels h) = 8 \<and> hn_user_root h AND mask 5 = 0"

lemma heap_node_header_codec:
  "heap_header_ok h \<Longrightarrow> heap_node_header_read (heap_node_header_write h @ rest) = Inr (h, rest)"
  by (simp add: heap_header_ok_def heap_node_header_read_def heap_node_header_write_def heap_id_codec
      unpack_pack)

lemma length_heap_node_header [simp]: "length (heap_node_header_write h) = 12"
  by (simp add: heap_node_header_write_def heap_id_write_def node_id_write_def)

lemma heap_bitmap_header_codec:
  assumes "length (hb_fill_levels h) = 128"
  shows "heap_bitmap_header_read (heap_bitmap_header_write h @ rest) = Inr (h, rest)"
proof -
  let ?part = "\<lambda>i. take 8 (drop (i * 8) (hb_fill_levels h))"
  have "concat (map ?part [0..<n]) = take (n * 8) (hb_fill_levels h)" if "n \<le> 16" for n
    using that
  proof (induction n)
    case (Suc n)
    have "take (Suc n * 8) (hb_fill_levels h) = take (n * 8) (hb_fill_levels h) @ ?part n"
      using take_add [of "n * 8" 8] by (simp add: add.commute)
    then show ?case using Suc by simp
  qed simp
  then have parts: "concat (map ?part [0..<16]) = hb_fill_levels h" using assms by simp
  define ps where "ps = map (\<lambda>i. pack_fill_levels (?part i)) [0..<16]"
  have "map unpack_fill_levels ps = map ?part [0..<16]"
    unfolding ps_def map_map by (rule map_cong) (simp_all add: assms unpack_pack)
  then have levels: "concat (map unpack_fill_levels ps) = hb_fill_levels h" using parts by simp
  have "read_many 16 read_u32 (concat (map (to_le 4) ps) @ rest) = Inr (ps, rest)"
    by (rule u32.read_many_enc) (simp_all add: ps_def)
  moreover have "heap_bitmap_header_write h = to_le 2 (hb_page_map_offset h) @ concat (map (to_le 4) ps)"
    by (simp add: heap_bitmap_header_write_def ps_def comp_def)
  ultimately show ?thesis by (simp add: heap_bitmap_header_read_def levels)
qed

section \<open>Page maps\<close>

text \<open>The allocations between consecutive offsets.\<close>

definition page_map_allocs :: "u16 list \<Rightarrow> heap_page_alloc list" where
  "page_map_allocs offsets = map (\<lambda>(a, b). \<lparr>ha_offset = a, ha_size = b - a\<rparr>) (zip offsets (tl offsets))"

definition page_map_zeros :: "u16 list \<Rightarrow> nat" where
  "page_map_zeros offsets = length (filter (\<lambda>a. ha_size a = 0) (page_map_allocs offsets))"

lemma page_map_allocs_simps [simp]:
  "page_map_allocs [] = []" "page_map_allocs [a] = []"
  "page_map_allocs (a # b # os) = \<lparr>ha_offset = a, ha_size = b - a\<rparr> # page_map_allocs (b # os)"
  by (simp_all add: page_map_allocs_def)

lemma length_page_map_allocs [simp]: "length (page_map_allocs os) = length os - 1"
  by (simp add: page_map_allocs_def)

lemma page_map_zeros_simps [simp]:
  "page_map_zeros [] = 0" "page_map_zeros [a] = 0"
  "page_map_zeros (a # b # os) = (if a = b then 1 else 0) + page_map_zeros (b # os)"
  by (auto simp: page_map_zeros_def)

lemma page_map_zeros_le: "page_map_zeros os \<le> length os - 1"
  using length_filter_le [of _ "page_map_allocs os"] by (simp add: page_map_zeros_def)

lemma page_map_loop_Inr:
  "page_map_loop os (Some a) fc = Inr (allocs, last_offset, c) \<longleftrightarrow>
     sorted (a # os) \<and> allocs = page_map_allocs (a # os) \<and> last_offset = Some (last (a # os)) \<and>
     unat c = unat fc + page_map_zeros (a # os)"
proof (induction os arbitrary: a fc allocs)
  case Nil
  then show ?case by (auto simp: word_unat_eq_iff)
next
  case (Cons b os)
  have suc: "unat (fc + 1) = unat fc + 1" if "\<not> 2 ^ 16 \<le> Suc (unat fc)"
    using that by (simp add: unat_add_lem [THEN iffD1])
  consider "b < a" | "b = a" | "a < b" by (rule linorder_cases)
  then show ?case
  proof cases
    case 2
    have "unat c < 2 ^ 16" using unat_word_bound [of c] by simp
    then show ?thesis
      using 2 suc by (auto simp: Let_def Cons.IH pst_result)
  qed (auto simp: Let_def Cons.IH pst_result)
qed

lemma page_map_try_from_Inr:
  "page_map_try_from os = Inr m \<longleftrightarrow>
     os \<noteq> [] \<and> sorted os \<and> page_map_zeros os < 2 ^ 16 \<and>
     m = \<lparr>pm_allocations = page_map_allocs os, pm_next_offset = last os,
          pm_free_count = word_of_nat (page_map_zeros os)\<rparr>"
proof (cases os)
  case (Cons a os')
  have c: "unat c = n \<longleftrightarrow> n < 2 ^ 16 \<and> c = word_of_nat n" for c :: u16 and n
    using unat_word_bound [of c] by (auto simp: unsigned_of_nat take_bit_nat_eq_self)
  have "page_map_try_from os = Inr m \<longleftrightarrow>
    (\<exists>allocs l c. page_map_loop os' (Some a) 0 = Inr (allocs, Some l, c) \<and>
      m = \<lparr>pm_allocations = allocs, pm_next_offset = l, pm_free_count = c\<rparr>)"
    by (auto simp: page_map_try_from_def Cons split: sum.splits option.splits)
  then show ?thesis by (auto simp: page_map_loop_Inr c Cons)
qed (simp add: page_map_try_from_def)

lemma read_many_u16_Inr:
  "read_many n read_u16 bs = Inr (ws, rest) \<longleftrightarrow> length ws = n \<and> bs = concat (map (to_le 2) ws) @ rest"
proof (induction n arbitrary: bs ws)
  case (Suc n)
  have one: "read_u16 bs = Inr (w, r) \<longleftrightarrow> bs = to_le 2 w @ r" for w r and bs
    by (auto simp: read_u16_def read_exact_def to_le_from_le split: if_splits)
  show ?case by (cases ws) (auto simp: pst_result one Suc.IH)
qed auto

text \<open>What a page map looks like on disk.\<close>

definition page_map_bytes :: "u16 list \<Rightarrow> bytes" where
  "page_map_bytes os = write_u16 (word_of_nat (length os - 1)) @ write_u16 (word_of_nat (page_map_zeros os)) @
    concat (map (to_le 2) os)"

definition page_map_of :: "u16 list \<Rightarrow> heap_page_map" where
  "page_map_of os = \<lparr>pm_allocations = page_map_allocs os, pm_next_offset = last os,
     pm_free_count = word_of_nat (page_map_zeros os)\<rparr>"

lemma page_map_read_bytes:
  assumes "os \<noteq> []" "sorted os" "length os \<le> 2 ^ 16"
  shows "page_map_read (page_map_bytes os @ rest) = Inr (page_map_of os, rest)"
proof -
  have n: "unat (word_of_nat (length os - 1) :: u16) = length os - 1"
    using assms by (simp add: unsigned_of_nat take_bit_nat_eq_self)
  have z: "page_map_zeros os < 2 ^ 16"
    using page_map_zeros_le [of os] assms by (cases os) auto
  define k where "k = (word_of_nat (length os - 1) :: u16)"
  have "read_many (Suc (unat k)) read_u16 (concat (map (to_le 2) os) @ rest) = Inr (os, rest)"
    using assms(1) by (simp only: read_many_u16_Inr k_def n) simp
  moreover have "page_map_try_from os = Inr (page_map_of os)"
    using assms z by (simp add: page_map_try_from_Inr page_map_of_def)
  moreover have "page_map_bytes os = write_u16 k @ write_u16 (word_of_nat (page_map_zeros os)) @
      concat (map (to_le 2) os)"
    by (simp add: page_map_bytes_def k_def)
  moreover have "unat k = length os - 1" by (simp only: k_def n)
  ultimately show ?thesis
    by (simp add: page_map_read_def page_map_new_def page_map_of_def del: read_many.simps)
qed

lemma page_map_allocs_snoc:
  "page_map_allocs (xs @ [a, b]) = page_map_allocs (xs @ [a]) @ [\<lparr>ha_offset = a, ha_size = b - a\<rparr>]"
  by (induction xs rule: induct_list012) simp_all

lemma page_map_offsets: "map ha_offset (page_map_allocs (xs @ [a])) = xs"
  by (induction xs rule: induct_list012) simp_all

lemma page_map_write_of:
  assumes "2 \<le> length os" "length os \<le> 2 ^ 16"
  shows "page_map_write (page_map_of os) = Inr (page_map_bytes os)"
proof -
  obtain ys b where ys: "os = ys @ [b]" using assms(1) by (cases os rule: rev_cases) auto
  then obtain xs a where "ys = xs @ [a]" using assms(1) by (cases ys rule: rev_cases) auto
  with ys have os: "os = xs @ [a, b]" by simp
  have allocs: "page_map_allocs os = page_map_allocs (xs @ [a]) @ [\<lparr>ha_offset = a, ha_size = b - a\<rparr>]"
    by (simp add: os page_map_allocs_snoc)
  have "concat (map (\<lambda>x. to_le 2 (ha_offset x)) (page_map_allocs (xs @ [a]))) = concat (map (to_le 2) xs)"
    using arg_cong [OF page_map_offsets [of xs a], of "map (to_le 2)"] by (simp add: comp_def)
  then have "page_map_write (page_map_of os) = Inr (write_u16 (word_of_nat (length os - 1)) @
      write_u16 (word_of_nat (page_map_zeros os)) @ concat (map (to_le 2) os))"
    using assms by (simp add: page_map_write_def page_map_of_def allocs) (simp add: os)
  then show ?thesis by (simp add: page_map_bytes_def)
qed

section \<open>Lookup\<close>

lemma nth_page_map_allocs:
  "Suc i < length os \<Longrightarrow> page_map_allocs os ! i = \<lparr>ha_offset = os ! i, ha_size = os ! Suc i - os ! i\<rparr>"
  by (simp add: page_map_allocs_def nth_tl)

lemma heap_find_entry_mapped:
  assumes hid: "heap_id_new (word_of_nat (Suc i)) block_index = Inr hid" "Suc i < 2 ^ 11"
    and block: "unat block_index < length heap" "heap ! unat block_index = block"
    and off: "heap_page_map_offset block_index block = Inr off"
    and pm: "drop (unat off) block = page_map_bytes os @ rest"
    and os: "sorted os" "length os \<le> 2 ^ 16" "Suc i < length os"
  shows "heap_find_entry heap hid =
    (if unat (os ! Suc i) \<le> length block
     then Inr (take (unat (os ! Suc i) - unat (os ! i)) (drop (unat (os ! i)) block)) else Inl Panic)"
proof -
  have u: "unat (word_of_nat (Suc i) :: u16) = Suc i" and i': "unat (word_of_nat i :: u16) = i"
    using hid(2) by (simp_all only: unsigned_of_nat) (simp_all add: take_bit_nat_eq_self)
  have nz: "(0 :: u16) < word_of_nat (Suc i)"
    by (simp only: word_less_nat_alt u) simp
  have i: "unat (word_of_nat (Suc i) - 1 :: u16) = i" using i' by simp
  have le: "os ! i \<le> os ! Suc i" using os by (intro sorted_nth_mono) auto
  have sz: "unat (os ! Suc i - os ! i) = unat (os ! Suc i) - unat (os ! i)"
    using le by (rule unat_sub)
  have "page_map_read (drop (unat off) block) = Inr (page_map_of os, rest)"
    unfolding pm using os by (intro page_map_read_bytes) auto
  moreover have "heap_id_index hid = Inr (word_of_nat (Suc i) - 1)"
    by (rule heap_id_index_new [OF hid(1) nz])
  moreover have "heap_id_block_index hid = block_index" by (rule heap_id_block_index_new [OF hid(1)])
  moreover have "pm_allocations (page_map_of os) = page_map_allocs os" by (simp add: page_map_of_def)
  ultimately show ?thesis
    using block off os i le
    by (simp add: heap_find_entry_def Let_def nth_page_map_allocs sz word_le_nat_alt del: of_nat_Suc)
qed

section \<open>Trees\<close>

text \<open>
  A row is read from at least one byte when it takes a key, so the loop over the rows of an
  allocation ends by itself: more fuel does not change its result.
\<close>

definition consumes :: "'r decoder \<Rightarrow> bool" where
  "consumes d \<longleftrightarrow> (\<forall>bs r rest. d bs = Inr (r, rest) \<longrightarrow> length rest < length bs)"

lemma consumesD: "consumes d \<Longrightarrow> d bs = Inr (r, rest) \<Longrightarrow> length rest < length bs"
  by (auto simp: consumes_def)

lemma read_rows_fuel:
  assumes "consumes row" "length bs \<le> n" "length bs \<le> m"
  shows "read_rows n row bs = read_rows m row bs"
  using assms(2,3)
proof (induction n arbitrary: bs m)
  case 0
  then show ?case using consumesD [OF assms(1), of "[]"] by (cases m) (auto split: sum.splits)
next
  case (Suc n)
  show ?case
  proof (cases "row bs")
    case (Inl e)
    then show ?thesis by (cases m) simp_all
  next
    case (Inr p)
    obtain r rest where p: "p = (r, rest)" by (cases p)
    then have len: "length rest < length bs" using Inr consumesD [OF assms(1)] by simp
    then obtain m' where m: "m = Suc m'" using Suc.prems by (cases m) auto
    have "read_rows n row rest = read_rows m' row rest"
      using len Suc.prems m by (intro Suc.IH) auto
    then show ?thesis using Inr p m by simp
  qed
qed

lemma read_rows_enc:
  assumes "\<And>r rest. r \<in> set rs \<Longrightarrow> row (enc r @ rest) = Inr (r, rest)" and "row [] = Inl e"
    and "length rs \<le> n"
  shows "read_rows n row (concat (map enc rs)) = rs"
  using assms(1,3)
proof (induction rs arbitrary: n)
  case Nil
  then show ?case using assms(2) by (cases n) auto
next
  case (Cons r rs)
  then show ?case by (cases n) auto
qed

text \<open>
  The abstract meaning of a tree on a heap: a depth-first walk from the root. The reader
  collects one level after the other.
\<close>

fun collect_rows :: "('a \<Rightarrow> io_error + 'b list) \<Rightarrow> 'a list \<Rightarrow> io_error + 'b list" where
  "collect_rows f [] = Inr []"
| "collect_rows f (x # xs) =
    (case f x of Inl e \<Rightarrow> Inl e
     | Inr ys \<Rightarrow> (case collect_rows f xs of Inl e \<Rightarrow> Inl e | Inr zs \<Rightarrow> Inr (ys @ zs)))"

fun heap_tree_walk :: "heap_node \<Rightarrow> 'k decoder \<Rightarrow> 'v decoder \<Rightarrow> nat \<Rightarrow> heap_id \<Rightarrow> io_error + ('k \<times> 'v) list" where
  "heap_tree_walk heap key val 0 hid =
    (case heap_find_entry heap hid of Inl e \<Rightarrow> Inl e
     | Inr bs \<Rightarrow> Inr (read_rows (length bs) (leaf_row key val) bs))"
| "heap_tree_walk heap key val (Suc level) hid =
    (case heap_find_entry heap hid of Inl e \<Rightarrow> Inl e
     | Inr bs \<Rightarrow> collect_rows (heap_tree_walk heap key val level)
         (map snd (read_rows (length bs) (intermediate_row key) bs)))"

declare heap_tree_walk.simps [simp del]

lemma collect_rows_append:
  "collect_rows f (xs @ ys) = Inr out \<longleftrightarrow>
     (\<exists>as bs. collect_rows f xs = Inr as \<and> collect_rows f ys = Inr bs \<and> out = as @ bs)"
  by (induction xs arbitrary: out) (auto simp: pst_result)

lemma rows_of_Inr:
  "rows_of heap row ids = Inr out \<longleftrightarrow>
    collect_rows (\<lambda>hid. case heap_find_entry heap hid of Inl e \<Rightarrow> Inl e
      | Inr bs \<Rightarrow> Inr (read_rows (length bs) row bs)) ids = Inr out"
  by (induction ids arbitrary: out) (auto simp: pst_result split: sum.splits)

lemma collect_rows_step:
  "collect_rows (heap_tree_walk heap key val (Suc level)) ids = Inr out \<longleftrightarrow>
    (\<exists>rows. rows_of heap (intermediate_row key) ids = Inr rows \<and>
      collect_rows (heap_tree_walk heap key val level) (map snd rows) = Inr out)"
proof (induction ids arbitrary: out)
  case (Cons hid ids)
  show ?case
    by (simp add: pst_result Cons.IH heap_tree_walk.simps(2) [of _ _ _ _ hid])
      (auto simp: collect_rows_append)
qed simp

lemma heap_tree_levels_walk:
  "(\<exists>leaves. heap_tree_levels heap key level ids = Inr leaves \<and>
      rows_of heap (leaf_row key val) leaves = Inr out) \<longleftrightarrow>
    collect_rows (heap_tree_walk heap key val level) ids = Inr out"
proof (induction level arbitrary: ids)
  case 0
  have "heap_tree_walk heap key val 0 = (\<lambda>hid. case heap_find_entry heap hid of Inl e \<Rightarrow> Inl e
      | Inr bs \<Rightarrow> Inr (read_rows (length bs) (leaf_row key val) bs))" by (rule ext) (simp add: heap_tree_walk.simps)
  then show ?case by (simp add: rows_of_Inr)
next
  case (Suc level)
  have "(\<exists>leaves. heap_tree_levels heap key (Suc level) ids = Inr leaves \<and>
      rows_of heap (leaf_row key val) leaves = Inr out) \<longleftrightarrow>
    (\<exists>rows. rows_of heap (intermediate_row key) ids = Inr rows \<and>
      collect_rows (heap_tree_walk heap key val level) (map snd rows) = Inr out)"
    by (auto simp: pst_result Suc.IH [symmetric])
  then show ?case by (simp only: collect_rows_step)
qed

section \<open>Properties\<close>

text \<open>
  A heap identifier is made from exactly the indexes below 2048 and any block index; it gives
  both back (the index counts from one, index zero is no allocation), and it is read back as
  written.
\<close>

theorem heap_id_new_spec:
  "case heap_id_new index block_index of
     Inl e \<Rightarrow> 2 ^ 11 \<le> unat index \<and> e = InvalidHeapIndex index
   | Inr hid \<Rightarrow> unat index < 2 ^ 11 \<and> heap_id_block_index hid = block_index \<and>
       heap_id_index hid = (if index = 0 then Inl (InvalidHeapIndex 0) else Inr (index - 1)) \<and>
       heap_id_read (heap_id_write hid @ rest) = Inr (hid, rest)"
proof (cases "heap_id_new index block_index")
  case (Inl e)
  then show ?thesis by (auto simp: heap_id_new_cases split: if_splits)
next
  case (Inr hid)
  have "unat index < 2 ^ 11" using Inr by (auto simp: heap_id_new_cases split: if_splits)
  moreover have "index = 0 \<Longrightarrow> heap_id_index hid = Inl (InvalidHeapIndex 0)"
    using Inr heap_id_fields(2) [of 0 block_index]
    by (auto simp: heap_id_new_cases heap_id_index_def Let_def)
  moreover have "index \<noteq> 0 \<Longrightarrow> heap_id_index hid = Inr (index - 1)"
    using heap_id_index_new [OF Inr] by (simp add: word_gt_0)
  ultimately show ?thesis
    using Inr heap_id_block_index_new [OF Inr] heap_id_new_codec [OF Inr] by simp
qed

text \<open>
  C39. A page map is accepted exactly when its offsets ascend and both counts match them. Its
  allocations are then the consecutive ranges between the offsets. A map with an allocation
  is written as the bytes it was read from; of an empty map the offset is lost.
\<close>

theorem page_map_read_exact:
  "(page_map_read bs = Inr (m, rest) \<longleftrightarrow>
     (\<exists>os. os \<noteq> [] \<and> length os \<le> 2 ^ 16 \<and> sorted os \<and> bs = page_map_bytes os @ rest \<and> m = page_map_of os)) \<and>
   (\<forall>os. length os \<le> 2 ^ 16 \<longrightarrow> (2 \<le> length os \<longrightarrow> page_map_write (page_map_of os) = Inr (page_map_bytes os)) \<and>
     (length os = 1 \<longrightarrow> page_map_write (page_map_of os) = Inr (page_map_bytes [0])))"
proof (intro conjI iffI allI impI)
  assume "page_map_read bs = Inr (m, rest)"
  then obtain n z os f f' where r: "read_u16 bs = Inr (n, f)" "read_u16 f = Inr (z, f')"
      "read_many (Suc (unat n)) read_u16 f' = Inr (os, rest)" "page_map_new n z os = Inr m"
    by (auto simp: page_map_read_def pst_result simp del: read_many.simps)
  have len: "length os = Suc (unat n)" and "f' = concat (map (to_le 2) os) @ rest"
    using r(3) by (simp_all only: read_many_u16_Inr)
  then have bs: "bs = to_le 2 n @ to_le 2 z @ concat (map (to_le 2) os) @ rest"
    using r(1,2) read_many_u16_Inr [of 1 bs "[n]" f] read_many_u16_Inr [of 1 f "[z]" f'] by simp
  have tf: "page_map_try_from os = Inr m" and z: "z = pm_free_count m"
    using r(4) by (auto simp: page_map_new_def split: sum.splits if_splits)
  have "unat n < 2 ^ 16" using unat_word_bound [of n] by simp
  then have "length os \<le> 2 ^ 16" using len by simp
  moreover have "n = word_of_nat (length os - 1)" using len by simp
  moreover have "z = word_of_nat (page_map_zeros os)"
    using tf z by (simp add: page_map_try_from_Inr)
  ultimately show "\<exists>os. os \<noteq> [] \<and> length os \<le> 2 ^ 16 \<and> sorted os \<and> bs = page_map_bytes os @ rest \<and> m = page_map_of os"
    using tf bs by (intro exI [of _ os]) (simp add: page_map_try_from_Inr page_map_of_def page_map_bytes_def)
next
  assume "\<exists>os. os \<noteq> [] \<and> length os \<le> 2 ^ 16 \<and> sorted os \<and> bs = page_map_bytes os @ rest \<and> m = page_map_of os"
  then show "page_map_read bs = Inr (m, rest)" using page_map_read_bytes by auto
next
  fix os :: "u16 list" assume "length os \<le> 2 ^ 16" "2 \<le> length os"
  then show "page_map_write (page_map_of os) = Inr (page_map_bytes os)" by (intro page_map_write_of)
next
  fix os :: "u16 list" assume "length os = 1"
  then obtain a where "os = [a]" by (cases os) auto
  then show "page_map_write (page_map_of os) = Inr (page_map_bytes [0])"
    by (simp add: page_map_write_def page_map_of_def page_map_bytes_def)
qed

theorem page_map_read_exact_witness:
  "page_map_read (page_map_bytes [12, 14, 14] @ [7]) = Inr (page_map_of [12, 14, 14], [7]) \<and>
   page_map_write (page_map_of [12, 14, 14]) = Inr (page_map_bytes [12, 14, 14]) \<and>
   page_map_write (page_map_of [12]) = Inr (page_map_bytes [0])"
proof -
  have "\<exists>os. os \<noteq> [] \<and> length os \<le> 2 ^ 16 \<and> sorted os \<and> page_map_bytes [12, 14, 14] @ [7] = page_map_bytes os @ [7] \<and>
      page_map_of [12, 14, 14] = page_map_of os"
    by (intro exI [of _ "[12, 14, 14]"]) simp
  then show ?thesis
    using page_map_read_exact [of "page_map_bytes [12, 14, 14] @ [7]" "page_map_of [12, 14, 14]" "[7]"]
    by simp
qed

text \<open>
  C37. Lookup of an allocation: with a well-formed page map the identifier of allocation \<open>i\<close> of a
  block yields the bytes between offsets \<open>i\<close> and \<open>i + 1\<close> of that block. The offsets are not
  compared with the size of the block, so an offset beyond it makes the slice panic.
\<close>

theorem heap_find_entry_spec:
  assumes "heap_id_new (word_of_nat (Suc i)) block_index = Inr hid" "Suc i < 2 ^ 11"
    and "unat block_index < length heap" "heap ! unat block_index = block"
    and "heap_page_map_offset block_index block = Inr off"
    and "drop (unat off) block = page_map_bytes os @ rest"
    and "sorted os" "length os \<le> 2 ^ 16" "Suc i < length os"
  shows "heap_find_entry heap hid =
    (if unat (os ! Suc i) \<le> length block
     then Inr (take (unat (os ! Suc i) - unat (os ! i)) (drop (unat (os ! i)) block)) else Inl Panic)"
  by (rule heap_find_entry_mapped [OF assms])

definition sample_heap_block :: "u16 list \<Rightarrow> bytes" where
  "sample_heap_block os = heap_node_header_write
     \<lparr>hn_page_map_offset = 16, hn_client_signature = HeapTypeTree, hn_user_root = 0x20,
      hn_fill_levels = replicate 8 LevelEmpty\<rparr> @ [1, 2, 3, 4] @ page_map_bytes os"

lemma sample_heap_block:
  "heap_page_map_offset 0 (sample_heap_block os) = Inr 16"
  "drop 16 (sample_heap_block os) = page_map_bytes os"
  "take 12 (drop 12 (sample_heap_block os)) = [1, 2, 3, 4] @ take 8 (page_map_bytes os)"
proof -
  have "heap_header_ok \<lparr>hn_page_map_offset = 16, hn_client_signature = HeapTypeTree,
      hn_user_root = 0x20, hn_fill_levels = replicate 8 LevelEmpty\<rparr>"
    by (simp add: heap_header_ok_def mask_eq_exp_minus_1)
  then show "heap_page_map_offset 0 (sample_heap_block os) = Inr 16"
    by (simp add: heap_page_map_offset_def sample_heap_block_def heap_node_header_codec)
qed (simp_all add: sample_heap_block_def)

theorem heap_find_entry_spec_witness:
  "heap_find_entry [sample_heap_block [12, 14, 16]] 0x40 = Inr [3, 4] \<and>
   heap_find_entry [sample_heap_block [12, 14, 60000]] 0x40 = Inl Panic"
proof -
  have hid: "heap_id_new (word_of_nat (Suc 1)) 0 = Inr 0x40" by (simp add: heap_id_new_cases)
  have "heap_find_entry [sample_heap_block os] 0x40 =
    (if unat (os ! Suc 1) \<le> length (sample_heap_block os)
     then Inr (take (unat (os ! Suc 1) - unat (os ! 1)) (drop (unat (os ! 1)) (sample_heap_block os)))
     else Inl Panic)" if "sorted os" "length os = 3" for os
    using that by (intro heap_find_entry_spec [OF hid, of _ _ 16 _ "[]"]) (simp_all add: sample_heap_block)
  from this [of "[12, 14, 16]"] this [of "[12, 14, 60000]"] show ?thesis
    by (simp add: sample_heap_block_def page_map_bytes_def)
qed

text \<open>
  C38. The entries of a tree on a heap: reading level by level succeeds exactly when the
  depth-first walk from the root does, and gives the same records in the same order. The
  header must name the key and value sizes of the reader, and a zero root is an empty tree.
\<close>

theorem heap_tree_entries_spec:
  "heap_tree_entries ksize vsize key val heap user_root = Inr out \<longleftrightarrow>
    (\<exists>header. heap_tree_header_of heap user_root = Inr header \<and> ht_key_size header = ksize \<and>
      ht_entry_size header = vsize \<and>
      (if ht_root header = 0 then out = []
       else heap_tree_walk heap key val (unat (ht_levels header)) (ht_root header) = Inr out))"
proof -
  have one: "collect_rows f [x] = f x" for f :: "heap_id \<Rightarrow> io_error + ('a \<times> 'b) list" and x
    by (cases "f x") simp_all
  have "(case heap_tree_levels heap key n [root] of Inl e \<Rightarrow> Inl e
      | Inr leaves \<Rightarrow> rows_of heap (leaf_row key val) leaves) = Inr out \<longleftrightarrow>
    heap_tree_walk heap key val n root = Inr out" for n root
    using heap_tree_levels_walk [of heap key n "[root]" val out] by (simp only: one pst_result)
  then show ?thesis by (auto simp: heap_tree_entries_def split: sum.splits if_splits)
qed

end
