(* ===== verification/Ltp_Prop.thy ===== *)
theory Ltp_Prop
  imports Ndb_SubNode Ltp_Heap
begin

text \<open>
  Property contexts (\<open>ltp/prop_context.rs\<close>): the records of a property tree, property values with
  their serialisation, the materialisation budget, and the lookup of a property whose value is in
  its record, in the heap or in a sub-node. Signed integers and floating-point numbers are the words
  of their bit patterns, which the source only moves; a string is the list of its code units.
\<close>

section \<open>Records\<close>

datatype property_value_record =
    RecordSmall u32
  | RecordHeap heap_id
  | RecordNode node_id

primrec value_record_code :: "property_value_record \<Rightarrow> u32" where
  "value_record_code (RecordSmall value) = value"
| "value_record_code (RecordHeap hid) = hid"
| "value_record_code (RecordNode nid) = nid"

record property_record =
  pr_type :: property_type
  pr_value :: property_value_record

definition property_record_of :: "property_type \<Rightarrow> u32 \<Rightarrow> property_value_record" where
  "property_record_of prop_type value =
    (if prop_type = PtypNull then RecordSmall 0
     else if prop_type = PtypInteger16 then RecordSmall (value AND 0xFFFF)
     else if prop_type \<in> {PtypInteger32, PtypFloating32, PtypErrorCode} then RecordSmall value
     else if prop_type = PtypBoolean then RecordSmall (value AND 0xFF)
     else if prop_type \<in> {PtypFloating64, PtypCurrency, PtypFloatingTime, PtypInteger64, PtypTime, PtypGuid, PtypObject}
     then RecordHeap value
     else case node_id_id_type value of
         Inr HeapNode \<Rightarrow> RecordHeap value
       | _ \<Rightarrow> RecordNode value)"

definition property_record_read :: "property_record decoder" where
  "property_record_read f =
    (case read_u16 f of Inl e \<Rightarrow> Inl e | Inr (code, f) \<Rightarrow>
    (case property_type_try_from code of Inl e \<Rightarrow> Inl (LtpIo e) | Inr prop_type \<Rightarrow>
    (case read_u32 f of Inl e \<Rightarrow> Inl e | Inr (value, f) \<Rightarrow>
     Inr (\<lparr>pr_type = prop_type, pr_value = property_record_of prop_type value\<rparr>, f))))"

definition property_record_write :: "property_record \<Rightarrow> bytes" where
  "property_record_write r = write_u16 (property_type_code (pr_type r)) @ write_u32 (value_record_code (pr_value r))"

definition property_tree_record_read :: "(u16 \<times> property_record) decoder" where
  "property_tree_record_read f =
    (case read_u16 f of Inl e \<Rightarrow> Inl e | Inr (key, f) \<Rightarrow>
    (case property_record_read f of Inl e \<Rightarrow> Inl e | Inr (data, f) \<Rightarrow> Inr ((key, data), f)))"

definition property_tree_record_write :: "u16 \<times> property_record \<Rightarrow> bytes" where
  "property_tree_record_write r = write_u16 (fst r) @ property_record_write (snd r)"

section \<open>Values\<close>

record guid_value =
  guid_data1 :: u32
  guid_data2 :: u16
  guid_data3 :: u16
  guid_data4 :: bytes

definition guid_to_le_bytes :: "guid_value \<Rightarrow> bytes" where
  "guid_to_le_bytes g = write_u32 (guid_data1 g) @ write_u16 (guid_data2 g) @ write_u16 (guid_data3 g) @ guid_data4 g"

record object_value =
  object_node_id :: node_id
  object_size :: u32

datatype (plugins only: code size) property_value =
    PropNull
  | PropInteger16 u16
  | PropInteger32 u32
  | PropFloating32 u32
  | PropFloating64 u64
  | PropCurrency u64
  | PropFloatingTime u64
  | PropErrorCode u32
  | PropBoolean bool
  | PropInteger64 u64
  | PropString8 bytes
  | PropUnicode "u16 list"
  | PropTime u64
  | PropGuid guid_value
  | PropBinary bytes
  | PropObject object_value
  | PropMultipleInteger16 "u16 list"
  | PropMultipleInteger32 "u32 list"
  | PropMultipleFloating32 "u32 list"
  | PropMultipleFloating64 "u64 list"
  | PropMultipleCurrency "u64 list"
  | PropMultipleFloatingTime "u64 list"
  | PropMultipleInteger64 "u64 list"
  | PropMultipleString8 "bytes list"
  | PropMultipleUnicode "u16 list list"
  | PropMultipleTime "u64 list"
  | PropMultipleGuid "guid_value list"
  | PropMultipleBinary "bytes list"

primrec property_value_type :: "property_value \<Rightarrow> property_type" where
  "property_value_type PropNull = PtypNull"
| "property_value_type (PropInteger16 _) = PtypInteger16"
| "property_value_type (PropInteger32 _) = PtypInteger32"
| "property_value_type (PropFloating32 _) = PtypFloating32"
| "property_value_type (PropFloating64 _) = PtypFloating64"
| "property_value_type (PropCurrency _) = PtypCurrency"
| "property_value_type (PropFloatingTime _) = PtypFloatingTime"
| "property_value_type (PropErrorCode _) = PtypErrorCode"
| "property_value_type (PropBoolean _) = PtypBoolean"
| "property_value_type (PropInteger64 _) = PtypInteger64"
| "property_value_type (PropString8 _) = PtypString8"
| "property_value_type (PropUnicode _) = PtypUnicode"
| "property_value_type (PropTime _) = PtypTime"
| "property_value_type (PropGuid _) = PtypGuid"
| "property_value_type (PropBinary _) = PtypBinary"
| "property_value_type (PropObject _) = PtypObject"
| "property_value_type (PropMultipleInteger16 _) = PtypMultipleInteger16"
| "property_value_type (PropMultipleInteger32 _) = PtypMultipleInteger32"
| "property_value_type (PropMultipleFloating32 _) = PtypMultipleFloating32"
| "property_value_type (PropMultipleFloating64 _) = PtypMultipleFloating64"
| "property_value_type (PropMultipleCurrency _) = PtypMultipleCurrency"
| "property_value_type (PropMultipleFloatingTime _) = PtypMultipleFloatingTime"
| "property_value_type (PropMultipleInteger64 _) = PtypMultipleInteger64"
| "property_value_type (PropMultipleString8 _) = PtypMultipleString8"
| "property_value_type (PropMultipleUnicode _) = PtypMultipleUnicode"
| "property_value_type (PropMultipleTime _) = PtypMultipleTime"
| "property_value_type (PropMultipleGuid _) = PtypMultipleGuid"
| "property_value_type (PropMultipleBinary _) = PtypMultipleBinary"

definition small_value :: "property_value_record \<Rightarrow> property_type \<Rightarrow> property_value option" where
  "small_value r prop_type =
    (case r of RecordSmall value \<Rightarrow>
       (case prop_type of
          PtypInteger16 \<Rightarrow> Some (PropInteger16 (ucast (value AND 0xFFFF)))
        | PtypInteger32 \<Rightarrow> Some (PropInteger32 value)
        | PtypFloating32 \<Rightarrow> Some (PropFloating32 value)
        | PtypErrorCode \<Rightarrow> Some (PropErrorCode value)
        | PtypBoolean \<Rightarrow> Some (PropBoolean (value AND 0xFF \<noteq> 0))
        | _ \<Rightarrow> None)
     | _ \<Rightarrow> None)"

section \<open>Reading values\<close>

text \<open>
  \<open>read_fixed_values\<close> reads one byte to find the end and then the rest of the value; with a width
  of zero the first read panics.
\<close>

function read_fixed_values :: "nat \<Rightarrow> (bytes \<Rightarrow> 'a) \<Rightarrow> bytes \<Rightarrow> io_error + 'a list" where
  "read_fixed_values width decode [] = (if width = 0 then Inl Panic else Inr [])"
| "read_fixed_values width decode (b # f) =
    (if width = 0 then Inl Panic
     else case read_exact (width - 1) f of Inl e \<Rightarrow> Inl e
     | Inr (bs, f) \<Rightarrow>
       (case read_fixed_values width decode f of Inl e \<Rightarrow> Inl e
        | Inr values \<Rightarrow> Inr (decode (b # bs) # values)))"
  by pat_completeness auto
termination
  by (relation "measure (\<lambda>(_, _, f). length f)") (auto simp: read_exact_Inr_iff)

definition require_eof :: "bytes \<Rightarrow> io_error + unit" where
  "require_eof f = (if f = [] then Inr () else Inl (Io InvalidData))"

definition MAX_MULTI_VALUE_ELEMENTS :: nat where "MAX_MULTI_VALUE_ELEMENTS = 65536"

definition read_multivalue_count :: "nat decoder" where
  "read_multivalue_count f =
    (case read_u32 f of Inl e \<Rightarrow> Inl e | Inr (n, f) \<Rightarrow>
     if unat n > MAX_MULTI_VALUE_ELEMENTS then Inl (LtpIo (InvalidMultiValuePropertyCount (unat n)))
     else Inr (unat n, f))"

text \<open>
  The count, the offsets of the items and the offset of the first one. The sum and the product
  stay far below the width of \<open>usize\<close> since there are at most 65,536 offsets.
\<close>

definition read_offsets :: "(nat list \<times> nat) decoder" where
  "read_offsets f =
    (case read_multivalue_count f of Inl e \<Rightarrow> Inl e | Inr (n, f) \<Rightarrow>
    (case read_many n read_u32 f of Inl e \<Rightarrow> Inl e | Inr (offsets, f) \<Rightarrow>
    (case (if offsets = [] then require_eof f else Inr ()) of Inl e \<Rightarrow> Inl e | Inr _ \<Rightarrow>
     Inr ((map unat offsets, (length offsets + 1) * 4), f))))"

text \<open>
  The loop over the items of \<open>MultipleString8\<close> and \<open>MultipleBinary\<close>; the last item takes what is
  left.
\<close>

fun read_items :: "nat list \<Rightarrow> nat \<Rightarrow> bytes \<Rightarrow> io_error + bytes list" where
  "read_items [] start f = Inr []"
| "read_items [offset] start f =
    (if offset \<noteq> start then Inl (LtpIo (InvalidMultiValuePropertyOffset offset)) else Inr [f])"
| "read_items (offset # next_offset # offsets) start f =
    (if offset \<noteq> start then Inl (LtpIo (InvalidMultiValuePropertyOffset offset))
     else if next_offset < start then Inl (LtpIo (InvalidMultiValuePropertyOffset next_offset))
     else if next_offset > start
     then (if length f < next_offset - start then Inl (Io UnexpectedEof)
       else case read_items (next_offset # offsets) next_offset (drop (next_offset - start) f) of Inl e \<Rightarrow> Inl e
         | Inr items \<Rightarrow> Inr (take (next_offset - start) f # items))
     else (case read_items (next_offset # offsets) start f of Inl e \<Rightarrow> Inl e | Inr items \<Rightarrow> Inr ([] # items)))"

fun code_units :: "bytes \<Rightarrow> u16 list" where
  "code_units (a # b # f) = from_le [a, b] # code_units f"
| "code_units _ = []"

fun read_unicode_items :: "nat list \<Rightarrow> nat \<Rightarrow> bytes \<Rightarrow> io_error + u16 list list" where
  "read_unicode_items [] start f = Inr []"
| "read_unicode_items [offset] start f =
    (if offset \<noteq> start then Inl (LtpIo (InvalidMultiValuePropertyOffset offset))
     else if length f mod 2 \<noteq> 0 then Inl (Io UnexpectedEof)
     else Inr [takeWhile (\<lambda>ch. ch \<noteq> 0) (code_units f)])"
| "read_unicode_items (offset # next_offset # offsets) start f =
    (if offset \<noteq> start then Inl (LtpIo (InvalidMultiValuePropertyOffset offset))
     else if next_offset < start \<or> (next_offset - start) mod 2 \<noteq> 0
     then Inl (LtpIo (InvalidMultiValuePropertyOffset next_offset))
     else (case read_many ((next_offset - start) div 2) read_u16 f of Inl e \<Rightarrow> Inl e
       | Inr (units, f) \<Rightarrow>
         (case read_unicode_items (next_offset # offsets) next_offset f of Inl e \<Rightarrow> Inl e
          | Inr items \<Rightarrow> Inr (takeWhile (\<lambda>ch. ch \<noteq> 0) units # items))))"

text \<open>The loop \<open>while let Ok(ch) = read_u16()\<close> of a single string stops at a zero or at the end.\<close>

fun read_unicode :: "bytes \<Rightarrow> u16 list" where
  "read_unicode (a # b # f) = (let ch = from_le [a, b] in if ch = 0 then [] else ch # read_unicode f)"
| "read_unicode _ = []"

definition guid_read :: "guid_value decoder" where
  "guid_read f =
    (case read_u32 f of Inl e \<Rightarrow> Inl e | Inr (data1, f) \<Rightarrow>
    (case read_u16 f of Inl e \<Rightarrow> Inl e | Inr (data2, f) \<Rightarrow>
    (case read_u16 f of Inl e \<Rightarrow> Inl e | Inr (data3, f) \<Rightarrow>
    (case read_exact 8 f of Inl e \<Rightarrow> Inl e | Inr (data4, f) \<Rightarrow>
     Inr (\<lparr>guid_data1 = data1, guid_data2 = data2, guid_data3 = data3, guid_data4 = data4\<rparr>, f)))))"

definition guid_decode :: "bytes \<Rightarrow> guid_value" where
  "guid_decode bs = \<lparr>guid_data1 = from_le (take 4 bs), guid_data2 = from_le (take 2 (drop 4 bs)),
     guid_data3 = from_le (take 2 (drop 6 bs)), guid_data4 = take 8 (drop 8 bs)\<rparr>"

definition object_read :: "object_value decoder" where
  "object_read f =
    (case node_id_read f of Inl e \<Rightarrow> Inl e | Inr (nid, f) \<Rightarrow>
    (case read_u32 f of Inl e \<Rightarrow> Inl e | Inr (len, f) \<Rightarrow>
     Inr (\<lparr>object_node_id = nid, object_size = len\<rparr>, f)))"

definition of_decoder :: "('a \<Rightarrow> property_value) \<Rightarrow> 'a decoder \<Rightarrow> bytes \<Rightarrow> io_error + property_value" where
  "of_decoder mk dec f = (case dec f of Inl e \<Rightarrow> Inl e | Inr (value, _) \<Rightarrow> Inr (mk value))"

definition of_fixed :: "('a list \<Rightarrow> property_value) \<Rightarrow> nat \<Rightarrow> (bytes \<Rightarrow> 'a) \<Rightarrow> bytes \<Rightarrow> io_error + property_value" where
  "of_fixed mk width decode f =
    (case read_fixed_values width decode f of Inl e \<Rightarrow> Inl e | Inr values \<Rightarrow> Inr (mk values))"

definition of_items :: "('a list \<Rightarrow> property_value) \<Rightarrow> (nat list \<Rightarrow> nat \<Rightarrow> bytes \<Rightarrow> io_error + 'a list) \<Rightarrow> bytes \<Rightarrow> io_error + property_value" where
  "of_items mk items f =
    (case read_offsets f of Inl e \<Rightarrow> Inl e | Inr ((offsets, start), f) \<Rightarrow>
    (case items offsets start f of Inl e \<Rightarrow> Inl e | Inr values \<Rightarrow> Inr (mk values)))"

definition property_value_read :: "property_type \<Rightarrow> bytes \<Rightarrow> io_error + property_value" where
  "property_value_read prop_type f =
    (case prop_type of
       PtypFloating64 \<Rightarrow> of_decoder PropFloating64 read_u64 f
     | PtypCurrency \<Rightarrow> of_decoder PropCurrency read_u64 f
     | PtypFloatingTime \<Rightarrow> of_decoder PropFloatingTime read_u64 f
     | PtypInteger64 \<Rightarrow> of_decoder PropInteger64 read_u64 f
     | PtypString8 \<Rightarrow> Inr (PropString8 (takeWhile (\<lambda>b. b \<noteq> 0) f))
     | PtypUnicode \<Rightarrow> Inr (PropUnicode (read_unicode f))
     | PtypTime \<Rightarrow> of_decoder PropTime read_u64 f
     | PtypGuid \<Rightarrow> of_decoder PropGuid guid_read f
     | PtypBinary \<Rightarrow> Inr (PropBinary f)
     | PtypObject \<Rightarrow> of_decoder PropObject object_read f
     | PtypMultipleInteger16 \<Rightarrow> of_fixed PropMultipleInteger16 2 from_le f
     | PtypMultipleInteger32 \<Rightarrow> of_fixed PropMultipleInteger32 4 from_le f
     | PtypMultipleFloating32 \<Rightarrow> of_fixed PropMultipleFloating32 4 from_le f
     | PtypMultipleFloating64 \<Rightarrow> of_fixed PropMultipleFloating64 8 from_le f
     | PtypMultipleCurrency \<Rightarrow> of_fixed PropMultipleCurrency 8 from_le f
     | PtypMultipleFloatingTime \<Rightarrow> of_fixed PropMultipleFloatingTime 8 from_le f
     | PtypMultipleInteger64 \<Rightarrow> of_fixed PropMultipleInteger64 8 from_le f
     | PtypMultipleString8 \<Rightarrow> of_items (PropMultipleString8 \<circ> map (takeWhile (\<lambda>b. b \<noteq> 0))) read_items f
     | PtypMultipleUnicode \<Rightarrow> of_items PropMultipleUnicode read_unicode_items f
     | PtypMultipleTime \<Rightarrow> of_fixed PropMultipleTime 8 from_le f
     | PtypMultipleGuid \<Rightarrow> of_fixed PropMultipleGuid 16 guid_decode f
     | PtypMultipleBinary \<Rightarrow> of_items PropMultipleBinary read_items f
     | _ \<Rightarrow> Inl (LtpIo (InvalidVariableLengthPropertyType prop_type)))"

section \<open>Writing values\<close>

fun write_offsets :: "nat \<Rightarrow> nat list \<Rightarrow> io_error + bytes" where
  "write_offsets start [] = Inr []"
| "write_offsets start (len # lens) =
    (if start \<ge> 2 ^ 32 then Inl (LtpIo (InvalidMultiValuePropertyOffset start))
     else case write_offsets (start + len) lens of Inl e \<Rightarrow> Inl e
     | Inr bs \<Rightarrow> Inr (write_u32 (word_of_nat start) @ bs))"

definition write_items :: "bytes list \<Rightarrow> io_error + bytes" where
  "write_items items =
    (if length items \<ge> 2 ^ 32 then Inl (LtpIo (InvalidMultiValuePropertyCount (length items)))
     else case write_offsets ((length items + 1) * 4) (map length items) of Inl e \<Rightarrow> Inl e
     | Inr offsets \<Rightarrow> Inr (write_u32 (word_of_nat (length items)) @ offsets @ concat items))"

definition unit_bytes :: "u16 list \<Rightarrow> bytes" where
  "unit_bytes units = concat (map write_u16 units)"

definition property_value_write :: "property_value \<Rightarrow> io_error + bytes" where
  "property_value_write v =
    (case v of
       PropFloating64 value \<Rightarrow> Inr (write_u64 value)
     | PropCurrency value \<Rightarrow> Inr (write_u64 value)
     | PropFloatingTime value \<Rightarrow> Inr (write_u64 value)
     | PropInteger64 value \<Rightarrow> Inr (write_u64 value)
     | PropString8 buffer \<Rightarrow> Inr buffer
     | PropUnicode buffer \<Rightarrow> Inr (unit_bytes buffer)
     | PropTime value \<Rightarrow> Inr (write_u64 value)
     | PropGuid value \<Rightarrow> Inr (guid_to_le_bytes value)
     | PropBinary buffer \<Rightarrow> Inr buffer
     | PropObject value \<Rightarrow> Inr (node_id_write (object_node_id value) @ write_u32 (object_size value))
     | PropMultipleInteger16 values \<Rightarrow> Inr (concat (map write_u16 values))
     | PropMultipleInteger32 values \<Rightarrow> Inr (concat (map write_u32 values))
     | PropMultipleFloating32 values \<Rightarrow> Inr (concat (map write_u32 values))
     | PropMultipleFloating64 values \<Rightarrow> Inr (concat (map write_u64 values))
     | PropMultipleCurrency values \<Rightarrow> Inr (concat (map write_u64 values))
     | PropMultipleFloatingTime values \<Rightarrow> Inr (concat (map write_u64 values))
     | PropMultipleInteger64 values \<Rightarrow> Inr (concat (map write_u64 values))
     | PropMultipleString8 values \<Rightarrow> write_items values
     | PropMultipleUnicode values \<Rightarrow> write_items (map unit_bytes values)
     | PropMultipleTime values \<Rightarrow> Inr (concat (map write_u64 values))
     | PropMultipleGuid values \<Rightarrow> Inr (concat (map guid_to_le_bytes values))
     | PropMultipleBinary values \<Rightarrow> write_items values
     | _ \<Rightarrow> Inl (LtpIo (InvalidVariableLengthPropertyType (property_value_type v))))"

section \<open>Materialisation\<close>

text \<open>
  What the size of a value in memory depends on besides the value: the size the compiler gives to
  \<open>PropertyValue\<close> and the capacities the allocator gave to its vectors.
\<close>

record value_layout =
  size_of_value :: nat
  vec_capacity :: "property_value \<Rightarrow> nat"
  item_capacity :: "property_value \<Rightarrow> nat \<Rightarrow> nat"

definition checked_mul_usize :: "nat \<Rightarrow> nat \<Rightarrow> nat option" where
  "checked_mul_usize a b = (if a * b \<le> usize_max then Some (a * b) else None)"

fun checked_fold :: "nat option \<Rightarrow> nat option list \<Rightarrow> nat option" where
  "checked_fold (Some t) (Some n # ns) = checked_fold (checked_add_usize t n) ns"
| "checked_fold r [] = r"
| "checked_fold r _ = None"

definition materialized_size :: "value_layout \<Rightarrow> property_value \<Rightarrow> nat option" where
  "materialized_size L v =
    (let cap = vec_capacity L v;
         extra = (case v of
             PropString8 _ \<Rightarrow> Some cap
           | PropUnicode _ \<Rightarrow> checked_mul_usize cap 2
           | PropBinary buffer \<Rightarrow> Some (length buffer)
           | PropMultipleInteger16 _ \<Rightarrow> checked_mul_usize cap 2
           | PropMultipleInteger32 _ \<Rightarrow> checked_mul_usize cap 4
           | PropMultipleFloating32 _ \<Rightarrow> checked_mul_usize cap 4
           | PropMultipleFloating64 _ \<Rightarrow> checked_mul_usize cap 8
           | PropMultipleCurrency _ \<Rightarrow> checked_mul_usize cap 8
           | PropMultipleFloatingTime _ \<Rightarrow> checked_mul_usize cap 8
           | PropMultipleInteger64 _ \<Rightarrow> checked_mul_usize cap 8
           | PropMultipleTime _ \<Rightarrow> checked_mul_usize cap 8
           | PropMultipleGuid _ \<Rightarrow> checked_mul_usize cap 16
           | PropMultipleString8 values \<Rightarrow> checked_fold (checked_mul_usize cap 24) (map (Some \<circ> length) values)
           | PropMultipleUnicode values \<Rightarrow>
               checked_fold (checked_mul_usize cap 24) (map (\<lambda>i. checked_mul_usize (item_capacity L v i) 2) [0..<length values])
           | PropMultipleBinary values \<Rightarrow> checked_fold (checked_mul_usize cap 16) (map (Some \<circ> length) values)
           | _ \<Rightarrow> Some 0) in
     case extra of None \<Rightarrow> None | Some extra \<Rightarrow> checked_add_usize (size_of_value L) extra)"

definition MAX_PROPERTY_MATERIALIZATION_BYTES :: nat where
  "MAX_PROPERTY_MATERIALIZATION_BYTES = 64 * 1024 * 1024"

text \<open>
  The budget is the number of bytes charged so far; it is updated before the limit is checked. A
  caller without a budget charges nothing.
\<close>

definition charge :: "nat \<Rightarrow> nat \<Rightarrow> (io_error + unit) \<times> nat" where
  "charge materialized n =
    (case checked_add_usize materialized n of None \<Rightarrow> (Inl (Io InvalidData), materialized)
     | Some materialized \<Rightarrow>
       (if materialized > MAX_PROPERTY_MATERIALIZATION_BYTES then Inl (Io InvalidData) else Inr (), materialized))"

definition charge_budget :: "nat option \<Rightarrow> nat \<Rightarrow> (io_error + unit) \<times> nat option" where
  "charge_budget budget n =
    (case budget of None \<Rightarrow> (Inr (), None)
     | Some materialized \<Rightarrow> (case charge materialized n of (r, materialized) \<Rightarrow> (r, Some materialized)))"

section \<open>Property contexts\<close>

record 'w property_context =
  ctx_sub_node :: "'w option"
  ctx_heap :: heap_node
  ctx_root :: heap_id

text \<open>\<open>collect\<close> into a \<open>BTreeMap\<close>: a later record of a key replaces an earlier one.\<close>

definition context_properties :: "'w property_context \<Rightarrow> io_error + (u16 \<rightharpoonup> property_record)" where
  "context_properties ctx =
    (case heap_tree_entries 2 6 read_u16 property_record_read (ctx_heap ctx) (ctx_root ctx) of Inl e \<Rightarrow> Inl e
     | Inr entries \<Rightarrow> Inr (map_of (rev entries)))"

text \<open>A read that delivers bytes brings the reader closer to the declared size.\<close>

lemma reader_read_progress:
  assumes "data_tree_reader_read S n r = (Inr out, r')" "out \<noteq> []"
  shows "dr_expected_size r' - dr_total_read r' < dr_expected_size r - dr_total_read r"
proof -
  have n: "n \<noteq> 0" using assms by (cases "n = 0") (auto simp: data_tree_reader_read_def)
  let ?k = "min n (dr_expected_size r - dr_total_read r)"
  have rem: "dr_expected_size r - dr_total_read r \<noteq> 0"
    using assms n by (cases "dr_expected_size r - dr_total_read r = 0") (auto simp: data_tree_reader_read_def split: if_splits)
  obtain res cur nxt where fill: "reader_fill S ?k (take ?k (dr_current r)) (drop ?k (dr_current r)) (dr_next r) = (res, cur, nxt)"
    by (metis prod_cases3)
  have "dr_total_read r' = dr_total_read r + length out \<and> dr_expected_size r' = dr_expected_size r"
    using assms n rem fill
    by (auto simp: data_tree_reader_read_def Let_def checked_add_usize_Some split: if_splits sum.splits option.splits)
  moreover have "0 < length out" using assms(2) by simp
  ultimately show ?thesis using rem by linarith
qed

text \<open>
  \<open>read_to_end\<close> reads until a read returns nothing. The size of the buffers is the choice of the
  standard library.
\<close>

function read_to_end ::
  "('a::len word, 'e, 'c) block_source \<Rightarrow> nat \<Rightarrow> 'e data_tree_reader \<Rightarrow> io_error + bytes" where
  "read_to_end S buf r =
    (case data_tree_reader_read S buf r of (Inl e, r) \<Rightarrow> Inl e
     | (Inr out, r) \<Rightarrow>
       if out = [] then Inr []
       else (case read_to_end S buf r of Inl e \<Rightarrow> Inl e | Inr outs \<Rightarrow> Inr (out @ outs)))"
  by pat_completeness auto
termination
  by (relation "measure (\<lambda>(_, _, r). dr_expected_size r - dr_total_read r)") (auto dest: reader_read_progress [OF sym])

declare read_to_end.simps [simp del]

text \<open>The block of a value in a sub-node of the context.\<close>

definition find_value_block ::
  "('a::len word, 'e, 'c) block_source \<Rightarrow> 'a word subnode_format \<Rightarrow> 'a word property_context \<Rightarrow> node_id
    \<Rightarrow> 'c \<Rightarrow> (io_error + 'e) \<times> 'c" where
  "find_value_block S N ctx nid pc =
    (case ctx_sub_node ctx of None \<Rightarrow> (Inl (LtpIo (PropertySubNodeValueNotFound nid)), pc)
     | Some sub_node \<Rightarrow>
       (case fetch_subnode_tree S N sub_node pc of (Inl e, pc) \<Rightarrow> (Inl e, pc)
        | (Inr tree, pc) \<Rightarrow>
          (case subnode_find_entry S N tree nid pc of (Inl e, pc) \<Rightarrow> (Inl e, pc)
           | (Inr block, pc) \<Rightarrow> bs_find S (block_id_search_key block) pc)))"

definition charge_decoded ::
  "value_layout \<Rightarrow> nat \<Rightarrow> nat option \<Rightarrow> property_value \<Rightarrow> (io_error + property_value) \<times> nat option" where
  "charge_decoded L reserved budget decoded =
    (case budget of None \<Rightarrow> (Inr decoded, None)
     | Some materialized \<Rightarrow>
       (case materialized_size L decoded of None \<Rightarrow> (Inl (Io InvalidData), Some materialized)
        | Some actual \<Rightarrow>
          if actual > reserved
          then (case charge_budget (Some materialized) (actual - reserved) of
                  (Inl e, budget) \<Rightarrow> (Inl e, budget) | (Inr _, budget) \<Rightarrow> (Inr decoded, budget))
          else (Inr decoded, Some materialized)))"

text \<open>
  The value of a record of the context: in the record, in the heap, or in the data tree of a
  sub-node, which is taken out of the cache while it is read and put back afterwards.
\<close>

definition heap_value ::
  "'w property_context \<Rightarrow> heap_id \<Rightarrow> property_type \<Rightarrow> nat option
    \<Rightarrow> (io_error + nat \<times> property_value) \<times> nat option" where
  "heap_value ctx hid prop_type budget =
    (case heap_find_entry (ctx_heap ctx) hid of Inl e \<Rightarrow> (Inl e, budget)
     | Inr data \<Rightarrow>
       (case charge_budget budget (length data) of (Inl e, budget) \<Rightarrow> (Inl e, budget)
        | (Inr _, budget) \<Rightarrow>
          (case property_value_read prop_type data of Inl e \<Rightarrow> (Inl e, budget)
           | Inr v \<Rightarrow> (Inr (length data, v), budget))))"

definition subnode_value ::
  "('a::len word, 'e, 'c) block_source \<Rightarrow> 'a word subnode_format \<Rightarrow> nat \<Rightarrow> 'a word property_context \<Rightarrow> node_id \<Rightarrow> property_type
    \<Rightarrow> nat option \<Rightarrow> 'c \<Rightarrow> 'a word block_cache
    \<Rightarrow> (io_error + nat \<times> property_value) \<times> nat option \<times> 'c \<times> 'a word block_cache" where
  "subnode_value S N buf ctx nid prop_type budget pc bc =
    (case find_value_block S N ctx nid pc of (Inl e, pc) \<Rightarrow> (Inl e, budget, pc, bc)
     | (Inr block, pc) \<Rightarrow>
       let bid = ref_block (bs_ref S block) in
       (case (case bc bid of Some t \<Rightarrow> Inr t | None \<Rightarrow> read_entry_tree S block) of Inl e \<Rightarrow> (Inl e, budget, pc, bc(bid := None))
        | Inr data_tree \<Rightarrow>
          (case charge_budget budget (declared_size data_tree) of (Inl e, budget) \<Rightarrow> (Inl e, budget, pc, bc(bid := None))
           | (Inr _, budget) \<Rightarrow>
             (case data_tree_reader_bounded S data_tree pc (bc(bid := None)) of
                (Inl e, pc, bc) \<Rightarrow> (Inl e, budget, pc, bc(bid \<mapsto> data_tree))
              | (Inr r, pc, bc) \<Rightarrow>
                (case read_to_end S buf r of Inl e \<Rightarrow> (Inl e, budget, pc, bc(bid \<mapsto> data_tree))
                 | Inr data \<Rightarrow>
                   (case property_value_read prop_type data of Inl e \<Rightarrow> (Inl e, budget, pc, bc(bid \<mapsto> data_tree))
                    | Inr v \<Rightarrow> (Inr (declared_size data_tree, v), budget, pc, bc(bid \<mapsto> data_tree))))))))"

definition read_property ::
  "('a::len word, 'e, 'c) block_source \<Rightarrow> 'a word subnode_format \<Rightarrow> value_layout \<Rightarrow> nat \<Rightarrow> 'a word property_context
    \<Rightarrow> property_record \<Rightarrow> nat option \<Rightarrow> 'c \<Rightarrow> 'a word block_cache
    \<Rightarrow> (io_error + property_value) \<times> nat option \<times> 'c \<times> 'a word block_cache" where
  "read_property S N L buf ctx r budget pc bc =
    (if pr_value r = RecordHeap 0 then (Inr PropNull, budget, pc, bc)
     else
     (case (case pr_value r of
         RecordHeap hid \<Rightarrow> (case heap_value ctx hid (pr_type r) budget of (v, budget) \<Rightarrow> (v, budget, pc, bc))
       | RecordNode nid \<Rightarrow> subnode_value S N buf ctx nid (pr_type r) budget pc bc
       | RecordSmall value \<Rightarrow>
         (case small_value (RecordSmall value) (pr_type r) of
            None \<Rightarrow> (Inl (LtpIo (InvalidSmallPropertyType (pr_type r))), budget, pc, bc)
          | Some v \<Rightarrow> (Inr (0, v), budget, pc, bc))) of
        (Inl e, budget, pc, bc) \<Rightarrow> (Inl e, budget, pc, bc)
      | (Inr (reserved, decoded), budget, pc, bc) \<Rightarrow>
        (case charge_decoded L reserved budget decoded of (v, budget) \<Rightarrow> (v, budget, pc, bc))))"

text \<open>Hashing a value in a sub-node, block by block, without materialising it.\<close>

function identity_loop ::
  "('a::len word, 'e, 'c) block_source \<Rightarrow> 'e data_tree_reader \<Rightarrow> bytes \<Rightarrow> nat \<Rightarrow> io_error + bytes \<times> nat" where
  "identity_loop S r hashed byte_len =
    (case data_tree_reader_read S 8192 r of (Inl e, r) \<Rightarrow> Inl e
     | (Inr out, r) \<Rightarrow>
       if out = [] then Inr (hashed, byte_len)
       else (case checked_add_usize byte_len (length out) of None \<Rightarrow> Inl (Io InvalidData)
         | Some byte_len \<Rightarrow> identity_loop S r (hashed @ out) byte_len))"
  by pat_completeness auto
termination
  by (relation "measure (\<lambda>(_, r, _). dr_expected_size r - dr_total_read r)") (auto dest: reader_read_progress [OF sym])

declare identity_loop.simps [simp del]

definition stream_property_identity ::
  "(bytes \<Rightarrow> bytes) \<Rightarrow> ('a::len word, 'e, 'c) block_source \<Rightarrow> 'a word subnode_format \<Rightarrow> 'a word property_context
    \<Rightarrow> property_record \<Rightarrow> 'c \<Rightarrow> 'a word block_cache
    \<Rightarrow> (io_error + u16 \<times> nat \<times> bytes) \<times> 'c \<times> 'a word block_cache" where
  "stream_property_identity sha256 S N ctx r pc bc =
    (case pr_value r of
       RecordNode nid \<Rightarrow>
         (case find_value_block S N ctx nid pc of (Inl e, pc) \<Rightarrow> (Inl e, pc, bc)
          | (Inr block, pc) \<Rightarrow>
            (case read_entry_tree S block of Inl e \<Rightarrow> (Inl e, pc, bc)
             | Inr data_tree \<Rightarrow>
               (case streaming_reader S data_tree pc bc of (Inl e, pc, bc) \<Rightarrow> (Inl e, pc, bc)
                | (Inr rd, pc, bc) \<Rightarrow>
                  (case identity_loop S rd [] 0 of Inl e \<Rightarrow> (Inl e, pc, bc)
                   | Inr (hashed, byte_len) \<Rightarrow>
                     (Inr (property_type_code (pr_type r), byte_len, sha256 hashed), pc, bc)))))
     | _ \<Rightarrow> (Inl (Io InvalidData), pc, bc))"

section \<open>Round trips\<close>

definition property_record_ok :: "property_record \<Rightarrow> bool" where
  "property_record_ok r \<longleftrightarrow> property_record_of (pr_type r) (value_record_code (pr_value r)) = pr_value r"

interpretation precord: codec property_record_write property_record_read property_record_ok 6
  by unfold_locales (simp_all add: property_record_write_def property_record_read_def property_record_ok_def)

interpretation ptrecord: codec property_tree_record_write property_tree_record_read "\<lambda>r. property_record_ok (snd r)" 8
  by unfold_locales
    (simp_all add: property_tree_record_write_def property_tree_record_read_def precord.length_enc precord.dec_enc)

text \<open>The offsets of items of the given lengths.\<close>

fun item_starts :: "nat \<Rightarrow> nat list \<Rightarrow> nat list" where
  "item_starts start [] = []"
| "item_starts start (len # lens) = start # item_starts (start + len) lens"

lemma length_item_starts [simp]: "length (item_starts start lens) = length lens"
  by (induction lens arbitrary: start) simp_all

lemma write_offsets_Inr:
  "write_offsets start lens = Inr bs \<Longrightarrow>
    bs = concat (map (write_u32 \<circ> word_of_nat) (item_starts start lens)) \<and> list_all (\<lambda>s. s < 2 ^ 32) (item_starts start lens)"
  by (induction start lens arbitrary: bs rule: write_offsets.induct) (auto split: if_splits sum.splits)

lemma read_items_starts:
  "read_items (item_starts start (map length items)) start (concat items) = Inr items"
proof (induction items arbitrary: start)
  case (Cons x xs)
  show ?case
  proof (cases xs)
    case (Cons y ys)
    then show ?thesis using Cons.IH [of "start + length x"] by (cases "x = []") simp_all
  qed simp
qed simp

lemma length_unit_bytes [simp]: "length (unit_bytes units) = 2 * length units"
  by (simp add: unit_bytes_def u16.length_concat_enc)

lemma unit_bytes_Cons:
  obtains a b where "unit_bytes (u # us) = a # b # unit_bytes us" "from_le [a, b] = u"
proof -
  obtain a b where ab: "to_le 2 u = [a, b]" using length_to_le [of 2 u] by (auto simp: numeral_2_eq_2 length_Suc_conv)
  have "from_le (to_le 2 u) = u" by (rule from_le_u16)
  then show ?thesis using ab that by (metis unit_bytes_def append_Cons append_Nil concat.simps(2) list.map(2))
qed

lemma code_units_bytes [simp]: "code_units (unit_bytes units) = units"
proof (induction units)
  case (Cons u us)
  then show ?case by (metis unit_bytes_Cons code_units.simps(1))
qed (simp add: unit_bytes_def)

lemma read_unicode_bytes: "read_unicode (unit_bytes units) = takeWhile (\<lambda>ch. ch \<noteq> 0) units"
proof (induction units)
  case (Cons u us)
  obtain a b where "unit_bytes (u # us) = a # b # unit_bytes us" "from_le [a, b] = u" by (rule unit_bytes_Cons)
  then show ?case using Cons by (simp add: Let_def del: from_le_2)
qed (simp add: unit_bytes_def)

lemma read_unicode_items_starts:
  "read_unicode_items (item_starts start (map (length \<circ> unit_bytes) items)) start (concat (map unit_bytes items)) =
    Inr (map (takeWhile (\<lambda>ch. ch \<noteq> 0)) items)"
proof (induction items arbitrary: start)
  case (Cons x xs)
  have "read_many (length x) read_u16 (unit_bytes x @ r) = Inr (x, r)" for r
    by (simp add: unit_bytes_def u16.read_many_enc)
  then show ?case using Cons.IH [of "start + 2 * length x"] by (cases xs) simp_all
qed simp

lemma read_fixed_values_enc:
  assumes "0 < width" "\<forall>x\<in>set xs. length (enc x) = width \<and> decode (enc x) = x"
  shows "read_fixed_values width decode (concat (map enc xs)) = Inr xs"
  using assms(2)
proof (induction xs)
  case Nil
  then show ?case using assms(1) by simp
next
  case (Cons x xs)
  then obtain b bs where "enc x = b # bs" "length bs = width - 1" using assms(1) by (cases "enc x") auto
  then show ?case using Cons assms(1) by simp
qed

lemma read_offsets_items:
  assumes "write_items items = Inr bs" "length items \<le> MAX_MULTI_VALUE_ELEMENTS"
  shows "\<exists>start. read_offsets bs = Inr ((item_starts start (map length items), start), concat items)"
proof -
  let ?start = "(length items + 1) * 4"
  have n: "length items < 2 ^ 32" using assms(2) by (simp add: MAX_MULTI_VALUE_ELEMENTS_def)
  obtain offs where o: "write_offsets ?start (map length items) = Inr offs"
    "bs = write_u32 (word_of_nat (length items)) @ offs @ concat items"
    using assms(1) n by (auto simp: write_items_def split: sum.splits)
  define ws :: "u32 list" where "ws = map word_of_nat (item_starts ?start (map length items))"
  have ws: "offs = concat (map write_u32 ws)" "map unat ws = item_starts ?start (map length items)" "length ws = length items"
    using write_offsets_Inr [OF o(1)] by (auto simp: ws_def list_all_iff unat_of_nat intro!: map_idI)
  moreover have "unat (word_of_nat (length items) :: u32) = length items" using n by (simp add: unat_of_nat)
  ultimately have "read_offsets bs = Inr ((item_starts ?start (map length items), ?start), concat items)"
    using assms(2) o(2)
    by (auto simp: read_offsets_def read_multivalue_count_def require_eof_def u32.read_many_enc [of ws])
  then show ?thesis by blast
qed

text \<open>A string ends at its first zero.\<close>

definition terminated :: "property_value \<Rightarrow> property_value" where
  "terminated v = (case v of
     PropString8 buffer \<Rightarrow> PropString8 (takeWhile (\<lambda>b. b \<noteq> 0) buffer)
   | PropUnicode buffer \<Rightarrow> PropUnicode (takeWhile (\<lambda>ch. ch \<noteq> 0) buffer)
   | PropMultipleString8 values \<Rightarrow> PropMultipleString8 (map (takeWhile (\<lambda>b. b \<noteq> 0)) values)
   | PropMultipleUnicode values \<Rightarrow> PropMultipleUnicode (map (takeWhile (\<lambda>ch. ch \<noteq> 0)) values)
   | v \<Rightarrow> v)"

definition value_ok :: "property_value \<Rightarrow> bool" where
  "value_ok v \<longleftrightarrow> (case v of
     PropGuid g \<Rightarrow> length (guid_data4 g) = 8
   | PropMultipleGuid gs \<Rightarrow> list_all (\<lambda>g. length (guid_data4 g) = 8) gs
   | PropMultipleString8 values \<Rightarrow> length values \<le> MAX_MULTI_VALUE_ELEMENTS
   | PropMultipleUnicode values \<Rightarrow> length values \<le> MAX_MULTI_VALUE_ELEMENTS
   | PropMultipleBinary values \<Rightarrow> length values \<le> MAX_MULTI_VALUE_ELEMENTS
   | _ \<Rightarrow> True)"

lemma guid_read_bytes: "length (guid_data4 g) = 8 \<Longrightarrow> guid_read (guid_to_le_bytes g) = Inr (g, [])"
  by (simp add: guid_read_def guid_to_le_bytes_def)

lemma guid_decode_bytes: "length (guid_data4 g) = 8 \<Longrightarrow> guid_decode (guid_to_le_bytes g) = g"
  by (simp add: guid_decode_def guid_to_le_bytes_def)

lemma length_guid_bytes: "length (guid_data4 g) = 8 \<Longrightarrow> length (guid_to_le_bytes g) = 16"
  by (simp add: guid_to_le_bytes_def)

lemma of_items_written:
  assumes "write_items items = Inr bs" "length items \<le> MAX_MULTI_VALUE_ELEMENTS"
    and "\<And>start. rd (item_starts start (map length items)) start (concat items) = Inr values"
  shows "of_items mk rd bs = Inr (mk values)"
  using read_offsets_items [OF assms(1,2)] assms(3) by (auto simp: of_items_def)

lemma of_fixed_written:
  assumes "0 < width" "\<forall>x\<in>set xs. length (enc x) = width \<and> decode (enc x) = x"
  shows "of_fixed mk width decode (concat (map enc xs)) = Inr (mk xs)"
  by (simp add: of_fixed_def read_fixed_values_enc [OF assms])

lemma property_value_written:
  assumes "property_value_write v = Inr bs" "value_ok v"
  shows "property_value_read (property_value_type v) bs = Inr (terminated v)"
proof (cases v)
  case (PropMultipleString8 vs)
  then show ?thesis using assms of_items_written [of vs bs read_items vs] read_items_starts
    by (simp add: property_value_write_def property_value_read_def terminated_def value_ok_def)
next
  case (PropMultipleBinary vs)
  then show ?thesis using assms of_items_written [of vs bs read_items vs] read_items_starts
    by (simp add: property_value_write_def property_value_read_def terminated_def value_ok_def)
next
  case (PropMultipleUnicode vs)
  then show ?thesis
    using assms of_items_written [of "map unit_bytes vs" bs read_unicode_items "map (takeWhile (\<lambda>ch. ch \<noteq> 0)) vs"]
      read_unicode_items_starts [of _ vs]
    by (simp add: property_value_write_def property_value_read_def terminated_def value_ok_def)
next
  case (PropMultipleGuid vs)
  then show ?thesis using assms of_fixed_written [of 16 vs guid_to_le_bytes guid_decode]
    by (simp add: property_value_write_def property_value_read_def terminated_def value_ok_def list_all_iff length_guid_bytes guid_decode_bytes)
qed (insert assms, auto simp: property_value_write_def property_value_read_def terminated_def value_ok_def of_decoder_def
      of_fixed_written read_unicode_bytes guid_read_bytes object_read_def node_id_read_def node_id_write_def)

section \<open>Properties\<close>

text \<open>
  C10. Writing a property value and reading it with its type gives the value back, for every type
  with a serialisation: integers, floats, times, GUIDs, objects, binaries, and the multi-valued
  types with their table of offsets (at most 65536 items). Only strings are shortened, to what
  stands before their first zero.
\<close>

theorem property_value_round_trip:
  assumes "property_value_write v = Inr bs" "value_ok v"
  shows "property_value_read (property_value_type v) bs = Inr (terminated v)"
  by (rule property_value_written [OF assms])

theorem property_value_round_trip_witness:
  "\<exists>bs. property_value_write (PropMultipleBinary [[1, 2], [], [3]]) = Inr bs \<and> length bs = 19 \<and>
    property_value_read PtypMultipleBinary bs = Inr (PropMultipleBinary [[1, 2], [], [3]])"
proof -
  obtain bs where bs: "property_value_write (PropMultipleBinary [[1, 2], [], [3]]) = Inr bs" "length bs = 19"
    by (simp add: property_value_write_def write_items_def usize_max_def)
  then show ?thesis
    using property_value_round_trip [OF bs(1)] by (simp add: value_ok_def MAX_MULTI_VALUE_ELEMENTS_def terminated_def)
qed

end
