(* ===== verification/Ndb_Amap.thy ===== *)
theory Ndb_Amap
  imports Ndb_Page
begin

text \<open>
  \<open>AllocationMapPage::find_free_bits\<close>: the search of an allocation map for a run of free slots. A
  range is the pair of its start and its end. The slot counts of the loop stay below 3976 on
  a page of 496 bytes, so only the final sum, which adds an argument of the caller, can exceed
  16 bits; it wraps around in the release profile.
\<close>

section \<open>Definitions from the source\<close>

type_synonym range = "nat \<times> nat"

definition rlen :: "range \<Rightarrow> nat" where
  "rlen r = snd r - fst r"

definition longer :: "range \<Rightarrow> range \<Rightarrow> range" where
  "longer current max_free_slots =
    (if rlen current > rlen max_free_slots then current else max_free_slots)"

definition leading_zero_count :: "u8 \<Rightarrow> nat" where
  "leading_zero_count b =
    (if b = 0x00 then 8
     else if b < 0x02 then 7
     else if b < 0x04 then 6
     else if b < 0x08 then 5
     else if b < 0x10 then 4
     else if b < 0x20 then 3
     else if b < 0x40 then 2
     else if b < 0x80 then 1
     else 0)"

definition trailing_zero_count :: "u8 \<Rightarrow> nat" where
  "trailing_zero_count b =
    (if b = 0x00 then 8
     else if b AND 0x7F = 0 then 7
     else if b AND 0x3F = 0 then 6
     else if b AND 0x1F = 0 then 5
     else if b AND 0x0F = 0 then 4
     else if b AND 0x07 = 0 then 3
     else if b AND 0x03 = 0 then 2
     else if b AND 0x01 = 0 then 1
     else 0)"

text \<open>The loop over the slots between the first and the last allocated slot of a byte.\<close>

fun inner_free_bits :: "u8 \<Rightarrow> nat list \<Rightarrow> range \<Rightarrow> range \<Rightarrow> range \<times> range" where
  "inner_free_bits page [] current max_free_slots = (current, max_free_slots)"
| "inner_free_bits page (i # is) current max_free_slots =
    (if page AND drop_bit i 0x80 = 0
     then inner_free_bits page is (fst current, snd current + 1) max_free_slots
     else inner_free_bits page is (snd current + 1, snd current + 1)
            (longer current max_free_slots))"

definition byte_free_bits :: "u8 \<Rightarrow> range \<Rightarrow> range \<Rightarrow> io_error + range \<times> range" where
  "byte_free_bits page current max_free_slots =
    (if page = 0
     then let current = (fst current, snd current + 8)
          in Inr (current, longer current max_free_slots)
     else let leading_zero = leading_zero_count page;
              trailing_zero = trailing_zero_count page in
       if \<not> leading_zero + trailing_zero < 8 then Inl Panic
       else let page_offset = snd current + 8;
                current = (fst current, snd current + leading_zero);
                max_free_slots = longer current max_free_slots;
                max_free_slots =
                  (if page \<noteq> 0xFF \<and> rlen max_free_slots + 2 < 8 - trailing_zero - leading_zero
                   then case inner_free_bits page [leading_zero + 1..<7 - trailing_zero]
                            (snd current + 1, snd current + 1) max_free_slots of
                          (inner, max_free_slots) \<Rightarrow> longer inner max_free_slots
                   else max_free_slots)
            in Inr ((page_offset - trailing_zero, page_offset), max_free_slots))"

fun free_bits_loop :: "nat \<Rightarrow> bytes \<Rightarrow> range \<Rightarrow> range \<Rightarrow> io_error + range \<times> range" where
  "free_bits_loop max_size [] current max_free_slots = Inr (current, max_free_slots)"
| "free_bits_loop max_size (page # pages) current max_free_slots =
    (case byte_free_bits page current max_free_slots of Inl e \<Rightarrow> Inl e
     | Inr (current, max_free_slots) \<Rightarrow>
       if rlen max_free_slots \<ge> max_size then Inr (current, max_free_slots)
       else free_bits_loop max_size pages current max_free_slots)"

definition find_free_bits :: "bytes \<Rightarrow> nat \<Rightarrow> io_error + range" where
  "find_free_bits map_bits max_size =
    (case free_bits_loop max_size map_bits (0, 0) (0, 0) of Inl e \<Rightarrow> Inl e
     | Inr (current, max_free_slots) \<Rightarrow>
       let max_free_slots = longer current max_free_slots
       in Inr (fst max_free_slots,
            min (snd max_free_slots) ((fst max_free_slots + max_size) mod 2 ^ 16)))"

text \<open>Slot \<open>i\<close> of a map is bit \<open>7 - i mod 8\<close> of byte \<open>i div 8\<close>; a set bit is an allocated slot.\<close>

definition slot_used :: "bytes \<Rightarrow> nat \<Rightarrow> bool" where
  "slot_used bs i \<longleftrightarrow> bit (bs ! (i div 8)) (7 - i mod 8)"

definition free_range :: "bytes \<Rightarrow> nat \<Rightarrow> nat \<Rightarrow> bool" where
  "free_range bs a b \<longleftrightarrow> (\<forall>i. a \<le> i \<and> i < b \<longrightarrow> \<not> slot_used bs i)"

section \<open>Bytes\<close>

lemma less_exp_bits: "unat (b :: u8) < 2 ^ k \<longleftrightarrow> (\<forall>j. bit b j \<longrightarrow> j < k)"
  by (rule unat_less_exp_iff_bits)

lemma and_mask_bits: "(b :: u8) AND mask k = 0 \<longleftrightarrow> (\<forall>j<k. \<not> bit b j)"
proof -
  have "bit b j \<Longrightarrow> j < 8" for j using bit_imp_le_length [of b j] by simp
  then show ?thesis by (auto simp: bit_eq_iff bit_simps)
qed

lemma mask_values:
  "(0x7F :: u8) = mask 7" "(0x3F :: u8) = mask 6" "(0x1F :: u8) = mask 5" "(0x0F :: u8) = mask 4"
  "(0x07 :: u8) = mask 3" "(0x03 :: u8) = mask 2" "(0x01 :: u8) = mask 1"
  by (simp_all add: mask_eq_exp_minus_1)

lemma upto_7_cases: "(k :: nat) < 8 \<Longrightarrow> k \<in> {0, 1, 2, 3, 4, 5, 6, 7}"
  by auto

lemma leading_zero_count_bits:
  assumes "b \<noteq> 0"
  obtains k where "k < 8" "leading_zero_count b = 7 - k" "bit b k" "\<And>j. bit b j \<Longrightarrow> j \<le> k"
proof -
  have "unat b < 2 ^ 8" using unat_word_bound [of b] by simp
  moreover have "\<not> unat b < 2 ^ 0" using assms by (simp add: unat_eq_zero)
  ultimately obtain k where k: "k < 8" "\<not> unat b < 2 ^ k" "unat b < 2 ^ Suc k"
    using ex_least_nat_less [of "\<lambda>k. unat b < 2 ^ k" 8] by auto
  have up: "j \<le> k" if "bit b j" for j
    using k(3) that by (simp only: less_exp_bits) (meson less_Suc_eq_le)
  moreover have "bit b k"
    using k(2) up by (simp only: less_exp_bits) (metis le_neq_implies_less)
  moreover have "leading_zero_count b = 7 - k"
    using k assms upto_7_cases [OF k(1)]
    by (auto simp: leading_zero_count_def word_less_nat_alt)
  ultimately show thesis using that k(1) by blast
qed

lemma trailing_zero_count_bits:
  assumes "b \<noteq> 0"
  obtains k where "k < 8" "trailing_zero_count b = k" "bit b k" "\<And>j. bit b j \<Longrightarrow> k \<le> j"
proof -
  have "\<exists>j. bit b j" using assms by (metis bit_word_eqI bit_0_eq bot_apply bot_bool_def)
  then obtain k where k: "bit b k" "\<And>j. bit b j \<Longrightarrow> k \<le> j"
    using that by (metis (no_types) exists_least_iff not_le)
  moreover have "k < 8" using bit_imp_le_length [OF k(1)] by simp
  moreover have m: "b AND mask n = 0 \<longleftrightarrow> n \<le> k" for n
    unfolding and_mask_bits using k(1) by (meson k(2) leD le_less_linear less_le_trans)
  have "trailing_zero_count b = k"
    using assms upto_7_cases [OF \<open>k < 8\<close>]
    unfolding trailing_zero_count_def mask_values m by auto
  ultimately show thesis using that by blast
qed

lemma and_drop_80: "i < 8 \<Longrightarrow> page AND drop_bit i (0x80 :: u8) = 0 \<longleftrightarrow> \<not> bit page (7 - i)"
proof -
  assume "i < 8"
  then have "drop_bit i (0x80 :: u8) = 2 ^ (7 - i)"
    using upto_7_cases [of i] by auto
  then show ?thesis by (simp add: and_exp_eq_0_iff_not_bit)
qed

section \<open>The scan invariant\<close>

text \<open>
  \<open>scan bs k s m\<close>: the first \<open>k\<close> slots have been scanned, the run of free slots that reaches
  \<open>k\<close> starts at \<open>s\<close>, and \<open>m\<close> is a free range that starts at \<open>s\<close> or before, is at least as long as every free
  range that starts before \<open>s\<close>, and starts no later than one of the same length.
\<close>

definition scan :: "bytes \<Rightarrow> nat \<Rightarrow> nat \<Rightarrow> range \<Rightarrow> bool" where
  "scan bs k s m \<longleftrightarrow> s \<le> k \<and> free_range bs s k \<and> (0 < s \<longrightarrow> slot_used bs (s - 1)) \<and>
     fst m \<le> snd m \<and> snd m \<le> k \<and> fst m \<le> s \<and> free_range bs (fst m) (snd m) \<and>
     (\<forall>a b. a < s \<and> b < s \<and> free_range bs a b \<longrightarrow> b - a \<le> rlen m \<and> (a < b \<and> b - a = rlen m \<longrightarrow> fst m \<le> a))"

lemma free_range_bounded: "free_range bs a b \<Longrightarrow> slot_used bs k \<Longrightarrow> a \<le> k \<Longrightarrow> b \<le> k"
  by (auto simp: free_range_def not_less [symmetric])

lemma free_range_join: "free_range bs a k \<Longrightarrow> free_range bs k b \<Longrightarrow> free_range bs a b"
  by (auto simp: free_range_def) (meson not_le)

lemma scan_start: "scan bs 0 0 (0, 0)"
  by (simp add: scan_def free_range_def)

lemma scan_free: "scan bs k s m \<Longrightarrow> free_range bs k k' \<Longrightarrow> k \<le> k' \<Longrightarrow> scan bs k' s m"
  using free_range_join [of bs s k k'] by (auto simp: scan_def)

lemma scan_longer: "scan bs k s m \<Longrightarrow> scan bs k s (longer (s, k) m)"
  by (fastforce simp: scan_def longer_def rlen_def)

lemma rlen_longer: "rlen c \<le> rlen (longer c m)" "rlen m \<le> rlen (longer c m)"
  by (simp_all add: longer_def)

lemma scan_range:
  assumes "scan bs k s m" "free_range bs a b" "b \<le> k"
  shows "b - a \<le> rlen m \<and> (a < b \<and> b - a = rlen m \<longrightarrow> fst m \<le> a) \<or> s \<le> a"
proof (cases "a < s")
  case True
  then have "b \<le> s - 1"
    using assms by (intro free_range_bounded [of bs a b "s - 1"]) (auto simp: scan_def)
  then have "b < s" using True by simp
  then show ?thesis using True assms(1,2) unfolding scan_def by blast
qed simp

text \<open>A stretch without a longer free range, up to and including a used slot, can be skipped.\<close>

lemma scan_skip:
  assumes sc: "scan bs k s m" and le: "k \<le> l" and used: "slot_used bs l"
    and short: "\<And>a b. s \<le> a \<Longrightarrow> b \<le> l \<Longrightarrow> free_range bs a b \<Longrightarrow> b - a \<le> rlen m"
  shows "scan bs (Suc l) (Suc l) m"
proof -
  have "b - a \<le> rlen m \<and> (a < b \<and> b - a = rlen m \<longrightarrow> fst m \<le> a)" if ab: "a < Suc l" "b < Suc l" "free_range bs a b" for a b
  proof (cases "s \<le> a")
    case True
    then show ?thesis using short sc ab by (auto simp: scan_def)
  next
    case False
    then have "b \<le> s - 1"
      using sc ab by (intro free_range_bounded [of bs a b "s - 1"]) (auto simp: scan_def)
    then have "b \<le> k" using sc by (auto simp: scan_def)
    then show ?thesis using scan_range [OF sc ab(3)] False by blast
  qed
  then show ?thesis using sc le used by (auto simp: scan_def free_range_def)
qed

lemma scan_used:
  assumes sc: "scan bs k s m" and used: "slot_used bs k"
  shows "scan bs (Suc k) (Suc k) (longer (s, k) m)"
proof (rule scan_skip [OF scan_longer [OF sc] order_refl used])
  fix a b assume "s \<le> a" "b \<le> k"
  then have "b - a \<le> rlen (s, k)" by (simp add: rlen_def)
  then show "b - a \<le> rlen (longer (s, k) m)" using rlen_longer(1) order_trans by blast
qed

lemma scan_inner:
  assumes page: "\<And>j. j < 8 \<Longrightarrow> slot_used bs (p + j) \<longleftrightarrow> bit page (7 - j)"
  shows "scan bs (p + i) s m \<Longrightarrow> i \<le> hi \<Longrightarrow> hi \<le> 8 \<Longrightarrow>
    inner_free_bits page [i..<hi] (s, p + i) m = (c', m') \<Longrightarrow>
    \<exists>s'. c' = (s', p + hi) \<and> scan bs (p + hi) s' m'"
proof (induction "hi - i" arbitrary: i s m)
  case 0
  then show ?case by auto
next
  case (Suc n)
  then have i: "i < hi" "i < 8" and upt: "[i..<hi] = i # [Suc i..<hi]"
    by (simp_all add: upt_conv_Cons)
  show ?case
  proof (cases "bit page (7 - i)")
    case True
    then have "scan bs (p + Suc i) (p + Suc i) (longer (s, p + i) m)"
      using scan_used [OF Suc.prems(1)] page [OF i(2)] by simp
    moreover have "inner_free_bits page [Suc i..<hi] (p + Suc i, p + Suc i)
        (longer (s, p + i) m) = (c', m')"
      using Suc.prems(4) True i and_drop_80 [OF i(2), of page] by (simp add: upt)
    ultimately show ?thesis using Suc.hyps(1) [of "Suc i"] Suc.hyps(2) Suc.prems(3) i by simp
  next
    case False
    then have "scan bs (p + Suc i) s m"
      using Suc.prems(1) page [OF i(2)]
      by (intro scan_free [OF Suc.prems(1)]) (auto simp: free_range_def le_less_Suc_eq)
    moreover have "inner_free_bits page [Suc i..<hi] (s, p + Suc i) m = (c', m')"
      using Suc.prems(4) False i and_drop_80 [OF i(2), of page] by (simp add: upt)
    ultimately show ?thesis using Suc.hyps(1) [of "Suc i"] Suc.hyps(2) Suc.prems(3) i by simp
  qed
qed

lemma free_range_byte:
  assumes slots: "\<And>j. j < 8 \<Longrightarrow> slot_used bs (p + j) \<longleftrightarrow> bit page (7 - j)"
    and "b \<le> 8" and clear: "\<And>j. a \<le> j \<Longrightarrow> j < b \<Longrightarrow> \<not> bit page (7 - j)"
  shows "free_range bs (p + a) (p + b)"
  unfolding free_range_def
proof (intro allI impI)
  fix k assume k: "p + a \<le> k \<and> k < p + b"
  then obtain j where "k = p + j" by (metis add_leD1 le_Suc_ex)
  then show "\<not> slot_used bs k" using k slots [of j] clear [of j] \<open>b \<le> 8\<close> by auto
qed

lemma full_byte_range:
  assumes slots: "\<And>j. j < 8 \<Longrightarrow> slot_used bs (p + j) \<longleftrightarrow> bit (0xFF :: u8) (7 - j)"
    and "free_range bs a b" "p \<le> a" "b \<le> p + 8"
  shows "b \<le> a"
proof (rule ccontr)
  assume "\<not> b \<le> a"
  define j where "j = a - p"
  have j: "a = p + j" "j < 8" using assms(3,4) \<open>\<not> b \<le> a\<close> by (auto simp: j_def)
  have "bit (0xFF :: u8) (7 - j)" using upto_7_cases [OF j(2)] by auto
  then have "slot_used bs a" using slots [OF j(2)] j by simp
  then show False using assms(2) \<open>\<not> b \<le> a\<close> by (auto simp: free_range_def)
qed

lemma scan_skip_middle:
  fixes page :: u8
  assumes slots: "\<And>j. j < 8 \<Longrightarrow> slot_used bs (p + j) \<longleftrightarrow> bit page (7 - j)"
    and first: "scan bs (Suc (p + lz)) (Suc (p + lz)) m" and th: "lz + t < 8"
    and last_used: "slot_used bs (p + (7 - t))"
    and cond: "\<not> (page \<noteq> 0xFF \<and> rlen m + 2 < 8 - t - lz)"
  shows "scan bs (Suc (p + (7 - t))) (Suc (p + (7 - t))) m"
proof (cases "lz = 7 - t")
  case True
  then show ?thesis using first by simp
next
  case less: False
  show ?thesis
  proof (rule scan_skip [OF first _ last_used])
    show "Suc (p + lz) \<le> p + (7 - t)" using less th by simp
  next
    fix a b assume ab: "Suc (p + lz) \<le> a" "b \<le> p + (7 - t)" "free_range bs a b"
    show "b - a \<le> rlen m"
    proof (cases "page = 0xFF")
      case True
      then have "b \<le> a" using full_byte_range [of bs p a b] slots ab by simp
      then show ?thesis by simp
    next
      case False
      then have "8 - t - lz \<le> rlen m + 2" using cond by simp
      then show ?thesis using ab th by simp
    qed
  qed
qed

lemma scan_inner_middle:
  assumes slots: "\<And>j. j < 8 \<Longrightarrow> slot_used bs (p + j) \<longleftrightarrow> bit page (7 - j)"
    and first: "scan bs (Suc (p + lz)) (Suc (p + lz)) m" and th: "lz + 1 \<le> 7 - t"
    and last_used: "slot_used bs (p + (7 - t))"
  shows "scan bs (Suc (p + (7 - t))) (Suc (p + (7 - t)))
    (case inner_free_bits page [lz + 1..<7 - t] (p + lz + 1, p + lz + 1) m of
       (inner, m) \<Rightarrow> longer inner m)"
proof -
  obtain c' m' where inner:
    "inner_free_bits page [lz + 1..<7 - t] (p + lz + 1, p + lz + 1) m = (c', m')"
    by (cases "inner_free_bits page [lz + 1..<7 - t] (p + lz + 1, p + lz + 1) m") auto
  have "\<exists>s'. c' = (s', p + (7 - t)) \<and> scan bs (p + (7 - t)) s' m'"
    using th first inner
    by (intro scan_inner [OF slots, where i = "lz + 1" and s = "p + lz + 1" and m = m])
      (simp_all add: add.assoc)
  then obtain s' where c': "c' = (s', p + (7 - t))" "scan bs (p + (7 - t)) s' m'" by blast
  show ?thesis using scan_used [OF c'(2) last_used] by (simp only: inner c'(1) prod.case)
qed

lemma scan_nonzero:
  assumes slots: "\<And>j. j < 8 \<Longrightarrow> slot_used bs (p + j) \<longleftrightarrow> bit page (7 - j)"
    and sc: "scan bs p s m" and nz: "page \<noteq> 0"
  obtains s' m' where "byte_free_bits page (s, p) m = Inr ((s', p + 8), m')"
    and "scan bs (p + 8) s' m'"
proof -
  obtain h where h: "h < 8" "leading_zero_count page = 7 - h" "bit page h"
    and hi: "\<And>j. bit page j \<Longrightarrow> j \<le> h"
    using leading_zero_count_bits [OF nz] by blast
  obtain t where t: "t < 8" "trailing_zero_count page = t" "bit page t"
    and lo: "\<And>j. bit page j \<Longrightarrow> t \<le> j"
    using trailing_zero_count_bits [OF nz] by blast
  define lz where "lz = 7 - h"
  have th: "lz + t < 8" using hi [OF t(3)] h t by (auto simp: lz_def)
  define m1 where "m1 = longer (s, p + lz) m"
  define m2 where "m2 = (if page \<noteq> 0xFF \<and> rlen m1 + 2 < 8 - t - lz
    then case inner_free_bits page [lz + 1..<7 - t] (p + lz + 1, p + lz + 1) m1 of
      (inner, m) \<Rightarrow> longer inner m else m1)"
  have "free_range bs (p + 0) (p + lz)"
    by (rule free_range_byte [OF slots]) (auto simp: lz_def dest: hi)
  then have "scan bs (p + lz) s m"
    by (intro scan_free [OF sc]) simp_all
  then have first: "scan bs (Suc (p + lz)) (Suc (p + lz)) m1"
    using slots [of lz] h unfolding m1_def by (intro scan_used) (auto simp: lz_def)
  have last_used: "slot_used bs (p + (7 - t))" using slots [of "7 - t"] t by simp
  have "scan bs (Suc (p + (7 - t))) (Suc (p + (7 - t))) m2"
  proof (cases "page \<noteq> 0xFF \<and> rlen m1 + 2 < 8 - t - lz")
    case True
    then have "lz + 1 \<le> 7 - t" by linarith
    then show ?thesis
      using scan_inner_middle [OF slots first _ last_used] True by (simp add: m2_def)
  next
    case False
    then show ?thesis
      using scan_skip_middle [OF slots first th last_used] unfolding m2_def if_not_P [OF False]
      by blast
  qed
  moreover have eq: "Suc (p + (7 - t)) = p + (8 - t)" using t by auto
  ultimately have sc2: "scan bs (p + (8 - t)) (p + (8 - t)) m2" by (simp only:)
  have "free_range bs (p + (8 - t)) (p + 8)"
    by (rule free_range_byte [OF slots]) (auto dest: lo)
  then have "scan bs (p + 8) (p + (8 - t)) m2"
    by (rule scan_free [OF sc2]) simp
  moreover have "byte_free_bits page (s, p) m = Inr ((p + (8 - t), p + 8), m2)"
    using nz th h(2) t(1,2)
    by (simp add: byte_free_bits_def Let_def m1_def m2_def lz_def)
  ultimately show thesis using that by blast
qed

lemma scan_byte:
  assumes sc: "scan bs (8 * i) s m" and i: "i < length bs"
  obtains s' m' where "byte_free_bits (bs ! i) (s, 8 * i) m = Inr ((s', 8 * Suc i), m')"
    and "scan bs (8 * Suc i) s' m'"
proof -
  have slots: "slot_used bs (8 * i + j) \<longleftrightarrow> bit (bs ! i) (7 - j)" if "j < 8" for j
    using that by (simp add: slot_used_def)
  show thesis
  proof (cases "bs ! i = 0")
    case True
    then have "free_range bs (8 * i + 0) (8 * i + 8)"
      by (intro free_range_byte [OF slots]) simp_all
    then have "scan bs (8 + 8 * i) s m"
      using sc by (intro scan_free [OF sc]) (simp_all add: add.commute)
    then have "scan bs (8 * Suc i) s (longer (s, 8 * Suc i) m)"
      by (intro scan_longer) simp
    moreover have "byte_free_bits (bs ! i) (s, 8 * i) m =
        Inr ((s, 8 * Suc i), longer (s, 8 * Suc i) m)"
      using True by (simp add: byte_free_bits_def Let_def add.commute)
    ultimately show thesis using that by blast
  next
    case False
    obtain s' m' where "byte_free_bits (bs ! i) (s, 8 * i) m = Inr ((s', 8 * i + 8), m')"
      "scan bs (8 * i + 8) s' m'"
      by (rule scan_nonzero [OF slots sc False])
    then show thesis using that [of s' m'] by (simp add: add.commute)
  qed
qed

text \<open>No run of free slots that is closed by a used slot below \<open>n\<close> is as long as the request.\<close>

definition short_before :: "bytes \<Rightarrow> nat \<Rightarrow> nat \<Rightarrow> bool" where
  "short_before bs n max_size \<longleftrightarrow> (\<forall>a b c. free_range bs a b \<and> b \<le> c \<and> c < n \<and> slot_used bs c \<longrightarrow> b - a < max_size)"

lemma short_before_mono:
  assumes "short_before bs n' max_size" "n \<le> n'"
  shows "short_before bs n max_size"
  using assms unfolding short_before_def by (meson less_le_trans)

lemma scan_short_before:
  assumes "scan bs k s m" "rlen m < max_size"
  shows "short_before bs k max_size"
  unfolding short_before_def
proof (intro allI impI, elim conjE)
  fix a b c assume c: "free_range bs a b" "b \<le> c" "c < k" "slot_used bs c"
  have "\<not> s \<le> c"
  proof
    assume "s \<le> c"
    moreover have "free_range bs s k" using assms(1) by (simp add: scan_def)
    ultimately show False using c(3,4) by (auto simp: free_range_def)
  qed
  then have "c < s" by simp
  then show "b - a < max_size"
  proof (cases "a < b")
    case True
    then have "b - a \<le> rlen m" using assms(1) c(1,2) \<open>c < s\<close> unfolding scan_def by (meson le_less_trans less_trans)
    then show ?thesis using assms(2) by simp
  qed (use assms(2) in simp)
qed

lemma scan_loop:
  assumes "scan bs (8 * i) s m" "i \<le> length bs" "short_before bs (8 * i) max_size"
  shows "\<exists>k s' m'. free_bits_loop max_size (drop i bs) (s, 8 * i) m = Inr ((s', 8 * k), m') \<and>
    k \<le> length bs \<and> scan bs (8 * k) s' m' \<and> (k = length bs \<or> max_size \<le> rlen m') \<and> short_before bs (8 * (k - 1)) max_size"
  using assms
proof (induction "length bs - i" arbitrary: i s m)
  case 0
  then have "i = length bs" by simp
  then show ?case using "0.prems" short_before_mono [OF "0.prems"(3), of "8 * (i - 1)"]
    by (intro exI [of _ i] exI [of _ s] exI [of _ m]) simp
next
  case (Suc n)
  then have i: "i < length bs" and drop: "drop i bs = bs ! i # drop (Suc i) bs"
    by (simp_all add: Cons_nth_drop_Suc)
  obtain s' m' where b: "byte_free_bits (bs ! i) (s, 8 * i) m = Inr ((s', 8 * Suc i), m')"
    and sc: "scan bs (8 * Suc i) s' m'"
    using scan_byte [OF Suc.prems(1) i] by blast
  show ?case
  proof (cases "max_size \<le> rlen m'")
    case True
    then show ?thesis using b sc i Suc.prems(3) by (auto simp: drop intro!: exI [of _ "Suc i"])
  next
    case False
    then show ?thesis
      using Suc.hyps(1) [of "Suc i", OF _ sc] scan_short_before [OF sc, of max_size] Suc.hyps(2) b i by (simp add: drop)
  qed
qed

text \<open>
  C17. On a full allocation map page and for any request that the 16-bit sum can hold, the search
  never fails its internal assertion. It looks at the first bytes of the page, all of them or as many as it takes to find
  a run of at least the requested length, and returns the first of the longest free ranges among their slots, cut to the request. It
  does not look further than necessary: no run that is closed before the last byte it looks at is as long as the request. So the result is as
  long as any free range of the page allows: if some free range holds \<open>n\<close> slots, the result holds at least \<open>n\<close> slots or the request.
\<close>

theorem find_free_bits_spec:
  assumes "length map_bits = 496" "max_size \<le> 61567"
  shows "\<exists>k s e. find_free_bits map_bits max_size = Inr (s, min e (s + max_size)) \<and>
    k \<le> 496 \<and> s \<le> e \<and> e \<le> 8 * k \<and> free_range map_bits s e \<and>
    (\<forall>a b. a < b \<and> b \<le> 8 * k \<and> free_range map_bits a b \<longrightarrow> b - a < e - s \<or> b - a = e - s \<and> s \<le> a) \<and>
    (k = 496 \<or> max_size \<le> e - s) \<and> short_before map_bits (8 * (k - 1)) max_size \<and>
    (\<forall>a b. b \<le> 3968 \<and> free_range map_bits a b \<longrightarrow> min max_size (b - a) \<le> min e (s + max_size) - s)"
proof -
  have "short_before map_bits (8 * 0) max_size" by (simp add: short_before_def)
  then obtain k s' m' where loop: "free_bits_loop max_size map_bits (0, 0) (0, 0) = Inr ((s', 8 * k), m')"
    and k: "k \<le> 496" "scan map_bits (8 * k) s' m'" "k = 496 \<or> max_size \<le> rlen m'" and short: "short_before map_bits (8 * (k - 1)) max_size"
    using scan_loop [of map_bits 0 0 "(0, 0)" max_size] scan_start assms(1) by auto
  define m where "m = longer (s', 8 * k) m'"
  have m: "scan map_bits (8 * k) s' m" "rlen m' \<le> rlen m" "8 * k - s' \<le> rlen m"
    using scan_longer [OF k(2)] rlen_longer(2) [of m' "(s', 8 * k)"]
      rlen_longer(1) [of "(s', 8 * k)" m']
    by (simp_all add: m_def rlen_def)
  have bounds: "fst m \<le> snd m" "snd m \<le> 8 * k" "free_range map_bits (fst m) (snd m)" "fst m \<le> s'"
    using m(1) by (auto simp: scan_def)
  then have sum: "(fst m + max_size) mod 2 ^ 16 = fst m + max_size"
    using assms(2) k(1) by simp
  have res: "find_free_bits map_bits max_size = Inr (fst m, min (snd m) (fst m + max_size))"
    unfolding find_free_bits_def by (simp add: loop m_def [symmetric] sum [simplified] Let_def)
  have first: "b - a < snd m - fst m \<or> b - a = snd m - fst m \<and> fst m \<le> a" if "a < b" "b \<le> 8 * k" "free_range map_bits a b" for a b
    using scan_range [OF m(1) that(3,2)] that(1,2) m(3) bounds(4) by (auto simp: rlen_def)
  have "min max_size (b - a) \<le> min (snd m) (fst m + max_size) - fst m"
    if "b \<le> 3968" "free_range map_bits a b" for a b
  proof (cases "max_size \<le> rlen m'")
    case True
    then show ?thesis using m(2) bounds by (simp add: rlen_def)
  next
    case False
    then have "b - a \<le> snd m - fst m" using k(3) that first [of a b] by (cases "a < b") auto
    then show ?thesis using bounds by simp
  qed
  moreover have "k = 496 \<or> max_size \<le> snd m - fst m" using k(3) m(2) by (auto simp: rlen_def)
  ultimately show ?thesis using res k(1) bounds short
    by (intro exI [of _ k] exI [of _ "fst m"] exI [of _ "snd m"] conjI allI impI)
      (simp_all add: first)
qed

theorem find_free_bits_spec_witness:
  "\<exists>k s e. find_free_bits (replicate 496 0xF0) 0xFF = Inr (s, min e (s + 0xFF)) \<and>
    k \<le> 496 \<and> s \<le> e \<and> e \<le> 8 * k \<and> free_range (replicate 496 0xF0) s e \<and>
    (\<forall>a b. a < b \<and> b \<le> 8 * k \<and> free_range (replicate 496 0xF0) a b \<longrightarrow> b - a < e - s \<or> b - a = e - s \<and> s \<le> a) \<and>
    (k = 496 \<or> 0xFF \<le> e - s) \<and> short_before (replicate 496 0xF0) (8 * (k - 1)) 0xFF \<and>
    (\<forall>a b. b \<le> 3968 \<and> free_range (replicate 496 0xF0) a b \<longrightarrow> min 0xFF (b - a) \<le> min e (s + 0xFF) - s)"
  by (rule find_free_bits_spec) simp_all

end
