(* ===== verification/Writer_Alloc.thy ===== *)
theory Writer_Alloc
  imports Ndb_Amap
begin

text \<open>
  Space allocation of the writer (\<open>writer.rs\<close>): extents are taken from a cursor that skips the
  map pages at the head of every allocation region, and the map pages are written at the end
  from the final position of the cursor. Offsets are 64-bit words; \<open>align_up\<close> wraps around as in the
  release profile. An error leaves the cursor as it was, so it carries no state.
\<close>

section \<open>Errors of the writer\<close>

text \<open>\<open>error.to_string()\<close> is represented by the error it prints.\<close>

datatype error_text = Literal string | NdbText ndb_error | LtpText ltp_error

datatype writer_error =
    Interrupted | OutputExists string | PublishedDurability string io_error
  | PublishedDestinationChanged string | IndependentValidatorIo string io_error
  | IndependentValidation string string | ValueTooLarge string | InvalidStructure error_text
  | InputRejected error_text | CompletedValidation error_text | ExecutionTerminated
  | WriterIo io_error

definition of_io :: "io_error + 'a \<Rightarrow> writer_error + 'a" where
  "of_io r = (case r of Inl e \<Rightarrow> Inl (WriterIo e) | Inr x \<Rightarrow> Inr x)"

definition of_ndb :: "ndb_error + 'a \<Rightarrow> writer_error + 'a" where
  "of_ndb r = (case r of Inl e \<Rightarrow> Inl (InvalidStructure (NdbText e)) | Inr x \<Rightarrow> Inr x)"

text \<open>A loop that collects results and stops at the first error.\<close>

fun try_map :: "('a \<Rightarrow> 'e + 'b) \<Rightarrow> 'a list \<Rightarrow> 'e + 'b list" where
  "try_map f [] = Inr []"
| "try_map f (x # xs) =
    (case f x of Inl e \<Rightarrow> Inl e
     | Inr y \<Rightarrow> (case try_map f xs of Inl e \<Rightarrow> Inl e | Inr ys \<Rightarrow> Inr (y # ys)))"

section \<open>Extents\<close>

definition FIRST_AMAP :: u64 where "FIRST_AMAP = 0x4400"
definition FIRST_DATA :: u64 where "FIRST_DATA = 0x4800"
definition SLOTS_PER_AMAP :: u64 where "SLOTS_PER_AMAP = 496 * 8"
definition SLOT_SIZE :: u64 where "SLOT_SIZE = 64"
definition WRITER_PAGE_SIZE :: u64 where "WRITER_PAGE_SIZE = 512"
definition AMAP_DATA_SIZE :: u64 where "AMAP_DATA_SIZE = SLOTS_PER_AMAP * SLOT_SIZE"
definition FMAP_FIRST_AMAP :: u64 where "FMAP_FIRST_AMAP = 128"
definition FMAP_AMAP_COUNT :: u64 where "FMAP_AMAP_COUNT = 496"
definition FPMAP_FIRST_AMAP :: u64 where "FPMAP_FIRST_AMAP = 128 * 64"
definition FPMAP_AMAP_COUNT :: u64 where "FPMAP_AMAP_COUNT = 496 * 64"

definition div_ceil_w :: "u64 \<Rightarrow> u64 \<Rightarrow> u64" where
  "div_ceil_w a b = (if a mod b > 0 then a div b + 1 else a div b)"

definition saturating_mul_w :: "u64 \<Rightarrow> u64 \<Rightarrow> u64" where
  "saturating_mul_w a b = (if unat a * unat b < 2 ^ 64 then a * b else - 1)"

definition align_up :: "u64 \<Rightarrow> u64 \<Rightarrow> u64" where
  "align_up value alignment = div_ceil_w value alignment * alignment"

definition reserved_map_page_count :: "u64 \<Rightarrow> u64" where
  "reserved_map_page_count amap_index =
    (if amap_index mod 8 = 0
     then 2 + (if amap_index \<ge> FMAP_FIRST_AMAP \<and> (amap_index - FMAP_FIRST_AMAP) mod FMAP_AMAP_COUNT = 0
               then 1 else 0)
            + (if amap_index \<ge> FPMAP_FIRST_AMAP \<and> (amap_index - FPMAP_FIRST_AMAP) mod FPMAP_AMAP_COUNT = 0
               then 1 else 0)
     else 1)"

text \<open>
  One round computes the extent in the region of \<open>offset\<close>; when it does not fit, the next round
  starts at the end of the region, which lies behind \<open>offset\<close>. The result is the new cursor with
  the offset.
\<close>

definition region_start_of :: "u64 \<Rightarrow> writer_error + u64" where
  "region_start_of amap_index =
    (case checked_add_w FIRST_AMAP (saturating_mul_w amap_index AMAP_DATA_SIZE) of
       None \<Rightarrow> Inl (ValueTooLarge ''allocation region'') | Some s \<Rightarrow> Inr s)"

lemma unat_div_word: "unat (a div b) = unat a div unat b" for a b :: u64
  by (rule unat_div_distrib)

lemma region_bounds:
  assumes "FIRST_AMAP \<le> offset"
    and "region_start_of ((offset - FIRST_AMAP) div AMAP_DATA_SIZE) = Inr s"
  shows "unat s = unat FIRST_AMAP + (unat offset - unat FIRST_AMAP) div 253952 * 253952"
    and "unat s \<le> unat offset" "unat offset < unat s + 253952"
proof -
  define q where "q = (offset - FIRST_AMAP) div AMAP_DATA_SIZE"
  have D: "unat AMAP_DATA_SIZE = 253952" by (simp add: AMAP_DATA_SIZE_def SLOTS_PER_AMAP_def SLOT_SIZE_def)
  have d: "unat (offset - FIRST_AMAP) = unat offset - unat FIRST_AMAP" using assms(1) by (rule unat_sub)
  have q: "unat q = (unat offset - unat FIRST_AMAP) div 253952"
    by (simp add: q_def unat_div_word D d)
  have "unat q * 253952 \<le> unat offset - unat FIRST_AMAP" unfolding q by simp
  then have small: "unat q * unat AMAP_DATA_SIZE < 2 ^ 64"
    using unat_word_bound [of offset] unfolding D by simp
  then have mul: "unat (q * AMAP_DATA_SIZE) = unat q * 253952"
    by (simp only: unat_mult_lem [THEN iffD1] D) (simp add: unat_word_ariths D)
  have "unat s = unat FIRST_AMAP + unat (q * AMAP_DATA_SIZE)"
    using assms(2) small unfolding region_start_of_def q_def [symmetric]
    by (auto simp: saturating_mul_w_def dest: checked_add_w_Some split: option.splits if_splits)
  then show s: "unat s = unat FIRST_AMAP + (unat offset - unat FIRST_AMAP) div 253952 * 253952"
    unfolding mul q .
  have le: "unat FIRST_AMAP \<le> unat offset" using assms(1) by (simp add: word_le_nat_alt)
  show "unat s \<le> unat offset" "unat offset < unat s + 253952"
    unfolding s using le div_mult_mod_eq [of "unat offset - unat FIRST_AMAP" 253952]
      mod_less_divisor [of 253952 "unat offset - unat FIRST_AMAP"] by linarith+
qed

function allocate_extent_loop :: "u64 \<Rightarrow> u64 \<Rightarrow> u64 \<Rightarrow> writer_error + u64 \<times> u64" where
  "allocate_extent_loop offset sz alignment =
    (if \<not> FIRST_AMAP \<le> offset then Inl (InvalidStructure (Literal ''allocation before first AMap''))
     else let amap_index = (offset - FIRST_AMAP) div AMAP_DATA_SIZE in
    (case region_start_of amap_index of Inl e \<Rightarrow> Inl e | Inr region_start \<Rightarrow>
    (case checked_add_w region_start
        (saturating_mul_w (reserved_map_page_count amap_index) WRITER_PAGE_SIZE) of
       None \<Rightarrow> Inl (ValueTooLarge ''allocation map pages'')
     | Some reserved_end \<Rightarrow>
       (let start = (if offset < reserved_end then align_up reserved_end alignment else offset) in
        case checked_add_w start sz of None \<Rightarrow> Inl (ValueTooLarge ''allocation extent'')
        | Some end \<Rightarrow>
          (case checked_add_w region_start AMAP_DATA_SIZE of
             None \<Rightarrow> Inl (ValueTooLarge ''allocation region'')
           | Some region_end \<Rightarrow>
             if end \<le> region_end then Inr (end, start)
             else allocate_extent_loop region_end sz alignment)))))"
  by pat_completeness auto
termination
proof (relation "measure (\<lambda>(offset, _, _). 2 ^ 64 - unat offset)")
  fix offset sz alignment amap_index region_start reserved_end start "end" region_end
  assume "\<not> \<not> FIRST_AMAP \<le> offset" "amap_index = (offset - FIRST_AMAP) div AMAP_DATA_SIZE"
    "region_start_of amap_index = Inr region_start"
    "checked_add_w region_start AMAP_DATA_SIZE = Some region_end"
  then have "unat offset < unat region_end"
    using region_bounds(3) [of offset region_start] checked_add_w_Some [of region_start AMAP_DATA_SIZE region_end]
    by (simp add: AMAP_DATA_SIZE_def SLOTS_PER_AMAP_def SLOT_SIZE_def)
  then show "((region_end, sz, alignment), (offset, sz, alignment))
      \<in> measure (\<lambda>(offset, _, _). 2 ^ 64 - unat offset)"
    using unat_word_bound [of region_end] by simp
qed simp

declare allocate_extent_loop.simps [simp del]

definition allocate_extent :: "u64 \<Rightarrow> u64 \<Rightarrow> u64 \<Rightarrow> writer_error + u64 \<times> u64" where
  "allocate_extent cursor sz alignment = allocate_extent_loop (align_up cursor alignment) sz alignment"

definition allocation_file_eof :: "u64 \<Rightarrow> writer_error + u64" where
  "allocation_file_eof allocated_end =
    (case checked_sub_w allocated_end FIRST_AMAP of
       None \<Rightarrow> Inl (InvalidStructure (Literal ''allocation end underflow''))
     | Some used \<Rightarrow>
       (case checked_add_w FIRST_AMAP (saturating_mul_w (max (div_ceil_w used AMAP_DATA_SIZE) 1) AMAP_DATA_SIZE) of
          None \<Rightarrow> Inl (ValueTooLarge ''file EOF'') | Some r \<Rightarrow> Inr r))"

section \<open>Map pages\<close>

definition writer_page_trailer :: "page_type \<Rightarrow> u64 \<Rightarrow> u64 \<Rightarrow> unicode_page_trailer" where
  "writer_page_trailer t offset page_id =
    page_trailer_new t (page_type_signature t offset page_id) page_id 0"

definition free_slot_class :: "u16 \<Rightarrow> u8" where
  "free_slot_class free_slots = ucast (min free_slots 0xFF)"

definition write_map_page :: "page_type \<Rightarrow> bytes \<Rightarrow> u64 \<Rightarrow> bytes \<Rightarrow> writer_error + bytes" where
  "write_map_page t file offset bits =
    (case of_ndb (unicode_map_page_new (page_type_code t) bits (writer_page_trailer t offset offset)) of
       Inl e \<Rightarrow> Inl e
     | Inr page \<Rightarrow> Inr (write_at file (unat offset) (unicode_map_page_write page)))"

definition amap_free_slots :: "u64 \<Rightarrow> u64 \<Rightarrow> writer_error + u16" where
  "amap_free_slots allocated_end amap_index =
    (case checked_add_w FIRST_AMAP (saturating_mul_w amap_index AMAP_DATA_SIZE) of
       None \<Rightarrow> Inl (ValueTooLarge ''allocation map offset'')
     | Some region_start \<Rightarrow>
    (case checked_add_w region_start AMAP_DATA_SIZE of
       None \<Rightarrow> Inl (ValueTooLarge ''allocation map extent'')
     | Some region_end \<Rightarrow>
       (let used_end = max (min allocated_end region_end) region_start;
            allocated_slots = div_ceil_w (if region_start \<le> used_end then used_end - region_start else 0) SLOT_SIZE in
        case checked_sub_w SLOTS_PER_AMAP allocated_slots of
          None \<Rightarrow> Inl (ValueTooLarge ''allocation map free slots'')
        | Some free \<Rightarrow>
          if unat free \<ge> 2 ^ 16 then Inl (ValueTooLarge ''allocation map free slots'')
          else Inr (ucast free))))"

text \<open>The loop that sets one bit per allocated slot.\<close>

definition amap_bits :: "nat \<Rightarrow> bytes" where
  "amap_bits allocated_slots =
    foldl (\<lambda>bits slot. bits[slot div 8 := bits ! (slot div 8) OR drop_bit (slot mod 8) 0x80])
      (replicate 496 0) [0..<allocated_slots]"

text \<open>The map pages at the head of one region.\<close>

definition write_region_maps :: "u16 list \<Rightarrow> bytes \<Rightarrow> u64 \<Rightarrow> writer_error + bytes" where
  "write_region_maps free_slots file amap_index =
    (case checked_add_w FIRST_AMAP (saturating_mul_w amap_index AMAP_DATA_SIZE) of
       None \<Rightarrow> Inl (ValueTooLarge ''allocation map offset'')
     | Some region_start \<Rightarrow>
       if \<not> unat amap_index < length free_slots
       then Inl (InvalidStructure (Literal ''allocation free map is incomplete''))
       else let free = free_slots ! unat amap_index;
                allocated_slots = unat SLOTS_PER_AMAP - unat free in
       (case write_map_page AllocationMap file region_start (amap_bits allocated_slots) of
          Inl e \<Rightarrow> Inl e
        | Inr file \<Rightarrow>
          (let reserved_offset = region_start + WRITER_PAGE_SIZE in
           if amap_index mod 8 = 0 then
             (case write_map_page AllocationPageMap file reserved_offset (replicate 496 0xFF) of
                Inl e \<Rightarrow> Inl e
              | Inr file \<Rightarrow>
                (let reserved_offset = reserved_offset + WRITER_PAGE_SIZE;
                     fmap = amap_index \<ge> FMAP_FIRST_AMAP \<and> (amap_index - FMAP_FIRST_AMAP) mod FMAP_AMAP_COUNT = 0;
                     fpmap = amap_index \<ge> FPMAP_FIRST_AMAP \<and> (amap_index - FPMAP_FIRST_AMAP) mod FPMAP_AMAP_COUNT = 0;
                     classes = map free_slot_class (take 496 (drop (unat amap_index) free_slots)) in
                 case (if fmap
                       then write_map_page FreeMap file reserved_offset (classes @ replicate (496 - length classes) 0)
                       else Inr file) of
                   Inl e \<Rightarrow> Inl e
                 | Inr file \<Rightarrow>
                   if fpmap
                   then write_map_page FreePageMap file
                     (if fmap then reserved_offset + WRITER_PAGE_SIZE else reserved_offset) (replicate 496 0xFF)
                   else Inr file))
           else Inr file)))"

fun write_all_region_maps :: "u16 list \<Rightarrow> bytes \<Rightarrow> u64 list \<Rightarrow> writer_error + bytes" where
  "write_all_region_maps free_slots file [] = Inr file"
| "write_all_region_maps free_slots file (amap_index # rest) =
    (case write_region_maps free_slots file amap_index of Inl e \<Rightarrow> Inl e
     | Inr file \<Rightarrow> write_all_region_maps free_slots file rest)"

record constructed_allocation =
  ca_free_bytes :: u64
  ca_first_free_map :: bytes

fun sum_free_bytes :: "u64 \<Rightarrow> u16 list \<Rightarrow> writer_error + u64" where
  "sum_free_bytes acc [] = Inr acc"
| "sum_free_bytes acc (free # rest) =
    (case checked_add_w acc (saturating_mul_w (ucast free) SLOT_SIZE) of
       None \<Rightarrow> Inl (ValueTooLarge ''allocation free byte count'')
     | Some acc \<Rightarrow> sum_free_bytes acc rest)"

definition write_density_list :: "bytes \<Rightarrow> u64 \<Rightarrow> u16 list \<Rightarrow> u64 \<Rightarrow> writer_error + bytes" where
  "write_density_list file amap_count free_slots next_page_id =
    (let density_trailer = writer_page_trailer DensityList (word_of_nat DENSITY_LIST_FILE_OFFSET) next_page_id in
     if amap_count = 1
     then (case of_ndb (density_list_entry_new 0 (free_slots ! 0)) of Inl e \<Rightarrow> Inl e
       | Inr entry \<Rightarrow>
         (case of_ndb (density_list_new (476 div 4) True 1 [entry] density_trailer) of Inl e \<Rightarrow> Inl e
          | Inr page \<Rightarrow> of_io (unicode_density_list_write page file)))
     else if unat (amap_count - 1) \<ge> 2 ^ 32 then Inl (ValueTooLarge ''density list current page'')
     else (case of_ndb (density_list_new (476 div 4) False (ucast (amap_count - 1)) [] density_trailer) of
         Inl e \<Rightarrow> Inl e
       | Inr page \<Rightarrow> of_io (unicode_density_list_write page file)))"

definition write_allocation_pages ::
  "bytes \<Rightarrow> u64 \<Rightarrow> u64 \<Rightarrow> writer_error + bytes \<times> constructed_allocation" where
  "write_allocation_pages file allocated_end next_page_id =
    (case checked_sub_w allocated_end FIRST_AMAP of
       None \<Rightarrow> Inl (InvalidStructure (Literal ''allocation start underflow''))
     | Some used \<Rightarrow>
       (let amap_count = max (div_ceil_w (max used 1) AMAP_DATA_SIZE) 1;
            indexes = map word_of_nat [0..<unat amap_count] in
        case try_map (amap_free_slots allocated_end) indexes of Inl e \<Rightarrow> Inl e
        | Inr free_slots \<Rightarrow>
          (case write_all_region_maps free_slots file indexes of Inl e \<Rightarrow> Inl e
           | Inr file \<Rightarrow>
             (case write_density_list file amap_count free_slots next_page_id of Inl e \<Rightarrow> Inl e
              | Inr file \<Rightarrow>
                (case sum_free_bytes 0 free_slots of Inl e \<Rightarrow> Inl e
                 | Inr free_bytes \<Rightarrow>
                   (let classes = map free_slot_class (take 128 free_slots) in
                    Inr (file, \<lparr>ca_free_bytes = free_bytes,
                      ca_first_free_map = classes @ replicate (128 - length classes) 0\<rparr>)))))))"

section \<open>Leaf pages of a B-tree\<close>

text \<open>A range of entries is the pair of its start and its end.\<close>

fun plan_ranges :: "nat \<Rightarrow> nat \<Rightarrow> nat \<Rightarrow> nat list \<Rightarrow> (nat \<times> nat) list" where
  "plan_ranges minimum larger_pages start [] = []"
| "plan_ranges minimum larger_pages start (page # pages) =
    (let sz = minimum + (if page < larger_pages then 1 else 0) in
     (start, start + sz) # plan_ranges minimum larger_pages (start + sz) pages)"

definition plan_leaf_pages :: "nat \<Rightarrow> nat \<Rightarrow> writer_error + (nat \<times> nat) list" where
  "plan_leaf_pages entry_count capacity =
    (if capacity = 0 then Inl (InvalidStructure (Literal ''B-tree leaf capacity must be nonzero''))
     else if entry_count = 0 then Inr []
     else let page_count = div_ceil entry_count capacity;
              minimum = entry_count div page_count;
              larger_pages = entry_count mod page_count in
       Inr (plan_ranges minimum larger_pages 0 [0..<page_count]))"

function btree_page_count_loop :: "nat \<Rightarrow> nat \<Rightarrow> nat \<Rightarrow> writer_error + nat" where
  "btree_page_count_loop intermediate_capacity level pages =
    (if \<not> 1 < level then Inr pages
     else if intermediate_capacity = 0 then Inl (WriterIo Panic)
     else let level = div_ceil level intermediate_capacity in
       (case checked_add_usize pages level of
          None \<Rightarrow> Inl (ValueTooLarge ''B-tree page count'')
        | Some pages \<Rightarrow> btree_page_count_loop intermediate_capacity level pages))"
  by pat_completeness auto
termination
proof (relation "measure (\<lambda>(_, _, pages). usize_max - pages)")
  fix c level pages level' pages' :: nat
  assume "\<not> \<not> 1 < level" "c \<noteq> 0" "level' = div_ceil level c" "checked_add_usize pages level' = Some pages'"
  then show "((c, level', pages'), (c, level, pages)) \<in> measure (\<lambda>(_, _, pages). usize_max - pages)"
    using div_ceil_pos_iff [of c level] by (auto simp: checked_add_usize_def split: if_splits)
qed simp

declare btree_page_count_loop.simps [simp del]

definition btree_page_count :: "nat \<Rightarrow> nat \<Rightarrow> nat \<Rightarrow> writer_error + nat" where
  "btree_page_count entries leaf_capacity intermediate_capacity =
    (if entries = 0 \<or> leaf_capacity = 0 \<or> intermediate_capacity = 0
     then Inl (InvalidStructure (Literal ''B-tree projection requires entries and nonzero capacities''))
     else let level = div_ceil entries leaf_capacity in
       btree_page_count_loop intermediate_capacity level level)"

section \<open>Correctness of the allocation\<close>

text \<open>
  Region \<open>k\<close> and the bytes its map pages take. An extent is placed when it lies in one region,
  behind the map pages.
\<close>

definition region_begin :: "nat \<Rightarrow> nat" where
  "region_begin k = 17408 + k * 253952"

definition reserved_bytes :: "nat \<Rightarrow> nat" where
  "reserved_bytes k = unat (reserved_map_page_count (word_of_nat k)) * 512"

definition extent_placed :: "nat \<Rightarrow> nat \<Rightarrow> bool" where
  "extent_placed start len \<longleftrightarrow>
    (\<exists>k. region_begin k + reserved_bytes k \<le> start \<and> start + len \<le> region_begin (Suc k))"

lemma writer_consts:
  "unat FIRST_AMAP = 17408" "unat AMAP_DATA_SIZE = 253952" "unat WRITER_PAGE_SIZE = 512"
  "unat SLOT_SIZE = 64"
  by (simp_all add: FIRST_AMAP_def AMAP_DATA_SIZE_def SLOTS_PER_AMAP_def SLOT_SIZE_def WRITER_PAGE_SIZE_def)

lemma reserved_count_bounds: "1 \<le> unat (reserved_map_page_count a)" "unat (reserved_map_page_count a) \<le> 4"
  by (simp_all add: reserved_map_page_count_def)

lemma reserved_bytes_bounds: "512 \<le> reserved_bytes k" "reserved_bytes k \<le> 2048" "512 dvd reserved_bytes k"
  using reserved_count_bounds [of "word_of_nat k"] by (simp_all add: reserved_bytes_def)

lemma unat_div_ceil_w: "unat b \<noteq> 0 \<Longrightarrow> unat a div unat b + 1 < 2 ^ 64 \<Longrightarrow> unat (div_ceil_w a b) = div_ceil (unat a) (unat b)"
  by (simp add: div_ceil_w_def div_ceil_def unat_div_word unat_mod_distrib word_less_nat_alt
      unat_word_ariths)

lemma unat_align_up:
  assumes A: "1 < unat a" and v: "unat v + unat a \<le> 2 ^ 64"
  shows "unat (align_up v a) = div_ceil (unat v) (unat a) * unat a"
proof -
  have "unat v div unat a \<le> unat v div 2" using A by (simp add: div_le_mono2)
  then have "unat v div unat a + 1 < 2 ^ 64" using unat_word_bound [of v] by simp
  then have d: "unat (div_ceil_w v a) = div_ceil (unat v) (unat a)"
    using A by (intro unat_div_ceil_w) simp_all
  have "div_ceil (unat v) (unat a) * unat a < 2 ^ 64"
    using div_ceil_mult_lt [of "unat a" "unat v"] A v by simp
  then show ?thesis by (simp add: align_up_def unat_word_ariths d)
qed

lemma div_ceil_dvd: "0 < b \<Longrightarrow> b dvd a \<Longrightarrow> div_ceil a b * b = a"
  by (auto simp: div_ceil_def)

lemma align_up_aligned: "1 < unat a \<Longrightarrow> unat v + unat a \<le> 2 ^ 64 \<Longrightarrow> unat a dvd unat v \<Longrightarrow> align_up v a = v"
  by (simp add: word_unat_eq_iff unat_align_up div_ceil_dvd)

lemma region_begin_dvd: "512 dvd region_begin k" "512 dvd region_begin k + reserved_bytes k"
  using reserved_bytes_bounds(3) [of k] by (auto simp: region_begin_def intro!: dvd_add)

lemma region_begin_Suc: "region_begin (Suc k) = region_begin k + 253952"
  by (simp add: region_begin_def)

lemma allocate_round:
  fixes offset sz a :: u64
  assumes a: "1 < unat a" "unat a dvd 512" and off: "17408 \<le> unat offset"
    and max: "unat offset + 600000 \<le> 2 ^ 64" and sz: "unat sz \<le> 253952 - 2048"
  defines "k \<equiv> (unat offset - 17408) div 253952"
  shows "\<exists>start end region_end. unat start = max (unat offset) (region_begin k + reserved_bytes k) \<and>
    unat end = unat start + unat sz \<and> unat region_end = region_begin (Suc k) \<and>
    allocate_extent_loop offset sz a =
      (if end \<le> region_end then Inr (end, start) else allocate_extent_loop region_end sz a)"
proof -
  define q where "q = (offset - FIRST_AMAP) div AMAP_DATA_SIZE"
  have first: "FIRST_AMAP \<le> offset" using off by (simp add: word_le_nat_alt writer_consts)
  have q: "unat q = k"
    using first by (simp add: q_def k_def unat_div_word unat_sub writer_consts)
  have kd: "k * 253952 \<le> unat offset - 17408" unfolding k_def by simp
  have small: "unat q * unat AMAP_DATA_SIZE < 2 ^ 64"
    using kd max by (simp add: q writer_consts)
  have mul: "unat (q * AMAP_DATA_SIZE) = k * 253952"
    using small by (simp add: unat_word_ariths q writer_consts)
  have sum: "unat FIRST_AMAP + unat (q * AMAP_DATA_SIZE) < 2 ^ LENGTH(64)"
    unfolding mul writer_consts using kd max by simp
  have "saturating_mul_w q AMAP_DATA_SIZE = q * AMAP_DATA_SIZE"
    unfolding saturating_mul_w_def using small by (rule if_P)
  then have s: "region_start_of q = Inr (FIRST_AMAP + q * AMAP_DATA_SIZE)"
    by (simp only: region_start_of_def checked_add_w_SomeI [OF sum] option.case)
  define s where "s = FIRST_AMAP + q * AMAP_DATA_SIZE"
  note s = s [folded s_def]
  have us: "unat s = region_begin k"
    using region_bounds(1) [OF first s [unfolded q_def]] by (simp add: k_def region_begin_def writer_consts)
  have s_le: "region_begin k \<le> unat offset" and s_gt: "unat offset < region_begin (Suc k)"
    using region_bounds(2,3) [OF first s [unfolded q_def]] by (simp_all add: us region_begin_Suc)
  have qk: "q = word_of_nat k" using q by auto
  define r where "r = saturating_mul_w (reserved_map_page_count q) WRITER_PAGE_SIZE"
  have r: "unat r = reserved_bytes k"
    using reserved_count_bounds [of q]
    by (simp add: r_def saturating_mul_w_def writer_consts unat_word_ariths reserved_bytes_def qk)
  define res_end where "res_end = s + r"
  have sum1: "unat s + unat r < 2 ^ LENGTH(64)"
    unfolding us r using s_le max reserved_bytes_bounds(2) [of k] by simp
  have add_re: "checked_add_w s r = Some res_end"
    unfolding res_end_def by (rule checked_add_w_SomeI [OF sum1])
  then have re: "unat res_end = region_begin k + reserved_bytes k" using us r by (simp add: checked_add_w_Some)
  define region_end where "region_end = s + AMAP_DATA_SIZE"
  have sum2: "unat s + unat AMAP_DATA_SIZE < 2 ^ LENGTH(64)"
    unfolding us writer_consts using s_le max by simp
  have add_end: "checked_add_w s AMAP_DATA_SIZE = Some region_end"
    unfolding region_end_def by (rule checked_add_w_SomeI [OF sum2])
  then have ue: "unat region_end = region_begin (Suc k)"
    using us by (simp add: checked_add_w_Some writer_consts region_begin_Suc)
  have "align_up res_end a = res_end"
    using a re s_le max reserved_bytes_bounds(2) [of k] region_begin_dvd(2) [of k] dvd_imp_le [OF a(2)]
    by (intro align_up_aligned) (simp_all add: dvd_trans [OF a(2)])
  define start where "start = (if offset < res_end then align_up res_end a else offset)"
  have ust: "unat start = max (unat offset) (region_begin k + reserved_bytes k)"
    using \<open>align_up res_end a = res_end\<close> re by (auto simp: start_def word_less_nat_alt)
  define fin where "fin = start + sz"
  have sum3: "unat start + unat sz < 2 ^ LENGTH(64)"
    unfolding ust using max sz s_le reserved_bytes_bounds(2) [of k] by simp
  have add_fin: "checked_add_w start sz = Some fin"
    unfolding fin_def by (rule checked_add_w_SomeI [OF sum3])
  then have uf: "unat fin = unat start + unat sz" by (rule checked_add_w_Some)
  have "allocate_extent_loop offset sz a =
      (if fin \<le> region_end then Inr (fin, start) else allocate_extent_loop region_end sz a)"
    using first s add_re add_end add_fin
    by (subst allocate_extent_loop.simps)
      (simp add: q_def [symmetric] r_def [symmetric] start_def [symmetric] Let_def)
  then show ?thesis using ust uf ue by blast
qed

lemma allocate_extent_placed:
  fixes cursor sz a :: u64
  assumes a: "1 < unat a" "unat a dvd 512" and cur: "17408 \<le> unat cursor"
    and max: "unat cursor + 1000000 \<le> 2 ^ 64" and sz: "unat sz \<le> 253952 - 2048"
  shows "\<exists>start end. allocate_extent cursor sz a = Inr (end, start) \<and> unat cursor \<le> unat start \<and>
    unat a dvd unat start \<and> unat end = unat start + unat sz \<and> extent_placed (unat start) (unat sz) \<and>
    unat end \<le> unat cursor + 600000"
proof -
  define off where "off = align_up cursor a"
  have a512: "unat a \<le> 512" using a(2) by (auto dest: dvd_imp_le)
  have uo: "unat off = div_ceil (unat cursor) (unat a) * unat a"
    using a a512 max by (simp add: off_def unat_align_up)
  have off: "unat cursor \<le> unat off" "unat off < unat cursor + 512" "unat a dvd unat off"
    using div_ceil_mult_ge [of "unat a" "unat cursor"] div_ceil_mult_lt [of "unat a" "unat cursor"] a a512
    by (simp_all add: uo)
  define k where "k = (unat off - 17408) div 253952"
  have kb: "region_begin k \<le> unat off" "unat off < region_begin (Suc k)"
    using off(1) cur div_mult_mod_eq [of "unat off - 17408" 253952]
      mod_less_divisor [of 253952 "unat off - 17408"]
    by (simp_all add: region_begin_def k_def)
  have b1: "17408 \<le> unat off" and b2: "unat off + 600000 \<le> 2 ^ 64" using off cur max by simp_all
  obtain s e r where 1: "unat s = max (unat off) (region_begin k + reserved_bytes k)"
      "unat e = unat s + unat sz" "unat r = region_begin (Suc k)"
      "allocate_extent_loop off sz a = (if e \<le> r then Inr (e, s) else allocate_extent_loop r sz a)"
    using allocate_round [OF a b1 b2 sz, folded k_def] by (elim exE conjE)
  note res = reserved_bytes_bounds
  have dvd: "unat a dvd region_begin j + reserved_bytes j" for j
    using a(2) region_begin_dvd(2) [of j] by (rule dvd_trans)
  show ?thesis
  proof (cases "e \<le> r")
    case True
    have "extent_placed (unat s) (unat sz)"
      unfolding extent_placed_def using 1 True by (intro exI [of _ k]) (simp add: word_le_nat_alt)
    moreover have "unat a dvd unat s" unfolding 1(1) max_def using off(3) dvd by simp
    moreover have "unat cursor \<le> unat s" "unat e \<le> unat cursor + 600000"
      unfolding 1(1,2) max_def using off kb res(2) [of k] sz by simp_all
    ultimately show ?thesis
      using 1(2)
      by - (rule exI [of _ s], rule exI [of _ e], simp add: allocate_extent_def off_def [symmetric] 1(4) True region_begin_Suc)
  next
    case False
    have k': "(unat r - 17408) div 253952 = Suc k" unfolding 1(3) by (simp add: region_begin_def)
    have c1: "17408 \<le> unat r" and c2: "unat r + 600000 \<le> 2 ^ 64"
      unfolding 1(3) using kb off max by (simp_all add: region_begin_Suc region_begin_def)
    obtain s' e' r' where 2: "unat s' = max (unat r) (region_begin (Suc k) + reserved_bytes (Suc k))"
        "unat e' = unat s' + unat sz" "unat r' = region_begin (Suc (Suc k))"
        "allocate_extent_loop r sz a = (if e' \<le> r' then Inr (e', s') else allocate_extent_loop r' sz a)"
      using allocate_round [OF a c1 c2 sz, unfolded k'] by (elim exE conjE)
    have s': "unat s' = region_begin (Suc k) + reserved_bytes (Suc k)" using 2(1) 1(3) by simp
    have le: "e' \<le> r'"
      using 2(2,3) s' sz res(2) [of "Suc k"] by (simp add: word_le_nat_alt region_begin_Suc)
    have "extent_placed (unat s') (unat sz)"
      unfolding extent_placed_def using 2 s' le by (intro exI [of _ "Suc k"]) (simp add: word_le_nat_alt)
    then show ?thesis
      using 2(2) s' kb off sz res(2) [of "Suc k"] dvd [of "Suc k"]
      by - (rule exI [of _ s'], rule exI [of _ e'],
        simp add: allocate_extent_def off_def [symmetric] 1(4) 2(4) False le region_begin_Suc)
  qed
qed

section \<open>Correctness of the map pages\<close>

lemma amap_bits_Suc:
  "amap_bits (Suc n) = (amap_bits n)[n div 8 := amap_bits n ! (n div 8) OR drop_bit (n mod 8) 0x80]"
  by (simp add: amap_bits_def)

lemma length_amap_bits [simp]: "length (amap_bits n) = 496"
  by (induction n) (simp_all add: amap_bits_Suc, simp add: amap_bits_def)

lemma bit_0x80: "m < 8 \<Longrightarrow> bit (drop_bit m 0x80 :: u8) j \<longleftrightarrow> j = 7 - m"
proof -
  assume m: "m < 8"
  have "bit (2 ^ 7 :: u8) k \<longleftrightarrow> k = 7" for k by (auto simp only: bit_exp_iff) simp_all
  moreover have "(0x80 :: u8) = 2 ^ 7" by simp
  ultimately have "bit (drop_bit m 0x80 :: u8) j \<longleftrightarrow> m + j = 7"
    by (simp only: bit_drop_bit_eq comp_def)
  then show ?thesis using m by auto
qed

lemma slot_used_amap_bits: "i < 3968 \<Longrightarrow> n \<le> 3968 \<Longrightarrow> slot_used (amap_bits n) i \<longleftrightarrow> i < n"
proof (induction n)
  case 0
  then show ?case by (simp add: amap_bits_def slot_used_def)
next
  case (Suc n)
  have len: "n div 8 < 496" "i div 8 < 496" using Suc.prems by simp_all
  have "slot_used (amap_bits (Suc n)) i \<longleftrightarrow>
      slot_used (amap_bits n) i \<or> (i div 8 = n div 8 \<and> 7 - i mod 8 = 7 - n mod 8)"
    using len by (auto simp: slot_used_def amap_bits_Suc nth_list_update bit_or_iff bit_0x80)
  also have "i div 8 = n div 8 \<and> 7 - i mod 8 = 7 - n mod 8 \<longleftrightarrow> i = n"
  proof -
    have "i mod 8 < 8" "n mod 8 < 8" by simp_all
    then have "7 - i mod 8 = 7 - n mod 8 \<longleftrightarrow> i mod 8 = n mod 8" by linarith
    then show ?thesis by (metis div_mult_mod_eq)
  qed
  finally show ?case using Suc by auto
qed

text \<open>Bytes before and behind a write keep their value.\<close>

lemma take_drop_write_before:
  "p + n \<le> offset \<Longrightarrow> p + n \<le> length file \<Longrightarrow>
    take n (drop p (write_at file offset bs)) = take n (drop p file)"
  by (simp add: write_at_def take_drop)

lemma drop_write_behind:
  "offset + length bs \<le> p \<Longrightarrow> drop p (write_at file offset bs) = drop p file"
proof -
  assume p: "offset + length bs \<le> p"
  have len: "length (take offset (file @ replicate (offset - length file) 0)) = offset" by simp
  show ?thesis unfolding write_at_def
    using p by (simp only: drop_append len drop_drop) simp
qed

lemma region_start_word:
  assumes "region_begin (Suc k) < 2 ^ 64"
  defines "s \<equiv> FIRST_AMAP + word_of_nat k * AMAP_DATA_SIZE"
  shows "checked_add_w FIRST_AMAP (saturating_mul_w (word_of_nat k) AMAP_DATA_SIZE) = Some s"
    and "unat s = region_begin k" and "unat (word_of_nat k :: u64) = k"
    and "checked_add_w s AMAP_DATA_SIZE = Some (s + AMAP_DATA_SIZE)"
    and "unat (s + AMAP_DATA_SIZE) = region_begin (Suc k)"
proof -
  have "k < 2 ^ 64" using assms(1) by (simp add: region_begin_def)
  then show k: "unat (word_of_nat k :: u64) = k" by (simp add: unsigned_of_nat take_bit_nat_eq_self)
  define w where "w = (word_of_nat k :: u64)"
  have kw: "unat w = k" using k by (simp only: w_def)
  have small: "unat w * unat AMAP_DATA_SIZE < 2 ^ 64"
    using assms(1) by (simp add: kw writer_consts region_begin_def)
  have mul: "unat (w * AMAP_DATA_SIZE) = k * 253952"
    using small by (simp add: unat_word_ariths kw writer_consts)
  have sum: "unat FIRST_AMAP + unat (w * AMAP_DATA_SIZE) < 2 ^ LENGTH(64)"
    unfolding mul writer_consts using assms(1) by (simp add: region_begin_def)
  have sat: "saturating_mul_w w AMAP_DATA_SIZE = w * AMAP_DATA_SIZE"
    unfolding saturating_mul_w_def using small by (rule if_P)
  have "checked_add_w FIRST_AMAP (saturating_mul_w w AMAP_DATA_SIZE) = Some (FIRST_AMAP + w * AMAP_DATA_SIZE)"
    by (simp only: sat checked_add_w_SomeI [OF sum])
  then show c: "checked_add_w FIRST_AMAP (saturating_mul_w (word_of_nat k) AMAP_DATA_SIZE) = Some s"
    by (simp only: w_def s_def)
  show us: "unat s = region_begin k"
    using checked_add_w_Some [OF c [folded w_def, unfolded sat]] by (simp add: mul writer_consts region_begin_def)
  have sum2: "unat s + unat AMAP_DATA_SIZE < 2 ^ LENGTH(64)"
    unfolding us writer_consts using assms(1) by (simp add: region_begin_def)
  show c2: "checked_add_w s AMAP_DATA_SIZE = Some (s + AMAP_DATA_SIZE)"
    by (rule checked_add_w_SomeI [OF sum2])
  show "unat (s + AMAP_DATA_SIZE) = region_begin (Suc k)"
    using checked_add_w_Some [OF c2] by (simp add: us writer_consts region_begin_def)
qed

definition used_slots :: "nat \<Rightarrow> nat \<Rightarrow> nat" where
  "used_slots allocated_end k = min 3968 (div_ceil (allocated_end - region_begin k) 64)"

lemma amap_free_slots_eq:
  assumes "region_begin (Suc k) < 2 ^ 64"
  shows "amap_free_slots ae (word_of_nat k) = Inr (word_of_nat (3968 - used_slots (unat ae) k))"
proof -
  note r = region_start_word [OF assms]
  define st where "st = FIRST_AMAP + word_of_nat k * AMAP_DATA_SIZE"
  define en where "en = st + AMAP_DATA_SIZE"
  note r = r [folded st_def, folded en_def]
  define ue where "ue = max (min ae en) st"
  have st_le: "st \<le> ue" by (simp add: ue_def)
  have umin: "unat (min a b) = min (unat a) (unat b)" and umax: "unat (max a b) = max (unat a) (unat b)" for a b :: u64
    by (auto simp: min_def max_def word_le_nat_alt)
  have uu: "unat ue = max (min (unat ae) (region_begin (Suc k))) (region_begin k)"
    by (simp add: ue_def umin umax r)
  have diff: "unat (ue - st) = min (unat ae - region_begin k) 253952"
    using st_le by (simp only: unat_sub uu r region_begin_Suc)
  define slots where "slots = div_ceil_w (ue - st) SLOT_SIZE"
  have "unat slots = div_ceil (min (unat ae - region_begin k) 253952) 64"
    unfolding slots_def using diff by (subst unat_div_ceil_w) (simp_all add: writer_consts)
  also have "\<dots> = used_slots (unat ae) k"
  proof (cases "unat ae - region_begin k \<le> 253952")
    case True
    have "div_ceil (unat ae - region_begin k) 64 * 64 < 253952 + 64"
      using div_ceil_mult_lt [of 64 "unat ae - region_begin k"] True by simp
    then show ?thesis using True by (simp add: used_slots_def)
  next
    case False
    have "253952 < div_ceil (unat ae - region_begin k) 64 * 64"
      using div_ceil_mult_ge [of 64 "unat ae - region_begin k"] False by simp
    then show ?thesis using False by (simp add: used_slots_def div_ceil_def)
  qed
  finally have us: "unat slots = used_slots (unat ae) k" .
  have total: "unat SLOTS_PER_AMAP = 3968" by (simp add: SLOTS_PER_AMAP_def)
  have le: "slots \<le> SLOTS_PER_AMAP" by (simp add: word_le_nat_alt us total used_slots_def)
  have free: "unat (SLOTS_PER_AMAP - slots) = 3968 - used_slots (unat ae) k"
    using le by (simp add: unat_sub total us)
  have "(ucast (SLOTS_PER_AMAP - slots) :: u16) = word_of_nat (3968 - used_slots (unat ae) k)"
    by (simp only: free [symmetric] word_unat_eq_iff unsigned_ucast_eq unsigned_of_nat of_nat_id)
  then show ?thesis
    using r le free st_le
    by (simp add: amap_free_slots_def Let_def checked_sub_w_def ue_def [symmetric] slots_def [symmetric])
qed

definition map_page :: "page_type \<Rightarrow> u64 \<Rightarrow> bytes \<Rightarrow> unicode_map_page" where
  "map_page t offset bits = \<lparr>um_map_bits = bits, um_trailer = writer_page_trailer t offset offset\<rparr>"

lemma write_map_page_eq:
  "write_map_page t file offset bits = Inr (write_at file (unat offset) (unicode_map_page_write (map_page t offset bits)))"
  by (simp add: write_map_page_def unicode_map_page_new_def writer_page_trailer_def page_trailer_new_def
      of_ndb_def map_page_def)

lemma length_map_page [simp]: "length bits = 496 \<Longrightarrow> length (unicode_map_page_write (map_page t offset bits)) = 512"
  by (simp add: unicode_map_page_write_def map_page_def unicode_page_trailer_write_def)

text \<open>A file that is kept below a bound, and holds given bytes at an offset.\<close>

definition kept_below :: "nat \<Rightarrow> bytes \<Rightarrow> bytes \<Rightarrow> bool" where
  "kept_below b file file' \<longleftrightarrow> length file \<le> length file' \<and>
    (\<forall>p n. p + n \<le> b \<longrightarrow> p + n \<le> length file \<longrightarrow> take n (drop p file') = take n (drop p file))"

lemma kept_below_write_at: "b \<le> offset \<Longrightarrow> kept_below b file (write_at file offset bs)"
  by (simp add: kept_below_def length_write_at take_drop_write_before)

lemma kept_below_refl [simp]: "kept_below b file file"
  by (simp add: kept_below_def)

lemma kept_below_trans: "kept_below b f g \<Longrightarrow> kept_below b g h \<Longrightarrow> kept_below b f h"
  by (auto simp: kept_below_def)

lemma kept_below_mono: "kept_below b f g \<Longrightarrow> a \<le> b \<Longrightarrow> kept_below a f g"
  by (auto simp: kept_below_def)

lemma kept_below_write: "kept_below b f g \<Longrightarrow> b \<le> offset \<Longrightarrow> kept_below b f (write_at g offset bs)"
  by (blast intro: kept_below_trans kept_below_write_at)

text \<open>
  A later file keeps the extents below \<open>b\<close>: what lies in the data of a region, behind its map pages.
  The map pages of the region and what precedes the first region may change.
\<close>

definition extents_kept :: "nat \<Rightarrow> bytes \<Rightarrow> bytes \<Rightarrow> bool" where
  "extents_kept b file f \<longleftrightarrow> (\<forall>p n. extent_placed p n \<longrightarrow> p + n \<le> b \<longrightarrow> p + n \<le> length file \<longrightarrow>
    p + n \<le> length f \<and> take n (drop p f) = take n (drop p file))"

lemma extents_kept_refl [simp]: "extents_kept b file file"
  by (simp add: extents_kept_def)

lemma extents_kept_trans: "extents_kept b f g \<Longrightarrow> extents_kept b g h \<Longrightarrow> extents_kept b f h"
  by (auto simp: extents_kept_def)

lemma extents_kept_mono: "extents_kept b f g \<Longrightarrow> a \<le> b \<Longrightarrow> extents_kept a f g"
  by (auto simp: extents_kept_def)

lemma kept_below_extents: "kept_below b f g \<Longrightarrow> extents_kept b f g"
  by (auto simp: extents_kept_def kept_below_def)

lemma region_begin_mono: "j \<le> k \<Longrightarrow> region_begin j \<le> region_begin k"
  by (simp add: region_begin_def)

text \<open>Map pages and what lies in front of the first region are no extents.\<close>

lemma extents_kept_reserved:
  assumes "region_begin k \<le> p" "p + length bs \<le> region_begin k + reserved_bytes k"
  shows "extents_kept b file (write_at file p bs)"
proof (unfold extents_kept_def, intro allI impI)
  fix q n assume q: "extent_placed q n" "q + n \<le> b" "q + n \<le> length file"
  then obtain j where j: "region_begin j + reserved_bytes j \<le> q" "q + n \<le> region_begin (Suc j)"
    by (auto simp: extent_placed_def)
  have "take n (drop q (write_at file p bs)) = take n (drop q file)"
  proof (cases "j < k")
    case True
    then have "q + n \<le> p" using j(2) assms(1) region_begin_mono [of "Suc j" k] by simp
    then show ?thesis using q(3) by (rule take_drop_write_before)
  next
    case False
    have "p + length bs \<le> q"
    proof (cases "j = k")
      case False
      then have "region_begin (Suc k) \<le> region_begin j" using \<open>\<not> j < k\<close> by (intro region_begin_mono) simp
      then show ?thesis using assms(2) reserved_bytes_bounds(2) [of k] j(1) by (simp add: region_begin_def)
    qed (use assms(2) j(1) in simp)
    then show ?thesis by (simp add: drop_write_behind)
  qed
  then show "q + n \<le> length (write_at file p bs) \<and> take n (drop q (write_at file p bs)) = take n (drop q file)"
    using q(3) by (simp add: length_write_at)
qed

lemma extents_kept_front:
  assumes "p + length bs \<le> 17408"
  shows "extents_kept b file (write_at file p bs)"
proof (unfold extents_kept_def, intro allI impI)
  fix q n assume q: "extent_placed q n" "q + n \<le> b" "q + n \<le> length file"
  then have "p + length bs \<le> q" using assms by (auto simp: extent_placed_def region_begin_def)
  then show "q + n \<le> length (write_at file p bs) \<and> take n (drop q (write_at file p bs)) = take n (drop q file)"
    using q(3) by (simp add: length_write_at drop_write_behind)
qed

lemma write_region_maps_eq:
  assumes k: "region_begin (Suc k) < 2 ^ 64" and free: "k < length free_slots"
  shows "\<exists>file'. write_region_maps free_slots file (word_of_nat k) = Inr file' \<and>
    kept_below (region_begin k + 512) (write_at file (region_begin k)
      (unicode_map_page_write (map_page AllocationMap (word_of_nat (region_begin k))
        (amap_bits (3968 - unat (free_slots ! k)))))) file' \<and>
    (\<forall>b. extents_kept b file file') \<and> length file \<le> length file' \<and>
    length file' \<le> max (length file) (region_begin (Suc k))"
proof -
  note r = region_start_word [OF k]
  define st where "st = FIRST_AMAP + word_of_nat k * AMAP_DATA_SIZE"
  define i where "i = (word_of_nat k :: u64)"
  note r = r [folded st_def, folded i_def]
  have st: "st = word_of_nat (region_begin k)" unfolding r(2) [symmetric] by simp
  define file1 where "file1 = write_at file (region_begin k)
      (unicode_map_page_write (map_page AllocationMap st (amap_bits (3968 - unat (free_slots ! k)))))"
  have add: "unat (st + word_of_nat n) = region_begin k + n" if "n \<le> 2048" for n
  proof -
    have n: "unat (word_of_nat n :: u64) = n" using that by (simp add: unsigned_of_nat take_bit_nat_eq_self)
    have "unat st + unat (word_of_nat n :: u64) < 2 ^ LENGTH(64)"
      unfolding n r(2) using that k by (simp add: region_begin_Suc)
    then show ?thesis using n r(2) by (simp add: unat_add_lem [THEN iffD1])
  qed
  have o1: "unat (st + WRITER_PAGE_SIZE) = region_begin k + 512"
    and o2: "unat (2 * WRITER_PAGE_SIZE + st) = region_begin k + 1024"
    and o3: "unat (3 * WRITER_PAGE_SIZE + st) = region_begin k + 1536"
    using add [of 512] add [of 1024] add [of 1536] by (simp_all add: WRITER_PAGE_SIZE_def add.commute)
  have total: "unat SLOTS_PER_AMAP = 3968" by (simp add: SLOTS_PER_AMAP_def)
  define fmap where "fmap \<longleftrightarrow> FMAP_FIRST_AMAP \<le> i \<and> (i - FMAP_FIRST_AMAP) mod FMAP_AMAP_COUNT = 0"
  define fpmap where "fpmap \<longleftrightarrow> FPMAP_FIRST_AMAP \<le> i \<and> (i - FPMAP_FIRST_AMAP) mod FPMAP_AMAP_COUNT = 0"
  have count: "reserved_bytes k = (if i mod 8 = 0 then 1024 + (if fmap then 512 else 0) + (if fpmap then 512 else 0) else 512)"
    by (simp add: reserved_bytes_def reserved_map_page_count_def i_def [symmetric] fmap_def fpmap_def)
  have step: "extents_kept b file (write_at g p bs) \<and> length file \<le> length (write_at g p bs) \<and> length (write_at g p bs) \<le> max (length file) (region_begin (Suc k))"
    if "extents_kept b file g \<and> length file \<le> length g \<and> length g \<le> max (length file) (region_begin (Suc k))"
      "region_begin k \<le> p" "p + 512 \<le> region_begin k + reserved_bytes k" "length bs = 512" for b g p bs
    using that extents_kept_reserved [of k p bs b g] reserved_bytes_bounds(2) [of k]
    by (auto simp: length_write_at region_begin_Suc elim: extents_kept_trans)
  have one: "extents_kept b file file1 \<and> length file \<le> length file1 \<and> length file1 \<le> max (length file) (region_begin (Suc k))" for b
    unfolding file1_def using reserved_bytes_bounds(1) [of k] by (intro step) auto
  have "\<exists>file'. write_region_maps free_slots file i = Inr file' \<and> kept_below (region_begin k + 512) file1 file' \<and>
      (\<forall>b. extents_kept b file file' \<and> length file \<le> length file' \<and> length file' \<le> max (length file) (region_begin (Suc k)))"
    using free one
    by (simp add: write_region_maps_def r total Let_def write_map_page_eq o1 o2 o3 file1_def [symmetric]
        fmap_def [symmetric] fpmap_def [symmetric] kept_below_write step count)
  then show ?thesis by (simp only: i_def file1_def st) blast
qed

text \<open>All regions: the page of each is still in place when the last one is written.\<close>

definition amap_page :: "nat \<Rightarrow> nat \<Rightarrow> unicode_map_page" where
  "amap_page ae k = map_page AllocationMap (word_of_nat (region_begin k)) (amap_bits (used_slots ae k))"

lemma write_all_region_maps_eq:
  assumes "n \<le> N" "region_begin N < 2 ^ 64" "length free_slots = N"
    and free: "\<And>k. k < N \<Longrightarrow> unat (free_slots ! k) = 3968 - used_slots ae k"
  shows "\<exists>file'. write_all_region_maps free_slots file (map word_of_nat [0..<n]) = Inr file' \<and>
    (\<forall>k<n. region_begin k + 512 \<le> length file' \<and>
      take 512 (drop (region_begin k) file') = unicode_map_page_write (amap_page ae k)) \<and>
    (\<forall>b. extents_kept b file file') \<and> length file \<le> length file' \<and> length file' \<le> max (length file) (region_begin n)"
  using assms(1)
proof (induction n)
  case 0
  then show ?case by simp
next
  case (Suc n)
  have app: "write_all_region_maps fs b (xs @ [x]) =
      (case write_all_region_maps fs b xs of Inl e \<Rightarrow> Inl e | Inr b \<Rightarrow> write_region_maps fs b x)" for fs b xs x
    by (induction xs arbitrary: b) (simp_all split: sum.splits)
  obtain file1 where f1: "write_all_region_maps free_slots file (map word_of_nat [0..<n]) = Inr file1"
      "\<forall>k<n. region_begin k + 512 \<le> length file1 \<and>
        take 512 (drop (region_begin k) file1) = unicode_map_page_write (amap_page ae k)"
      "\<forall>b. extents_kept b file file1" "length file1 \<le> max (length file) (region_begin n)" "length file \<le> length file1"
    using Suc by auto
  have n: "region_begin (Suc n) < 2 ^ 64" "n < length free_slots"
    using Suc.prems assms(2,3) by (auto simp: region_begin_def)
  have bits: "3968 - unat (free_slots ! n) = used_slots ae n"
    using free [of n] Suc.prems by (simp add: used_slots_def)
  define file2 where "file2 = write_at file1 (region_begin n) (unicode_map_page_write (amap_page ae n))"
  obtain file3 where f3: "write_region_maps free_slots file1 (word_of_nat n) = Inr file3"
      "kept_below (region_begin n + 512) file2 file3" "\<forall>b. extents_kept b file1 file3"
      "length file3 \<le> max (length file1) (region_begin (Suc n))" "length file1 \<le> length file3"
    using write_region_maps_eq [OF n, of file1] by (auto simp: bits amap_page_def file2_def)
  have len: "length (unicode_map_page_write (amap_page ae n)) = 512" by (simp add: amap_page_def)
  have len2: "region_begin n + 512 \<le> length file2" "length file1 \<le> length file2"
    by (simp_all add: file2_def length_write_at len)
  have k3: "take 512 (drop p file3) = take 512 (drop p file2)" "p + 512 \<le> length file3"
    if "p \<le> region_begin n" for p
    using f3(2) that len2 by (auto simp: kept_below_def)
  have "region_begin k + 512 \<le> length file3 \<and>
      take 512 (drop (region_begin k) file3) = unicode_map_page_write (amap_page ae k)" if k: "k < Suc n" for k
  proof (cases "k = n")
    case True
    then show ?thesis using k3 [of "region_begin n"] len by (simp add: file2_def)
  next
    case False
    then have "k < n" using k by simp
    then have le: "region_begin k + 512 \<le> region_begin n" by (simp add: region_begin_def)
    have "take 512 (drop (region_begin k) file2) = take 512 (drop (region_begin k) file1)"
      unfolding file2_def using f1(2) \<open>k < n\<close> le by (intro take_drop_write_before) auto
    then show ?thesis using k3 [of "region_begin k"] le f1(2) \<open>k < n\<close> by auto
  qed
  moreover have "extents_kept b file file3" for b using f1(3) f3(3) extents_kept_trans by blast
  moreover have "length file3 \<le> max (length file) (region_begin (Suc n))" "length file \<le> length file3"
    using f1(4,5) f3(4,5) region_begin_mono [of n "Suc n"] by simp_all
  ultimately show ?case using f1(1) f3(1) by (auto simp: app)
qed

lemma try_map_Inr: "(\<And>x. x \<in> set xs \<Longrightarrow> f x = Inr (g x)) \<Longrightarrow> try_map f xs = Inr (map g xs)"
  by (induction xs) simp_all

lemma sum_free_bytes_eq:
  "unat acc + 64 * sum_list (map unat fs) < 2 ^ 64 \<Longrightarrow>
    \<exists>r. sum_free_bytes acc fs = Inr r \<and> unat r = unat acc + 64 * sum_list (map unat fs)"
proof (induction fs arbitrary: acc)
  case (Cons f fs)
  define m where "m = saturating_mul_w (ucast f) SLOT_SIZE"
  have "unat f < 2 ^ 64" using unat_word_bound [of f] by simp
  then have uf: "unat (ucast f :: u64) = unat f" by (simp add: unsigned_ucast_eq take_bit_nat_eq_self)
  have um: "unat m = 64 * unat f"
    using Cons.prems by (simp add: m_def saturating_mul_w_def uf writer_consts unat_word_ariths)
  have "unat acc + unat m < 2 ^ LENGTH(64)" using Cons.prems by (simp add: um)
  then have c: "checked_add_w acc m = Some (acc + m)" by (rule checked_add_w_SomeI)
  have ua: "unat (acc + m) = unat acc + 64 * unat f" using checked_add_w_Some [OF c] um by simp
  show ?case using Cons.IH [of "acc + m"] Cons.prems c ua by (simp add: m_def [symmetric] algebra_simps)
qed simp

lemma less_div_ceil: "0 < b \<Longrightarrow> i < div_ceil a b \<longleftrightarrow> i * b < a"
proof -
  assume b: "0 < b"
  have "i < div_ceil a b \<longleftrightarrow> i * b < div_ceil a b * b" using b by simp
  also have "\<dots> \<longleftrightarrow> i * b < a"
  proof
    assume "i * b < div_ceil a b * b"
    then have "Suc i \<le> div_ceil a b" using b by simp
    then have "Suc i * b \<le> div_ceil a b * b" by (rule mult_le_mono1)
    then show "i * b < a" using div_ceil_mult_lt [OF b, of a] by simp
  next
    assume "i * b < a"
    also have "a \<le> div_ceil a b * b" by (rule div_ceil_mult_ge [OF b])
    finally show "i * b < div_ceil a b * b" .
  qed
  finally show ?thesis .
qed

lemma used_slots_iff: "i < 3968 \<Longrightarrow> i < used_slots ae k \<longleftrightarrow> region_begin k + 64 * i < ae"
  by (auto simp: used_slots_def less_div_ceil)

lemma density_list_written:
  assumes "0 < unat n" "unat n \<le> 2 ^ 32" "unat (fs ! 0) \<le> 3968"
  shows "\<exists>bs. write_density_list file n fs pid = Inr (write_at file 16896 bs) \<and> length bs = 512"
proof -
  have "(fs ! 0) AND NOT (mask 12) = 0"
  proof -
    have "unat (fs ! 0) < 2 ^ 12" using assms(3) by simp
    then have "bit (fs ! 0) j \<Longrightarrow> j < 12" for j by (simp only: unat_less_exp_iff_bits)
    then show ?thesis by (intro bit_word_eqI) (auto simp: bit_simps)
  qed
  then have e: "density_list_entry_new 0 (fs ! 0) = Inr (0 OR push_bit 20 (ucast (fs ! 0)))"
    by (simp add: density_list_entry_new_def mask_eq_exp_minus_1)
  have m: "unat (n - 1) < 2 ^ 32" using assms(1,2) by (simp add: unat_minus_one word_gt_0_no unat_gt_0)
  have enc: "length (concat (map (to_le 4) es)) = 4 * length es" for es :: "u32 list" by (induction es) simp_all
  have w: "\<exists>bs. unicode_density_list_write p file = Inr (write_at file 16896 bs) \<and> length bs = 512"
    if p: "length (dl_entries p) = 119" for p
  proof -
    define buf where "buf = [if dl_backfill_complete p then 0x01 else 0, dl_entry_count p] @ write_u16 0 @
      write_u32 (dl_current_page p) @ concat (map (to_le 4) (dl_entries p)) @ replicate 12 0"
    have "length buf = 496" using p enc [of "dl_entries p"] by (simp add: buf_def)
    moreover have "unicode_density_list_write p file =
      (case cursor_array 496 buf of Inl e \<Rightarrow> Inl e | Inr buffer \<Rightarrow> Inr (write_at file DENSITY_LIST_FILE_OFFSET
        (buffer @ unicode_page_trailer_write ((dl_trailer p)\<lparr>pt_crc := compute_crc 0 buffer\<rparr>))))"
      by (simp add: unicode_density_list_write_def density_list_write_def buf_def)
    ultimately show ?thesis
      by (intro exI [of _ "buf @ unicode_page_trailer_write ((dl_trailer p)\<lparr>pt_crc := compute_crc 0 buf\<rparr>)"])
        (simp add: unicode_page_trailer_write_def DENSITY_LIST_FILE_OFFSET_def)
  qed
  show ?thesis
  proof (cases "n = 1")
    case True
    obtain p where "density_list_new (476 div 4) True 1 [0 OR push_bit 20 (ucast (fs ! 0))]
        (writer_page_trailer DensityList (word_of_nat DENSITY_LIST_FILE_OFFSET) pid) = Inr p" "length (dl_entries p) = 119"
      by (simp add: density_list_new_def writer_page_trailer_def page_trailer_new_def)
    then show ?thesis using w [of p] e True by (auto simp: write_density_list_def of_ndb_def of_io_def Let_def)
  next
    case False
    obtain p where "density_list_new (476 div 4) False (ucast (n - 1)) []
        (writer_page_trailer DensityList (word_of_nat DENSITY_LIST_FILE_OFFSET) pid) = Inr p" "length (dl_entries p) = 119"
      by (simp add: density_list_new_def writer_page_trailer_def page_trailer_new_def)
    then show ?thesis using w [of p] m False by (auto simp: write_density_list_def of_ndb_def of_io_def Let_def)
  qed
qed

lemma div_ceil_add_mult: "0 < b \<Longrightarrow> div_ceil (c * b + d) b = c + div_ceil d b"
  by (simp add: div_ceil_def)

lemma sum_free_slots:
  assumes "0 < N" "region_begin (N - 1) < ae \<or> N = 1" "ae \<le> region_begin N"
  shows "64 * sum_list (map (\<lambda>k. 3968 - used_slots ae k) [0..<N]) = region_begin N - div_ceil (max ae 17408) 64 * 64"
proof -
  obtain M where N: "N = Suc M" using assms(1) by (cases N) auto
  have full: "used_slots ae k = 3968" if "k < M" for k
  proof -
    have "M \<noteq> 0" using that by simp
    then have "region_begin k + 253952 \<le> region_begin M" "region_begin M < ae"
      using that assms(2) N by (auto simp: region_begin_def)
    then have "3967 < div_ceil (ae - region_begin k) 64" by (subst less_div_ceil) simp_all
    then show ?thesis by (simp add: used_slots_def)
  qed
  have "sum_list (map (\<lambda>k. 3968 - used_slots ae k) [0..<N]) = 3968 - used_slots ae M"
    using full by (simp add: N sum_list_0 cong: map_cong)
  moreover have "64 * (3968 - used_slots ae M) = region_begin N - div_ceil (max ae 17408) 64 * 64"
  proof -
    define d where "d = ae - region_begin M"
    have rb: "region_begin M = (272 + M * 3968) * 64" by (simp add: region_begin_def)
    have "max ae 17408 = region_begin M + d"
      using assms(2) N by (auto simp: d_def region_begin_def)
    then have "div_ceil (max ae 17408) 64 * 64 = region_begin M + div_ceil d 64 * 64"
      unfolding rb using div_ceil_add_mult [of 64 "272 + M * 3968" d]
      by (simp only: add_mult_distrib)
    moreover have "div_ceil d 64 \<le> 3968"
    proof -
      have "\<not> 3968 < div_ceil d 64" using assms(3) by (subst less_div_ceil) (simp_all add: d_def N region_begin_Suc)
      then show ?thesis by simp
    qed
    ultimately show ?thesis by (simp add: used_slots_def d_def [symmetric] N region_begin_Suc)
  qed
  ultimately show ?thesis by simp
qed

lemma amap_count_eq:
  fixes ae :: u64
  assumes "17408 \<le> unat ae" "unat ae \<le> 2 ^ 48"
  defines "used \<equiv> ae - FIRST_AMAP"
  defines "N \<equiv> unat (max (div_ceil_w (max used 1) AMAP_DATA_SIZE) 1)"
  shows "0 < N" "N \<le> 2 ^ 31" "region_begin (N - 1) < unat ae \<or> N = 1" "unat ae \<le> region_begin N"
    "unat (max (div_ceil_w used AMAP_DATA_SIZE) 1) = N"
proof -
  have first: "FIRST_AMAP \<le> ae" using assms(1) by (simp add: word_le_nat_alt writer_consts)
  have uu: "unat used = unat ae - 17408" using first by (simp add: used_def unat_sub writer_consts)
  have umax: "unat (max a b) = max (unat a) (unat b)" for a b :: u64
    by (auto simp: max_def word_le_nat_alt)
  have dc: "unat (div_ceil_w a AMAP_DATA_SIZE) = div_ceil (unat a) 253952" for a
    using unat_word_bound [of a] by (subst unat_div_ceil_w) (simp_all add: writer_consts)
  have N: "N = max (div_ceil (max (unat ae - 17408) 1) 253952) 1" by (simp add: N_def umax dc uu)
  define d where "d = unat ae - 17408"
  have 0: "div_ceil 1 253952 = 1" by (simp add: div_ceil_def)
  have N': "N = max (div_ceil d 253952) 1" unfolding N d_def [symmetric] using 0 by (cases "d \<le> 1") (auto simp: max_def le_Suc_eq)
  show "0 < N" by (simp add: N')
  show "unat (max (div_ceil_w used AMAP_DATA_SIZE) 1) = N"
    using N' by (simp add: umax dc uu d_def)
  have lt: "i < N \<longleftrightarrow> i * 253952 < d \<or> i = 0" for i
    using less_div_ceil [of 253952 i d] by (auto simp: N' max_def)
  show "region_begin (N - 1) < unat ae \<or> N = 1"
    using lt [of "N - 1"] assms(1) \<open>0 < N\<close> by (auto simp: region_begin_def d_def)
  have "\<not> N < N" by simp
  then have "d \<le> N * 253952" using lt [of N] \<open>0 < N\<close> by simp
  then show "unat ae \<le> region_begin N" using assms(1) by (simp add: region_begin_def d_def)
  have "\<not> 2 ^ 31 < N" using lt [of "2 ^ 31"] assms(2) by (simp add: d_def)
  then show "N \<le> 2 ^ 31" by simp
qed

section \<open>Correctness of the leaf plan\<close>

lemma length_plan_ranges [simp]: "length (plan_ranges m l s ps) = length ps"
  by (induction m l s ps rule: plan_ranges.induct) (simp_all add: Let_def)

lemma plan_ranges_sizes:
  "(a, b) \<in> set (plan_ranges m l s ps) \<Longrightarrow> b = a + m \<or> b = a + m + 1 \<and> (\<exists>p\<in>set ps. p < l)"
  by (induction m l s ps rule: plan_ranges.induct) (auto simp: Let_def split: if_splits)

lemma plan_ranges_concat:
  "concat (map (\<lambda>(a, b). [a..<b]) (plan_ranges m l s [i..<j])) = [s..<s + (j - i) * m + (min j l - i)]"
proof (induction "j - i" arbitrary: i s)
  case 0
  then show ?case by simp
next
  case (Suc n)
  then have ij: "i < j" "n = j - Suc i" by simp_all
  define sz where "sz = m + (if i < l then 1 else 0)"
  have "plan_ranges m l s [i..<j] = (s, s + sz) # plan_ranges m l (s + sz) [Suc i..<j]"
    using ij(1) by (simp add: upt_conv_Cons sz_def Let_def)
  moreover have e: "s + sz + (j - Suc i) * m + (min j l - Suc i) = s + (j - i) * m + (min j l - i)"
  proof -
    have "(j - i) * m = (j - Suc i) * m + m" using ij(1) by (metis Suc_diff_Suc mult_Suc add.commute)
    then show ?thesis using ij(1) by (auto simp: sz_def min_def)
  qed
  moreover have "[s..<s + sz] @ [s + sz..<e] = [s..<e]" if "s + sz \<le> e" for e
    using that upt_add_eq_append [of s "s + sz" "e - (s + sz)"] by simp
  ultimately show ?case using Suc.hyps(1) [OF ij(2), of "s + sz", unfolded e] by (simp add: e [symmetric])
qed

lemma plan_leaf_pages_Inr:
  assumes "0 < n" "0 < c"
  shows "\<exists>rs. plan_leaf_pages n c = Inr rs \<and> length rs = div_ceil n c \<and>
    concat (map (\<lambda>(a, b). [a..<b]) rs) = [0..<n] \<and>
    (\<forall>(a, b)\<in>set rs. a < b \<and> b - a \<le> c \<and> b - a \<in> {n div length rs, n div length rs + 1})"
proof -
  define p where "p = div_ceil n c"
  have p: "0 < p" using assms by (simp add: p_def div_ceil_pos_iff)
  have cover: "n \<le> p * c" using div_ceil_mult_ge [of c n] assms by (simp add: p_def)
  define rs where "rs = plan_ranges (n div p) (n mod p) 0 [0..<p]"
  have "plan_leaf_pages n c = Inr rs" using assms by (simp add: plan_leaf_pages_def p_def rs_def Let_def)
  moreover have "length rs = p" by (simp add: rs_def)
  moreover have "concat (map (\<lambda>(a, b). [a..<b]) rs) = [0..<n]"
  proof -
    have "min p (n mod p) = n mod p" using mod_less_divisor [OF p, of n] by (simp add: min_def)
    moreover have "p * (n div p) + n mod p = n" by simp
    ultimately show ?thesis using plan_ranges_concat [of "n div p" "n mod p" 0 0 p] by (simp add: rs_def)
  qed
  moreover have "a < b \<and> b - a \<le> c \<and> b - a \<in> {n div p, n div p + 1}" if "(a, b) \<in> set rs" for a b
  proof -
    have sz: "b = a + n div p \<or> b = a + n div p + 1 \<and> (\<exists>q\<in>set [0..<p]. q < n mod p)"
      using plan_ranges_sizes that unfolding rs_def by blast
    have "p \<le> n"
    proof (rule ccontr)
      assume "\<not> p \<le> n"
      then have "n < div_ceil n c" by (simp add: p_def)
      then have "n * c < n" using less_div_ceil [of c n n] assms by simp
      then show False using assms(2) by (cases c) auto
    qed
    then have pos: "0 < n div p" using p by (simp add: div_greater_zero_iff)
    have "n div p \<le> c" using cover p by (metis div_le_mono nonzero_mult_div_cancel_left less_numeral_extra(3))
    moreover have "n div p + 1 \<le> c" if "0 < n mod p"
    proof (rule ccontr)
      assume "\<not> n div p + 1 \<le> c"
      then have "c \<le> n div p" by simp
      then have "p * c + n mod p \<le> p * (n div p) + n mod p" by (intro add_right_mono mult_le_mono2)
      then have "p * c + n mod p \<le> n" by (simp add: mult.commute)
      then show False using cover that by simp
    qed
    ultimately show ?thesis using sz pos by auto
  qed
  ultimately show ?thesis unfolding p_def [symmetric] by blast
qed

text \<open>The list of the free slots of the regions.\<close>

definition region_frees :: "nat \<Rightarrow> nat \<Rightarrow> u16 list" where
  "region_frees ae N = map (\<lambda>k. word_of_nat (3968 - used_slots ae k)) [0..<N]"

lemma unat_free_slots: "unat (word_of_nat (3968 - used_slots ae k) :: u16) = 3968 - used_slots ae k"
  by (simp add: unsigned_of_nat take_bit_nat_eq_self)

lemma unat_region_frees: "map unat (region_frees ae N) = map (\<lambda>k. 3968 - used_slots ae k) [0..<N]"
  by (simp add: region_frees_def unat_free_slots)

lemma try_amap_free_slots:
  assumes "N \<le> 2 ^ 31"
  shows "try_map (amap_free_slots ae) (map word_of_nat [0..<N]) = Inr (region_frees (unat ae) N)"
proof -
  have "try_map (amap_free_slots ae) (map word_of_nat [0..<N]) =
      Inr (map (\<lambda>w :: u64. word_of_nat (3968 - used_slots (unat ae) (unat w))) (map word_of_nat [0..<N]))"
  proof (rule try_map_Inr)
    fix x :: u64 assume "x \<in> set (map word_of_nat [0..<N])"
    then obtain k where k: "x = word_of_nat k" "k < N" by auto
    then have b: "region_begin (Suc k) < 2 ^ 64" using assms by (auto simp: region_begin_def)
    show "amap_free_slots ae x = Inr (word_of_nat (3968 - used_slots (unat ae) (unat x)))"
      using amap_free_slots_eq [OF b, of ae] region_start_word(3) [OF b] by (simp add: k)
  qed
  moreover have "unat (word_of_nat k :: u64) = k" if "k < N" for k
    using that assms by (simp add: unsigned_of_nat take_bit_nat_eq_self)
  ultimately show ?thesis by (simp add: region_frees_def cong: map_cong)
qed

lemma allocation_file_eof_eq:
  assumes "17408 \<le> unat ae" "unat ae \<le> 2 ^ 48"
  defines "N \<equiv> unat (max (div_ceil_w (max (ae - FIRST_AMAP) 1) AMAP_DATA_SIZE) 1)"
  shows "allocation_file_eof ae = Inr (word_of_nat (region_begin N))"
proof -
  note n = amap_count_eq [OF assms(1,2), folded N_def]
  have first: "FIRST_AMAP \<le> ae" using assms(1) by (simp add: word_le_nat_alt writer_consts)
  define m where "m = max (div_ceil_w (ae - FIRST_AMAP) AMAP_DATA_SIZE) 1"
  have um: "unat m = N" using n(5) by (simp only: m_def)
  have m: "m = word_of_nat N" unfolding um [symmetric] by simp
  have b: "region_begin (Suc N) < 2 ^ 64" using n(2) by (simp add: region_begin_def)
  define e where "e = FIRST_AMAP + word_of_nat N * AMAP_DATA_SIZE"
  have ue: "unat e = region_begin N" using region_start_word(2) [OF b] by (simp only: e_def)
  have "e = word_of_nat (region_begin N)" unfolding ue [symmetric] by simp
  moreover have "checked_add_w FIRST_AMAP (saturating_mul_w m AMAP_DATA_SIZE) = Some e"
    using region_start_word(1) [OF b] by (simp only: e_def m)
  ultimately show ?thesis
    using first by (simp add: allocation_file_eof_def checked_sub_w_def m_def [symmetric])
qed

text \<open>The allocation maps are in place.\<close>

definition amaps_held :: "nat \<Rightarrow> nat \<Rightarrow> bytes \<Rightarrow> bool" where
  "amaps_held ae N f \<longleftrightarrow> (\<forall>k<N. region_begin k + 512 \<le> length f \<and>
    take 512 (drop (region_begin k) f) = unicode_map_page_write (amap_page ae k))"

lemma amaps_held_front:
  assumes "amaps_held ae N f" "p + length bs \<le> 17408"
  shows "amaps_held ae N (write_at f p bs)"
  using assms by (simp add: amaps_held_def drop_write_behind length_write_at region_begin_def le_max_iff_disj)

lemma amap_reads:
  assumes "amaps_held ae N f" "k < N"
  shows "\<exists>page rest. unicode_map_page_read (page_type_code AllocationMap) (drop (region_begin k) f) = Inr (page, rest) \<and>
      (\<forall>i<3968. slot_used (um_map_bits page) i \<longleftrightarrow> region_begin k + 64 * i < ae)"
proof -
  obtain r where r: "drop (region_begin k) f = unicode_map_page_write (amap_page ae k) @ r"
    using assms by (metis append_take_drop_id amaps_held_def)
  have "unicode_map_page_read (page_type_code AllocationMap) (drop (region_begin k) f) =
      Inr ((amap_page ae k)\<lparr>um_trailer := (um_trailer (amap_page ae k))\<lparr>pt_crc :=
        compute_crc 0 (um_map_bits (amap_page ae k))\<rparr>\<rparr>, r)"
    using unicode_map_page_read_write [of "amap_page ae k"]
    by (simp add: r amap_page_def map_page_def writer_page_trailer_def page_trailer_new_def)
  moreover have "used_slots ae k \<le> 3968" by (simp add: used_slots_def)
  ultimately show ?thesis
    by (simp add: amap_page_def map_page_def slot_used_amap_bits used_slots_iff)
qed

lemma write_allocation_pages_written:
  assumes "17408 \<le> unat ae" "unat ae \<le> 2 ^ 48"
  shows "\<exists>file' c N. write_allocation_pages file ae next_page_id = Inr (file', c) \<and>
    allocation_file_eof ae = Inr (word_of_nat (region_begin N)) \<and> unat ae \<le> region_begin N \<and> 0 < N \<and> N \<le> 2 ^ 31 \<and>
    amaps_held (unat ae) N file' \<and> (\<forall>b. extents_kept b file file') \<and> length file \<le> length file' \<and>
    length file' \<le> max (length file) (region_begin N) \<and> length (ca_first_free_map c) = 128 \<and>
    unat (ca_free_bytes c) = region_begin N - div_ceil (unat ae) 64 * 64"
proof -
  have first: "FIRST_AMAP \<le> ae" using assms(1) by (simp add: word_le_nat_alt writer_consts)
  define w where "w = max (div_ceil_w (max (ae - FIRST_AMAP) 1) AMAP_DATA_SIZE) 1"
  define N where "N = unat w"
  note n = amap_count_eq [OF assms, folded w_def, folded N_def]
  have small: "region_begin N < 2 ^ 64" using n(2) by (simp add: region_begin_def)
  define frees where "frees = region_frees (unat ae) N"
  obtain file1 where f1: "write_all_region_maps frees file (map word_of_nat [0..<N]) = Inr file1"
      "amaps_held (unat ae) N file1" "\<forall>b. extents_kept b file file1" "length file1 \<le> max (length file) (region_begin N)"
      "length file \<le> length file1"
    using write_all_region_maps_eq [of N N frees "unat ae" "file"] small
    by (auto simp: frees_def region_frees_def unat_free_slots amaps_held_def)
  obtain bs where bs: "write_density_list file1 w frees next_page_id = Inr (write_at file1 16896 bs)" "length bs = 512"
    using density_list_written [of w frees file1 next_page_id] n(1,2)
    by (auto simp: N_def [symmetric] frees_def region_frees_def unat_free_slots)
  have sum: "64 * sum_list (map unat frees) = region_begin N - div_ceil (unat ae) 64 * 64"
    using sum_free_slots [OF n(1,3,4)] assms(1) by (simp add: frees_def unat_region_frees max_def)
  then have "64 * sum_list (map unat frees) < 2 ^ 64" using small by simp
  then obtain r where r: "sum_free_bytes 0 frees = Inr r" "unat r = region_begin N - div_ceil (unat ae) 64 * 64"
    using sum_free_bytes_eq [of 0 frees] sum by auto
  define file2 where "file2 = write_at file1 16896 bs"
  have "amaps_held (unat ae) N file2" unfolding file2_def by (rule amaps_held_front) (simp_all add: f1(2) bs(2))
  moreover have "\<forall>b. extents_kept b file file2"
    unfolding file2_def using f1(3) extents_kept_front [of 16896 bs] bs(2) by (auto intro: extents_kept_trans)
  moreover have "length file2 \<le> max (length file) (region_begin N)" "length file \<le> length file2"
    unfolding file2_def using f1(4,5) bs(2) n(1) by (auto simp: length_write_at region_begin_def)
  moreover have "write_allocation_pages file ae next_page_id = Inr (file2, \<lparr>ca_free_bytes = r, ca_first_free_map =
      map free_slot_class (take 128 frees) @ replicate (128 - length (take 128 frees)) 0\<rparr>)"
    using first try_amap_free_slots [OF n(2), of ae] f1(1) bs(1) r(1)
    by (simp add: write_allocation_pages_def checked_sub_w_def w_def [symmetric]
        N_def [symmetric] frees_def [symmetric] Let_def file2_def)
  moreover have "length (map free_slot_class (take 128 frees) @ replicate (128 - length (take 128 frees)) 0) = 128" by simp
  moreover have "allocation_file_eof ae = Inr (word_of_nat (region_begin N))"
    using allocation_file_eof_eq [OF assms, folded w_def, folded N_def] .
  ultimately show ?thesis using n(1,2,4) r(2) by fastforce
qed

section \<open>Properties\<close>

text \<open>
  C35. An extent: for every cursor in the file and every size that fits behind the map pages of a
  region, \<open>allocate_extent\<close> returns an aligned extent at or behind the cursor that lies within one
  region and behind its map pages, so it overlaps neither a map page nor an earlier extent; the
  new cursor is its end.
\<close>

theorem allocate_extent_spec:
  assumes "alignment \<in> {SLOT_SIZE, WRITER_PAGE_SIZE}" "17408 \<le> unat cursor" "unat cursor \<le> 2 ^ 63"
    and "unat sz \<le> 253952 - 2048"
  shows "\<exists>start cursor'. allocate_extent cursor sz alignment = Inr (cursor', start) \<and>
    unat cursor \<le> unat start \<and> unat alignment dvd unat start \<and> unat cursor' = unat start + unat sz \<and>
    extent_placed (unat start) (unat sz)"
proof -
  have a: "1 < unat alignment" "unat alignment dvd 512" using assms(1) by (auto simp: writer_consts)
  have max: "unat cursor + 1000000 \<le> 2 ^ 64" using assms(3) by simp
  from allocate_extent_placed [OF a assms(2) max assms(4)] show ?thesis by blast
qed

theorem allocate_extent_spec_witness:
  "\<exists>start cursor'. allocate_extent FIRST_DATA 8192 SLOT_SIZE = Inr (cursor', start) \<and>
    unat FIRST_DATA \<le> unat start \<and> unat cursor' = unat start + 8192 \<and> extent_placed (unat start) 8192"
  using allocate_extent_spec [of SLOT_SIZE FIRST_DATA 8192] by (auto simp: FIRST_DATA_def)

text \<open>
  C36. The map pages: with the final cursor of the allocation, every region up to the end of the
  file gets an allocation map that reads back, and in it exactly the slots below the cursor are
  in use. The free bytes of the result are what remains up to the end of the file.
\<close>

theorem write_allocation_pages_spec:
  assumes "17408 \<le> unat ae" "unat ae \<le> 2 ^ 48"
  shows "\<exists>file' c N. write_allocation_pages file ae next_page_id = Inr (file', c) \<and>
    allocation_file_eof ae = Inr (word_of_nat (region_begin N)) \<and> unat ae \<le> region_begin N \<and>
    (\<forall>k<N. \<exists>page rest. unicode_map_page_read (page_type_code AllocationMap) (drop (region_begin k) file') = Inr (page, rest) \<and>
      (\<forall>i<3968. slot_used (um_map_bits page) i \<longleftrightarrow> region_begin k + 64 * i < unat ae)) \<and>
    unat (ca_free_bytes c) = region_begin N - div_ceil (unat ae) 64 * 64"
  using write_allocation_pages_written [OF assms, of "file" next_page_id] amap_reads by blast

theorem write_allocation_pages_spec_witness:
  "\<exists>file' c N. write_allocation_pages [] FIRST_DATA 1 = Inr (file', c) \<and>
    allocation_file_eof FIRST_DATA = Inr (word_of_nat (region_begin N)) \<and>
    (\<forall>k<N. \<exists>page rest. unicode_map_page_read (page_type_code AllocationMap) (drop (region_begin k) file') = Inr (page, rest) \<and>
      (\<forall>i<3968. slot_used (um_map_bits page) i \<longleftrightarrow> region_begin k + 64 * i < unat FIRST_DATA))"
  using write_allocation_pages_spec [of FIRST_DATA "[]" 1] by (auto simp: FIRST_DATA_def)

text \<open>
  The plan of the leaf pages of a B-tree partitions the entries in order into the least number
  of non-empty ranges that fit into a page, and their sizes differ by at most one.
\<close>

theorem plan_leaf_pages_spec:
  "case plan_leaf_pages n c of
     Inl e \<Rightarrow> c = 0
   | Inr rs \<Rightarrow> 0 < c \<and> length rs = div_ceil n c \<and> concat (map (\<lambda>(a, b). [a..<b]) rs) = [0..<n] \<and>
       list_all (\<lambda>(a, b). a < b \<and> b - a \<le> c \<and> (b - a = n div length rs \<or> b - a = n div length rs + 1)) rs"
proof (cases "n = 0 \<or> c = 0")
  case True
  then show ?thesis by (auto simp: plan_leaf_pages_def)
next
  case False
  then show ?thesis using plan_leaf_pages_Inr [of n c] by (auto simp: list_all_iff)
qed

end
