(* ===== verification/Writer_BTree.thy ===== *)
theory Writer_BTree
  imports Writer_Alloc Ndb_Search
begin

text \<open>
  The writer of the node and block B-trees (\<open>write_bbt\<close>, \<open>write_nbt\<close> in \<open>writer.rs\<close>): leaf pages from a
  plan of even ranges, then levels of intermediate pages until one page is left. The two
  functions repeat one text with the kind of the entries filled in; their common part has the
  entry type, the page constructor and the name in the error messages as parameters. The file
  is passed explicitly.
\<close>

section \<open>Definitions from the source\<close>

record written_block =
  wb_id :: unicode_block_id
  wb_offset :: u64
  wb_size :: u16
  wb_ref_count :: u16

type_synonym ('e) page_maker = "'e list \<Rightarrow> unicode_page_trailer \<Rightarrow> ndb_error + ('e, u64) btree_page"

definition subrange :: "'a list \<Rightarrow> nat \<times> nat \<Rightarrow> 'a list" where
  "subrange xs r = take (snd r - fst r) (drop (fst r) xs)"

text \<open>
  One level: every range of entries becomes a page. The result is the list of the references to
  the pages, the file, the allocation cursor and the next page identifier.
\<close>

fun write_level ::
  "'e page_maker \<Rightarrow> (('e, u64) btree_page \<Rightarrow> io_error + bytes) \<Rightarrow> ('e \<Rightarrow> u64) \<Rightarrow> page_type \<Rightarrow> string
    \<Rightarrow> 'e list \<Rightarrow> (nat \<times> nat) list \<Rightarrow> bytes \<Rightarrow> u64 \<Rightarrow> u64
    \<Rightarrow> writer_error + u64 btree_page_entry list \<times> bytes \<times> u64 \<times> u64" where
  "write_level new write key page_type name entries [] file next_offset next_page =
    Inr ([], file, next_offset, next_page)"
| "write_level new write key page_type name entries (rg # ranges) file next_offset next_page =
    (case allocate_extent next_offset WRITER_PAGE_SIZE WRITER_PAGE_SIZE of Inl e \<Rightarrow> Inl e
     | Inr (next_offset, offset) \<Rightarrow>
     (case of_ndb (new (subrange entries rg) (writer_page_trailer page_type offset next_page)) of
        Inl e \<Rightarrow> Inl e
      | Inr page \<Rightarrow>
      (case of_io (write page) of Inl e \<Rightarrow> Inl e
       | Inr bs \<Rightarrow>
         (let file = write_at file (unat offset) bs;
              root = \<lparr>pe_key = key (entries ! fst rg),
                      pe_block = \<lparr>ref_block = next_page, ref_index = offset\<rparr>\<rparr> in
          case checked_add_w next_page 1 of None \<Rightarrow> Inl (ValueTooLarge (name @ '' page id''))
          | Some next_page \<Rightarrow>
            (case write_level new write key page_type name entries ranges file next_offset next_page of
               Inl e \<Rightarrow> Inl e
             | Inr (roots, r) \<Rightarrow> Inr (root # roots, r))))))"

text \<open>The loop over the intermediate levels ends because the level is a byte.\<close>

function write_upper_levels ::
  "page_type \<Rightarrow> string \<Rightarrow> u8 \<Rightarrow> u64 btree_page_entry list \<Rightarrow> bytes \<Rightarrow> u64 \<Rightarrow> u64
    \<Rightarrow> writer_error + unicode_page_ref \<times> bytes \<times> u64 \<times> u64" where
  "write_upper_levels page_type name level roots file next_offset next_page =
    (if \<not> 1 < length roots then Inr (pe_block (roots ! 0), file, next_offset, next_page)
     else case plan_leaf_pages (length roots) 20 of Inl e \<Rightarrow> Inl e
     | Inr ranges \<Rightarrow>
     (case write_level (intermediate_page_new level 20 24) (unicode_btree_page_write unicode_page_entry_write)
         pe_key page_type name roots ranges file next_offset next_page of
        Inl e \<Rightarrow> Inl e
      | Inr (parents, file, next_offset, next_page) \<Rightarrow>
        (case checked_add_w level 1 of None \<Rightarrow> Inl (ValueTooLarge (name @ '' depth''))
         | Some level \<Rightarrow> write_upper_levels page_type name level parents file next_offset next_page)))"
  by pat_completeness auto
termination
proof (relation "measure (\<lambda>(_, _, level, _). 256 - unat level)")
  fix level level' :: u8 assume "checked_add_w level 1 = Some level'"
  then have "unat level' = unat level + 1" by (auto dest: checked_add_w_Some)
  then show "((t, n, level', a), (t, n, level, b)) \<in> measure (\<lambda>(_, _, level, _). 256 - unat level)"
    for t :: page_type and n :: string and a b :: "u64 btree_page_entry list \<times> bytes \<times> u64 \<times> u64"
    using unat_word_bound [of level'] by simp
qed simp

declare write_upper_levels.simps [simp del]

definition write_btree ::
  "'e page_maker \<Rightarrow> (('e, u64) btree_page \<Rightarrow> io_error + bytes) \<Rightarrow> ('e \<Rightarrow> u64) \<Rightarrow> nat \<Rightarrow> page_type \<Rightarrow> string
    \<Rightarrow> bytes \<Rightarrow> u64 \<Rightarrow> u64 \<Rightarrow> 'e list \<Rightarrow> writer_error + unicode_page_ref \<times> bytes \<times> u64 \<times> u64" where
  "write_btree new write key capacity page_type name file first_offset first_page_id entries =
    (case plan_leaf_pages (length entries) capacity of Inl e \<Rightarrow> Inl e
     | Inr pages \<Rightarrow>
       if pages = [] then Inl (InvalidStructure (Literal (name @ '' is empty'')))
       else (case write_level new write key page_type name entries pages file first_offset first_page_id of
         Inl e \<Rightarrow> Inl e
       | Inr (roots, file, next_offset, next_page) \<Rightarrow>
         write_upper_levels page_type name 1 roots file next_offset next_page))"

definition bbt_entry :: "written_block \<Rightarrow> unicode_block_entry" where
  "bbt_entry block = unicode_block_entry_new_with_ref_count
     \<lparr>ref_block = wb_id block, ref_index = wb_offset block\<rparr> (wb_size block) (wb_ref_count block)"

definition write_bbt ::
  "bytes \<Rightarrow> u64 \<Rightarrow> u64 \<Rightarrow> written_block list \<Rightarrow> writer_error + unicode_page_ref \<times> bytes \<times> u64 \<times> u64" where
  "write_bbt file first_offset first_page_id blocks =
    write_btree (block_page_new 0 20 24) (unicode_btree_page_write unicode_block_entry_write)
      unicode_block_entry_key 20 BlockBTree ''BBT'' file first_offset first_page_id (map bbt_entry blocks)"

definition write_nbt ::
  "bytes \<Rightarrow> u64 \<Rightarrow> u64 \<Rightarrow> unicode_node_entry list \<Rightarrow> writer_error + unicode_page_ref \<times> bytes \<times> u64 \<times> u64" where
  "write_nbt file first_offset first_page_id entries =
    write_btree (node_page_new 0 15 32) (unicode_btree_page_write unicode_node_entry_write)
      unicode_node_entry_key 15 NodeBTree ''NBT'' file first_offset first_page_id entries"

section \<open>One level\<close>

text \<open>The bytes of an extent that every such file keeps.\<close>

definition page_held :: "nat \<Rightarrow> bytes \<Rightarrow> nat \<Rightarrow> bytes \<Rightarrow> bool" where
  "page_held b file off bs \<longleftrightarrow> extent_placed off (length bs) \<and>
    off + length bs \<le> b \<and> off + length bs \<le> length file \<and> take (length bs) (drop off file) = bs"

lemma page_held_mono: "page_held b file off bs \<Longrightarrow> extents_kept b file file' \<Longrightarrow> b \<le> b' \<Longrightarrow> page_held b' file' off bs"
  by (auto simp: page_held_def extents_kept_def)

lemma page_held_write:
  "extent_placed off (length bs) \<Longrightarrow> page_held (off + length bs) (write_at file off bs) off bs"
  by (simp add: page_held_def length_write_at)

lemma page_held_read:
  assumes "page_held b file off bs" "length bs = PAGE_SIZE"
  shows "read_at file off PAGE_SIZE = Inr bs"
proof -
  have "drop off file = bs @ drop (length bs) (drop off file)"
    using assms(1) by (metis append_take_drop_id page_held_def)
  then have "read_exact PAGE_SIZE (drop off file) = Inr (bs, drop (length bs) (drop off file))"
    using assms(2) by (metis read_exact_append)
  then show ?thesis by (simp add: read_at_def)
qed

lemma write_level_spec:
  assumes new: "\<And>rg t. rg \<in> set ranges \<Longrightarrow> pt_page_type t = page_type \<Longrightarrow>
      \<exists>p bs. new (subrange entries rg) t = Inr p \<and> write p = Inr bs \<and> length bs = PAGE_SIZE \<and> P rg t bs"
    and off: "17408 \<le> unat off" "unat off + 600000 * length ranges \<le> 2 ^ 63"
    and pg: "unat pg + length ranges < 2 ^ 64"
  shows "\<exists>roots file' off' pg'. write_level new write key page_type name entries ranges file off pg =
      Inr (roots, file', off', pg') \<and> length roots = length ranges \<and> unat pg' = unat pg + length ranges \<and>
    unat off \<le> unat off' \<and> unat off' \<le> unat off + 600000 * length ranges \<and>
    kept_below (unat off) file file' \<and>
    map (\<lambda>r. unat (ref_block (pe_block r))) roots = [unat pg..<unat pg + length ranges] \<and>
    (\<forall>i<length ranges. pe_key (roots ! i) = key (entries ! fst (ranges ! i)) \<and>
      (\<exists>t bs. pt_page_type t = page_type \<and> P (ranges ! i) t bs \<and> length bs = PAGE_SIZE \<and>
        page_held (unat off') file' (unat (ref_index (pe_block (roots ! i)))) bs))"
  using assms
proof (induction ranges arbitrary: "file" off pg)
  case Nil
  then show ?case by simp
next
  case (Cons rg ranges)
  have a: "1 < unat WRITER_PAGE_SIZE" "unat WRITER_PAGE_SIZE dvd 512" by (simp_all add: writer_consts)
  have lim: "unat off + 1000000 \<le> 2 ^ 64" using Cons.prems(3) by simp
  have fits: "unat WRITER_PAGE_SIZE \<le> 253952 - 2048" by (simp add: writer_consts)
  obtain o1 off1 where al: "allocate_extent off WRITER_PAGE_SIZE WRITER_PAGE_SIZE = Inr (off1, o1)"
      "unat off \<le> unat o1" "unat off1 = unat o1 + 512" "unat off1 \<le> unat off + 600000"
      "extent_placed (unat o1) 512"
    using allocate_extent_placed [OF a Cons.prems(2) lim fits] by (auto simp: writer_consts)
  define t where "t = writer_page_trailer page_type o1 pg"
  have t: "pt_page_type t = page_type" by (simp add: t_def writer_page_trailer_def page_trailer_new_def)
  obtain p bs where p: "new (subrange entries rg) t = Inr p" "write p = Inr bs" "length bs = PAGE_SIZE" "P rg t bs"
    using Cons.prems(1) [OF _ t, of rg] by auto
  define file1 where "file1 = write_at file (unat o1) bs"
  have sum: "unat pg + unat (1 :: u64) < 2 ^ LENGTH(64)" using Cons.prems(4) by simp
  have pg1: "checked_add_w pg 1 = Some (pg + 1)" by (rule checked_add_w_SomeI [OF sum])
  have upg: "unat (pg + 1) = unat pg + 1" using checked_add_w_Some [OF pg1] by simp
  have new': "\<And>rg t. rg \<in> set ranges \<Longrightarrow> pt_page_type t = page_type \<Longrightarrow>
      \<exists>p bs. new (subrange entries rg) t = Inr p \<and> write p = Inr bs \<and> length bs = PAGE_SIZE \<and> P rg t bs"
    using Cons.prems(1) by simp
  have off1: "17408 \<le> unat off1" "unat off1 + 600000 * length ranges \<le> 2 ^ 63" "unat (pg + 1) + length ranges < 2 ^ 64"
    using al Cons.prems upg by simp_all
  obtain roots file' off' pg' where IH: "write_level new write key page_type name entries ranges file1 off1 (pg + 1) =
      Inr (roots, file', off', pg')" "length roots = length ranges" "unat pg' = unat (pg + 1) + length ranges"
      "unat off1 \<le> unat off'" "unat off' \<le> unat off1 + 600000 * length ranges"
      "kept_below (unat off1) file1 file'"
      "map (\<lambda>r. unat (ref_block (pe_block r))) roots = [unat (pg + 1)..<unat (pg + 1) + length ranges]"
      "\<forall>i<length ranges. pe_key (roots ! i) = key (entries ! fst (ranges ! i)) \<and>
        (\<exists>t bs. pt_page_type t = page_type \<and> P (ranges ! i) t bs \<and> length bs = PAGE_SIZE \<and>
          page_held (unat off') file' (unat (ref_index (pe_block (roots ! i)))) bs)"
    using Cons.IH [OF new' off1, of file1] by blast
  define root where "root = \<lparr>pe_key = key (entries ! fst rg), pe_block = \<lparr>ref_block = pg, ref_index = o1\<rparr>\<rparr>"
  have eq: "write_level new write key page_type name entries (rg # ranges) file off pg = Inr (root # roots, file', off', pg')"
    by (simp add: al(1) t_def [symmetric] p(1,2) of_ndb_def of_io_def file1_def [symmetric] pg1 IH(1) Let_def root_def)
  have "kept_below (unat off) file file1" unfolding file1_def using al(2) by (rule kept_below_write_at)
  moreover have "kept_below (unat off) file1 file'" using IH(6) by (rule kept_below_mono) (use al in simp)
  ultimately have kept: "kept_below (unat off) file file'" by (rule kept_below_trans)
  have "page_held (unat off1) file1 (unat o1) bs"
    using page_held_write [of "unat o1" bs "file"] p(3) al(3,5) by (simp add: file1_def PAGE_SIZE_def)
  then have held: "page_held (unat off') file' (unat o1) bs"
    using kept_below_extents [OF IH(6)] IH(4) by (rule page_held_mono)
  have all: "\<forall>i<length (rg # ranges). pe_key ((root # roots) ! i) = key (entries ! fst ((rg # ranges) ! i)) \<and>
      (\<exists>t bs. pt_page_type t = page_type \<and> P ((rg # ranges) ! i) t bs \<and> length bs = PAGE_SIZE \<and>
        page_held (unat off') file' (unat (ref_index (pe_block ((root # roots) ! i)))) bs)"
  proof (intro allI impI)
    fix i assume i: "i < length (rg # ranges)"
    show "pe_key ((root # roots) ! i) = key (entries ! fst ((rg # ranges) ! i)) \<and>
      (\<exists>t bs. pt_page_type t = page_type \<and> P ((rg # ranges) ! i) t bs \<and> length bs = PAGE_SIZE \<and>
        page_held (unat off') file' (unat (ref_index (pe_block ((root # roots) ! i)))) bs)"
    proof (cases i)
      case 0
      then show ?thesis using t p(3,4) held by (auto simp: root_def)
    next
      case (Suc j)
      then show ?thesis using IH(8) i by simp
    qed
  qed
  have "map (\<lambda>r. unat (ref_block (pe_block r))) (root # roots) = [unat pg..<unat pg + length (rg # ranges)]"
    using IH(7) by (simp add: root_def upg upt_conv_Cons del: upt_Suc)
  then show ?case
    using eq IH(2-5) al upg kept all by (intro exI conjI) (assumption | simp)+
qed

section \<open>Forests\<close>

text \<open>
  The invariant of the levels: every root refers to a search tree of height \<open>h\<close> with the
  entries of its segment, in every file that keeps the extents below the cursor.
\<close>

definition forest_ok ::
  "(bytes \<Rightarrow> ('l, u64) page_reader) \<Rightarrow> ('l \<Rightarrow> u64) \<Rightarrow> nat \<Rightarrow> bytes \<Rightarrow> nat \<Rightarrow> u64 btree_page_entry list
    \<Rightarrow> 'l list list \<Rightarrow> unicode_page_ref set \<Rightarrow> bool" where
  "forest_ok read key h file b roots segs R \<longleftrightarrow> length segs = length roots \<and>
    (\<forall>i<length roots. segs ! i \<noteq> [] \<and> pe_key (roots ! i) = key (hd (segs ! i)) \<and> pe_block (roots ! i) \<in> R \<and>
      (\<forall>f. extents_kept b file f \<longrightarrow> (\<exists>t. read f (pe_block (roots ! i)) = Inr t \<and> btree_ok (read f) id key h t \<and>
        btree_entries (read f) h t = segs ! i \<and> set (btree_refs (read f) h t) \<subseteq> R)))"

text \<open>A single tree with its root reference.\<close>

definition tree_kept ::
  "(bytes \<Rightarrow> ('l, u64) page_reader) \<Rightarrow> ('l \<Rightarrow> u64) \<Rightarrow> bytes \<Rightarrow> nat \<Rightarrow> unicode_page_ref \<Rightarrow> nat \<Rightarrow> 'l list
    \<Rightarrow> unicode_page_ref set \<Rightarrow> bool" where
  "tree_kept read key file b ref h entries R \<longleftrightarrow> (\<forall>f. extents_kept b file f \<longrightarrow>
    (\<exists>t. read f ref = Inr t \<and> btree_ok (read f) id key h t \<and> btree_entries (read f) h t = entries \<and>
      set (btree_refs (read f) h t) \<subseteq> R))"

lemma tree_kept_extend:
  "tree_kept read key file b ref h entries R \<Longrightarrow> extents_kept b file f \<Longrightarrow> b \<le> b' \<Longrightarrow> tree_kept read key f b' ref h entries R"
  by (auto simp: tree_kept_def dest: extents_kept_mono extents_kept_trans)

lemma length_subrange: "snd r \<le> length xs \<Longrightarrow> length (subrange xs r) = snd r - fst r"
  by (simp add: subrange_def)

lemma nth_subrange: "snd r \<le> length xs \<Longrightarrow> i < snd r - fst r \<Longrightarrow> subrange xs r ! i = xs ! (fst r + i)"
  by (simp add: subrange_def)

lemma subrange_map: "subrange (map f xs) r = map f (subrange xs r)"
  by (simp add: subrange_def take_map drop_map)

lemma hd_subrange: "fst r < snd r \<Longrightarrow> snd r \<le> length xs \<Longrightarrow> hd (subrange xs r) = xs ! fst r"
  by (simp add: subrange_def hd_drop_conv_nth)

lemma ranges_bound:
  assumes "concat (map (\<lambda>(a, b). [a..<b]) rs) = [0..<n]" "(a, b) \<in> set rs" "a < b"
  shows "b \<le> n"
proof -
  have "[a..<b] \<in> set (map (\<lambda>(a, b). [a..<b]) rs)" using assms(2) by (auto intro: rev_image_eqI)
  moreover have "b - 1 \<in> set [a..<b]" using assms(3) by simp
  ultimately have "b - 1 \<in> set (concat (map (\<lambda>(a, b). [a..<b]) rs))" unfolding set_concat by blast
  then show ?thesis unfolding assms(1) using assms(3) by simp
qed

lemma concat_subranges:
  assumes "concat (map (\<lambda>(a, b). [a..<b]) rs) = [0..<length xs]"
  shows "concat (map (subrange xs) rs) = xs"
proof -
  have "subrange xs r = map ((!) xs) [fst r..<snd r]" if "r \<in> set rs" for r
  proof (cases "fst r < snd r")
    case True
    then have "snd r \<le> length xs" using ranges_bound [OF assms, of "fst r" "snd r"] that by simp
    then show ?thesis by (intro nth_equalityI) (simp_all add: subrange_def)
  qed (simp add: subrange_def)
  then have "map (subrange xs) rs = map (\<lambda>r. map ((!) xs) [fst r..<snd r]) rs" by (rule map_cong [OF refl])
  moreover have "concat (map (\<lambda>r. map ((!) xs) [fst r..<snd r]) rs) =
      map ((!) xs) (concat (map (\<lambda>(a, b). [a..<b]) rs))"
    by (induction rs) auto
  ultimately have "concat (map (subrange xs) rs) = map ((!) xs) (concat (map (\<lambda>(a, b). [a..<b]) rs))"
    by (simp only:)
  then show ?thesis by (simp only: assms map_nth)
qed

lemma sorted_segments:
  assumes "sorted_wrt (<) (map key (concat segs))"
  shows "i < length segs \<Longrightarrow> x \<in> set (segs ! i) \<Longrightarrow> (key (hd (segs ! i)) :: u64) \<le> key x"
    and "i < j \<Longrightarrow> j < length segs \<Longrightarrow> x \<in> set (segs ! i) \<Longrightarrow> y \<in> set (segs ! j) \<Longrightarrow> key x < key y"
proof -
  have seg: "sorted_wrt (<) (map key (segs ! i))" if "i < length segs" for i
    using assms that
  proof (induction segs arbitrary: i)
    case (Cons s segs)
    then show ?case by (cases i) (auto simp: sorted_wrt_append)
  qed simp
  show "i < length segs \<Longrightarrow> x \<in> set (segs ! i) \<Longrightarrow> key (hd (segs ! i)) \<le> key x"
    using seg [of i] by (cases "segs ! i") (auto simp: less_imp_le)
  show "i < j \<Longrightarrow> j < length segs \<Longrightarrow> x \<in> set (segs ! i) \<Longrightarrow> y \<in> set (segs ! j) \<Longrightarrow> key x < key y"
    using assms
  proof (induction segs arbitrary: i j)
    case (Cons s segs)
    obtain j' where j: "j = Suc j'" using Cons.prems(1) by (cases j) auto
    show ?case
    proof (cases i)
      case 0
      have "y \<in> set (concat segs)" using Cons.prems(2,4) j by (auto intro: nth_mem)
      then show ?thesis using Cons.prems(3,5) 0 by (auto simp: sorted_wrt_append)
    next
      case (Suc i')
      then show ?thesis using Cons j by (auto simp: sorted_wrt_append)
    qed
  qed simp
qed

lemma concat_subrange_hd:
  assumes "fst r < snd r" "snd r \<le> length segs" "segs ! fst r \<noteq> []"
  shows "concat (subrange segs r) \<noteq> []" "hd (concat (subrange segs r)) = hd (segs ! fst r)"
proof -
  have "subrange segs r = segs ! fst r # tl (subrange segs r)"
    using hd_subrange [OF assms(1,2)] length_subrange [OF assms(2)] assms(1) by (cases "subrange segs r") auto
  then have "concat (subrange segs r) = segs ! fst r @ concat (tl (subrange segs r))" by (metis concat.simps(2))
  then show "concat (subrange segs r) \<noteq> []" "hd (concat (subrange segs r)) = hd (segs ! fst r)" using assms(3) by simp_all
qed

text \<open>A parent page over a range of roots is a search tree over their segments.\<close>

lemma parent_ok:
  assumes forest: "forest_ok read key h file b roots segs R"
    and sorted: "sorted_wrt (<) (map key (concat segs))"
    and f: "extents_kept b file f" and r: "fst r < snd r" "snd r \<le> length roots"
    and p: "bp_entries p = subrange roots r"
  shows "btree_ok (read f) id key (Suc h) (Intermediate p)"
    and "btree_entries (read f) (Suc h) (Intermediate p) = concat (subrange segs r)"
    and "set (btree_refs (read f) (Suc h) (Intermediate p)) \<subseteq> R"
proof -
  have len: "length segs = length roots" using forest by (simp add: forest_ok_def)
  have child: "\<exists>t. read f (pe_block (roots ! i)) = Inr t \<and> btree_ok (read f) id key h t \<and>
      btree_entries (read f) h t = segs ! i \<and> set (btree_refs (read f) h t) \<subseteq> R"
    if "i < length roots" for i
    using forest f that by (auto simp: forest_ok_def)
  have root: "segs ! i \<noteq> []" "pe_key (roots ! i) = key (hd (segs ! i))" "pe_block (roots ! i) \<in> R"
    if "i < length roots" for i
    using forest that by (auto simp: forest_ok_def)
  have nth: "subrange roots r ! i = roots ! (fst r + i)" "fst r + i < length roots" if "i < snd r - fst r" for i
    using that r by (simp_all add: nth_subrange)
  have ls: "length (subrange roots r) = snd r - fst r" "length (subrange segs r) = snd r - fst r"
    using r len by (simp_all add: length_subrange)
  have keys: "pe_key (roots ! i) < pe_key (roots ! j)" if "i < j" "j < length roots" for i j
    using sorted_segments(2) [OF sorted that(1), of "hd (segs ! i)" "hd (segs ! j)"] that root [of i] root [of j] len
    by simp
  have "sorted (map (\<lambda>e. id (pe_key e)) (subrange roots r))"
    unfolding sorted_iff_nth_mono
  proof (intro allI impI)
    fix i j assume ij: "i \<le> j" "j < length (map (\<lambda>e. id (pe_key e)) (subrange roots r))"
    then have "i < snd r - fst r" "j < snd r - fst r" by (simp_all add: ls)
    then show "map (\<lambda>e. id (pe_key e)) (subrange roots r) ! i \<le> map (\<lambda>e. id (pe_key e)) (subrange roots r) ! j"
      using keys [of "fst r + i" "fst r + j"] nth [of i] nth [of j] ij(1)
      by (cases "i = j") (auto simp: ls less_imp_le)
  qed
  moreover have "case read f (pe_block (subrange roots r ! i)) of Inl _ \<Rightarrow> False
      | Inr c \<Rightarrow> btree_ok (read f) id key h c \<and>
        (\<forall>x\<in>set (btree_entries (read f) h c). id (pe_key (subrange roots r ! i)) \<le> key x \<and>
          (Suc i < length (subrange roots r) \<longrightarrow> key x < id (pe_key (subrange roots r ! Suc i))))"
    if i: "i < length (subrange roots r)" for i
  proof -
    have i': "i < snd r - fst r" using i by (simp add: ls)
    obtain t where t: "read f (pe_block (roots ! (fst r + i))) = Inr t" "btree_ok (read f) id key h t"
        "btree_entries (read f) h t = segs ! (fst r + i)"
      using child [OF nth(2) [OF i']] by blast
    have lo: "pe_key (roots ! (fst r + i)) \<le> key x" if "x \<in> set (segs ! (fst r + i))" for x
      using sorted_segments(1) [OF sorted _ that] nth(2) [OF i'] root(2) [OF nth(2) [OF i']] len by simp
    have hi: "key x < pe_key (roots ! (fst r + Suc i))" if "x \<in> set (segs ! (fst r + i))" "Suc i < snd r - fst r" for x
      using sorted_segments(2) [OF sorted, of "fst r + i" "fst r + Suc i" x "hd (segs ! (fst r + Suc i))"]
        that nth(2) [OF that(2)] root [OF nth(2) [OF that(2)]] len by simp
    show ?thesis using t lo hi nth(1) [OF i'] nth(1) [of "Suc i"] by (auto simp: ls)
  qed
  ultimately show "btree_ok (read f) id key (Suc h) (Intermediate p)"
    by (simp only: btree_ok.simps p Let_def) blast
  have "map (\<lambda>e. case read f (pe_block e) of Inl _ \<Rightarrow> [] | Inr c \<Rightarrow> btree_entries (read f) h c) (subrange roots r) =
      subrange segs r"
  proof (rule nth_equalityI)
    fix i assume "i < length (map (\<lambda>e. case read f (pe_block e) of Inl _ \<Rightarrow> [] | Inr c \<Rightarrow> btree_entries (read f) h c) (subrange roots r))"
    then have i: "i < snd r - fst r" by (simp add: ls)
    then show "map (\<lambda>e. case read f (pe_block e) of Inl _ \<Rightarrow> [] | Inr c \<Rightarrow> btree_entries (read f) h c) (subrange roots r) ! i =
        subrange segs r ! i"
      using child [OF nth(2) [OF i]] nth(1) [OF i] nth_subrange [of r segs i] r len by (auto simp: ls)
  qed (simp add: ls)
  then show "btree_entries (read f) (Suc h) (Intermediate p) = concat (subrange segs r)"
    by (simp only: btree_entries.simps p)
  show "set (btree_refs (read f) (Suc h) (Intermediate p)) \<subseteq> R"
  proof
    fix x assume "x \<in> set (btree_refs (read f) (Suc h) (Intermediate p))"
    then obtain e where e: "e \<in> set (subrange roots r)" "x = pe_block e \<or>
        x \<in> set (case read f (pe_block e) of Inl _ \<Rightarrow> [] | Inr c \<Rightarrow> btree_refs (read f) h c)"
      by (auto simp: p)
    obtain i where i: "i < snd r - fst r" "e = roots ! (fst r + i)"
      using e(1) nth(1) by (metis in_set_conv_nth ls(1))
    show "x \<in> R" using e(2) child [OF nth(2) [OF i(1)]] root(3) [OF nth(2) [OF i(1)]] i(2) by auto
  qed
qed

section \<open>The whole tree\<close>

lemma root_btree_read_held:
  assumes "page_held b f (unat (ref_index r)) bs" "length bs = PAGE_SIZE" "n + 3 < PAGE_SIZE"
  shows "bs ! (n + 3) = 0 \<Longrightarrow> read_leaf bs = Inr (p, []) \<Longrightarrow>
      root_btree_read n read_leaf read_intermediate f r = Inr (Leaf p)"
    and "bs ! (n + 3) \<noteq> 0 \<Longrightarrow> read_intermediate bs = Inr (q, []) \<Longrightarrow>
      root_btree_read n read_leaf read_intermediate f r = Inr (Intermediate q)"
proof -
  have "root_btree_read n read_leaf read_intermediate f r =
      root_btree_read n read_leaf read_intermediate (write_at [] (unat (ref_index r)) bs) r"
    using page_held_read [OF assms(1,2)] assms(2) by (simp add: root_btree_read_def read_at_def)
  then show "bs ! (n + 3) = 0 \<Longrightarrow> read_leaf bs = Inr (p, []) \<Longrightarrow>
      root_btree_read n read_leaf read_intermediate f r = Inr (Leaf p)"
    and "bs ! (n + 3) \<noteq> 0 \<Longrightarrow> read_intermediate bs = Inr (q, []) \<Longrightarrow>
      root_btree_read n read_leaf read_intermediate f r = Inr (Intermediate q)"
    by (simp_all add: root_btree_read_written [OF assms(2,3)])
qed

lemma refs_extend:
  assumes "refs_unambiguous R" "\<forall>r\<in>R. unat (ref_block r) < n"
    and "map (\<lambda>r. unat (ref_block (pe_block r))) roots = [n..<m]"
  shows "refs_unambiguous (R \<union> pe_block ` set roots)" "\<forall>r\<in>R \<union> pe_block ` set roots. unat (ref_block r) < max n m"
proof -
  have new: "n \<le> unat (ref_block (pe_block r))" "unat (ref_block (pe_block r)) < m" if "r \<in> set roots" for r
  proof -
    have "unat (ref_block (pe_block r)) \<in> set (map (\<lambda>r. unat (ref_block (pe_block r))) roots)" using that by simp
    then show "n \<le> unat (ref_block (pe_block r))" "unat (ref_block (pe_block r)) < m"
      unfolding assms(3) by simp_all
  qed
  have "distinct (map (\<lambda>r. unat (ref_block (pe_block r))) roots)" unfolding assms(3) by simp
  then have inj: "inj_on (\<lambda>r. unat (ref_block (pe_block r))) (set roots)" by (simp only: distinct_map)
  have "r = r'" if r: "r \<in> R \<union> pe_block ` set roots" "r' \<in> R \<union> pe_block ` set roots" "ref_block r = ref_block r'" for r r'
  proof -
    have old: "unat (ref_block x) < n" if "x \<in> R" for x using assms(2) that by blast
    have sep: "\<not> (x \<in> R \<and> y \<in> pe_block ` set roots)" if "ref_block x = ref_block y" for x y
      using old [of x] new(1) that by (auto simp: not_less [symmetric])
    from sep [OF r(3)] sep [OF r(3) [symmetric]] r(1,2)
    consider "r \<in> R" "r' \<in> R" | e e' where "e \<in> set roots" "e' \<in> set roots" "r = pe_block e" "r' = pe_block e'"
      by auto
    then show ?thesis
    proof cases
      case 1
      then show ?thesis using assms(1) r(3) by (simp add: refs_unambiguous_def)
    next
      case 2
      then show ?thesis using inj_onD [OF inj, of e e'] r(3) by simp
    qed
  qed
  then show "refs_unambiguous (R \<union> pe_block ` set roots)" by (simp add: refs_unambiguous_def)
  show "\<forall>r\<in>R \<union> pe_block ` set roots. unat (ref_block r) < max n m"
    using assms(2) new(2) by (auto simp: less_max_iff_disj)
qed

text \<open>
  What a tree needs of its leaf pages: the constructor accepts every list of good entries up to
  the capacity. The tree codec gives the rest.
\<close>

lemma div_ceil_20:
  assumes "1 < n" shows "div_ceil n 20 < n" "3 * div_ceil n 20 \<le> 2 * n" "0 < div_ceil n 20"
    "n \<le> 20 ^ Suc k \<Longrightarrow> div_ceil n 20 \<le> 20 ^ k"
proof -
  have lt: "div_ceil n 20 * 20 < n + 20" by (rule div_ceil_mult_lt) simp
  then show "div_ceil n 20 < n" "3 * div_ceil n 20 \<le> 2 * n" using assms by linarith+
  show "0 < div_ceil n 20" using assms by (simp add: div_ceil_pos_iff)
  show "n \<le> 20 ^ Suc k \<Longrightarrow> div_ceil n 20 \<le> 20 ^ k"
    using less_div_ceil [of 20 "20 ^ k" n] by (simp add: not_less [symmetric])
qed

locale btree_writer =
  tree_codec write_leaf read_leaf leaf_ok "unicode_btree_page_write unicode_page_entry_write"
    "unicode_btree_page_read 24 unicode_page_entry_read intermediate_page_new"
    "intermediate_page_ok UNICODE_BTREE_ENTRIES_SIZE 24" UNICODE_BTREE_ENTRIES_SIZE
  for write_leaf :: "('l, u64) btree_page \<Rightarrow> io_error + bytes" and read_leaf leaf_ok +
  fixes new_leaf :: "'l page_maker" and key :: "'l \<Rightarrow> u64" and capacity :: nat
    and page_type :: page_type and entry_ok :: "'l \<Rightarrow> bool"
  assumes capacity: "0 < capacity"
    and tree_type: "page_type = BlockBTree \<or> page_type = NodeBTree"
    and new_leaf: "list_all entry_ok es \<Longrightarrow> length es \<le> capacity \<Longrightarrow> pt_page_type t = page_type \<Longrightarrow>
      \<exists>p. new_leaf es t = Inr p \<and> leaf_ok p \<and> bp_entries p = es"
begin

abbreviation tree_read :: "bytes \<Rightarrow> ('l, u64) page_reader" where
  "tree_read \<equiv> root_btree_read UNICODE_BTREE_ENTRIES_SIZE read_leaf
    (unicode_btree_page_read 24 unicode_page_entry_read intermediate_page_new)"

lemma leaf_level_forest:
  assumes ok: "list_all entry_ok entries" "0 < length entries"
    and plan: "plan_leaf_pages (length entries) capacity = Inr ranges"
    and off: "17408 \<le> unat off" "unat off + 600000 * length ranges \<le> 2 ^ 63"
    and pg: "unat pg + length ranges < 2 ^ 64"
  shows "\<exists>roots file' off' pg'. write_level new_leaf write_leaf key page_type name entries ranges file off pg =
      Inr (roots, file', off', pg') \<and> length roots = length ranges \<and> unat pg' = unat pg + length ranges \<and>
    unat off \<le> unat off' \<and> unat off' \<le> unat off + 600000 * length ranges \<and> kept_below (unat off) file file' \<and>
    map (\<lambda>r. unat (ref_block (pe_block r))) roots = [unat pg..<unat pg + length ranges] \<and>
    forest_ok tree_read key 0 file' (unat off') roots (map (subrange entries) ranges) (pe_block ` set roots)"
proof -
  have rs: "concat (map (\<lambda>(a, b). [a..<b]) ranges) = [0..<length entries]"
    "\<And>a b. (a, b) \<in> set ranges \<Longrightarrow> a < b \<and> b - a \<le> capacity"
    using plan_leaf_pages_Inr [OF ok(2) capacity] plan by auto
  have bound: "fst r < snd r" "snd r \<le> length entries" "snd r - fst r \<le> capacity" if "r \<in> set ranges" for r
    using rs(2) [of "fst r" "snd r"] ranges_bound [OF rs(1), of "fst r" "snd r"] that by simp_all
  define P where "P = (\<lambda>rg (t :: unicode_page_trailer) bs. \<exists>p. bp_entries p = subrange entries rg \<and>
    bs ! (UNICODE_BTREE_ENTRIES_SIZE + 3) = 0 \<and> read_leaf bs = Inr (p, []))"
  have new: "\<exists>p bs. new_leaf (subrange entries rg) t = Inr p \<and> write_leaf p = Inr bs \<and> length bs = PAGE_SIZE \<and> P rg t bs"
    if rg: "rg \<in> set ranges" and t: "pt_page_type t = page_type" for rg t
  proof -
    have "list_all entry_ok (subrange entries rg)"
      using ok(1) by (auto simp: list_all_iff subrange_def dest: in_set_takeD in_set_dropD)
    moreover have "length (subrange entries rg) \<le> capacity" using bound [OF rg] by (simp add: length_subrange)
    ultimately obtain p where p: "new_leaf (subrange entries rg) t = Inr p" "leaf_ok p" "bp_entries p = subrange entries rg"
      using new_leaf t by blast
    obtain bs crc where bs: "write_leaf p = Inr bs" "length bs = PAGE_SIZE"
        "bs ! (UNICODE_BTREE_ENTRIES_SIZE + 3) = bp_level p" "\<forall>r. read_leaf (bs @ r) = Inr (set_crc crc p, r)"
      using leaf.read_write [OF p(2)] by blast
    have "P rg t bs"
      unfolding P_def using bs(3) bs(4) [rule_format, of "[]"] leaf_level [OF p(2)] p(3)
      by (intro exI [of _ "set_crc crc p"]) (simp add: set_crc_def)
    then show ?thesis using p(1) bs(1,2) by blast
  qed
  obtain roots file' off' pg' where w: "write_level new_leaf write_leaf key page_type name entries ranges file off pg =
      Inr (roots, file', off', pg')" "length roots = length ranges" "unat pg' = unat pg + length ranges"
      "unat off \<le> unat off'" "unat off' \<le> unat off + 600000 * length ranges" "kept_below (unat off) file file'"
      "map (\<lambda>r. unat (ref_block (pe_block r))) roots = [unat pg..<unat pg + length ranges]"
      "\<forall>i<length ranges. pe_key (roots ! i) = key (entries ! fst (ranges ! i)) \<and>
        (\<exists>t bs. pt_page_type t = page_type \<and> P (ranges ! i) t bs \<and> length bs = PAGE_SIZE \<and>
          page_held (unat off') file' (unat (ref_index (pe_block (roots ! i)))) bs)"
    using write_level_spec [where P = P and key = key and name = name, OF new off pg] by blast
  have "forest_ok tree_read key 0 file' (unat off') roots (map (subrange entries) ranges) (pe_block ` set roots)"
    unfolding forest_ok_def
  proof (intro conjI allI impI)
    fix i assume "i < length roots"
    then have i: "i < length ranges" "ranges ! i \<in> set ranges" using w(2) by simp_all
    note b = bound [OF i(2)]
    show "map (subrange entries) ranges ! i \<noteq> []"
      using i length_subrange [OF b(2)] b(1) by (auto dest: arg_cong [of _ _ length])
    show "pe_key (roots ! i) = key (hd (map (subrange entries) ranges ! i))"
      using w(8) i hd_subrange [OF b(1,2)] by simp
    show "pe_block (roots ! i) \<in> pe_block ` set roots" using i w(2) by simp
    fix f assume f: "extents_kept (unat off') file' f"
    obtain t bs p where bs: "length bs = PAGE_SIZE" "page_held (unat off') file' (unat (ref_index (pe_block (roots ! i)))) bs"
        "bp_entries p = subrange entries (ranges ! i)" "bs ! (UNICODE_BTREE_ENTRIES_SIZE + 3) = 0" "read_leaf bs = Inr (p, [])"
      using w(8) i unfolding P_def by blast
    have "page_held (unat off') f (unat (ref_index (pe_block (roots ! i)))) bs"
      using bs(2) f order_refl by (rule page_held_mono)
    then have "tree_read f (pe_block (roots ! i)) = Inr (Leaf p)"
      using bs leaf.level_offset by (intro root_btree_read_held(1))
    then show "\<exists>t. tree_read f (pe_block (roots ! i)) = Inr t \<and> btree_ok (tree_read f) id key 0 t \<and>
        btree_entries (tree_read f) 0 t = map (subrange entries) ranges ! i \<and>
        set (btree_refs (tree_read f) 0 t) \<subseteq> pe_block ` set roots"
      using bs(3) i by auto
  qed (simp add: w(2))
  then show ?thesis using w by blast
qed


lemma parent_level_forest:
  assumes forest: "forest_ok tree_read key h file (unat off) roots segs R"
    and sorted: "sorted_wrt (<) (map key (concat segs))"
    and plan: "plan_leaf_pages (length roots) 20 = Inr ranges" "0 < length roots"
    and level: "1 \<le> unat level" "unat level \<le> 8"
    and off: "17408 \<le> unat off" "unat off + 600000 * length ranges \<le> 2 ^ 63"
    and pg: "unat pg + length ranges < 2 ^ 64"
  shows "\<exists>parents file' off' pg'. write_level (intermediate_page_new level 20 24)
      (unicode_btree_page_write unicode_page_entry_write) pe_key page_type name roots ranges file off pg =
      Inr (parents, file', off', pg') \<and> length parents = length ranges \<and> unat pg' = unat pg + length ranges \<and>
    unat off \<le> unat off' \<and> unat off' \<le> unat off + 600000 * length ranges \<and> kept_below (unat off) file file' \<and>
    map (\<lambda>r. unat (ref_block (pe_block r))) parents = [unat pg..<unat pg + length ranges] \<and>
    forest_ok tree_read key (Suc h) file' (unat off') parents (map (\<lambda>r. concat (subrange segs r)) ranges)
      (R \<union> pe_block ` set parents)"
proof -
  have rs: "concat (map (\<lambda>(a, b). [a..<b]) ranges) = [0..<length roots]"
    "\<And>a b. (a, b) \<in> set ranges \<Longrightarrow> a < b \<and> b - a \<le> 20"
    using plan_leaf_pages_Inr [OF plan(2), of 20] plan(1) by auto
  have bound: "fst r < snd r" "snd r \<le> length roots" "snd r - fst r \<le> 20" if "r \<in> set ranges" for r
    using rs(2) [of "fst r" "snd r"] ranges_bound [OF rs(1), of "fst r" "snd r"] that by simp_all
  have len: "length segs = length roots" using forest by (simp add: forest_ok_def)
  define P where "P = (\<lambda>rg (t :: unicode_page_trailer) bs. \<exists>p. bp_entries p = subrange roots rg \<and>
    bs ! (UNICODE_BTREE_ENTRIES_SIZE + 3) \<noteq> 0 \<and>
    unicode_btree_page_read 24 unicode_page_entry_read intermediate_page_new bs = Inr (p, []))"
  have new: "\<exists>p bs. intermediate_page_new level 20 24 (subrange roots rg) t = Inr p \<and>
      unicode_btree_page_write unicode_page_entry_write p = Inr bs \<and> length bs = PAGE_SIZE \<and> P rg t bs"
    if rg: "rg \<in> set ranges" and t: "pt_page_type t = page_type" for rg t
  proof -
    have sz: "length (subrange roots rg) \<le> 20" using bound [OF rg] by (simp add: length_subrange)
    define p where "p = btree_page_make level 20 24 (subrange roots rg) t"
    have lv: "1 \<le> level" "level \<le> 8" using level by (simp_all add: word_le_nat_alt)
    have p: "intermediate_page_new level 20 24 (subrange roots rg) t = Inr p"
      using sz t tree_type lv by (auto simp: intermediate_page_new_def p_def)
    have ok: "intermediate_page_ok UNICODE_BTREE_ENTRIES_SIZE 24 p"
      using sz t tree_type lv by (auto simp: intermediate_page_ok_def btree_page_fits_def p_def btree_page_make_def
          UNICODE_BTREE_ENTRIES_SIZE_def)
    obtain bs crc where bs: "unicode_btree_page_write unicode_page_entry_write p = Inr bs" "length bs = PAGE_SIZE"
        "bs ! (UNICODE_BTREE_ENTRIES_SIZE + 3) = bp_level p"
        "\<forall>r. unicode_btree_page_read 24 unicode_page_entry_read intermediate_page_new (bs @ r) = Inr (set_crc crc p, r)"
      using inter.read_write [OF ok] by blast
    have "P rg t bs"
      unfolding P_def using bs(3) bs(4) [rule_format, of "[]"] intermediate_level [OF ok]
      by (intro exI [of _ "set_crc crc p"]) (simp add: set_crc_def p_def btree_page_make_def)
    then show ?thesis using p bs(1,2) by blast
  qed
  obtain parents file' off' pg' where w: "write_level (intermediate_page_new level 20 24)
      (unicode_btree_page_write unicode_page_entry_write) pe_key page_type name roots ranges file off pg =
      Inr (parents, file', off', pg')" "length parents = length ranges" "unat pg' = unat pg + length ranges"
      "unat off \<le> unat off'" "unat off' \<le> unat off + 600000 * length ranges" "kept_below (unat off) file file'"
      "map (\<lambda>r. unat (ref_block (pe_block r))) parents = [unat pg..<unat pg + length ranges]"
      "\<forall>i<length ranges. pe_key (parents ! i) = pe_key (roots ! fst (ranges ! i)) \<and>
        (\<exists>t bs. pt_page_type t = page_type \<and> P (ranges ! i) t bs \<and> length bs = PAGE_SIZE \<and>
          page_held (unat off') file' (unat (ref_index (pe_block (parents ! i)))) bs)"
    using write_level_spec [where P = P and key = pe_key and name = name, OF new off pg] by blast
  have "forest_ok tree_read key (Suc h) file' (unat off') parents (map (\<lambda>r. concat (subrange segs r)) ranges)
      (R \<union> pe_block ` set parents)"
    unfolding forest_ok_def
  proof (intro conjI allI impI)
    fix i assume "i < length parents"
    then have i: "i < length ranges" "ranges ! i \<in> set ranges" "i < length parents" using w(2) by simp_all
    note b = bound [OF i(2)]
    have root: "segs ! fst (ranges ! i) \<noteq> []" "pe_key (roots ! fst (ranges ! i)) = key (hd (segs ! fst (ranges ! i)))"
      using forest b by (auto simp: forest_ok_def)
    note hd = concat_subrange_hd [OF b(1) b(2) [folded len] root(1)]
    show "map (\<lambda>r. concat (subrange segs r)) ranges ! i \<noteq> []" using hd i by simp
    show "pe_key (parents ! i) = key (hd (map (\<lambda>r. concat (subrange segs r)) ranges ! i))"
      using w(8) i hd root(2) by simp
    show "pe_block (parents ! i) \<in> R \<union> pe_block ` set parents" using i by simp
    fix f assume f: "extents_kept (unat off') file' f"
    have f0: "extents_kept (unat off) file f"
      using kept_below_extents [OF w(6)] extents_kept_mono [OF f w(4)] by (rule extents_kept_trans)
    obtain t bs p where bs: "length bs = PAGE_SIZE" "page_held (unat off') file' (unat (ref_index (pe_block (parents ! i)))) bs"
        "bp_entries p = subrange roots (ranges ! i)" "bs ! (UNICODE_BTREE_ENTRIES_SIZE + 3) \<noteq> 0"
        "unicode_btree_page_read 24 unicode_page_entry_read intermediate_page_new bs = Inr (p, [])"
      using w(8) i unfolding P_def by blast
    have "page_held (unat off') f (unat (ref_index (pe_block (parents ! i)))) bs"
      using bs(2) f order_refl by (rule page_held_mono)
    then have "tree_read f (pe_block (parents ! i)) = Inr (Intermediate p)"
      using bs leaf.level_offset by (intro root_btree_read_held(2))
    then show "\<exists>t. tree_read f (pe_block (parents ! i)) = Inr t \<and> btree_ok (tree_read f) id key (Suc h) t \<and>
        btree_entries (tree_read f) (Suc h) t = map (\<lambda>r. concat (subrange segs r)) ranges ! i \<and>
        set (btree_refs (tree_read f) (Suc h) t) \<subseteq> R \<union> pe_block ` set parents"
      using parent_ok [OF forest sorted f0 b(1,2) bs(3)] i by auto
  qed (simp add: w(2))
  then show ?thesis using w by blast
qed

lemma write_upper_levels_spec:
  assumes "forest_ok tree_read key h file (unat off) roots segs R" "concat segs = entries"
    and "sorted_wrt (<) (map key entries)" "0 < length roots"
    and "refs_unambiguous R" "\<forall>r\<in>R. unat (ref_block r) < unat pg"
    and "1 \<le> unat level" "unat level \<le> 9" "length roots \<le> 20 ^ (9 - unat level)"
    and "17408 \<le> unat off" "unat off + 1200000 * length roots \<le> 2 ^ 63" "unat pg + 2 * length roots < 2 ^ 64"
  shows "\<exists>ref file' off' pg' H R'. write_upper_levels page_type name level roots file off pg = Inr (ref, file', off', pg') \<and>
    kept_below (unat off) file file' \<and> unat off \<le> unat off' \<and> unat off' \<le> unat off + 1200000 * length roots \<and>
    unat pg' \<le> unat pg + 2 * length roots \<and> tree_kept tree_read key file' (unat off') ref H entries R' \<and> refs_unambiguous R'"
  using assms
proof (induction "length roots" arbitrary: roots segs R h "file" off pg level rule: less_induct)
  case less
  show ?case
  proof (cases "1 < length roots")
    case False
    then have 1: "length roots = 1" using less.prems(4) by linarith
    then obtain s where s: "segs = [s]" using less.prems(1) by (auto simp: forest_ok_def length_Suc_conv)
    have "segs ! 0 = entries" using s less.prems(2) by simp
    then have "tree_kept tree_read key file (unat off) (pe_block (roots ! 0)) h entries R"
      using less.prems(1) 1 by (simp add: forest_ok_def tree_kept_def)
    moreover have "write_upper_levels page_type name level roots file off pg = Inr (pe_block (roots ! 0), file, off, pg)"
      using False by (simp add: write_upper_levels.simps)
    moreover have "unat pg \<le> unat pg + 2 * length roots" "unat off \<le> unat off + 1200000 * length roots" by simp_all
    ultimately show ?thesis using less.prems(5) kept_below_refl order_refl by blast
  next
    case True
    define n where "n = length roots"
    have npos: "0 < n" using True unfolding n_def by linarith
    obtain ranges where plan: "plan_leaf_pages n 20 = Inr ranges" and len: "length ranges = div_ceil n 20"
        and cover: "concat (map (\<lambda>(a, b). [a..<b]) ranges) = [0..<n]"
      using plan_leaf_pages_Inr [OF npos, of 20] by auto
    note d = div_ceil_20 [OF True, folded n_def, folded len]
    have level: "unat level \<le> 8" "length ranges \<le> 20 ^ (8 - unat level)"
    proof -
      show l: "unat level \<le> 8"
      proof (rule ccontr)
        assume "\<not> unat level \<le> 8"
        then have "unat level = 9" using less.prems(8) by simp
        then show False using less.prems(9) True by simp
      qed
      have "9 - unat level = Suc (8 - unat level)" using l by simp
      then show "length ranges \<le> 20 ^ (8 - unat level)" using d(4) [of "8 - unat level"] less.prems(9) by (simp add: n_def)
    qed
    have lens: "length segs = n" using less.prems(1) by (simp add: forest_ok_def n_def)
    have off: "unat off + 600000 * length ranges \<le> 2 ^ 63" and pg: "unat pg + length ranges < 2 ^ 64"
      using less.prems(11,12) d(1) by (simp_all add: n_def)
    obtain parents file1 off1 pg1 where w: "write_level (intermediate_page_new level 20 24)
        (unicode_btree_page_write unicode_page_entry_write) pe_key page_type name roots ranges file off pg =
        Inr (parents, file1, off1, pg1)" "length parents = length ranges" "unat pg1 = unat pg + length ranges"
        "unat off \<le> unat off1" "unat off1 \<le> unat off + 600000 * length ranges" "kept_below (unat off) file file1"
        "map (\<lambda>r. unat (ref_block (pe_block r))) parents = [unat pg..<unat pg + length ranges]"
        "forest_ok tree_read key (Suc h) file1 (unat off1) parents (map (\<lambda>r. concat (subrange segs r)) ranges)
          (R \<union> pe_block ` set parents)"
      using parent_level_forest [OF less.prems(1) _ plan [unfolded n_def] less.prems(4,7) level(1) less.prems(10) off pg, of name]
        less.prems(2,3) by blast
    have sum: "unat level + unat (1 :: u8) < 2 ^ LENGTH(8)" using level(1) by simp
    have lv: "checked_add_w level 1 = Some (level + 1)" by (rule checked_add_w_SomeI [OF sum])
    have ul: "unat (level + 1) = unat level + 1" using checked_add_w_Some [OF lv] by simp
    have "concat (map (subrange segs) ranges) = segs"
      using concat_subranges [of ranges segs] cover lens by simp
    moreover have "concat (map (\<lambda>r. concat (subrange segs r)) rs) = concat (concat (map (subrange segs) rs))" for rs
      by (induction rs) simp_all
    ultimately have ent: "concat (map (\<lambda>r. concat (subrange segs r)) ranges) = entries" using less.prems(2) by simp
    note ext = refs_extend [OF less.prems(5,6) w(7)]
    have "\<exists>ref file' off' pg' H R'. write_upper_levels page_type name (level + 1) parents file1 off1 pg1 = Inr (ref, file', off', pg') \<and>
      kept_below (unat off1) file1 file' \<and> unat off1 \<le> unat off' \<and> unat off' \<le> unat off1 + 1200000 * length parents \<and>
      unat pg' \<le> unat pg1 + 2 * length parents \<and> tree_kept tree_read key file' (unat off') ref H entries R' \<and> refs_unambiguous R'"
    proof (rule less.hyps [OF _ w(8) ent less.prems(3) _ ext(1)])
      show "length parents < length roots" "0 < length parents" using d(1,3) w(2) len by (simp_all add: n_def)
      show "\<forall>r\<in>R \<union> pe_block ` set parents. unat (ref_block r) < unat pg1" using ext(2) w(3) by simp
      show "1 \<le> unat (level + 1)" "unat (level + 1) \<le> 9" "length parents \<le> 20 ^ (9 - unat (level + 1))"
        using ul level w(2) by simp_all
      show "17408 \<le> unat off1" "unat off1 + 1200000 * length parents \<le> 2 ^ 63" "unat pg1 + 2 * length parents < 2 ^ 64"
        using w(2-5) less.prems(10-12) d(2) by (simp_all add: n_def)
    qed
    then obtain ref file' off' pg' H R' where IH: "write_upper_levels page_type name (level + 1) parents file1 off1 pg1 = Inr (ref, file', off', pg')"
        "kept_below (unat off1) file1 file'" "unat off1 \<le> unat off'" "unat off' \<le> unat off1 + 1200000 * length parents"
        "unat pg' \<le> unat pg1 + 2 * length parents" "tree_kept tree_read key file' (unat off') ref H entries R'" "refs_unambiguous R'"
      by blast
    have "kept_below (unat off) file file'"
      using w(6) kept_below_mono [OF IH(2) w(4)] by (rule kept_below_trans)
    moreover have "unat off \<le> unat off'" "unat off' \<le> unat off + 1200000 * length roots" "unat pg' \<le> unat pg + 2 * length roots"
      using w(2-5) IH(3-5) d(2) by (simp_all add: n_def)
    moreover have "write_upper_levels page_type name level roots file off pg = Inr (ref, file', off', pg')"
      using True plan w(1) lv IH(1) by (subst write_upper_levels.simps) (simp add: n_def)
    ultimately show ?thesis using IH(6,7) by blast
  qed
qed


lemma write_btree_tree:
  assumes ok: "list_all entry_ok entries" "entries \<noteq> []" "length entries \<le> 2 ^ 32"
    and sorted: "sorted_wrt (<) (map key entries)"
    and off: "17408 \<le> unat off" "unat off \<le> 2 ^ 62" and pg: "unat pg \<le> 2 ^ 63"
  shows "\<exists>ref file' off' pg' H R. write_btree new_leaf write_leaf key capacity page_type name file off pg entries =
      Inr (ref, file', off', pg') \<and> kept_below (unat off) file file' \<and> unat off \<le> unat off' \<and>
    unat off' \<le> unat off + 1800000 * length entries \<and> unat pg' \<le> unat pg + 3 * length entries \<and>
    tree_kept tree_read key file' (unat off') ref H entries R \<and> refs_unambiguous R"
proof -
  have pos: "0 < length entries" using ok(2) by simp
  obtain ranges where plan: "plan_leaf_pages (length entries) capacity = Inr ranges" "length ranges = div_ceil (length entries) capacity"
      "concat (map (\<lambda>(a, b). [a..<b]) ranges) = [0..<length entries]"
    using plan_leaf_pages_Inr [OF pos capacity] by blast
  have "\<not> length entries < div_ceil (length entries) capacity"
    using less_div_ceil [OF capacity, of "length entries" "length entries"] capacity by simp
  then have m: "length ranges \<le> 2 ^ 32" "0 < length ranges" "length ranges \<le> length entries"
    using plan(2) ok(3) pos div_ceil_pos_iff [OF capacity, of "length entries"] by simp_all
  have lims: "unat off + 600000 * length ranges \<le> 2 ^ 63" "unat pg + length ranges < 2 ^ 64"
    using off(2) pg m(1) by simp_all
  obtain roots file1 off1 pg1 where w: "write_level new_leaf write_leaf key page_type name entries ranges file off pg =
      Inr (roots, file1, off1, pg1)" "length roots = length ranges" "unat pg1 = unat pg + length ranges"
      "unat off \<le> unat off1" "unat off1 \<le> unat off + 600000 * length ranges" "kept_below (unat off) file file1"
      "map (\<lambda>r. unat (ref_block (pe_block r))) roots = [unat pg..<unat pg + length ranges]"
      "forest_ok tree_read key 0 file1 (unat off1) roots (map (subrange entries) ranges) (pe_block ` set roots)"
    using leaf_level_forest [OF ok(1) pos plan(1) off(1) lims, of name] by blast
  have ent: "concat (map (subrange entries) ranges) = entries" by (rule concat_subranges [OF plan(3)])
  have refs: "refs_unambiguous (pe_block ` set roots)" "\<forall>r\<in>pe_block ` set roots. unat (ref_block r) < unat pg1"
    using refs_extend [of "{}", OF _ _ w(7)] w(3) by (simp_all add: refs_unambiguous_def)
  have "\<exists>ref file' off' pg' H R'. write_upper_levels page_type name 1 roots file1 off1 pg1 = Inr (ref, file', off', pg') \<and>
    kept_below (unat off1) file1 file' \<and> unat off1 \<le> unat off' \<and> unat off' \<le> unat off1 + 1200000 * length roots \<and>
    unat pg' \<le> unat pg1 + 2 * length roots \<and> tree_kept tree_read key file' (unat off') ref H entries R' \<and> refs_unambiguous R'"
  proof (rule write_upper_levels_spec [OF w(8) ent sorted _ refs])
    show "length roots \<le> 20 ^ (9 - unat (1 :: u8))" using m w(2) by simp
    show "17408 \<le> unat off1" "unat off1 + 1200000 * length roots \<le> 2 ^ 63" "unat pg1 + 2 * length roots < 2 ^ 64"
      using w(2-5) off pg m by simp_all
  qed (use m w(2) in simp_all)
  then obtain ref file' off' pg' H R' where u: "write_upper_levels page_type name 1 roots file1 off1 pg1 = Inr (ref, file', off', pg')"
      "kept_below (unat off1) file1 file'" "unat off1 \<le> unat off'" "unat off' \<le> unat off1 + 1200000 * length roots"
      "unat pg' \<le> unat pg1 + 2 * length roots" "tree_kept tree_read key file' (unat off') ref H entries R'" "refs_unambiguous R'"
    by blast
  have "kept_below (unat off) file file'"
    using w(6) kept_below_mono [OF u(2) w(4)] by (rule kept_below_trans)
  moreover have "unat off \<le> unat off'" "unat off' \<le> unat off + 1800000 * length entries" "unat pg' \<le> unat pg + 3 * length entries"
    using w(2-5) u(3-5) m(3) by simp_all
  moreover have "write_btree new_leaf write_leaf key capacity page_type name file off pg entries = Inr (ref, file', off', pg')"
    using plan(1) m(2) w(1) u(1) by (auto simp: write_btree_def)
  ultimately show ?thesis using u(6,7) by blast
qed

lemma write_btree_search:
  assumes "list_all entry_ok entries" "entries \<noteq> []" "length entries \<le> 2 ^ 32"
    and "sorted_wrt (<) (map key entries)"
    and "17408 \<le> unat off" "unat off \<le> 2 ^ 62" "unat pg \<le> 2 ^ 63"
  shows "\<exists>ref file' off' pg' t H. write_btree new_leaf write_leaf key capacity page_type name file off pg entries =
      Inr (ref, file', off', pg') \<and> kept_below (unat off) file file' \<and> tree_read file' ref = Inr t \<and>
    (\<forall>k. \<exists>cache. root_btree_find_entry (Suc H) (tree_read file') id key t k (\<lambda>_. None) =
      Some (lookup_result key k entries, cache))"
proof -
  obtain ref file' off' pg' H R where w: "write_btree new_leaf write_leaf key capacity page_type name file off pg entries =
      Inr (ref, file', off', pg')" "kept_below (unat off) file file'" "tree_kept tree_read key file' (unat off') ref H entries R"
      "refs_unambiguous R"
    using write_btree_tree [OF assms] by blast
  obtain t where t: "tree_read file' ref = Inr t" "btree_ok (tree_read file') id key H t"
      "btree_entries (tree_read file') H t = entries" "set (btree_refs (tree_read file') H t) \<subseteq> R"
    using w(3) extents_kept_refl unfolding tree_kept_def by blast
  have "cache_agrees (tree_read file') R (\<lambda>_. None)" by (simp add: cache_agrees_def)
  then have "\<exists>cache. root_btree_find_entry (Suc H) (tree_read file') id key t k (\<lambda>_. None) =
      Some (lookup_result key k entries, cache)" for k
    using find_entry_correct [OF t(2) w(4) t(4), of "\<lambda>_. None" k] t(3) by auto
  then show ?thesis using w(1,2) t(1) by blast
qed

end

interpretation bbt: btree_writer "unicode_btree_page_write unicode_block_entry_write"
    "unicode_btree_page_read 24 unicode_block_entry_read block_page_new"
    "leaf_page_ok UNICODE_BTREE_ENTRIES_SIZE 24 BlockBTree (\<lambda>_. True)"
    "block_page_new 0 20 24" unicode_block_entry_key 20 BlockBTree "\<lambda>_. True"
  by unfold_locales (auto simp: block_page_new_def leaf_page_new_def leaf_page_ok_def btree_page_make_def
      btree_page_fits_def UNICODE_BTREE_ENTRIES_SIZE_def list_all_iff)

interpretation nbt: btree_writer "unicode_btree_page_write unicode_node_entry_write"
    "unicode_btree_page_read 32 unicode_node_entry_read node_page_new"
    "leaf_page_ok UNICODE_BTREE_ENTRIES_SIZE 32 NodeBTree unicode_node_entry_ok"
    "node_page_new 0 15 32" unicode_node_entry_key 15 NodeBTree unicode_node_entry_ok
  by unfold_locales (auto simp: node_page_new_def leaf_page_new_def leaf_page_ok_def btree_page_make_def
      btree_page_fits_def UNICODE_BTREE_ENTRIES_SIZE_def list_all_iff)

section \<open>Properties\<close>

text \<open>
  C13. The block B-tree the writer produces is one the reader searches correctly: for every
  non-empty list of blocks with ascending keys, \<open>write_bbt\<close> succeeds, keeps the file below its start,
  and a search of the written tree from its root reference finds for every key exactly what a
  search of the list of blocks finds.
\<close>

theorem write_bbt_search:
  assumes "blocks \<noteq> []" "length blocks \<le> 2 ^ 32"
    and "sorted_wrt (<) (map unicode_block_entry_key (map bbt_entry blocks))"
    and "17408 \<le> unat first_offset" "unat first_offset \<le> 2 ^ 62" "unat first_page_id \<le> 2 ^ 63"
  shows "\<exists>ref file' off' pg' t H. write_bbt file first_offset first_page_id blocks = Inr (ref, file', off', pg') \<and>
    kept_below (unat first_offset) file file' \<and> unicode_block_btree_read file' ref = Inr t \<and>
    (\<forall>k. \<exists>cache. root_btree_find_entry (Suc H) (unicode_block_btree_read file') id unicode_block_entry_key t k (\<lambda>_. None) =
      Some (lookup_result unicode_block_entry_key k (map bbt_entry blocks), cache))"
  unfolding write_bbt_def unicode_block_btree_read_def
  using assms by (intro bbt.write_btree_search) (simp_all add: list_all_iff)

definition sample_written :: "written_block list" where
  "sample_written = [
     \<lparr>wb_id = 4, wb_offset = 0x4800, wb_size = 10, wb_ref_count = 2\<rparr>,
     \<lparr>wb_id = 8, wb_offset = 0x4840, wb_size = 20, wb_ref_count = 3\<rparr>,
     \<lparr>wb_id = 14, wb_offset = 0x4880, wb_size = 30, wb_ref_count = 2\<rparr>]"

theorem write_bbt_search_witness:
  "\<exists>ref file' off' pg' t H cache. write_bbt [] 0x8000 1 sample_written = Inr (ref, file', off', pg') \<and>
    unicode_block_btree_read file' ref = Inr t \<and>
    root_btree_find_entry (Suc H) (unicode_block_btree_read file') id unicode_block_entry_key t 8 (\<lambda>_. None) =
      Some (Inr (bbt_entry (sample_written ! 1)), cache)"
proof -
  have s: "sorted_wrt (<) (map unicode_block_entry_key (map bbt_entry sample_written))" "sample_written \<noteq> []"
    "lookup_result unicode_block_entry_key 8 (map bbt_entry sample_written) = Inr (bbt_entry (sample_written ! 1))"
    by (simp_all add: sample_written_def unicode_block_entry_key_def bbt_entry_def
        unicode_block_entry_new_with_ref_count_def block_id_search_key_def lookup_result_def)
  have small: "length sample_written \<le> 2 ^ 32" by (simp add: sample_written_def)
  obtain ref file' off' pg' t H where w: "write_bbt [] 0x8000 1 sample_written = Inr (ref, file', off', pg')"
      "unicode_block_btree_read file' ref = Inr t"
      "\<forall>k. \<exists>cache. root_btree_find_entry (Suc H) (unicode_block_btree_read file') id unicode_block_entry_key t k (\<lambda>_. None) =
        Some (lookup_result unicode_block_entry_key k (map bbt_entry sample_written), cache)"
    using write_bbt_search [of sample_written "0x8000" 1 "[]"] s(1,2) small by (simp del: root_btree_find_entry.simps) blast
  then show ?thesis using s(3) by metis
qed

text \<open>
  C34. The node B-tree the writer produces, in the same way: with ascending node identifiers the
  search of the written tree is the search of the list of node entries.
\<close>

theorem write_nbt_search:
  assumes "entries \<noteq> []" "length entries \<le> 2 ^ 32" "list_all unicode_node_entry_ok entries"
    and "sorted_wrt (<) (map unicode_node_entry_key entries)"
    and "17408 \<le> unat first_offset" "unat first_offset \<le> 2 ^ 62" "unat first_page_id \<le> 2 ^ 63"
  shows "\<exists>ref file' off' pg' t H. write_nbt file first_offset first_page_id entries = Inr (ref, file', off', pg') \<and>
    kept_below (unat first_offset) file file' \<and> unicode_node_btree_read file' ref = Inr t \<and>
    (\<forall>k. \<exists>cache. root_btree_find_entry (Suc H) (unicode_node_btree_read file') id unicode_node_entry_key t k (\<lambda>_. None) =
      Some (lookup_result unicode_node_entry_key k entries, cache))"
  unfolding write_nbt_def unicode_node_btree_read_def
  using assms by (intro nbt.write_btree_search)

theorem write_nbt_search_witness:
  "\<exists>ref file' off' pg' t H cache. write_nbt [] 0x8000 1 [sample_entry] = Inr (ref, file', off', pg') \<and>
    unicode_node_btree_read file' ref = Inr t \<and>
    root_btree_find_entry (Suc H) (unicode_node_btree_read file') id unicode_node_entry_key t 0x21 (\<lambda>_. None) =
      Some (Inr sample_entry, cache)"
proof -
  have s: "unicode_node_entry_ok sample_entry" "lookup_result unicode_node_entry_key 0x21 [sample_entry] = Inr sample_entry"
    by (simp_all add: sample_entry_def unicode_node_entry_new_def unicode_node_entry_ok_def unicode_node_entry_key_def lookup_result_def)
  obtain ref file' off' pg' t H where w: "write_nbt [] 0x8000 1 [sample_entry] = Inr (ref, file', off', pg')"
      "unicode_node_btree_read file' ref = Inr t"
      "\<forall>k. \<exists>cache. root_btree_find_entry (Suc H) (unicode_node_btree_read file') id unicode_node_entry_key t k (\<lambda>_. None) =
        Some (lookup_result unicode_node_entry_key k [sample_entry], cache)"
    using write_nbt_search [of "[sample_entry]" "0x8000" 1 "[]"] s(1) by (simp del: root_btree_find_entry.simps) blast
  then show ?thesis using s(2) by metis
qed

end
