(* ===== verification/Writer_Block.thy ===== *)
theory Writer_Block
  imports Writer_BTree Ndb_SubNode
begin

text \<open>
  The blocks of the writer, from \<open>writer.rs\<close>: block specifications with their payloads, the
  constructor of block identifiers, and \<open>write_blocks\<close>, which places every block in an extent of
  its own, seals it and writes it. The central lemma says that every block is read back, by the
  reader of data trees or of sub-node trees, from the written file and from every later file that
  keeps the allocated space.
\<close>

section \<open>Block specifications\<close>

datatype block_payload =
    PayloadData bytes
  | ProjectedData nat
  | PayloadSubnode "u64 subnode_leaf_entry list"
  | IntermediateSubnode u8 "u64 subnode_entry list"
  | PayloadDataTree u8 u32 "u64 list"

record block_spec =
  sp_id :: u64
  sp_payload :: block_payload
  sp_ref_count :: u16

definition saturate :: "nat \<Rightarrow> nat" where
  "saturate n = min n usize_max"

fun logical_size :: "block_payload \<Rightarrow> nat" where
  "logical_size (PayloadData data) = length data"
| "logical_size (ProjectedData sz) = sz"
| "logical_size (PayloadSubnode entries) = saturate (8 + saturate (length entries * 24))"
| "logical_size (IntermediateSubnode level entries) = saturate (8 + saturate (length entries * 16))"
| "logical_size (PayloadDataTree level total_size entries) = saturate (8 + saturate (length entries * 8))"

fun message_size_contribution :: "block_payload \<Rightarrow> nat" where
  "message_size_contribution (PayloadData data) = length data"
| "message_size_contribution (ProjectedData sz) = sz"
| "message_size_contribution _ = 0"

section \<open>Block identifiers\<close>

definition leaf_bid :: "u64 \<Rightarrow> writer_error + u64" where
  "leaf_bid index = of_ndb (unicode_block_id_new False index)"

definition internal_bid :: "u64 \<Rightarrow> writer_error + u64" where
  "internal_bid index = of_ndb (unicode_block_id_new True index)"

text \<open>The identifier comes with the next index.\<close>

definition take_block_id :: "u64 \<Rightarrow> bool \<Rightarrow> writer_error + u64 \<times> u64" where
  "take_block_id next_index internal =
    (case checked_add_w next_index 1 of None \<Rightarrow> Inl (ValueTooLarge ''block id'')
     | Some next' \<Rightarrow>
       (case (if internal then internal_bid next_index else leaf_bid next_index) of Inl e \<Rightarrow> Inl e
        | Inr block_id \<Rightarrow> Inr (block_id, next')))"

section \<open>Writing\<close>

definition check_interrupted :: "bool \<Rightarrow> writer_error + unit" where
  "check_interrupted interrupted = (if interrupted then Inl Interrupted else Inr ())"

text \<open>The size of a block and its extent, with the new cursor.\<close>

definition block_extent :: "block_payload \<Rightarrow> u64 \<Rightarrow> writer_error + u16 \<times> u64 \<times> u64" where
  "block_extent payload cursor =
    (if \<not> logical_size payload < 2 ^ 16 then Inl (ValueTooLarge ''data block'')
     else let sz = word_of_nat (logical_size payload) in
     (case of_io (block_size (min (unat sz + 16) (2 ^ 16 - 1))) of Inl e \<Rightarrow> Inl e
      | Inr physical_size \<Rightarrow>
        (case allocate_extent cursor (word_of_nat physical_size) SLOT_SIZE of Inl e \<Rightarrow> Inl e
         | Inr (cursor', offset) \<Rightarrow> Inr (sz, cursor', offset))))"

fun write_payload :: "bytes \<Rightarrow> u64 \<Rightarrow> u64 block_trailer \<Rightarrow> block_payload \<Rightarrow> writer_error + bytes" where
  "write_payload file offset trailer (PayloadSubnode entries) =
    (if \<not> length entries < 2 ^ 16 then Inl (ValueTooLarge ''subnode entry count'')
     else case of_ndb (subnode_block_new unicode_format
         \<lparr>sh_level = 0, sh_entry_count = word_of_nat (length entries)\<rparr> entries trailer) of Inl e \<Rightarrow> Inl e
     | Inr block \<Rightarrow> of_io (subnode_tree_write unicode_format unicode_subnode_format (SubLeaf block) file
         \<lparr>ref_block = bt_block_id trailer, ref_index = offset\<rparr>))"
| "write_payload file offset trailer (PayloadDataTree level total_size entries) =
    (if \<not> length entries < 2 ^ 16 then Inl (ValueTooLarge ''data-tree entry count'')
     else case of_ndb (data_tree_block_new unicode_format
         \<lparr>dh_level = level, dh_entry_count = word_of_nat (length entries), dh_total_size = total_size\<rparr>
         entries trailer) of Inl e \<Rightarrow> Inl e
     | Inr block \<Rightarrow> of_io (data_tree_block_write unicode_format block file (unat offset)))"
| "write_payload file offset trailer (PayloadData data) =
    (case of_ndb (data_block_new Permute data trailer) of Inl e \<Rightarrow> Inl e
     | Inr block \<Rightarrow> of_io (data_block_write unicode_format block file (unat offset)))"
| "write_payload file offset trailer (ProjectedData sz) =
    Inl (InvalidStructure (Literal ''projected data block reached physical output''))"
| "write_payload file offset trailer (IntermediateSubnode level entries) =
    (if \<not> length entries < 2 ^ 16 then Inl (ValueTooLarge ''subnode entry count'')
     else case of_ndb (subnode_block_new unicode_format
         \<lparr>sh_level = level, sh_entry_count = word_of_nat (length entries)\<rparr> entries trailer) of Inl e \<Rightarrow> Inl e
     | Inr block \<Rightarrow> of_io (subnode_tree_write unicode_format unicode_subnode_format (SubIntermediate block) file
         \<lparr>ref_block = bt_block_id trailer, ref_index = offset\<rparr>))"

definition write_block :: "bytes \<Rightarrow> block_spec \<Rightarrow> u64 \<Rightarrow> writer_error + written_block \<times> bytes \<times> u64" where
  "write_block file block cursor =
    (case sp_payload block of
       ProjectedData _ \<Rightarrow> Inl (InvalidStructure (Literal ''projected data block reached physical output''))
     | payload \<Rightarrow>
       (case block_extent payload cursor of Inl e \<Rightarrow> Inl e
        | Inr (sz, cursor', offset) \<Rightarrow>
          (case of_ndb (block_trailer_new 16 sz (compute_sig (ucast offset) (ucast (sp_id block))) 0 (sp_id block)) of
             Inl e \<Rightarrow> Inl e
           | Inr trailer \<Rightarrow>
             (case write_payload file offset trailer payload of Inl e \<Rightarrow> Inl e
              | Inr file' \<Rightarrow> Inr (\<lparr>wb_id = sp_id block, wb_offset = offset, wb_size = sz,
                  wb_ref_count = sp_ref_count block\<rparr>, file', cursor')))))"

text \<open>
  The flag is read before every block; \<open>interrupted i\<close> is its value at the \<open>i\<close>-th of these reads.
\<close>

fun write_blocks ::
  "(nat \<Rightarrow> bool) \<Rightarrow> bytes \<Rightarrow> block_spec list \<Rightarrow> u64 \<Rightarrow> writer_error + written_block list \<times> bytes \<times> u64" where
  "write_blocks interrupted file [] cursor = Inr ([], file, cursor)"
| "write_blocks interrupted file (block # blocks) cursor =
    (case check_interrupted (interrupted 0) of Inl e \<Rightarrow> Inl e | Inr _ \<Rightarrow>
    (case write_block file block cursor of Inl e \<Rightarrow> Inl e
     | Inr (w, file, cursor) \<Rightarrow>
       (case write_blocks (interrupted \<circ> Suc) file blocks cursor of Inl e \<Rightarrow> Inl e
        | Inr (written, file, cursor) \<Rightarrow> Inr (w # written, file, cursor))))"

text \<open>The end of the file that the writer projects before it writes the last blocks.\<close>

fun project_blocks :: "u64 \<Rightarrow> block_spec list \<Rightarrow> writer_error + u64" where
  "project_blocks cursor [] = Inr cursor"
| "project_blocks cursor (block # blocks) =
    (case block_extent (sp_payload block) cursor of Inl e \<Rightarrow> Inl e
     | Inr (_, cursor, _) \<Rightarrow> project_blocks cursor blocks)"

fun project_pages :: "nat \<Rightarrow> u64 \<Rightarrow> writer_error + u64" where
  "project_pages 0 cursor = Inr cursor"
| "project_pages (Suc n) cursor =
    (case allocate_extent cursor WRITER_PAGE_SIZE WRITER_PAGE_SIZE of Inl e \<Rightarrow> Inl e
     | Inr (cursor, _) \<Rightarrow> project_pages n cursor)"

definition projected_finalized_file_eof ::
  "u64 \<Rightarrow> nat \<Rightarrow> block_spec list \<Rightarrow> nat \<Rightarrow> writer_error + u64" where
  "projected_finalized_file_eof allocation_cursor written_block_count final_blocks node_count =
    (case project_blocks allocation_cursor final_blocks of Inl e \<Rightarrow> Inl e | Inr cursor \<Rightarrow>
    (let cursor = align_up cursor WRITER_PAGE_SIZE in
    (case checked_add_usize written_block_count (length final_blocks) of
       None \<Rightarrow> Inl (ValueTooLarge ''BBT entry count'')
     | Some block_count \<Rightarrow>
    (case btree_page_count block_count 20 20 of Inl e \<Rightarrow> Inl e | Inr bbt_pages \<Rightarrow>
    (case project_pages bbt_pages cursor of Inl e \<Rightarrow> Inl e | Inr cursor \<Rightarrow>
    (case btree_page_count node_count 15 20 of Inl e \<Rightarrow> Inl e | Inr nbt_pages \<Rightarrow>
    (case project_pages nbt_pages cursor of Inl e \<Rightarrow> Inl e
     | Inr cursor \<Rightarrow> allocation_file_eof cursor)))))))"

section \<open>What is stored\<close>

definition written_ref :: "written_block \<Rightarrow> (u64, u64) block_ref" where
  "written_ref w = \<lparr>ref_block = wb_id w, ref_index = wb_offset w\<rparr>"

fun payload_stored :: "bytes \<Rightarrow> written_block \<Rightarrow> block_payload \<Rightarrow> bool" where
  "payload_stored f w (PayloadData data) \<longleftrightarrow>
    (\<exists>b. data_tree_read unicode_format f Permute (written_ref w) (wb_size w) = Inr (DataLeaf b) \<and> db_data b = data)"
| "payload_stored f w (PayloadDataTree level total_size entries) \<longleftrightarrow>
    (\<exists>b. data_tree_read unicode_format f Permute (written_ref w) (wb_size w) = Inr (DataIntermediate b) \<and>
      dh_level (dt_header b) = level \<and> dh_total_size (dt_header b) = total_size \<and> dt_entries b = entries)"
| "payload_stored f w (PayloadSubnode entries) \<longleftrightarrow>
    (\<exists>b. subnode_tree_read unicode_format unicode_subnode_format f (written_ref w) (wb_size w) = Inr (SubLeaf b) \<and>
      sb_entries b = entries)"
| "payload_stored f w (IntermediateSubnode level entries) \<longleftrightarrow>
    (\<exists>b. subnode_tree_read unicode_format unicode_subnode_format f (written_ref w) (wb_size w) = Inr (SubIntermediate b) \<and>
      sb_entries b = entries)"
| "payload_stored f w (ProjectedData sz) \<longleftrightarrow> False"

text \<open>
  A written block: it has the identifier and reference count of its specification, lies in an
  extent between \<open>lo\<close> and \<open>hi\<close> and holds the payload, also in later files.
\<close>

definition block_at :: "bytes \<Rightarrow> nat \<Rightarrow> nat \<Rightarrow> block_spec \<Rightarrow> written_block \<Rightarrow> bool" where
  "block_at file lo hi b w \<longleftrightarrow> wb_id w = sp_id b \<and> wb_ref_count w = sp_ref_count b \<and>
    unat (wb_size w) = logical_size (sp_payload b) \<and> payload_stored file w (sp_payload b) \<and>
    (let n = div_ceil (unat (wb_size w) + 16) 64 * 64 in
     extent_placed (unat (wb_offset w)) n \<and> lo \<le> unat (wb_offset w) \<and> unat (wb_offset w) + n \<le> hi)"

text \<open>A payload that fits its block and its kind of identifier.\<close>

fun payload_ok :: "u64 \<Rightarrow> block_payload \<Rightarrow> bool" where
  "payload_ok bid (PayloadData data) \<longleftrightarrow> 1 \<le> length data \<and> length data \<le> 8176 \<and> \<not> block_id_is_internal bid"
| "payload_ok bid (PayloadDataTree level total_size entries) \<longleftrightarrow>
    (level = 1 \<or> level = 2) \<and> length entries \<le> 1021 \<and>
    (\<forall>e\<in>set entries. block_id_is_internal e \<longleftrightarrow> level = 2) \<and> block_id_is_internal bid"
| "payload_ok bid (PayloadSubnode entries) \<longleftrightarrow>
    length entries \<le> 340 \<and> (\<forall>e\<in>set entries. subnode_leaf_ok e) \<and> block_id_is_internal bid"
| "payload_ok bid (IntermediateSubnode level entries) \<longleftrightarrow>
    0 < level \<and> length entries \<le> 510 \<and> block_id_is_internal bid"
| "payload_ok bid (ProjectedData sz) \<longleftrightarrow> False"

section \<open>Stored blocks survive later writes\<close>

lemma read_at_kept:
  "read_at file pos n = Inr d \<Longrightarrow> extents_kept b file f \<Longrightarrow> extent_placed pos n \<Longrightarrow> pos + n \<le> b \<Longrightarrow>
    read_at f pos n = Inr d"
  by (auto simp: read_at_Inr extents_kept_def)

lemma data_tree_read_kept:
  assumes "data_tree_read F file encoding block sz = Inr t" "extents_kept b file f"
    and "extent_placed (unat (ref_index block)) (div_ceil (unat sz + pf_trailer_size F) 64 * 64)"
    and "unat (ref_index block) + div_ceil (unat sz + pf_trailer_size F) 64 * 64 \<le> b"
  shows "data_tree_read F f encoding block sz = Inr t"
proof -
  obtain ext where ext: "read_at file (unat (ref_index block)) (div_ceil (unat sz + pf_trailer_size F) 64 * 64) = Inr ext"
    using assms(1) by (auto simp: data_tree_read_def block_size_def Let_def split: if_splits sum.splits)
  from read_at_kept [OF this assms(2-4)] show ?thesis
    using assms(1) ext by (auto simp: data_tree_read_def block_size_def Let_def split: if_splits)
qed

lemma subnode_tree_read_kept:
  assumes "subnode_tree_read F N file block sz = Inr t" "extents_kept b file f"
    and "extent_placed (unat (ref_index block)) (div_ceil (unat sz + pf_trailer_size F) 64 * 64)"
    and "unat (ref_index block) + div_ceil (unat sz + pf_trailer_size F) 64 * 64 \<le> b"
  shows "subnode_tree_read F N f block sz = Inr t"
proof -
  obtain ext where ext: "read_at file (unat (ref_index block)) (div_ceil (unat sz + pf_trailer_size F) 64 * 64) = Inr ext"
    using assms(1) by (auto simp: subnode_tree_read_def block_size_def Let_def split: if_splits sum.splits)
  from read_at_kept [OF this assms(2-4)] show ?thesis
    using assms(1) ext by (auto simp: subnode_tree_read_def block_size_def Let_def split: if_splits)
qed

lemma payload_stored_kept:
  assumes "payload_stored file w p" "extents_kept b file f"
    and "extent_placed (unat (wb_offset w)) (div_ceil (unat (wb_size w) + 16) 64 * 64)"
    and "unat (wb_offset w) + div_ceil (unat (wb_size w) + 16) 64 * 64 \<le> b"
  shows "payload_stored f w p"
proof -
  have b: "extent_placed (unat (ref_index (written_ref w))) (div_ceil (unat (wb_size w) + pf_trailer_size unicode_format) 64 * 64)"
    "unat (ref_index (written_ref w)) + div_ceil (unat (wb_size w) + pf_trailer_size unicode_format) 64 * 64 \<le> b"
    using assms(3,4) by (simp_all add: written_ref_def unicode_format_def)
  show ?thesis
    using assms(1) data_tree_read_kept [OF _ assms(2) b] subnode_tree_read_kept [OF _ assms(2) b]
    by (cases p) auto
qed

lemma block_at_kept:
  assumes "block_at file lo hi b w" "extents_kept hi file f" "lo' \<le> lo" "hi \<le> hi'"
  shows "block_at f lo' hi' b w"
  using assms payload_stored_kept [of "file" w "sp_payload b" hi f] by (auto simp: block_at_def Let_def)

lemma blocks_at_kept:
  assumes "list_all2 (block_at file lo hi) bs ws" "extents_kept hi file f" "lo' \<le> lo" "hi \<le> hi'"
  shows "list_all2 (block_at f lo' hi') bs ws"
  using assms(1) by (rule list_all2_mono) (rule block_at_kept [OF _ assms(2-4)])

lemma data_block_write_kept: "data_block_write F b file pos = Inr f \<Longrightarrow> kept_below pos file f"
  by (auto simp: data_block_write_def Let_def intro!: kept_below_write split: sum.splits)

lemma tree_block_write_kept: "tree_block_write F data tr file pos = Inr f \<Longrightarrow> kept_below pos file f"
  by (auto simp: tree_block_write_def Let_def intro!: kept_below_write split: sum.splits)

lemma data_tree_write_kept: "data_tree_write F t file block = Inr f \<Longrightarrow> kept_below (unat (ref_index block)) file f"
  by (auto simp: data_tree_write_def data_tree_block_write_def split: data_tree.splits
      dest: data_block_write_kept tree_block_write_kept)

lemma subnode_tree_write_kept: "subnode_tree_write F N t file block = Inr f \<Longrightarrow> kept_below (unat (ref_index block)) file f"
  by (auto simp: subnode_tree_write_def split: subnode_tree.splits dest: tree_block_write_kept)

section \<open>One block\<close>

lemma of_io_Inr [simp]: "of_io (Inr x) = Inr x"
  by (simp add: of_io_def)

lemma of_ndb_Inr [simp]: "of_ndb (Inr x) = Inr x"
  by (simp add: of_ndb_def)

lemma logical_size_ok:
  assumes "payload_ok bid p"
  shows "1 \<le> logical_size p" "logical_size p \<le> 8176" "unat (word_of_nat (logical_size p) :: u16) = logical_size p"
proof -
  show "1 \<le> logical_size p" "logical_size p \<le> 8176"
    using assms by (cases p; simp add: saturate_def usize_max_def)+
  then show "unat (word_of_nat (logical_size p) :: u16) = logical_size p" by (simp add: unat_of_nat)
qed

lemma unat_entry_count: "length es \<le> 1021 \<Longrightarrow> unat (word_of_nat (length es) :: u16) = length es"
  by (simp add: unat_of_nat)

lemma data_payload_written:
  assumes ok: "data_tree_ok unicode_format Permute t"
    and w: "wb_offset w = offset" "wb_size w = word_of_nat (length (stored_bytes unicode_format t))"
      "block_id_is_internal (wb_id w) = block_id_is_internal (tree_block_id t)"
  shows "\<exists>file'. data_tree_write unicode_format t file \<lparr>ref_block = bid, ref_index = offset\<rparr> = Inr file' \<and>
    kept_below (unat offset) file file' \<and>
    data_tree_read unicode_format file' Permute (written_ref w) (wb_size w) = Inr (sealed unicode_format t)"
proof -
  have "data_tree_write unicode_format t file \<lparr>ref_block = bid, ref_index = offset\<rparr> =
      data_tree_write unicode_format t file (written_ref w)"
    using w(1) by (simp add: data_tree_write_def written_ref_def split: data_tree.split)
  then show ?thesis
    using ublock.data_tree_write_read [OF ok, of "written_ref w" "file"] w
      data_tree_write_kept [of unicode_format t "file" "written_ref w"]
    by (auto simp: written_ref_def)
qed

lemma subnode_payload_written:
  assumes ok: "subnode_tree_ok unicode_format unicode_subnode_format t"
    and w: "wb_offset w = offset" "wb_size w = word_of_nat (length (subnode_stored unicode_subnode_format t))"
  shows "\<exists>file'. subnode_tree_write unicode_format unicode_subnode_format t file \<lparr>ref_block = bid, ref_index = offset\<rparr> = Inr file' \<and>
    kept_below (unat offset) file file' \<and>
    subnode_tree_read unicode_format unicode_subnode_format file' (written_ref w) (wb_size w) =
      Inr (subnode_sealed unicode_subnode_format t)"
proof -
  have "subnode_tree_write unicode_format unicode_subnode_format t file \<lparr>ref_block = bid, ref_index = offset\<rparr> =
      subnode_tree_write unicode_format unicode_subnode_format t file (written_ref w)"
    using w(1) by (simp add: subnode_tree_write_def written_ref_def split: subnode_tree.split)
  then show ?thesis
    using usub.subnode_tree_write_read [OF ok, of "file" "written_ref w"] w
      subnode_tree_write_kept [of unicode_format unicode_subnode_format t "file" "written_ref w"]
    by (auto simp: written_ref_def)
qed

lemma write_payload_stored:
  assumes ok: "payload_ok bid p" and tr: "bt_block_id tr = bid" "bt_size tr = word_of_nat (logical_size p)"
    and w: "wb_id w = bid" "wb_offset w = offset" "wb_size w = word_of_nat (logical_size p)"
  shows "\<exists>file'. write_payload file offset tr p = Inr file' \<and> kept_below (unat offset) file file' \<and> payload_stored file' w p"
proof (cases p)
  case (PayloadData data)
  define t where "t = DataLeaf \<lparr>db_encoding = Permute, db_data = data, db_trailer = tr\<rparr>"
  have "data_tree_ok unicode_format Permute t" "length (stored_bytes unicode_format t) = length data" "tree_block_id t = bid"
    using ok PayloadData tr(1) by (simp_all add: t_def data_tree_ok_def stored_bytes_def tree_block_id_def
        MAX_BLOCK_SIZE_def unicode_format_def)
  from data_payload_written [OF this(1), of w offset "file" bid] this(2,3) show ?thesis
    using PayloadData w by (auto simp: t_def data_tree_write_def data_block_new_def sealed_def)
next
  case (PayloadDataTree level total es)
  define b where "b = \<lparr>dt_header = \<lparr>dh_level = level, dh_entry_count = word_of_nat (length es), dh_total_size = total\<rparr>,
      dt_entries = es, dt_trailer = tr\<rparr>"
  have n: "unat (word_of_nat (length es) :: u16) = length es"
    using ok PayloadDataTree by (intro unat_entry_count) simp
  have lev: "1 \<le> level" "level \<le> 2" using ok PayloadDataTree by auto
  have k: "\<forall>e\<in>set es. block_id_is_internal e \<longleftrightarrow> level = 2" using ok PayloadDataTree by simp
  have t: "data_tree_ok unicode_format Permute (DataIntermediate b)" "tree_block_id (DataIntermediate b) = bid"
    using ok PayloadDataTree tr(1) n lev
    by (simp_all add: b_def data_tree_ok_def tree_block_id_def MAX_BLOCK_SIZE_def unicode_format_def)
  have len: "length (stored_bytes unicode_format (DataIntermediate b)) = 8 + length es * 8"
    using theader.length_enc ublock.ident.length_concat_enc [of es]
    by (simp add: b_def stored_bytes_def unicode_format_def)
  have sz: "logical_size p = 8 + length es * 8"
    using ok PayloadDataTree by (simp add: saturate_def usize_max_def)
  have "unat (bt_size tr) = 8 + length es * 8" using logical_size_ok(3) [OF ok] tr(2) sz by simp
  then have "data_tree_block_new unicode_format (dt_header b) es tr = Inr b"
    using lev k n ok PayloadDataTree tr(1)
    by (simp add: data_tree_block_new_def validate_kinds_ok data_tree_block_inner_new_def b_def
        block_trailer_verify_block_id_def unicode_format_def Let_def)
  then show ?thesis
    using data_payload_written [OF t(1), of w offset "file" bid] t(2) len sz w PayloadDataTree ok
    by (auto simp: data_tree_write_def sealed_def b_def)
next
  case (PayloadSubnode es)
  define b where "b = \<lparr>sb_header = \<lparr>sh_level = 0, sh_entry_count = word_of_nat (length es)\<rparr>, sb_entries = es, sb_trailer = tr\<rparr>"
  have n: "unat (word_of_nat (length es) :: u16) = length es"
    using ok PayloadSubnode by (intro unat_entry_count) simp
  have t: "subnode_tree_ok unicode_format unicode_subnode_format (SubLeaf b)"
    using ok PayloadSubnode tr(1) n
    by (simp add: b_def subnode_tree_ok_def MAX_BLOCK_SIZE_def unicode_format_def unicode_subnode_format_def)
  have len: "length (subnode_stored unicode_subnode_format (SubLeaf b)) = 8 + length es * 24"
    using usub.header.length_enc usub.leaf.length_concat_enc [of es] ok PayloadSubnode
    by (simp add: b_def subnode_stored_def unicode_subnode_format_def)
  have sz: "logical_size p = 8 + length es * 24"
    using ok PayloadSubnode by (simp add: saturate_def usize_max_def)
  have "subnode_block_new unicode_format (sb_header b) es tr = Inr b"
    using ok PayloadSubnode tr(1) by (simp add: subnode_block_new_def b_def block_trailer_verify_block_id_def)
  then show ?thesis
    using subnode_payload_written [OF t, of w offset "file" bid] len sz w PayloadSubnode ok tr(1)
    by (auto simp: subnode_sealed_def b_def)
next
  case (IntermediateSubnode level es)
  define b where "b = \<lparr>sb_header = \<lparr>sh_level = level, sh_entry_count = word_of_nat (length es)\<rparr>, sb_entries = es, sb_trailer = tr\<rparr>"
  have n: "unat (word_of_nat (length es) :: u16) = length es"
    using ok IntermediateSubnode by (intro unat_entry_count) simp
  have t: "subnode_tree_ok unicode_format unicode_subnode_format (SubIntermediate b)"
    using ok IntermediateSubnode tr(1) n
    by (simp add: b_def subnode_tree_ok_def MAX_BLOCK_SIZE_def unicode_format_def unicode_subnode_format_def)
  have len: "length (subnode_stored unicode_subnode_format (SubIntermediate b)) = 8 + length es * 16"
    using usub.header.length_enc usub.entry.length_concat_enc [of es]
    by (simp add: b_def subnode_stored_def unicode_subnode_format_def)
  have sz: "logical_size p = 8 + length es * 16"
    using ok IntermediateSubnode by (simp add: saturate_def usize_max_def)
  have "subnode_block_new unicode_format (sb_header b) es tr = Inr b"
    using ok IntermediateSubnode tr(1) by (simp add: subnode_block_new_def b_def block_trailer_verify_block_id_def)
  then show ?thesis
    using subnode_payload_written [OF t, of w offset "file" bid] len sz w IntermediateSubnode ok tr(1)
    by (auto simp: subnode_sealed_def b_def)
next
  case (ProjectedData n)
  then show ?thesis using ok by simp
qed

text \<open>The extent of a block, and the block in it.\<close>

lemma block_extent_ok:
  assumes "payload_ok bid p" "17408 \<le> unat cursor" "unat cursor + 1000000 \<le> 2 ^ 64"
  shows "\<exists>offset cursor'. block_extent p cursor = Inr (word_of_nat (logical_size p), cursor', offset) \<and>
    unat cursor \<le> unat offset \<and> unat cursor' = unat offset + div_ceil (logical_size p + 16) 64 * 64 \<and>
    unat cursor' \<le> unat cursor + 600000 \<and> extent_placed (unat offset) (div_ceil (logical_size p + 16) 64 * 64)"
proof -
  define n where "n = div_ceil (logical_size p + 16) 64 * 64"
  note l = logical_size_ok [OF assms(1)]
  have n: "n \<le> 8192" using div_ceil_mult_lt [of 64 "logical_size p + 16"] l(2) less_div_ceil [of 64 128 "logical_size p + 16"]
    unfolding n_def by (simp add: not_less [symmetric])
  have bs: "block_size (min (unat (word_of_nat (logical_size p) :: u16) + 16) (2 ^ 16 - 1)) = Inr n"
    using l by (simp add: block_size_def MAX_BLOCK_SIZE_def n_def)
  have u: "unat (word_of_nat n :: u64) = n" using n by (simp add: unat_of_nat)
  have sl: "1 < unat SLOT_SIZE" "unat SLOT_SIZE dvd 512" by (simp_all add: SLOT_SIZE_def)
  have "unat (word_of_nat n :: u64) \<le> 253952 - 2048" using n u by simp
  from allocate_extent_placed [OF sl assms(2,3) this] obtain start "end" where
    a: "allocate_extent cursor (word_of_nat n) SLOT_SIZE = Inr (end, start)" "unat cursor \<le> unat start"
      "unat end = unat start + n" "unat end \<le> unat cursor + 600000" "extent_placed (unat start) n"
    unfolding u by blast
  have "logical_size p < 2 ^ 16" using l(2) by simp
  then have "block_extent p cursor = Inr (word_of_nat (logical_size p), end, start)"
    unfolding block_extent_def Let_def bs by (simp add: a(1))
  then show ?thesis using a(2-5) by (simp add: n_def)
qed

lemma write_block_stored:
  assumes "payload_ok (sp_id block) (sp_payload block)" "17408 \<le> unat cursor" "unat cursor + 1000000 \<le> 2 ^ 64"
  shows "\<exists>w file' cursor'. write_block file block cursor = Inr (w, file', cursor') \<and>
    unat cursor \<le> unat cursor' \<and> unat cursor' \<le> unat cursor + 600000 \<and> kept_below (unat cursor) file file' \<and>
    block_at file' (unat cursor) (unat cursor') block w"
proof -
  define p where "p = sp_payload block"
  define bid where "bid = sp_id block"
  define sz where "sz = (word_of_nat (logical_size p) :: u16)"
  have ok: "payload_ok bid p" using assms(1) by (simp add: p_def bid_def)
  note l = logical_size_ok [OF ok, folded sz_def]
  obtain offset cursor' where e: "block_extent p cursor = Inr (sz, cursor', offset)"
      "unat cursor \<le> unat offset" "unat cursor' = unat offset + div_ceil (logical_size p + 16) 64 * 64"
      "unat cursor' \<le> unat cursor + 600000" "extent_placed (unat offset) (div_ceil (logical_size p + 16) 64 * 64)"
    using block_extent_ok [OF ok assms(2,3)] by (auto simp: sz_def)
  define tr where "tr = \<lparr>bt_size = sz, bt_signature = compute_sig (ucast offset) (ucast bid), bt_crc = 0, bt_block_id = bid\<rparr>"
  define w where "w = \<lparr>wb_id = bid, wb_offset = offset, wb_size = sz, wb_ref_count = sp_ref_count block\<rparr>"
  have tr: "block_trailer_new 16 sz (compute_sig (ucast offset) (ucast bid)) 0 bid = Inr tr"
    using l by (simp add: block_trailer_new_def MAX_BLOCK_SIZE_def tr_def)
  obtain file' where f: "write_payload file offset tr p = Inr file'" "kept_below (unat offset) file file'" "payload_stored file' w p"
    using write_payload_stored [OF ok, of tr w offset "file"] by (auto simp: tr_def w_def sz_def)
  have "write_block file block cursor = Inr (w, file', cursor')"
    using e(1) tr f(1) ok unfolding write_block_def p_def [symmetric] bid_def [symmetric]
    by (cases p) (simp_all add: w_def)
  moreover have "kept_below (unat cursor) file file'" using kept_below_mono [OF f(2) e(2)] .
  moreover have "unat cursor \<le> unat cursor'" using e(2,3) by simp
  moreover have "block_at file' (unat cursor) (unat cursor') block w"
    using f(3) e(2,3,5) l(3) by (simp add: block_at_def w_def p_def bid_def)
  ultimately show ?thesis using e(4) by blast
qed

section \<open>All blocks\<close>

lemma write_blocks_stored:
  assumes "list_all (\<lambda>b. payload_ok (sp_id b) (sp_payload b)) blocks" "\<forall>i<length blocks. \<not> interrupted i"
    and "17408 \<le> unat cursor" "unat cursor + 600000 * length blocks + 1000000 \<le> 2 ^ 64"
  shows "\<exists>written file' cursor'. write_blocks interrupted file blocks cursor = Inr (written, file', cursor') \<and>
    unat cursor \<le> unat cursor' \<and> unat cursor' \<le> unat cursor + 600000 * length blocks \<and>
    kept_below (unat cursor) file file' \<and> list_all2 (block_at file' (unat cursor) (unat cursor')) blocks written"
  using assms
proof (induction blocks arbitrary: interrupted "file" cursor)
  case Nil
  then show ?case by simp
next
  case (Cons b bs)
  have "payload_ok (sp_id b) (sp_payload b)" "unat cursor + 1000000 \<le> 2 ^ 64" using Cons.prems by simp_all
  from write_block_stored [OF this(1) Cons.prems(3) this(2), of "file"] obtain w file1 c1 where
    w: "write_block file b cursor = Inr (w, file1, c1)" "unat cursor \<le> unat c1" "unat c1 \<le> unat cursor + 600000"
      "kept_below (unat cursor) file file1" "block_at file1 (unat cursor) (unat c1) b w"
    by blast
  have "\<forall>i<length bs. \<not> (interrupted \<circ> Suc) i" using Cons.prems(2) by simp
  moreover have "list_all (\<lambda>b. payload_ok (sp_id b) (sp_payload b)) bs" "17408 \<le> unat c1"
    "unat c1 + 600000 * length bs + 1000000 \<le> 2 ^ 64"
    using Cons.prems w(2,3) by simp_all
  ultimately obtain ws file2 c2 where r: "write_blocks (interrupted \<circ> Suc) file1 bs c1 = Inr (ws, file2, c2)"
      "unat c1 \<le> unat c2" "unat c2 \<le> unat c1 + 600000 * length bs" "kept_below (unat c1) file1 file2"
      "list_all2 (block_at file2 (unat c1) (unat c2)) bs ws"
    using Cons.IH [of "interrupted \<circ> Suc" c1 file1] by blast
  have "write_blocks interrupted file (b # bs) cursor = Inr (w # ws, file2, c2)"
    using Cons.prems(2) w(1) r(1) by (simp add: check_interrupted_def)
  moreover have "block_at file2 (unat cursor) (unat c2) b w"
    using block_at_kept [OF w(5) kept_below_extents [OF r(4)] order_refl r(2)] .
  moreover have "list_all2 (block_at file2 (unat cursor) (unat c2)) bs ws"
    using blocks_at_kept [OF r(5) extents_kept_refl w(2) order_refl] .
  moreover have "kept_below (unat cursor) file file2"
    using kept_below_trans [OF w(4) kept_below_mono [OF r(4) w(2)]] .
  moreover have "unat cursor \<le> unat c2" "unat c2 \<le> unat cursor + 600000 * length (b # bs)"
    using w(2,3) r(2,3) by simp_all
  ultimately show ?case
    by (intro exI [of _ "w # ws"] exI [of _ file2] exI [of _ c2] conjI) simp_all
qed

end
