(* ===== verification/Writer_Store.thy ===== *)
theory Writer_Store
  imports Writer_Block Ndb_Header
begin

text \<open>
  The end of \<open>writer.rs\<close>: the projection of the final file size, the node identifier counters, the
  header, and the finalisation that writes the last blocks, both B-trees, the allocation pages and
  the header. The projection is shown to be exact, and the finished file to be one whose header,
  B-trees, allocation maps and blocks the reader finds.
\<close>

section \<open>Node identifier counters\<close>

definition INITIAL_NID_COUNTERS :: "u32 list" where
  "INITIAL_NID_COUNTERS = [0x400, 0x400, 0x400, 0x4000, 0x10000, 0x400, 0x400, 0x400, 0x8000, 0x400,
     0x400, 0x400, 0x400, 0x400, 0x400, 0x400, 0x400, 0x400, 0x400, 0x400, 0x400, 0x400, 0x400,
     0x400, 0x400, 0x400, 0x400, 0x400, 0x400, 0x400, 0x400, 0x400]"

definition NID_CONTENTS_INDEX_TEMPLATE :: u32 where "NID_CONTENTS_INDEX_TEMPLATE = 0x6B6"
definition NID_SEARCH_INDEX_TEMPLATE :: u32 where "NID_SEARCH_INDEX_TEMPLATE = 0x6D7"
definition NID_ATTACHMENT_INDEX_TEMPLATE :: u32 where "NID_ATTACHMENT_INDEX_TEMPLATE = 0x6F8"

definition update_nid_counter :: "u32 list \<Rightarrow> node_id \<Rightarrow> bool \<Rightarrow> writer_error + u32 list" where
  "update_nid_counter counters node top_level =
    (case node_id_id_type node of
       Inl e \<Rightarrow>
         if node = NID_CONTENTS_INDEX_TEMPLATE \<or> node = NID_SEARCH_INDEX_TEMPLATE \<or> node = NID_ATTACHMENT_INDEX_TEMPLATE
         then Inr counters else Inl (InvalidStructure (NdbText e))
     | Inr kind \<Rightarrow>
       (case of_ndb (node_id_type_usize kind) of Inl e \<Rightarrow> Inl e
        | Inr index \<Rightarrow>
          (case (if top_level then checked_add_w (node_id_index node) 1 else Some (node_id_index node)) of
             None \<Rightarrow> Inl (ValueTooLarge ''node counter'')
           | Some high_water \<Rightarrow> Inr (counters[index := max (counters ! index) high_water]))))"

fun update_nid_counters :: "u32 list \<Rightarrow> bool \<Rightarrow> node_id list \<Rightarrow> writer_error + u32 list" where
  "update_nid_counters counters top_level [] = Inr counters"
| "update_nid_counters counters top_level (node # nodes) =
    (case update_nid_counter counters node top_level of Inl e \<Rightarrow> Inl e
     | Inr counters \<Rightarrow> update_nid_counters counters top_level nodes)"

fun block_subnodes :: "block_spec list \<Rightarrow> node_id list" where
  "block_subnodes [] = []"
| "block_subnodes (block # blocks) =
    (case sp_payload block of PayloadSubnode entries \<Rightarrow> map sl_node entries | _ \<Rightarrow> []) @ block_subnodes blocks"

definition nid_counters ::
  "unicode_node_entry list \<Rightarrow> block_spec list \<Rightarrow> node_id list \<Rightarrow> writer_error + u32 list" where
  "nid_counters entries blocks streamed_subnodes =
    (case update_nid_counters INITIAL_NID_COUNTERS True (map un_node entries) of Inl e \<Rightarrow> Inl e
     | Inr counters \<Rightarrow>
       (case update_nid_counters counters False (block_subnodes blocks) of Inl e \<Rightarrow> Inl e
        | Inr counters \<Rightarrow> update_nid_counters counters False streamed_subnodes))"

section \<open>Header\<close>

definition write_header ::
  "bytes \<Rightarrow> unicode_page_ref \<Rightarrow> unicode_page_ref \<Rightarrow> u64 \<Rightarrow> u64 \<Rightarrow> u64 \<Rightarrow> u32 list \<Rightarrow> constructed_allocation
    \<Rightarrow> writer_error + bytes" where
  "write_header file nbt bbt allocated_end next_page_id next_block_id nids allocation =
    (case allocation_file_eof allocated_end of Inl e \<Rightarrow> Inl e
     | Inr file_eof \<Rightarrow>
       (let root = root_new file_eof (file_eof - AMAP_DATA_SIZE) (ca_free_bytes allocation) 0 nbt bbt Valid2;
            header = unicode_header_new_store root Permute next_page_id next_block_id 2 nids;
            header = header\<lparr>uh_free_map := ca_first_free_map allocation\<rparr> in
        case of_io (unicode_header_write header) of Inl e \<Rightarrow> Inl e
        | Inr bs \<Rightarrow> Inr (write_at file 0 bs)))"

section \<open>Finalisation\<close>

definition set_len :: "bytes \<Rightarrow> nat \<Rightarrow> bytes" where
  "set_len file n = take n (file @ replicate (n - length file) 0)"

text \<open>
  The state that the message stream has left: the file, the cursor of the allocation, the blocks
  written so far and the sub-nodes it has streamed.
\<close>

definition finalize_store ::
  "(nat \<Rightarrow> bool) \<Rightarrow> bytes \<Rightarrow> u64 \<Rightarrow> written_block list \<Rightarrow> node_id list \<Rightarrow> block_spec list \<Rightarrow> unicode_node_entry list
    \<Rightarrow> u64 \<Rightarrow> u64 \<Rightarrow> writer_error + bytes" where
  "finalize_store interrupted file allocation_cursor written streamed_subnodes blocks nodes next_block_index projected_file_eof =
    (case write_blocks interrupted file blocks allocation_cursor of Inl e \<Rightarrow> Inl e
     | Inr (new_blocks, file, allocation_cursor) \<Rightarrow>
    (let written = sort_key wb_id (written @ new_blocks);
         page_offset = align_up allocation_cursor WRITER_PAGE_SIZE in
    (case write_bbt file page_offset 0x100 written of Inl e \<Rightarrow> Inl e
     | Inr (bbt, file, nbt_offset, next_page_id) \<Rightarrow>
    (case write_nbt file nbt_offset next_page_id nodes of Inl e \<Rightarrow> Inl e
     | Inr (nbt, file, allocated_end, next_page_id) \<Rightarrow>
    (case allocation_file_eof allocated_end of Inl e \<Rightarrow> Inl e
     | Inr file_eof \<Rightarrow>
     if file_eof \<noteq> projected_file_eof
     then Inl (InvalidStructure (Literal ''projected and written PST extents disagree''))
     else
    (case write_allocation_pages (set_len file (unat file_eof)) allocated_end next_page_id of Inl e \<Rightarrow> Inl e
     | Inr (file, allocation) \<Rightarrow>
    (case leaf_bid next_block_index of Inl e \<Rightarrow> Inl e
     | Inr next_block_id \<Rightarrow>
    (case nid_counters nodes blocks streamed_subnodes of Inl e \<Rightarrow> Inl e
     | Inr nids \<Rightarrow> write_header file nbt bbt allocated_end next_page_id next_block_id nids allocation))))))))"

section \<open>The projection is exact\<close>

lemma write_blocks_projected:
  "write_blocks interrupted file blocks cursor = Inr (written, file', cursor') \<Longrightarrow>
    project_blocks cursor blocks = Inr cursor' \<and> length written = length blocks"
proof (induction blocks arbitrary: interrupted "file" cursor written)
  case (Cons b bs)
  then obtain w file1 c1 ws where w: "write_block file b cursor = Inr (w, file1, c1)"
      "write_blocks (interrupted \<circ> Suc) file1 bs c1 = Inr (ws, file', cursor')" "written = w # ws"
    by (auto simp: pst_result)
  from w(1) have "\<exists>sz offset. block_extent (sp_payload b) cursor = Inr (sz, c1, offset)"
    by (auto simp: write_block_def split: block_payload.splits sum.splits)
  then show ?case using Cons.IH [OF w(2)] w(3) by auto
qed simp

lemma project_pages_add:
  "project_pages (m + n) cursor = (case project_pages m cursor of Inl e \<Rightarrow> Inl e | Inr c \<Rightarrow> project_pages n c)"
  by (induction m arbitrary: cursor) (simp_all split: sum.splits)

lemma write_level_projected:
  "write_level new write key page_type name entries ranges file off pg = Inr (roots, file', off', pg') \<Longrightarrow>
    project_pages (length ranges) off = Inr off' \<and> length roots = length ranges"
proof (induction ranges arbitrary: "file" off pg roots)
  case (Cons rg ranges)
  then obtain off1 o1 file1 pg1 rs where
    "allocate_extent off WRITER_PAGE_SIZE WRITER_PAGE_SIZE = Inr (off1, o1)"
    "write_level new write key page_type name entries ranges file1 off1 pg1 = Inr (rs, file', off', pg')"
    "length roots = Suc (length rs)"
    by (auto simp: Let_def split: sum.splits option.splits prod.splits)
  then show ?case using Cons.IH by force
qed simp

lemma write_upper_levels_projected:
  "write_upper_levels page_type name level roots file off pg = Inr (ref, file', off', pg') \<Longrightarrow>
    p + 2 * length roots \<le> usize_max \<Longrightarrow>
    \<exists>n. btree_page_count_loop 20 (length roots) p = Inr (p + n) \<and> project_pages n off = Inr off'"
proof (induction "length roots" arbitrary: level roots "file" off pg p rule: less_induct)
  case less
  show ?case
  proof (cases "1 < length roots")
    case False
    then show ?thesis
      using less.prems(1) by (auto simp: write_upper_levels.simps btree_page_count_loop.simps intro!: exI [of _ 0])
  next
    case True
    define m where "m = div_ceil (length roots) 20"
    note d = div_ceil_20 [OF True, folded m_def]
    have "0 < length roots" using True by linarith
    then obtain ranges where r: "plan_leaf_pages (length roots) 20 = Inr ranges" "length ranges = m"
      using plan_leaf_pages_Inr [of "length roots" 20] by (auto simp: m_def)
    obtain parents file1 off1 pg1 level1 where
      w: "write_level (intermediate_page_new level 20 24) (unicode_btree_page_write unicode_page_entry_write)
         pe_key page_type name roots ranges file off pg = Inr (parents, file1, off1, pg1)"
        "write_upper_levels page_type name level1 parents file1 off1 pg1 = Inr (ref, file', off', pg')"
      using less.prems(1) True r(1) write_upper_levels.simps [of page_type name level roots "file" off pg]
      by (auto split: sum.splits option.splits)
    note l = write_level_projected [OF w(1)]
    have "length parents < length roots" "p + m + 2 * length parents \<le> usize_max" using l r(2) d(1,2) less.prems(2) by simp_all
    then obtain n where n: "btree_page_count_loop 20 (length parents) (p + m) = Inr (p + m + n)" "project_pages n off1 = Inr off'"
      using less.hyps [OF _ w(2)] by blast
    have "checked_add_usize p m = Some (p + m)" using less.prems(2) d(2) by (simp add: checked_add_usize_def)
    then have "btree_page_count_loop 20 (length roots) p = Inr (p + (m + n))"
      using True n(1) l r(2) by (simp add: btree_page_count_loop.simps [of 20 "length roots"] m_def [symmetric] add.assoc)
    moreover have "project_pages (m + n) off = Inr off'" using l r(2) n(2) by (simp add: project_pages_add)
    ultimately show ?thesis by blast
  qed
qed

lemma write_btree_projected:
  assumes "write_btree new write key capacity page_type name file off pg entries = Inr (ref, file', off', pg')"
    and "3 * length entries \<le> usize_max" "0 < capacity"
  shows "\<exists>n. btree_page_count (length entries) capacity 20 = Inr n \<and> project_pages n off = Inr off'"
proof -
  define m where "m = div_ceil (length entries) capacity"
  have pos: "0 < length entries"
    using assms(1) by (cases entries) (auto simp: write_btree_def plan_leaf_pages_def split: if_splits)
  obtain ranges roots file1 off1 pg1 where w: "length ranges = m"
      "write_level new write key page_type name entries ranges file off pg = Inr (roots, file1, off1, pg1)"
      "write_upper_levels page_type name 1 roots file1 off1 pg1 = Inr (ref, file', off', pg')"
    using assms(1) plan_leaf_pages_Inr [OF pos assms(3)]
    by (auto simp: write_btree_def m_def split: sum.splits if_splits)
  note l = write_level_projected [OF w(2)]
  have "\<not> length entries < m" using less_div_ceil [OF assms(3), of "length entries" "length entries"] assms(3) by (simp add: m_def)
  then have "m + 2 * length roots \<le> usize_max" using assms(2) l w(1) by simp
  from write_upper_levels_projected [OF w(3) this] obtain n where
    n: "btree_page_count_loop 20 (length roots) m = Inr (m + n)" "project_pages n off1 = Inr off'" by blast
  have "btree_page_count (length entries) capacity 20 = Inr (m + n)"
    using n(1) l w(1) pos assms(3) by (simp add: btree_page_count_def m_def [symmetric])
  then show ?thesis using n(2) l w(1) by (auto simp: project_pages_add)
qed

lemma finalize_projected:
  assumes "write_blocks interrupted file blocks cursor = Inr (new_blocks, file1, cursor1)"
    and "write_bbt file1 (align_up cursor1 WRITER_PAGE_SIZE) 0x100 (sort_key wb_id (written @ new_blocks)) = Inr (bbt, file2, nbt_offset, pg2)"
    and "write_nbt file2 nbt_offset pg2 nodes = Inr (nbt, file3, allocated_end, pg3)"
    and "length written + length blocks \<le> 2 ^ 60" "length nodes \<le> 2 ^ 60"
  shows "projected_finalized_file_eof cursor (length written) blocks (length nodes) = allocation_file_eof allocated_end"
proof -
  note p = write_blocks_projected [OF assms(1)]
  obtain n where n: "btree_page_count (length written + length blocks) 20 20 = Inr n"
      "project_pages n (align_up cursor1 WRITER_PAGE_SIZE) = Inr nbt_offset"
    using write_btree_projected [OF assms(2) [unfolded write_bbt_def]] assms(4) p by (auto simp: usize_max_def)
  obtain k where k: "btree_page_count (length nodes) 15 20 = Inr k" "project_pages k nbt_offset = Inr allocated_end"
    using write_btree_projected [OF assms(3) [unfolded write_nbt_def]] assms(5) by (auto simp: usize_max_def)
  have "checked_add_usize (length written) (length blocks) = Some (length written + length blocks)"
    using assms(4) by (simp add: checked_add_usize_def usize_max_def)
  then show ?thesis using p n k by (simp add: projected_finalized_file_eof_def Let_def)
qed

section \<open>The finished file\<close>

lemma extents_kept_set_len: "b \<le> n \<Longrightarrow> extents_kept b file (set_len file n)"
  by (auto simp: extents_kept_def set_len_def take_drop min_def)

lemma length_set_len [simp]: "length (set_len file n) = n"
  by (simp add: set_len_def)

lemma length_update_nid_counter:
  "update_nid_counter counters node is_top = Inr counters' \<Longrightarrow> length counters' = length counters"
  by (auto simp: update_nid_counter_def split: sum.splits option.splits if_splits)

lemma length_update_nid_counters:
  "update_nid_counters counters is_top nodes = Inr counters' \<Longrightarrow> length counters' = length counters"
proof (induction nodes arbitrary: counters)
  case (Cons node nodes)
  then show ?case by (fastforce dest: length_update_nid_counter split: sum.splits)
qed simp

lemma length_nid_counters: "nid_counters nodes blocks streamed = Inr counters \<Longrightarrow> length counters = 32"
  by (auto simp: nid_counters_def INITIAL_NID_COUNTERS_def dest!: length_update_nid_counters split: sum.splits)

text \<open>The header that ends up in the file.\<close>

lemma write_header_written:
  assumes "allocation_file_eof ae = Inr eof" "length nids = 32" "length (ca_first_free_map a) = 128"
  shows "\<exists>h bs. write_header file nbt bbt ae pg bid nids a = Inr (write_at file 0 bs) \<and> length bs = 564 \<and>
    (\<forall>r. unicode_header_read (bs @ r) = Inr (h, r)) \<and> uh_crypt_method h = Permute \<and> uh_nids h = nids \<and>
    root_file_eof_index (uh_root h) = eof \<and> root_node_btree (uh_root h) = nbt \<and> root_block_btree (uh_root h) = bbt \<and>
    root_amap_free_size (uh_root h) = ca_free_bytes a"
proof -
  define h where "h = (unicode_header_new_store (root_new eof (eof - AMAP_DATA_SIZE) (ca_free_bytes a) 0 nbt bbt Valid2)
    Permute pg bid 2 nids)\<lparr>uh_free_map := ca_first_free_map a\<rparr>"
  have wf: "unicode_header_wf h"
    using assms(2,3) by (simp add: h_def unicode_header_wf_def unicode_header_new_store_def unicode_header_new_def)
  obtain bs where bs: "unicode_header_write h = Inr bs" "length bs = 564" "\<forall>r. unicode_header_read (bs @ r) = Inr (h, r)"
    using unicode_header_write_bytes [OF wf] unicode_header_read_bytes [OF wf] wf
    by (auto simp: length_unicode_header_body unicode_header_wf_def)
  then show ?thesis
    using assms(1) by (intro exI [of _ h] exI [of _ bs])
      (simp add: write_header_def h_def [symmetric] Let_def, simp add: h_def unicode_header_new_store_def unicode_header_new_def root_new_def)
qed

text \<open>A file in which the block B-tree finds the blocks, and the blocks hold their payloads.\<close>

definition block_store :: "bytes \<Rightarrow> nat \<Rightarrow> (unicode_block_entry, u64) btree_root \<Rightarrow> block_spec list \<Rightarrow> bool" where
  "block_store file H page specs \<longleftrightarrow> unicode_lookup_ok H file page (\<lambda>_. None) \<and>
    (\<forall>b\<in>set specs. \<exists>w. unicode_lookup H file page (block_id_search_key (sp_id b)) = Inr (bbt_entry w) \<and>
      wb_id w = sp_id b \<and> unat (wb_size w) = logical_size (sp_payload b) \<and> payload_stored file w (sp_payload b))"

lemma lookup_result_member:
  assumes "sorted_wrt (<) (map lkey xs)" "e \<in> set xs"
  shows "lookup_result lkey (lkey e) xs = Inr e"
proof -
  have "inj_on lkey (set xs)" using assms(1) by (auto simp: strict_sorted_iff distinct_map)
  then have "List.find (\<lambda>x. lkey x = lkey e) xs = Some e"
    using assms(2) by (induction xs) (auto simp: inj_on_def)
  then show ?thesis by (simp add: lookup_result_def)
qed

lemma bbt_entry_key [simp]: "unicode_block_entry_key (bbt_entry w) = block_id_search_key (wb_id w)"
  by (simp add: bbt_entry_def unicode_block_entry_key_def unicode_block_entry_new_with_ref_count_def)

lemma tree_kept_here:
  assumes "tree_kept read key file b ref h entries R" "extents_kept b file f"
  obtains t where "read f ref = Inr t" "btree_ok (read f) id key h t" "btree_entries (read f) h t = entries"
    "set (btree_refs (read f) h t) \<subseteq> R"
  using assms unfolding tree_kept_def by blast

lemma refs_unambiguous_subset: "refs_unambiguous R \<Longrightarrow> S \<subseteq> R \<Longrightarrow> refs_unambiguous S"
  by (auto simp: refs_unambiguous_def)

lemma block_store_written:
  assumes tree: "tree_kept unicode_block_btree_read unicode_block_entry_key file b ref H (map bbt_entry ws) R" "refs_unambiguous R"
    and keys: "sorted_wrt (<) (map (block_id_search_key \<circ> wb_id) ws)"
    and blocks: "list_all2 (block_at f lo hi) specs written" "set written = set ws" and kept: "extents_kept b file f"
  shows "\<exists>page. unicode_block_btree_read f ref = Inr page \<and> block_store f H page specs"
proof -
  obtain page where t: "unicode_block_btree_read f ref = Inr page"
      "btree_ok (unicode_block_btree_read f) id unicode_block_entry_key H page"
      "btree_entries (unicode_block_btree_read f) H page = map bbt_entry ws"
      "set (btree_refs (unicode_block_btree_read f) H page) \<subseteq> R"
    using tree_kept_here [OF tree(1) kept] by blast
  have "unicode_lookup_ok H f page (\<lambda>_. None)"
    using t(2) refs_unambiguous_subset [OF tree(2) t(4)] by (simp add: unicode_lookup_ok_def cache_agrees_def)
  moreover have "\<exists>w. unicode_lookup H f page (block_id_search_key (sp_id b)) = Inr (bbt_entry w) \<and> wb_id w = sp_id b \<and>
      unat (wb_size w) = logical_size (sp_payload b) \<and> payload_stored f w (sp_payload b)" if b: "b \<in> set specs" for b
  proof -
    obtain w where w: "w \<in> set written" "block_at f lo hi b w"
      using blocks(1) b by (metis in_set_conv_nth list_all2_conv_all_nth)
    have "sorted_wrt (<) (map unicode_block_entry_key (map bbt_entry ws))" using keys by (simp add: comp_def)
    then have "lookup_result unicode_block_entry_key (unicode_block_entry_key (bbt_entry w)) (map bbt_entry ws) = Inr (bbt_entry w)"
      using w(1) blocks(2) by (intro lookup_result_member) auto
    then show ?thesis using w(2) by (auto simp: unicode_lookup_def t(3) block_at_def)
  qed
  ultimately show ?thesis using t(1) by (auto simp: block_store_def)
qed

text \<open>Identifiers as \<open>take_block_id\<close> gives them: pairwise different, with a clear lowest bit.\<close>

definition ids_ok :: "block_spec list \<Rightarrow> bool" where
  "ids_ok specs \<longleftrightarrow> distinct (map sp_id specs) \<and> (\<forall>b\<in>set specs. block_id_search_key (sp_id b) = sp_id b)"

lemma ids_of_written: "list_all2 (block_at f lo hi) specs ws \<Longrightarrow> map wb_id ws = map sp_id specs"
  by (induction rule: list_all2_induct) (simp_all add: block_at_def)

lemma sorted_ids:
  assumes "map wb_id ws = map sp_id specs" "ids_ok specs"
  shows "sorted_wrt (<) (map (block_id_search_key \<circ> wb_id) (sort_key wb_id ws))"
proof -
  have "distinct (map wb_id ws)" using assms by (simp add: ids_ok_def)
  then have "distinct (map wb_id (sort_key wb_id ws))" by (simp add: distinct_map)
  then have "sorted_wrt (<) (map wb_id (sort_key wb_id ws))" by (simp add: strict_sorted_iff)
  moreover have "wb_id ` set ws = sp_id ` set specs" using assms(1) by (metis set_map)
  then have "\<forall>w\<in>set ws. block_id_search_key (wb_id w) = wb_id w"
    using assms(2) by (force simp: ids_ok_def)
  then have "map (block_id_search_key \<circ> wb_id) (sort_key wb_id ws) = map wb_id (sort_key wb_id ws)" by simp
  ultimately show ?thesis by (simp only:)
qed

text \<open>
  What the message stream leaves: a file with its blocks below the cursor.
\<close>

definition stream_ok :: "bytes \<Rightarrow> u64 \<Rightarrow> block_spec list \<Rightarrow> written_block list \<Rightarrow> bool" where
  "stream_ok file cursor specs written \<longleftrightarrow> 17408 \<le> unat cursor \<and> unat cursor \<le> 2 ^ 46 \<and>
    list_all2 (block_at file 17408 (unat cursor)) specs written"

lemma align_up_page:
  assumes "unat c \<le> 2 ^ 50"
  shows "unat c \<le> unat (align_up c WRITER_PAGE_SIZE)" "unat (align_up c WRITER_PAGE_SIZE) \<le> unat c + 512"
proof -
  have "unat (align_up c WRITER_PAGE_SIZE) = div_ceil (unat c) 512 * 512"
    using assms by (subst unat_align_up) (simp_all add: writer_consts)
  then show "unat c \<le> unat (align_up c WRITER_PAGE_SIZE)" "unat (align_up c WRITER_PAGE_SIZE) \<le> unat c + 512"
    using div_ceil_mult_ge [of 512 "unat c"] div_ceil_mult_lt [of 512 "unat c"] by simp_all
qed

text \<open>The last blocks and the two B-trees.\<close>

lemma finalize_trees:
  assumes stream: "stream_ok file cursor specs written"
    and blocks: "list_all (\<lambda>b. payload_ok (sp_id b) (sp_payload b)) blocks" "\<forall>i<length blocks. \<not> interrupted i"
      "specs @ blocks \<noteq> []" "length specs + length blocks \<le> 2 ^ 24" "ids_ok (specs @ blocks)"
    and nodes: "nodes \<noteq> []" "length nodes \<le> 2 ^ 22" "list_all unicode_node_entry_ok nodes"
      "sorted_wrt (<) (map unicode_node_entry_key nodes)"
  shows "\<exists>news f1 c1 bbt f2 o2 p2 nbt f3 ae p3 Hb Rb Hn Rn.
    write_blocks interrupted file blocks cursor = Inr (news, f1, c1) \<and>
    write_bbt f1 (align_up c1 WRITER_PAGE_SIZE) 0x100 (sort_key wb_id (written @ news)) = Inr (bbt, f2, o2, p2) \<and>
    write_nbt f2 o2 p2 nodes = Inr (nbt, f3, ae, p3) \<and> 17408 \<le> unat ae \<and> unat ae \<le> 2 ^ 48 \<and>
    list_all2 (block_at f3 17408 (unat ae)) (specs @ blocks) (written @ news) \<and>
    tree_kept unicode_block_btree_read unicode_block_entry_key f3 (unat ae) bbt Hb (map bbt_entry (sort_key wb_id (written @ news))) Rb \<and>
    tree_kept unicode_node_btree_read unicode_node_entry_key f3 (unat ae) nbt Hn nodes Rn \<and>
    refs_unambiguous Rb \<and> refs_unambiguous Rn"
proof -
  note st = stream [unfolded stream_ok_def, THEN conjunct1] stream [unfolded stream_ok_def, THEN conjunct2, THEN conjunct1]
    stream [unfolded stream_ok_def, THEN conjunct2, THEN conjunct2]
  have room: "unat cursor + 600000 * length blocks + 1000000 \<le> 2 ^ 64" using st(2) blocks(4) by simp
  obtain news f1 c1 where w: "write_blocks interrupted file blocks cursor = Inr (news, f1, c1)"
      "unat cursor \<le> unat c1" "unat c1 \<le> unat cursor + 600000 * length blocks" "kept_below (unat cursor) file f1"
      "list_all2 (block_at f1 (unat cursor) (unat c1)) blocks news"
    using write_blocks_stored [OF blocks(1,2) st(1) room, of "file"] by blast
  have all1: "list_all2 (block_at f1 17408 (unat c1)) (specs @ blocks) (written @ news)"
    using blocks_at_kept [OF st(3) kept_below_extents [OF w(4)] order_refl w(2)]
      blocks_at_kept [OF w(5) extents_kept_refl st(1) order_refl] by (rule list_all2_appendI)
  define ws where "ws = sort_key wb_id (written @ news)"
  define po where "po = align_up c1 WRITER_PAGE_SIZE"
  have c1: "unat c1 \<le> 2 ^ 50" using w(3) st(2) blocks(4) by simp
  note po = align_up_page [OF c1, folded po_def]
  have len: "length ws = length specs + length blocks" using list_all2_lengthD [OF all1] by (simp add: ws_def)
  have keys: "sorted_wrt (<) (map unicode_block_entry_key (map bbt_entry ws))"
    using sorted_ids [OF ids_of_written [OF all1] blocks(5)] by (simp add: ws_def comp_def)
  have "map bbt_entry ws \<noteq> []" using len blocks(3) by auto
  moreover have "length (map bbt_entry ws) \<le> 2 ^ 32" "17408 \<le> unat po" "unat po \<le> 2 ^ 62" "unat (0x100 :: u64) \<le> 2 ^ 63"
    using len blocks(4) po c1 st(1) w(2) by simp_all
  ultimately obtain bbt f2 o2 p2 Hb Rb where b: "write_bbt f1 po 0x100 ws = Inr (bbt, f2, o2, p2)"
      "kept_below (unat po) f1 f2" "unat po \<le> unat o2" "unat o2 \<le> unat po + 1800000 * length ws" "unat p2 \<le> 256 + 3 * length ws"
      "tree_kept unicode_block_btree_read unicode_block_entry_key f2 (unat o2) bbt Hb (map bbt_entry ws) Rb" "refs_unambiguous Rb"
    using bbt.write_btree_tree [OF _ _ _ keys, of po "0x100" "''BBT''" f1]
    unfolding write_bbt_def unicode_block_btree_read_def by (auto simp: list_all_iff)
  have "17408 \<le> unat o2" "unat o2 \<le> 2 ^ 62" "unat p2 \<le> 2 ^ 63" "length nodes \<le> 2 ^ 32"
    using b(3-5) po st(1,2) w(2,3) len blocks(4) nodes(2) by simp_all
  then obtain nbt f3 ae p3 Hn Rn where n: "write_nbt f2 o2 p2 nodes = Inr (nbt, f3, ae, p3)" "kept_below (unat o2) f2 f3"
      "unat o2 \<le> unat ae" "unat ae \<le> unat o2 + 1800000 * length nodes"
      "tree_kept unicode_node_btree_read unicode_node_entry_key f3 (unat ae) nbt Hn nodes Rn" "refs_unambiguous Rn"
    using nbt.write_btree_tree [OF nodes(3,1) _ nodes(4), of o2 p2 "''NBT''" f2]
    unfolding write_nbt_def unicode_node_btree_read_def by blast
  have k12: "extents_kept (unat c1) f1 f3"
    using kept_below_extents [OF kept_below_mono [OF b(2) po(1)]] kept_below_extents [OF kept_below_mono [OF n(2)]] po(1) b(3)
    by (meson extents_kept_trans order_trans)
  have "list_all2 (block_at f3 17408 (unat ae)) (specs @ blocks) (written @ news)"
    using blocks_at_kept [OF all1 k12 order_refl] po(1) b(3) n(3) by simp
  moreover have "tree_kept unicode_block_btree_read unicode_block_entry_key f3 (unat ae) bbt Hb (map bbt_entry ws) Rb"
    using tree_kept_extend [OF b(6) kept_below_extents [OF n(2)] n(3)] .
  moreover have "17408 \<le> unat ae" "unat ae \<le> 2 ^ 48"
    using st(1,2) w(2,3) po b(3,4) n(3,4) len blocks(4) nodes(2) by simp_all
  ultimately show ?thesis using w(1) b(1,7) n(1,5,6) unfolding ws_def po_def by blast
qed

text \<open>The allocation pages and the header come last and touch no extent.\<close>

lemma finalize_pages:
  assumes "17408 \<le> unat ae" "unat ae \<le> 2 ^ 48" "length nids = 32"
  shows "\<exists>file' h N eof f4 a. allocation_file_eof ae = Inr eof \<and> unat eof = region_begin N \<and>
    write_allocation_pages (set_len f3 (unat eof)) ae p3 = Inr (f4, a) \<and>
    write_header f4 nbt bbt ae p3 bid nids a = Inr file' \<and> length file' = region_begin N \<and> unat ae \<le> region_begin N \<and>
    extents_kept (unat ae) f3 file' \<and> amaps_held (unat ae) N file' \<and>
    unicode_header_read file' = Inr (h, drop 564 file') \<and> uh_crypt_method h = Permute \<and> uh_nids h = nids \<and>
    root_file_eof_index (uh_root h) = eof \<and> root_node_btree (uh_root h) = nbt \<and> root_block_btree (uh_root h) = bbt \<and>
    unat (root_amap_free_size (uh_root h)) = region_begin N - div_ceil (unat ae) 64 * 64"
proof -
  obtain eof where eof: "allocation_file_eof ae = Inr eof"
    using write_allocation_pages_written [OF assms(1,2)] by blast
  obtain f4 a N where w: "write_allocation_pages (set_len f3 (unat eof)) ae p3 = Inr (f4, a)"
      "eof = word_of_nat (region_begin N)" "unat ae \<le> region_begin N" "0 < N" "N \<le> 2 ^ 31"
      "amaps_held (unat ae) N f4" "\<And>b. extents_kept b (set_len f3 (unat eof)) f4" "unat eof \<le> length f4"
      "length f4 \<le> max (unat eof) (region_begin N)" "length (ca_first_free_map a) = 128"
      "unat (ca_free_bytes a) = region_begin N - div_ceil (unat ae) 64 * 64"
    using write_allocation_pages_written [OF assms(1,2), of "set_len f3 (unat eof)" p3] eof by auto
  have "region_begin N < 2 ^ 64" using w(5) by (simp add: region_begin_def)
  then have ueof: "unat eof = region_begin N" by (simp add: w(2) unsigned_of_nat take_bit_nat_eq_self)
  obtain h bs where h: "write_header f4 nbt bbt ae p3 bid nids a = Inr (write_at f4 0 bs)" "length bs = 564"
      "\<And>r. unicode_header_read (bs @ r) = Inr (h, r)" "uh_crypt_method h = Permute" "uh_nids h = nids"
      "root_file_eof_index (uh_root h) = eof" "root_node_btree (uh_root h) = nbt" "root_block_btree (uh_root h) = bbt"
      "root_amap_free_size (uh_root h) = ca_free_bytes a"
    using write_header_written [OF eof assms(3) w(10), of f4 nbt bbt p3 bid] by blast
  define file' where "file' = write_at f4 0 bs"
  have lf: "length file' = region_begin N" using w(8,9) h(2) ueof by (simp add: file'_def length_write_at region_begin_def)
  have "extents_kept (unat ae) f3 (set_len f3 (unat eof))" using w(3) ueof by (intro extents_kept_set_len) simp
  moreover have "extents_kept (unat ae) f4 file'" unfolding file'_def using h(2) by (intro extents_kept_front) simp
  ultimately have kept: "extents_kept (unat ae) f3 file'" using w(7) extents_kept_trans by blast
  have am: "amaps_held (unat ae) N file'" unfolding file'_def using w(6) h(2) by (intro amaps_held_front) simp_all
  have file': "file' = bs @ drop 564 file'" by (simp add: file'_def write_at_def h(2))
  then have hr: "unicode_header_read file' = Inr (h, drop 564 file')" using h(3) by metis
  show ?thesis
    by (intro exI [of _ file'] exI [of _ h] exI [of _ N] exI [of _ eof] exI [of _ f4] exI [of _ a] conjI
        eof ueof w(1,3) h(1) [folded file'_def] lf kept am hr h(4-8)) (simp add: h(9) w(11))
qed

text \<open>The trees and the pages behind them give the finished file.\<close>

lemma finalize_store_correct:
  assumes stream: "stream_ok file cursor specs written"
    and blocks: "list_all (\<lambda>b. payload_ok (sp_id b) (sp_payload b)) blocks" "\<forall>i<length blocks. \<not> interrupted i"
      "specs @ blocks \<noteq> []" "length specs + length blocks \<le> 2 ^ 24" "ids_ok (specs @ blocks)"
    and nodes: "nodes \<noteq> []" "length nodes \<le> 2 ^ 22" "list_all unicode_node_entry_ok nodes"
      "sorted_wrt (<) (map unicode_node_entry_key nodes)"
    and next_block: "next_block_index \<le> MAX_UNICODE_BLOCK_INDEX"
    and nids: "nid_counters nodes blocks streamed_subnodes = Inr nids"
  shows "\<exists>projected file' h ae N Hb bpage Hn npage.
    projected_finalized_file_eof cursor (length written) blocks (length nodes) = Inr projected \<and>
    finalize_store interrupted file cursor written streamed_subnodes blocks nodes next_block_index projected = Inr file' \<and>
    unicode_header_read file' = Inr (h, drop 564 file') \<and> uh_crypt_method h = Permute \<and> uh_nids h = nids \<and>
    unat (root_file_eof_index (uh_root h)) = length file' \<and> root_file_eof_index (uh_root h) = projected \<and>
    unicode_block_btree_read file' (root_block_btree (uh_root h)) = Inr bpage \<and> block_store file' Hb bpage (specs @ blocks) \<and>
    unicode_node_btree_read file' (root_node_btree (uh_root h)) = Inr npage \<and>
    (\<forall>k. \<exists>cache. root_btree_find_entry (Suc Hn) (unicode_node_btree_read file') id unicode_node_entry_key npage k (\<lambda>_. None) =
      Some (lookup_result unicode_node_entry_key k nodes, cache)) \<and>
    length file' = region_begin N \<and>
    (\<forall>k<N. \<exists>page rest. unicode_map_page_read (page_type_code AllocationMap) (drop (region_begin k) file') = Inr (page, rest) \<and>
      (\<forall>i<3968. slot_used (um_map_bits page) i \<longleftrightarrow> region_begin k + 64 * i < ae)) \<and>
    unat (root_amap_free_size (uh_root h)) = length file' - div_ceil ae 64 * 64"
proof -
  obtain news f1 c1 bbt f2 o2 p2 nbt f3 ae p3 Hb Rb Hn Rn where
    w: "write_blocks interrupted file blocks cursor = Inr (news, f1, c1)"
      "write_bbt f1 (align_up c1 WRITER_PAGE_SIZE) 0x100 (sort_key wb_id (written @ news)) = Inr (bbt, f2, o2, p2)"
      "write_nbt f2 o2 p2 nodes = Inr (nbt, f3, ae, p3)"
    and ae: "17408 \<le> unat ae" "unat ae \<le> 2 ^ 48"
    and at: "list_all2 (block_at f3 17408 (unat ae)) (specs @ blocks) (written @ news)"
    and bt: "tree_kept unicode_block_btree_read unicode_block_entry_key f3 (unat ae) bbt Hb (map bbt_entry (sort_key wb_id (written @ news))) Rb"
    and nt: "tree_kept unicode_node_btree_read unicode_node_entry_key f3 (unat ae) nbt Hn nodes Rn"
    and refs: "refs_unambiguous Rb" "refs_unambiguous Rn"
    using finalize_trees [OF stream blocks nodes] by (elim exE conjE)
  obtain bid where bid: "leaf_bid next_block_index = Inr bid"
    using unicode_block_id_new_cases [of next_block_index False] next_block
    by (auto simp: leaf_bid_def of_ndb_def split: sum.splits)
  obtain file' h N eof f4 a where f: "allocation_file_eof ae = Inr eof" "unat eof = region_begin N"
      "write_allocation_pages (set_len f3 (unat eof)) ae p3 = Inr (f4, a)"
      "write_header f4 nbt bbt ae p3 bid nids a = Inr file'" "length file' = region_begin N"
      "extents_kept (unat ae) f3 file'" "amaps_held (unat ae) N file'" "unicode_header_read file' = Inr (h, drop 564 file')"
      "uh_crypt_method h = Permute" "uh_nids h = nids" "root_file_eof_index (uh_root h) = eof"
      "root_node_btree (uh_root h) = nbt" "root_block_btree (uh_root h) = bbt"
      "unat (root_amap_free_size (uh_root h)) = region_begin N - div_ceil (unat ae) 64 * 64"
    using finalize_pages [OF ae length_nid_counters [OF nids], of f3 p3 nbt bbt bid] by (elim exE conjE)
  have len: "length written + length blocks \<le> 2 ^ 60" "length nodes \<le> 2 ^ 60"
    using list_all2_lengthD [OF stream [unfolded stream_ok_def, THEN conjunct2, THEN conjunct2]] blocks(4) nodes(2) by simp_all
  have eof: "projected_finalized_file_eof cursor (length written) blocks (length nodes) = Inr eof"
    using finalize_projected [OF w len] f(1) by simp
  have run: "finalize_store interrupted file cursor written streamed_subnodes blocks nodes next_block_index eof = Inr file'"
    using w f(1,3,4) bid nids by (simp add: finalize_store_def Let_def)
  obtain bpage where bp: "unicode_block_btree_read file' bbt = Inr bpage" "block_store file' Hb bpage (specs @ blocks)"
    using block_store_written [OF bt refs(1) sorted_ids [OF ids_of_written [OF at] blocks(5)] blocks_at_kept [OF at f(6) order_refl order_refl] _ f(6)]
    by auto
  obtain npage where np: "unicode_node_btree_read file' nbt = Inr npage"
      "btree_ok (unicode_node_btree_read file') id unicode_node_entry_key Hn npage"
      "btree_entries (unicode_node_btree_read file') Hn npage = nodes" "set (btree_refs (unicode_node_btree_read file') Hn npage) \<subseteq> Rn"
    using tree_kept_here [OF nt f(6)] by blast
  have find: "\<exists>cache. root_btree_find_entry (Suc Hn) (unicode_node_btree_read file') id unicode_node_entry_key npage k (\<lambda>_. None) =
      Some (lookup_result unicode_node_entry_key k nodes, cache)" for k
    using find_entry_correct [OF np(2) refs(2) np(4), of "\<lambda>_. None" k] np(3) by (auto simp: cache_agrees_def)
  show ?thesis
    by (rule exI [of _ eof], rule exI [of _ file'], rule exI [of _ h], rule exI [of _ "unat ae"], rule exI [of _ N], rule exI [of _ Hb],
        rule exI [of _ bpage], rule exI [of _ Hn], rule exI [of _ npage])
      (intro conjI allI impI eof run f(8-10) find amap_reads [OF f(7)]; simp add: f(2,5,11-14) bp np(1))
qed

section \<open>Properties\<close>

text \<open>
  C6. Finalisation: from a message stream whose blocks are in place, with well-formed final
  blocks and node entries, the projection of the file size succeeds and so does the finalisation with
  it: the comparison of the projected with the written size never fails. In the resulting file the header reads back and states the
  length of the file, the block B-tree it refers to finds every block, streamed or final, with its
  payload, the node B-tree finds every node entry, and the allocation maps cover the file and
  mark exactly the slots below the end of the allocated space.
\<close>

theorem finalize_store_spec:
  assumes stream: "stream_ok file cursor specs written"
    and blocks: "list_all (\<lambda>b. payload_ok (sp_id b) (sp_payload b)) blocks" "\<forall>i<length blocks. \<not> interrupted i"
      "specs @ blocks \<noteq> []" "length specs + length blocks \<le> 2 ^ 24" "ids_ok (specs @ blocks)"
    and nodes: "nodes \<noteq> []" "length nodes \<le> 2 ^ 22" "list_all unicode_node_entry_ok nodes"
      "sorted_wrt (<) (map unicode_node_entry_key nodes)"
    and next_block: "next_block_index \<le> MAX_UNICODE_BLOCK_INDEX"
    and nids: "nid_counters nodes blocks streamed_subnodes = Inr nids"
  shows "\<exists>projected file' h ae N Hb bpage Hn npage.
    projected_finalized_file_eof cursor (length written) blocks (length nodes) = Inr projected \<and>
    finalize_store interrupted file cursor written streamed_subnodes blocks nodes next_block_index projected = Inr file' \<and>
    unicode_header_read file' = Inr (h, drop 564 file') \<and> uh_crypt_method h = Permute \<and> uh_nids h = nids \<and>
    unat (root_file_eof_index (uh_root h)) = length file' \<and> root_file_eof_index (uh_root h) = projected \<and>
    unicode_block_btree_read file' (root_block_btree (uh_root h)) = Inr bpage \<and> block_store file' Hb bpage (specs @ blocks) \<and>
    unicode_node_btree_read file' (root_node_btree (uh_root h)) = Inr npage \<and>
    (\<forall>k. \<exists>cache. root_btree_find_entry (Suc Hn) (unicode_node_btree_read file') id unicode_node_entry_key npage k (\<lambda>_. None) =
      Some (lookup_result unicode_node_entry_key k nodes, cache)) \<and>
    length file' = region_begin N \<and>
    (\<forall>k<N. \<exists>page rest. unicode_map_page_read (page_type_code AllocationMap) (drop (region_begin k) file') = Inr (page, rest) \<and>
      (\<forall>i<3968. slot_used (um_map_bits page) i \<longleftrightarrow> region_begin k + 64 * i < ae)) \<and>
    unat (root_amap_free_size (uh_root h)) = length file' - div_ceil ae 64 * 64"
  by (rule finalize_store_correct [OF assms])

definition sample_spec :: block_spec where
  "sample_spec = \<lparr>sp_id = 4, sp_payload = PayloadData [1, 2, 3], sp_ref_count = 2\<rparr>"

theorem finalize_store_spec_witness:
  "\<exists>projected file' h Hb bpage.
    projected_finalized_file_eof 0x4800 0 [sample_spec] 1 = Inr projected \<and>
    finalize_store (\<lambda>_. False) [] 0x4800 [] [] [sample_spec] [sample_entry] 2 projected = Inr file' \<and>
    unicode_header_read file' = Inr (h, drop 564 file') \<and>
    unicode_block_btree_read file' (root_block_btree (uh_root h)) = Inr bpage \<and> block_store file' Hb bpage [sample_spec]"
proof -
  have "stream_ok [] 0x4800 [] []" by (simp add: stream_ok_def)
  moreover have "payload_ok (sp_id sample_spec) (sp_payload sample_spec)" "ids_ok [sample_spec]"
    by (simp_all add: sample_spec_def block_id_is_internal_def ids_ok_def block_id_search_key_def)
  moreover have "unicode_node_entry_ok sample_entry"
    by (simp add: sample_entry_def unicode_node_entry_new_def unicode_node_entry_ok_def)
  moreover have "\<exists>nids. nid_counters [sample_entry] [sample_spec] [] = Inr nids"
    by (simp add: nid_counters_def sample_entry_def unicode_node_entry_new_def sample_spec_def update_nid_counter_def
        node_id_id_type_def node_id_type_try_from_def node_id_type_usize_def Let_def node_id_index_def checked_add_w_def)
  moreover have "(2 :: u64) \<le> MAX_UNICODE_BLOCK_INDEX" by (simp add: word_le_nat_alt max_index_values)
  ultimately show ?thesis
    using finalize_store_spec [of "[]" "0x4800" "[]" "[]" "[sample_spec]" "\<lambda>_. False" "[sample_entry]" 2 "[]"]
    by (simp del: root_btree_find_entry.simps) blast
qed

end
