(* ===== verification/Writer_Tree.thy ===== *)
theory Writer_Tree
  imports Writer_Store Ndb_DataTree
begin

text \<open>
  The trees the writer builds for values and for sub-nodes, from \<open>writer.rs\<close>: a value is cut into
  data blocks under \<open>XBLOCK\<close>s and an \<open>XXBLOCK\<close>, the entries of a sub-node tree into leaf blocks under
  intermediate ones. The operations append block specifications to a list and take identifiers
  from a counter; both are passed explicitly. The theorems compose them with the finished file of
  \<open>Writer_Store\<close> and the readers: what was appended is what a reader delivers.
\<close>

section \<open>Data trees\<close>

definition MAX_DATA_BLOCK_PAYLOAD :: nat where "MAX_DATA_BLOCK_PAYLOAD = 8176"
definition WRITER_MAX_DATA_TREE_ENTRIES :: nat where "WRITER_MAX_DATA_TREE_ENTRIES = 1021"
definition SUBNODE_LEAF_CAPACITY :: nat where "SUBNODE_LEAF_CAPACITY = (MAX_DATA_BLOCK_PAYLOAD - 8) div 24"
definition SUBNODE_INTERMEDIATE_CAPACITY :: nat where "SUBNODE_INTERMEDIATE_CAPACITY = (MAX_DATA_BLOCK_PAYLOAD - 8) div 16"
definition WRITER_MAX_SUBNODE_TREE_ENTRIES :: nat where
  "WRITER_MAX_SUBNODE_TREE_ENTRIES = SUBNODE_LEAF_CAPACITY * SUBNODE_INTERMEDIATE_CAPACITY"

text \<open>The leaves with their sizes, the next index and the blocks.\<close>

fun append_leaves ::
  "bytes list \<Rightarrow> u64 \<Rightarrow> block_spec list \<Rightarrow> writer_error + (u64 \<times> nat) list \<times> u64 \<times> block_spec list" where
  "append_leaves [] next_index blocks = Inr ([], next_index, blocks)"
| "append_leaves (chunk # rest) next_index blocks =
    (case take_block_id next_index False of Inl e \<Rightarrow> Inl e
     | Inr (bid, next_index) \<Rightarrow>
       (case append_leaves rest next_index
            (blocks @ [\<lparr>sp_id = bid, sp_payload = PayloadData chunk, sp_ref_count = 2\<rparr>]) of
          Inl e \<Rightarrow> Inl e
        | Inr (leaves, r) \<Rightarrow> Inr ((bid, length chunk) # leaves, r)))"

fun total_sizes :: "u32 \<Rightarrow> nat list \<Rightarrow> u32 option" where
  "total_sizes acc [] = Some acc"
| "total_sizes acc (sz # sizes) =
    (if \<not> sz < 2 ^ 32 then None
     else case checked_add_w acc (word_of_nat sz) of None \<Rightarrow> None | Some acc \<Rightarrow> total_sizes acc sizes)"

fun append_xblocks ::
  "(u64 \<times> nat) list list \<Rightarrow> u64 \<Rightarrow> block_spec list \<Rightarrow> writer_error + (u64 \<times> u32) list \<times> u64 \<times> block_spec list" where
  "append_xblocks [] next_index blocks = Inr ([], next_index, blocks)"
| "append_xblocks (grp # grps) next_index blocks =
    (case take_block_id next_index True of Inl e \<Rightarrow> Inl e
     | Inr (bid, next_index) \<Rightarrow>
       (case total_sizes 0 (map snd grp) of None \<Rightarrow> Inl (ValueTooLarge ''data-tree size'')
        | Some total_size \<Rightarrow>
          (case append_xblocks grps next_index
               (blocks @ [\<lparr>sp_id = bid, sp_payload = PayloadDataTree 1 total_size (map fst grp), sp_ref_count = 2\<rparr>]) of
             Inl e \<Rightarrow> Inl e
           | Inr (xblocks, r) \<Rightarrow> Inr ((bid, total_size) # xblocks, r))))"

definition append_xxblock ::
  "string \<Rightarrow> string \<Rightarrow> (u64 \<times> u32) list \<Rightarrow> u64 \<Rightarrow> block_spec list \<Rightarrow> writer_error + u64 \<times> u64 \<times> block_spec list" where
  "append_xxblock count_error size_error xblocks next_index blocks =
    (if length xblocks = 1 then Inr (fst (xblocks ! 0), next_index, blocks)
     else if length xblocks > WRITER_MAX_DATA_TREE_ENTRIES then Inl (ValueTooLarge count_error)
     else case total_sizes 0 (map (unat \<circ> snd) xblocks) of None \<Rightarrow> Inl (ValueTooLarge size_error)
     | Some total_size \<Rightarrow>
       (case take_block_id next_index True of Inl e \<Rightarrow> Inl e
        | Inr (bid, next_index) \<Rightarrow>
          Inr (bid, next_index, blocks @ [\<lparr>sp_id = bid, sp_payload = PayloadDataTree 2 total_size (map fst xblocks),
            sp_ref_count = 2\<rparr>])))"

definition append_data_tree_sized ::
  "bytes \<Rightarrow> nat \<Rightarrow> u64 \<Rightarrow> block_spec list \<Rightarrow> writer_error + u64 \<times> u64 \<times> block_spec list" where
  "append_data_tree_sized bs chunk_size next_index blocks =
    (case append_leaves (chunks chunk_size bs) next_index blocks of Inl e \<Rightarrow> Inl e
     | Inr (leaves, next_index, blocks) \<Rightarrow>
       if length leaves = 1 then Inr (fst (leaves ! 0), next_index, blocks)
       else (case append_xblocks (chunks WRITER_MAX_DATA_TREE_ENTRIES leaves) next_index blocks of Inl e \<Rightarrow> Inl e
         | Inr (xblocks, next_index, blocks) \<Rightarrow>
           append_xxblock ''XXBLOCK entry count'' ''XXBLOCK size'' xblocks next_index blocks))"

definition append_data_tree :: "bytes \<Rightarrow> u64 \<Rightarrow> block_spec list \<Rightarrow> writer_error + u64 \<times> u64 \<times> block_spec list" where
  "append_data_tree bs = append_data_tree_sized bs MAX_DATA_BLOCK_PAYLOAD"

text \<open>
  Rows do not cross blocks: every block but the last is padded to the block size.
\<close>

definition row_matrix_frame :: "nat \<Rightarrow> bytes \<Rightarrow> bytes" where
  "row_matrix_frame chunk_size bs =
    (let cs = chunks chunk_size bs in
     concat (map (\<lambda>i. cs ! i @ (if i + 1 < length cs then replicate (MAX_DATA_BLOCK_PAYLOAD - length (cs ! i)) 0 else []))
       [0..<length cs]))"

definition append_row_matrix_data_tree ::
  "bytes \<Rightarrow> nat \<Rightarrow> u64 \<Rightarrow> block_spec list \<Rightarrow> writer_error + u64 \<times> u64 \<times> block_spec list" where
  "append_row_matrix_data_tree bs row_size next_index blocks =
    (if row_size = 0 \<or> row_size > MAX_DATA_BLOCK_PAYLOAD then Inl (ValueTooLarge ''table row size'')
     else let chunk_size = (MAX_DATA_BLOCK_PAYLOAD div row_size) * row_size;
              chunk_count = div_ceil (length bs) chunk_size;
              padding_capacity = (chunk_count - 1) * (MAX_DATA_BLOCK_PAYLOAD - chunk_size) in
       if padding_capacity > usize_max \<or> length bs + padding_capacity > usize_max
       then Inl (ValueTooLarge ''row matrix padding'')
       else append_data_tree (row_matrix_frame chunk_size bs) next_index blocks)"

text \<open>Pages that are blocks already, of a heap.\<close>

fun append_page_leaves ::
  "bytes list \<Rightarrow> u64 \<Rightarrow> block_spec list \<Rightarrow> writer_error + (u64 \<times> nat) list \<times> u64 \<times> block_spec list" where
  "append_page_leaves [] next_index blocks = Inr ([], next_index, blocks)"
| "append_page_leaves (page # pages) next_index blocks =
    (if length page > MAX_DATA_BLOCK_PAYLOAD then Inl (ValueTooLarge ''heap data page'')
     else case take_block_id next_index False of Inl e \<Rightarrow> Inl e
     | Inr (bid, next_index) \<Rightarrow>
       (case append_page_leaves pages next_index
            (blocks @ [\<lparr>sp_id = bid, sp_payload = PayloadData page, sp_ref_count = 2\<rparr>]) of
          Inl e \<Rightarrow> Inl e
        | Inr (leaves, r) \<Rightarrow> Inr ((bid, length page) # leaves, r)))"

fun append_page_xblocks ::
  "(u64 \<times> nat) list list \<Rightarrow> u64 \<Rightarrow> block_spec list \<Rightarrow> writer_error + (u64 \<times> u32) list \<times> u64 \<times> block_spec list" where
  "append_page_xblocks [] next_index blocks = Inr ([], next_index, blocks)"
| "append_page_xblocks (grp # grps) next_index blocks =
    (case total_sizes 0 (map snd grp) of None \<Rightarrow> Inl (ValueTooLarge ''heap data-tree size'')
     | Some total_size \<Rightarrow>
       (case take_block_id next_index True of Inl e \<Rightarrow> Inl e
        | Inr (bid, next_index) \<Rightarrow>
          (case append_page_xblocks grps next_index
               (blocks @ [\<lparr>sp_id = bid, sp_payload = PayloadDataTree 1 total_size (map fst grp), sp_ref_count = 2\<rparr>]) of
             Inl e \<Rightarrow> Inl e
           | Inr (xblocks, r) \<Rightarrow> Inr ((bid, total_size) # xblocks, r))))"

definition append_data_tree_pages ::
  "bytes list \<Rightarrow> u64 \<Rightarrow> block_spec list \<Rightarrow> writer_error + u64 \<times> u64 \<times> block_spec list" where
  "append_data_tree_pages pages next_index blocks =
    (if pages = [] then Inl (InvalidStructure (Literal ''data tree must contain pages''))
     else case append_page_leaves pages next_index blocks of Inl e \<Rightarrow> Inl e
     | Inr (leaves, next_index, blocks) \<Rightarrow>
       if length leaves = 1 then Inr (fst (leaves ! 0), next_index, blocks)
       else (case append_page_xblocks (chunks WRITER_MAX_DATA_TREE_ENTRIES leaves) next_index blocks of Inl e \<Rightarrow> Inl e
         | Inr (xblocks, next_index, blocks) \<Rightarrow>
           append_xxblock ''heap data-tree XBLOCK count'' ''heap data-tree size'' xblocks next_index blocks))"

section \<open>Sub-node trees\<close>

definition leaf_entry_root :: "u64 subnode_leaf_entry list \<Rightarrow> u64 \<Rightarrow> u64 subnode_entry" where
  "leaf_entry_root grp bid = \<lparr>sn_node = sl_node (grp ! 0), sn_block = bid\<rparr>"

fun append_subnode_leaves ::
  "u64 subnode_leaf_entry list list \<Rightarrow> u64 \<Rightarrow> block_spec list
    \<Rightarrow> writer_error + u64 subnode_entry list \<times> u64 \<times> block_spec list" where
  "append_subnode_leaves [] next_index blocks = Inr ([], next_index, blocks)"
| "append_subnode_leaves (grp # grps) next_index blocks =
    (case take_block_id next_index True of Inl e \<Rightarrow> Inl e
     | Inr (bid, next_index) \<Rightarrow>
       (case append_subnode_leaves grps next_index
            (blocks @ [\<lparr>sp_id = bid, sp_payload = PayloadSubnode grp, sp_ref_count = 2\<rparr>]) of
          Inl e \<Rightarrow> Inl e
        | Inr (roots, r) \<Rightarrow> Inr (leaf_entry_root grp bid # roots, r)))"

fun append_subnode_parents ::
  "u8 \<Rightarrow> u64 subnode_entry list list \<Rightarrow> u64 \<Rightarrow> block_spec list
    \<Rightarrow> writer_error + u64 subnode_entry list \<times> u64 \<times> block_spec list" where
  "append_subnode_parents level [] next_index blocks = Inr ([], next_index, blocks)"
| "append_subnode_parents level (grp # grps) next_index blocks =
    (case take_block_id next_index True of Inl e \<Rightarrow> Inl e
     | Inr (bid, next_index) \<Rightarrow>
       (case append_subnode_parents level grps next_index
            (blocks @ [\<lparr>sp_id = bid, sp_payload = IntermediateSubnode level grp, sp_ref_count = 2\<rparr>]) of
          Inl e \<Rightarrow> Inl e
        | Inr (parents, r) \<Rightarrow> Inr (\<lparr>sn_node = sn_node (grp ! 0), sn_block = bid\<rparr> # parents, r)))"

text \<open>The loop over the levels ends because the level is a byte.\<close>

function append_subnode_levels ::
  "u8 \<Rightarrow> u64 subnode_entry list \<Rightarrow> u64 \<Rightarrow> block_spec list \<Rightarrow> writer_error + u64 \<times> u64 \<times> block_spec list" where
  "append_subnode_levels level roots next_index blocks =
    (if \<not> length roots > 1 then Inr (sn_block (roots ! 0), next_index, blocks)
     else case append_subnode_parents level (chunks SUBNODE_INTERMEDIATE_CAPACITY roots) next_index blocks of Inl e \<Rightarrow> Inl e
     | Inr (parents, next_index, blocks) \<Rightarrow>
       (case checked_add_w level 1 of None \<Rightarrow> Inl (ValueTooLarge ''subnode tree depth'')
        | Some level \<Rightarrow> append_subnode_levels level parents next_index blocks))"
  by pat_completeness auto
termination
proof (relation "measure (\<lambda>(level, _). 256 - unat level)")
  fix level level' :: u8 assume "checked_add_w level 1 = Some level'"
  then have "unat level' = unat level + 1" by (auto dest: checked_add_w_Some)
  then show "((level', a), (level, b)) \<in> measure (\<lambda>(level, _). 256 - unat level)"
    for a b :: "u64 subnode_entry list \<times> u64 \<times> block_spec list"
    using unat_word_bound [of level'] by simp
qed simp

declare append_subnode_levels.simps [simp del]

definition append_subnode_tree ::
  "u64 subnode_leaf_entry list \<Rightarrow> u64 \<Rightarrow> block_spec list \<Rightarrow> writer_error + u64 \<times> u64 \<times> block_spec list" where
  "append_subnode_tree entries next_index blocks =
    (if entries = [] then Inl (InvalidStructure (Literal ''subnode tree must contain entries''))
     else if length entries > WRITER_MAX_SUBNODE_TREE_ENTRIES then Inl (ValueTooLarge ''subnode tree entry count'')
     else case append_subnode_leaves (chunks SUBNODE_LEAF_CAPACITY (sort_key sl_node entries)) next_index blocks of Inl e \<Rightarrow> Inl e
     | Inr (roots, next_index, blocks) \<Rightarrow> append_subnode_levels 1 roots next_index blocks)"

definition append_subnode_tree_at ::
  "u64 subnode_leaf_entry list \<Rightarrow> u64 \<Rightarrow> u64 \<Rightarrow> block_spec list \<Rightarrow> writer_error + u64 \<times> block_spec list" where
  "append_subnode_tree_at entries root next_index blocks =
    (if entries = [] then Inl (InvalidStructure (Literal ''subnode tree must contain entries''))
     else if length entries > WRITER_MAX_SUBNODE_TREE_ENTRIES then Inl (ValueTooLarge ''subnode tree entry count'')
     else let entries = sort_key sl_node entries in
       if length entries \<le> SUBNODE_LEAF_CAPACITY
       then Inr (next_index, blocks @ [\<lparr>sp_id = root, sp_payload = PayloadSubnode entries, sp_ref_count = 2\<rparr>])
       else (case append_subnode_leaves (chunks SUBNODE_LEAF_CAPACITY entries) next_index blocks of Inl e \<Rightarrow> Inl e
         | Inr (leaves, next_index, blocks) \<Rightarrow>
           Inr (next_index, blocks @ [\<lparr>sp_id = root, sp_payload = IntermediateSubnode 1 leaves, sp_ref_count = 2\<rparr>])))"

section \<open>Identifiers\<close>

definition block_bid :: "bool \<Rightarrow> nat \<Rightarrow> u64" where
  "block_bid internal n = word_of_nat (4 * n + (if internal then 2 else 0))"

definition bids :: "bool \<Rightarrow> nat \<Rightarrow> nat \<Rightarrow> u64 list" where
  "bids internal n m = map (block_bid internal) [n..<n + m]"

lemma length_bids [simp]: "length (bids internal n m) = m"
  by (simp add: bids_def)

lemma bids_0 [simp]: "bids internal n 0 = []"
  by (simp add: bids_def)

lemma bids_Suc [simp]: "bids internal n (Suc m) = block_bid internal n # bids internal (Suc n) m"
  by (simp add: bids_def upt_conv_Cons del: upt_Suc)

lemma unat_block_bid: "n < 2 ^ 62 \<Longrightarrow> unat (block_bid internal n) = 4 * n + (if internal then 2 else 0)"
  unfolding block_bid_def by (subst unat_of_nat) simp

lemma take_block_id_Inr:
  assumes "n < 2 ^ 62"
  shows "take_block_id (word_of_nat n) internal = Inr (block_bid internal n, word_of_nat (Suc n))"
    and "block_id_is_internal (block_bid internal n) = internal"
proof -
  define w where "w = (word_of_nat n :: u64)"
  have un: "unat w = n" using assms by (simp add: w_def unsigned_of_nat take_bit_nat_eq_self)
  have "w \<le> MAX_UNICODE_BLOCK_INDEX" using assms un by (simp add: word_le_nat_alt max_index_values)
  then obtain bid where bid: "unicode_block_id_new internal w = Inr bid" "block_id_is_internal bid = internal"
      "bid = push_bit 2 w + (if internal then 2 else 0)"
    using unicode_block_id_new_cases [of w internal] by (cases "unicode_block_id_new internal w") auto
  have eq: "bid = block_bid internal n"
    by (simp add: bid(3) block_bid_def w_def push_bit_eq_mult mult.commute)
  have sum: "unat w + unat (1 :: u64) < 2 ^ LENGTH(64)" using un assms by simp
  have "word_of_nat (Suc n) = w + 1" by (simp add: w_def)
  then have "checked_add_w w 1 = Some (word_of_nat (Suc n))" using checked_add_w_SomeI [OF sum] by simp
  then show "take_block_id (word_of_nat n) internal = Inr (block_bid internal n, word_of_nat (Suc n))"
    using bid(1) unfolding w_def [symmetric]
    by (cases internal) (simp_all add: take_block_id_def internal_bid_def leaf_bid_def eq)
  show "block_id_is_internal (block_bid internal n) = internal" using bid(2) eq by simp
qed

lemma search_key_block_bid: "block_id_search_key (block_bid internal n) = block_bid internal n"
proof -
  have "\<not> bit (block_bid internal n) 0" by (simp add: block_bid_def bit_0)
  then have "0 < i" if "bit (block_bid internal n) i" for i using that by (cases i) simp_all
  then show ?thesis
    by (auto simp: block_id_search_key_def bit_eq_iff bit_and_iff bit_not_iff bit_1_iff dest: bit_imp_possible_bit)
qed

section \<open>What is appended\<close>

text \<open>
  Specifications with fresh identifiers: the index of the identifier counts up from \<open>n\<close>.
\<close>

definition fresh_specs :: "nat \<Rightarrow> block_spec list \<Rightarrow> bool" where
  "fresh_specs n specs \<longleftrightarrow> n + length specs \<le> 2 ^ 62 \<and>
    (\<forall>i<length specs. \<exists>internal. sp_id (specs ! i) = block_bid internal (n + i))"

lemma fresh_specs_Nil [simp]: "fresh_specs n [] \<longleftrightarrow> n \<le> 2 ^ 62"
  by (simp add: fresh_specs_def)

lemma fresh_specs_append:
  "fresh_specs n xs \<Longrightarrow> fresh_specs (n + length xs) ys \<Longrightarrow> fresh_specs n (xs @ ys)"
  unfolding fresh_specs_def
proof (elim conjE, intro conjI allI impI)
  fix i assume a: "\<forall>i<length xs. \<exists>internal. sp_id (xs ! i) = block_bid internal (n + i)"
    "\<forall>i<length ys. \<exists>internal. sp_id (ys ! i) = block_bid internal (n + length xs + i)" "i < length (xs @ ys)"
  show "\<exists>internal. sp_id ((xs @ ys) ! i) = block_bid internal (n + i)"
  proof (cases "i < length xs")
    case False
    then show ?thesis using a(2) [rule_format, of "i - length xs"] a(3) by (simp add: nth_append)
  qed (use a(1) in \<open>simp add: nth_append\<close>)
qed simp

lemma block_bid_index: "n < 2 ^ 62 \<Longrightarrow> unat (block_bid internal n) div 4 = n"
  by (simp add: unat_block_bid)

lemma fresh_ids_ok:
  assumes "fresh_specs n specs"
  shows "ids_ok specs"
proof -
  have id: "unat (sp_id (specs ! i)) div 4 = n + i" "block_id_search_key (sp_id (specs ! i)) = sp_id (specs ! i)"
    if i: "i < length specs" for i
  proof -
    obtain internal where e: "sp_id (specs ! i) = block_bid internal (n + i)" and b: "n + i < 2 ^ 62"
      using assms i by (auto simp: fresh_specs_def)
    show "unat (sp_id (specs ! i)) div 4 = n + i" "block_id_search_key (sp_id (specs ! i)) = sp_id (specs ! i)"
      unfolding e by (rule block_bid_index [OF b], rule search_key_block_bid)
  qed
  have "map (\<lambda>b. unat (sp_id b) div 4) specs = [n..<n + length specs]"
    by (rule nth_equalityI) (simp_all add: id)
  then have "distinct (map (\<lambda>b. unat (sp_id b) div 4) specs)" by simp
  then have "distinct (map sp_id specs)" by (simp add: distinct_map inj_on_def)
  then show ?thesis using id(2) by (auto simp: ids_ok_def in_set_conv_nth)
qed

definition data_spec :: "u64 \<Rightarrow> bytes \<Rightarrow> block_spec" where
  "data_spec bid c = \<lparr>sp_id = bid, sp_payload = PayloadData c, sp_ref_count = 2\<rparr>"

lemma sp_id_data_spec [simp]: "sp_id (data_spec bid c) = bid"
  by (simp add: data_spec_def)

lemma append_leaves_eq:
  "n + length cs \<le> 2 ^ 62 \<Longrightarrow> append_leaves cs (word_of_nat n) blocks =
    Inr (zip (bids False n (length cs)) (map length cs), word_of_nat (n + length cs),
      blocks @ map2 data_spec (bids False n (length cs)) cs)"
proof (induction cs arbitrary: n blocks)
  case (Cons c cs)
  then show ?case
    using Cons.IH [of "Suc n"] take_block_id_Inr(1) [of n False] by (simp add: data_spec_def del: of_nat_Suc)
qed simp

lemma total_sizes_Some:
  "unat t + sum_list szs < 2 ^ 32 \<Longrightarrow> \<exists>r. total_sizes t szs = Some r \<and> unat r = unat t + sum_list szs"
proof (induction szs arbitrary: t)
  case (Cons sz szs)
  have u: "unat (word_of_nat sz :: u32) = sz" using Cons.prems by (simp add: unsigned_of_nat take_bit_nat_eq_self)
  have sum: "unat t + unat (word_of_nat sz :: u32) < 2 ^ LENGTH(32)" using Cons.prems u by simp
  note c = checked_add_w_SomeI [OF sum]
  have ut: "unat (t + word_of_nat sz) = unat t + sz" using checked_add_w_Some [OF c] u by simp
  have "sz < 2 ^ 32" using Cons.prems by simp
  then show ?case using Cons.IH [of "t + word_of_nat sz"] Cons.prems c ut by auto
qed simp

lemma total_sizes_0: "sum_list szs < 2 ^ 32 \<Longrightarrow> total_sizes 0 szs = Some (word_of_nat (sum_list szs))"
  using total_sizes_Some [of 0 szs] by (auto simp: word_unat_eq_iff unsigned_of_nat take_bit_nat_eq_self)

definition group_size :: "(u64 \<times> nat) list \<Rightarrow> nat" where
  "group_size grp = sum_list (map snd grp)"

definition xblock_spec :: "u64 \<Rightarrow> (u64 \<times> nat) list \<Rightarrow> block_spec" where
  "xblock_spec bid grp = \<lparr>sp_id = bid, sp_payload = PayloadDataTree 1 (word_of_nat (group_size grp)) (map fst grp),
     sp_ref_count = 2\<rparr>"

lemma sp_id_xblock_spec [simp]: "sp_id (xblock_spec bid grp) = bid"
  by (simp add: xblock_spec_def)

lemma append_xblocks_eq:
  "n + length gs \<le> 2 ^ 62 \<Longrightarrow> \<forall>g\<in>set gs. group_size g < 2 ^ 32 \<Longrightarrow> append_xblocks gs (word_of_nat n) blocks =
    Inr (zip (bids True n (length gs)) (map (word_of_nat \<circ> group_size) gs), word_of_nat (n + length gs),
      blocks @ map2 xblock_spec (bids True n (length gs)) gs)"
proof (induction gs arbitrary: n blocks)
  case (Cons g gs)
  then show ?case
    using Cons.IH [of "Suc n"] take_block_id_Inr(1) [of n True] total_sizes_0 [of "map snd g"]
    by (simp add: xblock_spec_def group_size_def [symmetric] del: of_nat_Suc)
qed simp

text \<open>A value in a set of blocks: one data block, or data blocks under one or two levels.\<close>

definition leaf_in :: "block_spec set \<Rightarrow> u64 \<Rightarrow> bytes \<Rightarrow> bool" where
  "leaf_in A bid c \<longleftrightarrow> data_spec bid c \<in> A \<and> \<not> block_id_is_internal bid"

definition xblock_in :: "block_spec set \<Rightarrow> u64 \<Rightarrow> bytes list \<Rightarrow> bool" where
  "xblock_in A bid cs \<longleftrightarrow> block_id_is_internal bid \<and>
    (\<exists>ids size. \<lparr>sp_id = bid, sp_payload = PayloadDataTree 1 size ids, sp_ref_count = 2\<rparr> \<in> A \<and>
      list_all2 (leaf_in A) ids cs \<and> unat size = length (concat cs))"

definition value_in :: "block_spec set \<Rightarrow> u64 \<Rightarrow> bytes \<Rightarrow> bool" where
  "value_in A root bs \<longleftrightarrow> (let cs = chunks 8176 bs; css = chunks 1021 cs in
    leaf_in A root bs \<or> xblock_in A root cs \<or>
    (block_id_is_internal root \<and> (\<exists>xids size.
      \<lparr>sp_id = root, sp_payload = PayloadDataTree 2 size xids, sp_ref_count = 2\<rparr> \<in> A \<and>
      list_all2 (xblock_in A) xids css \<and> distinct xids \<and> unat size = length bs)))"

text \<open>The entries a traversal of the value meets.\<close>

definition value_entries :: "bytes \<Rightarrow> nat" where
  "value_entries bs = length (chunks 8176 bs) + length (chunks 1021 (chunks 8176 bs))"

lemma value_entries_le: "value_entries bs \<le> length bs div 8176 + length bs div 8176 div 1021 + 2"
proof -
  let ?m = "length bs div 8176"
  have "length (chunks 8176 bs) \<le> ?m + 1" by (simp add: length_chunks div_ceil_def)
  moreover from this have "length (chunks 1021 (chunks 8176 bs)) \<le> ?m div 1021 + 1"
    using div_ceil_mult_lt [of 1021 "length (chunks 8176 bs)"] by (simp add: length_chunks [of 1021])
  ultimately show ?thesis by (simp add: value_entries_def)
qed

lemma chunks_map: "chunks k (map f xs) = map (map f) (chunks k xs)"
proof (induction k xs rule: chunks.induct)
  case (1 k xs)
  then show ?case
    by (cases "k = 0 \<or> xs = []") (simp_all add: chunks.simps [of k xs] chunks.simps [of k "map f xs"] take_map drop_map)
qed

lemma distinct_bids: "n + m \<le> 2 ^ 62 \<Longrightarrow> distinct (bids internal n m)"
  unfolding bids_def by (rule distinct_map [THEN iffD2]) (auto intro!: inj_onI dest!: arg_cong [of _ _ "\<lambda>b. unat b div 4"] simp: block_bid_index)

lemma internal_bids: "n + m \<le> 2 ^ 62 \<Longrightarrow> \<forall>b\<in>set (bids internal n m). block_id_is_internal b = internal"
  by (auto simp: bids_def take_block_id_Inr(2))

lemma fresh_specs_map2:
  "n + length xs \<le> 2 ^ 62 \<Longrightarrow> (\<And>bid x. sp_id (f bid x) = bid) \<Longrightarrow> fresh_specs n (map2 f (bids internal n (length xs)) xs)"
  by (auto simp: fresh_specs_def bids_def)

lemma length_concat_le: "\<forall>c\<in>set cs. length c \<le> k \<Longrightarrow> length (concat cs) \<le> length cs * k"
  by (induction cs) (auto intro: add_le_mono)

text \<open>The data blocks of a value, cut into \<open>cs\<close>, and the blocks above them.\<close>

definition data_specs :: "nat \<Rightarrow> bytes list \<Rightarrow> block_spec list" where
  "data_specs n cs = map2 data_spec (bids False n (length cs)) cs"

definition value_groups :: "nat \<Rightarrow> bytes list \<Rightarrow> (u64 \<times> bytes) list list" where
  "value_groups n cs = chunks 1021 (zip (bids False n (length cs)) cs)"

definition sized_groups :: "nat \<Rightarrow> bytes list \<Rightarrow> (u64 \<times> nat) list list" where
  "sized_groups n cs = map (map (\<lambda>(b, c). (b, length c))) (value_groups n cs)"

definition xblock_ids :: "nat \<Rightarrow> bytes list \<Rightarrow> u64 list" where
  "xblock_ids n cs = bids True (n + length cs) (length (value_groups n cs))"

definition xblock_specs :: "nat \<Rightarrow> bytes list \<Rightarrow> block_spec list" where
  "xblock_specs n cs = map2 xblock_spec (xblock_ids n cs) (sized_groups n cs)"

definition cut_ok :: "nat \<Rightarrow> bytes list \<Rightarrow> bool" where
  "cut_ok n cs \<longleftrightarrow> n + 300000 \<le> 2 ^ 62 \<and> length cs \<le> 262658 \<and> (\<forall>c\<in>set cs. 1 \<le> length c \<and> length c \<le> 8176)"

definition specs_ok :: "block_spec list \<Rightarrow> bool" where
  "specs_ok specs \<longleftrightarrow> list_all (\<lambda>b. payload_ok (sp_id b) (sp_payload b)) specs"

lemma specs_ok_append [simp]: "specs_ok (xs @ ys) \<longleftrightarrow> specs_ok xs \<and> specs_ok ys"
  by (simp add: specs_ok_def)

lemma block_subnodes_append [simp]: "block_subnodes (xs @ ys) = block_subnodes xs @ block_subnodes ys"
  by (induction xs) simp_all

lemma block_subnodes_data [simp]: "block_subnodes (map2 data_spec ids cs) = []"
  by (induction ids cs rule: list_induct2') (simp_all add: data_spec_def)

lemma block_subnodes_xblock [simp]: "block_subnodes (map2 xblock_spec ids gs) = []"
  by (induction ids gs rule: list_induct2') (simp_all add: xblock_spec_def)

lemma value_groups_bounds:
  assumes "cut_ok n cs"
  shows "length (value_groups n cs) \<le> 258" "n + length cs \<le> 2 ^ 62" "n + length cs + length (value_groups n cs) < 2 ^ 62"
proof -
  show g: "length (value_groups n cs) \<le> 258"
    using assms div_le_mono [of "length cs" 262658 1021]
    by (simp add: cut_ok_def value_groups_def length_chunks div_ceil_def)
  show "n + length cs \<le> 2 ^ 62" "n + length cs + length (value_groups n cs) < 2 ^ 62"
    using assms g by (simp_all add: cut_ok_def)
qed

lemma value_group:
  assumes "cut_ok n cs" "p \<in> set (value_groups n cs)"
  shows "length p \<le> 1021" "length (concat (map snd p)) < 2 ^ 32"
    "(b, c) \<in> set p \<Longrightarrow> data_spec b c \<in> set (data_specs n cs) \<and> \<not> block_id_is_internal b \<and> length c \<le> 8176"
proof -
  show len: "length p \<le> 1021" using chunks_bounds [of 1021 p] assms(2) by (simp add: value_groups_def)
  have "concat (value_groups n cs) = zip (bids False n (length cs)) cs" by (simp add: value_groups_def)
  then have mem: "(b, c) \<in> set (zip (bids False n (length cs)) cs)" if "(b, c) \<in> set p" for b c
    using that assms(2) by (metis UN_I set_concat)
  then show leaf: "(b, c) \<in> set p \<Longrightarrow> data_spec b c \<in> set (data_specs n cs) \<and> \<not> block_id_is_internal b \<and> length c \<le> 8176" for b c
    using internal_bids [OF value_groups_bounds(2) [OF assms(1)], of False] assms(1)
    by (auto simp: data_specs_def cut_ok_def dest!: mem dest: set_zip_leftD set_zip_rightD)
  have "length (concat (map snd p)) \<le> length p * 8176" using length_concat_le [of "map snd p" 8176] leaf by force
  then show "length (concat (map snd p)) < 2 ^ 32" using len by simp
qed

lemma group_size_parts: "group_size (map (\<lambda>(b, c). (b, length c)) p) = length (concat (map snd p))"
  by (simp add: group_size_def comp_def length_concat case_prod_unfold)

lemma group_sizes_parts:
  "sum_list (map (group_size \<circ> map (\<lambda>(b, c). (b, length c))) ps) = length (concat (concat (map (map snd) ps)))"
  by (induction ps) (simp_all add: group_size_parts)

lemma xblocks_in:
  assumes cut: "cut_ok n cs" and A: "set (data_specs n cs) \<subseteq> A" "set (xblock_specs n cs) \<subseteq> A"
  shows "list_all2 (xblock_in A) (xblock_ids n cs) (map (map snd) (value_groups n cs))"
proof (rule list_all2_all_nthI; simp add: xblock_ids_def)
  fix i assume i: "i < length (value_groups n cs)"
  let ?p = "value_groups n cs ! i" and ?b = "bids True (n + length cs) (length (value_groups n cs)) ! i"
  have p: "?p \<in> set (value_groups n cs)" using i by simp
  have "xblock_spec ?b (map (\<lambda>(b, c). (b, length c)) ?p) \<in> A"
    using A(2) i by (force simp: xblock_specs_def xblock_ids_def sized_groups_def set_zip)
  then have "\<lparr>sp_id = ?b, sp_payload = PayloadDataTree 1 (word_of_nat (length (concat (map snd ?p)))) (map fst ?p), sp_ref_count = 2\<rparr> \<in> A"
    by (simp only: xblock_spec_def group_size_parts) (simp add: comp_def case_prod_unfold)
  moreover have "list_all2 (leaf_in A) (map fst ?p) (map snd ?p)"
    using value_group(3) [OF cut p] A(1) by (auto simp: list.rel_map list.rel_refl_strong leaf_in_def list_all2_same)
  moreover have "unat (word_of_nat (length (concat (map snd ?p))) :: u32) = length (concat (map snd ?p))"
    using value_group(2) [OF cut p] by (simp add: unsigned_of_nat take_bit_nat_eq_self)
  moreover have "block_id_is_internal ?b"
    using internal_bids [of "n + length cs" "length (value_groups n cs)" True] value_groups_bounds(3) [OF cut] i by simp
  ultimately show "xblock_in A ?b (map snd ?p)" by (auto simp: xblock_in_def)
qed

lemma concat_value_groups: "concat (map (map snd) (value_groups n cs)) = cs"
  by (simp add: map_concat [symmetric] value_groups_def)

lemma value_groups_chunks: "map (map snd) (value_groups n cs) = chunks 1021 cs"
  by (simp add: value_groups_def chunks_map [symmetric])

lemma data_specs_ok:
  assumes "cut_ok n cs"
  shows "fresh_specs n (data_specs n cs)" "specs_ok (data_specs n cs)" "block_subnodes (data_specs n cs) = []"
proof -
  note ids = value_groups_bounds(2) [OF assms]
  show "fresh_specs n (data_specs n cs)" unfolding data_specs_def using fresh_specs_map2 [OF ids] by simp
  show "specs_ok (data_specs n cs)"
    using assms internal_bids [OF ids, of False]
    by (force simp: specs_ok_def data_specs_def list_all_iff data_spec_def cut_ok_def dest: set_zip_leftD set_zip_rightD)
  show "block_subnodes (data_specs n cs) = []" by (simp add: data_specs_def)
qed

lemma xblock_specs_ok:
  assumes "cut_ok n cs"
  shows "fresh_specs (n + length cs) (xblock_specs n cs)" "specs_ok (xblock_specs n cs)" "block_subnodes (xblock_specs n cs) = []"
proof -
  have x: "n + length cs + length (value_groups n cs) \<le> 2 ^ 62" using value_groups_bounds(3) [OF assms] by simp
  show "fresh_specs (n + length cs) (xblock_specs n cs)"
    unfolding xblock_specs_def xblock_ids_def
    using fresh_specs_map2 [of "n + length cs" "sized_groups n cs" xblock_spec True] x by (simp add: sized_groups_def)
  have "block_id_is_internal b \<and> length p \<le> 1021 \<and> (\<forall>(b, c)\<in>set p. \<not> block_id_is_internal b)"
    if "(b, p) \<in> set (zip (xblock_ids n cs) (value_groups n cs))" for b p
    using internal_bids [OF x, of True] value_group(1,3) [OF assms set_zip_rightD [OF that]] set_zip_leftD [OF that]
    by (auto simp: xblock_ids_def)
  then show "specs_ok (xblock_specs n cs)"
    by (fastforce simp: specs_ok_def list_all_iff xblock_specs_def sized_groups_def zip_map2 xblock_spec_def)
  show "block_subnodes (xblock_specs n cs) = []" by (simp add: xblock_specs_def)
qed

lemma append_xxblock_eq:
  assumes "length xs \<noteq> 1" "length xs \<le> 1021" "n < 2 ^ 62" "sum_list (map (unat \<circ> snd) xs) < 2 ^ 32"
  shows "append_xxblock e e' xs (word_of_nat n) blocks = Inr (block_bid True n, word_of_nat (Suc n),
    blocks @ [\<lparr>sp_id = block_bid True n, sp_payload = PayloadDataTree 2 (word_of_nat (sum_list (map (unat \<circ> snd) xs))) (map fst xs),
      sp_ref_count = 2\<rparr>])"
  using assms take_block_id_Inr(1) [of n True]
  by (simp add: append_xxblock_def WRITER_MAX_DATA_TREE_ENTRIES_def total_sizes_0 del: of_nat_Suc)

lemma append_data_tree_above:
  assumes cut: "cut_ok n cs" and cs: "cs = chunks 8176 bs" "length cs \<noteq> 1"
  shows "append_data_tree bs (word_of_nat n) blocks =
    append_xxblock ''XXBLOCK entry count'' ''XXBLOCK size''
      (zip (xblock_ids n cs) (map (word_of_nat \<circ> group_size) (sized_groups n cs)))
      (word_of_nat (n + length cs + length (value_groups n cs))) (blocks @ data_specs n cs @ xblock_specs n cs)"
proof -
  have gs: "sized_groups n cs = chunks 1021 (zip (bids False n (length cs)) (map length cs))"
    by (simp add: sized_groups_def value_groups_def chunks_map [symmetric] zip_map2)
  have "\<forall>g\<in>set (sized_groups n cs). group_size g < 2 ^ 32"
    using value_group(2) [OF cut] by (auto simp: sized_groups_def group_size_parts)
  then have "append_xblocks (sized_groups n cs) (word_of_nat (n + length cs)) (blocks @ data_specs n cs) =
      Inr (zip (xblock_ids n cs) (map (word_of_nat \<circ> group_size) (sized_groups n cs)),
        word_of_nat (n + length cs + length (value_groups n cs)), blocks @ data_specs n cs @ xblock_specs n cs)"
    using append_xblocks_eq [of "n + length cs" "sized_groups n cs"] value_groups_bounds(3) [OF cut]
    by (simp add: xblock_specs_def xblock_ids_def sized_groups_def del: of_nat_add)
  then show ?thesis
    using append_leaves_eq [OF value_groups_bounds(2) [OF cut], of blocks] cs(2)
    by (simp add: append_data_tree_def append_data_tree_sized_def MAX_DATA_BLOCK_PAYLOAD_def cs(1) [symmetric]
        WRITER_MAX_DATA_TREE_ENTRIES_def gs data_specs_def del: of_nat_add)
qed

lemma group_sizes:
  assumes "cut_ok n cs"
  shows "sum_list (map (unat \<circ> snd) (zip (xblock_ids n cs) (map (word_of_nat \<circ> group_size) (sized_groups n cs) :: u32 list))) = length (concat cs)"
proof -
  have "map (unat \<circ> snd) (zip (xblock_ids n cs) (map (word_of_nat \<circ> group_size) (sized_groups n cs) :: u32 list)) = map group_size (sized_groups n cs)"
    using value_group(2) [OF assms]
    by (auto simp: xblock_ids_def sized_groups_def group_size_parts comp_def unsigned_of_nat take_bit_nat_eq_self intro!: nth_equalityI)
  also have "sum_list (map group_size (sized_groups n cs)) = length (concat (concat (map (map snd) (value_groups n cs))))"
    by (simp add: sized_groups_def group_sizes_parts)
  finally show ?thesis by (simp add: concat_value_groups)
qed

text \<open>
  A value of at most two gibibytes can be appended while identifiers last; what is appended are
  fresh blocks that fit, and they hold the value below the identifier that is returned.
\<close>

definition value_appended :: "nat \<Rightarrow> block_spec list \<Rightarrow> u64 \<Rightarrow> bytes \<Rightarrow> bool" where
  "value_appended n new root bs \<longleftrightarrow>
    fresh_specs n new \<and> specs_ok new \<and> block_subnodes new = [] \<and> value_in (set new) root bs \<and> length new \<le> 300000"

lemma append_data_tree_one:
  assumes cut: "cut_ok n cs" and cs: "cs = chunks 8176 bs" "length cs = 1"
  shows "append_data_tree bs (word_of_nat n) blocks = Inr (block_bid False n, word_of_nat (n + length (data_specs n cs)), blocks @ data_specs n cs)"
    "value_appended n (data_specs n cs) (block_bid False n) bs"
proof -
  obtain c where c: "cs = [c]" using cs(2) by (auto simp: length_Suc_conv)
  have "concat cs = bs" by (simp add: cs(1))
  then have "c = bs" using c by simp
  moreover have "n < 2 ^ 62" using value_groups_bounds(2) [OF cut] c by simp
  ultimately show "value_appended n (data_specs n cs) (block_bid False n) bs"
    using data_specs_ok [OF cut] c by (auto simp: value_appended_def value_in_def Let_def leaf_in_def data_specs_def take_block_id_Inr(2))
  show "append_data_tree bs (word_of_nat n) blocks = Inr (block_bid False n, word_of_nat (n + length (data_specs n cs)), blocks @ data_specs n cs)"
    using append_leaves_eq [OF value_groups_bounds(2) [OF cut], of blocks]
    by (simp add: append_data_tree_def append_data_tree_sized_def MAX_DATA_BLOCK_PAYLOAD_def cs(1) [symmetric] c data_specs_def)
qed

lemma append_data_tree_many:
  assumes cut: "cut_ok n cs" and cs: "cs = chunks 8176 bs" "length cs \<noteq> 1" and len: "length bs \<le> 2 ^ 31"
  shows "\<exists>root new. append_data_tree bs (word_of_nat n) blocks = Inr (root, word_of_nat (n + length new), blocks @ new) \<and>
    value_appended n new root bs"
proof -
  let ?g = "length (value_groups n cs)" and ?k = "n + length cs + length (value_groups n cs)"
  let ?DX = "data_specs n cs @ xblock_specs n cs"
  have DX: "fresh_specs n ?DX" "specs_ok ?DX" "block_subnodes ?DX = []" "length ?DX = length cs + ?g"
    using fresh_specs_append [OF data_specs_ok(1) [OF cut]] data_specs_ok [OF cut] xblock_specs_ok [OF cut]
    by (simp_all add: data_specs_def xblock_specs_def xblock_ids_def sized_groups_def)
  have bs: "concat cs = bs" by (simp add: cs(1))
  have m: "length cs \<le> 262658" using cut by (simp add: cut_ok_def)
  note g = value_groups_bounds [OF cut]
  show ?thesis
  proof (cases "?g = 1")
    case True
    then obtain p where p: "value_groups n cs = [p]" by (auto simp: length_Suc_conv)
    have "xblock_in (set ?DX) (xblock_ids n cs ! 0) cs"
      using xblocks_in [OF cut, of "set ?DX"] concat_value_groups [of n cs] by (simp add: xblock_ids_def p)
    then have "value_appended n ?DX (xblock_ids n cs ! 0) bs"
      using DX m p cs(1) by (auto simp: value_appended_def value_in_def Let_def)
    then show ?thesis
      using append_data_tree_above [OF cut cs] DX(4) by (auto simp: append_xxblock_def xblock_ids_def sized_groups_def p)
  next
    case False
    define x where "x = \<lparr>sp_id = block_bid True ?k, sp_payload = PayloadDataTree 2 (word_of_nat (length bs)) (xblock_ids n cs),
      sp_ref_count = 2\<rparr>"
    have int: "block_id_is_internal (sp_id x)" using take_block_id_Inr(2) [OF g(3), of True] by (simp add: x_def)
    have "append_data_tree bs (word_of_nat n) blocks = Inr (sp_id x, word_of_nat (n + length (?DX @ [x])), blocks @ ?DX @ [x])"
      using append_data_tree_above [OF cut cs] append_xxblock_eq [OF _ _ g(3), of "zip (xblock_ids n cs) (map (word_of_nat \<circ> group_size) (sized_groups n cs))"]
        group_sizes [OF cut] False g(1) len bs DX(4)
      by (simp add: x_def xblock_ids_def sized_groups_def add.assoc)
    moreover have "value_in (set (?DX @ [x])) (sp_id x) bs"
    proof -
      have "list_all2 (xblock_in (set (?DX @ [x]))) (xblock_ids n cs) (map (map snd) (value_groups n cs))"
        by (rule xblocks_in [OF cut]) auto
      moreover have "unat (word_of_nat (length bs) :: u32) = length bs"
        using len by (simp add: unsigned_of_nat take_bit_nat_eq_self)
      ultimately show ?thesis
        using int distinct_bids [of "n + length cs" ?g True] value_groups_chunks [of n cs] g
        unfolding value_in_def x_def Let_def cs(1) [symmetric] by (intro disjI2 conjI exI) (auto simp: xblock_ids_def)
    qed
    moreover have "fresh_specs n (?DX @ [x])"
      using fresh_specs_append [OF DX(1), of "[x]"] g(3) DX(4) by (auto simp: fresh_specs_def x_def add.assoc)
    moreover have "specs_ok (?DX @ [x])"
      using DX(2) g internal_bids [of "n + length cs" ?g True] int by (auto simp: specs_ok_def x_def xblock_ids_def)
    ultimately have "value_appended n (?DX @ [x]) (sp_id x) bs"
      using DX(3,4) m g(1) by (simp add: value_appended_def x_def)
    then show ?thesis using \<open>append_data_tree bs (word_of_nat n) blocks = _\<close> by blast
  qed
qed

lemma append_data_tree_value:
  assumes "length bs \<le> 2 ^ 31" "n + 300000 \<le> 2 ^ 62"
  shows "\<exists>root new. append_data_tree bs (word_of_nat n) blocks = Inr (root, word_of_nat (n + length new), blocks @ new) \<and>
    value_appended n new root bs"
proof -
  have "length (chunks 8176 bs) \<le> 262658"
    using div_le_mono [OF assms(1), of 8176] by (simp add: length_chunks div_ceil_def)
  then have "cut_ok n (chunks 8176 bs)"
    using chunks_bounds [of 8176 _ bs] assms(2) by (auto simp: cut_ok_def Suc_le_eq)
  then show ?thesis
    using append_data_tree_one [of n "chunks 8176 bs"] append_data_tree_many [of n "chunks 8176 bs"] assms(1) by blast
qed

section \<open>Reading an appended value\<close>

lemma stored_spec:
  assumes "block_store file H page specs" "b \<in> set specs"
  obtains w where "unicode_lookup H file page (block_id_search_key (sp_id b)) = Inr (bbt_entry w)"
    "wb_id w = sp_id b" "unat (wb_size w) = logical_size (sp_payload b)" "payload_stored file w (sp_payload b)"
  using assms by (auto simp: block_store_def)

lemma read_entry_tree_written:
  "read_entry_tree (unicode_source h file Permute page) (bbt_entry w) =
    data_tree_read unicode_format file Permute (written_ref w) (wb_size w)"
  "bs_size (unicode_source h file Permute page) (bbt_entry w) = wb_size w"
  by (simp_all add: read_entry_tree_def unicode_source_def bbt_entry_def unicode_block_entry_new_with_ref_count_def written_ref_def)

lemma stored_tree:
  assumes "block_store file H page specs"
    and "\<lparr>sp_id = bid, sp_payload = PayloadDataTree level sz ids, sp_ref_count = c\<rparr> \<in> set specs"
  obtains e b where "unicode_lookup H file page (block_id_search_key bid) = Inr e"
    "read_entry_tree (unicode_source (Suc H) file Permute page) e = Inr (DataIntermediate b)"
    "dh_level (dt_header b) = level" "dh_total_size (dt_header b) = sz" "dt_entries b = ids"
proof -
  obtain w where w: "unicode_lookup H file page (block_id_search_key bid) = Inr (bbt_entry w)"
    "payload_stored file w (PayloadDataTree level sz ids)"
    by (rule stored_spec [OF assms]) simp
  then show thesis using that [of "bbt_entry w"] by (auto simp: read_entry_tree_written)
qed

lemma block_store_subset: "block_store file H page specs \<Longrightarrow> set specs' \<subseteq> set specs \<Longrightarrow> block_store file H page specs'"
  by (auto simp: block_store_def)

text \<open>What a reader sees of one data block and of the blocks below an inner one.\<close>

definition leaf_seen ::
  "(u64, unicode_block_entry, 'c) block_source \<Rightarrow> (u64 \<Rightarrow> io_error + unicode_block_entry) \<Rightarrow> u64 \<Rightarrow> unicode_block_entry \<Rightarrow> bytes \<Rightarrow> bool" where
  "leaf_seen S loc bid e c \<longleftrightarrow> leaf_lookup loc bid = Inr e \<and> unat (bs_size S e) = length c \<and>
    (\<exists>b. leaf_block S e = Inr b \<and> db_data b = c)"

lemma leaf_in_seen:
  assumes "block_store file H page specs" "leaf_in (set specs) bid c"
  shows "\<exists>e. leaf_seen (unicode_source (Suc H) file Permute page) (unicode_lookup H file page) bid e c"
proof -
  obtain w where "unicode_lookup H file page (block_id_search_key bid) = Inr (bbt_entry w)"
    "unat (wb_size w) = logical_size (PayloadData c)" "payload_stored file w (PayloadData c)"
    by (rule stored_spec [OF assms(1), of "data_spec bid c"]) (use assms(2) in \<open>auto simp: leaf_in_def data_spec_def\<close>)
  then show ?thesis
    using assms(2)
    by (intro exI [of _ "bbt_entry w"])
      (auto simp: leaf_seen_def leaf_lookup_def leaf_in_def leaf_block_def read_entry_tree_written)
qed

lemma leaves_in_seen:
  assumes store: "block_store file H page specs" and "list_all2 (leaf_in (set specs)) ids cs"
  shows "\<exists>es bs. collect (leaf_lookup (unicode_lookup H file page)) ids = Inr es \<and>
    collect (leaf_block (unicode_source (Suc H) file Permute page)) es = Inr bs \<and> map db_data bs = cs \<and>
    sum_list (map (\<lambda>e. unat (bs_size (unicode_source (Suc H) file Permute page) e)) es) = length (concat cs) \<and> length es = length cs"
  using assms(2)
proof (induction rule: list_all2_induct)
  case (Cons i ids c cs)
  then show ?case using leaf_in_seen [OF store Cons(1)] by (auto simp: leaf_seen_def)
qed simp

lemma xblock_in_seen:
  assumes store: "block_store file H page specs" and "xblock_in (set specs) bid cs"
  shows "\<exists>es bs. child_leaves (unicode_source (Suc H) file Permute page) (unicode_lookup H file page) bid = Inr es \<and>
    collect (leaf_block (unicode_source (Suc H) file Permute page)) es = Inr bs \<and> map db_data bs = cs \<and> length es = length cs"
proof -
  obtain ids size where x: "\<lparr>sp_id = bid, sp_payload = PayloadDataTree 1 size ids, sp_ref_count = 2\<rparr> \<in> set specs"
    "list_all2 (leaf_in (set specs)) ids cs" "unat size = length (concat cs)" "block_id_is_internal bid"
    using assms(2) by (auto simp: xblock_in_def)
  show ?thesis
    using leaves_in_seen [OF store x(2)] x(3,4) by (auto simp: child_leaves_def intro: stored_tree [OF store x(1)])
qed

lemma xblocks_in_seen:
  assumes store: "block_store file H page specs" and "list_all2 (xblock_in (set specs)) ids css"
  shows "\<exists>ess bs. collect (child_leaves (unicode_source (Suc H) file Permute page) (unicode_lookup H file page)) ids = Inr ess \<and>
    collect (leaf_block (unicode_source (Suc H) file Permute page)) (concat ess) = Inr bs \<and>
    map db_data bs = concat css \<and> length (concat ess) = length (concat css)"
  using assms(2)
proof (induction rule: list_all2_induct)
  case (Cons i ids cs css)
  then obtain ess bs where "collect (child_leaves (unicode_source (Suc H) file Permute page) (unicode_lookup H file page)) ids = Inr ess"
    "collect (leaf_block (unicode_source (Suc H) file Permute page)) (concat ess) = Inr bs"
    "map db_data bs = concat css" "length (concat ess) = length (concat css)" by blast
  moreover obtain es bs' where "child_leaves (unicode_source (Suc H) file Permute page) (unicode_lookup H file page) i = Inr es"
    "collect (leaf_block (unicode_source (Suc H) file Permute page)) es = Inr bs'" "map db_data bs' = cs" "length es = length cs"
    using xblock_in_seen [OF store Cons(1)] by (elim exE conjE)
  moreover have "collect (leaf_block (unicode_source (Suc H) file Permute page)) (es @ concat ess) = Inr (bs' @ bs)"
    using calculation(2,6) by (auto simp: collect_append)
  ultimately show ?case by (intro exI [of _ "es # ess"] exI [of _ "bs' @ bs"]) simp
qed simp

lemma item_leaves_levels:
  "item_leaves S loc (b, 2, d) = child_leaves S loc b"
  "leaf_lookup loc b = Inr e \<Longrightarrow> item_leaves S loc (b, 1, d) = Inr [e]"
  by (simp_all add: item_leaves_def)

lemma collect_children: "collect (item_leaves S loc) (map (\<lambda>e. (e, 2, d)) ids) = collect (child_leaves S loc) ids"
  by (induction ids) (simp_all add: item_leaves_levels split: sum.splits)

lemma collect_items:
  "collect (leaf_lookup loc) ids = Inr es \<Longrightarrow> collect (item_leaves S loc) (map (\<lambda>e. (e, 1, d)) ids) = Inr (map (\<lambda>e. [e]) es)"
  by (auto simp: collect_Inr list.rel_map item_leaves_levels elim!: list.rel_mono_strong)

text \<open>The value is readable: the root is found, and the tree below it is there and declares its size.\<close>

lemma value_in_readable:
  assumes store: "block_store file H page specs" and "value_in (set specs) root bs" and max: "value_entries bs \<le> max_entries"
  shows "\<exists>e t blks. unicode_lookup H file page (block_id_search_key root) = Inr e \<and>
    read_entry_tree (unicode_source (Suc H) file Permute page) e = Inr t \<and>
    readable (unicode_source (Suc H) file Permute page) (unicode_lookup H file page) max_entries t blks \<and>
    concat (map db_data blks) = bs \<and> declared_size t = length bs"
  using assms(2) unfolding value_in_def Let_def
proof (elim disjE exE conjE)
  assume "leaf_in (set specs) root bs"
  from leaf_in_seen [OF store this] obtain e b where e: "leaf_lookup (unicode_lookup H file page) root = Inr e"
    "leaf_block (unicode_source (Suc H) file Permute page) e = Inr b" "db_data b = bs" by (auto simp: leaf_seen_def)
  then have "read_entry_tree (unicode_source (Suc H) file Permute page) e = Inr (DataLeaf b)" by (simp add: usource.leaf_block_Inr)
  then show ?thesis
    using e by (intro exI [of _ e] exI [of _ "DataLeaf b"] exI [of _ "[b]"])
      (auto simp: leaf_lookup_def readable_def declared_size_def split: if_splits)
next
  let ?cs = "chunks 8176 bs"
  assume x: "xblock_in (set specs) root ?cs"
  obtain ids size where b: "\<lparr>sp_id = root, sp_payload = PayloadDataTree 1 size ids, sp_ref_count = 2\<rparr> \<in> set specs"
    "list_all2 (leaf_in (set specs)) ids ?cs" "unat size = length bs" using x by (auto simp: xblock_in_def)
  obtain e blk where w: "unicode_lookup H file page (block_id_search_key root) = Inr e"
    "read_entry_tree (unicode_source (Suc H) file Permute page) e = Inr (DataIntermediate blk)"
    "dh_level (dt_header blk) = 1" "dh_total_size (dt_header blk) = size" "dt_entries blk = ids"
    by (rule stored_tree [OF store b(1)])
  obtain es blks where l: "collect (leaf_lookup (unicode_lookup H file page)) ids = Inr es"
    "collect (leaf_block (unicode_source (Suc H) file Permute page)) es = Inr blks" "map db_data blks = ?cs"
    using leaves_in_seen [OF store b(2)] by (elim exE conjE)
  show ?thesis
    using w l collect_items [OF l(1), of "unicode_source (Suc H) file Permute page" 1] list_all2_lengthD [OF b(2)] max b(3)
    by (intro exI [of _ e] exI [of _ "DataIntermediate blk"] exI [of _ blks])
      (simp add: readable_def data_tree_leaves_def within_budget_def declared_size_def value_entries_def)
next
  let ?css = "chunks 1021 (chunks 8176 bs)"
  fix xids size
  assume b: "\<lparr>sp_id = root, sp_payload = PayloadDataTree 2 size xids, sp_ref_count = 2\<rparr> \<in> set specs"
    "list_all2 (xblock_in (set specs)) xids ?css" "distinct xids" "unat size = length bs"
  obtain e blk where w: "unicode_lookup H file page (block_id_search_key root) = Inr e"
    "read_entry_tree (unicode_source (Suc H) file Permute page) e = Inr (DataIntermediate blk)"
    "dh_level (dt_header blk) = 2" "dh_total_size (dt_header blk) = size" "dt_entries blk = xids"
    by (rule stored_tree [OF store b(1)])
  obtain ess blks where l: "collect (child_leaves (unicode_source (Suc H) file Permute page) (unicode_lookup H file page)) xids = Inr ess"
    "collect (leaf_block (unicode_source (Suc H) file Permute page)) (concat ess) = Inr blks"
    "map db_data blks = concat ?css" "length (concat ess) = length (concat ?css)"
    using xblocks_in_seen [OF store b(2)] by (elim exE conjE)
  show ?thesis
    using w l b(3,4) max list_all2_lengthD [OF b(2)]
    by (intro exI [of _ e] exI [of _ "DataIntermediate blk"] exI [of _ blks])
      (simp add: readable_def data_tree_leaves_def within_budget_def declared_size_def value_entries_def collect_children distinct_map inj_on_def)
qed

text \<open>
  Looking up a root in the block B-tree of a file, reading its block and streaming the tree, with
  empty caches and buffers of any sizes: the bytes arrive in order.
\<close>

definition value_delivered :: "nat \<Rightarrow> bytes \<Rightarrow> (unicode_block_entry, u64) btree_root \<Rightarrow> u64 \<Rightarrow> bytes \<Rightarrow> bool" where
  "value_delivered H file page root bs \<longleftrightarrow>
    (let S = unicode_source (Suc H) file Permute page in
     \<exists>e pc t r pc' bc. bs_find S (block_id_search_key root) (\<lambda>_. None) = (Inr e, pc) \<and>
       read_entry_tree S e = Inr t \<and> streaming_reader S t pc (\<lambda>_. None) = (Inr r, pc', bc) \<and>
       (\<forall>ns. \<exists>r'. reader_run S ns r = (Inr (take (sum_list ns) bs), r')))"

lemma value_in_delivered:
  assumes store: "block_store file H page specs" and val: "value_in (set specs) root bs" and len: "length bs \<le> 2 ^ 31"
  shows "value_delivered H file page root bs"
proof -
  let ?S = "unicode_source (Suc H) file Permute page"
  have ent: "value_entries bs \<le> MAX_STREAMING_DATA_TREE_ENTRIES"
    using value_entries_le [of bs] div_le_mono [OF len, of 8176] div_le_mono [OF len, of "8176 * 1021"]
    by (simp add: MAX_STREAMING_DATA_TREE_ENTRIES_def div_mult2_eq)
  obtain e t blks where t: "unicode_lookup H file page (block_id_search_key root) = Inr e" "read_entry_tree ?S e = Inr t"
    "readable ?S (unicode_lookup H file page) MAX_STREAMING_DATA_TREE_ENTRIES t blks"
    "concat (map db_data blks) = bs" "declared_size t = length bs"
    using value_in_readable [OF store val ent] by (elim exE conjE)
  have "unicode_lookup_ok H file page (\<lambda>_. None)" using store by (simp add: block_store_def)
  from usource.find [OF this, of Permute "block_id_search_key root"]
  obtain pc where pc: "bs_find ?S (block_id_search_key root) (\<lambda>_. None) = (Inr e, pc)" "unicode_lookup_ok H file page pc"
    using t(1) by auto
  have "MAX_STREAMING_DATA_TREE_ENTRIES \<le> usize_max" "declared_size t \<le> usize_max"
    using len t(5) by (simp_all add: usize_max_def MAX_STREAMING_DATA_TREE_ENTRIES_def)
  moreover have "block_cache_agrees ?S (unicode_lookup H file page) (\<lambda>_. None)" by (simp add: block_cache_agrees_def)
  ultimately obtain r pc' bc where "data_tree_reader_new ?S t MAX_STREAMING_DATA_TREE_ENTRIES pc (\<lambda>_. None) = (Inr r, pc', bc)"
    "\<forall>ns. \<exists>r'. reader_run ?S ns r = (Inr (take (sum_list ns) bs), r')"
    using usource.reader_delivers [OF pc(2), of Permute "\<lambda>_. None" MAX_STREAMING_DATA_TREE_ENTRIES t blks] t(3-5) by auto
  then show ?thesis using pc(1) t(2) unfolding value_delivered_def Let_def streaming_reader_def by blast
qed

text \<open>Fresh identifiers are different from those with a smaller index.\<close>

lemma ids_ok_fresh:
  assumes "ids_ok specs" "\<forall>b\<in>set specs. unat (sp_id b) div 4 < n" "fresh_specs n new"
  shows "ids_ok (specs @ new)"
proof -
  have "\<forall>b\<in>set new. n \<le> unat (sp_id b) div 4"
  proof
    fix b assume "b \<in> set new"
    then obtain i where i: "i < length new" "b = new ! i" by (auto simp: in_set_conv_nth)
    then obtain internal where "sp_id b = block_bid internal (n + i)" "n + i < 2 ^ 62"
      using assms(3) by (auto simp: fresh_specs_def)
    then show "n \<le> unat (sp_id b) div 4" using block_bid_index [of "n + i" internal] by simp
  qed
  then have "sp_id ` set specs \<inter> sp_id ` set new = {}" using assms(2) by (force simp: disjoint_iff)
  then show ?thesis using assms(1) fresh_ids_ok [OF assms(3)] by (auto simp: ids_ok_def)
qed

lemma nid_counters_appended: "block_subnodes new = [] \<Longrightarrow> nid_counters nodes (blocks @ new) streamed = nid_counters nodes blocks streamed"
  by (simp add: nid_counters_def split: sum.splits)

section \<open>Properties\<close>

text \<open>
  C5. A value from memory to a reader: a value of up to two gibibytes, the empty one included,
  can be appended to the blocks of a store that is being assembled; finalising the store then succeeds, and in the
  file it gives, the search of the block B-tree finds the root of the value and streaming from it
  delivers exactly the bytes of the value, whatever the sizes of the buffers.
\<close>

theorem appended_value_read:
  assumes stream: "stream_ok file cursor specs written"
    and blocks: "list_all (\<lambda>b. payload_ok (sp_id b) (sp_payload b)) blocks" "\<forall>i. \<not> interrupted i"
      "specs @ blocks \<noteq> []" "length specs + length blocks + 300000 \<le> 2 ^ 24" "ids_ok (specs @ blocks)"
    and nodes: "nodes \<noteq> []" "length nodes \<le> 2 ^ 22" "list_all unicode_node_entry_ok nodes"
      "sorted_wrt (<) (map unicode_node_entry_key nodes)" "nid_counters nodes blocks streamed_subnodes = Inr nids"
    and ids: "\<forall>b\<in>set (specs @ blocks). unat (sp_id b) div 4 < n" "n \<le> 2 ^ 61"
    and bs: "length bs \<le> 2 ^ 31"
  shows "\<exists>root next_index blocks' projected file' h H page.
    append_data_tree bs (word_of_nat n) blocks = Inr (root, next_index, blocks') \<and>
    projected_finalized_file_eof cursor (length written) blocks' (length nodes) = Inr projected \<and>
    finalize_store interrupted file cursor written streamed_subnodes blocks' nodes next_index projected = Inr file' \<and>
    unicode_header_read file' = Inr (h, drop 564 file') \<and>
    unicode_block_btree_read file' (root_block_btree (uh_root h)) = Inr page \<and>
    value_delivered H file' page root bs"
proof -
  have n: "n + 300000 \<le> 2 ^ 62" using ids(2) by simp
  obtain root new where a: "append_data_tree bs (word_of_nat n) blocks = Inr (root, word_of_nat (n + length new), blocks @ new)"
    and new: "fresh_specs n new" "specs_ok new" "block_subnodes new = []" "value_in (set new) root bs" "length new \<le> 300000"
    using append_data_tree_value [OF bs n, of blocks] by (auto simp: value_appended_def)
  have all: "list_all (\<lambda>b. payload_ok (sp_id b) (sp_payload b)) (blocks @ new)" "\<forall>i<length (blocks @ new). \<not> interrupted i"
      "specs @ blocks @ new \<noteq> []" "length specs + length (blocks @ new) \<le> 2 ^ 24" "ids_ok (specs @ blocks @ new)"
    using blocks new ids_ok_fresh [OF blocks(5) ids(1) new(1)] by (auto simp: specs_ok_def)
  have "(word_of_nat (n + length new) :: u64) \<le> MAX_UNICODE_BLOCK_INDEX"
    using ids(2) new(5) by (simp add: word_le_nat_alt max_index_values unsigned_of_nat take_bit_nat_eq_self del: of_nat_add)
  from finalize_store_correct [OF stream all nodes(1-4) this nid_counters_appended [OF new(3), THEN trans, OF nodes(5)]]
  obtain projected file' h H page where
    f: "projected_finalized_file_eof cursor (length written) (blocks @ new) (length nodes) = Inr projected"
      "finalize_store interrupted file cursor written streamed_subnodes (blocks @ new) nodes (word_of_nat (n + length new)) projected = Inr file'"
      "unicode_header_read file' = Inr (h, drop 564 file')" "unicode_block_btree_read file' (root_block_btree (uh_root h)) = Inr page"
      "block_store file' H page (specs @ blocks @ new)" by (elim exE conjE)
  have "value_delivered H file' page root bs"
    by (rule value_in_delivered [OF block_store_subset [OF f(5)] new(4) bs]) auto
  then show ?thesis using a f(1-4) by blast
qed

theorem appended_value_read_witness:
  "\<exists>root next_index blocks' projected file' h H page.
    append_data_tree [1, 2, 3] 2 [sample_spec] = Inr (root, next_index, blocks') \<and>
    projected_finalized_file_eof 0x4800 0 blocks' 1 = Inr projected \<and>
    finalize_store (\<lambda>_. False) [] 0x4800 [] [] blocks' [sample_entry] next_index projected = Inr file' \<and>
    unicode_header_read file' = Inr (h, drop 564 file') \<and>
    unicode_block_btree_read file' (root_block_btree (uh_root h)) = Inr page \<and>
    value_delivered H file' page root [1, 2, 3]"
proof -
  have "stream_ok [] 0x4800 [] []" by (simp add: stream_ok_def)
  moreover have "payload_ok (sp_id sample_spec) (sp_payload sample_spec)" "ids_ok [sample_spec]" "unat (sp_id sample_spec) div 4 < 2"
    by (simp_all add: sample_spec_def block_id_is_internal_def ids_ok_def block_id_search_key_def)
  moreover have "unicode_node_entry_ok sample_entry"
    by (simp add: sample_entry_def unicode_node_entry_new_def unicode_node_entry_ok_def)
  moreover have "\<exists>nids. nid_counters [sample_entry] [sample_spec] [] = Inr nids"
    by (simp add: nid_counters_def sample_entry_def unicode_node_entry_new_def sample_spec_def update_nid_counter_def
        node_id_id_type_def node_id_type_try_from_def node_id_type_usize_def Let_def node_id_index_def checked_add_w_def)
  ultimately show ?thesis
    using appended_value_read [of "[]" "0x4800" "[]" "[]" "[sample_spec]" "\<lambda>_. False" "[sample_entry]" "[]" _ 2 "[1, 2, 3]"]
    by auto
qed

end
