(* ===== verification/Writer_Stream.thy ===== *)
theory Writer_Stream
  imports Writer_Tree
begin

text \<open>
  The message stream of \<open>writer.rs\<close>: blocks are emitted one by one while a payload is read, into the
  file or, for a projection, into no file at all; the state of the stream is captured before a
  message and restored when the message is given up. A stream carries the values that the
  interruption flag will have at its next checks. The hash function comes from a library and is a
  parameter; a reader is the bytes it delivers and how it ends.
\<close>

section \<open>The block stream\<close>

record block_stream =
  bst_file :: "bytes option"
  bst_cursor :: u64
  bst_written :: "written_block list"
  bst_interrupted :: "nat \<Rightarrow> bool"

definition emit :: "block_spec \<Rightarrow> block_stream \<Rightarrow> writer_error + block_stream" where
  "emit block st =
    (let flags = bst_interrupted st; st = st\<lparr>bst_interrupted := flags \<circ> Suc\<rparr> in
     case bst_file st of
       Some f \<Rightarrow>
         (case write_blocks flags f [block] (bst_cursor st) of Inl e \<Rightarrow> Inl e
          | Inr (ws, f, cursor) \<Rightarrow> Inr (st\<lparr>bst_file := Some f, bst_cursor := cursor, bst_written := bst_written st @ ws\<rparr>))
     | None \<Rightarrow>
         (case check_interrupted (flags 0) of Inl e \<Rightarrow> Inl e | Inr _ \<Rightarrow>
         (case block_extent (sp_payload block) (bst_cursor st) of Inl e \<Rightarrow> Inl e
          | Inr (sz, cursor, offset) \<Rightarrow>
            Inr (st\<lparr>bst_cursor := cursor, bst_written := bst_written st @ [\<lparr>wb_id = sp_id block, wb_offset = offset,
              wb_size = sz, wb_ref_count = sp_ref_count block\<rparr>]\<rparr>))))"

section \<open>Readers\<close>

text \<open>The bytes a reader delivers, and the error it then reports unless it just ends.\<close>

record byte_reader =
  rd_content :: bytes
  rd_error :: "io_error option"

definition reader_read_exact :: "nat \<Rightarrow> byte_reader \<Rightarrow> io_error + bytes \<times> byte_reader" where
  "reader_read_exact n reader =
    (if n \<le> length (rd_content reader)
     then Inr (take n (rd_content reader), reader\<lparr>rd_content := drop n (rd_content reader)\<rparr>)
     else Inl (case rd_error reader of None \<Rightarrow> Io UnexpectedEof | Some e \<Rightarrow> e))"

definition read_one :: "byte_reader \<Rightarrow> io_error + nat" where
  "read_one reader =
    (if rd_content reader \<noteq> [] then Inr 1
     else case rd_error reader of None \<Rightarrow> Inr 0 | Some e \<Rightarrow> Inl e)"

section \<open>A payload from a reader\<close>

definition reader_xblock ::
  "(u64 \<times> nat) list \<Rightarrow> nat \<Rightarrow> u64 \<Rightarrow> block_stream \<Rightarrow> writer_error + (u64 \<times> u32) \<times> nat \<times> u64 \<times> block_stream" where
  "reader_xblock leaves logical next_index st =
    (case total_sizes 0 (map snd leaves) of None \<Rightarrow> Inl (ValueTooLarge ''spooled data tree'') | Some total_size \<Rightarrow>
    (case take_block_id next_index True of Inl e \<Rightarrow> Inl e | Inr (bid, next_index) \<Rightarrow>
     let block = \<lparr>sp_id = bid, sp_payload = PayloadDataTree 1 total_size (map fst leaves), sp_ref_count = 2\<rparr> in
    (case checked_add_usize logical (message_size_contribution (sp_payload block)) of
       None \<Rightarrow> Inl (ValueTooLarge ''spooled attachment size'')
     | Some logical \<Rightarrow>
    (case emit block st of Inl e \<Rightarrow> Inl e | Inr st \<Rightarrow> Inr ((bid, total_size), logical, next_index, st)))))"

lemma unat_remaining:
  "unat (r - word_of_nat (min (unat r) MAX_DATA_BLOCK_PAYLOAD) :: u64) = unat r - min (unat r) MAX_DATA_BLOCK_PAYLOAD"
proof -
  let ?l = "min (unat r) MAX_DATA_BLOCK_PAYLOAD"
  have "unat (word_of_nat ?l :: u64) = ?l"
    using unat_word_bound [of r] by (simp add: unsigned_of_nat take_bit_nat_eq_self)
  then show ?thesis by (simp add: unat_sub word_le_nat_alt)
qed

lemma remaining_decreases: "r \<noteq> 0 \<Longrightarrow> unat (r - word_of_nat (min (unat r) MAX_DATA_BLOCK_PAYLOAD) :: u64) < unat r"
  unfolding unat_remaining by (simp add: unat_gt_0 MAX_DATA_BLOCK_PAYLOAD_def)

record reader_state =
  rs_leaves :: "(u64 \<times> nat) list"
  rs_xblocks :: "(u64 \<times> u32) list"
  rs_logical :: nat
  rs_hashed :: bytes
  rs_reader :: byte_reader
  rs_next :: u64
  rs_stream :: block_stream

function reader_loop :: "u64 \<Rightarrow> reader_state \<Rightarrow> writer_error + reader_state" where
  "reader_loop remaining rs =
    (if remaining = 0 then Inr rs
     else let len = min (unat remaining) MAX_DATA_BLOCK_PAYLOAD in
      (case of_io (reader_read_exact len (rs_reader rs)) of Inl e \<Rightarrow> Inl e | Inr (chunk, reader) \<Rightarrow>
      (case take_block_id (rs_next rs) False of Inl e \<Rightarrow> Inl e | Inr (bid, next_index) \<Rightarrow>
       let block = \<lparr>sp_id = bid, sp_payload = PayloadData chunk, sp_ref_count = 2\<rparr> in
      (case checked_add_usize (rs_logical rs) (message_size_contribution (sp_payload block)) of
         None \<Rightarrow> Inl (ValueTooLarge ''spooled attachment size'')
       | Some logical \<Rightarrow>
      (case emit block (rs_stream rs) of Inl e \<Rightarrow> Inl e | Inr st \<Rightarrow>
       let leaves = rs_leaves rs @ [(bid, len)]; remaining = remaining - word_of_nat len;
           rs = rs\<lparr>rs_hashed := rs_hashed rs @ chunk, rs_reader := reader\<rparr> in
       if length leaves = WRITER_MAX_DATA_TREE_ENTRIES \<and> remaining > 0
       then (case reader_xblock leaves logical next_index st of Inl e \<Rightarrow> Inl e
             | Inr (xblock, logical, next_index, st) \<Rightarrow>
               reader_loop remaining (rs\<lparr>rs_leaves := [], rs_xblocks := rs_xblocks rs @ [xblock],
                 rs_logical := logical, rs_next := next_index, rs_stream := st\<rparr>))
       else reader_loop remaining (rs\<lparr>rs_leaves := leaves, rs_logical := logical, rs_next := next_index,
                 rs_stream := st\<rparr>))))))"
  by pat_completeness auto
termination
  by (relation "measure (unat \<circ> fst)") (auto simp: remaining_decreases)

declare reader_loop.simps [simp del]

definition append_reader_data_tree ::
  "(bytes \<Rightarrow> bytes) \<Rightarrow> byte_reader \<Rightarrow> u64 \<Rightarrow> bytes option \<Rightarrow> bool \<Rightarrow> u64 \<Rightarrow> block_stream
    \<Rightarrow> writer_error + (u64 \<times> nat \<times> bytes) \<times> u64 \<times> block_stream" where
  "append_reader_data_tree sha256 reader byte_len expected_sha256 require_eof next_index st =
    (case reader_loop byte_len \<lparr>rs_leaves = [], rs_xblocks = [], rs_logical = 0, rs_hashed = [],
         rs_reader = reader, rs_next = next_index, rs_stream = st\<rparr> of Inl e \<Rightarrow> Inl e
     | Inr rs \<Rightarrow>
     let actual_hash = sha256 (rs_hashed rs); leaves = rs_leaves rs; xblocks = rs_xblocks rs in
     if (case expected_sha256 of None \<Rightarrow> False | Some expected \<Rightarrow> actual_hash \<noteq> expected)
     then Inl (InvalidStructure (Literal ''streamed payload hash mismatch''))
     else case (if require_eof then of_io (read_one (rs_reader rs)) else Inr 0) of Inl e \<Rightarrow> Inl e
     | Inr trailing \<Rightarrow>
     if trailing \<noteq> 0 then Inl (InvalidStructure (Literal ''streamed payload exceeds its declared length''))
     else if leaves = []
     then (case take_block_id (rs_next rs) False of Inl e \<Rightarrow> Inl e | Inr (bid, next_index) \<Rightarrow>
       let block = \<lparr>sp_id = bid, sp_payload = PayloadData [], sp_ref_count = 2\<rparr> in
       (case checked_add_usize (rs_logical rs) (message_size_contribution (sp_payload block)) of
          None \<Rightarrow> Inl (ValueTooLarge ''spooled attachment size'')
        | Some logical \<Rightarrow>
       (case emit block (rs_stream rs) of Inl e \<Rightarrow> Inl e
        | Inr st \<Rightarrow> Inr ((bid, logical, actual_hash), next_index, st))))
     else if xblocks = [] \<and> length leaves = 1
     then Inr ((fst (leaves ! 0), rs_logical rs, actual_hash), rs_next rs, rs_stream rs)
     else case reader_xblock leaves (rs_logical rs) (rs_next rs) (rs_stream rs) of Inl e \<Rightarrow> Inl e
     | Inr (xblock, logical, next_index, st) \<Rightarrow>
     let xblocks = xblocks @ [xblock] in
     if length xblocks = 1 then Inr ((fst (xblocks ! 0), logical, actual_hash), next_index, st)
     else if length xblocks > WRITER_MAX_DATA_TREE_ENTRIES then Inl (ValueTooLarge ''spooled XXBLOCK entry count'')
     else case total_sizes 0 (map (unat \<circ> snd) xblocks) of None \<Rightarrow> Inl (ValueTooLarge ''spooled XXBLOCK size'')
     | Some total_size \<Rightarrow>
     (case take_block_id next_index True of Inl e \<Rightarrow> Inl e | Inr (bid, next_index) \<Rightarrow>
      let block = \<lparr>sp_id = bid, sp_payload = PayloadDataTree 2 total_size (map fst xblocks), sp_ref_count = 2\<rparr> in
      (case checked_add_usize logical (message_size_contribution (sp_payload block)) of
         None \<Rightarrow> Inl (ValueTooLarge ''spooled attachment size'')
       | Some logical \<Rightarrow>
      (case emit block st of Inl e \<Rightarrow> Inl e | Inr st \<Rightarrow> Inr ((bid, logical, actual_hash), next_index, st)))))"

section \<open>A payload that is only declared\<close>

definition declared_xblock ::
  "(u64 \<times> nat) list \<Rightarrow> u64 \<Rightarrow> block_stream \<Rightarrow> writer_error + (u64 \<times> u32) \<times> u64 \<times> block_stream" where
  "declared_xblock leaves next_index st =
    (case total_sizes 0 (map snd leaves) of None \<Rightarrow> Inl (ValueTooLarge ''direct data tree'') | Some total_size \<Rightarrow>
    (case take_block_id next_index True of Inl e \<Rightarrow> Inl e | Inr (bid, next_index) \<Rightarrow>
    (case emit \<lparr>sp_id = bid, sp_payload = PayloadDataTree 1 total_size (map fst leaves), sp_ref_count = 2\<rparr> st of
       Inl e \<Rightarrow> Inl e | Inr st \<Rightarrow> Inr ((bid, total_size), next_index, st))))"

function declared_loop ::
  "u64 \<Rightarrow> (u64 \<times> nat) list \<Rightarrow> (u64 \<times> u32) list \<Rightarrow> u64 \<Rightarrow> block_stream
    \<Rightarrow> writer_error + (u64 \<times> nat) list \<times> (u64 \<times> u32) list \<times> u64 \<times> block_stream" where
  "declared_loop remaining leaves xblocks next_index st =
    (if remaining = 0 then Inr (leaves, xblocks, next_index, st)
     else let len = min (unat remaining) MAX_DATA_BLOCK_PAYLOAD in
      (case take_block_id next_index False of Inl e \<Rightarrow> Inl e | Inr (bid, next_index) \<Rightarrow>
      (case emit \<lparr>sp_id = bid, sp_payload = ProjectedData len, sp_ref_count = 2\<rparr> st of Inl e \<Rightarrow> Inl e | Inr st \<Rightarrow>
       let leaves = leaves @ [(bid, len)]; remaining = remaining - word_of_nat len in
       if length leaves = WRITER_MAX_DATA_TREE_ENTRIES \<and> remaining > 0
       then (case declared_xblock leaves next_index st of Inl e \<Rightarrow> Inl e
             | Inr (xblock, next_index, st) \<Rightarrow> declared_loop remaining [] (xblocks @ [xblock]) next_index st)
       else declared_loop remaining leaves xblocks next_index st)))"
  by pat_completeness auto
termination
  by (relation "measure (unat \<circ> fst)") (auto simp: remaining_decreases)

declare declared_loop.simps [simp del]

record direct_blob_spec =
  dbs_id :: u64
  dbs_byte_len :: u64
  dbs_sha256 :: "bytes option"

definition append_declared_data_tree ::
  "direct_blob_spec \<Rightarrow> u64 \<Rightarrow> block_stream \<Rightarrow> writer_error + (u64 \<times> nat) \<times> u64 \<times> block_stream" where
  "append_declared_data_tree blob next_index st =
    (let logical = unat (dbs_byte_len blob) in
     case declared_loop (dbs_byte_len blob) [] [] next_index st of Inl e \<Rightarrow> Inl e
     | Inr (leaves, xblocks, next_index, st) \<Rightarrow>
     if leaves = [] then Inl (InvalidStructure (Literal ''direct payload must not be empty''))
     else if xblocks = [] \<and> length leaves = 1 then Inr ((fst (leaves ! 0), logical), next_index, st)
     else case declared_xblock leaves next_index st of Inl e \<Rightarrow> Inl e
     | Inr (xblock, next_index, st) \<Rightarrow>
     let xblocks = xblocks @ [xblock] in
     if length xblocks = 1 then Inr ((fst (xblocks ! 0), logical), next_index, st)
     else if length xblocks > WRITER_MAX_DATA_TREE_ENTRIES then Inl (ValueTooLarge ''direct XXBLOCK entry count'')
     else case total_sizes 0 (map (unat \<circ> snd) xblocks) of None \<Rightarrow> Inl (ValueTooLarge ''direct XXBLOCK size'')
     | Some total_size \<Rightarrow>
     (case take_block_id next_index True of Inl e \<Rightarrow> Inl e | Inr (bid, next_index) \<Rightarrow>
     (case emit \<lparr>sp_id = bid, sp_payload = PayloadDataTree 2 total_size (map fst xblocks), sp_ref_count = 2\<rparr> st of
        Inl e \<Rightarrow> Inl e | Inr st \<Rightarrow> Inr ((bid, logical), next_index, st))))"

section \<open>Payloads from a spool file and from a source\<close>

record file_blob_spec =
  fbs_offset :: u64
  fbs_byte_len :: u64
  fbs_sha256 :: bytes

text \<open>What opening the path gives: an error, or whether it is a file and what it holds.\<close>

definition append_spooled_data_tree ::
  "(bytes \<Rightarrow> bytes) \<Rightarrow> io_error + bool \<times> bytes \<Rightarrow> file_blob_spec \<Rightarrow> u64 \<Rightarrow> block_stream
    \<Rightarrow> writer_error + (u64 \<times> nat) \<times> u64 \<times> block_stream" where
  "append_spooled_data_tree sha256 opened blob next_index st =
    (case of_io opened of Inl e \<Rightarrow> Inl e | Inr (is_file, content) \<Rightarrow>
    (case checked_add_w (fbs_offset blob) (fbs_byte_len blob) of
       None \<Rightarrow> Inl (ValueTooLarge ''spooled attachment range'')
     | Some blob_end \<Rightarrow>
       if \<not> is_file \<or> length content < unat blob_end
       then Inl (InvalidStructure (Literal ''spooled attachment identity mismatch''))
       else (case append_reader_data_tree sha256
           \<lparr>rd_content = drop (unat (fbs_offset blob)) content, rd_error = None\<rparr>
           (fbs_byte_len blob) (Some (fbs_sha256 blob)) False next_index st of Inl e \<Rightarrow> Inl e
         | Inr ((root, logical, _), next_index, st) \<Rightarrow> Inr ((root, logical), next_index, st))))"

definition append_direct_data_tree ::
  "(bytes \<Rightarrow> bytes) \<Rightarrow> (direct_blob_spec \<Rightarrow> writer_error + byte_reader) \<Rightarrow> direct_blob_spec \<Rightarrow> u64 \<Rightarrow> block_stream
    \<Rightarrow> writer_error + (u64 \<times> nat \<times> bytes) \<times> u64 \<times> block_stream" where
  "append_direct_data_tree sha256 open_blob blob next_index st =
    (case open_blob blob of Inl e \<Rightarrow> Inl e
     | Inr reader \<Rightarrow> append_reader_data_tree sha256 reader (dbs_byte_len blob) (dbs_sha256 blob) True next_index st)"

section \<open>What is emitted\<close>

fun emit_all :: "block_spec list \<Rightarrow> block_stream \<Rightarrow> writer_error + block_stream" where
  "emit_all [] st = Inr st"
| "emit_all (b # bs) st = (case emit b st of Inl e \<Rightarrow> Inl e | Inr st \<Rightarrow> emit_all bs st)"

lemma emit_all_append: "emit_all (xs @ ys) st = (case emit_all xs st of Inl e \<Rightarrow> Inl e | Inr st \<Rightarrow> emit_all ys st)"
  by (induction xs arbitrary: st) (auto split: sum.splits)

text \<open>The blocks of the loop over the chunks of a payload, with the leaves and inner blocks it leaves.\<close>

fun loop_plan ::
  "nat \<Rightarrow> (u64 \<times> nat) list \<Rightarrow> (u64 \<times> nat) list \<Rightarrow> bytes list
    \<Rightarrow> block_spec list \<times> (u64 \<times> nat) list \<times> (u64 \<times> nat) list \<times> nat" where
  "loop_plan n leaves xblocks [] = ([], leaves, xblocks, n)"
| "loop_plan n leaves xblocks (c # cs) =
    (let leaves = leaves @ [(block_bid False n, length c)] in
     if length leaves = 1021 \<and> cs \<noteq> []
     then (case loop_plan (n + 2) [] (xblocks @ [(block_bid True (n + 1), group_size leaves)]) cs of
         (specs, r) \<Rightarrow> (data_spec (block_bid False n) c # xblock_spec (block_bid True (n + 1)) leaves # specs, r))
     else (case loop_plan (n + 1) leaves xblocks cs of
         (specs, r) \<Rightarrow> (data_spec (block_bid False n) c # specs, r)))"

definition sized :: "(u64 \<times> nat) list \<Rightarrow> (u64 \<times> u32) list" where
  "sized xs = map (\<lambda>(b, k). (b, word_of_nat k)) xs"

lemma sized_simps [simp]: "sized [] = []" "sized (xs @ [(b, k)]) = sized xs @ [(b, word_of_nat k)]" "length (sized xs) = length xs" "sized xs = [] \<longleftrightarrow> xs = []"
  by (simp_all add: sized_def)

text \<open>Leaves of one inner block: few, and none larger than a block.\<close>

definition leaves_ok :: "(u64 \<times> nat) list \<Rightarrow> bool" where
  "leaves_ok leaves \<longleftrightarrow> length leaves \<le> 1021 \<and> (\<forall>(b, k)\<in>set leaves. k \<le> 8176)"

lemma leaves_ok_total:
  assumes "leaves_ok leaves"
  shows "total_sizes 0 (map snd leaves) = Some (word_of_nat (group_size leaves))" "group_size leaves < 2 ^ 32"
proof -
  have "sum_list (map snd leaves) \<le> length leaves * 8176"
    using sum_list_mono [of leaves snd "\<lambda>_. 8176"] assms by (force simp: leaves_ok_def sum_list_triv)
  then show "group_size leaves < 2 ^ 32" using assms by (simp add: group_size_def leaves_ok_def)
  then show "total_sizes 0 (map snd leaves) = Some (word_of_nat (group_size leaves))"
    unfolding group_size_def by (rule total_sizes_0)
qed

lemma reader_xblock_eq:
  assumes "leaves_ok leaves" "n < 2 ^ 62" "logical \<le> usize_max"
  shows "reader_xblock leaves logical (word_of_nat n) st =
    (case emit (xblock_spec (block_bid True n) leaves) st of Inl e \<Rightarrow> Inl e
     | Inr st \<Rightarrow> Inr ((block_bid True n, word_of_nat (group_size leaves)), logical, word_of_nat (Suc n), st))"
  using assms leaves_ok_total(1) [OF assms(1)]
  by (simp add: reader_xblock_def take_block_id_Inr(1) xblock_spec_def checked_add_usize_def Let_def del: of_nat_Suc)

lemma declared_xblock_eq:
  assumes "leaves_ok leaves" "n < 2 ^ 62"
  shows "declared_xblock leaves (word_of_nat n) st =
    (case emit (xblock_spec (block_bid True n) leaves) st of Inl e \<Rightarrow> Inl e
     | Inr st \<Rightarrow> Inr ((block_bid True n, word_of_nat (group_size leaves)), word_of_nat (Suc n), st))"
  using assms leaves_ok_total(1) [OF assms(1)]
  by (simp add: declared_xblock_def take_block_id_Inr(1) xblock_spec_def del: of_nat_Suc)

text \<open>One round of a loop takes one chunk off the payload.\<close>

lemma remaining_words:
  assumes "length data < 2 ^ 64" "data \<noteq> []"
  shows "(word_of_nat (length data) :: u64) \<noteq> 0" "min (unat (word_of_nat (length data) :: u64)) MAX_DATA_BLOCK_PAYLOAD = length (take 8176 data)"
    "(word_of_nat (length data) :: u64) - word_of_nat (length (take 8176 data)) = word_of_nat (length (drop 8176 data))"
    "(0 :: u64) < word_of_nat (length (drop 8176 data)) \<longleftrightarrow> drop 8176 data \<noteq> []"
proof -
  have u: "unat (word_of_nat (length data) :: u64) = length data" using assms(1) by (simp add: unsigned_of_nat take_bit_nat_eq_self)
  then show "(word_of_nat (length data) :: u64) \<noteq> 0" using assms(2) by (metis length_0_conv unat_0)
  show "min (unat (word_of_nat (length data) :: u64)) MAX_DATA_BLOCK_PAYLOAD = length (take 8176 data)"
    unfolding u by (simp add: MAX_DATA_BLOCK_PAYLOAD_def)
  have "length data = length (take 8176 data) + length (drop 8176 data)" by simp
  then show "(word_of_nat (length data) :: u64) - word_of_nat (length (take 8176 data)) = word_of_nat (length (drop 8176 data))"
    by (metis add_diff_cancel_left' of_nat_add)
  have "unat (word_of_nat (length (drop 8176 data)) :: u64) = length (drop 8176 data)"
    using assms(1) by (simp add: unsigned_of_nat take_bit_nat_eq_self)
  then show "(0 :: u64) < word_of_nat (length (drop 8176 data)) \<longleftrightarrow> drop 8176 data \<noteq> []"
    by (metis length_0_conv unat_0 word_less_nat_alt not_gr_zero)
qed

lemma leaves_ok_snoc: "leaves_ok leaves \<Longrightarrow> length leaves < 1021 \<Longrightarrow> k \<le> 8176 \<Longrightarrow> leaves_ok (leaves @ [(b, k)])"
  by (auto simp: leaves_ok_def)

definition with_plan ::
  "(block_spec \<Rightarrow> block_spec) \<Rightarrow> block_spec list \<times> 'p \<Rightarrow> block_stream \<Rightarrow> ('p \<Rightarrow> block_stream \<Rightarrow> 'r) \<Rightarrow> writer_error + 'r" where
  "with_plan p plan st k = (case plan of (specs, r) \<Rightarrow>
    (case emit_all (map p specs) st of Inl e \<Rightarrow> Inl e | Inr st \<Rightarrow> Inr (k r st)))"

lemma with_plan_Cons:
  "with_plan p (case plan of (specs, r) \<Rightarrow> (b # specs, r)) st k =
    (case emit (p b) st of Inl e \<Rightarrow> Inl e | Inr st \<Rightarrow> with_plan p plan st k)"
  by (auto simp: with_plan_def split: prod.splits sum.splits)

lemma with_plan_Cons2:
  "with_plan p (case plan of (specs, r) \<Rightarrow> (a # b # specs, r)) st k =
    (case emit (p a) st of Inl e \<Rightarrow> Inl e | Inr st \<Rightarrow> (case emit (p b) st of Inl e \<Rightarrow> Inl e | Inr st \<Rightarrow> with_plan p plan st k))"
  by (auto simp: with_plan_def split: prod.splits sum.splits)

lemma reader_loop_plan:
  assumes "length data < 2 ^ 64" "n + 2 * length (chunks 8176 data) \<le> 2 ^ 62" "leaves_ok leaves" "length leaves < 1021"
    "logical + length data \<le> usize_max"
  shows "reader_loop (word_of_nat (length data)) \<lparr>rs_leaves = leaves, rs_xblocks = sized xblocks, rs_logical = logical, rs_hashed = h,
      rs_reader = \<lparr>rd_content = data @ rest, rd_error = e\<rparr>, rs_next = word_of_nat n, rs_stream = st\<rparr> =
    with_plan id (loop_plan n leaves xblocks (chunks 8176 data)) st
      (\<lambda>(leaves, xblocks, n) st. \<lparr>rs_leaves = leaves, rs_xblocks = sized xblocks, rs_logical = logical + length data, rs_hashed = h @ data,
        rs_reader = \<lparr>rd_content = rest, rd_error = e\<rparr>, rs_next = word_of_nat n, rs_stream = st\<rparr>)"
  using assms
proof (induction data arbitrary: n leaves xblocks logical h st rule: length_induct)
  case (1 data)
  show ?case
  proof (cases "data = []")
    case True
    then show ?thesis by (simp add: reader_loop.simps with_plan_def)
  next
    case False
    let ?c = "take 8176 data" and ?d = "drop 8176 data" and ?lv = "leaves @ [(block_bid False n, length (take 8176 data))]"
    have ch: "chunks 8176 data = ?c # chunks 8176 ?d" using False by (simp add: chunks.simps [of 8176 data])
    have nil: "chunks 8176 ?d = [] \<longleftrightarrow> ?d = []" by (simp add: chunks_eq_Nil_iff)
    have n: "n < 2 ^ 62" using "1.prems"(2) ch by simp
    have lv: "leaves_ok ?lv" using "1.prems"(3,4) by (intro leaves_ok_snoc) simp_all
    have rd: "reader_read_exact (length ?c) \<lparr>rd_content = data @ rest, rd_error = e\<rparr> = Inr (?c, \<lparr>rd_content = ?d @ rest, rd_error = e\<rparr>)"
      by (simp add: reader_read_exact_def min_def)
    note w = remaining_words [OF "1.prems"(1) False]
    have lg: "checked_add_usize logical (length ?c) = Some (logical + length ?c)"
      using "1.prems"(5) by (simp add: checked_add_usize_def)
    have sum: "length ?c + length ?d = length data" by simp
    have IH: "reader_loop (word_of_nat (length ?d)) \<lparr>rs_leaves = leaves', rs_xblocks = sized xblocks', rs_logical = logical + length ?c, rs_hashed = h @ ?c,
        rs_reader = \<lparr>rd_content = ?d @ rest, rd_error = e\<rparr>, rs_next = word_of_nat n', rs_stream = st'\<rparr> =
      with_plan id (loop_plan n' leaves' xblocks' (chunks 8176 ?d)) st'
        (\<lambda>(leaves, xblocks, n) st. \<lparr>rs_leaves = leaves, rs_xblocks = sized xblocks, rs_logical = logical + length data, rs_hashed = h @ data,
          rs_reader = \<lparr>rd_content = rest, rd_error = e\<rparr>, rs_next = word_of_nat n, rs_stream = st\<rparr>)"
      if "n' + 2 * length (chunks 8176 ?d) \<le> 2 ^ 62" "leaves_ok leaves'" "length leaves' < 1021" for n' leaves' xblocks' st'
    proof -
      have "length ?d < length data" "length ?d < 2 ^ 64" "logical + length ?c + length ?d \<le> usize_max"
        using False "1.prems"(1,5) sum by (simp_all del: length_take length_drop) simp
      from "1.IH" [rule_format, OF this(1) this(2) that this(3)] show ?thesis using sum by (simp add: add.assoc del: length_take length_drop)
    qed
    show ?thesis
    proof (cases "length ?lv = 1021 \<and> ?d \<noteq> []")
      case True
      have "loop_plan n leaves xblocks (chunks 8176 data) =
        (case loop_plan (n + 2) [] (xblocks @ [(block_bid True (n + 1), group_size ?lv)]) (chunks 8176 ?d) of
          (specs, r) \<Rightarrow> (data_spec (block_bid False n) ?c # xblock_spec (block_bid True (n + 1)) ?lv # specs, r))"
        unfolding ch using True nil by (simp add: Let_def del: length_take length_drop)
      moreover have "n + 2 + 2 * length (chunks 8176 ?d) \<le> 2 ^ 62" "leaves_ok []" "n + 1 < 2 ^ 62" "logical + length ?c \<le> usize_max"
        using "1.prems"(2,5) ch nil True by (auto simp: leaves_ok_def Suc_le_eq)
      ultimately show ?thesis
        using True w(1) rd lg IH [of "n + 2" "[]" "xblocks @ [(block_bid True (n + 1), group_size ?lv)]"]
          take_block_id_Inr(1) [OF n, of False] reader_xblock_eq [OF lv, of "n + 1" "logical + length ?c"]
        by (subst reader_loop.simps) (simp add: w WRITER_MAX_DATA_TREE_ENTRIES_def with_plan_Cons2 data_spec_def Let_def
            del: length_take length_drop of_nat_Suc of_nat_add of_nat_diff split: sum.splits)
    next
      case False
      have "loop_plan n leaves xblocks (chunks 8176 data) =
        (case loop_plan (n + 1) ?lv xblocks (chunks 8176 ?d) of (specs, r) \<Rightarrow> (data_spec (block_bid False n) ?c # specs, r))"
        unfolding ch using False nil by (auto simp: Let_def simp del: length_take length_drop)
      moreover have "n + 1 + 2 * length (chunks 8176 ?d) \<le> 2 ^ 62" using "1.prems"(2) ch by simp
      moreover have "reader_loop (word_of_nat (length ?d)) \<lparr>rs_leaves = ?lv, rs_xblocks = sized xblocks, rs_logical = logical + length ?c, rs_hashed = h @ ?c,
        rs_reader = \<lparr>rd_content = ?d @ rest, rd_error = e\<rparr>, rs_next = word_of_nat (n + 1), rs_stream = st'\<rparr> =
        with_plan id (loop_plan (n + 1) ?lv xblocks (chunks 8176 ?d)) st'
          (\<lambda>(leaves, xblocks, n) st. \<lparr>rs_leaves = leaves, rs_xblocks = sized xblocks, rs_logical = logical + length data, rs_hashed = h @ data,
            rs_reader = \<lparr>rd_content = rest, rd_error = e\<rparr>, rs_next = word_of_nat n, rs_stream = st\<rparr>)" for st'
      proof (cases "?d = []")
        case True
        then have "?c = data" by simp
        with True show ?thesis by (simp add: reader_loop.simps [of 0] with_plan_def)
      next
        case d: False
        show ?thesis by (rule IH) (use False d lv "1.prems"(2,4) ch in auto)
      qed
      ultimately show ?thesis
        using False w(1) rd lg take_block_id_Inr(1) [OF n, of False]
        by (subst reader_loop.simps) (auto simp add: w WRITER_MAX_DATA_TREE_ENTRIES_def with_plan_Cons data_spec_def Let_def
            simp del: length_take length_drop of_nat_Suc of_nat_add of_nat_diff split: sum.splits)
    qed
  qed
qed

text \<open>The declared payload emits the same blocks, with the sizes of the data in place of the data.\<close>

definition project_spec :: "block_spec \<Rightarrow> block_spec" where
  "project_spec b = b\<lparr>sp_payload := (case sp_payload b of PayloadData c \<Rightarrow> ProjectedData (length c) | p \<Rightarrow> p)\<rparr>"

lemma project_spec_simps [simp]:
  "project_spec (data_spec bid c) = \<lparr>sp_id = bid, sp_payload = ProjectedData (length c), sp_ref_count = 2\<rparr>"
  "project_spec (xblock_spec bid grp) = xblock_spec bid grp"
  by (simp_all add: project_spec_def data_spec_def xblock_spec_def)

lemma declared_loop_plan:
  assumes "length data < 2 ^ 64" "n + 2 * length (chunks 8176 data) \<le> 2 ^ 62" "leaves_ok leaves" "length leaves < 1021"
  shows "declared_loop (word_of_nat (length data)) leaves (sized xblocks) (word_of_nat n) st =
    with_plan project_spec (loop_plan n leaves xblocks (chunks 8176 data)) st
      (\<lambda>(leaves, xblocks, n) st. (leaves, sized xblocks, word_of_nat n, st))"
  using assms
proof (induction data arbitrary: n leaves xblocks st rule: length_induct)
  case (1 data)
  show ?case
  proof (cases "data = []")
    case True
    then show ?thesis by (simp add: declared_loop.simps with_plan_def)
  next
    case False
    let ?c = "take 8176 data" and ?d = "drop 8176 data" and ?lv = "leaves @ [(block_bid False n, length (take 8176 data))]"
    have ch: "chunks 8176 data = ?c # chunks 8176 ?d" using False by (simp add: chunks.simps [of 8176 data])
    have nil: "chunks 8176 ?d = [] \<longleftrightarrow> ?d = []" by (simp add: chunks_eq_Nil_iff)
    have n: "n < 2 ^ 62" using "1.prems"(2) ch by simp
    have lv: "leaves_ok ?lv" using "1.prems"(3,4) by (intro leaves_ok_snoc) simp_all
    note w = remaining_words [OF "1.prems"(1) False]
    have less: "length ?d < length data" "length ?d < 2 ^ 64" using False "1.prems"(1) by simp_all
    note IH = "1.IH" [rule_format, OF less]
    show ?thesis
    proof (cases "length ?lv = 1021 \<and> ?d \<noteq> []")
      case True
      have "loop_plan n leaves xblocks (chunks 8176 data) =
        (case loop_plan (n + 2) [] (xblocks @ [(block_bid True (n + 1), group_size ?lv)]) (chunks 8176 ?d) of
          (specs, r) \<Rightarrow> (data_spec (block_bid False n) ?c # xblock_spec (block_bid True (n + 1)) ?lv # specs, r))"
        unfolding ch using True nil by (simp add: Let_def del: length_take length_drop)
      moreover have "n + 2 + 2 * length (chunks 8176 ?d) \<le> 2 ^ 62" "leaves_ok []" "n + 1 < 2 ^ 62"
        using "1.prems"(2) ch nil True by (auto simp: leaves_ok_def Suc_le_eq)
      ultimately show ?thesis
        using True w(1) IH [of "n + 2" "[]" "xblocks @ [(block_bid True (n + 1), group_size ?lv)]"]
          take_block_id_Inr(1) [OF n, of False] declared_xblock_eq [OF lv, of "n + 1"]
        by (subst declared_loop.simps) (simp add: w WRITER_MAX_DATA_TREE_ENTRIES_def with_plan_Cons2 Let_def
            del: length_take length_drop of_nat_Suc of_nat_add of_nat_diff split: sum.splits)
    next
      case False
      have "loop_plan n leaves xblocks (chunks 8176 data) =
        (case loop_plan (n + 1) ?lv xblocks (chunks 8176 ?d) of (specs, r) \<Rightarrow> (data_spec (block_bid False n) ?c # specs, r))"
        unfolding ch using False nil by (auto simp: Let_def simp del: length_take length_drop)
      moreover have "declared_loop (word_of_nat (length ?d)) ?lv (sized xblocks) (word_of_nat (n + 1)) st' =
        with_plan project_spec (loop_plan (n + 1) ?lv xblocks (chunks 8176 ?d)) st'
          (\<lambda>(leaves, xblocks, n) st. (leaves, sized xblocks, word_of_nat n, st))" for st'
      proof (cases "?d = []")
        case True
        then show ?thesis by (simp add: declared_loop.simps [of 0] with_plan_def)
      next
        case d: False
        show ?thesis by (rule IH) (use False d lv "1.prems"(2,4) ch in auto)
      qed
      ultimately show ?thesis
        using False w(1) take_block_id_Inr(1) [OF n, of False]
        by (subst declared_loop.simps) (auto simp add: w WRITER_MAX_DATA_TREE_ENTRIES_def with_plan_Cons Let_def
            simp del: length_take length_drop of_nat_Suc of_nat_add of_nat_diff split: sum.splits)
    qed
  qed
qed

section \<open>Groups of data blocks\<close>

text \<open>The same blocks group by group: the data blocks of a group, then the block above them.\<close>

definition group_leaves :: "nat \<Rightarrow> bytes list \<Rightarrow> (u64 \<times> nat) list" where
  "group_leaves n g = zip (bids False n (length g)) (map length g)"

definition group_above :: "nat \<Rightarrow> bytes list \<Rightarrow> block_spec" where
  "group_above n g = xblock_spec (block_bid True (n + length g)) (group_leaves n g)"

fun groups_specs :: "nat \<Rightarrow> bytes list list \<Rightarrow> block_spec list" where
  "groups_specs n [] = []"
| "groups_specs n (g # gs) = data_specs n g @ group_above n g # groups_specs (n + length g + 1) gs"

fun groups_ids :: "nat \<Rightarrow> bytes list list \<Rightarrow> (u64 \<times> nat) list" where
  "groups_ids n [] = []"
| "groups_ids n (g # gs) = (block_bid True (n + length g), length (concat g)) # groups_ids (n + length g + 1) gs"

lemma group_leaves_Cons: "group_leaves n (c # g) = (block_bid False n, length c) # group_leaves (Suc n) g"
  by (simp add: group_leaves_def)

lemma data_specs_Cons: "data_specs n (c # g) = data_spec (block_bid False n) c # data_specs (Suc n) g"
  by (simp add: data_specs_def)

lemma group_leaves_size: "group_size (group_leaves n g) = length (concat g)"
  by (induction g arbitrary: n) (simp_all add: group_leaves_def group_size_def)

lemma loop_plan_last:
  "length leaves + length g \<le> 1021 \<Longrightarrow>
    loop_plan n leaves xblocks g = (data_specs n g, leaves @ group_leaves n g, xblocks, n + length g)"
proof (induction g arbitrary: n leaves)
  case (Cons c g)
  have "\<not> (length (leaves @ [(block_bid False n, length c)]) = 1021 \<and> g \<noteq> [])" using Cons.prems by (cases g) auto
  then show ?case using Cons.IH [of "leaves @ [(block_bid False n, length c)]" "Suc n"] Cons.prems
    by (simp add: data_specs_Cons group_leaves_Cons Let_def)
qed (simp add: data_specs_def group_leaves_def)

lemma loop_plan_full:
  "length leaves + length g = 1021 \<Longrightarrow> g \<noteq> [] \<Longrightarrow> rest \<noteq> [] \<Longrightarrow>
    loop_plan n leaves xblocks (g @ rest) =
      (case loop_plan (n + length g + 1) []
          (xblocks @ [(block_bid True (n + length g), group_size (leaves @ group_leaves n g))]) rest of
        (specs, r) \<Rightarrow> (data_specs n g @ xblock_spec (block_bid True (n + length g)) (leaves @ group_leaves n g) # specs, r))"
proof (induction g arbitrary: n leaves)
  case (Cons c g)
  show ?case
  proof (cases "g = []")
    case True
    then show ?thesis using Cons.prems by (auto simp: data_specs_def group_leaves_def Let_def)
  next
    case False
    then have "length (leaves @ [(block_bid False n, length c)]) \<noteq> 1021" using Cons.prems by (cases g) auto
    then show ?thesis using Cons.IH [of "leaves @ [(block_bid False n, length c)]" "Suc n"] Cons.prems False
      by (auto simp: data_specs_Cons group_leaves_Cons Let_def split: prod.splits)
  qed
qed simp

text \<open>With the block above the leaves that the loop leaves, every group is complete.\<close>

lemma loop_plan_groups:
  "cs \<noteq> [] \<Longrightarrow> \<exists>specs g m. loop_plan n [] xblocks cs = (specs, group_leaves m g, xblocks @ butlast (groups_ids n (chunks 1021 cs)), m + length g) \<and>
    specs @ [group_above m g] = groups_specs n (chunks 1021 cs) \<and> g = last (chunks 1021 cs) \<and>
    last (groups_ids n (chunks 1021 cs)) = (block_bid True (m + length g), length (concat g)) \<and>
    m + length g = n + length cs + length (chunks 1021 cs) - 1 \<and> g \<noteq> [] \<and> (length (chunks 1021 cs) = 1 \<longrightarrow> m = n)"
proof (induction cs arbitrary: n xblocks rule: length_induct)
  case (1 cs)
  show ?case
  proof (cases "length cs \<le> 1021")
    case True
    then have ch: "chunks 1021 cs = [cs]" using "1.prems" by (simp add: chunks_short)
    show ?thesis using loop_plan_last [of "[]" cs n xblocks] True "1.prems"
      by (intro exI [of _ "data_specs n cs"] exI [of _ cs] exI [of _ n]) (simp add: ch group_above_def)
  next
    case False
    let ?g = "take 1021 cs" and ?r = "drop 1021 cs"
    have ch: "chunks 1021 cs = ?g # chunks 1021 ?r" "chunks 1021 ?r \<noteq> []"
      using "1.prems" False by (simp_all add: chunks.simps [of 1021 cs] chunks_eq_Nil_iff)
    have ids: "groups_ids k (chunks 1021 ?r) \<noteq> []" for k using ch(2) by (cases "chunks 1021 ?r") auto
    have len: "length ?g = 1021" using False by simp
    have "length ?r < length cs" "?r \<noteq> []" using False by auto
    from "1.IH" [rule_format, OF this, of "n + 1022" "xblocks @ [(block_bid True (n + 1021), length (concat ?g))]"]
    obtain specs g m where r: "loop_plan (n + 1022) [] (xblocks @ [(block_bid True (n + 1021), length (concat ?g))]) ?r =
        (specs, group_leaves m g, (xblocks @ [(block_bid True (n + 1021), length (concat ?g))]) @ butlast (groups_ids (n + 1022) (chunks 1021 ?r)), m + length g)"
      "specs @ [group_above m g] = groups_specs (n + 1022) (chunks 1021 ?r)" "g = last (chunks 1021 ?r)"
      "last (groups_ids (n + 1022) (chunks 1021 ?r)) = (block_bid True (m + length g), length (concat g))"
      "m + length g = n + 1022 + length ?r + length (chunks 1021 ?r) - 1" "g \<noteq> []" by (elim exE conjE)
    have "loop_plan n [] xblocks (?g @ ?r) =
        (data_specs n ?g @ group_above n ?g # specs, group_leaves m g, xblocks @ butlast (groups_ids n (chunks 1021 cs)), m + length g)"
      by (subst loop_plan_full) (use len False r(1) ids in \<open>auto simp: ch(1) group_above_def group_leaves_size add.commute [of 1022 n]\<close>)
    then show ?thesis
      using r(2-6) ids ch len False
      by (intro exI [of _ "data_specs n ?g @ group_above n ?g # specs"] exI [of _ g] exI [of _ m]) (simp add: ch(1) add.commute [of 1022 n])
  qed
qed

text \<open>All blocks of a payload that is not empty, with the identifier of its root and the next index.\<close>

definition xxblock_spec :: "u64 \<Rightarrow> (u64 \<times> nat) list \<Rightarrow> block_spec" where
  "xxblock_spec bid ids = \<lparr>sp_id = bid, sp_payload = PayloadDataTree 2 (word_of_nat (group_size ids)) (map fst ids), sp_ref_count = 2\<rparr>"

definition stream_plan :: "nat \<Rightarrow> bytes list \<Rightarrow> block_spec list \<times> u64 \<times> nat" where
  "stream_plan n cs =
    (let gs = chunks 1021 cs; ids = groups_ids n gs; k = n + length cs + length gs in
     if length cs = 1 then (data_specs n cs, block_bid False n, n + 1)
     else if length gs = 1 then (groups_specs n gs, fst (ids ! 0), k)
     else (groups_specs n gs @ [xxblock_spec (block_bid True k) ids], block_bid True k, k + 1))"

lemma length_groups_ids [simp]: "length (groups_ids n gs) = length gs"
  by (induction gs arbitrary: n) simp_all

lemma groups_ids_size: "group_size (groups_ids n gs) = length (concat (concat gs))"
  by (induction gs arbitrary: n) (simp_all add: group_size_def)

lemma sized_total:
  assumes "group_size ids < 2 ^ 32"
  shows "total_sizes 0 (map (unat \<circ> snd) (sized ids)) = Some (word_of_nat (group_size ids))" "map fst (sized ids) = map fst ids"
proof -
  have "k < 2 ^ 32" if "(b, k) \<in> set ids" for b k
    using that assms member_le_sum_list [of k "map snd ids"] by (force simp: group_size_def)
  then have "map (unat \<circ> snd) (sized ids) = map snd ids"
    by (auto simp: sized_def unsigned_of_nat take_bit_nat_eq_self)
  then show "total_sizes 0 (map (unat \<circ> snd) (sized ids)) = Some (word_of_nat (group_size ids))"
    using total_sizes_0 [of "map snd ids"] assms by (simp add: group_size_def)
qed (simp add: sized_def comp_def case_prod_unfold)

text \<open>A payload within the limits of the writer, and the facts of its chunks and groups.\<close>

definition payload_bounds :: "nat \<Rightarrow> bytes \<Rightarrow> bool" where
  "payload_bounds n data \<longleftrightarrow> data \<noteq> [] \<and> length data \<le> 2 ^ 31 \<and> n \<le> 2 ^ 61"

lemma payload_bounds_facts:
  assumes "payload_bounds n data"
  defines "cs \<equiv> chunks 8176 data"
  shows "length data < 2 ^ 64" "n + 2 * length cs \<le> 2 ^ 62" "length data \<le> usize_max" "cs \<noteq> []" "length (chunks 1021 cs) \<le> 258"
    "n + length cs + length (chunks 1021 cs) < 2 ^ 62" "length (concat (concat (chunks 1021 cs))) < 2 ^ 32" "cut_ok n cs"
    "concat cs = data" "length cs + length (chunks 1021 cs) < 300000"
proof -
  have m: "length cs \<le> 262658"
    using assms(1) div_le_mono [of "length data" "2 ^ 31" 8176] by (simp add: payload_bounds_def cs_def length_chunks div_ceil_def)
  show "length data < 2 ^ 64" "length data \<le> usize_max" "n + 2 * length cs \<le> 2 ^ 62"
    using assms(1) m by (simp_all add: payload_bounds_def usize_max_def)
  show "cs \<noteq> []" using assms(1) by (simp add: payload_bounds_def cs_def chunks_eq_Nil_iff)
  show g: "length (chunks 1021 cs) \<le> 258" using m div_le_mono [OF m, of 1021] by (simp add: length_chunks div_ceil_def)
  then show "n + length cs + length (chunks 1021 cs) < 2 ^ 62" "length cs + length (chunks 1021 cs) < 300000"
    using assms(1) m by (simp_all add: payload_bounds_def)
  show "concat cs = data" by (simp add: cs_def)
  then show "length (concat (concat (chunks 1021 cs))) < 2 ^ 32" using assms(1) by (simp add: payload_bounds_def)
  show "cut_ok n cs"
    using m chunks_bounds [of 8176 _ data] assms(1) by (auto simp: cut_ok_def payload_bounds_def Suc_le_eq cs_def)
qed

lemma last_group_ok:
  assumes "cut_ok n cs" "g \<in> set (chunks 1021 cs)"
  shows "leaves_ok (group_leaves m g)"
proof -
  have "set g \<subseteq> (\<Union>x\<in>set (chunks 1021 cs). set x)" using assms(2) by blast
  also have "\<dots> = set (concat (chunks 1021 cs))" by (simp only: set_concat)
  finally have "\<forall>c\<in>set g. length c \<le> 8176" using assms(1) by (auto simp: cut_ok_def)
  then show ?thesis
    using assms(2) chunks_bounds [of 1021 g cs] by (auto simp: leaves_ok_def group_leaves_def dest!: set_zip_rightD)
qed

lemma stream_plan_cases:
  assumes "payload_bounds n data" and plan: "loop_plan n [] [] (chunks 8176 data) = (specs, leaves, xblocks, k)"
  obtains (one) "leaves = [(block_bid False n, length data)]" "xblocks = []" "stream_plan n (chunks 8176 data) = (specs, block_bid False n, k)"
  | (some) x where "leaves \<noteq> []" "\<not> (xblocks = [] \<and> length leaves = 1)" "leaves_ok leaves" "k < 2 ^ 62"
      "x = xblock_spec (block_bid True k) leaves" "length (xblocks @ [(block_bid True k, group_size leaves)]) \<le> 1021" "Suc k < 2 ^ 62"
      "group_size (xblocks @ [(block_bid True k, group_size leaves)]) < 2 ^ 32"
      "stream_plan n (chunks 8176 data) = (if xblocks = [] then (specs @ [x], block_bid True k, Suc k)
        else (specs @ [x, xxblock_spec (block_bid True (Suc k)) (xblocks @ [(block_bid True k, group_size leaves)])], block_bid True (Suc k), Suc (Suc k)))"
proof -
  define cs where "cs = chunks 8176 data"
  note b = payload_bounds_facts [OF assms(1), folded cs_def]
  let ?gs = "chunks 1021 cs"
  let ?ids = "groups_ids n ?gs"
  from loop_plan_groups [OF b(4), of n "[]"] obtain g m where
    g: "leaves = group_leaves m g" "xblocks = butlast ?ids" "k = m + length g" "specs @ [group_above m g] = groups_specs n ?gs" "g = last ?gs"
      "last ?ids = (block_bid True k, length (concat g))" "k = n + length cs + length ?gs - 1" "g \<noteq> []" "length ?gs = 1 \<longrightarrow> m = n"
    using plan by (auto simp: cs_def)
  have gs: "?gs \<noteq> []" using b(4) by (simp add: chunks_eq_Nil_iff)
  have ids: "?ids = xblocks @ [(block_bid True k, group_size leaves)]"
  proof -
    have "?ids \<noteq> []" using gs length_groups_ids [of n ?gs] by (metis length_0_conv)
    then show ?thesis using g(2,6) append_butlast_last_id [of ?ids] by (simp add: g(1) group_leaves_size)
  qed
  have lv: "leaves_ok leaves" unfolding g(1) using last_group_ok [OF b(8)] gs g(5) by simp
  have lvn: "length leaves = length g" by (simp add: g(1) group_leaves_def)
  have k: "Suc k = n + length cs + length ?gs" using g(7) gs by (cases ?gs) auto
  show thesis
  proof (cases "length cs = 1")
    case True
    then obtain c where c: "cs = [c]" by (auto simp: length_Suc_conv)
    have "c = data" using b(9) c by simp
    moreover have "chunks 1021 [data] = [[data]]" by (simp add: chunks_short)
    ultimately show thesis
      using g by (intro one) (auto simp: c stream_plan_def cs_def [symmetric] group_leaves_def)
  next
    case False
    have x: "xblocks = [] \<longleftrightarrow> length ?gs = 1" using arg_cong [OF ids, of length] by auto
    have "concat ?gs = cs" by simp
    then have "length ?gs = 1 \<Longrightarrow> last ?gs = cs" by (cases ?gs) (auto simp del: concat_chunks)
    then have "\<not> (xblocks = [] \<and> length leaves = 1)" using False x lvn g(5) by auto
    moreover have "leaves \<noteq> []" using lvn g(8) by auto
    moreover have "length (xblocks @ [(block_bid True k, group_size leaves)]) \<le> 1021" "Suc k < 2 ^ 62"
      using arg_cong [OF ids, of length] b(5,6) k by simp_all
    moreover have "group_size (xblocks @ [(block_bid True k, group_size leaves)]) < 2 ^ 32"
      unfolding ids [symmetric] using b(7) by (simp add: groups_ids_size)
    ultimately show thesis
      using lv False x g(4) k ids
      by (intro some [OF _ _ lv _ refl])
        (auto simp: stream_plan_def cs_def [symmetric] Let_def group_above_def g(1,3) [symmetric] length_Suc_conv)
  qed
qed

section \<open>The operations emit the plan\<close>

definition reader_accepts :: "(bytes \<Rightarrow> bytes) \<Rightarrow> bytes \<Rightarrow> byte_reader \<Rightarrow> bytes option \<Rightarrow> bool \<Rightarrow> bool" where
  "reader_accepts sha256 data rest expected require_eof \<longleftrightarrow>
    (expected = None \<or> expected = Some (sha256 data)) \<and> (require_eof \<longrightarrow> rd_content rest = [] \<and> rd_error rest = None)"

lemma append_reader_plan:
  assumes b: "payload_bounds n data" and ok: "reader_accepts sha256 data \<lparr>rd_content = rest, rd_error = e\<rparr> expected require_eof"
  shows "append_reader_data_tree sha256 \<lparr>rd_content = data @ rest, rd_error = e\<rparr> (word_of_nat (length data)) expected require_eof (word_of_nat n) st =
    with_plan id (stream_plan n (chunks 8176 data)) st (\<lambda>(root, n') st. ((root, length data, sha256 data), word_of_nat n', st))"
proof -
  note f = payload_bounds_facts [OF b]
  obtain specs leaves xblocks k where plan: "loop_plan n [] [] (chunks 8176 data) = (specs, leaves, xblocks, k)"
    by (metis prod_cases4)
  have loop: "reader_loop (word_of_nat (length data)) \<lparr>rs_leaves = [], rs_xblocks = [], rs_logical = 0, rs_hashed = [],
      rs_reader = \<lparr>rd_content = data @ rest, rd_error = e\<rparr>, rs_next = word_of_nat n, rs_stream = st\<rparr> =
    (case emit_all specs st of Inl e \<Rightarrow> Inl e | Inr st \<Rightarrow>
      Inr \<lparr>rs_leaves = leaves, rs_xblocks = sized xblocks, rs_logical = length data, rs_hashed = data,
        rs_reader = \<lparr>rd_content = rest, rd_error = e\<rparr>, rs_next = word_of_nat k, rs_stream = st\<rparr>)"
    using reader_loop_plan [OF f(1,2), of "[]" 0 "[]" "[]" rest e st] f(3) plan by (simp add: leaves_ok_def with_plan_def split: sum.splits)
  have h: "(case expected of None \<Rightarrow> False | Some x \<Rightarrow> sha256 data \<noteq> x) = False"
    "require_eof \<Longrightarrow> of_io (read_one \<lparr>rd_content = rest, rd_error = e\<rparr>) = Inr 0"
    using ok by (auto simp: reader_accepts_def read_one_def)
  show ?thesis
  proof (rule stream_plan_cases [OF b plan])
    assume "leaves = [(block_bid False n, length data)]" "xblocks = []" "stream_plan n (chunks 8176 data) = (specs, block_bid False n, k)"
    then show ?thesis by (simp add: append_reader_data_tree_def loop h Let_def with_plan_def split: sum.splits)
  next
    fix x assume c: "leaves \<noteq> []" "\<not> (xblocks = [] \<and> length leaves = 1)" "leaves_ok leaves" "k < 2 ^ 62" "x = xblock_spec (block_bid True k) leaves"
      "length (xblocks @ [(block_bid True k, group_size leaves)]) \<le> 1021" "Suc k < 2 ^ 62"
      "group_size (xblocks @ [(block_bid True k, group_size leaves)]) < 2 ^ 32"
      "stream_plan n (chunks 8176 data) = (if xblocks = [] then (specs @ [x], block_bid True k, Suc k)
        else (specs @ [x, xxblock_spec (block_bid True (Suc k)) (xblocks @ [(block_bid True k, group_size leaves)])], block_bid True (Suc k), Suc (Suc k)))"
    note t = sized_total [OF c(8)] take_block_id_Inr(1) [OF c(7), of True] reader_xblock_eq [OF c(3,4) f(3)]
    have start: "append_reader_data_tree sha256 \<lparr>rd_content = data @ rest, rd_error = e\<rparr> (word_of_nat (length data)) expected require_eof (word_of_nat n) st =
      (case emit_all specs st of Inl e \<Rightarrow> Inl e | Inr st \<Rightarrow> (case emit x st of Inl e \<Rightarrow> Inl e | Inr st \<Rightarrow>
        if xblocks = [] then Inr ((block_bid True k, length data, sha256 data), word_of_nat (Suc k), st)
        else (case emit (xxblock_spec (block_bid True (Suc k)) (xblocks @ [(block_bid True k, group_size leaves)])) st of Inl e \<Rightarrow> Inl e
          | Inr st \<Rightarrow> Inr ((block_bid True (Suc k), length data, sha256 data), word_of_nat (Suc (Suc k)), st))))"
    proof (cases "emit_all specs st")
      case (Inr st')
      then show ?thesis
        using c(1,2,6) f(3) t(1-3) unfolding t(4) [folded c(5)] by (cases "emit x st'"; cases "xblocks = []"; cases require_eof)
          (simp_all add: append_reader_data_tree_def loop h Let_def t(4) [folded c(5)] checked_add_usize_def
            WRITER_MAX_DATA_TREE_ENTRIES_def xxblock_spec_def del: of_nat_Suc)
    qed (simp add: append_reader_data_tree_def loop)
    show ?thesis unfolding start using c(5,9)
      by (cases "xblocks = []"; cases "emit_all specs st") (auto simp: with_plan_def emit_all_append  split: sum.splits)
  qed
qed

lemma append_declared_plan:
  assumes b: "payload_bounds n data" and len: "dbs_byte_len blob = word_of_nat (length data)"
  shows "append_declared_data_tree blob (word_of_nat n) st =
    with_plan project_spec (stream_plan n (chunks 8176 data)) st (\<lambda>(root, n') st. ((root, length data), word_of_nat n', st))"
proof -
  note f = payload_bounds_facts [OF b]
  obtain specs leaves xblocks k where plan: "loop_plan n [] [] (chunks 8176 data) = (specs, leaves, xblocks, k)"
    by (metis prod_cases4)
  have u: "unat (word_of_nat (length data) :: u64) = length data" using f(1) by (simp add: unsigned_of_nat take_bit_nat_eq_self)
  have loop: "declared_loop (word_of_nat (length data)) [] [] (word_of_nat n) st =
    (case emit_all (map project_spec specs) st of Inl e \<Rightarrow> Inl e | Inr st \<Rightarrow> Inr (leaves, sized xblocks, word_of_nat k, st))"
    using declared_loop_plan [OF f(1,2), of "[]" "[]" st] plan by (simp add: leaves_ok_def with_plan_def split: sum.splits)
  have xx: "project_spec (xxblock_spec bid ids) = xxblock_spec bid ids" for bid ids by (simp add: project_spec_def xxblock_spec_def)
  show ?thesis
  proof (rule stream_plan_cases [OF b plan])
    assume "leaves = [(block_bid False n, length data)]" "xblocks = []" "stream_plan n (chunks 8176 data) = (specs, block_bid False n, k)"
    then show ?thesis by (simp add: append_declared_data_tree_def len u loop Let_def with_plan_def split: sum.splits)
  next
    fix x assume c: "leaves \<noteq> []" "\<not> (xblocks = [] \<and> length leaves = 1)" "leaves_ok leaves" "k < 2 ^ 62" "x = xblock_spec (block_bid True k) leaves"
      "length (xblocks @ [(block_bid True k, group_size leaves)]) \<le> 1021" "Suc k < 2 ^ 62"
      "group_size (xblocks @ [(block_bid True k, group_size leaves)]) < 2 ^ 32"
      "stream_plan n (chunks 8176 data) = (if xblocks = [] then (specs @ [x], block_bid True k, Suc k)
        else (specs @ [x, xxblock_spec (block_bid True (Suc k)) (xblocks @ [(block_bid True k, group_size leaves)])], block_bid True (Suc k), Suc (Suc k)))"
    note t = sized_total [OF c(8)] take_block_id_Inr(1) [OF c(7), of True] declared_xblock_eq [OF c(3,4)]
    have start: "append_declared_data_tree blob (word_of_nat n) st =
      (case emit_all (map project_spec specs) st of Inl e \<Rightarrow> Inl e | Inr st \<Rightarrow> (case emit x st of Inl e \<Rightarrow> Inl e | Inr st \<Rightarrow>
        if xblocks = [] then Inr ((block_bid True k, length data), word_of_nat (Suc k), st)
        else (case emit (xxblock_spec (block_bid True (Suc k)) (xblocks @ [(block_bid True k, group_size leaves)])) st of Inl e \<Rightarrow> Inl e
          | Inr st \<Rightarrow> Inr ((block_bid True (Suc k), length data), word_of_nat (Suc (Suc k)), st))))"
    proof (cases "emit_all (map project_spec specs) st")
      case (Inr st')
      then show ?thesis
        using c(1,2,6) f(3) t(1-3) unfolding t(4) [folded c(5)] by (cases "emit x st'"; cases "xblocks = []")
          (simp_all add: append_declared_data_tree_def len u loop Let_def t(4) [folded c(5)] checked_add_usize_def
            WRITER_MAX_DATA_TREE_ENTRIES_def xxblock_spec_def del: of_nat_Suc)
    qed (simp add: append_declared_data_tree_def len u loop)
    show ?thesis unfolding start using c(5,9)
      by (cases "xblocks = []"; cases "emit_all (map project_spec specs) st") (auto simp: with_plan_def emit_all_append xx split: sum.splits)
  qed
qed

section \<open>The plan holds the payload\<close>

definition group_ok :: "bytes list \<Rightarrow> bool" where
  "group_ok g \<longleftrightarrow> length g \<le> 1021 \<and> (\<forall>c\<in>set g. 1 \<le> length c \<and> length c \<le> 8176)"

lemma group_cut: "group_ok g \<Longrightarrow> n + 300000 \<le> 2 ^ 62 \<Longrightarrow> cut_ok n g"
  by (simp add: group_ok_def cut_ok_def)

lemma group_in:
  assumes g: "group_ok g" and n: "n + 300000 \<le> 2 ^ 62" and A: "set (data_specs n g) \<subseteq> A" "group_above n g \<in> A"
  shows "xblock_in A (block_bid True (n + length g)) g" "payload_ok (sp_id (group_above n g)) (sp_payload (group_above n g))"
proof -
  let ?ids = "bids False n (length g)"
  have fst: "map fst (group_leaves n g) = ?ids" by (simp add: group_leaves_def)
  have ni: "\<forall>b\<in>set ?ids. \<not> block_id_is_internal b" using internal_bids [of n "length g" False] g n by (simp add: group_ok_def)
  have int: "block_id_is_internal (block_bid True (n + length g))" using take_block_id_Inr(2) [of "n + length g" True] g n by (simp add: group_ok_def)
  have "\<forall>i<length g. data_spec (?ids ! i) (g ! i) \<in> A" using A(1) by (force simp: data_specs_def set_zip)
  then have "list_all2 (leaf_in A) ?ids g" using ni by (auto simp: list_all2_conv_all_nth leaf_in_def)
  moreover have "length (concat g) \<le> length g * 8176" by (rule length_concat_le) (use g in \<open>simp add: group_ok_def\<close>)
  then have "unat (word_of_nat (length (concat g)) :: u32) = length (concat g)"
    using g by (simp add: group_ok_def unsigned_of_nat take_bit_nat_eq_self)
  ultimately show "xblock_in A (block_bid True (n + length g)) g"
    using A(2) int unfolding xblock_in_def group_above_def xblock_spec_def fst group_leaves_size by blast
  show "payload_ok (sp_id (group_above n g)) (sp_payload (group_above n g))"
    using g ni int by (simp add: group_above_def xblock_spec_def fst group_ok_def)
qed

lemma groups_in:
  assumes "\<forall>g\<in>set gs. group_ok g" "n + length (concat gs) + length gs + 300000 \<le> 2 ^ 62"
  shows "(\<forall>A. set (groups_specs n gs) \<subseteq> A \<longrightarrow> list_all2 (xblock_in A) (map fst (groups_ids n gs)) gs) \<and>
    fresh_specs n (groups_specs n gs) \<and> specs_ok (groups_specs n gs) \<and> block_subnodes (groups_specs n gs) = [] \<and>
    length (groups_specs n gs) = length (concat gs) + length gs \<and> distinct (map fst (groups_ids n gs)) \<and>
    (\<forall>b\<in>set (map fst (groups_ids n gs)). block_id_is_internal b \<and> n \<le> unat b div 4)"
  using assms
proof (induction gs arbitrary: n)
  case (Cons g gs)
  let ?m = "n + length g + 1"
  have g: "group_ok g" "n + 300000 \<le> 2 ^ 62" "?m + length (concat gs) + length gs + 300000 \<le> 2 ^ 62" using Cons.prems by auto
  have gs: "\<forall>g\<in>set gs. group_ok g" using Cons.prems by simp
  from Cons.IH [OF gs g(3)] have IH: "\<forall>A. set (groups_specs ?m gs) \<subseteq> A \<longrightarrow> list_all2 (xblock_in A) (map fst (groups_ids ?m gs)) gs"
    "fresh_specs ?m (groups_specs ?m gs)" "specs_ok (groups_specs ?m gs)" "block_subnodes (groups_specs ?m gs) = []"
    "length (groups_specs ?m gs) = length (concat gs) + length gs" "distinct (map fst (groups_ids ?m gs))"
    "\<forall>b\<in>set (map fst (groups_ids ?m gs)). block_id_is_internal b \<and> ?m \<le> unat b div 4" by blast+
  note d = data_specs_ok [OF group_cut [OF g(1,2)]]
  have len: "length (data_specs n g) = length g" by (simp add: data_specs_def)
  have int: "block_id_is_internal (block_bid True (n + length g))" "unat (block_bid True (n + length g)) div 4 = n + length g"
    using take_block_id_Inr(2) [of "n + length g" True] block_bid_index [of "n + length g" True] g(3) by simp_all
  have "\<forall>A. set (groups_specs n (g # gs)) \<subseteq> A \<longrightarrow> list_all2 (xblock_in A) (map fst (groups_ids n (g # gs))) (g # gs)"
    using group_in(1) [OF g(1,2)] IH(1) by auto
  moreover have "fresh_specs n (groups_specs n (g # gs))"
  proof -
    have "fresh_specs ?m (groups_specs ?m gs)" "fresh_specs (n + length g) [group_above n g]"
      using IH(2) g(3) by (auto simp: fresh_specs_def group_above_def xblock_spec_def)
    then have "fresh_specs (n + length g) ([group_above n g] @ groups_specs ?m gs)" by (intro fresh_specs_append) simp_all
    then show ?thesis using fresh_specs_append [OF d(1)] len by simp
  qed
  moreover have "specs_ok (groups_specs n (g # gs))"
    using d(2) IH(3) group_in(2) [OF g(1,2), of UNIV] by (simp add: specs_ok_def)
  moreover have "block_subnodes (groups_specs n (g # gs)) = []" using d(3) IH(4) by (simp add: group_above_def xblock_spec_def)
  moreover have "length (groups_specs n (g # gs)) = length (concat (g # gs)) + length (g # gs)" using IH(5) len by simp
  moreover have "distinct (map fst (groups_ids n (g # gs)))" using IH(6,7) int(2) by fastforce
  moreover have "\<forall>b\<in>set (map fst (groups_ids n (g # gs))). block_id_is_internal b \<and> n \<le> unat b div 4" using IH(7) int by fastforce
  ultimately show ?case by blast
qed (simp add: specs_ok_def)

lemma stream_plan_value:
  assumes "payload_bounds n data" "stream_plan n (chunks 8176 data) = (specs, root, n')"
  shows "value_appended n specs root data" "n' = n + length specs"
proof -
  define cs where "cs = chunks 8176 data"
  let ?gs = "chunks 1021 cs"
  note b = payload_bounds_facts [OF assms(1), folded cs_def]
  have gok: "\<forall>g\<in>set ?gs. group_ok g"
  proof
    fix g assume g: "g \<in> set ?gs"
    then have "set g \<subseteq> set (concat ?gs)" by (auto simp del: concat_chunks)
    then show "group_ok g" using chunks_bounds [OF _ g] b(8) by (auto simp: group_ok_def cut_ok_def)
  qed
  have room: "n + length (concat ?gs) + length ?gs + 300000 \<le> 2 ^ 62" using assms(1) b(10) by (simp add: payload_bounds_def)
  from groups_in [OF gok room] have G: "\<And>A. set (groups_specs n ?gs) \<subseteq> A \<Longrightarrow> list_all2 (xblock_in A) (map fst (groups_ids n ?gs)) ?gs"
    "fresh_specs n (groups_specs n ?gs)" "specs_ok (groups_specs n ?gs)" "block_subnodes (groups_specs n ?gs) = []"
    "length (groups_specs n ?gs) = length (concat ?gs) + length ?gs" "distinct (map fst (groups_ids n ?gs))"
    "\<forall>b\<in>set (map fst (groups_ids n ?gs)). block_id_is_internal b \<and> n \<le> unat b div 4" by blast+
  have "value_appended n specs root data \<and> n' = n + length specs"
  proof (cases "length cs = 1")
    case True
    then show ?thesis
      using append_data_tree_one(2) [OF b(8) cs_def] assms(2) by (auto simp: stream_plan_def cs_def [symmetric] Let_def data_specs_def)
  next
    case False
    show ?thesis
    proof (cases "length ?gs = 1")
      case True
      then have gs: "?gs = [cs]" using concat_chunks [of 1021 cs] by (auto simp: length_Suc_conv simp del: concat_chunks)
      have s: "specs = groups_specs n ?gs" "root = fst (groups_ids n ?gs ! 0)" "n' = n + length cs + length ?gs"
        using assms(2) False True by (auto simp: stream_plan_def cs_def [symmetric] Let_def)
      moreover have "xblock_in (set specs) root cs" using G(1) [of "set specs"] by (simp add: s gs subset_insertI)
      ultimately show ?thesis
        using G(2-5) b(9,10) by (auto simp: value_appended_def value_in_def Let_def gs cs_def [symmetric])
    next
      case gs: False
      let ?k = "n + length cs + length ?gs" and ?ids = "groups_ids n ?gs"
      define x where "x = xxblock_spec (block_bid True ?k) ?ids"
      have s: "specs = groups_specs n ?gs @ [x]" "root = block_bid True ?k" "n' = ?k + 1"
        using assms(2) False gs by (auto simp: stream_plan_def cs_def [symmetric] Let_def x_def)
      have int: "block_id_is_internal (block_bid True ?k)" using take_block_id_Inr(2) [OF b(6), of True] by simp
      have size: "group_size ?ids = length data" using b(9) by (simp add: groups_ids_size)
      have "unat (word_of_nat (length data) :: u32) = length data"
        using assms(1) by (simp add: payload_bounds_def unsigned_of_nat take_bit_nat_eq_self)
      moreover have "list_all2 (xblock_in (set specs)) (map fst ?ids) ?gs" by (rule G(1)) (auto simp: s(1))
      moreover have "x \<in> set specs" by (simp add: s(1))
      ultimately have "value_in (set specs) root data"
        using int G(6) unfolding value_in_def Let_def cs_def [symmetric] s(2) x_def xxblock_spec_def size by (intro disjI2 conjI exI) auto
      moreover have "fresh_specs n specs"
        unfolding s(1) using G(2,5) b(6) by (intro fresh_specs_append) (auto simp: fresh_specs_def x_def xxblock_spec_def add.assoc)
      moreover have "specs_ok specs" using G(3,7) int b(5) by (auto simp: s(1) specs_ok_def x_def xxblock_spec_def)
      ultimately show ?thesis using G(4,5) b(10) s by (auto simp: value_appended_def x_def xxblock_spec_def)
    qed
  qed
  then show "value_appended n specs root data" "n' = n + length specs" by simp_all
qed

section \<open>Emitting into a file and into a projection\<close>

definition stream_state_ok :: "block_stream \<Rightarrow> block_spec list \<Rightarrow> bool" where
  "stream_state_ok st specs \<longleftrightarrow> (\<exists>f. bst_file st = Some f \<and> stream_ok f (bst_cursor st) specs (bst_written st))"

lemma project_spec_extent: "block_extent (sp_payload (project_spec b)) cursor = block_extent (sp_payload b) cursor"
  "sp_id (project_spec b) = sp_id b" "sp_ref_count (project_spec b) = sp_ref_count b"
  by (auto simp: project_spec_def block_extent_def split: block_payload.splits)

lemma write_block_extent:
  "write_block file b cursor = Inr (w, f, c) \<Longrightarrow> block_extent (sp_payload b) cursor = Inr (wb_size w, c, wb_offset w) \<and>
    wb_id w = sp_id b \<and> wb_ref_count w = sp_ref_count b"
  by (auto simp: write_block_def split: block_payload.splits sum.splits prod.splits)

lemma emit_ok:
  assumes st: "stream_state_ok st specs" and "\<not> bst_interrupted st 0" "payload_ok (sp_id b) (sp_payload b)"
    and c: "unat (bst_cursor st) + 600000 \<le> 2 ^ 46"
  shows "\<exists>st'. emit b st = Inr st' \<and> stream_state_ok st' (specs @ [b]) \<and> bst_interrupted st' = bst_interrupted st \<circ> Suc \<and>
    unat (bst_cursor st') \<le> unat (bst_cursor st) + 600000 \<and>
    emit (project_spec b) (st\<lparr>bst_file := None\<rparr>) = Inr (st'\<lparr>bst_file := None\<rparr>)"
proof -
  obtain f where f: "bst_file st = Some f" "17408 \<le> unat (bst_cursor st)" "list_all2 (block_at f 17408 (unat (bst_cursor st))) specs (bst_written st)"
    using st by (auto simp: stream_state_ok_def stream_ok_def)
  have "unat (bst_cursor st) + 1000000 \<le> 2 ^ 64" using c by simp
  from write_block_stored [OF assms(3) f(2) this, of f] obtain w f' c' where
    w: "write_block f b (bst_cursor st) = Inr (w, f', c')" "unat (bst_cursor st) \<le> unat c'" "unat c' \<le> unat (bst_cursor st) + 600000"
      "kept_below (unat (bst_cursor st)) f f'" "block_at f' (unat (bst_cursor st)) (unat c') b w" by blast
  define st' where "st' = st\<lparr>bst_file := Some f', bst_cursor := c', bst_written := bst_written st @ [w], bst_interrupted := bst_interrupted st \<circ> Suc\<rparr>"
  have "list_all2 (block_at f' 17408 (unat c')) specs (bst_written st)"
    by (rule blocks_at_kept [OF f(3) kept_below_extents [OF w(4)] order_refl w(2)])
  moreover have "block_at f' 17408 (unat c') b w"
    using block_at_kept [OF w(5) extents_kept_refl, of 17408 "unat c'"] f(2) by simp
  ultimately have "stream_state_ok st' (specs @ [b])"
    using w(2,3) c f(2) by (auto simp: stream_state_ok_def stream_ok_def st'_def list_all2_appendI)
  moreover have "emit b st = Inr st'" "emit (project_spec b) (st\<lparr>bst_file := None\<rparr>) = Inr (st'\<lparr>bst_file := None\<rparr>)"
    using assms(2) f(1) w(1) write_block_extent [OF w(1)]
    by (simp_all add: emit_def st'_def check_interrupted_def project_spec_extent Let_def)
  ultimately show ?thesis using w(3) by (intro exI [of _ st']) (simp add: st'_def)
qed

lemma emit_all_ok:
  assumes "stream_state_ok st specs" "\<forall>i. \<not> bst_interrupted st i" "specs_ok new" "unat (bst_cursor st) + 600000 * length new \<le> 2 ^ 46"
  shows "\<exists>st'. emit_all new st = Inr st' \<and> stream_state_ok st' (specs @ new) \<and> (\<forall>i. \<not> bst_interrupted st' i) \<and>
    unat (bst_cursor st') \<le> unat (bst_cursor st) + 600000 * length new \<and>
    emit_all (map project_spec new) (st\<lparr>bst_file := None\<rparr>) = Inr (st'\<lparr>bst_file := None\<rparr>)"
  using assms
proof (induction new arbitrary: st specs)
  case (Cons b new)
  from emit_ok [OF Cons.prems(1), of b] Cons.prems(2-4) obtain st1 where
    e: "emit b st = Inr st1" "stream_state_ok st1 (specs @ [b])" "bst_interrupted st1 = bst_interrupted st \<circ> Suc"
      "unat (bst_cursor st1) \<le> unat (bst_cursor st) + 600000"
      "emit (project_spec b) (st\<lparr>bst_file := None\<rparr>) = Inr (st1\<lparr>bst_file := None\<rparr>)"
    by (auto simp: specs_ok_def)
  have "\<forall>i. \<not> bst_interrupted st1 i" "specs_ok new" "unat (bst_cursor st1) + 600000 * length new \<le> 2 ^ 46"
    using Cons.prems e(3,4) by (simp_all add: specs_ok_def)
  from Cons.IH [OF e(2) this] show ?case using e(1,4,5) by fastforce
qed simp

section \<open>Properties\<close>

text \<open>
  C12. The projection is exact: a payload that is only declared, in a stream without a file,
  takes the same identifiers, gives the same root and size and leaves the same cursor and the
  same list of blocks as writing the payload from a reader does. Writing it succeeds, keeps every
  block written before in place and adds the new ones.
\<close>

theorem declared_projection_exact:
  assumes st: "stream_state_ok st specs" "\<forall>i. \<not> bst_interrupted st i" "unat (bst_cursor st) \<le> 2 ^ 45"
    and data: "payload_bounds n data" "dbs_byte_len blob = word_of_nat (length data)"
    and reader: "reader_accepts sha256 data \<lparr>rd_content = rest, rd_error = e\<rparr> expected require_eof"
  shows "\<exists>root next_index st' new.
    append_reader_data_tree sha256 \<lparr>rd_content = data @ rest, rd_error = e\<rparr> (word_of_nat (length data)) expected require_eof (word_of_nat n) st =
      Inr ((root, length data, sha256 data), next_index, st') \<and>
    append_declared_data_tree blob (word_of_nat n) (st\<lparr>bst_file := None\<rparr>) = Inr ((root, length data), next_index, st'\<lparr>bst_file := None\<rparr>) \<and>
    stream_state_ok st' (specs @ new)"
proof -
  obtain new root n' where plan: "stream_plan n (chunks 8176 data) = (new, root, n')" by (metis prod_cases3)
  note v = stream_plan_value [OF data(1) plan, unfolded value_appended_def]
  from emit_all_ok [OF st(1,2), of new] v(1) st(3) obtain st' where
    "emit_all new st = Inr st'" "stream_state_ok st' (specs @ new)"
    "emit_all (map project_spec new) (st\<lparr>bst_file := None\<rparr>) = Inr (st'\<lparr>bst_file := None\<rparr>)" by auto
  then show ?thesis
    using append_reader_plan [OF data(1) reader, of st] append_declared_plan [OF data, of "st\<lparr>bst_file := None\<rparr>"]
    by (auto simp: with_plan_def plan)
qed

definition sample_stream :: block_stream where
  "sample_stream = \<lparr>bst_file = Some [], bst_cursor = 0x4800, bst_written = [], bst_interrupted = (\<lambda>_. False)\<rparr>"

lemma sample_stream_ok: "stream_state_ok sample_stream []"
  by (simp add: sample_stream_def stream_state_ok_def stream_ok_def)

theorem declared_projection_exact_witness:
  "\<exists>root next_index st'.
    append_reader_data_tree rev \<lparr>rd_content = [1, 2, 3], rd_error = None\<rparr> 3 (Some [3, 2, 1]) True 28 sample_stream =
      Inr ((root, 3, [3, 2, 1]), next_index, st') \<and>
    append_declared_data_tree \<lparr>dbs_id = 1, dbs_byte_len = 3, dbs_sha256 = None\<rparr> 28 (sample_stream\<lparr>bst_file := None\<rparr>) =
      Inr ((root, 3), next_index, st'\<lparr>bst_file := None\<rparr>)"
  using declared_projection_exact [OF sample_stream_ok, of 28 "[1, 2, 3]" "\<lparr>dbs_id = 1, dbs_byte_len = 3, dbs_sha256 = None\<rparr>" rev "[]" None "Some [3, 2, 1]" True]
  by (auto simp: sample_stream_def payload_bounds_def reader_accepts_def)

text \<open>
  C4. A payload from a reader to a reader: a payload of at most two gibibytes whose hash is the
  expected one is written as it is read, and after the store is finalised, streaming from the root of
  the payload delivers exactly its bytes.
\<close>

theorem streamed_value_read:
  assumes st: "stream_state_ok st specs" "\<forall>i. \<not> bst_interrupted st i" "unat (bst_cursor st) \<le> 2 ^ 45"
    and data: "payload_bounds n data" "reader_accepts sha256 data \<lparr>rd_content = rest, rd_error = e\<rparr> expected require_eof"
    and blocks: "list_all (\<lambda>b. payload_ok (sp_id b) (sp_payload b)) blocks" "\<forall>i. \<not> interrupted i"
      "length specs + length blocks + 300000 \<le> 2 ^ 24" "ids_ok (specs @ blocks)"
      "\<forall>b\<in>set (specs @ blocks). unat (sp_id b) div 4 < n"
    and nodes: "nodes \<noteq> []" "length nodes \<le> 2 ^ 22" "list_all unicode_node_entry_ok nodes"
      "sorted_wrt (<) (map unicode_node_entry_key nodes)" "nid_counters nodes blocks streamed_subnodes = Inr nids"
  shows "\<exists>root next_index st' f projected file' h H page.
    append_reader_data_tree sha256 \<lparr>rd_content = data @ rest, rd_error = e\<rparr> (word_of_nat (length data)) expected require_eof (word_of_nat n) st =
      Inr ((root, length data, sha256 data), next_index, st') \<and> bst_file st' = Some f \<and>
    projected_finalized_file_eof (bst_cursor st') (length (bst_written st')) blocks (length nodes) = Inr projected \<and>
    finalize_store interrupted f (bst_cursor st') (bst_written st') streamed_subnodes blocks nodes next_index projected = Inr file' \<and>
    unicode_header_read file' = Inr (h, drop 564 file') \<and>
    unicode_block_btree_read file' (root_block_btree (uh_root h)) = Inr page \<and>
    value_delivered H file' page root data"
proof -
  obtain new root n' where plan: "stream_plan n (chunks 8176 data) = (new, root, n')" by (metis prod_cases3)
  note v = stream_plan_value [OF data(1) plan, unfolded value_appended_def]
  then have new: "fresh_specs n new" "specs_ok new" "value_in (set new) root data" "length new \<le> 300000" "n' = n + length new" by simp_all
  from emit_all_ok [OF st(1,2), of new] v(1) st(3) obtain st' where st': "emit_all new st = Inr st'" "stream_state_ok st' (specs @ new)" by auto
  then obtain f where f: "bst_file st' = Some f" "stream_ok f (bst_cursor st') (specs @ new) (bst_written st')"
    by (auto simp: stream_state_ok_def)
  have run: "append_reader_data_tree sha256 \<lparr>rd_content = data @ rest, rd_error = e\<rparr> (word_of_nat (length data)) expected require_eof (word_of_nat n) st =
      Inr ((root, length data, sha256 data), word_of_nat n', st')"
    using append_reader_plan [OF data, of st] st'(1) by (simp add: with_plan_def plan)
  have ids: "ids_ok ((specs @ new) @ blocks)" "(specs @ new) @ blocks \<noteq> []" "length (specs @ new) + length blocks \<le> 2 ^ 24"
    using ids_ok_fresh [OF blocks(4,5) new(1)] new(3,4) blocks(3)
    by (auto simp: ids_ok_def value_in_def Let_def leaf_in_def xblock_in_def)
  have idx: "(word_of_nat n' :: u64) \<le> MAX_UNICODE_BLOCK_INDEX"
    using data(1) new(4,5) by (simp add: payload_bounds_def word_le_nat_alt max_index_values unsigned_of_nat take_bit_nat_eq_self del: of_nat_add)
  have ni: "\<forall>i<length blocks. \<not> interrupted i" using blocks(2) by simp
  from finalize_store_correct [OF f(2) blocks(1) ni ids(2,3,1) nodes(1-4) idx nodes(5)]
  obtain projected file' h H page where
    p: "projected_finalized_file_eof (bst_cursor st') (length (bst_written st')) blocks (length nodes) = Inr projected"
      "finalize_store interrupted f (bst_cursor st') (bst_written st') streamed_subnodes blocks nodes (word_of_nat n') projected = Inr file'"
      "unicode_header_read file' = Inr (h, drop 564 file')" "unicode_block_btree_read file' (root_block_btree (uh_root h)) = Inr page"
      "block_store file' H page ((specs @ new) @ blocks)" by (elim exE conjE)
  have "value_delivered H file' page root data"
    by (rule value_in_delivered [OF block_store_subset [OF p(5)] new(3)]) (use data(1) in \<open>auto simp: payload_bounds_def\<close>)
  then show ?thesis using run f(1) p(1-4) by blast
qed

theorem streamed_value_read_witness:
  "\<exists>root next_index st' f projected file' h H page.
    append_reader_data_tree rev \<lparr>rd_content = [1, 2, 3], rd_error = None\<rparr> 3 None True 28 sample_stream =
      Inr ((root, 3, [3, 2, 1]), next_index, st') \<and> bst_file st' = Some f \<and>
    projected_finalized_file_eof (bst_cursor st') (length (bst_written st')) [] 1 = Inr projected \<and>
    finalize_store (\<lambda>_. False) f (bst_cursor st') (bst_written st') [] [] [sample_entry] next_index projected = Inr file' \<and>
    unicode_header_read file' = Inr (h, drop 564 file') \<and>
    unicode_block_btree_read file' (root_block_btree (uh_root h)) = Inr page \<and>
    value_delivered H file' page root [1, 2, 3]"
proof -
  have "unicode_node_entry_ok sample_entry"
    by (simp add: sample_entry_def unicode_node_entry_new_def unicode_node_entry_ok_def)
  moreover obtain nids where "nid_counters [sample_entry] [] [] = Inr nids"
    by (simp add: nid_counters_def sample_entry_def unicode_node_entry_new_def update_nid_counter_def
        node_id_id_type_def node_id_type_try_from_def node_id_type_usize_def Let_def node_id_index_def checked_add_w_def)
  ultimately show ?thesis
    using streamed_value_read [OF sample_stream_ok, of 28 "[1, 2, 3]" rev "[]" None None True "[]" "\<lambda>_. False" "[sample_entry]" "[]" nids]
    by (auto simp: sample_stream_def payload_bounds_def reader_accepts_def ids_ok_def)
qed

end
