(* ===== verification/Writer_Heap.thy ===== *)
theory Writer_Heap
  imports Writer_Tree Ltp_Heap
begin

text \<open>
  Heap pages of \<open>writer.rs\<close>: the first page of a heap with its header, the pages that continue it,
  the placement of allocations on pages, the filling of every page but the last to the size of a
  data block, and the fill levels in the headers. The theorems say what the reader of
  \<open>Ltp_Heap\<close> finds on the pages.
\<close>

section \<open>Pages\<close>

definition MAX_HEAP_ALLOCATION :: nat where "MAX_HEAP_ALLOCATION = 3580"

fun checked_sum :: "nat \<Rightarrow> nat list \<Rightarrow> nat option" where
  "checked_sum acc [] = Some acc"
| "checked_sum acc (n # ns) = (case checked_add_usize acc n of None \<Rightarrow> None | Some acc \<Rightarrow> checked_sum acc ns)"

text \<open>The allocations behind the header, with the offsets of their ends.\<close>

fun append_allocations :: "string \<Rightarrow> bytes \<Rightarrow> u16 list \<Rightarrow> bytes list \<Rightarrow> writer_error + bytes \<times> u16 list" where
  "append_allocations name data offsets [] = Inr (data, offsets)"
| "append_allocations name data offsets (allocation # allocations) =
    (let data = data @ allocation in
     if length data \<ge> 2 ^ 16 then Inl (ValueTooLarge name)
     else append_allocations name data (offsets @ [word_of_nat (length data)]) allocations)"

definition resize :: "nat \<Rightarrow> bytes \<Rightarrow> bytes" where
  "resize n bs = take n bs @ replicate (n - length bs) 0"

definition heap_page_map_size :: "nat \<Rightarrow> nat option" where
  "heap_page_map_size entries =
    (if entries + 1 > usize_max \<or> (entries + 1) * 2 > usize_max \<or> (entries + 1) * 2 + 4 > usize_max then None
     else Some ((entries + 1) * 2 + 4))"

definition of_ltp :: "ltp_error + 'a \<Rightarrow> writer_error + 'a" where
  "of_ltp r = (case r of Inl e \<Rightarrow> Inl (InvalidStructure (LtpText e)) | Inr x \<Rightarrow> Inr x)"

definition heap_page :: "heap_node_type \<Rightarrow> bytes list \<Rightarrow> writer_error + bytes" where
  "heap_page kind allocations =
    (case checked_sum 12 (map length allocations) of None \<Rightarrow> Inl (ValueTooLarge ''heap page'') | Some allocation_end \<Rightarrow>
    (let payload_size = unat (align_up (word_of_nat allocation_end) 2) in
    (case heap_page_map_size (length allocations) of None \<Rightarrow> Inl (ValueTooLarge ''heap page map'') | Some page_map_size \<Rightarrow>
    (case checked_add_usize payload_size page_map_size of None \<Rightarrow> Inl (ValueTooLarge ''heap page'') | Some total_size \<Rightarrow>
     if total_size > 8176 then Inl (ValueTooLarge ''heap page'')
     else if payload_size \<ge> 2 ^ 16 then Inl (ValueTooLarge ''heap page offset'')
     else
    (case of_ltp (heap_id_new 1 0) of Inl e \<Rightarrow> Inl e | Inr user_root \<Rightarrow>
    (let data = heap_node_header_write \<lparr>hn_page_map_offset = word_of_nat payload_size, hn_client_signature = kind,
           hn_user_root = user_root, hn_fill_levels = replicate 8 LevelEmpty\<rparr> in
     if length data \<ge> 2 ^ 16 then Inl (ValueTooLarge ''heap'') else
    (case append_allocations ''heap'' data [word_of_nat (length data)] allocations of Inl e \<Rightarrow> Inl e
     | Inr (data, offsets) \<Rightarrow>
     let data = resize payload_size data; free_count = length (filter (\<lambda>allocation. allocation = []) allocations) in
     if length allocations \<ge> 2 ^ 16 then Inl (ValueTooLarge ''heap allocation count'')
     else if free_count \<ge> 2 ^ 16 then Inl (ValueTooLarge ''heap free allocation count'')
     else Inr (data @ write_u16 (word_of_nat (length allocations)) @ write_u16 (word_of_nat free_count) @
       concat (map write_u16 offsets)))))))))"

definition heap_continuation_page_allocations :: "u16 \<Rightarrow> bytes list \<Rightarrow> writer_error + bytes" where
  "heap_continuation_page_allocations page_index allocations =
    (let bitmap = (page_index mod 128 = 8); header_size = (if bitmap then 66 else 2) in
     case checked_sum header_size (map length allocations) of None \<Rightarrow> Inl (ValueTooLarge ''heap continuation page'')
     | Some allocation_end \<Rightarrow>
    (let payload_size = unat (align_up (word_of_nat allocation_end) 2) in
    (case heap_page_map_size (length allocations) of None \<Rightarrow> Inl (ValueTooLarge ''heap continuation page'')
     | Some page_map_size \<Rightarrow>
    (case checked_add_usize payload_size page_map_size of None \<Rightarrow> Inl (ValueTooLarge ''heap continuation page'')
     | Some total_size \<Rightarrow>
     if total_size > MAX_DATA_BLOCK_PAYLOAD then Inl (ValueTooLarge ''heap continuation page'')
     else if payload_size \<ge> 2 ^ 16 then Inl (ValueTooLarge ''heap continuation page'')
     else
    (let data = (if bitmap
         then heap_bitmap_header_write \<lparr>hb_page_map_offset = word_of_nat payload_size, hb_fill_levels = replicate 128 LevelEmpty\<rparr>
         else heap_page_header_write (word_of_nat payload_size)) in
     if length data \<ge> 2 ^ 16 then Inl (ValueTooLarge ''heap continuation offset'') else
    (case append_allocations ''heap continuation offset'' data [word_of_nat (length data)] allocations of Inl e \<Rightarrow> Inl e
     | Inr (data, offsets) \<Rightarrow>
     let data = resize payload_size data in
     if length allocations \<ge> 2 ^ 16 then Inl (ValueTooLarge ''heap allocation count'')
     else Inr (data @ write_u16 (word_of_nat (length allocations)) @ write_u16 0 @
       concat (map write_u16 offsets))))))))"

section \<open>Placement\<close>

text \<open>
  The pages behind the first one are lists of allocations. Allocations are appended to the last
  page while it fits, with room for one more entry of its map.
\<close>

definition push_new_page :: "bytes list list \<Rightarrow> writer_error + heap_id \<times> bytes list list" where
  "push_new_page pages =
    (if length pages \<ge> 2 ^ 16 then Inl (ValueTooLarge ''heap page index'')
     else case pages of [] \<Rightarrow> Inl (InvalidStructure (Literal ''heap allocation page is missing''))
     | _ \<Rightarrow>
    (case heap_continuation_page_allocations (word_of_nat (length pages)) (last pages) of Inl e \<Rightarrow> Inl e
     | Inr _ \<Rightarrow> (case of_ltp (heap_id_new 1 (word_of_nat (length pages))) of Inl e \<Rightarrow> Inl e
       | Inr hid \<Rightarrow> Inr (hid, pages))))"

definition push_heap_allocation :: "bytes list list \<Rightarrow> bytes \<Rightarrow> writer_error + heap_id \<times> bytes list list" where
  "push_heap_allocation pages allocation =
    (if allocation = [] \<or> length allocation > MAX_HEAP_ALLOCATION then Inl (ValueTooLarge ''heap allocation'')
     else if length pages \<ge> 2 ^ 16 then Inl (ValueTooLarge ''heap page index'')
     else if pages = [] then push_new_page [[allocation]]
     else let page_index = word_of_nat (length pages); current = last pages @ [allocation] in
       (case heap_continuation_page_allocations page_index current of
          Inl e \<Rightarrow> if e = ValueTooLarge ''heap continuation page'' then push_new_page (pages @ [[allocation]]) else Inl e
        | Inr page \<Rightarrow>
          if min (length page + 3) usize_max \<le> MAX_DATA_BLOCK_PAYLOAD
          then (if length current \<ge> 2 ^ 16 then Inl (ValueTooLarge ''heap allocation count'')
            else case of_ltp (heap_id_new (word_of_nat (length current)) page_index) of Inl e \<Rightarrow> Inl e
            | Inr hid \<Rightarrow> Inr (hid, butlast pages @ [current]))
          else push_new_page (pages @ [[allocation]])))"

section \<open>Filling a page\<close>

text \<open>The least number of padding allocations, with the offset of the map and the bytes to pad.\<close>

function padding_search :: "nat \<Rightarrow> nat \<Rightarrow> nat \<Rightarrow> writer_error + nat \<times> nat \<times> nat" where
  "padding_search map_size allocation_end padding_allocations =
    (if padding_allocations * 2 > usize_max \<or> map_size + padding_allocations * 2 > usize_max
     then Inl (ValueTooLarge ''heap page map'')
     else let expanded_map_size = map_size + padding_allocations * 2 in
     if MAX_DATA_BLOCK_PAYLOAD < expanded_map_size then Inl (ValueTooLarge ''heap page map'')
     else let filled_map_offset = MAX_DATA_BLOCK_PAYLOAD - expanded_map_size in
     if filled_map_offset < allocation_end
     then Inl (InvalidStructure (Literal ''heap page allocations overlap the filled map''))
     else let padding_size = filled_map_offset - allocation_end in
     if padding_allocations * MAX_HEAP_ALLOCATION > usize_max then Inl (ValueTooLarge ''heap padding allocations'')
     else if padding_size < padding_allocations
     then Inl (InvalidStructure (Literal ''heap page has no room for non-empty padding allocations''))
     else if padding_size \<le> padding_allocations * MAX_HEAP_ALLOCATION
     then Inr (padding_allocations, filled_map_offset, padding_size)
     else if padding_allocations + 1 > usize_max then Inl (ValueTooLarge ''heap padding allocations'')
     else padding_search map_size allocation_end (padding_allocations + 1))"
  by pat_completeness auto
termination
  by (relation "measure (\<lambda>(_, _, n). MAX_DATA_BLOCK_PAYLOAD - n)") auto

declare padding_search.simps [simp del]

text \<open>The offsets of the padding allocations; \<open>k\<close> of them remain.\<close>

fun padding_loop :: "nat \<Rightarrow> nat \<Rightarrow> nat \<Rightarrow> writer_error + u16 list \<times> nat \<times> nat" where
  "padding_loop 0 padding_end padding_remaining = Inr ([], padding_end, padding_remaining)"
| "padding_loop (Suc k) padding_end padding_remaining =
    (let allocation_size = min (padding_remaining - k) MAX_HEAP_ALLOCATION in
     if padding_end + allocation_size > usize_max then Inl (ValueTooLarge ''heap padding allocation'')
     else let padding_end = padding_end + allocation_size in
     if padding_end \<ge> 2 ^ 16 then Inl (ValueTooLarge ''heap padding endpoint'')
     else case padding_loop k padding_end (padding_remaining - allocation_size) of Inl e \<Rightarrow> Inl e
     | Inr (offsets, r) \<Rightarrow> Inr (word_of_nat padding_end # offsets, r))"

definition page_u16 :: "nat \<Rightarrow> bytes \<Rightarrow> u16" where
  "page_u16 n bs = from_le (take 2 (drop n bs))"

definition fill_heap_page :: "bytes \<Rightarrow> writer_error + bytes" where
  "fill_heap_page page =
    (if length page = MAX_DATA_BLOCK_PAYLOAD then Inr page
     else if length page > MAX_DATA_BLOCK_PAYLOAD then Inl (ValueTooLarge ''heap page'')
     else if length page < 2 then Inl (InvalidStructure (Literal ''heap page has no map offset''))
     else let page_map_offset = unat (page_u16 0 page) in
     if page_map_offset > length page then Inl (InvalidStructure (Literal ''heap map exceeds its page''))
     else let page_map = drop page_map_offset page in
     if length page_map < 2 then Inl (InvalidStructure (Literal ''heap page map has no count''))
     else let allocation_count = page_u16 0 page_map in
     case heap_page_map_size (unat allocation_count) of None \<Rightarrow> Inl (ValueTooLarge ''heap page map'')
     | Some expected_map_size \<Rightarrow>
     if length page_map \<noteq> expected_map_size
     then Inl (InvalidStructure (Literal ''heap page map size does not match its allocation count''))
     else let allocation_end = unat (page_u16 (length page_map - 2) page_map) in
     (case padding_search (length page_map) allocation_end 1 of Inl e \<Rightarrow> Inl e
      | Inr (padding_allocations, filled_map_offset, padding_size) \<Rightarrow>
     if padding_allocations \<ge> 2 ^ 16 then Inl (ValueTooLarge ''heap allocation count'') else
     (case checked_add_w allocation_count (word_of_nat padding_allocations) of
        None \<Rightarrow> Inl (ValueTooLarge ''heap allocation count'')
      | Some allocation_count \<Rightarrow>
     (case padding_loop padding_allocations allocation_end padding_size of Inl e \<Rightarrow> Inl e
      | Inr (offsets, padding_end, padding_remaining) \<Rightarrow>
     if padding_remaining \<noteq> 0 \<or> padding_end \<noteq> filled_map_offset
     then Inl (InvalidStructure (Literal ''heap padding does not reach the page map''))
     else if filled_map_offset \<ge> 2 ^ 16 then Inl (ValueTooLarge ''heap page map offset'')
     else let page_map = write_u16 allocation_count @ drop 2 page_map @ concat (map write_u16 offsets);
              page = resize filled_map_offset (take page_map_offset page) @ page_map in
       Inr (write_u16 (word_of_nat filled_map_offset) @ drop 2 page)))))"

section \<open>Fill levels\<close>

definition heap_fill_level_of :: "nat \<Rightarrow> writer_error + heap_fill_level" where
  "heap_fill_level_of page_size =
    (if MAX_DATA_BLOCK_PAYLOAD < page_size then Inl (ValueTooLarge ''heap page'')
     else let free = MAX_DATA_BLOCK_PAYLOAD - page_size in
     Inr (if free \<ge> 3584 then LevelEmpty else if free \<ge> 2560 then Level1 else if free \<ge> 2048 then Level2
       else if free \<ge> 1792 then Level3 else if free \<ge> 1536 then Level4 else if free \<ge> 1280 then Level5
       else if free \<ge> 1024 then Level6 else if free \<ge> 768 then Level7 else if free \<ge> 512 then Level8
       else if free \<ge> 256 then Level9 else if free \<ge> 128 then Level10 else if free \<ge> 64 then Level11
       else if free \<ge> 32 then Level12 else if free \<ge> 16 then Level13 else if free \<ge> 8 then Level14
       else Level15))"

text \<open>A header is written over the first bytes of a page; a cursor on a slice cannot write past it.\<close>

definition overwrite :: "bytes \<Rightarrow> bytes \<Rightarrow> writer_error + bytes" where
  "overwrite bs page = (if length bs \<le> length page then Inr (bs @ drop (length bs) page) else Inl (WriterIo (Io WriteZero)))"

definition level_slots :: "nat \<Rightarrow> heap_fill_level list \<Rightarrow> heap_fill_level list" where
  "level_slots n levels = take n levels @ replicate (n - length levels) LevelEmpty"

fun update_bitmaps :: "heap_fill_level list \<Rightarrow> nat list \<Rightarrow> bytes list \<Rightarrow> writer_error + bytes list" where
  "update_bitmaps levels [] pages = Inr pages"
| "update_bitmaps levels (i # is) pages =
    (if i \<ge> length pages then Inl (InvalidStructure (Literal ''heap bitmap page is missing''))
     else case of_io (heap_bitmap_header_read (pages ! i)) of Inl e \<Rightarrow> Inl e
     | Inr (h, _) \<Rightarrow>
       (case overwrite (heap_bitmap_header_write \<lparr>hb_page_map_offset = hb_page_map_offset h,
           hb_fill_levels = level_slots 128 (drop i levels)\<rparr>) (pages ! i) of Inl e \<Rightarrow> Inl e
        | Inr page \<Rightarrow> update_bitmaps levels is (pages[i := page])))"

definition update_heap_fill_levels :: "bytes list \<Rightarrow> writer_error + bytes list" where
  "update_heap_fill_levels pages =
    (case try_map (\<lambda>page. heap_fill_level_of (length page)) pages of Inl e \<Rightarrow> Inl e
     | Inr levels \<Rightarrow>
     (case pages of [] \<Rightarrow> Inl (InvalidStructure (Literal ''heap has no root page''))
      | root # rest \<Rightarrow>
     (case of_io (heap_node_header_read root) of Inl e \<Rightarrow> Inl e
      | Inr (h, _) \<Rightarrow>
     (case overwrite (heap_node_header_write (h\<lparr>hn_fill_levels := level_slots 8 levels\<rparr>)) root of Inl e \<Rightarrow> Inl e
      | Inr root \<Rightarrow> update_bitmaps levels (map (\<lambda>k. 8 + 128 * k) [0..<div_ceil (length pages - 8) 128]) (root # rest)))))"

section \<open>The whole heap\<close>

text \<open>
  The end of the construction of a heap of several pages, the same for property contexts and for
  tables: the first page, the pages that continue it, the filling of all but the last page and the
  fill levels.
\<close>

definition continuation_page :: "nat \<times> bytes list \<Rightarrow> writer_error + bytes" where
  "continuation_page p = (case p of (index, allocations) \<Rightarrow>
    if index + 1 \<ge> 2 ^ 16 then Inl (ValueTooLarge ''heap page index'')
    else heap_continuation_page_allocations (word_of_nat (index + 1)) allocations)"

definition finish_heap :: "heap_node_type \<Rightarrow> bytes list \<Rightarrow> bytes list list \<Rightarrow> writer_error + bytes list" where
  "finish_heap kind root_allocations page_allocations =
    (case heap_page kind root_allocations of Inl e \<Rightarrow> Inl e | Inr root \<Rightarrow>
    (case try_map continuation_page (zip [0..<length page_allocations] page_allocations) of Inl e \<Rightarrow> Inl e | Inr rest \<Rightarrow>
     let pages = root # rest; non_final = length pages - 1 in
    (case try_map fill_heap_page (take non_final pages) of Inl e \<Rightarrow> Inl e
     | Inr filled \<Rightarrow> update_heap_fill_levels (filled @ drop non_final pages))))"

section \<open>The layout of a page\<close>

fun end_offsets :: "nat \<Rightarrow> bytes list \<Rightarrow> nat list" where
  "end_offsets n [] = []"
| "end_offsets n (a # as) = (n + length a) # end_offsets (n + length a) as"

definition offsets_of :: "nat \<Rightarrow> bytes list \<Rightarrow> u16 list" where
  "offsets_of n as = map word_of_nat (n # end_offsets n as)"

text \<open>The header of a page, by its index in the heap.\<close>

record page_header =
  ph_index :: u16
  ph_kind :: heap_node_type
  ph_levels :: "heap_fill_level list"

definition header_bytes :: "page_header \<Rightarrow> u16 \<Rightarrow> bytes" where
  "header_bytes h off =
    (if ph_index h = 0 then heap_node_header_write \<lparr>hn_page_map_offset = off, hn_client_signature = ph_kind h,
       hn_user_root = 0x20, hn_fill_levels = ph_levels h\<rparr>
     else if ph_index h mod 128 = 8 then heap_bitmap_header_write \<lparr>hb_page_map_offset = off, hb_fill_levels = ph_levels h\<rparr>
     else heap_page_header_write off)"

definition header_length :: "page_header \<Rightarrow> nat" where
  "header_length h = (if ph_index h = 0 then 12 else if ph_index h mod 128 = 8 then 66 else 2)"

definition header_ok :: "page_header \<Rightarrow> bool" where
  "header_ok h \<longleftrightarrow> (ph_index h = 0 \<longrightarrow> length (ph_levels h) = 8) \<and>
    (ph_index h \<noteq> 0 \<and> ph_index h mod 128 = 8 \<longrightarrow> length (ph_levels h) = 128)"

definition page_of :: "page_header \<Rightarrow> bytes list \<Rightarrow> nat \<Rightarrow> bytes" where
  "page_of h as pad = header_bytes h (word_of_nat (header_length h + length (concat as) + pad)) @ concat as @ replicate pad 0 @
    page_map_bytes (offsets_of (header_length h) as)"

definition page_fits :: "page_header \<Rightarrow> bytes list \<Rightarrow> nat \<Rightarrow> bool" where
  "page_fits h as pad \<longleftrightarrow> header_ok h \<and> header_length h + length (concat as) + pad + 2 * length as + 6 \<le> 8176"

lemma length_header_bytes [simp]: "length (header_bytes h off) = header_length h"
  by (simp add: header_bytes_def header_length_def heap_bitmap_header_write_def heap_page_header_write_def length_concat comp_def sum_list_triv)

lemma header_bytes_offset: "header_bytes h off = write_u16 off @ drop 2 (header_bytes h off')"
  by (simp add: header_bytes_def heap_node_header_write_def heap_bitmap_header_write_def heap_page_header_write_def)

lemma header_read: "header_ok h \<Longrightarrow> heap_page_map_offset (ph_index h) (header_bytes h off @ rest) = Inr off"
  using heap_node_header_codec [of "\<lparr>hn_page_map_offset = off, hn_client_signature = ph_kind h, hn_user_root = 0x20, hn_fill_levels = ph_levels h\<rparr>" rest]
    heap_bitmap_header_codec [of "\<lparr>hb_page_map_offset = off, hb_fill_levels = ph_levels h\<rparr>" rest]
  by (auto simp: heap_page_map_offset_def header_bytes_def header_ok_def heap_header_ok_def heap_page_header_read_def
      heap_page_header_write_def and_exp_eq_0_iff_not_bit mask_eq_exp_minus_1)

lemma length_end_offsets [simp]: "length (end_offsets n as) = length as"
  by (induction as arbitrary: n) simp_all

lemma length_offsets_of [simp]: "length (offsets_of n as) = Suc (length as)"
  by (simp add: offsets_of_def)

lemma end_offsets_nth: "i < length as \<Longrightarrow> end_offsets n as ! i = n + length (concat (take (Suc i) as))"
proof (induction as arbitrary: n i)
  case (Cons a as)
  then show ?case by (cases i) (simp_all add: add.assoc)
qed simp

lemma end_offsets_append: "end_offsets n (as @ bs) = end_offsets n as @ end_offsets (n + length (concat as)) bs"
  by (induction as arbitrary: n) (simp_all add: add.assoc)

lemma length_concat_take: "length (concat (take i as)) \<le> length (concat as)"
  by (metis append_take_drop_id concat_append le_add1 length_append)

lemma unat_offsets_nth:
  assumes "n + length (concat as) < 2 ^ 16" "i \<le> length as"
  shows "unat (offsets_of n as ! i) = n + length (concat (take i as))"
proof -
  have "offsets_of n as ! i = word_of_nat (n + length (concat (take i as)))"
  proof (cases i)
    case (Suc j)
    then show ?thesis using assms(2) by (simp add: offsets_of_def end_offsets_nth)
  qed (simp add: offsets_of_def)
  then show ?thesis
    using assms(1) length_concat_take [of i as] by (simp add: unsigned_of_nat take_bit_nat_eq_self del: of_nat_add)
qed

lemma concat_take_mono: "i \<le> j \<Longrightarrow> length (concat (take i as)) \<le> length (concat (take j as))"
  by (metis length_concat_take min.absorb1 take_take)

lemma sorted_offsets_of:
  assumes "n + length (concat as) < 2 ^ 16"
  shows "sorted (offsets_of n as)"
  unfolding sorted_iff_nth_mono
  using unat_offsets_nth [OF assms] concat_take_mono [of _ _ as] by (simp add: word_le_nat_alt)

lemma page_map_zeros_offsets:
  "n + length (concat as) < 2 ^ 16 \<Longrightarrow> page_map_zeros (offsets_of n as) = length (filter (\<lambda>a. a = []) as)"
proof (induction as arbitrary: n)
  case (Cons a as)
  have "(word_of_nat n :: u16) = word_of_nat (n + length a) \<longleftrightarrow> a = []"
  proof -
    have "unat (word_of_nat n :: u16) = n" "unat (word_of_nat (n + length a) :: u16) = n + length a"
      using Cons.prems by (simp_all add: unsigned_of_nat take_bit_nat_eq_self del: of_nat_add)
    then show ?thesis by (metis add_cancel_right_right length_0_conv)
  qed
  then show ?case using Cons.IH [of "n + length a"] Cons.prems by (simp add: offsets_of_def add.assoc del: of_nat_add)
qed (simp add: offsets_of_def)

text \<open>The reader finds every allocation of a page.\<close>

lemma page_of_find:
  assumes fits: "page_fits h as pad" and i: "i < length as" "Suc i < 2 ^ 11" and hid: "heap_id_new (word_of_nat (Suc i)) (ph_index h) = Inr hid"
    and heap: "unat (ph_index h) < length heap" "heap ! unat (ph_index h) = page_of h as pad"
  shows "heap_find_entry heap hid = Inr (as ! i)"
proof -
  let ?n = "header_length h" and ?os = "offsets_of (header_length h) as"
  define off where "off = (word_of_nat (?n + length (concat as) + pad) :: u16)"
  have lt: "?n + length (concat as) < 2 ^ 16" using fits by (simp add: page_fits_def)
  have off: "unat off = ?n + length (concat as) + pad"
    using fits by (simp add: off_def page_fits_def unsigned_of_nat take_bit_nat_eq_self del: of_nat_add)
  have "heap_page_map_offset (ph_index h) (page_of h as pad) = Inr off"
    unfolding page_of_def off_def using fits by (intro header_read) (simp add: page_fits_def)
  moreover have "drop (unat off) (page_of h as pad) = page_map_bytes ?os @ []"
    by (simp add: page_of_def off)
  moreover have "length ?os \<le> 2 ^ 16" "Suc i < length ?os" using fits i by (simp_all add: page_fits_def)
  ultimately have "heap_find_entry heap hid =
    (if unat (?os ! Suc i) \<le> length (page_of h as pad)
     then Inr (take (unat (?os ! Suc i) - unat (?os ! i)) (drop (unat (?os ! i)) (page_of h as pad))) else Inl Panic)"
    by (intro heap_find_entry_mapped [OF hid i(2) heap _ _ sorted_offsets_of [OF lt]])
  moreover have "unat (?os ! Suc i) = ?n + length (concat (take (Suc i) as))" "unat (?os ! i) = ?n + length (concat (take i as))"
    using i by (simp_all add: unat_offsets_nth [OF lt])
  moreover have "concat as = concat (take i as) @ as ! i @ concat (drop (Suc i) as)"
    by (metis append_take_drop_id Cons_nth_drop_Suc concat.simps(2) concat_append i(1))
  moreover have "length (concat (take (Suc i) as)) = length (concat (take i as)) + length (as ! i)"
    using i by (simp add: take_Suc_conv_app_nth)
  ultimately show ?thesis by (simp add: page_of_def)
qed

section \<open>The pages have the layout\<close>

lemma checked_sum_Some: "acc + sum_list ns \<le> usize_max \<Longrightarrow> checked_sum acc ns = Some (acc + sum_list ns)"
  by (induction ns arbitrary: acc) (simp_all add: checked_add_usize_def add.assoc)

lemma append_allocations_eq:
  "length data + length (concat as) < 2 ^ 16 \<Longrightarrow> append_allocations name data os as =
    Inr (data @ concat as, os @ map word_of_nat (end_offsets (length data) as))"
  by (induction as arbitrary: data os) (simp_all add: Let_def add.assoc)

lemma align_2:
  assumes "n < 2 ^ 60"
  shows "unat (align_up (word_of_nat n) 2) = n + n mod 2"
proof -
  have u: "unat (word_of_nat n :: u64) = n" using assms by (simp add: unsigned_of_nat take_bit_nat_eq_self)
  have "unat (align_up (word_of_nat n) 2) = div_ceil n 2 * 2" using unat_align_up [of 2 "word_of_nat n"] u assms by simp
  also have "\<dots> = n + n mod 2" by (cases "n mod 2 = 0") (auto simp: div_ceil_def elim!: evenE oddE, presburger+)
  finally show ?thesis .
qed

lemma sum_list_lengths: "sum_list (map length as) = length (concat as)"
  by (simp add: length_concat)

lemma resize_eq: "length bs \<le> n \<Longrightarrow> resize n bs = bs @ replicate (n - length bs) 0"
  by (simp add: resize_def)

definition pad_of :: "nat \<Rightarrow> nat" where
  "pad_of n = n mod 2"

lemma map_size_eq: "n < 2 ^ 62 \<Longrightarrow> heap_page_map_size n = Some (2 * n + 6)"
  by (simp add: heap_page_map_size_def usize_max_def)

lemma heap_page_eq:
  assumes fits: "page_fits \<lparr>ph_index = 0, ph_kind = kind, ph_levels = replicate 8 LevelEmpty\<rparr> as (pad_of (length (concat as)))"
  shows "heap_page kind as = Inr (page_of \<lparr>ph_index = 0, ph_kind = kind, ph_levels = replicate 8 LevelEmpty\<rparr> as (pad_of (length (concat as))))"
proof -
  let ?l = "length (concat as)" and ?h = "\<lparr>ph_index = 0, ph_kind = kind, ph_levels = replicate 8 LevelEmpty\<rparr> :: page_header"
  have b: "12 + ?l + ?l mod 2 + 2 * length as + 6 \<le> 8176" using fits by (simp add: page_fits_def header_length_def pad_of_def)
  have "checked_sum 12 (map length as) = Some (12 + ?l)"
    using checked_sum_Some [of 12 "map length as"] b by (simp add: sum_list_lengths usize_max_def)
  moreover have "unat (align_up (word_of_nat (12 + ?l)) 2) = 12 + ?l + ?l mod 2"
    using align_2 [of "12 + ?l"] b by (simp add: mod_add_left_eq [of 12, symmetric] del: of_nat_add)
  moreover have "of_ltp (heap_id_new 1 0) = Inr 0x20" by (simp add: of_ltp_def heap_id_new_cases)
  moreover have "length (filter (\<lambda>a. a = []) as) < 2 ^ 16" by (rule le_less_trans [OF length_filter_le]) (use b in simp)
  moreover have "page_map_zeros (offsets_of 12 as) = length (filter (\<lambda>a. a = []) as)" using b by (intro page_map_zeros_offsets) simp
  ultimately show ?thesis
    using b map_size_eq [of "length as"]
    by (simp add: heap_page_def Let_def checked_add_usize_def usize_max_def append_allocations_eq resize_eq page_of_def
        header_length_def header_bytes_def page_map_bytes_def offsets_of_def pad_of_def del: of_nat_add)
qed

definition plain_header :: "u16 \<Rightarrow> page_header" where
  "plain_header k = \<lparr>ph_index = k, ph_kind = HeapTypeProperties, ph_levels = replicate 128 LevelEmpty\<rparr>"

text \<open>A page that continues a heap, of allocations that are not empty.\<close>

lemma header_length_even: "header_length h mod 2 = 0"
  by (simp add: header_length_def)

lemma continuation_page_eq:
  assumes k: "k \<noteq> 0" and ne: "[] \<notin> set as" and small: "length (concat as) < 2 ^ 59"
  shows "heap_continuation_page_allocations k as =
    (if page_fits (plain_header k) as (pad_of (length (concat as))) then Inr (page_of (plain_header k) as (pad_of (length (concat as))))
     else Inl (ValueTooLarge ''heap continuation page''))"
proof -
  let ?l = "length (concat as)" and ?n = "header_length (plain_header k)"
  have n: "(if k mod 128 = 8 then 66 else 2) = ?n" "?n \<le> 66" using k by (simp_all add: header_length_def plain_header_def)
  have fits: "page_fits (plain_header k) as (pad_of ?l) \<longleftrightarrow> ?n + ?l + ?l mod 2 + 2 * length as + 6 \<le> 8176"
    using k by (simp add: page_fits_def header_ok_def plain_header_def pad_of_def)
  have hdr: "(if k mod 128 = 8 then heap_bitmap_header_write \<lparr>hb_page_map_offset = off, hb_fill_levels = replicate 128 LevelEmpty\<rparr>
      else heap_page_header_write off) = header_bytes (plain_header k) off" for off
    using k by (simp add: header_bytes_def plain_header_def)
  have la: "length as \<le> ?l"
    using sum_list_mono [of as "\<lambda>_. 1" length] ne by (fastforce simp: sum_list_lengths [symmetric] sum_list_triv Suc_le_eq)
  have True: "?n + ?l < 2 ^ 60" using small n(2) by simp
  have "checked_sum ?n (map length as) = Some (?n + ?l)"
    using checked_sum_Some [of ?n "map length as"] True by (simp add: sum_list_lengths usize_max_def)
  moreover have "unat (align_up (word_of_nat (?n + ?l)) 2) = ?n + ?l + ?l mod 2"
    using align_2 [OF True] header_length_even [of "plain_header k"] by (simp add: mod_add_left_eq [of ?n, symmetric] del: of_nat_add)
  moreover have "filter (\<lambda>a. a = []) as = []" using ne by (simp add: filter_empty_conv) blast
  then have "?n + ?l < 2 ^ 16 \<Longrightarrow> page_map_zeros (offsets_of ?n as) = 0" by (subst page_map_zeros_offsets) simp_all
  ultimately show ?thesis
    using True la n(2) map_size_eq [of "length as"]
    by (auto simp: heap_continuation_page_allocations_def Let_def n(1) hdr checked_add_usize_def usize_max_def append_allocations_eq
        resize_eq page_of_def page_map_bytes_def offsets_of_def pad_of_def fits [unfolded pad_of_def] MAX_DATA_BLOCK_PAYLOAD_def simp del: of_nat_add)
qed

section \<open>Filling keeps the layout\<close>

lemma padding_search_eq:
  assumes "m + e + pad \<le> 8173" "pad \<le> 1"
  shows "\<exists>p. padding_search m e 1 = Inr (p, 8176 - (m + 2 * p), 8176 - (m + 2 * p) - e) \<and> 1 \<le> p \<and> p \<le> 3 \<and>
    m + 2 * p + e + p \<le> 8176 \<and> 8176 - (m + 2 * p) - e \<le> p * 3580 \<and> pad \<le> 8176 - (m + 2 * p) - e"
proof -
  note simps = Let_def MAX_DATA_BLOCK_PAYLOAD_def MAX_HEAP_ALLOCATION_def usize_max_def
  consider "8174 - m - e \<le> 3580" | "3580 < 8174 - m - e" "8172 - m - e \<le> 7160" | "7160 < 8172 - m - e" by linarith
  then show ?thesis
  proof cases
    case 1
    then show ?thesis using assms by (intro exI [of _ 1]) (auto simp: padding_search.simps [of m e "Suc 0"] simps)
  next
    case 2
    then have "padding_search m e 1 = padding_search m e 2"
      using assms by (auto simp: padding_search.simps [of m e "Suc 0"] simps numeral_2_eq_2 [symmetric])
    then show ?thesis using 2 assms by (intro exI [of _ 2]) (auto simp: padding_search.simps [of m e 2] simps)
  next
    case 3
    then have "padding_search m e 1 = padding_search m e 2" "padding_search m e 2 = padding_search m e 3"
      using assms by (auto simp: padding_search.simps [of m e "Suc 0"] padding_search.simps [of m e 2] simps numeral_2_eq_2 [symmetric])
    then show ?thesis using 3 assms by (intro exI [of _ 3]) (auto simp: padding_search.simps [of m e 3] simps)
  qed
qed

lemma padding_loop_eq:
  "k \<le> r \<Longrightarrow> r \<le> k * 3580 \<Longrightarrow> e + r < 2 ^ 16 \<Longrightarrow>
    \<exists>pads. padding_loop k e r = Inr (map word_of_nat (end_offsets e pads), e + r, 0) \<and>
      concat pads = replicate r 0 \<and> length pads = k \<and> [] \<notin> set pads"
proof (induction k arbitrary: e r)
  case (Suc k)
  define s where "s = min (r - k) 3580"
  have s: "1 \<le> s" "s \<le> r" "k \<le> r - s" "r - s \<le> k * 3580" using Suc.prems by (auto simp: s_def min_def)
  obtain pads where p: "padding_loop k (e + s) (r - s) = Inr (map word_of_nat (end_offsets (e + s) pads), e + s + (r - s), 0)"
    "concat pads = replicate (r - s) 0" "length pads = k" "[] \<notin> set pads"
    using Suc.IH [OF s(3,4), of "e + s"] Suc.prems(3) s(2) by auto
  have "padding_loop (Suc k) e r = Inr (map word_of_nat (end_offsets e (replicate s 0 # pads)), e + r, 0)"
    using p(1) Suc.prems(3) s(2) by (simp add: Let_def s_def [symmetric] MAX_HEAP_ALLOCATION_def usize_max_def)
  moreover have "concat (replicate s 0 # pads) = replicate r 0" using p(2) s(2) by (simp add: replicate_add [symmetric])
  ultimately show ?case using p(3,4) s(1) by (intro exI [of _ "replicate s 0 # pads"]) simp
qed simp

lemma page_u16_front: "page_u16 0 (write_u16 w @ rest) = w"
  by (simp add: page_u16_def)

lemma page_map_count:
  assumes "length as < 2 ^ 16"
  shows "page_u16 0 (page_map_bytes (offsets_of n as) @ rest) = word_of_nat (length as)"
  by (simp add: page_map_bytes_def page_u16_front)

lemma length_page_map_bytes [simp]: "length (page_map_bytes os) = 4 + 2 * length os"
  by (simp add: page_map_bytes_def length_concat comp_def sum_list_triv)

lemma page_map_last:
  "page_u16 (length (page_map_bytes (offsets_of n as)) - 2) (page_map_bytes (offsets_of n as)) = word_of_nat (n + length (concat as))"
proof -
  have last: "last (n # end_offsets n as) = n + length (concat as)"
    by (induction as arbitrary: n) (auto simp: add.assoc)
  obtain xs where xs: "offsets_of n as = xs @ [word_of_nat (n + length (concat as))]"
    using append_butlast_last_id [of "n # end_offsets n as"] last unfolding offsets_of_def
    by (metis list.distinct(1) list.simps(8,9) map_append)
  have "page_map_bytes (offsets_of n as) = (write_u16 (word_of_nat (length (offsets_of n as) - 1)) @
      write_u16 (word_of_nat (page_map_zeros (offsets_of n as))) @ concat (map (to_le 2) xs)) @ write_u16 (word_of_nat (n + length (concat as)))"
    unfolding page_map_bytes_def xs by simp
  then show ?thesis by (simp add: page_u16_def length_concat comp_def sum_list_triv)
qed

lemma page_map_extended:
  assumes "n + length (concat as) + length (concat pads) < 2 ^ 16" "[] \<notin> set pads"
  shows "page_map_bytes (offsets_of n (as @ pads)) = write_u16 (word_of_nat (length as + length pads)) @
    drop 2 (page_map_bytes (offsets_of n as)) @ concat (map write_u16 (map word_of_nat (end_offsets (n + length (concat as)) pads)))"
proof -
  have "filter (\<lambda>a. a = []) pads = []" using assms(2) by (simp add: filter_empty_conv) blast
  then have "page_map_zeros (offsets_of n (as @ pads)) = page_map_zeros (offsets_of n as)"
    using assms(1) by (simp add: page_map_zeros_offsets)
  then show ?thesis by (simp add: page_map_bytes_def offsets_of_def end_offsets_append)
qed

lemma fill_page_of:
  assumes fits: "page_fits h as pad" and pad: "pad \<le> 1" and room: "length (page_of h as pad) \<le> 8173"
  shows "\<exists>pads. fill_heap_page (page_of h as pad) = Inr (page_of h (as @ pads) 0) \<and> [] \<notin> set pads \<and>
    page_fits h (as @ pads) 0 \<and> length (page_of h (as @ pads) 0) = 8176"
proof -
  let ?n = "header_length h" and ?e = "header_length h + length (concat as)" and ?pm = "page_map_bytes (offsets_of (header_length h) as)"
  let ?off = "word_of_nat (header_length h + length (concat as) + pad) :: u16"
  define page where "page = page_of h as pad"
  define M where "M = 2 * length as + 6"
  have len: "length page = ?e + pad + M" "?e + pad + M \<le> 8173" "length as < 8173"
    using room by (simp_all add: page_def page_of_def M_def)
  have pm: "length ?pm = M" "\<not> M < 2" by (simp_all add: M_def)
  have off: "unat ?off = ?e + pad" using len(2) by (simp add: unsigned_of_nat take_bit_nat_eq_self del: of_nat_add)
  have page: "page = write_u16 ?off @ drop 2 (header_bytes h ?off) @ concat as @ replicate pad 0 @ ?pm"
    using header_bytes_offset [of h ?off ?off] by (simp add: page_def page_of_def)
  have n2: "2 \<le> ?n" by (simp add: header_length_def)
  from padding_search_eq [of M ?e pad] pad len(2) obtain p where
    p: "padding_search M ?e 1 = Inr (p, 8176 - (M + 2 * p), 8176 - (M + 2 * p) - ?e)" "1 \<le> p" "p \<le> 3"
      "M + 2 * p + ?e + p \<le> 8176" "8176 - (M + 2 * p) - ?e \<le> p * 3580" "pad \<le> 8176 - (M + 2 * p) - ?e" by auto
  define f where "f = 8176 - (M + 2 * p)"
  define r where "r = f - ?e"
  have r: "p \<le> r" "r \<le> p * 3580" "?e + r = f" "pad \<le> r" "f < 2 ^ 16" using p(2-6) by (auto simp: f_def r_def)
  then obtain pads where pads: "padding_loop p ?e r = Inr (map word_of_nat (end_offsets ?e pads), f, 0)" "concat pads = replicate r 0"
    "length pads = p" "[] \<notin> set pads" using padding_loop_eq [OF r(1,2), of ?e] by auto
  have cnt: "checked_add_w (word_of_nat (length as) :: u16) (word_of_nat p) = Some (word_of_nat (length as + p))"
  proof -
    have "unat (word_of_nat (length as) :: u16) + unat (word_of_nat p :: u16) < 2 ^ LENGTH(16)"
      using len(3) p(3) by (simp add: unsigned_of_nat take_bit_nat_eq_self)
    from checked_add_w_SomeI [OF this] show ?thesis by simp
  qed
  have ext: "page_map_bytes (offsets_of ?n (as @ pads)) = write_u16 (word_of_nat (length as + p)) @ drop 2 ?pm @
      concat (map write_u16 (map word_of_nat (end_offsets ?e pads)))"
    using page_map_extended [of ?n as pads] pads r by simp
  have "fill_heap_page page = Inr (write_u16 (word_of_nat f) @ drop 2 (resize f (take (?e + pad) page) @ page_map_bytes (offsets_of ?n (as @ pads))))"
  proof -
    have "page_u16 0 page = ?off" unfolding page by (rule page_u16_front)
    moreover have "drop (?e + pad) page = ?pm" by (simp add: page_def page_of_def)
    moreover have "page_u16 0 ?pm = word_of_nat (length as)" using page_map_count [of as ?n "[]"] len(3) by simp
    moreover have "unat (page_u16 (length ?pm - 2) ?pm) = ?e"
      unfolding page_map_last using len(2) by (simp add: unsigned_of_nat take_bit_nat_eq_self del: of_nat_add)
    moreover have "unat (word_of_nat (length as) :: u16) = length as" using len(3) by (simp add: unsigned_of_nat take_bit_nat_eq_self)
    moreover have "heap_page_map_size (length as) = Some M" unfolding M_def using len(3) by (intro map_size_eq) simp
    ultimately show ?thesis
      using off len pm p(1-3) [folded f_def] pads(1) cnt r(3,5)
      by (simp add: fill_heap_page_def Let_def MAX_DATA_BLOCK_PAYLOAD_def ext r_def [symmetric] del: of_nat_add length_page_map_bytes)
  qed
  moreover have "take (?e + pad) page = header_bytes h ?off @ concat as @ replicate pad 0" by (simp add: page_def page_of_def)
  then have "resize f (take (?e + pad) page) = header_bytes h ?off @ concat as @ replicate r 0"
    using r by (simp add: resize_eq replicate_add [symmetric])
  moreover have "word_of_nat f = (word_of_nat (header_length h + length (concat (as @ pads)) + 0) :: u16)" using pads(2) r(3) by (simp add: add.assoc)
  ultimately have "fill_heap_page page = Inr (page_of h (as @ pads) 0)"
    using header_bytes_offset [of h "word_of_nat f" ?off] pads(2) n2 by (simp add: page_of_def)
  moreover have "length (page_of h (as @ pads) 0) = 8176" using pads r p(4) by (simp add: page_of_def f_def M_def)
  moreover have "page_fits h (as @ pads) 0" using fits pads r p(4) by (simp add: page_fits_def f_def M_def)
  ultimately show ?thesis using pads(4) by (auto simp: page_def)
qed

section \<open>A heap of pages\<close>

definition page_laid :: "heap_node_type \<Rightarrow> nat \<Rightarrow> bytes \<Rightarrow> bytes list \<Rightarrow> bool" where
  "page_laid kind i page as \<longleftrightarrow> (\<exists>h pad. ph_index h = word_of_nat i \<and> (i = 0 \<longrightarrow> ph_kind h = kind) \<and> page_fits h as pad \<and> pad \<le> 1 \<and>
    page = page_of h as pad)"

definition heap_laid :: "heap_node_type \<Rightarrow> bytes list \<Rightarrow> bytes list list \<Rightarrow> bool" where
  "heap_laid kind pages ass \<longleftrightarrow> length pages = length ass \<and> length pages \<le> 2 ^ 16 \<and>
    (\<forall>i<length pages. page_laid kind i (pages ! i) (ass ! i))"

lemma heap_laid_find:
  assumes "heap_laid kind pages ass" "i < length ass" "j < length (ass ! i)" "Suc j < 2 ^ 11"
    and "heap_id_new (word_of_nat (Suc j)) (word_of_nat i) = Inr hid"
  shows "heap_find_entry pages hid = Inr (ass ! i ! j)"
proof -
  obtain h pad where h: "ph_index h = word_of_nat i" "page_fits h (ass ! i) pad" "pages ! i = page_of h (ass ! i) pad"
    and i: "i < length pages" "length pages \<le> 2 ^ 16"
    using assms(1,2) by (auto simp: heap_laid_def page_laid_def)
  have "unat (ph_index h) = i" using h(1) i by (simp add: unsigned_of_nat take_bit_nat_eq_self)
  then show ?thesis using page_of_find [OF h(2) assms(3,4), of hid pages] h i assms(5) by simp
qed

lemma index_mod_128: "i < 2 ^ 16 \<Longrightarrow> (word_of_nat i :: u16) mod 128 = 8 \<longleftrightarrow> i mod 128 = 8"
  by (simp add: word_unat_eq_iff unat_mod_distrib unsigned_of_nat take_bit_nat_eq_self)

lemma index_zero: "i < 2 ^ 16 \<Longrightarrow> (word_of_nat i :: u16) = 0 \<longleftrightarrow> i = 0"
  by (simp add: word_unat_eq_iff unsigned_of_nat take_bit_nat_eq_self)

lemma length_level_slots [simp]: "length (level_slots n levels) = n"
  by (simp add: level_slots_def)

lemma overwrite_header:
  assumes "header_length h' = header_length h"
  shows "overwrite (header_bytes h' (word_of_nat (header_length h + length (concat as) + pad))) (page_of h as pad) = Inr (page_of h' as pad)"
  using assms by (simp add: overwrite_def page_of_def)

lemma update_root:
  assumes "page_laid kind 0 page as"
  shows "\<exists>h rest page'. heap_node_header_read page = Inr (h, rest) \<and> hn_client_signature h = kind \<and> hn_user_root h = 0x20 \<and>
    overwrite (heap_node_header_write (h\<lparr>hn_fill_levels := level_slots 8 levels\<rparr>)) page = Inr page' \<and>
    page_laid kind 0 page' as \<and> length page' = length page"
proof -
  obtain h pad where h: "ph_index h = 0" "ph_kind h = kind" "page_fits h as pad" "page = page_of h as pad" "pad \<le> 1"
    using assms by (auto simp: page_laid_def)
  define off where "off = (word_of_nat (header_length h + length (concat as) + pad) :: u16)"
  define hn where "hn = \<lparr>hn_page_map_offset = off, hn_client_signature = kind, hn_user_root = 0x20, hn_fill_levels = ph_levels h\<rparr>"
  define h' where "h' = h\<lparr>ph_levels := level_slots 8 levels\<rparr>"
  have hl: "header_length h' = header_length h" by (simp add: header_length_def h'_def)
  have "heap_header_ok hn" using h(1,3) by (simp add: heap_header_ok_def hn_def page_fits_def header_ok_def mask_eq_exp_minus_1)
  moreover have "header_bytes h off = heap_node_header_write hn" "header_bytes h' off = heap_node_header_write (hn\<lparr>hn_fill_levels := level_slots 8 levels\<rparr>)"
    using h(1,2) by (simp_all add: header_bytes_def hn_def h'_def)
  ultimately have "heap_node_header_read page = Inr (hn, concat as @ replicate pad 0 @ page_map_bytes (offsets_of (header_length h) as))"
    "overwrite (heap_node_header_write (hn\<lparr>hn_fill_levels := level_slots 8 levels\<rparr>)) page = Inr (page_of h' as pad)"
    using heap_node_header_codec [of hn] overwrite_header [OF hl, of as pad, folded off_def] h(4)
    by (simp_all add: page_of_def off_def)
  moreover have "page_fits h' as pad" "ph_index h' = 0" "ph_kind h' = kind" "length (page_of h' as pad) = length page"
    using h by (simp_all add: page_fits_def header_ok_def h'_def header_length_def page_of_def)
  ultimately show ?thesis using h(5) by (auto simp: page_laid_def hn_def)
qed

lemma update_bitmap:
  assumes "page_laid kind i page as" "i < 2 ^ 16" "i \<noteq> 0" "i mod 128 = 8" "length levels = 128"
  shows "\<exists>h rest page'. heap_bitmap_header_read page = Inr (h, rest) \<and>
    overwrite (heap_bitmap_header_write \<lparr>hb_page_map_offset = hb_page_map_offset h, hb_fill_levels = levels\<rparr>) page = Inr page' \<and>
    page_laid kind i page' as \<and> length page' = length page"
proof -
  obtain h pad where h: "ph_index h = word_of_nat i" "page_fits h as pad" "page = page_of h as pad" "pad \<le> 1"
    using assms(1) by (auto simp: page_laid_def)
  have k: "ph_index h \<noteq> 0" "ph_index h mod 128 = 8" using h(1) assms(2-4) by (simp_all add: index_zero index_mod_128)
  define off where "off = (word_of_nat (header_length h + length (concat as) + pad) :: u16)"
  define h' where "h' = h\<lparr>ph_levels := levels\<rparr>"
  have hl: "header_length h' = header_length h" by (simp add: header_length_def h'_def)
  have "header_bytes h off = heap_bitmap_header_write \<lparr>hb_page_map_offset = off, hb_fill_levels = ph_levels h\<rparr>"
    "header_bytes h' off = heap_bitmap_header_write \<lparr>hb_page_map_offset = off, hb_fill_levels = levels\<rparr>"
    using k by (simp_all add: header_bytes_def h'_def)
  moreover have "length (ph_levels h) = 128" using h(2) k by (simp add: page_fits_def header_ok_def)
  ultimately have "heap_bitmap_header_read page = Inr (\<lparr>hb_page_map_offset = off, hb_fill_levels = ph_levels h\<rparr>,
      concat as @ replicate pad 0 @ page_map_bytes (offsets_of (header_length h) as))"
    "overwrite (heap_bitmap_header_write \<lparr>hb_page_map_offset = off, hb_fill_levels = levels\<rparr>) page = Inr (page_of h' as pad)"
    using heap_bitmap_header_codec [of "\<lparr>hb_page_map_offset = off, hb_fill_levels = ph_levels h\<rparr>"] overwrite_header [OF hl, of as pad, folded off_def] h(3)
    by (simp_all add: page_of_def off_def)
  moreover have "page_fits h' as pad" "ph_index h' = word_of_nat i" "length (page_of h' as pad) = length page"
    using h k assms(5) by (simp_all add: page_fits_def header_ok_def h'_def header_length_def page_of_def)
  ultimately show ?thesis using assms(3) h(4) by (auto simp: page_laid_def)
qed

lemma update_bitmaps_laid:
  assumes "heap_laid kind pages ass" "\<forall>i\<in>set is. i < length pages \<and> i \<noteq> 0 \<and> i mod 128 = 8"
  shows "\<exists>pages'. update_bitmaps levels is pages = Inr pages' \<and> heap_laid kind pages' ass \<and> map length pages' = map length pages"
  using assms
proof (induction "is" arbitrary: pages)
  case (Cons i "is")
  have i: "i < length pages" "i < 2 ^ 16" "i \<noteq> 0" "i mod 128 = 8" "page_laid kind i (pages ! i) (ass ! i)"
    using Cons.prems by (auto simp: heap_laid_def)
  obtain h rest page' where u: "heap_bitmap_header_read (pages ! i) = Inr (h, rest)"
    "overwrite (heap_bitmap_header_write \<lparr>hb_page_map_offset = hb_page_map_offset h, hb_fill_levels = level_slots 128 (drop i levels)\<rparr>) (pages ! i) = Inr page'"
    "page_laid kind i page' (ass ! i)" "length page' = length (pages ! i)"
    using update_bitmap [OF i(5,2-4), of "level_slots 128 (drop i levels)"] by auto
  have "heap_laid kind (pages[i := page']) ass" using Cons.prems(1) u(3) i(1) by (auto simp: heap_laid_def nth_list_update)
  moreover have "map length (pages[i := page']) = map length pages" using u(4) i(1) by (intro nth_equalityI) (auto simp: nth_list_update)
  ultimately show ?case using Cons.IH [of "pages[i := page']"] Cons.prems(2) u(1,2) i(1) by auto
qed simp

lemma update_fill_levels_laid:
  assumes "heap_laid kind pages ass" "pages \<noteq> []" "\<forall>page\<in>set pages. length page \<le> 8176"
  shows "\<exists>pages'. update_heap_fill_levels pages = Inr pages' \<and> heap_laid kind pages' ass \<and> map length pages' = map length pages"
proof -
  obtain root rest where p: "pages = root # rest" using assms(2) by (cases pages) auto
  have "\<exists>levels. try_map (\<lambda>page. heap_fill_level_of (length page)) ps = Inr levels" if "\<forall>page\<in>set ps. length page \<le> 8176" for ps :: "bytes list"
    using that by (induction ps) (auto simp: heap_fill_level_of_def MAX_DATA_BLOCK_PAYLOAD_def Let_def)
  from this [OF assms(3)] obtain levels where l: "try_map (\<lambda>page. heap_fill_level_of (length page)) pages = Inr levels" ..
  have "page_laid kind 0 root (ass ! 0)" using assms(1) p by (auto simp: heap_laid_def)
  from update_root [OF this, of levels] obtain h r root' where r: "heap_node_header_read root = Inr (h, r)"
    "overwrite (heap_node_header_write (h\<lparr>hn_fill_levels := level_slots 8 levels\<rparr>)) root = Inr root'"
    "page_laid kind 0 root' (ass ! 0)" "length root' = length root" by blast
  have laid: "heap_laid kind (root' # rest) ass" using assms(1) r(3) p by (auto simp: heap_laid_def nth_Cons')
  have "\<forall>i\<in>set (map (\<lambda>k. 8 + 128 * k) [0..<div_ceil (length pages - 8) 128]). i < length (root' # rest) \<and> i \<noteq> 0 \<and> i mod 128 = 8"
    using p by (auto simp: less_div_ceil)
  from update_bitmaps_laid [OF laid this, of levels] show ?thesis
    using l r(1,2,4) by (auto simp: update_heap_fill_levels_def p)
qed

section \<open>Placing allocations\<close>

text \<open>Pages that continue a heap and can still be filled.\<close>

definition pending_page :: "nat \<Rightarrow> bytes list \<Rightarrow> bool" where
  "pending_page i as \<longleftrightarrow> [] \<notin> set as \<and> length as < 2 ^ 11 \<and> page_fits (plain_header (word_of_nat (Suc i))) as (pad_of (length (concat as))) \<and>
    length (page_of (plain_header (word_of_nat (Suc i))) as (pad_of (length (concat as)))) \<le> 8173"

definition pending_ok :: "bytes list list \<Rightarrow> bool" where
  "pending_ok pages \<longleftrightarrow> length pages < 2 ^ 16 \<and> (\<forall>i<length pages. pending_page i (pages ! i))"

text \<open>The identifier of an allocation on one of these pages; the first page of the heap has index 0.\<close>

definition points_to :: "bytes list list \<Rightarrow> heap_id \<Rightarrow> bytes \<Rightarrow> bool" where
  "points_to pages hid a \<longleftrightarrow> (\<exists>i j. i < length pages \<and> j < length (pages ! i) \<and> pages ! i ! j = a \<and> Suc j < 2 ^ 11 \<and>
    heap_id_new (word_of_nat (Suc j)) (word_of_nat (Suc i)) = Inr hid)"

lemma header_length_plain: "header_length (plain_header k) \<le> 66"
  by (simp add: header_length_def plain_header_def)

lemma pending_single:
  assumes "Suc i < 2 ^ 16" "a \<noteq> []" "length a \<le> 3580"
  shows "pending_page i [a]"
proof -
  have "(word_of_nat (Suc i) :: u16) \<noteq> 0" using index_zero [OF assms(1)] by simp
  then have "header_ok (plain_header (word_of_nat (Suc i)))" by (simp add: header_ok_def plain_header_def)
  then show ?thesis
    using assms header_length_plain [of "word_of_nat (Suc i)"]
    by (auto simp: pending_page_def page_fits_def page_of_def pad_of_def)
qed

lemma length_page_of: "length (page_of h as pad) = header_length h + length (concat as) + pad + 2 * length as + 6"
  by (simp add: page_of_def)

lemma heap_id_ok: "j < 2 ^ 11 \<Longrightarrow> \<exists>hid. heap_id_new (word_of_nat j) k = Inr hid"
  by (simp add: heap_id_new_cases unsigned_of_nat take_bit_nat_eq_self)

lemma push_new_page_eq:
  assumes "pages \<noteq> []" "length pages < 2 ^ 16" "pending_page (length pages - 1) (last pages)"
  shows "\<exists>hid. push_new_page pages = Inr (hid, pages) \<and> heap_id_new 1 (word_of_nat (length pages)) = Inr hid"
proof -
  have k: "(word_of_nat (length pages) :: u16) \<noteq> 0" using index_zero [OF assms(2)] assms(1) by simp
  obtain hid where "heap_id_new 1 (word_of_nat (length pages) :: u16) = Inr hid" using heap_id_ok [of 1] by auto
  moreover have "length (concat (last pages)) < 2 ^ 59"
    using assms(1,3) by (simp add: pending_page_def page_fits_def)
  ultimately show ?thesis
    using continuation_page_eq [OF k, of "last pages"] assms by (cases pages) (auto simp: push_new_page_def of_ltp_def pending_page_def)
qed

lemma points_to_extend:
  assumes "points_to pages hid b" "length pages \<le> length pages'" "\<forall>i<length pages. \<exists>xs. pages' ! i = pages ! i @ xs"
  shows "points_to pages' hid b"
proof -
  obtain i j where "i < length pages" "j < length (pages ! i)" "pages ! i ! j = b" "Suc j < 2 ^ 11"
    "heap_id_new (word_of_nat (Suc j)) (word_of_nat (Suc i)) = Inr hid" using assms(1) by (auto simp: points_to_def)
  moreover obtain xs where "pages' ! i = pages ! i @ xs" using assms(3) calculation(1) by blast
  ultimately show ?thesis unfolding points_to_def using assms(2) by (intro exI [of _ i] exI [of _ j]) (simp add: nth_append)
qed

text \<open>
  An allocation goes to the last page or to a new one, unless the last page has no identifier
  left; earlier allocations keep their identifiers.
\<close>

lemma push_heap_allocation_ok:
  assumes ok: "pending_ok pages" "Suc (length pages) < 2 ^ 16" and a: "a \<noteq> []" "length a \<le> 3580"
    and room: "pages = [] \<or> length (last pages) < 2047"
  shows "\<exists>hid pages'. push_heap_allocation pages a = Inr (hid, pages') \<and> pending_ok pages' \<and> points_to pages' hid a \<and>
    length pages' \<le> Suc (length pages) \<and> (\<forall>hid b. points_to pages hid b \<longrightarrow> points_to pages' hid b)"
proof -
  have new: "\<exists>hid. push_new_page (pages @ [[a]]) = Inr (hid, pages @ [[a]]) \<and> pending_ok (pages @ [[a]]) \<and> points_to (pages @ [[a]]) hid a"
  proof -
    have p: "pending_page (length pages) [a]" using ok(2) a by (intro pending_single) simp_all
    from push_new_page_eq [of "pages @ [[a]]"] p ok(2) obtain hid where
      h: "push_new_page (pages @ [[a]]) = Inr (hid, pages @ [[a]])" "heap_id_new 1 (word_of_nat (Suc (length pages))) = Inr hid" by auto
    moreover have "pending_ok (pages @ [[a]])" using ok p by (auto simp: pending_ok_def nth_append less_Suc_eq)
    moreover have "points_to (pages @ [[a]]) hid a" unfolding points_to_def
      using h(2) by (intro exI [of _ "length pages"] exI [of _ 0]) (simp add: nth_append)
    ultimately show ?thesis by blast
  qed
  have keep: "points_to pages hid b \<Longrightarrow> points_to (pages @ [[a]]) hid b" for hid b
    by (rule points_to_extend) (auto simp: nth_append)
  show ?thesis
  proof (cases "pages = []")
    case True
    then show ?thesis using new a by (auto simp: push_heap_allocation_def MAX_HEAP_ALLOCATION_def points_to_def)
  next
    case False
    let ?k = "word_of_nat (length pages) :: u16" and ?cur = "last pages @ [a]"
    obtain ps l where pl: "pages = ps @ [l]" using False by (cases pages rule: rev_cases) auto
    have l: "pending_page (length ps) l" using ok(1) by (auto simp: pending_ok_def pl nth_append)
    have k: "?k \<noteq> 0" using index_zero [of "length pages"] ok(2) False by simp
    have ne: "[] \<notin> set ?cur" using l a(1) by (auto simp: pl pending_page_def)
    have small: "length (concat ?cur) < 2 ^ 59" using l a(2) by (simp add: pl pending_page_def page_fits_def)
    note page = continuation_page_eq [OF k ne small]
    let ?fits = "page_fits (plain_header ?k) ?cur (pad_of (length (concat ?cur)))"
    let ?page = "page_of (plain_header ?k) ?cur (pad_of (length (concat ?cur)))"
    show ?thesis
    proof (cases "?fits \<and> length ?page \<le> 8173")
      case True
      have len: "length ?cur < 2 ^ 11" using room False by simp
      obtain hid where hid: "heap_id_new (word_of_nat (length ?cur)) ?k = Inr hid" using heap_id_ok [OF len] by blast
      have "push_heap_allocation pages a = Inr (hid, butlast pages @ [?cur])"
        using False a ok(2) page True len hid
        by (simp add: push_heap_allocation_def MAX_HEAP_ALLOCATION_def MAX_DATA_BLOCK_PAYLOAD_def Let_def of_ltp_def usize_max_def min_def del: of_nat_Suc)
      moreover have "pending_page (length ps) (l @ [a])" using True ne len by (simp add: pl pending_page_def)
      then have "pending_ok (butlast pages @ [?cur])" using ok(1) by (auto simp: pending_ok_def pl nth_append less_Suc_eq)
      moreover have "points_to (butlast pages @ [?cur]) hid a" unfolding points_to_def
        using hid len by (intro exI [of _ "length ps"] exI [of _ "length l"]) (simp add: pl)
      moreover have "points_to pages hid b \<Longrightarrow> points_to (butlast pages @ [?cur]) hid b" for hid b
        by (rule points_to_extend) (auto simp: pl nth_append less_Suc_eq)
      ultimately show ?thesis by auto
    next
      case False2: False
      have "push_heap_allocation pages a = push_new_page (pages @ [[a]])"
        using False a ok(2) page False2
        by (auto simp: push_heap_allocation_def MAX_HEAP_ALLOCATION_def MAX_DATA_BLOCK_PAYLOAD_def Let_def usize_max_def min_def)
      then show ?thesis using new keep by auto
    qed
  qed
qed

section \<open>The finished heap\<close>

lemma try_map_nth:
  "\<forall>i<length xs. \<exists>y. f (xs ! i) = Inr y \<and> Q i y \<Longrightarrow> \<exists>ys. try_map f xs = Inr ys \<and> length ys = length xs \<and> (\<forall>i<length xs. Q i (ys ! i))"
proof (induction xs arbitrary: Q)
  case (Cons x xs)
  obtain y where y: "f x = Inr y" "Q 0 y" using Cons.prems by auto
  have "\<forall>i<length xs. \<exists>y. f (xs ! i) = Inr y \<and> Q (Suc i) y" using Cons.prems by (metis Suc_less_eq length_Cons nth_Cons_Suc)
  then obtain ys where "try_map f xs = Inr ys" "length ys = length xs" "\<forall>i<length xs. Q (Suc i) (ys ! i)" using Cons.IH [of "\<lambda>i. Q (Suc i)"] by blast
  then show ?case using y by (intro exI [of _ "y # ys"]) (auto simp: less_Suc_eq_0_disj)
qed simp

lemma page_laid_length: "page_laid kind i page as \<Longrightarrow> length page \<le> 8176"
  by (auto simp: page_laid_def page_fits_def length_page_of)

lemma fill_laid:
  assumes "page_laid kind i page as" "length page \<le> 8173"
  shows "\<exists>page'. fill_heap_page page = Inr page' \<and> length page' = 8176 \<and> (\<exists>pads. page_laid kind i page' (as @ pads))"
proof -
  obtain h pad where h: "ph_index h = word_of_nat i" "i = 0 \<longrightarrow> ph_kind h = kind" "page_fits h as pad" "page = page_of h as pad" "pad \<le> 1"
    using assms(1) by (auto simp: page_laid_def)
  from fill_page_of [OF h(3,5)] h(4) assms(2) obtain pads where "fill_heap_page page = Inr (page_of h (as @ pads) 0)"
    "page_fits h (as @ pads) 0" "length (page_of h (as @ pads) 0) = 8176" by auto
  then show ?thesis using h(1,2) unfolding page_laid_def by (intro exI [of _ "page_of h (as @ pads) 0"]) auto
qed

text \<open>The root page and the pages that continue it, before they are filled.\<close>

definition root_fits :: "heap_node_type \<Rightarrow> bytes list \<Rightarrow> bool" where
  "root_fits kind as \<longleftrightarrow> 12 + length (concat as) + pad_of (length (concat as)) + 2 * length as + 6 \<le> 8173"

lemma heap_page_laid:
  assumes "root_fits kind as"
  shows "\<exists>page. heap_page kind as = Inr page \<and> page_laid kind 0 page as \<and> length page \<le> 8173"
proof -
  define h where "h = \<lparr>ph_index = 0, ph_kind = kind, ph_levels = replicate 8 LevelEmpty\<rparr>"
  define pad where "pad = pad_of (length (concat as))"
  have fits: "page_fits h as pad" "length (page_of h as pad) \<le> 8173" "pad \<le> 1"
    using assms by (simp_all add: root_fits_def page_fits_def header_ok_def header_length_def length_page_of h_def pad_def) (simp add: pad_of_def)
  then have "heap_page kind as = Inr (page_of h as pad)" unfolding h_def pad_def by (intro heap_page_eq)
  moreover have "page_laid kind 0 (page_of h as pad) as" unfolding page_laid_def
    using fits by (intro exI [of _ h] exI [of _ pad]) (simp add: h_def)
  ultimately show ?thesis using fits(2) by blast
qed

lemma continuation_laid:
  assumes "pending_page i as" "Suc i < 2 ^ 16"
  shows "\<exists>page. continuation_page (i, as) = Inr page \<and> page_laid kind (Suc i) page as \<and> length page \<le> 8173"
proof -
  let ?h = "plain_header (word_of_nat (Suc i))"
  have k: "(word_of_nat (Suc i) :: u16) \<noteq> 0" using index_zero [OF assms(2)] by simp
  have small: "length (concat as) < 2 ^ 59" using assms(1) by (simp add: pending_page_def page_fits_def)
  have "continuation_page (i, as) = Inr (page_of ?h as (pad_of (length (concat as))))"
    using continuation_page_eq [OF k _ small] assms by (auto simp: continuation_page_def pending_page_def simp del: of_nat_Suc)
  moreover have "page_laid kind (Suc i) (page_of ?h as (pad_of (length (concat as)))) as"
    using assms(1) unfolding page_laid_def pending_page_def
    by (intro exI [of _ ?h] exI [of _ "pad_of (length (concat as))"]) (simp add: plain_header_def pad_of_def)
  ultimately show ?thesis using assms(1) by (auto simp: pending_page_def)
qed

definition heap_holds :: "heap_node_type \<Rightarrow> bytes list \<Rightarrow> bytes list \<Rightarrow> bytes list list \<Rightarrow> bool" where
  "heap_holds kind heap root pages \<longleftrightarrow> (\<exists>ass. heap_laid kind heap ass \<and> length ass = Suc (length pages) \<and>
    (\<exists>xs. ass ! 0 = root @ xs) \<and> (\<forall>i<length pages. \<exists>xs. ass ! Suc i = pages ! i @ xs))"

lemma heap_holds_find:
  assumes "heap_holds kind heap root pages"
  shows "j < length root \<Longrightarrow> Suc j < 2 ^ 11 \<Longrightarrow> heap_id_new (word_of_nat (Suc j)) 0 = Inr hid \<Longrightarrow> heap_find_entry heap hid = Inr (root ! j)"
    "points_to pages hid a \<Longrightarrow> heap_find_entry heap hid = Inr a"
proof -
  obtain ass xs where h: "heap_laid kind heap ass" "length ass = Suc (length pages)" "ass ! 0 = root @ xs"
    "\<forall>i<length pages. \<exists>xs. ass ! Suc i = pages ! i @ xs" using assms by (auto simp: heap_holds_def)
  show "j < length root \<Longrightarrow> Suc j < 2 ^ 11 \<Longrightarrow> heap_id_new (word_of_nat (Suc j)) 0 = Inr hid \<Longrightarrow> heap_find_entry heap hid = Inr (root ! j)"
    using heap_laid_find [OF h(1), of 0 j hid] h(2,3) by (simp add: nth_append)
  assume "points_to pages hid a"
  then obtain i j where ij: "i < length pages" "j < length (pages ! i)" "pages ! i ! j = a" "Suc j < 2 ^ 11"
    "heap_id_new (word_of_nat (Suc j)) (word_of_nat (Suc i)) = Inr hid" by (auto simp: points_to_def)
  moreover obtain ys where "ass ! Suc i = pages ! i @ ys" using h(4) ij(1) by blast
  ultimately show "heap_find_entry heap hid = Inr a"
    using heap_laid_find [OF h(1), of "Suc i" j hid] h(2) by (simp add: nth_append)
qed

lemma finish_heap_holds:
  assumes root: "root_fits kind root" and pages: "pending_ok pages"
  shows "\<exists>heap. finish_heap kind root pages = Inr heap \<and> heap_holds kind heap root pages \<and>
    (\<forall>page\<in>set (butlast heap). length page = 8176) \<and> (\<forall>page\<in>set heap. length page \<le> 8176) \<and> length heap = Suc (length pages)"
proof -
  let ?n = "length pages"
  obtain rp where rp: "heap_page kind root = Inr rp" "page_laid kind 0 rp root" "length rp \<le> 8173" using heap_page_laid [OF root] by blast
  have "\<forall>i<length (zip [0..<?n] pages). \<exists>page. continuation_page (zip [0..<?n] pages ! i) = Inr page \<and>
      (page_laid kind (Suc i) page (pages ! i) \<and> length page \<le> 8173)"
    using continuation_laid [of _ _ kind] pages by (auto simp: pending_ok_def)
  from try_map_nth [OF this] obtain rest where rest: "try_map continuation_page (zip [0..<?n] pages) = Inr rest" "length rest = ?n"
    "\<forall>i<?n. page_laid kind (Suc i) (rest ! i) (pages ! i) \<and> length (rest ! i) \<le> 8173" by auto
  let ?P = "rp # rest" and ?A = "root # pages"
  have P: "page_laid kind i (?P ! i) (?A ! i)" "length (?P ! i) \<le> 8173" if "i < Suc ?n" for i
    by (cases i; use rp rest that in auto)+
  have "\<forall>i<length (take ?n ?P). \<exists>page. fill_heap_page (take ?n ?P ! i) = Inr page \<and>
      (length page = 8176 \<and> (\<exists>xs. page_laid kind i page (?A ! i @ xs)))"
    using fill_laid [OF P] rest(2) by (simp add: min_def)
  from try_map_nth [OF this] obtain filled where filled: "try_map fill_heap_page (take ?n ?P) = Inr filled" "length filled = ?n"
    "\<forall>i<?n. length (filled ! i) = 8176 \<and> (\<exists>xs. page_laid kind i (filled ! i) (?A ! i @ xs))" using rest(2) by (auto simp: min_def)
  define F where "F = filled @ drop ?n ?P"
  have F: "length F = Suc ?n" using filled(2) rest(2) by (simp add: F_def)
  have "\<exists>xs. page_laid kind i (F ! i) (?A ! i @ xs)" if "i < Suc ?n" for i
  proof (cases "i < ?n")
    case True
    then show ?thesis using filled by (simp add: F_def nth_append)
  next
    case False
    then have i: "i = ?n" using that by simp
    then have "F ! i = ?P ! i" using filled(2) rest(2) by (simp add: F_def nth_append)
    then show ?thesis using P(1) [OF that] by (intro exI [of _ "[]"]) simp
  qed
  then obtain X where X: "\<forall>i<Suc ?n. page_laid kind i (F ! i) (?A ! i @ X i)" by metis
  define ass where "ass = map (\<lambda>i. ?A ! i @ X i) [0..<Suc ?n]"
  have laid: "heap_laid kind F ass" using X F pages by (auto simp: heap_laid_def ass_def pending_ok_def simp del: upt_Suc)
  have "\<forall>page\<in>set F. length page \<le> 8176" using X F page_laid_length by (metis in_set_conv_nth)
  moreover have "F \<noteq> []" using F by auto
  ultimately obtain heap where heap: "update_heap_fill_levels F = Inr heap" "heap_laid kind heap ass" "map length heap = map length F"
    using update_fill_levels_laid [OF laid] by blast
  have "finish_heap kind root pages = Inr heap" using rp(1) rest(1,2) filled(1) heap(1) by (simp add: finish_heap_def Let_def F_def)
  moreover have "length heap = Suc ?n" using F arg_cong [OF heap(3), of length] by simp
  moreover have "heap_holds kind heap root pages" unfolding heap_holds_def
    using heap(2) by (intro exI [of _ ass]) (auto simp: ass_def simp del: upt_Suc)
  moreover have "length (heap ! i) = length (F ! i)" if "i < Suc ?n" for i
    using that F calculation(2) heap(3) by (metis nth_map)
  then have "\<forall>page\<in>set (butlast heap). length page = 8176" "\<forall>page\<in>set heap. length page \<le> 8176"
    using filled(2,3) calculation(2) \<open>\<forall>page\<in>set F. length page \<le> 8176\<close> F
    by (auto simp: in_set_conv_nth nth_butlast F_def nth_append) 
  ultimately show ?thesis by blast
qed

section \<open>Properties\<close>

fun push_all :: "bytes list list \<Rightarrow> bytes list \<Rightarrow> writer_error + heap_id list \<times> bytes list list" where
  "push_all pages [] = Inr ([], pages)"
| "push_all pages (a # as) =
    (case push_heap_allocation pages a of Inl e \<Rightarrow> Inl e
     | Inr (hid, pages) \<Rightarrow> (case push_all pages as of Inl e \<Rightarrow> Inl e | Inr (hids, pages) \<Rightarrow> Inr (hid # hids, pages)))"

text \<open>A page of allocations of at least two bytes is full before its identifiers run out.\<close>

lemma pending_room:
  assumes "pending_page i as" "\<forall>a\<in>set as. 2 \<le> length a"
  shows "length as < 2047"
proof -
  have "2 * length as \<le> length (concat as)"
    using sum_list_mono [of as "\<lambda>_. 2" length] assms(2) by (auto simp: sum_list_lengths [symmetric] sum_list_triv mult.commute)
  then show ?thesis using assms(1) by (simp add: pending_page_def length_page_of)
qed

lemma push_heap_allocation_sizes:
  assumes "push_heap_allocation pages a = Inr (hid, pages')" "\<forall>p\<in>set pages. \<forall>b\<in>set p. 2 \<le> length b" "2 \<le> length a"
  shows "\<forall>p\<in>set pages'. \<forall>b\<in>set p. 2 \<le> length b"
proof -
  have "pages' = pages @ [[a]] \<or> (pages \<noteq> [] \<and> pages' = butlast pages @ [last pages @ [a]])"
    using assms(1) by (auto simp: push_heap_allocation_def push_new_page_def Let_def split: if_splits sum.splits list.splits)
  then show ?thesis using assms(2,3) in_set_butlastD last_in_set by fastforce
qed

lemma push_all_ok:
  assumes "pending_ok pages" "\<forall>p\<in>set pages. \<forall>b\<in>set p. 2 \<le> length b" "\<forall>a\<in>set as. 2 \<le> length a \<and> length a \<le> 3580"
    "length pages + length as < 2 ^ 16"
  shows "\<exists>hids pages'. push_all pages as = Inr (hids, pages') \<and> pending_ok pages' \<and> list_all2 (points_to pages') hids as \<and>
    (\<forall>hid b. points_to pages hid b \<longrightarrow> points_to pages' hid b)"
  using assms
proof (induction as arbitrary: pages)
  case (Cons a as)
  have room: "pages = [] \<or> length (last pages) < 2047"
  proof (cases "pages = []")
    case False
    then have "pending_page (length pages - 1) (last pages)" "\<forall>b\<in>set (last pages). 2 \<le> length b"
      using Cons.prems(1,2) by (auto simp: pending_ok_def last_conv_nth)
    then show ?thesis using pending_room by blast
  qed simp
  have "a \<noteq> []" "length a \<le> 3580" "Suc (length pages) < 2 ^ 16" "2 \<le> length a" using Cons.prems(3,4) by auto
  from push_heap_allocation_ok [OF Cons.prems(1) this(3,1,2) room] obtain hid pages1 where
    p: "push_heap_allocation pages a = Inr (hid, pages1)" "pending_ok pages1" "points_to pages1 hid a" "length pages1 \<le> Suc (length pages)"
      "\<forall>hid b. points_to pages hid b \<longrightarrow> points_to pages1 hid b" by blast
  have "\<forall>p\<in>set pages1. \<forall>b\<in>set p. 2 \<le> length b"
    by (rule push_heap_allocation_sizes [OF p(1) Cons.prems(2)]) (use Cons.prems(3) in simp)
  moreover have "length pages1 + length as < 2 ^ 16" using p(4) Cons.prems(4) by simp
  ultimately obtain hids pages' where "push_all pages1 as = Inr (hids, pages')" "pending_ok pages'" "list_all2 (points_to pages') hids as"
      "\<forall>hid b. points_to pages1 hid b \<longrightarrow> points_to pages' hid b"
    using Cons.IH [OF p(2)] Cons.prems(3) by auto
  then show ?case using p by auto
qed simp

text \<open>
  C11. A heap from its allocations to the reader: allocations of two bytes up to the largest size
  are all placed; the heap is finished with every page but the last filled to the size of a
  data block, and in it the reader finds every allocation under the identifier it was
  given, as well as the allocations of the first page.
\<close>

theorem heap_written_read:
  assumes "\<forall>a\<in>set as. 2 \<le> length a \<and> length a \<le> MAX_HEAP_ALLOCATION" "length as < 2 ^ 16"
    and "root_fits kind root" "length root < 2 ^ 11 - 1"
  shows "\<exists>hids pages heap. push_all [] as = Inr (hids, pages) \<and> finish_heap kind root pages = Inr heap \<and>
    (\<forall>page\<in>set (butlast heap). length page = MAX_DATA_BLOCK_PAYLOAD) \<and> (\<forall>page\<in>set heap. length page \<le> MAX_DATA_BLOCK_PAYLOAD) \<and>
    list_all2 (\<lambda>hid a. heap_find_entry heap hid = Inr a) hids as \<and>
    (\<forall>j<length root. \<exists>hid. heap_id_new (word_of_nat (Suc j)) 0 = Inr hid \<and> heap_find_entry heap hid = Inr (root ! j))"
proof -
  have "pending_ok []" by (simp add: pending_ok_def)
  from push_all_ok [OF this, of as] assms(1,2) obtain hids pages where
    p: "push_all [] as = Inr (hids, pages)" "pending_ok pages" "list_all2 (points_to pages) hids as" by (auto simp: MAX_HEAP_ALLOCATION_def)
  from finish_heap_holds [OF assms(3) p(2)] obtain heap where
    h: "finish_heap kind root pages = Inr heap" "heap_holds kind heap root pages"
      "\<forall>page\<in>set (butlast heap). length page = 8176" "\<forall>page\<in>set heap. length page \<le> 8176" by blast
  have "list_all2 (\<lambda>hid a. heap_find_entry heap hid = Inr a) hids as"
    using p(3) by (rule list_all2_mono) (rule heap_holds_find(2) [OF h(2)])
  moreover have "\<exists>hid. heap_id_new (word_of_nat (Suc j)) 0 = Inr hid \<and> heap_find_entry heap hid = Inr (root ! j)" if j: "j < length root" for j
  proof -
    have "Suc j < 2 ^ 11" using j assms(4) by simp
    moreover obtain hid where "heap_id_new (word_of_nat (Suc j)) 0 = Inr hid" using heap_id_ok [OF calculation] by blast
    ultimately show ?thesis using heap_holds_find(1) [OF h(2) j] by blast
  qed
  ultimately show ?thesis using p(1) h(1,3,4) by (auto simp: MAX_DATA_BLOCK_PAYLOAD_def)
qed

theorem heap_written_read_witness:
  "\<exists>hids pages heap. push_all [] [[1, 2], [3, 4, 5]] = Inr (hids, pages) \<and> finish_heap HeapTypeProperties [[9]] pages = Inr heap \<and>
    list_all2 (\<lambda>hid a. heap_find_entry heap hid = Inr a) hids [[1, 2], [3, 4, 5]] \<and> heap_find_entry heap 0x20 = Inr [9]"
proof -
  have "\<forall>a\<in>set [[1, 2], [3, 4, 5 :: u8]]. 2 \<le> length a \<and> length a \<le> MAX_HEAP_ALLOCATION" by (simp add: MAX_HEAP_ALLOCATION_def)
  moreover have "root_fits HeapTypeProperties [[9]]" by (simp add: root_fits_def pad_of_def)
  ultimately show ?thesis
    using heap_written_read [of "[[1, 2], [3, 4, 5]]" HeapTypeProperties "[[9]]"] by (auto simp: heap_id_new_cases)
qed

text \<open>
  C40. A page can hold more allocations than a heap identifier can count: when the last page has
  2047 allocations and room for another one, placing it fails, although it would fit a new page.
\<close>

theorem push_heap_allocation_full:
  assumes "length pages < 2 ^ 16" "pages \<noteq> []" "length (last pages) = 2047" "[] \<notin> set (last pages)" "a \<noteq> []"
    and "length (concat (last pages)) + length a \<le> 3900" "length a \<le> MAX_HEAP_ALLOCATION"
  shows "push_heap_allocation pages a = Inl (InvalidStructure (LtpText (InvalidHeapIndex 2048)))"
proof -
  let ?k = "word_of_nat (length pages) :: u16" and ?cur = "last pages @ [a]"
  have k: "?k \<noteq> 0" using index_zero [OF assms(1)] assms(2) by simp
  have ne: "[] \<notin> set ?cur" using assms(4,5) by auto
  have small: "length (concat ?cur) < 2 ^ 59" using assms(6) by simp
  have "header_ok (plain_header ?k)" using k by (simp add: header_ok_def plain_header_def)
  then have fits: "page_fits (plain_header ?k) ?cur (pad_of (length (concat ?cur)))"
    "length (page_of (plain_header ?k) ?cur (pad_of (length (concat ?cur)))) \<le> 8173"
    using assms(3,6) header_length_plain [of ?k] mod_less_divisor [of 2 "length (concat ?cur)"]
    by (auto simp: page_fits_def length_page_of pad_of_def)
  have "heap_id_new (word_of_nat (length ?cur)) ?k = Inl (InvalidHeapIndex 2048)" using assms(3) by (simp add: heap_id_new_cases)
  then show ?thesis
    using assms continuation_page_eq [OF k ne small] fits
    by (simp add: push_heap_allocation_def Let_def of_ltp_def MAX_DATA_BLOCK_PAYLOAD_def usize_max_def min_def del: of_nat_Suc)
qed

theorem push_heap_allocation_full_witness:
  "push_heap_allocation [replicate 2047 [7]] [8] = Inl (InvalidStructure (LtpText (InvalidHeapIndex 2048)))"
proof -
  have "length (concat (replicate 2047 [7 :: u8])) = 2047" by (simp add: length_concat sum_list_replicate)
  then show ?thesis by (intro push_heap_allocation_full) (simp_all add: MAX_HEAP_ALLOCATION_def)
qed

end
