(* ===== verification/Writer_Prop.thy ===== *)
theory Writer_Prop
  imports Ltp_Prop Writer_Heap
begin

text \<open>
  Property contexts of \<open>writer.rs\<close>: the values a store is built from with their serialisation, the
  context on a single heap page, the context over several pages with its tree of records, and
  the move of large values into sub-nodes. The theorems say what the reader of \<open>Ltp_Prop\<close> finds
  in a context.
\<close>

section \<open>Values\<close>

text \<open>A Rust string is the list of its Unicode scalar values.\<close>

type_synonym rust_string = "u32 list"

definition utf16_units :: "u32 \<Rightarrow> u16 list" where
  "utf16_units c =
    (if c < 0x10000 then [ucast c]
     else let c = c - 0x10000 in [0xD800 OR ucast (drop_bit 10 c), 0xDC00 OR ucast (c AND 0x3FF)])"

definition encode_utf16 :: "rust_string \<Rightarrow> u16 list" where
  "encode_utf16 s = concat (map utf16_units s)"

datatype (plugins only: code size) writer_value =
    WInteger16 u16
  | WInteger32 u32
  | WInteger64 u64
  | WFloating32 u32
  | WFloating64 u64
  | WCurrency u64
  | WFloatingTime u64
  | WErrorCode u32
  | WBoolean bool
  | WTime u64
  | WGuid bytes
  | WUnicode rust_string
  | WBinary bytes
  | WMultipleInteger16 "u16 list"
  | WMultipleInteger32 "u32 list"
  | WMultipleInteger64 "u64 list"
  | WMultipleGuid "bytes list"
  | WMultipleUnicode "rust_string list"
  | WMultipleBinary "bytes list"
  | WObject node_id u32
  | WExternal property_type node_id

primrec writer_property_type :: "writer_value \<Rightarrow> property_type" where
  "writer_property_type (WInteger16 _) = PtypInteger16"
| "writer_property_type (WInteger32 _) = PtypInteger32"
| "writer_property_type (WInteger64 _) = PtypInteger64"
| "writer_property_type (WFloating32 _) = PtypFloating32"
| "writer_property_type (WFloating64 _) = PtypFloating64"
| "writer_property_type (WCurrency _) = PtypCurrency"
| "writer_property_type (WFloatingTime _) = PtypFloatingTime"
| "writer_property_type (WErrorCode _) = PtypErrorCode"
| "writer_property_type (WBoolean _) = PtypBoolean"
| "writer_property_type (WTime _) = PtypTime"
| "writer_property_type (WGuid _) = PtypGuid"
| "writer_property_type (WUnicode _) = PtypUnicode"
| "writer_property_type (WBinary _) = PtypBinary"
| "writer_property_type (WMultipleInteger16 _) = PtypMultipleInteger16"
| "writer_property_type (WMultipleInteger32 _) = PtypMultipleInteger32"
| "writer_property_type (WMultipleInteger64 _) = PtypMultipleInteger64"
| "writer_property_type (WMultipleGuid _) = PtypMultipleGuid"
| "writer_property_type (WMultipleUnicode _) = PtypMultipleUnicode"
| "writer_property_type (WMultipleBinary _) = PtypMultipleBinary"
| "writer_property_type (WObject _ _) = PtypObject"
| "writer_property_type (WExternal kind _) = kind"

definition inline_value :: "writer_value \<Rightarrow> u32 option" where
  "inline_value v =
    (case v of
       WInteger16 value \<Rightarrow> Some (ucast value)
     | WInteger32 value \<Rightarrow> Some value
     | WFloating32 value \<Rightarrow> Some value
     | WErrorCode value \<Rightarrow> Some value
     | WBoolean value \<Rightarrow> Some (if value then 1 else 0)
     | WExternal _ nid \<Rightarrow> Some nid
     | _ \<Rightarrow> None)"

definition unicode_bytes :: "rust_string \<Rightarrow> bytes" where
  "unicode_bytes s = concat (map write_u16 (encode_utf16 s))"

definition multiple_payload_len :: "string \<Rightarrow> nat list \<Rightarrow> writer_error + nat" where
  "multiple_payload_len name lens =
    (if length lens + 1 > usize_max \<or> (length lens + 1) * 4 > usize_max then Inl (ValueTooLarge name)
     else case checked_sum ((length lens + 1) * 4) lens of None \<Rightarrow> Inl (ValueTooLarge name) | Some n \<Rightarrow> Inr n)"

definition multiple_binary_payload_len :: "bytes list \<Rightarrow> writer_error + nat" where
  "multiple_binary_payload_len items = multiple_payload_len ''multi-valued binary property'' (map length items)"

definition multiple_unicode_payload_len :: "rust_string list \<Rightarrow> writer_error + nat" where
  "multiple_unicode_payload_len items =
    multiple_payload_len ''multi-valued Unicode property'' (map (\<lambda>s. 2 * length (encode_utf16 s)) items)"

fun offset_bytes :: "nat \<Rightarrow> nat list \<Rightarrow> io_error + bytes" where
  "offset_bytes offset [] = Inr []"
| "offset_bytes offset (len # lens) =
    (if offset \<ge> 2 ^ 32 then Inl (Io InvalidInput)
     else if offset + len > usize_max then Inl (Io InvalidInput)
     else case offset_bytes (offset + len) lens of Inl e \<Rightarrow> Inl e
     | Inr bs \<Rightarrow> Inr (write_u32 (word_of_nat offset) @ bs))"

definition multiple_unicode_bytes :: "rust_string list \<Rightarrow> io_error + bytes" where
  "multiple_unicode_bytes items =
    (case multiple_unicode_payload_len items of Inl e \<Rightarrow> Inl (Io InvalidInput) | Inr _ \<Rightarrow>
     if length items \<ge> 2 ^ 32 then Inl (Io InvalidInput)
     else case offset_bytes ((length items + 1) * 4) (map (\<lambda>s. 2 * length (encode_utf16 s)) items) of Inl e \<Rightarrow> Inl e
     | Inr offsets \<Rightarrow> Inr (write_u32 (word_of_nat (length items)) @ offsets @ concat (map unicode_bytes items)))"

definition multiple_binary_bytes :: "bytes list \<Rightarrow> io_error + bytes" where
  "multiple_binary_bytes items =
    (case multiple_binary_payload_len items of Inl e \<Rightarrow> Inl (Io InvalidInput) | Inr _ \<Rightarrow>
     if length items \<ge> 2 ^ 32 then Inl (Io InvalidInput)
     else case offset_bytes ((length items + 1) * 4) (map length items) of Inl e \<Rightarrow> Inl e
     | Inr offsets \<Rightarrow> Inr (write_u32 (word_of_nat (length items)) @ offsets @ concat items))"

definition variable_bytes :: "writer_value \<Rightarrow> io_error + bytes option" where
  "variable_bytes v =
    (case v of
       WInteger64 value \<Rightarrow> Inr (Some (write_u64 value))
     | WCurrency value \<Rightarrow> Inr (Some (write_u64 value))
     | WTime value \<Rightarrow> Inr (Some (write_u64 value))
     | WFloating64 value \<Rightarrow> Inr (Some (write_u64 value))
     | WFloatingTime value \<Rightarrow> Inr (Some (write_u64 value))
     | WGuid value \<Rightarrow> Inr (Some value)
     | WUnicode value \<Rightarrow> Inr (Some (unicode_bytes value))
     | WBinary value \<Rightarrow> Inr (Some value)
     | WMultipleInteger16 items \<Rightarrow> Inr (Some (concat (map write_u16 items)))
     | WMultipleInteger32 items \<Rightarrow> Inr (Some (concat (map write_u32 items)))
     | WMultipleInteger64 items \<Rightarrow> Inr (Some (concat (map write_u64 items)))
     | WMultipleGuid items \<Rightarrow>
         if length items * 16 > usize_max then Inl (Io InvalidInput) else Inr (Some (concat items))
     | WMultipleUnicode items \<Rightarrow> (case multiple_unicode_bytes items of Inl e \<Rightarrow> Inl e | Inr bs \<Rightarrow> Inr (Some bs))
     | WMultipleBinary items \<Rightarrow> (case multiple_binary_bytes items of Inl e \<Rightarrow> Inl e | Inr bs \<Rightarrow> Inr (Some bs))
     | WObject nid len \<Rightarrow> Inr (Some (write_u32 nid @ write_u32 len))
     | _ \<Rightarrow> Inr None)"

section \<open>The context on one page\<close>

type_synonym properties = "(u16 \<times> writer_value) list"

text \<open>The bytes of a value that is not in its record.\<close>

definition serialized :: "writer_value \<Rightarrow> writer_error + bytes" where
  "serialized v =
    (case of_io (variable_bytes v) of Inl e \<Rightarrow> Inl e
     | Inr None \<Rightarrow> Inl (InvalidStructure (Literal ''property has no serialized value''))
     | Inr (Some bs) \<Rightarrow> Inr bs)"

definition record_head :: "u16 \<Rightarrow> writer_value \<Rightarrow> bytes" where
  "record_head property_id v = write_u16 property_id @ write_u16 (property_type_code (writer_property_type v))"

fun context_records :: "properties \<Rightarrow> bytes list \<Rightarrow> bytes \<Rightarrow> writer_error + bytes list \<times> bytes" where
  "context_records [] allocations records = Inr (allocations, records)"
| "context_records ((property_id, v) # props) allocations records =
    (let records = records @ record_head property_id v in
     case inline_value v of
       Some inline \<Rightarrow> context_records props allocations (records @ write_u32 inline)
     | None \<Rightarrow>
       (case serialized v of Inl e \<Rightarrow> Inl e
        | Inr bs \<Rightarrow>
          if bs = [] then context_records props allocations (records @ write_u32 0)
          else let allocations = allocations @ [bs] in
            if length allocations \<ge> 2 ^ 16 then Inl (ValueTooLarge ''heap page'')
            else case heap_id_new (word_of_nat (length allocations)) 0 of
                Inl _ \<Rightarrow> Inl (ValueTooLarge ''heap page'')
              | Inr hid \<Rightarrow> context_records props allocations (records @ write_u32 hid)))"

definition property_context :: "properties \<Rightarrow> writer_error + bytes" where
  "property_context properties =
    (case context_records (sort_key fst properties) [[], []] [] of Inl e \<Rightarrow> Inl e
     | Inr (allocations, records) \<Rightarrow>
    (case of_ltp (heap_id_new 2 0) of Inl e \<Rightarrow> Inl e
     | Inr root \<Rightarrow>
    (case of_ltp (heap_tree_header_new 2 6 0 root) of Inl e \<Rightarrow> Inl e
     | Inr header \<Rightarrow>
       heap_page HeapTypeProperties (allocations[1 := records, 0 := heap_tree_header_write header]))))"

section \<open>The context over several pages\<close>

definition PC_LEAF_RECORD_SIZE :: nat where "PC_LEAF_RECORD_SIZE = 8"
definition PC_INTERMEDIATE_RECORD_SIZE :: nat where "PC_INTERMEDIATE_RECORD_SIZE = 6"

fun external_records :: "properties \<Rightarrow> bytes list list \<Rightarrow> bytes \<Rightarrow> writer_error + bytes list list \<times> bytes" where
  "external_records [] pages records = Inr (pages, records)"
| "external_records ((property_id, v) # props) pages records =
    (let records = records @ record_head property_id v in
     case inline_value v of
       Some inline \<Rightarrow> external_records props pages (records @ write_u32 inline)
     | None \<Rightarrow>
       (case serialized v of Inl e \<Rightarrow> Inl e
        | Inr bs \<Rightarrow>
          if bs = [] then external_records props pages (records @ write_u32 0)
          else case push_heap_allocation pages bs of Inl e \<Rightarrow> Inl e
            | Inr (hid, pages) \<Rightarrow> external_records props pages (records @ write_u32 hid)))"

fun push_leaf_chunks :: "bytes list \<Rightarrow> bytes list list \<Rightarrow> writer_error + (u16 \<times> heap_id) list \<times> bytes list list" where
  "push_leaf_chunks [] pages = Inr ([], pages)"
| "push_leaf_chunks (chunk # rest) pages =
    (let key = from_le (take 2 chunk) in
     case push_heap_allocation pages chunk of Inl e \<Rightarrow> Inl e
     | Inr (hid, pages) \<Rightarrow>
       (case push_leaf_chunks rest pages of Inl e \<Rightarrow> Inl e
        | Inr (roots, pages) \<Rightarrow> Inr ((key, hid) # roots, pages)))"

definition intermediate_entry :: "u16 \<times> heap_id \<Rightarrow> bytes" where
  "intermediate_entry e = write_u16 (fst e) @ write_u32 (snd e)"

fun push_parents :: "(u16 \<times> heap_id) list list \<Rightarrow> bytes list list \<Rightarrow> writer_error + (u16 \<times> heap_id) list \<times> bytes list list" where
  "push_parents [] pages = Inr ([], pages)"
| "push_parents (level_group # rest) pages =
    (case push_heap_allocation pages (concat (map intermediate_entry level_group)) of Inl e \<Rightarrow> Inl e
     | Inr (hid, pages) \<Rightarrow>
       (case push_parents rest pages of Inl e \<Rightarrow> Inl e
        | Inr (parents, pages) \<Rightarrow> Inr ((fst (level_group ! 0), hid) # parents, pages)))"

lemma length_push_parents: "push_parents groups pages = Inr (parents, pages') \<Longrightarrow> length parents = length groups"
  by (induction groups pages arbitrary: parents pages' rule: push_parents.induct) (auto split: sum.splits)

lemma pc_levels_shrink:
  assumes "Suc 0 < length roots" "push_parents (chunks (MAX_HEAP_ALLOCATION div PC_INTERMEDIATE_RECORD_SIZE) roots) pages = Inr (parents, pages')"
  shows "length parents < length roots"
  using assms length_push_parents [OF assms(2)]
  by (simp add: length_chunks div_ceil_less MAX_HEAP_ALLOCATION_def PC_INTERMEDIATE_RECORD_SIZE_def)

function pc_levels :: "u8 \<Rightarrow> (u16 \<times> heap_id) list \<Rightarrow> bytes list list \<Rightarrow> writer_error + u8 \<times> (u16 \<times> heap_id) list \<times> bytes list list" where
  "pc_levels levels roots pages =
    (if length roots > 1 then
       (case checked_add_w levels 1 of None \<Rightarrow> Inl (ValueTooLarge ''PC BTH depth'')
        | Some levels \<Rightarrow>
          (case push_parents (chunks (MAX_HEAP_ALLOCATION div PC_INTERMEDIATE_RECORD_SIZE) roots) pages of Inl e \<Rightarrow> Inl e
           | Inr (parents, pages) \<Rightarrow> pc_levels levels parents pages))
     else Inr (levels, roots, pages))"
  by pat_completeness auto
termination
  by (relation "measure (\<lambda>(_, roots, _). length roots)") (auto intro: pc_levels_shrink)

declare pc_levels.simps [simp del]

definition property_context_external :: "properties \<Rightarrow> writer_error + bytes list" where
  "property_context_external properties =
    (if properties = [] then Inl (InvalidStructure (Literal ''external property context must contain properties''))
     else
    (case external_records (sort_key fst properties) [] [] of Inl e \<Rightarrow> Inl e
     | Inr (pages, records) \<Rightarrow>
    (case push_leaf_chunks (chunks (MAX_HEAP_ALLOCATION div PC_LEAF_RECORD_SIZE * PC_LEAF_RECORD_SIZE) records) pages of Inl e \<Rightarrow> Inl e
     | Inr (roots, pages) \<Rightarrow>
    (case pc_levels 0 roots pages of Inl e \<Rightarrow> Inl e
     | Inr (levels, roots, pages) \<Rightarrow>
    (case of_ltp (heap_tree_header_new 2 6 levels (snd (roots ! 0))) of Inl e \<Rightarrow> Inl e
     | Inr header \<Rightarrow> finish_heap HeapTypeProperties [heap_tree_header_write header] pages)))))"

definition property_context_logical_size :: "properties \<Rightarrow> writer_error + nat" where
  "property_context_logical_size properties =
    (case property_context properties of Inr context \<Rightarrow> Inr (length context)
     | Inl e \<Rightarrow>
       if e = ValueTooLarge ''heap page''
       then (case property_context_external properties of Inl e \<Rightarrow> Inl e
         | Inr pages \<Rightarrow> (case checked_sum 0 (map length pages) of None \<Rightarrow> Inl (ValueTooLarge ''property context'')
           | Some n \<Rightarrow> Inr n))
       else Inl e)"

text \<open>The data block of the context, the next block index and the blocks.\<close>

definition build_property_context :: "properties \<Rightarrow> u64 \<Rightarrow> u64 \<Rightarrow> writer_error + u64 \<times> u64 \<times> block_spec list" where
  "build_property_context properties preferred_block next_index =
    (case property_context properties of
       Inr context \<Rightarrow> Inr (preferred_block, next_index, [\<lparr>sp_id = preferred_block, sp_payload = PayloadData context, sp_ref_count = 2\<rparr>])
     | Inl e \<Rightarrow>
       if e = ValueTooLarge ''heap page''
       then (case property_context_external properties of Inl e \<Rightarrow> Inl e
         | Inr pages \<Rightarrow> append_data_tree_pages pages next_index [])
       else Inl e)"

section \<open>Large values\<close>

definition MAX_PST_PROPERTY_BYTES :: nat where "MAX_PST_PROPERTY_BYTES = 2 ^ 31 - 1"

definition validate_pst_property_len :: "string \<Rightarrow> nat \<Rightarrow> writer_error + unit" where
  "validate_pst_property_len name len = (if len > MAX_PST_PROPERTY_BYTES then Inl (ValueTooLarge name) else Inr ())"

definition writer_node :: "node_id_type \<Rightarrow> u32 \<Rightarrow> writer_error + node_id" where
  "writer_node kind index = of_ndb (node_id_new kind index)"

record externalized =
  ext_next_block :: u64
  ext_next_value_node :: u32
  ext_blocks :: "block_spec list"
  ext_subnodes :: "u64 subnode_leaf_entry list"

definition externalize_value :: "writer_value \<Rightarrow> externalized \<Rightarrow> writer_error + writer_value \<times> externalized" where
  "externalize_value v st =
    (case of_io (variable_bytes v) of Inl e \<Rightarrow> Inl e
     | Inr None \<Rightarrow> Inr (v, st)
     | Inr (Some bs) \<Rightarrow>
    (case validate_pst_property_len ''property subnode'' (length bs) of Inl e \<Rightarrow> Inl e
     | Inr _ \<Rightarrow>
     if length bs \<le> 2048 \<or> (case v of WObject _ _ \<Rightarrow> True | _ \<Rightarrow> False) then Inr (v, st)
     else
    (case writer_node ListsTablesProperties (ext_next_value_node st) of Inl e \<Rightarrow> Inl e
     | Inr nid \<Rightarrow>
    (case checked_add_w (ext_next_value_node st) 1 of None \<Rightarrow> Inl (ValueTooLarge ''property subnode id'')
     | Some next_value_node \<Rightarrow>
    (case append_data_tree bs (ext_next_block st) (ext_blocks st) of Inl e \<Rightarrow> Inl e
     | Inr (root, next_block, blocks) \<Rightarrow>
       Inr (WExternal (writer_property_type v) nid,
         \<lparr>ext_next_block = next_block, ext_next_value_node = next_value_node, ext_blocks = blocks,
          ext_subnodes = ext_subnodes st @ [\<lparr>sl_node = nid, sl_block = root, sl_sub_node = None\<rparr>]\<rparr>))))))"

fun externalize_large_properties :: "properties \<Rightarrow> externalized \<Rightarrow> writer_error + properties \<times> externalized" where
  "externalize_large_properties [] st = Inr ([], st)"
| "externalize_large_properties ((property_id, v) # props) st =
    (case externalize_value v st of Inl e \<Rightarrow> Inl e
     | Inr (v, st) \<Rightarrow>
       (case externalize_large_properties props st of Inl e \<Rightarrow> Inl e
        | Inr (props, st) \<Rightarrow> Inr ((property_id, v) # props, st)))"

section \<open>The serialisation agrees with the reader's\<close>

text \<open>The value of the reader that a value of the writer stands for.\<close>

definition as_reader :: "writer_value \<Rightarrow> property_value" where
  "as_reader v =
    (case v of
       WInteger16 x \<Rightarrow> PropInteger16 x
     | WInteger32 x \<Rightarrow> PropInteger32 x
     | WInteger64 x \<Rightarrow> PropInteger64 x
     | WFloating32 x \<Rightarrow> PropFloating32 x
     | WFloating64 x \<Rightarrow> PropFloating64 x
     | WCurrency x \<Rightarrow> PropCurrency x
     | WFloatingTime x \<Rightarrow> PropFloatingTime x
     | WErrorCode x \<Rightarrow> PropErrorCode x
     | WBoolean x \<Rightarrow> PropBoolean x
     | WTime x \<Rightarrow> PropTime x
     | WGuid bs \<Rightarrow> PropGuid (guid_decode bs)
     | WUnicode s \<Rightarrow> PropUnicode (encode_utf16 s)
     | WBinary bs \<Rightarrow> PropBinary bs
     | WMultipleInteger16 xs \<Rightarrow> PropMultipleInteger16 xs
     | WMultipleInteger32 xs \<Rightarrow> PropMultipleInteger32 xs
     | WMultipleInteger64 xs \<Rightarrow> PropMultipleInteger64 xs
     | WMultipleGuid xs \<Rightarrow> PropMultipleGuid (map guid_decode xs)
     | WMultipleUnicode xs \<Rightarrow> PropMultipleUnicode (map encode_utf16 xs)
     | WMultipleBinary xs \<Rightarrow> PropMultipleBinary xs
     | WObject nid len \<Rightarrow> PropObject \<lparr>object_node_id = nid, object_size = len\<rparr>
     | WExternal _ _ \<Rightarrow> PropNull)"

text \<open>What the types of the source say (GUIDs have 16 bytes), and the limit of the reader on items.\<close>

definition writer_value_ok :: "writer_value \<Rightarrow> bool" where
  "writer_value_ok v \<longleftrightarrow> (case v of
     WGuid bs \<Rightarrow> length bs = 16
   | WMultipleGuid xs \<Rightarrow> list_all (\<lambda>bs. length bs = 16) xs
   | WMultipleUnicode xs \<Rightarrow> length xs \<le> MAX_MULTI_VALUE_ELEMENTS
   | WMultipleBinary xs \<Rightarrow> length xs \<le> MAX_MULTI_VALUE_ELEMENTS
   | _ \<Rightarrow> True)"

lemma guid_decode_inverse: "length bs = 16 \<Longrightarrow> guid_to_le_bytes (guid_decode bs) = bs"
proof -
  assume len: "length bs = 16"
  have "drop 4 bs = take 2 (drop 4 bs) @ drop 6 bs" "drop 6 bs = take 2 (drop 6 bs) @ drop 8 bs"
    using append_take_drop_id [of 2 "drop 4 bs"] append_take_drop_id [of 2 "drop 6 bs"] by simp_all
  then have "take 4 bs @ take 2 (drop 4 bs) @ take 2 (drop 6 bs) @ drop 8 bs = bs" by (metis append_take_drop_id)
  then show ?thesis using len by (simp add: guid_to_le_bytes_def guid_decode_def to_le_from_le)
qed

lemma concat_guids: "list_all (\<lambda>bs. length bs = 16) xs \<Longrightarrow> concat (map (guid_to_le_bytes \<circ> guid_decode) xs) = concat xs"
  by (induction xs) (simp_all add: guid_decode_inverse)

lemma value_ok_as_reader: "writer_value_ok v \<Longrightarrow> value_ok (as_reader v)"
  by (cases v) (auto simp: writer_value_ok_def value_ok_def as_reader_def guid_decode_def list_all_iff)

lemma offset_bytes_write: "offset_bytes offset lens = Inr bs \<Longrightarrow> write_offsets offset lens = Inr bs"
  by (induction offset lens arbitrary: bs rule: offset_bytes.induct) (auto split: if_splits sum.splits)

lemma multiple_binary_write: "multiple_binary_bytes items = Inr bs \<Longrightarrow> write_items items = Inr bs"
  by (auto simp: multiple_binary_bytes_def write_items_def dest: offset_bytes_write split: if_splits sum.splits)

lemma unicode_bytes_units: "unicode_bytes s = unit_bytes (encode_utf16 s)"
  by (simp add: unicode_bytes_def unit_bytes_def)

lemma multiple_unicode_write:
  assumes "multiple_unicode_bytes items = Inr bs"
  shows "write_items (map (unit_bytes \<circ> encode_utf16) items) = Inr bs"
proof -
  let ?items = "map (unit_bytes \<circ> encode_utf16) items"
  have lens: "map length ?items = map (\<lambda>s. 2 * length (encode_utf16 s)) items" and bytes: "map unicode_bytes items = ?items"
    by (simp_all add: unicode_bytes_units)
  obtain offs where "\<not> length items \<ge> 2 ^ 32" "offset_bytes ((length items + 1) * 4) (map length ?items) = Inr offs"
    "bs = write_u32 (word_of_nat (length items)) @ offs @ concat ?items"
    using assms unfolding multiple_unicode_bytes_def lens bytes by (auto split: if_splits sum.splits)
  then show ?thesis using offset_bytes_write by (simp add: write_items_def del: map_map)
qed

lemma variable_bytes_write:
  assumes "variable_bytes v = Inr (Some bs)" "writer_value_ok v"
  shows "property_value_write (as_reader v) = Inr bs" "property_value_type (as_reader v) = writer_property_type v"
  using assms
  by (cases v; auto simp: variable_bytes_def property_value_write_def as_reader_def writer_value_ok_def guid_decode_inverse concat_guids
      unicode_bytes_units node_id_write_def dest: multiple_binary_write multiple_unicode_write split: if_splits sum.splits)+

lemma variable_bytes_read:
  assumes "variable_bytes v = Inr (Some bs)" "writer_value_ok v"
  shows "property_value_read (writer_property_type v) bs = Inr (terminated (as_reader v))"
  using property_value_written [OF variable_bytes_write(1) [OF assms] value_ok_as_reader [OF assms(2)]] variable_bytes_write(2) [OF assms]
  by simp

section \<open>Placed allocations\<close>

lemma push_new_page_Inr:
  assumes "push_new_page (pages @ [[a]]) = Inr (hid, pages')" "pending_ok pages" "a \<noteq> []" "length a \<le> 3580"
  shows "pending_ok pages' \<and> points_to pages' hid a \<and> (\<forall>hid b. points_to pages hid b \<longrightarrow> points_to pages' hid b)"
proof -
  have "length (pages @ [[a]]) < 2 ^ 16" using assms(1) by (auto simp: push_new_page_def split: if_splits)
  then have p: "pending_page (length pages) [a]" using assms(3,4) by (intro pending_single) simp_all
  from push_new_page_eq [of "pages @ [[a]]"] p \<open>length (pages @ [[a]]) < 2 ^ 16\<close> assms(1)
  have h: "pages' = pages @ [[a]]" "heap_id_new 1 (word_of_nat (Suc (length pages))) = Inr hid" by auto
  have "pending_ok pages'" using assms(2) p \<open>length (pages @ [[a]]) < 2 ^ 16\<close> h(1) by (auto simp: pending_ok_def nth_append less_Suc_eq)
  moreover have "points_to pages' hid a" unfolding points_to_def
    using h by (intro exI [of _ "length pages"] exI [of _ 0]) (simp add: nth_append)
  moreover have "points_to pages hid b \<Longrightarrow> points_to pages' hid b" for hid b
    by (rule points_to_extend) (auto simp: h(1) nth_append)
  ultimately show ?thesis by blast
qed

lemma push_heap_allocation_Inr:
  assumes "push_heap_allocation pages a = Inr (hid, pages')" "pending_ok pages"
  shows "pending_ok pages' \<and> points_to pages' hid a \<and> (\<forall>hid b. points_to pages hid b \<longrightarrow> points_to pages' hid b)"
proof -
  have a: "a \<noteq> []" "length a \<le> 3580" and n: "length pages < 2 ^ 16"
    using assms(1) by (auto simp: push_heap_allocation_def MAX_HEAP_ALLOCATION_def split: if_splits)
  show ?thesis
  proof (cases "pages = []")
    case True
    then show ?thesis using assms a push_new_page_Inr [of "[]" a hid pages'] by (simp add: push_heap_allocation_def MAX_HEAP_ALLOCATION_def)
  next
    case False
    let ?k = "word_of_nat (length pages) :: u16" and ?cur = "last pages @ [a]"
    obtain ps l where pl: "pages = ps @ [l]" using False by (cases pages rule: rev_cases) auto
    have l: "pending_page (length ps) l" using assms(2) by (auto simp: pending_ok_def pl nth_append)
    have k: "?k \<noteq> 0" using index_zero [of "length pages"] n False by simp
    have ne: "[] \<notin> set ?cur" using l a(1) by (auto simp: pl pending_page_def)
    have small: "length (concat ?cur) < 2 ^ 59" using l a(2) by (simp add: pl pending_page_def page_fits_def)
    note page = continuation_page_eq [OF k ne small]
    let ?page = "page_of (plain_header ?k) ?cur (pad_of (length (concat ?cur)))"
    show ?thesis
    proof (cases "page_fits (plain_header ?k) ?cur (pad_of (length (concat ?cur))) \<and> length ?page \<le> 8173")
      case True
      have "length ?cur < 2 ^ 16" using l by (simp add: pl pending_page_def)
      then have r: "heap_id_new (word_of_nat (length ?cur)) ?k = Inr hid" "pages' = butlast pages @ [?cur]"
        using assms(1) False a n page True
        by (auto simp: push_heap_allocation_def MAX_HEAP_ALLOCATION_def MAX_DATA_BLOCK_PAYLOAD_def Let_def of_ltp_def usize_max_def min_def
            split: sum.splits simp del: of_nat_Suc)
      then have len: "length ?cur < 2 ^ 11"
        using \<open>length ?cur < 2 ^ 16\<close> by (auto simp: heap_id_new_cases unsigned_of_nat take_bit_nat_eq_self split: if_splits simp del: of_nat_Suc)
      have "pending_page (length ps) (l @ [a])" using True ne len by (simp add: pl pending_page_def)
      then have "pending_ok pages'" using assms(2) r(2) by (auto simp: pending_ok_def pl nth_append less_Suc_eq)
      moreover have "points_to pages' hid a" unfolding points_to_def
        using r len by (intro exI [of _ "length ps"] exI [of _ "length l"]) (simp add: pl)
      moreover have "points_to pages hid b \<Longrightarrow> points_to pages' hid b" for hid b
        by (rule points_to_extend) (auto simp: r(2) pl nth_append less_Suc_eq)
      ultimately show ?thesis by blast
    next
      case no_room: False
      have "push_heap_allocation pages a = push_new_page (pages @ [[a]])"
        using False a n page no_room
        by (auto simp: push_heap_allocation_def MAX_HEAP_ALLOCATION_def MAX_DATA_BLOCK_PAYLOAD_def Let_def usize_max_def min_def)
      then show ?thesis using assms a push_new_page_Inr [of pages a hid pages'] by simp
    qed
  qed
qed

section \<open>Records and their tree\<close>

text \<open>A reference into the heap, as the reader tells it from a node identifier.\<close>

definition heap_reference :: "u32 \<Rightarrow> bool" where
  "heap_reference code \<longleftrightarrow> code \<noteq> 0 \<and> code AND mask 5 = 0"

lemma heap_id_reference:
  assumes "heap_id_new index k = Inr hid" "index \<noteq> 0"
  shows "heap_reference hid"
proof -
  have i: "unat index < 2 ^ 11" "hid = push_bit 5 (push_bit 11 (ucast k) OR ucast index)"
    using assms(1) by (auto simp: heap_id_new_cases split: if_splits)
  note f = heap_id_fields [OF i(1), of k, folded i(2)]
  have "hid \<noteq> 0"
  proof
    assume "hid = 0"
    then have "(ucast index :: u32) = 0" using f(2) by (simp add: node_id_index_def)
    then show False using assms(2) ucast_u16_u32 [of index] by simp
  qed
  then show ?thesis using f(3) by (simp add: heap_reference_def)
qed

lemma points_to_reference: "points_to pages hid a \<Longrightarrow> heap_reference hid"
proof -
  assume "points_to pages hid a"
  then obtain i j where j: "Suc j < 2 ^ 11" "heap_id_new (word_of_nat (Suc j)) (word_of_nat (Suc i)) = Inr hid" by (auto simp: points_to_def)
  have "unat (word_of_nat (Suc j) :: u16) = Suc j" using j(1) by (simp add: unsigned_of_nat take_bit_nat_eq_self del: of_nat_Suc)
  then have "(word_of_nat (Suc j) :: u16) \<noteq> 0" by (metis nat.distinct(1) unat_0)
  then show ?thesis using j(2) by (rule heap_id_reference [rotated])
qed

text \<open>
  \<open>coded P v code\<close>: the record of \<open>v\<close> holds \<open>code\<close>, where \<open>P\<close> says which allocation a reference
  stands for.
\<close>

definition coded :: "(heap_id \<Rightarrow> bytes \<Rightarrow> bool) \<Rightarrow> writer_value \<Rightarrow> u32 \<Rightarrow> bool" where
  "coded P v code \<longleftrightarrow> (case inline_value v of Some c \<Rightarrow> code = c
     | None \<Rightarrow> (\<exists>bs. serialized v = Inr bs \<and> (if bs = [] then code = 0 else heap_reference code \<and> P code bs)))"

lemma coded_mono: "coded P v code \<Longrightarrow> (\<And>hid b. P hid b \<Longrightarrow> Q hid b) \<Longrightarrow> coded Q v code"
  by (auto simp: coded_def split: option.splits if_splits)

definition record_bytes :: "(u16 \<times> writer_value) \<times> u32 \<Rightarrow> bytes" where
  "record_bytes r = (case r of ((property_id, v), code) \<Rightarrow> record_head property_id v @ write_u32 code)"

definition row_of :: "(u16 \<times> writer_value) \<times> u32 \<Rightarrow> u16 \<times> property_record" where
  "row_of r = (case r of ((property_id, v), code) \<Rightarrow>
    (property_id, \<lparr>pr_type = writer_property_type v, pr_value = property_record_of (writer_property_type v) code\<rparr>))"

lemma length_record_bytes [simp]: "length (record_bytes r) = 8"
  by (simp add: record_bytes_def record_head_def split: prod.splits)

lemma record_row: "leaf_row read_u16 property_record_read (record_bytes r @ rest) = Inr (row_of r, rest)"
  by (simp add: record_bytes_def record_head_def row_of_def leaf_row_def property_record_read_def split: prod.splits)

lemma read_rows_map:
  assumes "\<And>x rest. x \<in> set xs \<Longrightarrow> row (enc x @ rest) = Inr (f x, rest)" and "row [] = Inl e"
    and "\<forall>x\<in>set xs. enc x \<noteq> []"
  shows "read_rows (length (concat (map enc xs))) row (concat (map enc xs)) = map f xs"
proof -
  have "length xs \<le> n \<Longrightarrow> read_rows n row (concat (map enc xs)) = map f xs" for n
    using assms(1)
  proof (induction xs arbitrary: n)
    case Nil
    then show ?case using assms(2) by (cases n) auto
  next
    case (Cons x xs)
    then show ?case by (cases n) auto
  qed
  moreover have "length xs \<le> length (concat (map enc xs))"
    using assms(3) by (induction xs) (auto simp: Suc_le_eq add_strict_increasing)
  ultimately show ?thesis by blast
qed

lemma external_records_Inr:
  assumes "external_records props pages records = Inr (pages', records')" "pending_ok pages"
  shows "\<exists>codes. list_all2 (\<lambda>p. coded (points_to pages') (snd p)) props codes \<and>
    records' = records @ concat (map record_bytes (zip props codes)) \<and> pending_ok pages' \<and>
    (\<forall>hid b. points_to pages hid b \<longrightarrow> points_to pages' hid b)"
  using assms
proof (induction props arbitrary: pages records)
  case (Cons p props)
  obtain property_id v where p: "p = (property_id, v)" by force
  obtain code pages1 where step: "external_records props pages1 (records @ record_bytes ((property_id, v), code)) = Inr (pages', records')"
    and ok: "pending_ok pages1" and cd: "coded (points_to pages1) v code"
    and keep: "\<forall>hid b. points_to pages hid b \<longrightarrow> points_to pages1 hid b"
    using Cons.prems
    by (auto simp: p Let_def record_bytes_def coded_def points_to_reference dest: push_heap_allocation_Inr
        split: option.splits sum.splits if_splits)
  from Cons.IH [OF step ok] obtain codes where "list_all2 (\<lambda>p. coded (points_to pages') (snd p)) props codes"
    "records' = (records @ record_bytes ((property_id, v), code)) @ concat (map record_bytes (zip props codes))" "pending_ok pages'"
    "\<forall>hid b. points_to pages1 hid b \<longrightarrow> points_to pages' hid b" by blast
  then show ?case using cd keep by (intro exI [of _ "code # codes"]) (auto simp: p intro: coded_mono)
qed simp

lemma push_leaf_chunks_Inr:
  assumes "push_leaf_chunks chs pages = Inr (roots, pages')" "pending_ok pages"
  shows "list_all2 (\<lambda>root. points_to pages' (snd root)) roots chs \<and> pending_ok pages' \<and> (\<forall>hid b. points_to pages hid b \<longrightarrow> points_to pages' hid b)"
  using assms
proof (induction chs arbitrary: pages roots)
  case (Cons c chs)
  obtain hid pages1 roots1 where p: "push_heap_allocation pages c = Inr (hid, pages1)" "push_leaf_chunks chs pages1 = Inr (roots1, pages')"
    "roots = (from_le (take 2 c), hid) # roots1" using Cons.prems(1) by (auto simp: Let_def split: sum.splits)
  from push_heap_allocation_Inr [OF p(1) Cons.prems(2)] Cons.IH [OF p(2)] show ?case by (auto simp: p(3))
qed simp

lemma push_parents_Inr:
  assumes "push_parents groups pages = Inr (parents, pages')" "pending_ok pages"
  shows "list_all2 (\<lambda>root g. points_to pages' (snd root) (concat (map intermediate_entry g))) parents groups \<and> pending_ok pages' \<and>
    (\<forall>hid b. points_to pages hid b \<longrightarrow> points_to pages' hid b)"
  using assms
proof (induction groups arbitrary: pages parents)
  case (Cons g groups)
  obtain hid pages1 parents1 where p: "push_heap_allocation pages (concat (map intermediate_entry g)) = Inr (hid, pages1)"
    "push_parents groups pages1 = Inr (parents1, pages')" "parents = (fst (g ! 0), hid) # parents1" using Cons.prems(1) by (auto split: sum.splits)
  from push_heap_allocation_Inr [OF p(1) Cons.prems(2)] Cons.IH [OF p(2)] show ?case by (auto simp: p(3))
qed simp

text \<open>A tree of records on pages that are being filled, seen by every heap that has their allocations.\<close>

definition finds :: "bytes list list \<Rightarrow> heap_node \<Rightarrow> bool" where
  "finds pages heap \<longleftrightarrow> (\<forall>hid b. points_to pages hid b \<longrightarrow> heap_find_entry heap hid = Inr b)"

definition tree_on :: "bytes list list \<Rightarrow> nat \<Rightarrow> heap_id \<Rightarrow> (u16 \<times> property_record) list \<Rightarrow> bool" where
  "tree_on pages level hid rows \<longleftrightarrow> heap_reference hid \<and>
    (\<forall>heap. finds pages heap \<longrightarrow> heap_tree_walk heap read_u16 property_record_read level hid = Inr rows)"

lemma tree_on_mono:
  "tree_on pages level hid rows \<Longrightarrow> (\<forall>hid b. points_to pages hid b \<longrightarrow> points_to pages' hid b) \<Longrightarrow> tree_on pages' level hid rows"
  by (auto simp: tree_on_def finds_def)

lemma rows_of_records:
  "read_rows (length (concat (map record_bytes xs))) (leaf_row read_u16 property_record_read) (concat (map record_bytes xs)) = map row_of xs"
  by (rule read_rows_map [OF record_row]) (auto simp: leaf_row_def read_u16_def read_exact_short record_bytes_def record_head_def)

lemma tree_on_leaf:
  assumes "points_to pages hid (concat (map record_bytes xs))"
  shows "tree_on pages 0 hid (map row_of xs)"
  using assms rows_of_records [of xs] by (auto simp: tree_on_def finds_def points_to_reference heap_tree_walk.simps)

lemma intermediate_entry_row:
  "heap_reference (snd e) \<Longrightarrow> intermediate_row read_u16 (intermediate_entry e @ rest) = Inr (e, rest)"
  using heap_id_codec [of "snd e" rest]
  by (simp add: intermediate_row_def intermediate_entry_def heap_reference_def heap_id_write_def node_id_write_def)

lemma collect_rows_all2: "list_all2 (\<lambda>x ys. f x = Inr ys) xs yss \<Longrightarrow> collect_rows f xs = Inr (concat yss)"
  by (induction xs yss rule: list_all2_induct) simp_all

lemma tree_on_parent:
  assumes "points_to pages hid (concat (map intermediate_entry g))" "list_all2 (\<lambda>e. tree_on pages level (snd e)) g rss"
  shows "tree_on pages (Suc level) hid (concat rss)"
proof -
  have ref: "\<forall>e\<in>set g. heap_reference (snd e)"
    using assms(2) by (induction g rss rule: list_all2_induct) (auto simp: tree_on_def)
  have rows: "read_rows (length (concat (map intermediate_entry g))) (intermediate_row read_u16) (concat (map intermediate_entry g)) = map id g"
    by (rule read_rows_map) (use ref intermediate_entry_row in \<open>auto simp: intermediate_row_def [of _ "[]"] intermediate_entry_def [abs_def] read_u16_def read_exact_short\<close>)
  have "heap_tree_walk heap read_u16 property_record_read (Suc level) hid = Inr (concat rss)" if "finds pages heap" for heap
  proof -
    have "list_all2 (\<lambda>hid rs. heap_tree_walk heap read_u16 property_record_read level hid = Inr rs) (map snd g) rss"
      using assms(2) that by (auto simp: list_all2_conv_all_nth tree_on_def)
    then show ?thesis using assms(1) that rows by (simp add: heap_tree_walk.simps finds_def collect_rows_all2)
  qed
  then show ?thesis using assms(1) by (auto simp: tree_on_def points_to_reference)
qed

lemma list_all2_groups:
  assumes "0 < k" "list_all2 P xs ys"
  shows "\<exists>gs. list_all2 (list_all2 P) (chunks k xs) gs \<and> concat gs = ys"
  using assms
proof (induction k xs arbitrary: ys rule: chunks.induct)
  case (1 k xs)
  show ?case
  proof (cases "xs = []")
    case True
    then show ?thesis using "1.prems" by (intro exI [of _ "[]"]) simp
  next
    case False
    have d: "list_all2 P (drop k xs) (drop k ys)" "list_all2 P (take k xs) (take k ys)"
      using "1.prems"(2) by (simp_all add: list_all2_dropI list_all2_takeI)
    obtain gs where "list_all2 (list_all2 P) (chunks k (drop k xs)) gs" "concat gs = drop k ys"
      using "1.IH" [OF _ "1.prems"(1) d(1)] False "1.prems"(1) by auto
    then show ?thesis
      using d(2) False "1.prems"(1) by (intro exI [of _ "take k ys # gs"]) (simp add: chunks.simps [of k xs])
  qed
qed

lemma tree_on_parents:
  assumes parents: "list_all2 (\<lambda>root g. points_to pages (snd root) (concat (map intermediate_entry g))) parents groups"
    and groups: "list_all2 (list_all2 (\<lambda>e. tree_on pages level (snd e))) groups gs"
  shows "list_all2 (\<lambda>e. tree_on pages (Suc level) (snd e)) parents (map concat gs)"
  using assms by (auto simp: list_all2_conv_all_nth intro!: tree_on_parent)

lemma pc_levels_Inr:
  assumes "pc_levels levels roots pages = Inr (levels', roots', pages')" "pending_ok pages" "roots \<noteq> []"
    and "list_all2 (\<lambda>e. tree_on pages (unat levels) (snd e)) roots rss"
  shows "pending_ok pages' \<and> (\<forall>hid b. points_to pages hid b \<longrightarrow> points_to pages' hid b) \<and>
    tree_on pages' (unat levels') (snd (roots' ! 0)) (concat rss)"
  using assms
proof (induction levels roots pages arbitrary: rss rule: pc_levels.induct)
  case (1 levels roots pages)
  show ?case
  proof (cases "length roots > 1")
    case False
    then obtain r where "roots = [r]" using "1.prems"(3) by (cases roots) auto
    then show ?thesis using "1.prems" by (auto simp: pc_levels.simps [of levels "[r]"] list_all2_Cons1)
  next
    case True
    let ?k = "MAX_HEAP_ALLOCATION div PC_INTERMEDIATE_RECORD_SIZE"
    have k: "0 < ?k" by (simp add: MAX_HEAP_ALLOCATION_def PC_INTERMEDIATE_RECORD_SIZE_def)
    obtain lv parents pages1 where s: "checked_add_w levels 1 = Some lv" "push_parents (chunks ?k roots) pages = Inr (parents, pages1)"
      "pc_levels lv parents pages1 = Inr (levels', roots', pages')"
      using "1.prems"(1) True by (auto simp: pc_levels.simps [of levels roots] split: option.splits sum.splits)
    have lv: "unat lv = Suc (unat levels)" using s(1) by (auto simp: checked_add_w_Some)
    from push_parents_Inr [OF s(2) "1.prems"(2)] have p: "pending_ok pages1" "\<forall>hid b. points_to pages hid b \<longrightarrow> points_to pages1 hid b"
      and pt: "list_all2 (\<lambda>root g. points_to pages1 (snd root) (concat (map intermediate_entry g))) parents (chunks ?k roots)" by auto
    have "list_all2 (\<lambda>e. tree_on pages1 (unat levels) (snd e)) roots rss"
      using "1.prems"(4) by (rule list_all2_mono) (use p(2) tree_on_mono in blast)
    from list_all2_groups [OF k this] obtain gs where g: "list_all2 (list_all2 (\<lambda>e. tree_on pages1 (unat levels) (snd e))) (chunks ?k roots) gs"
      "concat gs = rss" by blast
    from tree_on_parents [OF pt g(1)] have "list_all2 (\<lambda>e. tree_on pages1 (unat lv) (snd e)) parents (map concat gs)" by (simp add: lv)
    moreover have "parents \<noteq> []" using length_push_parents [OF s(2)] True k by (auto simp: chunks_eq_Nil_iff)
    ultimately have "pending_ok pages' \<and> (\<forall>hid b. points_to pages1 hid b \<longrightarrow> points_to pages' hid b) \<and>
        tree_on pages' (unat levels') (snd (roots' ! 0)) (concat (map concat gs))"
      using "1.IH" [OF True s(1,2) _ s(3) p(1)] by simp
    moreover have "concat (map concat gs) = concat (concat gs)" by (induction gs) simp_all
    ultimately show ?thesis using p(2) g(2) by auto
  qed
qed

lemma take_drop_concat_map:
  assumes "\<forall>x\<in>set xs. length (enc x) = w"
  shows "take (k * w) (concat (map enc xs)) = concat (map enc (take k xs))" "drop (k * w) (concat (map enc xs)) = concat (map enc (drop k xs))"
proof -
  have "\<forall>x\<in>set ys. length (enc x) = w \<Longrightarrow> length (concat (map enc ys)) = length ys * w" for ys by (induction ys) auto
  from this [of "take k xs"] have len: "length (concat (map enc (take k xs))) = min k (length xs) * w"
    using assms by (auto dest: in_set_takeD simp: min.commute)
  have split: "concat (map enc xs) = concat (map enc (take k xs)) @ concat (map enc (drop k xs))"
    by (metis append_take_drop_id concat_append map_append)
  show "take (k * w) (concat (map enc xs)) = concat (map enc (take k xs))" "drop (k * w) (concat (map enc xs)) = concat (map enc (drop k xs))"
    using len by (cases "k \<le> length xs"; subst split; simp)+
qed

lemma chunks_concat_map:
  assumes "\<forall>x\<in>set xs. length (enc x) = w" "0 < w" "0 < k"
  shows "chunks (k * w) (concat (map enc xs)) = map (\<lambda>g. concat (map enc g)) (chunks k xs)"
  using assms
proof (induction k xs rule: chunks.induct)
  case (1 k xs)
  show ?case
  proof (cases "xs = []")
    case False
    have "concat (map enc xs) \<noteq> []" using False "1.prems"(1,2) by (cases xs) auto
    moreover have "chunks (k * w) (concat (map enc (drop k xs))) = map (\<lambda>g. concat (map enc g)) (chunks k (drop k xs))"
      using 1 False by (auto dest: in_set_dropD)
    ultimately show ?thesis
      using False "1.prems" take_drop_concat_map [of xs enc w k]
      by (simp add: chunks.simps [of "k * w" "concat (map enc xs)"] chunks.simps [of k xs])
  qed simp
qed

section \<open>Stored contexts\<close>

text \<open>What a heap must have for the reader to find the properties, sorted and with their codes.\<close>

definition context_stored :: "heap_node \<Rightarrow> properties \<Rightarrow> u32 list \<Rightarrow> bool" where
  "context_stored heap props codes \<longleftrightarrow>
    list_all2 (\<lambda>p. coded (\<lambda>hid b. heap_find_entry heap hid = Inr b) (snd p)) props codes \<and>
    heap_tree_entries 2 6 read_u16 property_record_read heap 0x20 = Inr (map row_of (zip props codes)) \<and>
    (\<exists>h. heap_header heap = Inr h \<and> hn_user_root h = 0x20 \<and> hn_client_signature h = HeapTypeProperties) \<and>
    (\<forall>p\<in>set heap. 1 \<le> length p \<and> length p \<le> 8176)"

lemma heap_laid_pages: "heap_laid kind heap ass \<Longrightarrow> \<forall>p\<in>set heap. 1 \<le> length p \<and> length p \<le> 8176"
  by (auto simp: heap_laid_def page_laid_def in_set_conv_nth page_of_def page_fits_def header_length_def; fastforce simp: header_length_def)

lemma heap_laid_header:
  assumes "heap_laid kind heap ass" "heap \<noteq> []"
  shows "\<exists>h. heap_header heap = Inr h \<and> hn_user_root h = 0x20 \<and> hn_client_signature h = kind"
proof -
  obtain p ps where ps: "heap = p # ps" using assms(2) by (cases heap) auto
  obtain h pad where h: "ph_index h = 0" "ph_kind h = kind" "page_fits h (ass ! 0) pad" "p = page_of h (ass ! 0) pad"
    using assms(1) by (auto simp: heap_laid_def page_laid_def ps)
  have "length (ph_levels h) = 8" using h(1,3) by (simp add: page_fits_def header_ok_def)
  then have "heap_header_ok \<lparr>hn_page_map_offset = off, hn_client_signature = kind, hn_user_root = 0x20, hn_fill_levels = ph_levels h\<rparr>" for off
    by (simp add: heap_header_ok_def and_exp_eq_0_iff_not_bit mask_eq_exp_minus_1)
  then show ?thesis using heap_node_header_codec h(1,2,4)
    by (auto simp: heap_header_def ps page_of_def header_bytes_def)
qed

lemma heap_holds_header:
  assumes "heap_holds kind heap root pages"
  shows "\<exists>h. heap_header heap = Inr h \<and> hn_user_root h = 0x20 \<and> hn_client_signature h = kind"
proof -
  obtain ass where "heap_laid kind heap ass" "length ass = Suc (length pages)" using assms by (auto simp: heap_holds_def)
  moreover from this have "heap \<noteq> []" by (auto simp: heap_laid_def)
  ultimately show ?thesis by (intro heap_laid_header)
qed

lemma tree_header_codec:
  assumes "heap_tree_header_new ks vs levels root = Inr h" "heap_reference root"
  shows "heap_tree_header_read (heap_tree_header_write h) = Inr (h, [])" "ht_key_size h = ks" "ht_entry_size h = vs" "ht_levels h = levels" "ht_root h = root"
    "length (heap_tree_header_write h) = 8"
proof -
  have h: "h = \<lparr>ht_key_size = ks, ht_entry_size = vs, ht_levels = levels, ht_root = root\<rparr>"
    using assms(1) by (auto simp: heap_tree_header_new_def split: if_splits)
  have "heap_node_type_try_from (heap_node_type_code HeapTypeTree) = Inr HeapTypeTree" by (rule heap_node_type_try_from_code)
  moreover have "heap_id_read (heap_id_write root) = Inr (root, [])" using assms(2) heap_id_codec [of root "[]"] by (simp add: heap_reference_def)
  ultimately show "heap_tree_header_read (heap_tree_header_write h) = Inr (h, [])"
    using assms(1) by (simp add: heap_tree_header_read_def heap_tree_header_write_def h del: heap_node_type_code.simps)
qed (use assms(1) in \<open>auto simp: heap_tree_header_new_def heap_tree_header_write_def heap_id_write_def node_id_write_def split: if_splits\<close>)

lemma tree_entries_walk:
  assumes "heap_find_entry heap user_root = Inr (heap_tree_header_write h)" "heap_tree_header_new 2 6 levels root = Inr h" "heap_reference root"
    and "heap_tree_walk heap read_u16 property_record_read (unat levels) root = Inr rows"
  shows "heap_tree_entries 2 6 read_u16 property_record_read heap user_root = Inr rows"
proof -
  note h = tree_header_codec [OF assms(2,3)]
  have "collect_rows (heap_tree_walk heap read_u16 property_record_read (unat levels)) [root] = Inr rows" using assms(4) by simp
  then obtain leaves where "heap_tree_levels heap read_u16 (unat levels) [root] = Inr leaves"
    "rows_of heap (leaf_row read_u16 property_record_read) leaves = Inr rows"
    using heap_tree_levels_walk by metis
  then show ?thesis using assms(1,3) h by (simp add: heap_tree_entries_def heap_tree_header_of_def heap_reference_def)
qed

text \<open>Every allocation opens at most one page, which bounds the pages of a context.\<close>

lemma push_new_page_same: "push_new_page pages = Inr (hid, pages') \<Longrightarrow> pages' = pages"
  by (auto simp: push_new_page_def Let_def split: list.splits if_splits sum.splits)

lemma push_heap_allocation_pages: "push_heap_allocation pages a = Inr (hid, pages') \<Longrightarrow> length pages' \<le> Suc (length pages)"
  by (auto simp: push_heap_allocation_def Let_def dest: push_new_page_same split: if_splits sum.splits)

lemma external_records_pages: "external_records props pages records = Inr (pages', records') \<Longrightarrow> length pages' \<le> length pages + length props"
  by (induction props pages records arbitrary: pages' records' rule: external_records.induct)
    (fastforce simp: Let_def dest: push_heap_allocation_pages split: sum.splits option.splits if_splits)+

lemma push_leaf_chunks_pages: "push_leaf_chunks cs pages = Inr (roots, pages') \<Longrightarrow> length pages' \<le> length pages + length cs"
  by (induction cs pages arbitrary: roots pages' rule: push_leaf_chunks.induct)
    (fastforce simp: Let_def dest: push_heap_allocation_pages split: sum.splits)+

lemma push_parents_pages: "push_parents gs pages = Inr (parents, pages') \<Longrightarrow> length pages' \<le> length pages + length gs"
  by (induction gs pages arbitrary: parents pages' rule: push_parents.induct)
    (fastforce dest: push_heap_allocation_pages split: sum.splits)+

lemma pc_levels_pages: "pc_levels levels roots pages = Inr (levels', roots', pages') \<Longrightarrow> length pages' \<le> length pages + length roots"
proof (induction levels roots pages rule: pc_levels.induct)
  case (1 levels roots pages)
  show ?case
  proof (cases "length roots > 1")
    case True
    then obtain l parents pages1 where p: "checked_add_w levels 1 = Some l"
      "push_parents (chunks (MAX_HEAP_ALLOCATION div PC_INTERMEDIATE_RECORD_SIZE) roots) pages = Inr (parents, pages1)"
      "pc_levels l parents pages1 = Inr (levels', roots', pages')"
      using 1(2) by (auto simp: pc_levels.simps [of levels] split: option.splits sum.splits)
    have "length pages' \<le> length pages1 + length parents" using 1(1) [OF True p(1) p(2) refl p(3)] .
    moreover have "length pages1 \<le> length pages + length parents" using push_parents_pages [OF p(2)] length_push_parents [OF p(2)] by simp
    moreover have "length parents = div_ceil (length roots) 596"
      using length_push_parents [OF p(2)] by (simp add: length_chunks MAX_HEAP_ALLOCATION_def PC_INTERMEDIATE_RECORD_SIZE_def)
    moreover have "div_ceil (length roots) 596 * 596 < length roots + 596" by (rule div_ceil_mult_lt) simp
    ultimately show ?thesis using True by linarith
  qed (use 1(2) in \<open>simp add: pc_levels.simps\<close>)
qed

lemma property_context_external_stored:
  assumes "property_context_external props = Inr heap"
  shows "(\<exists>codes. context_stored heap (sort_key fst props) codes) \<and> length heap \<le> length props + 2 * div_ceil (length props) 447 + 1"
proof -
  let ?props = "sort_key fst props"
  obtain pages1 records roots pages2 levels roots' pages header where
    e: "external_records ?props [] [] = Inr (pages1, records)" and ne: "props \<noteq> []" and
    c: "push_leaf_chunks (chunks 3576 records) pages1 = Inr (roots, pages2)" and
    l: "pc_levels 0 roots pages2 = Inr (levels, roots', pages)" and
    h: "heap_tree_header_new 2 6 levels (snd (roots' ! 0)) = Inr header" and
    f: "finish_heap HeapTypeProperties [heap_tree_header_write header] pages = Inr heap"
    using assms by (auto simp: property_context_external_def of_ltp_def MAX_HEAP_ALLOCATION_def PC_LEAF_RECORD_SIZE_def split: if_splits sum.splits)
  have "pending_ok []" by (simp add: pending_ok_def)
  from external_records_Inr [OF e this] obtain codes where
    cd: "list_all2 (\<lambda>p. coded (points_to pages1) (snd p)) ?props codes" and rec: "records = concat (map record_bytes (zip ?props codes))" and ok1: "pending_ok pages1" by auto
  let ?rows = "zip ?props codes"
  have ch: "chunks 3576 records = map (\<lambda>g. concat (map record_bytes g)) (chunks 447 ?rows)"
    using chunks_concat_map [of ?rows record_bytes 8 447] by (simp add: rec)
  from push_leaf_chunks_Inr [OF c ok1] have pl: "list_all2 (\<lambda>root. points_to pages2 (snd root)) roots (map (\<lambda>g. concat (map record_bytes g)) (chunks 447 ?rows))"
    and ok2: "pending_ok pages2" and k2: "\<forall>hid b. points_to pages1 hid b \<longrightarrow> points_to pages2 hid b" by (auto simp: ch)
  have trees: "list_all2 (\<lambda>e. tree_on pages2 (unat (0 :: u8)) (snd e)) roots (map (map row_of) (chunks 447 ?rows))"
    using pl by (auto simp: list_all2_conv_all_nth tree_on_leaf)
  have "length codes = length props" using list_all2_lengthD [OF cd] by simp
  then have "length ?rows \<noteq> 0" using ne by simp
  then have "?rows \<noteq> []" by force
  then have "roots \<noteq> []" using trees by (auto simp: chunks_eq_Nil_iff)
  from pc_levels_Inr [OF l ok2 this trees] have ok: "pending_ok pages" and k3: "\<forall>hid b. points_to pages2 hid b \<longrightarrow> points_to pages hid b"
    and t: "tree_on pages (unat levels) (snd (roots' ! 0)) (map row_of ?rows)" by (auto simp: chunks_map [symmetric])
  have ref: "heap_reference (snd (roots' ! 0))" using t by (simp add: tree_on_def)
  have fits: "root_fits HeapTypeProperties [heap_tree_header_write header]" using tree_header_codec(6) [OF h ref] by (simp add: root_fits_def pad_of_def)
  from finish_heap_holds [OF fits ok] f have holds: "heap_holds HeapTypeProperties heap [heap_tree_header_write header] pages"
    and lh: "length heap = Suc (length pages)" by auto
  have fnd: "finds pages heap" using heap_holds_find(2) [OF holds] by (simp add: finds_def)
  have "heap_find_entry heap 0x20 = Inr (heap_tree_header_write header)"
    using heap_holds_find(1) [OF holds, of 0 "0x20"] by (simp add: heap_id_new_cases)
  moreover have "heap_tree_walk heap read_u16 property_record_read (unat levels) (snd (roots' ! 0)) = Inr (map row_of ?rows)" using t fnd by (simp add: tree_on_def)
  ultimately have "heap_tree_entries 2 6 read_u16 property_record_read heap 0x20 = Inr (map row_of ?rows)" using tree_entries_walk h ref by blast
  moreover have "list_all2 (\<lambda>p. coded (\<lambda>hid b. heap_find_entry heap hid = Inr b) (snd p)) ?props codes"
    using cd by (rule list_all2_mono) (use k2 k3 fnd in \<open>auto simp: finds_def intro: coded_mono\<close>)
  moreover have "\<exists>h. heap_header heap = Inr h \<and> hn_user_root h = 0x20 \<and> hn_client_signature h = HeapTypeProperties"
    by (rule heap_holds_header [OF holds])
  moreover have "\<forall>p\<in>set heap. 1 \<le> length p \<and> length p \<le> 8176" using holds heap_laid_pages by (auto simp: heap_holds_def)
  ultimately have "context_stored heap ?props codes" by (auto simp: context_stored_def)
  moreover have "length (chunks 3576 records) = length roots" "length roots = div_ceil (length props) 447"
    using list_all2_lengthD [OF pl] \<open>length codes = length props\<close> by (simp_all add: ch length_chunks)
  then have "length heap \<le> length props + 2 * div_ceil (length props) 447 + 1"
    using lh external_records_pages [OF e] push_leaf_chunks_pages [OF c] pc_levels_pages [OF l] by simp
  ultimately show ?thesis by blast
qed

lemma context_records_Inr:
  assumes "context_records props allocations records = Inr (allocations', records')"
  shows "\<exists>codes xs. allocations' = allocations @ xs \<and> records' = records @ concat (map record_bytes (zip props codes)) \<and>
    list_all2 (\<lambda>p. coded (\<lambda>hid b. \<exists>j<length allocations'. length allocations \<le> j \<and> Suc j < 2 ^ 11 \<and> allocations' ! j = b \<and>
      heap_id_new (word_of_nat (Suc j)) 0 = Inr hid) (snd p)) props codes \<and>
    length xs \<le> length props \<and> (\<forall>x\<in>set xs. \<exists>p\<in>set props. serialized (snd p) = Inr x)"
  using assms
proof (induction props arbitrary: allocations records)
  case (Cons p props)
  obtain property_id v where p: "p = (property_id, v)" by force
  let ?Q = "\<lambda>n hid b. \<exists>j<length allocations'. n \<le> j \<and> Suc j < 2 ^ 11 \<and> allocations' ! j = b \<and> heap_id_new (word_of_nat (Suc j)) 0 = Inr hid"
  obtain code ys where step: "context_records props (allocations @ ys) (records @ record_bytes ((property_id, v), code)) = Inr (allocations', records')"
    and ys: "length ys \<le> 1" "\<forall>y\<in>set ys. serialized v = Inr y"
    and new: "inline_value v = None \<Longrightarrow> \<exists>bs. serialized v = Inr bs \<and>
      (if bs = [] then code = 0 \<and> ys = [] else ys = [bs] \<and> length allocations + 1 < 2 ^ 16 \<and> heap_id_new (word_of_nat (Suc (length allocations))) 0 = Inr code)"
    and inl: "\<And>c. inline_value v = Some c \<Longrightarrow> code = c"
  proof (cases "inline_value v")
    case (Some c)
    then show thesis using Cons.prems by (intro that [of "[]" c]) (auto simp: p Let_def record_bytes_def)
  next
    case None
    then obtain bs where bs: "serialized v = Inr bs" using Cons.prems by (auto simp: p Let_def split: sum.splits)
    show thesis
    proof (cases "bs = []")
      case True
      then show thesis using Cons.prems None bs by (intro that [of "[]" 0]) (auto simp: p Let_def record_bytes_def)
    next
      case False
      then obtain hid where "heap_id_new (word_of_nat (Suc (length allocations))) 0 = Inr hid" "length allocations + 1 < 2 ^ 16"
        "context_records props (allocations @ [bs]) (records @ record_bytes ((property_id, v), hid)) = Inr (allocations', records')"
        using Cons.prems None bs by (auto simp: p Let_def record_bytes_def split: if_splits sum.splits)
      then show thesis using None bs False by (intro that [of "[bs]" hid]) auto
    qed
  qed
  from Cons.IH [OF step] obtain codes xs where ih: "allocations' = (allocations @ ys) @ xs"
    "records' = (records @ record_bytes ((property_id, v), code)) @ concat (map record_bytes (zip props codes))"
    "list_all2 (\<lambda>p. coded (?Q (length (allocations @ ys))) (snd p)) props codes" "length xs \<le> length props"
    "\<forall>x\<in>set xs. \<exists>p\<in>set props. serialized (snd p) = Inr x" by blast
  have "coded (?Q (length allocations)) v code"
  proof (cases "inline_value v")
    case None
    then obtain bs where bs: "serialized v = Inr bs" "bs = [] \<Longrightarrow> code = 0"
      "bs \<noteq> [] \<Longrightarrow> ys = [bs] \<and> length allocations + 1 < 2 ^ 16 \<and> heap_id_new (word_of_nat (Suc (length allocations))) 0 = Inr code"
      using new by (metis (full_types))
    have "heap_reference code \<and> ?Q (length allocations) code bs" if "bs \<noteq> []"
    proof -
      have w: "unat (word_of_nat (Suc (length allocations)) :: u16) = Suc (length allocations)"
        using bs(3) [OF that] by (simp add: unsigned_of_nat take_bit_nat_eq_self del: of_nat_Suc)
      then have "(word_of_nat (Suc (length allocations)) :: u16) \<noteq> 0" "Suc (length allocations) < 2 ^ 11"
        using bs(3) [OF that] by (metis nat.distinct(1) unat_0) (use w bs(3) [OF that] in \<open>auto simp: heap_id_new_cases split: if_splits simp del: of_nat_Suc\<close>)
      then show ?thesis using bs(3) [OF that] ih(1) by (auto intro: heap_id_reference intro!: exI [of _ "length allocations"] simp del: of_nat_Suc)
    qed
    then show ?thesis using None bs(1,2) by (auto simp: coded_def)
  qed (use inl in \<open>simp add: coded_def\<close>)
  moreover have "list_all2 (\<lambda>p. coded (?Q (length allocations)) (snd p)) props codes"
    using ih(3) by (rule list_all2_mono) (erule coded_mono, auto)
  ultimately show ?case using ih ys by (intro exI [of _ "code # codes"] exI [of _ "ys @ xs"]) (auto simp: p)
qed simp

lemma heap_page_Inr_laid:
  assumes "heap_page kind as = Inr page" "length (concat as) < 2 ^ 59"
  shows "heap_laid kind [page] [as]"
proof -
  let ?l = "length (concat as)" and ?h = "\<lparr>ph_index = 0, ph_kind = kind, ph_levels = replicate 8 LevelEmpty\<rparr> :: page_header"
  have "checked_sum 12 (map length as) = Some (12 + ?l)"
    using checked_sum_Some [of 12 "map length as"] assms(2) by (simp add: sum_list_lengths usize_max_def)
  moreover have "unat (align_up (word_of_nat (12 + ?l)) 2) = 12 + ?l + ?l mod 2"
    using align_2 [of "12 + ?l"] assms(2) by (simp add: mod_add_left_eq [of 12, symmetric] del: of_nat_add)
  moreover obtain m where m: "heap_page_map_size (length as) = Some m" using assms(1) by (auto simp: heap_page_def Let_def split: option.splits)
  moreover have "m = 2 * length as + 6" using m by (auto simp: heap_page_map_size_def split: if_splits)
  ultimately have "12 + ?l + ?l mod 2 + 2 * length as + 6 \<le> 8176"
    using assms(1) by (auto simp: heap_page_def Let_def checked_add_usize_Some split: option.splits if_splits simp del: of_nat_add)
  then have fits: "page_fits ?h as (pad_of ?l)" by (simp add: page_fits_def header_ok_def header_length_def pad_of_def)
  have "page = page_of ?h as (pad_of ?l)" using heap_page_eq [OF fits] assms(1) by simp
  then have "page_laid kind 0 page as" unfolding page_laid_def using fits by (intro exI [of _ ?h] exI [of _ "pad_of ?l"]) (simp add: pad_of_def)
  then show ?thesis by (simp add: heap_laid_def)
qed

text \<open>Values of less than two gibibytes, as the writer checks before it builds a context.\<close>

definition values_bounded :: "properties \<Rightarrow> bool" where
  "values_bounded props \<longleftrightarrow> (\<forall>p\<in>set props. \<forall>bs. serialized (snd p) = Inr bs \<longrightarrow> length bs \<le> MAX_PST_PROPERTY_BYTES)"

lemma length_concat_bound: "\<forall>x\<in>set xs. length x \<le> b \<Longrightarrow> length (concat xs) \<le> length xs * b"
  by (induction xs) auto

lemma distinct_ids_bound:
  assumes "distinct (map fst props)"
  shows "length (props :: properties) \<le> 2 ^ 16"
proof -
  have "length props = card (fst ` set props)" using distinct_card [OF assms] by simp
  also have "\<dots> \<le> card (UNIV :: u16 set)" by (rule card_mono) auto
  finally show ?thesis by (simp add: card_word)
qed

lemma property_context_stored:
  assumes "property_context props = Inr page" "distinct (map fst props)" "values_bounded props"
  shows "\<exists>codes. context_stored [page] (sort_key fst props) codes"
proof -
  let ?props = "sort_key fst props"
  obtain allocs records header where r: "context_records ?props [[], []] [] = Inr (allocs, records)"
    and h: "heap_tree_header_new 2 6 0 0x40 = Inr header"
    and page: "heap_page HeapTypeProperties (allocs[1 := records, 0 := heap_tree_header_write header]) = Inr page"
    using assms(1) by (auto simp: property_context_def of_ltp_def heap_id_new_cases split: sum.splits if_splits)
  have ref: "heap_reference 0x40" by (simp add: heap_reference_def and_exp_eq_0_iff_not_bit mask_eq_exp_minus_1)
  let ?Q = "\<lambda>hid b. \<exists>j<length allocs. Suc (Suc 0) \<le> j \<and> Suc j < 2 ^ 11 \<and> allocs ! j = b \<and> heap_id_new (word_of_nat (Suc j)) 0 = Inr hid"
  from context_records_Inr [OF r] obtain codes xs where x: "allocs = [[], []] @ xs" "records = concat (map record_bytes (zip ?props codes))"
    "list_all2 (\<lambda>p. coded ?Q (snd p)) ?props codes" "length xs \<le> length props" "\<forall>x\<in>set xs. \<exists>p\<in>set props. serialized (snd p) = Inr x"
    by auto
  let ?as = "heap_tree_header_write header # records # xs" and ?rows = "zip ?props codes"
  have as: "allocs[1 := records, 0 := heap_tree_header_write header] = ?as" by (simp add: x(1))
  have n: "length props \<le> 2 ^ 16" using distinct_ids_bound [OF assms(2)] .
  have "length (concat xs) \<le> length xs * MAX_PST_PROPERTY_BYTES" using x(5) assms(3) by (intro length_concat_bound) (auto simp: values_bounded_def)
  also have "\<dots> \<le> 2 ^ 16 * 2 ^ 31" using x(4) n by (intro mult_mono) (auto simp: MAX_PST_PROPERTY_BYTES_def)
  finally have "length (concat xs) \<le> 2 ^ 47" by simp
  moreover have "length records \<le> length ?rows * 8" unfolding x(2) using length_concat_bound [of "map record_bytes ?rows" 8] by simp
  ultimately have "length (concat ?as) < 2 ^ 59" using tree_header_codec(6) [OF h ref] n by simp
  from heap_page_Inr_laid [OF page [unfolded as] this] have laid: "heap_laid HeapTypeProperties [page] [?as]" .
  have find: "heap_find_entry [page] hid = Inr (?as ! j)" if "j < length ?as" "Suc j < 2 ^ 11" "heap_id_new (word_of_nat (Suc j)) 0 = Inr hid" for j hid
    using heap_laid_find [OF laid, of 0 j hid] that by simp
  have "heap_find_entry [page] 0x20 = Inr (heap_tree_header_write header)" using find [of 0] by (simp add: heap_id_new_cases)
  moreover have "heap_find_entry [page] 0x40 = Inr records" using find [of 1] by (simp add: heap_id_new_cases)
  then have "heap_tree_walk [page] read_u16 property_record_read (unat (0 :: u8)) 0x40 = Inr (map row_of ?rows)"
    using rows_of_records [of ?rows] by (simp add: heap_tree_walk.simps x(2))
  ultimately have "heap_tree_entries 2 6 read_u16 property_record_read [page] 0x20 = Inr (map row_of ?rows)" using tree_entries_walk h ref by blast
  moreover have "?Q hid b \<Longrightarrow> heap_find_entry [page] hid = Inr b" for hid b
    using find by (auto simp: x(1) nth_Cons' split: if_splits)
  then have "list_all2 (\<lambda>p. coded (\<lambda>hid b. heap_find_entry [page] hid = Inr b) (snd p)) ?props codes"
    using x(3) by (auto elim!: list_all2_mono coded_mono)
  ultimately show ?thesis using heap_laid_header [OF laid] heap_laid_pages [OF laid] by (auto simp: context_stored_def)
qed

section \<open>Reading a stored context\<close>

text \<open>
  The value the reader returns: an empty value has no allocation and is read as \<open>Null\<close>, a string
  ends at its first zero.
\<close>

definition reader_value :: "writer_value \<Rightarrow> property_value" where
  "reader_value v = (if variable_bytes v = Inr (Some []) then PropNull else terminated (as_reader v))"

definition external :: "writer_value \<Rightarrow> bool" where
  "external v \<longleftrightarrow> (case v of WExternal _ _ \<Rightarrow> True | _ \<Rightarrow> False)"

lemma record_of_heap:
  assumes "inline_value v = None" "code AND mask 5 = 0"
  shows "property_record_of (writer_property_type v) code = RecordHeap code"
proof -
  have "node_id_id_type code = Inr HeapNode" using assms(2) by (simp add: node_id_id_type_def flag_3_mask)
  then show ?thesis using assms(1) by (cases v) (simp_all add: inline_value_def property_record_of_def)
qed

lemma serialized_Inr: "serialized v = Inr bs \<longleftrightarrow> variable_bytes v = Inr (Some bs)"
  by (auto simp: serialized_def of_io_def split: sum.splits option.splits)

lemma ucast_mask_u16: "ucast ((ucast (x :: u16) :: u32) AND 0xFFFF) = x"
proof -
  have m: "(0xFFFF :: u32) = mask 16" by (simp add: mask_eq_exp_minus_1)
  show ?thesis unfolding m by (rule bit_word_eqI) (simp only: bit_simps, auto)
qed

lemma map_of_rev_distinct: "distinct (map fst xs) \<Longrightarrow> map_of (rev xs) = map_of xs"
  by (rule map_of_eqI) (auto simp: rev_map [symmetric])

lemma inline_read:
  assumes "inline_value v = Some code" "\<not> external v"
  shows "\<exists>value. property_record_of (writer_property_type v) code = RecordSmall value \<and>
    small_value (RecordSmall value) (writer_property_type v) = Some (reader_value v)"
  using assms
  by (cases v) (auto simp: inline_value_def external_def property_record_of_def small_value_def reader_value_def variable_bytes_def
      terminated_def as_reader_def ucast_mask_u16 and.assoc split: if_splits)

lemma coded_read:
  assumes "coded (\<lambda>hid b. heap_find_entry (ctx_heap ctx) hid = Inr b) v code" "writer_value_ok v" "\<not> external v"
  shows "read_property S N L buf ctx (snd (row_of ((property_id, v), code))) None pc bc = (Inr (reader_value v), None, pc, bc)"
proof (cases "inline_value v")
  case (Some c)
  then show ?thesis
    using assms inline_read [OF Some assms(3)]
    by (auto simp: coded_def row_of_def read_property_def charge_decoded_def)
next
  case None
  then obtain bs where bs: "variable_bytes v = Inr (Some bs)" "if bs = [] then code = 0 else heap_reference code \<and> heap_find_entry (ctx_heap ctx) code = Inr bs"
    using assms(1) by (auto simp: coded_def serialized_Inr)
  have "code AND mask 5 = 0" using bs(2) by (auto simp: heap_reference_def split: if_splits)
  note r = record_of_heap [OF None this]
  show ?thesis
  proof (cases "bs = []")
    case True
    then show ?thesis using bs r by (simp add: row_of_def read_property_def reader_value_def)
  next
    case False
    then show ?thesis
      using bs r variable_bytes_read [OF bs(1) assms(2)]
      by (simp add: row_of_def read_property_def reader_value_def heap_value_def charge_budget_def charge_decoded_def heap_reference_def)
  qed
qed

lemma coded_not_node:
  assumes "coded P v code" "\<not> external v"
  shows "pr_value (snd (row_of ((property_id, v), code))) \<noteq> RecordNode nid"
proof (cases "inline_value v")
  case (Some c)
  then show ?thesis using assms inline_read [OF Some assms(2)] by (auto simp: coded_def row_of_def)
next
  case None
  then obtain bs where "if bs = [] then code = 0 else heap_reference code \<and> P code bs" using assms(1) by (auto simp: coded_def)
  then have "code AND mask 5 = 0" by (auto simp: heap_reference_def split: if_splits)
  then show ?thesis using record_of_heap [OF None] by (simp add: row_of_def)
qed

text \<open>What the reader finds in the heap of a context.\<close>

definition properties_found :: "heap_node \<Rightarrow> properties \<Rightarrow> bool" where
  "properties_found heap props \<longleftrightarrow> (\<exists>h m.
    heap_header heap = Inr h \<and> hn_client_signature h = HeapTypeProperties \<and>
    (\<forall>sub. context_properties (\<lparr>ctx_sub_node = sub, ctx_heap = heap, ctx_root = hn_user_root h\<rparr> :: u64 property_context) = Inr m) \<and>
    dom m = fst ` set props \<and>
    (\<forall>(property_id, v)\<in>set props. \<exists>r. m property_id = Some r \<and> pr_type r = writer_property_type v \<and>
      (\<exists>code. pr_value r = property_record_of (writer_property_type v) code) \<and>
      (case v of WExternal kind nid \<Rightarrow> pr_value r = property_record_of kind nid
       | _ \<Rightarrow> (\<forall>nid. pr_value r \<noteq> RecordNode nid) \<and>
         (\<forall>(S :: (u64, unicode_block_entry, (unicode_block_entry, u64) page_cache) block_source) N L buf sub pc bc.
           read_property S N L buf \<lparr>ctx_sub_node = sub, ctx_heap = heap, ctx_root = hn_user_root h\<rparr> r None pc bc =
             (Inr (reader_value v), None, pc, bc)))))"

lemma context_stored_found:
  assumes "context_stored heap (sort_key fst props) codes" "distinct (map fst props)" "\<forall>p\<in>set props. writer_value_ok (snd p)"
  shows "properties_found heap props"
proof -
  let ?props = "sort_key fst props"
  let ?rows = "map row_of (zip ?props codes)"
  obtain h where h: "heap_header heap = Inr h" "hn_user_root h = 0x20" "hn_client_signature h = HeapTypeProperties"
    using assms(1) by (auto simp: context_stored_def)
  have cd: "list_all2 (\<lambda>p. coded (\<lambda>hid b. heap_find_entry heap hid = Inr b) (snd p)) ?props codes"
    and ent: "heap_tree_entries 2 6 read_u16 property_record_read heap 0x20 = Inr ?rows" using assms(1) by (auto simp: context_stored_def)
  have len: "length ?props = length codes" using cd by (rule list_all2_lengthD)
  have keys: "map fst ?rows = map fst ?props"
    using len by (intro nth_equalityI) (auto simp: row_of_def split: prod.splits)
  have d: "distinct (map fst ?props)" using assms(2) by (simp add: distinct_map)
  have m: "map_of (rev ?rows) = map_of ?rows" using d keys by (simp add: map_of_rev_distinct)
  have row: "\<exists>code. map_of ?rows property_id = Some (snd (row_of ((property_id, v), code))) \<and> coded (\<lambda>hid b. heap_find_entry heap hid = Inr b) v code"
    if p: "(property_id, v) \<in> set props" for property_id v
  proof -
    obtain i where i: "i < length ?props" "?props ! i = (property_id, v)" using p in_set_conv_nth [of "(property_id, v)" ?props] by auto
    then have "?rows ! i = row_of ((property_id, v), codes ! i)" "i < length ?rows" using len by simp_all
    then have "row_of ((property_id, v), codes ! i) \<in> set ?rows" using nth_mem [of i ?rows] by simp
    then have "(property_id, snd (row_of ((property_id, v), codes ! i))) \<in> set ?rows" by (simp add: row_of_def)
    then have "map_of ?rows property_id = Some (snd (row_of ((property_id, v), codes ! i)))" using map_of_is_SomeI [of ?rows] d keys by simp
    moreover have "coded (\<lambda>hid b. heap_find_entry heap hid = Inr b) v (codes ! i)" using list_all2_nthD [OF cd i(1)] i(2) by simp
    ultimately show ?thesis by blast
  qed
  have "context_properties \<lparr>ctx_sub_node = sub, ctx_heap = heap, ctx_root = hn_user_root h\<rparr> = Inr (map_of ?rows)" for sub :: "u64 option"
    using ent by (simp add: context_properties_def h(2) m)
  moreover have "dom (map_of ?rows) = fst ` set props" using keys by (metis dom_map_of_conv_image_fst list.set_map set_sort)
  moreover have "\<forall>(property_id, v)\<in>set props. \<exists>r. map_of ?rows property_id = Some r \<and> pr_type r = writer_property_type v \<and>
      (\<exists>code. pr_value r = property_record_of (writer_property_type v) code) \<and>
      (case v of WExternal kind nid \<Rightarrow> pr_value r = property_record_of kind nid
       | _ \<Rightarrow> (\<forall>nid. pr_value r \<noteq> RecordNode nid) \<and>
         (\<forall>(S :: (u64, unicode_block_entry, (unicode_block_entry, u64) page_cache) block_source) N L buf sub pc bc.
           read_property S N L buf \<lparr>ctx_sub_node = sub, ctx_heap = heap, ctx_root = hn_user_root h\<rparr> r None pc bc =
             (Inr (reader_value v), None, pc, bc)))"
  proof (clarify)
    fix property_id v assume p: "(property_id, v) \<in> set props"
    obtain code where c: "map_of ?rows property_id = Some (snd (row_of ((property_id, v), code)))"
      "coded (\<lambda>hid b. heap_find_entry heap hid = Inr b) v code" using row [OF p] by blast
    have ok: "writer_value_ok v" using assms(3) p by force
    show "\<exists>r. map_of ?rows property_id = Some r \<and> pr_type r = writer_property_type v \<and>
      (\<exists>code. pr_value r = property_record_of (writer_property_type v) code) \<and>
      (case v of WExternal kind nid \<Rightarrow> pr_value r = property_record_of kind nid
       | _ \<Rightarrow> (\<forall>nid. pr_value r \<noteq> RecordNode nid) \<and>
         (\<forall>(S :: (u64, unicode_block_entry, (unicode_block_entry, u64) page_cache) block_source) N L buf sub pc bc.
           read_property S N L buf \<lparr>ctx_sub_node = sub, ctx_heap = heap, ctx_root = hn_user_root h\<rparr> r None pc bc =
             (Inr (reader_value v), None, pc, bc)))"
    proof (cases "external v")
      case True
      then show ?thesis using c by (auto simp: external_def row_of_def coded_def inline_value_def split: writer_value.splits)
    next
      case False
      have nn: "pr_value (snd (row_of ((property_id, v), code))) \<noteq> RecordNode nid" for nid by (rule coded_not_node [OF c(2) False])
      have "read_property S N L buf \<lparr>ctx_sub_node = sub, ctx_heap = heap, ctx_root = hn_user_root h\<rparr> (snd (row_of ((property_id, v), code))) None pc bc =
          (Inr (reader_value v), None, pc, bc)" for S :: "(u64, unicode_block_entry, (unicode_block_entry, u64) page_cache) block_source" and N L buf sub pc bc
        by (rule coded_read) (use c(2) ok False in simp_all)
      then show ?thesis using c(1) False nn by (intro exI [of _ "snd (row_of ((property_id, v), code))"]) (auto simp: external_def row_of_def split: writer_value.splits)
    qed
  qed
  ultimately show ?thesis unfolding properties_found_def using h(1,3) by blast
qed

end
