(* ===== verification/Writer_Context.thy ===== *)
theory Writer_Context
  imports Writer_Prop
begin

text \<open>
  From properties to the file and back: the data tree that holds the pages of a property context,
  the heap the reader builds from it, and the context a reader finds in the finished file.
\<close>

section \<open>Pages in blocks\<close>

lemma append_page_leaves_leaves:
  "append_page_leaves pages i blocks = Inr r \<Longrightarrow> append_leaves pages i blocks = Inr r \<and> (\<forall>p\<in>set pages. length p \<le> 8176)"
  by (induction pages i blocks arbitrary: r rule: append_page_leaves.induct)
    (auto simp: MAX_DATA_BLOCK_PAYLOAD_def split: if_splits sum.splits prod.splits)

lemma append_page_xblocks_xblocks:
  "append_page_xblocks grps i blocks = Inr r \<Longrightarrow> append_xblocks grps i blocks = Inr r"
  by (induction grps i blocks arbitrary: r rule: append_page_xblocks.induct)
    (auto split: if_splits sum.splits prod.splits option.splits)

lemma append_leaves_length:
  "append_leaves cs i blocks = Inr (leaves, i', blocks') \<Longrightarrow> length blocks' = length blocks + length cs \<and> length leaves = length cs"
  by (induction cs i blocks arbitrary: leaves i' blocks' rule: append_leaves.induct) (auto split: sum.splits prod.splits)

text \<open>The pages below a root: one data block, or one level of data blocks.\<close>

definition pages_in :: "block_spec set \<Rightarrow> u64 \<Rightarrow> bytes list \<Rightarrow> bool" where
  "pages_in A root pages \<longleftrightarrow> (\<exists>page. pages = [page] \<and> leaf_in A root page) \<or> xblock_in A root pages"

lemma append_data_tree_pages_Inr:
  assumes app: "append_data_tree_pages pages (word_of_nat n) [] = Inr (root, next_index, new)"
    and n: "n + 300000 \<le> 2 ^ 62" and m: "length pages \<le> 1021" and ne: "\<forall>p\<in>set pages. 1 \<le> length p"
  shows "fresh_specs n new \<and> specs_ok new \<and> block_subnodes new = [] \<and> next_index = word_of_nat (n + length new) \<and>
    pages_in (set new) root pages \<and> length new \<le> 1022"
proof -
  obtain leaves i1 b1 where l: "append_page_leaves pages (word_of_nat n) [] = Inr (leaves, i1, b1)" and pne: "pages \<noteq> []"
    and rest: "(if length leaves = 1 then Inr (fst (leaves ! 0), i1, b1)
       else (case append_page_xblocks (chunks WRITER_MAX_DATA_TREE_ENTRIES leaves) i1 b1 of Inl e \<Rightarrow> Inl e
         | Inr (xblocks, next_index, blocks) \<Rightarrow>
           append_xxblock ''heap data-tree XBLOCK count'' ''heap data-tree size'' xblocks next_index blocks)) = Inr (root, next_index, new)"
    using app by (auto simp: append_data_tree_pages_def split: if_splits sum.splits)
  have al: "append_leaves pages (word_of_nat n) [] = Inr (leaves, i1, b1)" and le: "\<forall>p\<in>set pages. length p \<le> 8176"
    using append_page_leaves_leaves [OF l] by auto
  have ll: "length b1 = length pages" "length leaves = length pages" using append_leaves_length [OF al] by simp_all
  show ?thesis
  proof (cases "length pages = 1")
    case True
    then obtain p where p: "pages = [p]" by (auto simp: length_Suc_conv)
    then have cut: "cut_ok n pages" using n le ne by (simp add: cut_ok_def)
    have "leaves = zip (bids False n (length pages)) (map length pages)" "i1 = word_of_nat (n + length pages)" "b1 = data_specs n pages"
      using append_leaves_eq [OF value_groups_bounds(2) [OF cut], of "[]"] al by (simp_all add: data_specs_def)
    moreover have "root = fst (leaves ! 0)" "next_index = i1" "new = b1" using rest True ll by simp_all
    moreover have "pages_in (set (data_specs n pages)) (block_bid False n) pages"
      using take_block_id_Inr(2) [of n False] n by (simp add: pages_in_def leaf_in_def p data_specs_def)
    ultimately show ?thesis using data_specs_ok [OF cut] p by (simp add: data_specs_def)
  next
    case False
    then obtain xblocks i2 b2 where x: "append_page_xblocks (chunks 1021 leaves) i1 b1 = Inr (xblocks, i2, b2)"
      and xx: "append_xxblock ''heap data-tree XBLOCK count'' ''heap data-tree size'' xblocks i2 b2 = Inr (root, next_index, new)"
      using rest ll by (auto simp: WRITER_MAX_DATA_TREE_ENTRIES_def split: sum.splits)
    note ax = append_page_xblocks_xblocks [OF x]
    have k: "length (chunks 1021 leaves) = div_ceil (length pages) 1021" by (simp add: length_chunks ll)
    have "0 < length pages" using pne by simp
    then have "0 < length (chunks 1021 leaves)" using ll by (simp add: chunks_eq_Nil_iff del: length_greater_0_conv add: length_greater_0_conv [of "chunks 1021 leaves"]) auto
    then have g: "length (chunks 1021 leaves) = 1"
      using m div_ceil_mult_lt [of 1021 "length pages"] unfolding k by linarith
    have cut: "cut_ok n pages" using n le ne m by (simp add: cut_ok_def)
    have "leaves = zip (bids False n (length pages)) (map length pages)" and i1: "i1 = word_of_nat (n + length pages)" and b1: "b1 = data_specs n pages"
      using append_leaves_eq [OF value_groups_bounds(2) [OF cut], of "[]"] al by (simp_all add: data_specs_def)
    then have gs: "chunks 1021 leaves = sized_groups n pages"
      by (simp add: sized_groups_def value_groups_def chunks_map [symmetric] zip_map2)
    have vg: "length (value_groups n pages) = 1" using g by (simp add: gs sized_groups_def)
    have "\<forall>g\<in>set (sized_groups n pages). group_size g < 2 ^ 32"
      using value_group(2) [OF cut] by (auto simp: sized_groups_def group_size_parts)
    then have "xblocks = zip (xblock_ids n pages) (map (word_of_nat \<circ> group_size) (sized_groups n pages))" and
      i2: "i2 = word_of_nat (n + length pages + 1)" and b2: "b2 = data_specs n pages @ xblock_specs n pages"
      using append_xblocks_eq [of "n + length pages" "sized_groups n pages" b1] value_groups_bounds(3) [OF cut] ax
      by (simp_all add: i1 b1 gs xblock_specs_def xblock_ids_def sized_groups_def vg del: of_nat_add of_nat_Suc)
    then have lx: "length xblocks = 1" and "fst (xblocks ! 0) = xblock_ids n pages ! 0" using vg by (simp_all add: xblock_ids_def sized_groups_def)
    then have r: "root = xblock_ids n pages ! 0" "next_index = i2" "new = b2" using xx lx by (auto simp: append_xxblock_def)
    obtain p where p: "value_groups n pages = [p]" using vg by (auto simp: length_Suc_conv)
    have "xblock_in (set b2) root pages"
      using xblocks_in [OF cut, of "set b2"] concat_value_groups [of n pages] by (simp add: b2 r(1) xblock_ids_def p)
    then show ?thesis
      using fresh_specs_append [OF data_specs_ok(1) [OF cut]] data_specs_ok [OF cut] xblock_specs_ok [OF cut] m vg
      by (simp add: r i2 b2 pages_in_def data_specs_def xblock_specs_def xblock_ids_def sized_groups_def)
  qed
qed

section \<open>The heap of the reader\<close>

text \<open>A heap of at most 1021 pages below a root is read page by page.\<close>

lemma pages_in_heap:
  assumes store: "block_store file H page specs" and pages: "pages_in (set specs) root pages" "length pages \<le> 1021"
    "\<forall>p\<in>set pages. length p \<le> 8176"
  shows "\<exists>pc. heap_node_read (unicode_source (Suc H) file Permute page) (block_id_search_key root) (\<lambda>_. None) = (Inr pages, pc) \<and>
    unicode_lookup_ok H file page pc"
proof -
  let ?S = "unicode_source (Suc H) file Permute page" and ?loc = "unicode_lookup H file page"
  obtain e t blks where t: "?loc (block_id_search_key root) = Inr e" "read_entry_tree ?S e = Inr t" "tree_content ?S ?loc t blks"
    "map db_data blks = pages"
    "\<forall>b. t = DataIntermediate b \<longrightarrow> declared_size t \<le> MAX_MATERIALIZED_DATA_TREE_BYTES \<and>
        (\<forall>es. data_tree_leaves ?S ?loc t = Inr es \<longrightarrow> within_budget MAX_DATA_TREE_ENTRIES t es)"
  proof (cases "xblock_in (set specs) root pages")
    case True
    then obtain ids size where b: "\<lparr>sp_id = root, sp_payload = PayloadDataTree 1 size ids, sp_ref_count = 2\<rparr> \<in> set specs"
      "list_all2 (leaf_in (set specs)) ids pages" "unat size = length (concat pages)" by (auto simp: xblock_in_def)
    obtain e blk where w: "?loc (block_id_search_key root) = Inr e" "read_entry_tree ?S e = Inr (DataIntermediate blk)"
      "dh_level (dt_header blk) = 1" "dh_total_size (dt_header blk) = size" "dt_entries blk = ids"
      by (rule stored_tree [OF store b(1)])
    obtain es blks where l: "collect (leaf_lookup ?loc) ids = Inr es" "collect (leaf_block ?S) es = Inr blks" "map db_data blks = pages"
      using leaves_in_seen [OF store b(2)] by (elim exE conjE)
    have "length (concat pages) \<le> length pages * 8176" using length_concat_le [of pages 8176] pages(3) by simp
    then have "length (concat pages) \<le> MAX_MATERIALIZED_DATA_TREE_BYTES"
      using pages(2) by (simp add: MAX_MATERIALIZED_DATA_TREE_BYTES_def)
    then show thesis
      using w l collect_items [OF l(1), of ?S 1] list_all2_lengthD [OF b(2)] b(3) pages(2)
      by (intro that [of e "DataIntermediate blk" blks])
        (simp_all add: tree_content_def data_tree_leaves_def within_budget_def declared_size_def MAX_DATA_TREE_ENTRIES_def)
  next
    case False
    then obtain p where p: "pages = [p]" "leaf_in (set specs) root p" using pages(1) by (auto simp: pages_in_def)
    from leaf_in_seen [OF store p(2)] obtain e b where e: "leaf_lookup ?loc root = Inr e" "leaf_block ?S e = Inr b" "db_data b = p"
      by (auto simp: leaf_seen_def)
    then have "read_entry_tree ?S e = Inr (DataLeaf b)" by (simp add: usource.leaf_block_Inr)
    then show thesis
      using e p(1) by (intro that [of e "DataLeaf b" "[b]"]) (auto simp: leaf_lookup_def tree_content_def declared_size_def split: if_splits)
  qed
  have "unicode_lookup_ok H file page (\<lambda>_. None)" using store by (simp add: block_store_def)
  from usource.find [OF this, of Permute "block_id_search_key root"]
  obtain pc where pc: "bs_find ?S (block_id_search_key root) (\<lambda>_. None) = (Inr e, pc)" "unicode_lookup_ok H file page pc"
    using t(1) by auto
  have "block_cache_agrees ?S ?loc (\<lambda>_. None)" by (simp add: block_cache_agrees_def)
  from usource.data_tree_blocks_correct [OF pc(2) this, of t] obtain res pc' bc' where
    d: "data_tree_blocks ?S t pc (\<lambda>_. None) = (res, pc', bc')" "unicode_lookup_ok H file page pc'" and
    "\<forall>out. res = Inr out \<longleftrightarrow> tree_content ?S ?loc t out \<and>
      (\<forall>b. t = DataIntermediate b \<longrightarrow> declared_size t \<le> MAX_MATERIALIZED_DATA_TREE_BYTES \<and>
        (\<forall>es. data_tree_leaves ?S ?loc t = Inr es \<longrightarrow> within_budget MAX_DATA_TREE_ENTRIES t es))"
    by (elim exE conjE)
  then have "res = Inr blks" using t(3,5) by simp
  note d = d [unfolded this]
  show ?thesis using d pc(1) t(2,4) by (simp add: heap_node_read_def)
qed

section \<open>A context in a store\<close>

definition properties_ok :: "properties \<Rightarrow> bool" where
  "properties_ok props \<longleftrightarrow> distinct (map fst props) \<and> values_bounded props \<and> (\<forall>p\<in>set props. writer_value_ok (snd p))"

lemma context_stored_pages: "context_stored heap props codes \<Longrightarrow> \<forall>p\<in>set heap. 1 \<le> length p \<and> length p \<le> 8176"
  by (simp add: context_stored_def)

lemma build_property_context_Inr:
  assumes build: "build_property_context props preferred (word_of_nat n) = Inr (root, next_index, new)"
    and ok: "properties_ok props" and n: "n + 300000 \<le> 2 ^ 62" and len: "length props \<le> 1000" and int: "\<not> block_id_is_internal preferred"
  shows "\<exists>heap. properties_found heap props \<and> pages_in (set new) root heap \<and> length heap \<le> 1021 \<and> (\<forall>p\<in>set heap. length p \<le> 8176) \<and>
    specs_ok new \<and> block_subnodes new = [] \<and> length new \<le> 1022 \<and>
    ((\<exists>page. new = [data_spec preferred page] \<and> next_index = word_of_nat n) \<or> (fresh_specs n new \<and> next_index = word_of_nat (n + length new)))"
proof (cases "property_context props")
  case (Inr page)
  obtain codes where st: "context_stored [page] (sort_key fst props) codes"
    using property_context_stored [OF Inr] ok by (auto simp: properties_ok_def)
  have "root = preferred" "next_index = word_of_nat n" "new = [data_spec preferred page]"
    using build Inr by (auto simp: build_property_context_def data_spec_def)
  moreover have "properties_found [page] props" using context_stored_found [OF st] ok by (simp add: properties_ok_def)
  ultimately show ?thesis
    using context_stored_pages [OF st] int by (intro exI [of _ "[page]"]) (simp add: pages_in_def leaf_in_def specs_ok_def data_spec_def)
next
  case (Inl e)
  then obtain pages where p: "property_context_external props = Inr pages"
    and a: "append_data_tree_pages pages (word_of_nat n) [] = Inr (root, next_index, new)"
    using build by (auto simp: build_property_context_def split: if_splits sum.splits)
  obtain codes where st: "context_stored pages (sort_key fst props) codes" and "length pages \<le> length props + 2 * div_ceil (length props) 447 + 1"
    using property_context_external_stored [OF p] by blast
  moreover have "div_ceil (length props) 447 * 447 < length props + 447" by (rule div_ceil_mult_lt) simp
  ultimately have m: "length pages \<le> 1021" using len by linarith
  have "properties_found pages props" using context_stored_found [OF st] ok by (simp add: properties_ok_def)
  then show ?thesis
    using append_data_tree_pages_Inr [OF a n m] m context_stored_pages [OF st] by (intro exI [of _ pages]) auto
qed

lemma ids_ok_build:
  assumes "ids_ok specs" "\<forall>b\<in>set specs. unat (sp_id b) div 4 < n" "preferred \<notin> sp_id ` set specs" "block_id_search_key preferred = preferred"
    and "(\<exists>page. new = [data_spec preferred page]) \<or> fresh_specs n new"
  shows "ids_ok (specs @ new)"
  using assms(5)
proof
  assume "fresh_specs n new"
  then show ?thesis by (rule ids_ok_fresh [OF assms(1,2)])
qed (use assms(1,3,4) in \<open>auto simp: ids_ok_def\<close>)

end
