(* ===== verification/Writer_SubNode.thy ===== *)
theory Writer_SubNode
  imports Writer_Tree
begin

text \<open>
  Sub-node trees from the writer to the reader: what \<open>append_subnode_tree\<close> leaves in the blocks of
  a store, and that the search of \<open>Ndb_SubNode\<close> finds every sub-node in the finished file. The
  writer accepts trees of one or two levels; a search in them visits at most 850 entries and stays within the
  budget of the reader, an enumeration of all entries need not.
\<close>

section \<open>What is appended\<close>

definition subnode_spec :: "u64 \<Rightarrow> u64 subnode_leaf_entry list \<Rightarrow> block_spec" where
  "subnode_spec bid grp = \<lparr>sp_id = bid, sp_payload = PayloadSubnode grp, sp_ref_count = 2\<rparr>"

definition subnode_parent_spec :: "u64 \<Rightarrow> u64 subnode_entry list \<Rightarrow> block_spec" where
  "subnode_parent_spec bid roots = \<lparr>sp_id = bid, sp_payload = IntermediateSubnode 1 roots, sp_ref_count = 2\<rparr>"

lemma sp_id_subnode_spec [simp]: "sp_id (subnode_spec bid grp) = bid" "sp_id (subnode_parent_spec bid roots) = bid"
  by (simp_all add: subnode_spec_def subnode_parent_spec_def)

lemma append_subnode_leaves_eq:
  "n + length gs \<le> 2 ^ 62 \<Longrightarrow> append_subnode_leaves gs (word_of_nat n) blocks =
    Inr (map2 leaf_entry_root gs (bids True n (length gs)), word_of_nat (n + length gs),
      blocks @ map2 subnode_spec (bids True n (length gs)) gs)"
proof (induction gs arbitrary: n blocks)
  case (Cons g gs)
  then show ?case
    using Cons.IH [of "Suc n"] take_block_id_Inr(1) [of n True] by (simp add: subnode_spec_def del: of_nat_Suc)
qed simp

lemma append_subnode_levels_eq:
  assumes "roots \<noteq> []" "length roots \<le> 510" "n < 2 ^ 62"
  shows "append_subnode_levels 1 roots (word_of_nat n) blocks =
    (if length roots = 1 then Inr (sn_block (roots ! 0), word_of_nat n, blocks)
     else Inr (block_bid True n, word_of_nat (Suc n), blocks @ [subnode_parent_spec (block_bid True n) roots]))"
proof (cases "length roots = 1")
  case False
  then have "length roots > 1" using assms(1) by (cases roots) auto
  moreover have "chunks SUBNODE_INTERMEDIATE_CAPACITY roots = [roots]"
    using assms(1,2) by (subst chunks.simps) (simp add: chunks.simps [of _ "[]"] SUBNODE_INTERMEDIATE_CAPACITY_def MAX_DATA_BLOCK_PAYLOAD_def)
  moreover have "checked_add_w (1 :: u8) 1 = Some 2" by (simp add: checked_add_w_def)
  ultimately show ?thesis using take_block_id_Inr(1) [OF assms(3), of True] False
    by (subst append_subnode_levels.simps) (simp add: append_subnode_levels.simps [of 2] subnode_parent_spec_def del: of_nat_Suc)
qed (simp add: append_subnode_levels.simps)

section \<open>The search in a group\<close>

lemma find_group:
  assumes sorted: "sorted_wrt (<) (map k (concat gs))" and i: "i < length gs" "[] \<notin> set gs"
    and node: "k (gs ! i ! 0) \<le> node" "Suc i < length gs \<Longrightarrow> node < k (gs ! Suc i ! 0)"
  shows "List.find (\<lambda>x. k x = (node :: 'k::linorder)) (concat gs) = List.find (\<lambda>x. k x = node) (gs ! i)"
proof -
  have split: "concat gs = concat (take i gs) @ gs ! i @ concat (drop (Suc i) gs)"
    using id_take_nth_drop [OF i(1)] by (metis concat.simps(2) concat_append)
  have ne: "gs ! j \<noteq> []" if "j < length gs" for j using i(2) that nth_mem by metis
  have lo: "k x < node" if "x \<in> set (concat (take i gs))" for x
  proof -
    have "gs ! i ! 0 \<in> set (gs ! i)" using ne [OF i(1)] by simp
    then have "k x < k (gs ! i ! 0)" using sorted that unfolding split by (fastforce simp: sorted_wrt_append)
    then show ?thesis using node(1) by simp
  qed
  have hi: "node < k x" if "x \<in> set (concat (drop (Suc i) gs))" for x
  proof -
    have s: "Suc i < length gs" using that by (cases "Suc i < length gs") auto
    then obtain y ys where y: "gs ! Suc i = y # ys" using ne by (cases "gs ! Suc i") auto
    have "concat (drop (Suc i) gs) = y # ys @ concat (drop (Suc (Suc i)) gs)"
      using Cons_nth_drop_Suc [OF s] y by (metis append_Cons concat.simps(2))
    then have "sorted_wrt (<) (map k (y # ys @ concat (drop (Suc (Suc i)) gs)))" "x \<in> set (y # ys @ concat (drop (Suc (Suc i)) gs))"
      using sorted that unfolding split by (auto simp: sorted_wrt_append)
    then have "x = y \<or> k y < k x" by (simp add: sorted_wrt_append) blast
    then show ?thesis using node(2) [OF s] y by auto
  qed
  have none: "List.find (\<lambda>x. k x = node) xs = None" if "\<forall>x\<in>set xs. k x \<noteq> node" for xs
    using that by (auto simp: find_None_iff)
  have app: "List.find P (xs @ ys) = (case List.find P xs of None \<Rightarrow> List.find P ys | Some x \<Rightarrow> Some x)" for P and xs ys :: "'a list"
    by (induction xs) simp_all
  show ?thesis
    using none [of "concat (take i gs)"] none [of "concat (drop (Suc i) gs)"] lo hi
    unfolding split by (force simp: app split: option.splits)
qed

lemma sorted_group_heads:
  assumes "sorted_wrt (<) (map k (concat gs))" "[] \<notin> set gs" "i < j" "j < length gs"
  shows "k (gs ! i ! 0) < (k (gs ! j ! 0) :: 'k::linorder)"
proof -
  have split: "concat gs = concat (take j gs) @ gs ! j @ concat (drop (Suc j) gs)"
    using id_take_nth_drop [OF assms(4)] by (metis concat.simps(2) concat_append)
  have ne: "gs ! i \<noteq> []" "gs ! j \<noteq> []" using assms(2-4) by (metis nth_mem order.strict_trans)+
  have "gs ! i \<in> set (take j gs)" using assms(3,4) by (auto simp: in_set_conv_nth)
  then have "gs ! i ! 0 \<in> set (concat (take j gs))" using ne(1) by (metis UN_I length_greater_0_conv nth_mem set_concat)
  moreover have "gs ! j ! 0 \<in> set (gs ! j)" using ne(2) by simp
  ultimately show ?thesis using assms(1) unfolding split by (fastforce simp: sorted_wrt_append)
qed

section \<open>Sub-nodes in blocks\<close>

text \<open>The leaf entries below a root: one block, or blocks below one of the next level.\<close>

definition subnodes_in :: "block_spec set \<Rightarrow> u64 \<Rightarrow> u64 subnode_leaf_entry list \<Rightarrow> bool" where
  "subnodes_in A root es \<longleftrightarrow> length es \<le> 340 * 510 \<and>
    (if length es \<le> 340 then subnode_spec root es \<in> A
     else \<exists>ids. subnode_parent_spec root (map2 leaf_entry_root (chunks 340 es) ids) \<in> A \<and> distinct ids \<and>
       list_all2 (\<lambda>bid g. subnode_spec bid g \<in> A) ids (chunks 340 es))"

lemma groups_340:
  assumes "length es \<le> 340 * 510"
  shows "length (chunks 340 es) \<le> 510" "[] \<notin> set (chunks 340 es)" "g \<in> set (chunks 340 es) \<Longrightarrow> length g \<le> 340"
    "length (chunks 340 es) = 1 \<longleftrightarrow> 0 < length es \<and> length es \<le> 340"
proof -
  let ?l = "length es"
  note lt = div_ceil_mult_lt [of 340 ?l]
  show "length (chunks 340 es) \<le> 510" using lt assms by (simp add: length_chunks)
  show "[] \<notin> set (chunks 340 es)" "g \<in> set (chunks 340 es) \<Longrightarrow> length g \<le> 340" using chunks_bounds [of 340 _ es] by auto
  have "0 < ?l \<Longrightarrow> 0 < length (chunks 340 es)" by (simp add: chunks_eq_Nil_iff)
  moreover have "?l \<le> length (chunks 340 es) * 340"
    using length_concat_le [of "chunks 340 es" 340] chunks_bounds [of 340 _ es] by simp
  moreover have "length (chunks 340 es) * 340 < ?l + 340" using lt by (simp add: length_chunks)
  ultimately show "length (chunks 340 es) = 1 \<longleftrightarrow> 0 < ?l \<and> ?l \<le> 340" by linarith
qed

lemma append_subnode_tree_in:
  assumes app: "append_subnode_tree entries (word_of_nat n) blocks = Inr (root, next_index, blocks')" and n: "n + 511 \<le> 2 ^ 62"
    and ok: "\<forall>e\<in>set entries. subnode_leaf_ok e"
  shows "\<exists>new. blocks' = blocks @ new \<and> next_index = word_of_nat (n + length new) \<and> fresh_specs n new \<and> specs_ok new \<and>
    length new \<le> 511 \<and> subnodes_in (set new) root (sort_key sl_node entries)"
proof -
  define gs where "gs = chunks 340 (sort_key sl_node entries)"
  have cap: "SUBNODE_LEAF_CAPACITY = 340" by (simp add: SUBNODE_LEAF_CAPACITY_def MAX_DATA_BLOCK_PAYLOAD_def)
  have ne: "entries \<noteq> []" and len': "length entries \<le> 340 * 510"
    using app by (auto simp: append_subnode_tree_def WRITER_MAX_SUBNODE_TREE_ENTRIES_def SUBNODE_LEAF_CAPACITY_def
        SUBNODE_INTERMEDIATE_CAPACITY_def MAX_DATA_BLOCK_PAYLOAD_def split: if_splits)
  have g: "length gs \<le> 510" using groups_340(1) [of "sort_key sl_node entries"] len' by (simp add: gs_def)
  have gne: "gs \<noteq> []" using ne by (simp add: gs_def chunks_eq_Nil_iff) (metis length_0_conv length_sort)
  have mem: "x \<noteq> [] \<and> length x \<le> 340 \<and> set x \<subseteq> set entries" if "x \<in> set gs" for x
  proof -
    have "concat gs = sort_key sl_node entries" by (simp add: gs_def)
    then have "set x \<subseteq> set entries" using that by (metis set_sort set_concat UN_upper)
    then show ?thesis using chunks_bounds [of 340 x] that by (auto simp: gs_def)
  qed
  let ?ids = "bids True n (length gs)" and ?L = "map2 subnode_spec (bids True n (length gs)) gs"
  let ?roots = "map2 leaf_entry_root gs ?ids"
  have nb: "n + length gs \<le> 2 ^ 62" "n + length gs < 2 ^ 62" using n g by simp_all
  have "append_subnode_leaves gs (word_of_nat n) blocks = Inr (?roots, word_of_nat (n + length gs), blocks @ ?L)"
    by (rule append_subnode_leaves_eq [OF nb(1)])
  then have lv: "append_subnode_levels 1 ?roots (word_of_nat (n + length gs)) (blocks @ ?L) = Inr (root, next_index, blocks')"
    using app by (simp add: append_subnode_tree_def cap gs_def [symmetric] split: if_splits)
  have L: "fresh_specs n ?L" using fresh_specs_map2 [OF nb(1), of subnode_spec True] by simp
  have okL: "specs_ok ?L"
    using mem ok internal_bids [OF nb(1), of True]
    by (force simp: specs_ok_def list_all_iff subnode_spec_def dest: set_zip_leftD set_zip_rightD)
  have zip: "list_all2 (\<lambda>bid g. subnode_spec bid g \<in> set ?L) ?ids gs"
    by (auto simp: list_all2_conv_all_nth set_zip)
  have len: "length ?roots = length gs" by simp
  then have "?roots \<noteq> []" using gne by (metis length_0_conv)
  then have eq: "append_subnode_levels 1 ?roots (word_of_nat (n + length gs)) (blocks @ ?L) =
      (if length gs = 1 then Inr (sn_block (?roots ! 0), word_of_nat (n + length gs), blocks @ ?L)
       else Inr (block_bid True (n + length gs), word_of_nat (Suc (n + length gs)), (blocks @ ?L) @ [subnode_parent_spec (block_bid True (n + length gs)) ?roots]))"
    using append_subnode_levels_eq [OF _ _ nb(2), of ?roots "blocks @ ?L"] g unfolding len by simp
  show ?thesis
  proof (cases "length gs = 1")
    case True
    then obtain x where x: "gs = [x]" by (auto simp: length_Suc_conv)
    have "concat gs = sort_key sl_node entries" by (simp add: gs_def)
    then have "x = sort_key sl_node entries" using x by simp
    then show ?thesis using lv eq L okL x mem [of x] len' by (intro exI [of _ ?L]) (auto simp: leaf_entry_root_def subnodes_in_def)
  next
    case False
    let ?p = "subnode_parent_spec (block_bid True (n + length gs)) ?roots"
    have b: "blocks' = blocks @ ?L @ [?p]" "root = block_bid True (n + length gs)" "next_index = word_of_nat (Suc (n + length gs))"
      using lv eq False by auto
    have "fresh_specs n (?L @ [?p])"
      using fresh_specs_append [OF L, of "[?p]"] nb by (auto simp: fresh_specs_def)
    moreover have "specs_ok (?L @ [?p])"
      using okL g take_block_id_Inr(2) [OF nb(2), of True] by (simp add: specs_ok_def subnode_parent_spec_def)
    moreover have "subnodes_in (set (?L @ [?p])) root (sort_key sl_node entries)"
      using zip len' False gne groups_340(4) [of "sort_key sl_node entries"] distinct_bids [OF nb(1), of True] ne
      unfolding subnodes_in_def b(2)
      by (auto simp: gs_def [symmetric] intro!: exI [of _ ?ids] elim!: list_all2_mono)
    ultimately show ?thesis using b g by (intro exI [of _ "?L @ [?p]"]) auto
  qed
qed

section \<open>The search in the file\<close>

lemma stored_subnode:
  assumes "block_store file H page specs"
  shows "subnode_spec bid es \<in> set specs \<Longrightarrow> \<exists>b. subnode_fetch (unicode_source (Suc H) file Permute page) unicode_subnode_format
      (unicode_lookup H file page) bid = Inr (SubLeaf b) \<and> sb_entries b = es"
    and "subnode_parent_spec bid roots \<in> set specs \<Longrightarrow> \<exists>b. subnode_fetch (unicode_source (Suc H) file Permute page) unicode_subnode_format
      (unicode_lookup H file page) bid = Inr (SubIntermediate b) \<and> sb_entries b = roots"
proof -
  have fetch: "subnode_fetch (unicode_source (Suc H) file Permute page) unicode_subnode_format (unicode_lookup H file page) bid =
      subnode_tree_read unicode_format unicode_subnode_format file (written_ref w) (wb_size w)"
    if "unicode_lookup H file page (block_id_search_key bid) = Inr (bbt_entry w)" for w
    using that by (simp add: subnode_fetch_def unicode_source_def bbt_entry_def unicode_block_entry_new_with_ref_count_def written_ref_def)
  show "\<exists>b. subnode_fetch (unicode_source (Suc H) file Permute page) unicode_subnode_format
      (unicode_lookup H file page) bid = Inr (SubLeaf b) \<and> sb_entries b = es" if s: "subnode_spec bid es \<in> set specs"
    by (rule stored_spec [OF assms s]) (auto simp: subnode_spec_def fetch)
  show "\<exists>b. subnode_fetch (unicode_source (Suc H) file Permute page) unicode_subnode_format
      (unicode_lookup H file page) bid = Inr (SubIntermediate b) \<and> sb_entries b = roots" if s: "subnode_parent_spec bid roots \<in> set specs"
    by (rule stored_spec [OF assms s]) (auto simp: subnode_parent_spec_def fetch)
qed

text \<open>
  The search visits the root and at most one block below it, so its budget is never exceeded.
\<close>

lemma subnodes_in_lookup:
  assumes store: "block_store file H page specs" and sub: "subnodes_in (set specs) root es" and sorted: "sorted_wrt (<) (map sl_node es)"
    and pc: "unicode_lookup_ok H file page pc"
  shows "\<exists>t pc1 pc2. fetch_subnode_tree (unicode_source (Suc H) file Permute page) unicode_subnode_format root pc = (Inr t, pc1) \<and>
    find_leaf_entry_bounded (unicode_source (Suc H) file Permute page) unicode_subnode_format t node pc1 = (subnode_lookup node es, pc2) \<and>
    unicode_lookup_ok H file page pc2"
proof -
  let ?S = "unicode_source (Suc H) file Permute page" and ?N = unicode_subnode_format
  let ?fetch = "subnode_fetch ?S ?N (unicode_lookup H file page)"
  have fetched: "\<exists>pc'. fetch_subnode_tree ?S ?N bid pc = (Inr t, pc') \<and> unicode_lookup_ok H file page pc'"
    if "?fetch bid = Inr t" "unicode_lookup_ok H file page pc" for bid t pc
    using usource.fetch_subnode_tree_spec [OF that(2), of Permute ?N bid] that(1) by auto
  have leaf: "subnode_descend ?S ?N (SubLeaf b) node pc depth budget = (subnode_lookup node (sb_entries b), pc)"
    if "depth \<le> 1" "length (sb_entries b) \<le> 340" "nb_visited_entries budget \<le> 510" for b depth budget pc
    using that by (subst subnode_descend.simps)
      (auto simp: nb_observe_tree_def checked_add_usize_def usize_max_def subnode_entry_count_def subnode_lookup_def
        MAX_SUBNODE_TREE_DEPTH_def MAX_SUBNODE_TREE_ENTRIES_def split: option.splits)
  define gs where "gs = chunks 340 es"
  have esl: "length es \<le> 340 * 510" using sub by (simp add: subnodes_in_def)
  note gb = groups_340 [OF esl, folded gs_def]
  have cat: "concat gs = es" by (simp add: gs_def)
  from sub consider (one) "subnode_spec root es \<in> set specs" "length es \<le> 340"
    | (two) ids where "subnode_parent_spec root (map2 leaf_entry_root gs ids) \<in> set specs"
      "list_all2 (\<lambda>bid g. subnode_spec bid g \<in> set specs) ids gs"
    by (auto simp: subnodes_in_def gs_def split: if_splits)
  then show ?thesis
  proof cases
    case one
    obtain b where b: "?fetch root = Inr (SubLeaf b)" "sb_entries b = es" using stored_subnode(1) [OF store one(1)] by blast
    show ?thesis using fetched [OF b(1) pc] leaf [of 0 b subnode_budget_default] b(2) one(2)
      by (auto simp: find_leaf_entry_bounded_def subnode_budget_default_def)
  next
    case two
    let ?roots = "map2 leaf_entry_root gs ids"
    obtain b where b: "?fetch root = Inr (SubIntermediate b)" "sb_entries b = ?roots" using stored_subnode(2) [OF store two(1)] by blast
    obtain pc1 where pc1: "fetch_subnode_tree ?S ?N root pc = (Inr (SubIntermediate b), pc1)" "unicode_lookup_ok H file page pc1"
      using fetched [OF b(1) pc] by blast
    have len: "length ids = length gs" using list_all2_lengthD [OF two(2)] .
    have key: "sn_node (?roots ! i) = sl_node (gs ! i ! 0)" "sn_block (?roots ! i) = ids ! i" if "i < length gs" for i
      using that len by (simp_all add: leaf_entry_root_def)
    note ne = gb(2)
    define budget1 where "budget1 = subnode_budget_default\<lparr>nb_visited_entries := length gs\<rparr>"
    have obs: "nb_observe_tree 0 (subnode_entry_count (SubIntermediate b)) subnode_budget_default = Inr budget1"
      using gb(1) len by (simp add: nb_observe_tree_def subnode_entry_count_def b(2) subnode_budget_default_def checked_add_usize_def usize_max_def
          MAX_SUBNODE_TREE_ENTRIES_def budget1_def)
    define index where "index = partition_point (\<lambda>entry. sn_node entry \<le> node) ?roots"
    have idx: "index \<le> length gs" using partition_point_le [of _ ?roots] len by (simp add: index_def)
    have "sl_node (gs ! i ! 0) \<le> sl_node (gs ! j ! 0)" if "i < j" "j < length gs" for i j
      using sorted_group_heads [OF sorted [folded cat] ne that] by simp
    then have part: "partitioned (\<lambda>entry. sn_node entry \<le> node) ?roots"
      using key len unfolding partitioned_def by (metis (no_types, lifting) length_map length_zip min.idem order.strict_trans order.trans)
    show ?thesis
    proof (cases "index = 0")
      case True
      then have above: "node < sl_node (gs ! j ! 0)" if "j < length gs" for j
        using partition_point_ge [OF part, of j] that len key(1) [OF that] by (simp add: index_def not_le)
      have "List.find (\<lambda>e. sl_node e = node) es = None"
      proof (cases gs)
        case (Cons g gs')
        then obtain y ys where y: "g = y # ys" using ne by (cases g) auto
        then obtain zs where "es = y # zs" using cat Cons by auto
        then have "\<forall>x\<in>set es. x = y \<or> sl_node y < sl_node x" using sorted by simp
        then show ?thesis using above [of 0] Cons y by (auto simp: find_None_iff)
      qed (use cat in simp)
      then have "subnode_lookup node es = Inl (NdbIo (SubNodeNotFound node))" by (simp add: subnode_lookup_def)
      then show ?thesis using pc1 obs True b(2)
        by (auto simp: find_leaf_entry_bounded_def subnode_descend.simps [of _ _ "SubIntermediate b"] index_def [symmetric] Let_def)
    next
      case False
      let ?i = "index - 1"
      have i: "?i < length gs" using False idx by simp
      have "sn_node (?roots ! ?i) \<le> node" using partition_point_prev [of "\<lambda>entry. sn_node entry \<le> node" ?roots] False by (simp add: index_def)
      moreover have "node < sn_node (?roots ! Suc ?i)" if "Suc ?i < length gs"
        using partition_point_ge [OF part, of "Suc ?i"] that len False by (simp add: index_def not_le)
      ultimately have "List.find (\<lambda>e. sl_node e = node) es = List.find (\<lambda>e. sl_node e = node) (gs ! ?i)"
        using find_group [OF sorted [folded cat] i ne, of node] key(1) i by (simp add: cat)
      then have lk: "subnode_lookup node es = subnode_lookup node (gs ! ?i)" by (simp add: subnode_lookup_def)
      have g: "subnode_spec (ids ! ?i) (gs ! ?i) \<in> set specs" "length (gs ! ?i) \<le> 340" using list_all2_nthD2 [OF two(2) i] gb(3) i by simp_all
      obtain c where c: "?fetch (ids ! ?i) = Inr (SubLeaf c)" "sb_entries c = gs ! ?i" using stored_subnode(1) [OF store g(1)] by blast
      obtain pc2 where pc2: "fetch_subnode_tree ?S ?N (ids ! ?i) pc1 = (Inr (SubLeaf c), pc2)" "unicode_lookup_ok H file page pc2"
        using fetched [OF c(1) pc1(2)] by blast
      define budget2 where "budget2 = budget1\<lparr>nb_visited_blocks := {ids ! ?i}\<rparr>"
      have d: "nb_descend_to (ids ! ?i) budget1 = Inr budget2" by (simp add: nb_descend_to_def budget1_def budget2_def subnode_budget_default_def)
      have "subnode_descend ?S ?N (SubLeaf c) node pc2 1 budget2 = (subnode_lookup node (gs ! ?i), pc2)"
        using leaf [of 1 c budget2 pc2] c(2) g(2) gb(1) by (simp add: budget2_def budget1_def)
      then have "find_leaf_entry_bounded ?S ?N (SubIntermediate b) node pc1 = (subnode_lookup node es, pc2)"
        using obs d pc2(1) False i len key(2) [OF i] idx
        by (simp add: find_leaf_entry_bounded_def subnode_descend.simps [of _ _ "SubIntermediate b"] index_def [symmetric] b(2) Let_def lk)
      then show ?thesis using pc1(1) pc2(2) by blast
    qed
  qed
qed

text \<open>
  An enumeration visits every entry, those of the root included.
\<close>

definition subnode_visits :: "u64 subnode_leaf_entry list \<Rightarrow> nat" where
  "subnode_visits es = length es + (if length es \<le> 340 then 0 else div_ceil (length es) 340)"

lemma collect_walk_leaves:
  assumes "block_store file H page specs" "list_all2 (\<lambda>bid g. subnode_spec bid g \<in> set specs) ids gs"
  shows "collect (walk_child (subnode_fetch (unicode_source (Suc H) file Permute page) unicode_subnode_format (unicode_lookup H file page)) (Suc h)) ids =
    Inr (map2 (\<lambda>bid g. (g, [bid], length g)) ids gs)"
  using assms(2)
proof (induction rule: list_all2_induct)
  case (Cons bid ids g gs)
  then show ?case using stored_subnode(1) [OF assms(1) Cons(1)] by (auto simp: walk_child_def)
qed simp

lemma subnodes_in_walk:
  assumes store: "block_store file H page specs" and sub: "subnodes_in (set specs) root es"
  shows "\<exists>t ids. subnode_fetch (unicode_source (Suc H) file Permute page) unicode_subnode_format (unicode_lookup H file page) root = Inr t \<and>
    subnode_walk (subnode_fetch (unicode_source (Suc H) file Permute page) unicode_subnode_format (unicode_lookup H file page))
      (Suc MAX_SUBNODE_TREE_DEPTH) t = Inr (es, ids, subnode_visits es) \<and> distinct ids"
proof (cases "length es \<le> 340")
  case True
  then show ?thesis using stored_subnode(1) [OF store, of root es] sub by (auto simp: subnodes_in_def subnode_visits_def)
next
  case False
  define gs where "gs = chunks 340 es"
  from False sub obtain ids where i: "subnode_parent_spec root (map2 leaf_entry_root gs ids) \<in> set specs" "distinct ids"
    "list_all2 (\<lambda>bid g. subnode_spec bid g \<in> set specs) ids gs" by (auto simp: subnodes_in_def gs_def)
  have len: "length ids = length gs" using list_all2_lengthD [OF i(3)] .
  obtain b where b: "subnode_fetch (unicode_source (Suc H) file Permute page) unicode_subnode_format (unicode_lookup H file page) root = Inr (SubIntermediate b)"
    "sb_entries b = map2 leaf_entry_root gs ids" using stored_subnode(2) [OF store i(1)] by blast
  have blocks: "map sn_block (sb_entries b) = ids" using len by (auto simp: b(2) leaf_entry_root_def intro!: nth_equalityI)
  have parts: "map fst (map2 (\<lambda>bid g. (g, [bid], length g)) ids gs) = gs"
    "map (fst \<circ> snd) (map2 (\<lambda>bid g. (g, [bid], length g)) ids gs) = map (\<lambda>bid. [bid]) ids"
    "map (snd \<circ> snd) (map2 (\<lambda>bid g. (g, [bid], length g)) ids gs) = map length gs"
    using len by (auto intro!: nth_equalityI)
  have "concat gs = es" "sum_list (map length gs) = length es" by (simp_all add: gs_def length_concat [symmetric])
  moreover have "length (sb_entries b) = div_ceil (length es) 340" using len by (simp add: b(2) gs_def length_chunks)
  moreover have "MAX_SUBNODE_TREE_DEPTH = Suc 31" by (simp add: MAX_SUBNODE_TREE_DEPTH_def)
  ultimately show ?thesis
    using b(1) collect_walk_leaves [OF store i(3), of 31] i(2) False
    by (simp add: subnode_walk_intermediate blocks parts subnode_visits_def add.commute del: subnode_walk.simps map_map)
qed

lemma sorted_distinct_nodes: "distinct (map sl_node entries) \<Longrightarrow> sorted_wrt (<) (map sl_node (sort_key sl_node entries))"
  by (simp add: strict_sorted_iff distinct_map)

section \<open>Properties\<close>

text \<open>
  C7. Sub-nodes from the writer to the reader: a tree for sub-nodes with distinct identifiers, of any number the
  writer accepts, is added to the blocks of a store. Finalising the store succeeds, and in the file it gives, the
  search for a sub-node returns exactly its entry, or the error that there is none. The
  enumeration of all sub-nodes returns them in order when it visits at most 4096 entries, and
  fails for every larger tree, although the writer builds trees of up to 173400 entries.
\<close>

theorem subnode_tree_written:
  assumes stream: "stream_ok file cursor specs written"
    and blocks: "list_all (\<lambda>b. payload_ok (sp_id b) (sp_payload b)) blocks" "\<forall>i. \<not> interrupted i"
      "length specs + length blocks + 511 \<le> 2 ^ 24" "ids_ok (specs @ blocks)"
    and nodes: "nodes \<noteq> []" "length nodes \<le> 2 ^ 22" "list_all unicode_node_entry_ok nodes"
      "sorted_wrt (<) (map unicode_node_entry_key nodes)"
    and ids: "\<forall>b\<in>set (specs @ blocks). unat (sp_id b) div 4 < n" "n \<le> 2 ^ 61"
    and entries: "distinct (map sl_node entries)" "\<forall>e\<in>set entries. subnode_leaf_ok e"
    and build: "append_subnode_tree entries (word_of_nat n) blocks = Inr (root, next_index, blocks')"
      "nid_counters nodes blocks' streamed_subnodes = Inr nids"
  shows "\<exists>projected file' h H page t pc.
    projected_finalized_file_eof cursor (length written) blocks' (length nodes) = Inr projected \<and>
    finalize_store interrupted file cursor written streamed_subnodes blocks' nodes next_index projected = Inr file' \<and>
    unicode_header_read file' = Inr (h, drop 564 file') \<and>
    unicode_block_btree_read file' (root_block_btree (uh_root h)) = Inr page \<and>
    fetch_subnode_tree (unicode_source (Suc H) file' Permute page) unicode_subnode_format root (\<lambda>_. None) = (Inr t, pc) \<and>
    (\<forall>node. \<exists>pc'. find_leaf_entry_bounded (unicode_source (Suc H) file' Permute page) unicode_subnode_format t node pc =
      (subnode_lookup node (sort_key sl_node entries), pc')) \<and>
    (\<exists>res pc'. subnode_entries (unicode_source (Suc H) file' Permute page) unicode_subnode_format t pc = (res, pc') \<and>
      (if subnode_visits entries \<le> 4096 then res = Inr (sort_key sl_node entries) else (\<exists>e. res = Inl e)))"
proof -
  let ?es = "sort_key sl_node entries"
  have n: "n + 511 \<le> 2 ^ 62" using ids(2) by simp
  obtain new where new: "blocks' = blocks @ new" "next_index = word_of_nat (n + length new)" "fresh_specs n new" "specs_ok new"
    "length new \<le> 511" "subnodes_in (set new) root ?es"
    using append_subnode_tree_in [OF build(1) n entries(2)] by blast
  have "new \<noteq> []" using new(6) by (auto simp: subnodes_in_def split: if_splits)
  then have all: "list_all (\<lambda>b. payload_ok (sp_id b) (sp_payload b)) blocks'" "\<forall>i<length blocks'. \<not> interrupted i"
      "specs @ blocks' \<noteq> []" "length specs + length blocks' \<le> 2 ^ 24" "ids_ok (specs @ blocks')"
    using blocks new ids_ok_fresh [OF blocks(4) ids(1) new(3)] by (auto simp: specs_ok_def)
  have "next_index \<le> MAX_UNICODE_BLOCK_INDEX"
    using ids(2) new(2,5) by (simp add: word_le_nat_alt max_index_values unsigned_of_nat take_bit_nat_eq_self del: of_nat_add)
  from finalize_store_correct [OF stream all nodes this build(2)]
  obtain projected file' h H page where
    f: "projected_finalized_file_eof cursor (length written) blocks' (length nodes) = Inr projected"
      "finalize_store interrupted file cursor written streamed_subnodes blocks' nodes next_index projected = Inr file'"
      "unicode_header_read file' = Inr (h, drop 564 file')" "unicode_block_btree_read file' (root_block_btree (uh_root h)) = Inr page"
      "block_store file' H page (specs @ blocks')" by (elim exE conjE)
  have store: "block_store file' H page new" by (rule block_store_subset [OF f(5)]) (auto simp: new(1))
  let ?S = "unicode_source (Suc H) file' Permute page"
  have inv: "unicode_lookup_ok H file' page (\<lambda>_. None)" using store by (simp add: block_store_def)
  obtain t ids where t: "subnode_fetch ?S unicode_subnode_format (unicode_lookup H file' page) root = Inr t"
    "subnode_walk (subnode_fetch ?S unicode_subnode_format (unicode_lookup H file' page)) (Suc MAX_SUBNODE_TREE_DEPTH) t =
      Inr (?es, ids, subnode_visits ?es)" "distinct ids" using subnodes_in_walk [OF store new(6)] by blast
  obtain pc where pc: "fetch_subnode_tree ?S unicode_subnode_format root (\<lambda>_. None) = (Inr t, pc)" "unicode_lookup_ok H file' page pc"
    using usource.fetch_subnode_tree_spec [OF inv, of Permute unicode_subnode_format root] t(1) by auto
  have find: "\<exists>pc'. find_leaf_entry_bounded ?S unicode_subnode_format t node pc = (subnode_lookup node ?es, pc')" for node
    using subnodes_in_lookup [OF store new(6) sorted_distinct_nodes [OF entries(1)] inv, of node] pc(1) by auto
  obtain res pc' where e: "subnode_entries ?S unicode_subnode_format t pc = (res, pc')"
    "\<forall>out. res = Inr out \<longleftrightarrow> (\<exists>r. subnode_walk (subnode_fetch ?S unicode_subnode_format (unicode_lookup H file' page))
      (Suc MAX_SUBNODE_TREE_DEPTH) t = Inr (out, r) \<and> subnode_within r)"
    using usource.subnode_entries_correct [OF pc(2), of Permute unicode_subnode_format t] by blast
  have "subnode_visits ?es = subnode_visits entries" by (simp add: subnode_visits_def)
  then have "if subnode_visits entries \<le> 4096 then res = Inr ?es else (\<exists>e. res = Inl e)"
    using e(2) t(2,3) by (cases res) (auto simp: subnode_within_def MAX_SUBNODE_TREE_ENTRIES_def)
  then show ?thesis using f(1-4) pc(1) find e(1) by blast
qed

definition sample_subnode :: "u64 subnode_leaf_entry" where
  "sample_subnode = \<lparr>sl_node = 0x671, sl_block = 4, sl_sub_node = None\<rparr>"

theorem subnode_tree_written_witness:
  "\<exists>root next_index blocks' projected file' h H page t pc.
    append_subnode_tree [sample_subnode] 2 [sample_spec] = Inr (root, next_index, blocks') \<and>
    projected_finalized_file_eof 0x4800 0 blocks' 1 = Inr projected \<and>
    finalize_store (\<lambda>_. False) [] 0x4800 [] [] blocks' [sample_entry] next_index projected = Inr file' \<and>
    unicode_header_read file' = Inr (h, drop 564 file') \<and>
    unicode_block_btree_read file' (root_block_btree (uh_root h)) = Inr page \<and>
    fetch_subnode_tree (unicode_source (Suc H) file' Permute page) unicode_subnode_format root (\<lambda>_. None) = (Inr t, pc) \<and>
    (\<exists>pc'. find_leaf_entry_bounded (unicode_source (Suc H) file' Permute page) unicode_subnode_format t 0x671 pc = (Inr sample_subnode, pc')) \<and>
    (\<exists>pc'. subnode_entries (unicode_source (Suc H) file' Permute page) unicode_subnode_format t pc = (Inr [sample_subnode], pc'))"
proof -
  have a: "append_subnode_tree [sample_subnode] (word_of_nat 2) [sample_spec] =
      Inr (block_bid True 2, word_of_nat 3, [sample_spec, subnode_spec (block_bid True 2) [sample_subnode]])"
    using append_subnode_leaves_eq [of 2 "[[sample_subnode]]" "[sample_spec]"]
    by (simp add: append_subnode_tree_def WRITER_MAX_SUBNODE_TREE_ENTRIES_def SUBNODE_LEAF_CAPACITY_def SUBNODE_INTERMEDIATE_CAPACITY_def
        MAX_DATA_BLOCK_PAYLOAD_def chunks.simps [of _ "[sample_subnode]"] chunks.simps [of _ "[]"] append_subnode_levels.simps [of _ "[_]"] leaf_entry_root_def)
  have "stream_ok [] 0x4800 [] []" by (simp add: stream_ok_def)
  moreover have "payload_ok (sp_id sample_spec) (sp_payload sample_spec)" "ids_ok [sample_spec]" "unat (sp_id sample_spec) div 4 < 2"
    by (simp_all add: sample_spec_def block_id_is_internal_def ids_ok_def block_id_search_key_def)
  moreover have "unicode_node_entry_ok sample_entry"
    by (simp add: sample_entry_def unicode_node_entry_new_def unicode_node_entry_ok_def)
  moreover have "subnode_leaf_ok sample_subnode" by (simp add: sample_subnode_def subnode_leaf_ok_def)
  moreover obtain nids where "nid_counters [sample_entry] [sample_spec, subnode_spec (block_bid True 2) [sample_subnode]] [] = Inr nids"
    by (simp add: nid_counters_def sample_entry_def unicode_node_entry_new_def sample_spec_def update_nid_counter_def subnode_spec_def sample_subnode_def
        node_id_id_type_def node_id_type_try_from_def node_id_type_usize_def Let_def node_id_index_def checked_add_w_def)
  moreover have "subnode_visits [sample_subnode] \<le> 4096" by (simp add: subnode_visits_def)
  moreover have "subnode_lookup 0x671 (sort_key sl_node [sample_subnode]) = Inr sample_subnode" by (simp add: subnode_lookup_def sample_subnode_def)
  moreover have "sort_key sl_node [sample_subnode] = [sample_subnode]" by simp
  ultimately have "\<exists>projected file' h H page t pc.
      projected_finalized_file_eof 0x4800 (length ([] :: written_block list)) [sample_spec, subnode_spec (block_bid True 2) [sample_subnode]] (length [sample_entry]) = Inr projected \<and>
      finalize_store (\<lambda>_. False) [] 0x4800 [] [] [sample_spec, subnode_spec (block_bid True 2) [sample_subnode]] [sample_entry] (word_of_nat 3) projected = Inr file' \<and>
      unicode_header_read file' = Inr (h, drop 564 file') \<and>
      unicode_block_btree_read file' (root_block_btree (uh_root h)) = Inr page \<and>
      fetch_subnode_tree (unicode_source (Suc H) file' Permute page) unicode_subnode_format (block_bid True 2) (\<lambda>_. None) = (Inr t, pc) \<and>
      (\<forall>node. \<exists>pc'. find_leaf_entry_bounded (unicode_source (Suc H) file' Permute page) unicode_subnode_format t node pc =
        (subnode_lookup node [sample_subnode], pc')) \<and>
      (\<exists>res pc'. subnode_entries (unicode_source (Suc H) file' Permute page) unicode_subnode_format t pc = (res, pc') \<and>
        res = Inr [sample_subnode])"
    using subnode_tree_written [of "[]" "0x4800" "[]" "[]" "[sample_spec]" "\<lambda>_. False" "[sample_entry]" 2 "[sample_subnode]", OF _ _ _ _ _ _ _ _ _ _ _ _ _ a] by simp
  then show ?thesis
    using a \<open>subnode_lookup 0x671 _ = _\<close> by simp metis
qed

end
