(* ===== verification/Writer_Large.thy ===== *)
theory Writer_Large
  imports Writer_Context Writer_SubNode
begin

text \<open>
  Large values of a property context: the writer moves them into sub-nodes, the reader
  follows the sub-node of a record to its data tree. The theorems compose the move, the context,
  the sub-node tree and the finished file.
\<close>

section \<open>Reading to the end\<close>

lemma reader_run_step:
  assumes run: "\<forall>ns. \<exists>r'. reader_run S ns r = (Inr (take (sum_list ns) c), r')"
  obtains r' where "data_tree_reader_read S n r = (Inr (take n c), r')" "\<forall>ns. \<exists>r''. reader_run S ns r' = (Inr (take (sum_list ns) (drop n c)), r'')"
proof -
  obtain r' where r': "data_tree_reader_read S n r = (Inr (take n c), r')"
    using run [rule_format, of "[n]"] by (auto split: sum.splits prod.splits)
  have "\<exists>r''. reader_run S ns r' = (Inr (take (sum_list ns) (drop n c)), r'')" for ns
    using run [rule_format, of "n # ns"] r' by (auto simp: take_add split: sum.splits prod.splits)
  then show thesis using that r' by blast
qed

lemma read_to_end_run:
  assumes "0 < buf" "\<forall>ns. \<exists>r'. reader_run S ns r = (Inr (take (sum_list ns) c), r')"
  shows "read_to_end S buf r = Inr c"
  using assms(2)
proof (induction c arbitrary: r rule: length_induct)
  case (1 c)
  obtain r' where r': "data_tree_reader_read S buf r = (Inr (take buf c), r')"
    "\<forall>ns. \<exists>r''. reader_run S ns r' = (Inr (take (sum_list ns) (drop buf c)), r'')" by (rule reader_run_step [OF 1(2)])
  show ?case
  proof (cases "c = []")
    case False
    then have "length (drop buf c) < length c" using assms(1) by simp
    then have "read_to_end S buf r' = Inr (drop buf c)" using 1(1) r'(2) by blast
    then show ?thesis using r'(1) False assms(1) by (subst read_to_end.simps) simp
  qed (use r'(1) in \<open>subst read_to_end.simps, simp\<close>)
qed

lemma identity_loop_run:
  assumes "\<forall>ns. \<exists>r'. reader_run S ns r = (Inr (take (sum_list ns) c), r')" "len + length c \<le> usize_max"
  shows "identity_loop S r hashed len = Inr (hashed @ c, len + length c)"
  using assms
proof (induction c arbitrary: r hashed len rule: length_induct)
  case (1 c)
  obtain r' where r': "data_tree_reader_read S 8192 r = (Inr (take 8192 c), r')"
    "\<forall>ns. \<exists>r''. reader_run S ns r' = (Inr (take (sum_list ns) (drop 8192 c)), r'')" by (rule reader_run_step [OF 1(2)])
  show ?case
  proof (cases "c = []")
    case False
    let ?t = "take 8192 c" and ?d = "drop 8192 c"
    have len: "length c = length ?t + length ?d" by simp
    have "length ?d < length c" using False by simp
    moreover have "len + length ?t + length ?d \<le> usize_max" using 1(3) len by linarith
    ultimately have "identity_loop S r' (hashed @ ?t) (len + length ?t) = Inr ((hashed @ ?t) @ ?d, len + length ?t + length ?d)"
      by (intro 1(1) [rule_format] r'(2) [rule_format])
    moreover have "checked_add_usize len (length ?t) = Some (len + length ?t)" using 1(3) by (simp add: checked_add_usize_Some)
    moreover have "?t \<noteq> []" using False by simp
    moreover have "len + length ?t + length ?d = len + length c" using len by linarith
    ultimately show ?thesis using r'(1) by (subst identity_loop.simps) simp
  qed (use r'(1) in \<open>subst identity_loop.simps, simp\<close>)
qed

section \<open>A value in a sub-node\<close>

text \<open>The sub-nodes and their values, in a set of blocks.\<close>

definition subnode_holds :: "block_spec set \<Rightarrow> u64 \<Rightarrow> u64 subnode_leaf_entry list \<Rightarrow> node_id \<Rightarrow> bytes \<Rightarrow> bool" where
  "subnode_holds A root es nid bs \<longleftrightarrow> subnodes_in A root es \<and> sorted_wrt (<) (map sl_node es) \<and>
    (\<exists>e\<in>set es. sl_node e = nid \<and> value_in A (sl_block e) bs)"

lemma subnode_lookup_member:
  assumes "sorted_wrt (<) (map sl_node es)" "e \<in> set es"
  shows "subnode_lookup (sl_node e) es = Inr e"
proof -
  have "distinct (map sl_node es)" using assms(1) by (simp add: strict_sorted_iff)
  then have "List.find (\<lambda>x. sl_node x = sl_node e) es = Some e"
    using assms(2) by (induction es) (auto simp: rev_image_eqI)
  then show ?thesis by (simp add: subnode_lookup_def)
qed

lemma find_value_block_spec:
  assumes store: "block_store file H page specs" and sub: "subnode_holds (set specs) root es nid bs" "ctx_sub_node ctx = Some root"
    and pc: "unicode_lookup_ok H file page pc"
  shows "\<exists>vroot e pc'. value_in (set specs) vroot bs \<and> unicode_lookup H file page (block_id_search_key vroot) = Inr e \<and>
    find_value_block (unicode_source (Suc H) file Permute page) unicode_subnode_format ctx nid pc = (Inr e, pc') \<and> unicode_lookup_ok H file page pc'"
proof -
  let ?S = "unicode_source (Suc H) file Permute page"
  obtain s where s: "s \<in> set es" "sl_node s = nid" "value_in (set specs) (sl_block s) bs" using sub(1) by (auto simp: subnode_holds_def)
  have in': "subnodes_in (set specs) root es" "sorted_wrt (<) (map sl_node es)" using sub(1) by (simp_all add: subnode_holds_def)
  from subnodes_in_lookup [OF store in' pc, of nid] obtain t pc1 pc2 where
    t: "fetch_subnode_tree ?S unicode_subnode_format root pc = (Inr t, pc1)"
      "find_leaf_entry_bounded ?S unicode_subnode_format t nid pc1 = (subnode_lookup nid es, pc2)" "unicode_lookup_ok H file page pc2" by blast
  have lk: "subnode_lookup nid es = Inr s" using subnode_lookup_member [OF in'(2) s(1)] s(2) by simp
  obtain e where e: "unicode_lookup H file page (block_id_search_key (sl_block s)) = Inr e"
    using value_in_readable [OF store s(3) order.refl] by blast
  obtain pc3 where "bs_find ?S (block_id_search_key (sl_block s)) pc2 = (Inr e, pc3)" "unicode_lookup_ok H file page pc3"
    using usource.find [OF t(3), of Permute "block_id_search_key (sl_block s)"] e by auto
  then show ?thesis using s(3) e t lk sub(2) by (intro exI [of _ "sl_block s"]) (simp add: find_value_block_def subnode_find_entry_def)
qed

text \<open>Up to 64 MiB the value is read in one piece; its identity is streamed at any size.\<close>

definition cache_ok ::
  "nat \<Rightarrow> bytes \<Rightarrow> (unicode_block_entry, u64) btree_root \<Rightarrow> (unicode_block_entry, u64) page_cache \<Rightarrow> u64 block_cache \<Rightarrow> bool" where
  "cache_ok H file page pc bc \<longleftrightarrow> unicode_lookup_ok H file page pc \<and>
    block_cache_agrees (unicode_source (Suc H) file Permute page) (unicode_lookup H file page) bc"

lemma subnode_value_read:
  assumes store: "block_store file H page specs" and sub: "subnode_holds (set specs) root es nid bs" "ctx_sub_node ctx = Some root"
    and cache: "cache_ok H file page pc bc"
    and len: "length bs \<le> 64 * 1024 * 1024" and buf: "0 < buf" and v: "property_value_read kind bs = Inr v"
    and budget: "\<forall>b. budget = Some b \<longrightarrow> b + length bs \<le> 64 * 1024 * 1024"
  shows "\<exists>pc' bc'. subnode_value (unicode_source (Suc H) file Permute page) unicode_subnode_format buf ctx nid kind budget pc bc =
    (Inr (length bs, v), map_option (\<lambda>b. b + length bs) budget, pc', bc') \<and> cache_ok H file page pc' bc'"
proof -
  let ?S = "unicode_source (Suc H) file Permute page" and ?loc = "unicode_lookup H file page"
  have pc: "unicode_lookup_ok H file page pc" and bc: "block_cache_agrees ?S ?loc bc" using cache by (simp_all add: cache_ok_def)
  obtain vroot e pc1 where e: "value_in (set specs) vroot bs" "?loc (block_id_search_key vroot) = Inr e"
    "find_value_block ?S unicode_subnode_format ctx nid pc = (Inr e, pc1)" "unicode_lookup_ok H file page pc1"
    using find_value_block_spec [OF store sub pc] by blast
  have ent: "value_entries bs \<le> MAX_DATA_TREE_ENTRIES"
    using value_entries_le [of bs] div_le_mono [OF len, of 8176] div_le_mono [OF len, of "8176 * 1021"]
    by (simp add: MAX_DATA_TREE_ENTRIES_def div_mult2_eq)
  obtain t blks where t: "read_entry_tree ?S e = Inr t" "readable ?S ?loc MAX_DATA_TREE_ENTRIES t blks"
    "concat (map db_data blks) = bs" "declared_size t = length bs"
    using value_in_readable [OF store e(1) ent] e(2) by auto
  let ?bid = "ref_block (bs_ref ?S e)"
  have bid: "block_id_search_key ?bid = block_id_search_key vroot" by (rule usource.loc_key [OF e(2)])
  then have cached: "(case bc ?bid of Some t \<Rightarrow> Inr t | None \<Rightarrow> read_entry_tree ?S e) = Inr t"
    using bc e(2) t(1) by (cases "bc ?bid") (fastforce simp: block_cache_agrees_def)+
  have "block_cache_agrees ?S ?loc (bc(?bid := None))" using bc by (auto simp: block_cache_agrees_def)
  moreover have "MAX_DATA_TREE_ENTRIES \<le> usize_max" "declared_size t \<le> usize_max"
    using len t(4) by (simp_all add: usize_max_def MAX_DATA_TREE_ENTRIES_def)
  ultimately obtain r pc' bc' where r: "data_tree_reader_new ?S t MAX_DATA_TREE_ENTRIES pc1 (bc(?bid := None)) = (Inr r, pc', bc')"
    "reader_holds ?S r (concat (map db_data blks))" "dr_expected_size r = declared_size t" "dr_total_read r = 0"
    "unicode_lookup_ok H file page pc'" "block_cache_agrees ?S ?loc bc'"
    using usource.data_tree_reader_new_correct [OF e(4), of Permute "bc(?bid := None)" MAX_DATA_TREE_ENTRIES t blks] t(2) by blast
  have run: "\<forall>ns. \<exists>r'. reader_run ?S ns r = (Inr (take (sum_list ns) bs), r')"
    using reader_run_content [OF r(2)] r(3,4) t(3,4) by simp
  have "data_tree_reader_bounded ?S t pc1 (bc(?bid := None)) = (Inr r, pc', bc')"
    using r(1) len t(4) by (simp add: data_tree_reader_bounded_def MAX_MATERIALIZED_DATA_TREE_BYTES_def)
  moreover have "charge_budget budget (length bs) = (Inr (), map_option (\<lambda>b. b + length bs) budget)"
    using budget by (cases budget) (simp_all add: charge_budget_def charge_def checked_add_usize_def usize_max_def MAX_PROPERTY_MATERIALIZATION_BYTES_def)
  moreover have "cache_ok H file page pc' (bc'(?bid \<mapsto> t))"
    using r(5,6) e(2) t(1) bid by (auto simp: cache_ok_def block_cache_agrees_def)
  ultimately show ?thesis
    using e(3) cached read_to_end_run [OF buf run] v t(4) by (simp add: subnode_value_def Let_def)
qed

text \<open>A larger value is refused before it is read, with or without a budget.\<close>

lemma subnode_value_refused:
  assumes store: "block_store file H page specs" and sub: "subnode_holds (set specs) root es nid bs" "ctx_sub_node ctx = Some root"
    and cache: "cache_ok H file page pc bc" and len: "64 * 1024 * 1024 < length bs" "length bs \<le> 2 ^ 31"
  shows "\<exists>pc' bc'. subnode_value (unicode_source (Suc H) file Permute page) unicode_subnode_format buf ctx nid kind None pc bc =
    (Inl (NdbIo (DataTreeMaterializationLimitExceeded MAX_MATERIALIZED_DATA_TREE_BYTES)), None, pc', bc')"
proof -
  let ?S = "unicode_source (Suc H) file Permute page" and ?loc = "unicode_lookup H file page"
  have pc: "unicode_lookup_ok H file page pc" and bc: "block_cache_agrees ?S ?loc bc" using cache by (simp_all add: cache_ok_def)
  obtain vroot e pc1 where e: "value_in (set specs) vroot bs" "?loc (block_id_search_key vroot) = Inr e"
    "find_value_block ?S unicode_subnode_format ctx nid pc = (Inr e, pc1)"
    using find_value_block_spec [OF store sub pc] by blast
  have ent: "value_entries bs \<le> MAX_STREAMING_DATA_TREE_ENTRIES"
    using value_entries_le [of bs] div_le_mono [OF len(2), of 8176] div_le_mono [OF len(2), of "8176 * 1021"]
    by (simp add: MAX_STREAMING_DATA_TREE_ENTRIES_def div_mult2_eq)
  obtain t where t: "read_entry_tree ?S e = Inr t" "declared_size t = length bs"
    using value_in_readable [OF store e(1) ent] e(2) by auto
  let ?bid = "ref_block (bs_ref ?S e)"
  have "block_id_search_key ?bid = block_id_search_key vroot" by (rule usource.loc_key [OF e(2)])
  then have "(case bc ?bid of Some t \<Rightarrow> Inr t | None \<Rightarrow> read_entry_tree ?S e) = Inr t"
    using bc e(2) t(1) by (cases "bc ?bid") (fastforce simp: block_cache_agrees_def)+
  then show ?thesis using e(3) t(2) len(1)
    by (simp add: subnode_value_def Let_def charge_budget_def data_tree_reader_bounded_def MAX_MATERIALIZED_DATA_TREE_BYTES_def)
qed

lemma subnode_identity:
  assumes store: "block_store file H page specs" and sub: "subnode_holds (set specs) root es nid bs" "ctx_sub_node ctx = Some root"
    and pc: "unicode_lookup_ok H file page pc" and bc: "block_cache_agrees (unicode_source (Suc H) file Permute page) (unicode_lookup H file page) bc"
    and len: "length bs \<le> 2 ^ 31" and r: "pr_value r = RecordNode nid"
  shows "\<exists>pc' bc'. stream_property_identity sha256 (unicode_source (Suc H) file Permute page) unicode_subnode_format ctx r pc bc =
    (Inr (property_type_code (pr_type r), length bs, sha256 bs), pc', bc')"
proof -
  let ?S = "unicode_source (Suc H) file Permute page" and ?loc = "unicode_lookup H file page"
  obtain vroot e pc1 where e: "value_in (set specs) vroot bs" "?loc (block_id_search_key vroot) = Inr e"
    "find_value_block ?S unicode_subnode_format ctx nid pc = (Inr e, pc1)" "unicode_lookup_ok H file page pc1"
    using find_value_block_spec [OF store sub pc] by blast
  have ent: "value_entries bs \<le> MAX_STREAMING_DATA_TREE_ENTRIES"
    using value_entries_le [of bs] div_le_mono [OF len, of 8176] div_le_mono [OF len, of "8176 * 1021"]
    by (simp add: MAX_STREAMING_DATA_TREE_ENTRIES_def div_mult2_eq)
  obtain t blks where t: "read_entry_tree ?S e = Inr t" "readable ?S ?loc MAX_STREAMING_DATA_TREE_ENTRIES t blks"
    "concat (map db_data blks) = bs" "declared_size t = length bs"
    using value_in_readable [OF store e(1) ent] e(2) by auto
  have "MAX_STREAMING_DATA_TREE_ENTRIES \<le> usize_max" "declared_size t \<le> usize_max"
    using len t(4) by (simp_all add: usize_max_def MAX_STREAMING_DATA_TREE_ENTRIES_def)
  then obtain rd pc' bc' where rd: "streaming_reader ?S t pc1 bc = (Inr rd, pc', bc')"
    "\<forall>ns. \<exists>r'. reader_run ?S ns rd = (Inr (take (sum_list ns) bs), r')"
    using usource.reader_delivers [OF e(4) bc, of MAX_STREAMING_DATA_TREE_ENTRIES t blks] t by (auto simp: streaming_reader_def)
  have "identity_loop ?S rd [] 0 = Inr ([] @ bs, 0 + length bs)" by (rule identity_loop_run [OF rd(2)]) (use len in \<open>simp add: usize_max_def\<close>)
  then show ?thesis using e(3) t(1) rd(1) r by (simp add: stream_property_identity_def)
qed

section \<open>The move into sub-nodes\<close>

text \<open>
  What becomes of a property: it stays, or its value of more than 2048 bytes is below the block
  of a sub-node of its own.
\<close>

definition moved :: "block_spec set \<Rightarrow> u64 subnode_leaf_entry set \<Rightarrow> u16 \<times> writer_value \<Rightarrow> u16 \<times> writer_value \<Rightarrow> bool" where
  "moved A subs p p' \<longleftrightarrow> fst p' = fst p \<and>
    (case variable_bytes (snd p) of
       Inl _ \<Rightarrow> False
     | Inr None \<Rightarrow> snd p' = snd p
     | Inr (Some bs) \<Rightarrow> length bs \<le> MAX_PST_PROPERTY_BYTES \<and>
         (if length bs \<le> 2048 then snd p' = snd p
          else (\<forall>nid len. snd p \<noteq> WObject nid len) \<and>
           (\<exists>e\<in>subs. snd p' = WExternal (writer_property_type (snd p)) (sl_node e) \<and> value_in A (sl_block e) bs)))"

lemma leaf_in_mono: "leaf_in A b c \<Longrightarrow> A \<subseteq> B \<Longrightarrow> leaf_in B b c"
  by (auto simp: leaf_in_def)

lemma xblock_in_mono:
  assumes "xblock_in A b cs" "A \<subseteq> B"
  shows "xblock_in B b cs"
proof -
  obtain ids size where x: "\<lparr>sp_id = b, sp_payload = PayloadDataTree 1 size ids, sp_ref_count = 2\<rparr> \<in> A" "list_all2 (leaf_in A) ids cs"
    "unat size = length (concat cs)" "block_id_is_internal b" using assms(1) by (auto simp: xblock_in_def)
  have "list_all2 (leaf_in B) ids cs" using x(2) by (rule list_all2_mono) (rule leaf_in_mono [OF _ assms(2)])
  then show ?thesis using x assms(2) unfolding xblock_in_def by blast
qed

lemma value_in_mono:
  assumes "value_in A root bs" "A \<subseteq> B"
  shows "value_in B root bs"
proof -
  have "list_all2 (xblock_in B) xids css" if "list_all2 (xblock_in A) xids css" for xids css
    using that by (rule list_all2_mono) (rule xblock_in_mono [OF _ assms(2)])
  then show ?thesis using assms leaf_in_mono [of A root bs B] xblock_in_mono [of A root _ B]
    unfolding value_in_def Let_def by (meson subsetD)
qed

lemma moved_mono: "moved A subs p p' \<Longrightarrow> A \<subseteq> B \<Longrightarrow> subs \<subseteq> subs' \<Longrightarrow> moved B subs' p p'"
  unfolding moved_def by (auto split: sum.splits option.splits if_splits intro: value_in_mono; meson subsetD value_in_mono)

text \<open>Sub-nodes of values: fresh identifiers, in ascending order of their index.\<close>

definition value_nodes :: "nat \<Rightarrow> nat \<Rightarrow> u64 subnode_leaf_entry list \<Rightarrow> bool" where
  "value_nodes lo hi subs \<longleftrightarrow> lo \<le> hi \<and> sorted_wrt (<) (map (\<lambda>s. unat (node_id_index (sl_node s))) subs) \<and>
    (\<forall>s\<in>set subs. lo \<le> unat (node_id_index (sl_node s)) \<and> unat (node_id_index (sl_node s)) < hi \<and>
      node_id_id_type (sl_node s) = Inr ListsTablesProperties \<and> sl_sub_node s = None)"

lemma externalize_value_cases:
  assumes "externalize_value v st = Inr (v', st')"
  obtains (kept) b where "variable_bytes v = Inr b" "\<forall>bs. b = Some bs \<longrightarrow> length bs \<le> 2048" "v' = v" "st' = st"
    | (external) bs nid nx root nb blocks where "variable_bytes v = Inr (Some bs)" "length bs \<le> MAX_PST_PROPERTY_BYTES" "2048 < length bs"
      "\<forall>nid len. v \<noteq> WObject nid len" "node_id_new ListsTablesProperties (ext_next_value_node st) = Inr nid"
      "checked_add_w (ext_next_value_node st) 1 = Some nx" "append_data_tree bs (ext_next_block st) (ext_blocks st) = Inr (root, nb, blocks)"
      "v' = WExternal (writer_property_type v) nid" "st' = \<lparr>ext_next_block = nb, ext_next_value_node = nx, ext_blocks = blocks,
          ext_subnodes = ext_subnodes st @ [\<lparr>sl_node = nid, sl_block = root, sl_sub_node = None\<rparr>]\<rparr>"
proof -
  define obj where "obj \<longleftrightarrow> (case v of WObject _ _ \<Rightarrow> True | _ \<Rightarrow> False)"
  have obj: "\<not> obj \<Longrightarrow> \<forall>nid len. v \<noteq> WObject nid len" by (auto simp: obj_def)
  note e = assms [unfolded externalize_value_def, folded obj_def]
  obtain b where b: "variable_bytes v = Inr b" using e by (auto simp: of_io_def split: sum.splits)
  show thesis
  proof (cases b)
    case None
    then show thesis using e b by (intro kept [of None]) (auto simp: of_io_def)
  next
    case (Some bs)
    have len: "length bs \<le> MAX_PST_PROPERTY_BYTES" using e b Some by (auto simp: of_io_def validate_pst_property_len_def split: if_splits)
    note e = e [unfolded b Some of_io_def validate_pst_property_len_def, simplified, simplified len not_less [symmetric], simplified]
    show thesis
    proof (cases "length bs \<le> 2048 \<or> obj")
      case True
      then have "length bs \<le> 2048" using b Some by (auto simp: obj_def variable_bytes_def split: writer_value.splits)
      with True show thesis using e len b Some by (intro kept) (auto split: if_splits)
    next
      case False
      then obtain nid where nid: "node_id_new ListsTablesProperties (ext_next_value_node st) = Inr nid"
        using e len by (auto simp: writer_node_def of_ndb_def split: sum.splits if_splits)
      moreover obtain nx where nx: "checked_add_w (ext_next_value_node st) 1 = Some nx"
        using e False len nid by (auto simp: writer_node_def of_ndb_def split: option.splits if_splits)
      moreover obtain root nb blocks where "append_data_tree bs (ext_next_block st) (ext_blocks st) = Inr (root, nb, blocks)"
        using e False len nid nx by (auto simp: writer_node_def of_ndb_def split: sum.splits if_splits)
      ultimately show thesis using e False len b Some obj by (intro external [of bs nid nx root nb blocks]) (auto simp: writer_node_def of_ndb_def split: if_splits)
    qed
  qed
qed

lemma externalize_value_Inr:
  assumes ext: "externalize_value v st = Inr (v', st')" and st: "ext_next_block st = word_of_nat n" and n: "n + 300000 \<le> 2 ^ 62"
  shows "\<exists>new subs. ext_blocks st' = ext_blocks st @ new \<and> fresh_specs n new \<and> specs_ok new \<and> block_subnodes new = [] \<and>
    ext_next_block st' = word_of_nat (n + length new) \<and> length new \<le> 300000 \<and> ext_subnodes st' = ext_subnodes st @ subs \<and>
    value_nodes (unat (ext_next_value_node st)) (unat (ext_next_value_node st')) subs \<and> moved (set new) (set subs) (k, v) (k, v')"
proof -
  from ext show ?thesis
  proof (cases rule: externalize_value_cases)
    case (kept b)
    then show ?thesis using n st by (intro exI [of _ "[]"]) (auto simp: moved_def value_nodes_def specs_ok_def MAX_PST_PROPERTY_BYTES_def split: option.splits)
  next
    case x: (external bs nid nx root nb blocks)
    have "length bs \<le> 2 ^ 31" using x(2) by (simp add: MAX_PST_PROPERTY_BYTES_def)
    from append_data_tree_value [OF this n, of "ext_blocks st"] obtain new where
      a: "nb = word_of_nat (n + length new)" "blocks = ext_blocks st @ new" "value_appended n new root bs"
      using x(7) by (auto simp: st)
    have nid: "node_id_id_type nid = Inr ListsTablesProperties" "node_id_index nid = ext_next_value_node st"
      using node_id_new_spec [of "ext_next_value_node st" ListsTablesProperties] x(5) by simp_all
    have nx: "unat nx = unat (ext_next_value_node st) + 1" using checked_add_w_Some [OF x(6)] by simp
    have "moved (set new) {\<lparr>sl_node = nid, sl_block = root, sl_sub_node = None\<rparr>} (k, v) (k, v')"
      using a(3) x(1-4,8) by (simp add: moved_def value_appended_def)
    then show ?thesis
      using a nid nx x(9) by (intro exI [of _ new] exI [of _ "[\<lparr>sl_node = nid, sl_block = root, sl_sub_node = None\<rparr>]"])
        (simp add: value_appended_def value_nodes_def)
  qed
qed

lemma value_nodes_append:
  "value_nodes lo mid xs \<Longrightarrow> value_nodes mid hi ys \<Longrightarrow> value_nodes lo hi (xs @ ys)"
  by (fastforce simp: value_nodes_def sorted_wrt_append)

lemma externalize_large_Inr:
  assumes "externalize_large_properties props st = Inr (props', st')" "ext_next_block st = word_of_nat n" "n + length props * 300000 \<le> 2 ^ 62"
  shows "\<exists>new subs. ext_blocks st' = ext_blocks st @ new \<and> fresh_specs n new \<and> specs_ok new \<and> block_subnodes new = [] \<and>
    ext_next_block st' = word_of_nat (n + length new) \<and> length new \<le> length props * 300000 \<and> ext_subnodes st' = ext_subnodes st @ subs \<and>
    value_nodes (unat (ext_next_value_node st)) (unat (ext_next_value_node st')) subs \<and> list_all2 (moved (set new) (set subs)) props props'"
  using assms
proof (induction props arbitrary: props' st n)
  case Nil
  then show ?case by (intro exI [of _ "[]"]) (auto simp: value_nodes_def specs_ok_def)
next
  case (Cons p props)
  obtain k v where p: "p = (k, v)" by force
  obtain v' st1 props1 where e: "externalize_value v st = Inr (v', st1)" "externalize_large_properties props st1 = Inr (props1, st')"
    "props' = (k, v') # props1" using Cons.prems(1) by (auto simp: p split: sum.splits)
  have n: "n + 300000 \<le> 2 ^ 62" using Cons.prems(3) by simp
  obtain new1 subs1 where one: "ext_blocks st1 = ext_blocks st @ new1" "fresh_specs n new1" "specs_ok new1" "block_subnodes new1 = []"
    "ext_next_block st1 = word_of_nat (n + length new1)" "length new1 \<le> 300000" "ext_subnodes st1 = ext_subnodes st @ subs1"
    "value_nodes (unat (ext_next_value_node st)) (unat (ext_next_value_node st1)) subs1" "moved (set new1) (set subs1) (k, v) (k, v')"
    using externalize_value_Inr [OF e(1) Cons.prems(2) n] by blast
  have "n + length new1 + length props * 300000 \<le> 2 ^ 62" using Cons.prems(3) one(6) by simp
  from Cons.IH [OF e(2) one(5) this] obtain new2 subs2 where two: "ext_blocks st' = ext_blocks st1 @ new2" "fresh_specs (n + length new1) new2"
    "specs_ok new2" "block_subnodes new2 = []" "ext_next_block st' = word_of_nat (n + length new1 + length new2)" "length new2 \<le> length props * 300000"
    "ext_subnodes st' = ext_subnodes st1 @ subs2" "value_nodes (unat (ext_next_value_node st1)) (unat (ext_next_value_node st')) subs2"
    "list_all2 (moved (set new2) (set subs2)) props props1" by blast
  have "list_all2 (moved (set (new1 @ new2)) (set (subs1 @ subs2))) props props1"
    using two(9) by (rule list_all2_mono) (erule moved_mono, auto)
  moreover have "moved (set (new1 @ new2)) (set (subs1 @ subs2)) (k, v) (k, v')" using one(9) by (rule moved_mono) auto
  ultimately show ?case
    using one(1-7) two(1-7) fresh_specs_append [OF one(2) two(2)] value_nodes_append [OF one(8) two(8)]
    by (intro exI [of _ "new1 @ new2"] exI [of _ "subs1 @ subs2"]) (simp add: p e(3) add.assoc)
qed

section \<open>The context with its sub-nodes\<close>

text \<open>
  A context whose large values are moved out first: the block of the context, the root of its
  sub-nodes if there are any, all blocks, and the next block index.
\<close>

definition build_large_context ::
  "properties \<Rightarrow> u32 \<Rightarrow> u64 \<Rightarrow> u64 \<Rightarrow> writer_error + (u64 \<times> u64 option \<times> block_spec list) \<times> u64" where
  "build_large_context properties next_value_node preferred next_index =
    (case externalize_large_properties properties
        \<lparr>ext_next_block = next_index, ext_next_value_node = next_value_node, ext_blocks = [], ext_subnodes = []\<rparr> of Inl e \<Rightarrow> Inl e
     | Inr (properties, st) \<Rightarrow>
    (case build_property_context properties preferred (ext_next_block st) of Inl e \<Rightarrow> Inl e
     | Inr (data_block, next_index, context_blocks) \<Rightarrow>
       let blocks = ext_blocks st @ context_blocks in
       if ext_subnodes st = [] then Inr ((data_block, None, blocks), next_index)
       else (case append_subnode_tree (ext_subnodes st) next_index blocks of Inl e \<Rightarrow> Inl e
         | Inr (subnode_block, next_index, blocks) \<Rightarrow> Inr ((data_block, Some subnode_block, blocks), next_index))))"

lemma fresh_specs_ge:
  assumes "fresh_specs n new" "b \<in> set new"
  shows "n \<le> unat (sp_id b) div 4"
proof -
  obtain i where i: "i < length new" "b = new ! i" using assms(2) by (auto simp: in_set_conv_nth)
  then obtain internal where "sp_id b = block_bid internal (n + i)" "n + i < 2 ^ 62" using assms(1) by (auto simp: fresh_specs_def)
  then show ?thesis using block_bid_index [of "n + i" internal] by simp
qed

lemma fresh_specs_bound:
  assumes "fresh_specs n new" "b \<in> set new"
  shows "unat (sp_id b) div 4 < n + length new"
proof -
  obtain i where i: "i < length new" "b = new ! i" using assms(2) by (auto simp: in_set_conv_nth)
  then obtain internal where "sp_id b = block_bid internal (n + i)" "n + i < 2 ^ 62" using assms(1) by (auto simp: fresh_specs_def)
  then show ?thesis using block_bid_index [of "n + i" internal] i(1) by simp
qed

text \<open>A moved property, as the writer leaves it in the context.\<close>

lemma moved_external_kind:
  assumes "variable_bytes v = Inr (Some bs)" "2048 < length bs" "\<forall>nid len. v \<noteq> WObject nid len" "writer_value_ok v"
    and "node_id_id_type nid = Inr ListsTablesProperties"
  shows "property_record_of (writer_property_type v) nid = RecordNode nid"
  using assms by (cases v) (auto simp: variable_bytes_def property_record_of_def writer_value_ok_def)

lemma moved_ok:
  assumes "list_all2 (moved A subs) props props'" "distinct (map fst props)" "\<forall>p\<in>set props. writer_value_ok (snd p)"
  shows "properties_ok props'" "map fst props' = map fst props"
proof -
  show keys: "map fst props' = map fst props" using assms(1) by (induction rule: list_all2_induct) (auto simp: moved_def)
  have "writer_value_ok (snd p') \<and> (\<forall>bs. serialized (snd p') = Inr bs \<longrightarrow> length bs \<le> MAX_PST_PROPERTY_BYTES)" if p': "p' \<in> set props'" for p'
  proof -
    obtain i where i: "i < length props'" "p' = props' ! i" using p' by (auto simp: in_set_conv_nth)
    have "i < length props" using i(1) list_all2_lengthD [OF assms(1)] by simp
    moreover have "moved A subs (props ! i) p'" using list_all2_nthD2 [OF assms(1) i(1)] i(2) by simp
    ultimately obtain p where "p \<in> set props" "moved A subs p p'" using nth_mem by blast
    then have "snd p' = snd p \<and> (\<forall>bs. serialized (snd p') = Inr bs \<longrightarrow> length bs \<le> MAX_PST_PROPERTY_BYTES) \<or> (\<exists>kind nid. snd p' = WExternal kind nid)"
      by (auto simp: moved_def serialized_Inr split: sum.splits option.splits if_splits)
    moreover have "writer_value_ok (WExternal kind nid)" "\<forall>bs. serialized (WExternal kind nid) \<noteq> Inr bs" for kind nid
      by (simp_all add: writer_value_ok_def serialized_Inr variable_bytes_def)
    ultimately show ?thesis using assms(3) \<open>p \<in> set props\<close> by auto
  qed
  then show "properties_ok props'" using keys assms(2) by (auto simp: properties_ok_def values_bounded_def)
qed

text \<open>What is in the blocks of a context with sub-nodes.\<close>

definition context_in :: "block_spec set \<Rightarrow> u64 \<Rightarrow> u64 option \<Rightarrow> bytes list \<Rightarrow> properties \<Rightarrow> bool" where
  "context_in A data_block subnode_block heap props \<longleftrightarrow> pages_in A data_block heap \<and> length heap \<le> 1021 \<and> (\<forall>p\<in>set heap. length p \<le> 8176) \<and>
    (\<exists>props' subs. properties_found heap props' \<and> list_all2 (moved A (set subs)) props props' \<and>
      (\<forall>s\<in>set subs. node_id_id_type (sl_node s) = Inr ListsTablesProperties) \<and> sorted_wrt (<) (map sl_node subs) \<and>
      (subs = [] \<or> (\<exists>r. subnode_block = Some r \<and> subnodes_in A r subs)))"

lemma value_nodes_sorted:
  assumes "value_nodes lo hi subs"
  shows "distinct (map sl_node subs)" "\<forall>s\<in>set subs. subnode_leaf_ok s"
proof -
  have "distinct (map (\<lambda>s. unat (node_id_index (sl_node s))) subs)" using assms strict_sorted_iff by (auto simp: value_nodes_def)
  then show "distinct (map sl_node subs)" by (auto simp: distinct_map inj_on_def)
  show "\<forall>s\<in>set subs. subnode_leaf_ok s" using assms by (simp add: value_nodes_def subnode_leaf_ok_def)
qed

lemma pages_in_mono: "pages_in A root pages \<Longrightarrow> A \<subseteq> B \<Longrightarrow> pages_in B root pages"
  by (auto simp: pages_in_def intro: leaf_in_mono xblock_in_mono)

lemma subnodes_in_mono:
  assumes "subnodes_in A r es" "A \<subseteq> B"
  shows "subnodes_in B r es"
proof -
  have "list_all2 (\<lambda>bid g. subnode_spec bid g \<in> B) ids gs" if "list_all2 (\<lambda>bid g. subnode_spec bid g \<in> A) ids gs" for ids gs
    using that by (rule list_all2_mono) (use assms(2) in blast)
  then show ?thesis using assms unfolding subnodes_in_def by (auto split: if_splits)
qed

lemma build_large_context_Inr:
  assumes build: "build_large_context props next_value_node preferred (word_of_nat n) = Inr ((data_block, subnode_block, new), next_index)"
    and props: "distinct (map fst props)" "\<forall>p\<in>set props. writer_value_ok (snd p)" "length props \<le> 1000" and n: "n \<le> 2 ^ 61"
    and int: "\<not> block_id_is_internal preferred"
    and ids: "ids_ok specs" "\<forall>b\<in>set specs. unat (sp_id b) div 4 < n" "preferred \<notin> sp_id ` set specs" "block_id_search_key preferred = preferred" "unat preferred div 4 < n"
  shows "specs_ok new \<and> new \<noteq> [] \<and> ids_ok (specs @ new) \<and> next_index \<le> MAX_UNICODE_BLOCK_INDEX \<and>
    (\<exists>heap. context_in (set new) data_block subnode_block heap props)"
proof -
  let ?st = "\<lparr>ext_next_block = word_of_nat n, ext_next_value_node = next_value_node, ext_blocks = [], ext_subnodes = []\<rparr>"
  obtain props' st' next2 context_blocks where
    e: "externalize_large_properties props ?st = Inr (props', st')" and
    c: "build_property_context props' preferred (ext_next_block st') = Inr (data_block, next2, context_blocks)" and
    s: "if ext_subnodes st' = [] then subnode_block = None \<and> new = ext_blocks st' @ context_blocks \<and> next_index = next2
      else \<exists>r. append_subnode_tree (ext_subnodes st') next2 (ext_blocks st' @ context_blocks) = Inr (r, next_index, new) \<and> subnode_block = Some r"
    using build by (auto simp: build_large_context_def Let_def split: sum.splits if_splits)
  have room: "n + length props * 300000 \<le> 2 ^ 62" "length props * 300000 \<le> 2 ^ 60" using n props(3) by simp_all
  obtain vals where x: "ext_blocks st' = vals" "fresh_specs n vals" "specs_ok vals" "ext_next_block st' = word_of_nat (n + length vals)"
    "length vals \<le> length props * 300000" "value_nodes (unat next_value_node) (unat (ext_next_value_node st')) (ext_subnodes st')"
    "list_all2 (moved (set vals) (set (ext_subnodes st'))) props props'"
    using externalize_large_Inr [OF e _ room(1)] by auto
  have ok: "properties_ok props'" and len: "length props' \<le> 1000"
    using moved_ok [OF x(7) props(1,2)] list_all2_lengthD [OF x(7)] props(3) by simp_all
  have n1: "n + length vals + 300000 \<le> 2 ^ 62" using n x(5) room(2) by simp
  obtain heap where h: "properties_found heap props'" "pages_in (set context_blocks) data_block heap" "length heap \<le> 1021" "\<forall>p\<in>set heap. length p \<le> 8176"
    "specs_ok context_blocks" "length context_blocks \<le> 1022"
    "(\<exists>page. context_blocks = [data_spec preferred page] \<and> next2 = word_of_nat (n + length vals)) \<or>
      (fresh_specs (n + length vals) context_blocks \<and> next2 = word_of_nat (n + length vals + length context_blocks))"
    using build_property_context_Inr [OF c [unfolded x(4)] ok n1 len int] by blast
  have pre: "preferred \<notin> sp_id ` set (specs @ vals)"
    using ids(3,5) fresh_specs_ge [OF x(2)] by fastforce
  have i1: "ids_ok (specs @ vals)" by (rule ids_ok_fresh [OF ids(1,2) x(2)])
  have b1: "\<forall>b\<in>set (specs @ vals). unat (sp_id b) div 4 < n + length vals"
    using ids(2) fresh_specs_bound [OF x(2)] by fastforce
  have i2: "ids_ok ((specs @ vals) @ context_blocks)" using ids_ok_build [OF i1 b1 pre ids(4), of context_blocks] h(7) by auto
  obtain n2 where n2: "next2 = word_of_nat n2" "n2 \<le> n + length vals + 1022" "\<forall>b\<in>set ((specs @ vals) @ context_blocks). unat (sp_id b) div 4 < n2"
    using h(7)
  proof
    assume "\<exists>page. context_blocks = [data_spec preferred page] \<and> next2 = word_of_nat (n + length vals)"
    then show thesis using b1 ids(5) by (intro that [of "n + length vals"]) auto
  next
    assume f: "fresh_specs (n + length vals) context_blocks \<and> next2 = word_of_nat (n + length vals + length context_blocks)"
    have "unat (sp_id b) div 4 < n + length vals + length context_blocks" if "b \<in> set ((specs @ vals) @ context_blocks)" for b
      using that b1 fresh_specs_bound [OF conjunct1 [OF f], of b] by (auto intro: trans_less_add1)
    then show thesis using f h(6) by (intro that [of "n + length vals + length context_blocks"]) auto
  qed
  have n2b: "n2 + 511 \<le> 2 ^ 62" using n2(2) n x(5) room(2) by simp
  have le: "word_of_nat k \<le> MAX_UNICODE_BLOCK_INDEX" if "k \<le> n2 + 511" for k
    using that n2b n2(2) n x(5) room(2) by (simp add: word_le_nat_alt max_index_values unsigned_of_nat take_bit_nat_eq_self)
  note nodes = value_nodes_sorted [OF x(6)]
  have lists: "\<forall>s\<in>set (ext_subnodes st'). node_id_id_type (sl_node s) = Inr ListsTablesProperties" using x(6) by (simp add: value_nodes_def)
  have ne: "context_blocks \<noteq> []" using h(2) by (auto simp: pages_in_def leaf_in_def xblock_in_def)
  have ctx: "context_in A data_block subnode_block heap props"
    if "set (vals @ context_blocks) \<subseteq> A" "ext_subnodes st' = [] \<or> (\<exists>r. subnode_block = Some r \<and> subnodes_in A r (sort_key sl_node (ext_subnodes st')))" for A
  proof -
    have "list_all2 (moved A (set (sort_key sl_node (ext_subnodes st')))) props props'"
      using x(7) by (rule list_all2_mono) (rule moved_mono, use that(1) in auto)
    moreover have "pages_in A data_block heap" using h(2) that(1) by (auto intro: pages_in_mono)
    ultimately show ?thesis unfolding context_in_def
      using h(1,3,4) lists sorted_distinct_nodes [OF nodes(1)] that(2)
      by (intro conjI exI [of _ props'] exI [of _ "sort_key sl_node (ext_subnodes st')"]) auto
  qed
  show ?thesis
  proof (cases "ext_subnodes st' = []")
    case True
    then have "new = vals @ context_blocks" "next_index = next2" using s x(1) by simp_all
    then show ?thesis using x(3) h(5) ne i2 le [of n2] n2(1) ctx [of "set new"] True by auto
  next
    case False
    then obtain r where r: "append_subnode_tree (ext_subnodes st') (word_of_nat n2) (vals @ context_blocks) = Inr (r, next_index, new)" "subnode_block = Some r"
      using s x(1) n2(1) by auto
    obtain more where m: "new = (vals @ context_blocks) @ more" "next_index = word_of_nat (n2 + length more)" "fresh_specs n2 more" "specs_ok more"
      "length more \<le> 511" "subnodes_in (set more) r (sort_key sl_node (ext_subnodes st'))"
      using append_subnode_tree_in [OF r(1) n2b nodes(2)] by blast
    have "subnodes_in (set new) r (sort_key sl_node (ext_subnodes st'))" by (rule subnodes_in_mono [OF m(6)]) (auto simp: m(1))
    then have "context_in (set new) data_block subnode_block heap props" using r(2) by (intro ctx) (auto simp: m(1))
    moreover have "ids_ok (specs @ new)" using ids_ok_fresh [OF i2 n2(3) m(3)] by (simp add: m(1))
    ultimately show ?thesis using x(3) h(5) ne m(1,2,4,5) le [of "n2 + length more"] by auto
  qed
qed

section \<open>The reader on a stored context\<close>

text \<open>
  What a reader finds below the data block of a context with its sub-nodes: the heap, exactly the
  identifiers of the properties, for each its type and, when it is not larger than 64 MiB, its
  value, whatever is in the caches. For a value in a sub-node the streamed identity is the hash of all its bytes.
\<close>

definition value_size :: "writer_value \<Rightarrow> nat" where
  "value_size v = (case variable_bytes v of Inr (Some bs) \<Rightarrow> length bs | _ \<Rightarrow> 0)"

definition property_readable ::
  "nat \<Rightarrow> bytes \<Rightarrow> (unicode_block_entry, u64) btree_root \<Rightarrow> u64 property_context \<Rightarrow> property_record \<Rightarrow> writer_value \<Rightarrow> bool" where
  "property_readable H file page ctx r v \<longleftrightarrow> pr_type r = writer_property_type v \<and>
    (\<exists>code. pr_value r = property_record_of (writer_property_type v) code) \<and>
    ((\<exists>nid. pr_value r = RecordNode nid) \<longleftrightarrow> 2048 < value_size v) \<and>
    (\<forall>pc bc. cache_ok H file page pc bc \<longrightarrow>
      (value_size v \<le> 64 * 1024 * 1024 \<longrightarrow> (\<forall>L buf. 0 < buf \<longrightarrow>
        (\<exists>pc' bc'. read_property (unicode_source (Suc H) file Permute page) unicode_subnode_format L buf ctx r None pc bc =
          (Inr (reader_value v), None, pc', bc') \<and> cache_ok H file page pc' bc'))) \<and>
      (64 * 1024 * 1024 < value_size v \<longrightarrow> (\<forall>L buf.
        (\<exists>pc' bc'. read_property (unicode_source (Suc H) file Permute page) unicode_subnode_format L buf ctx r None pc bc =
          (Inl (NdbIo (DataTreeMaterializationLimitExceeded MAX_MATERIALIZED_DATA_TREE_BYTES)), None, pc', bc')))) \<and>
      (\<forall>nid bs. pr_value r = RecordNode nid \<longrightarrow> variable_bytes v = Inr (Some bs) \<longrightarrow>
        (\<forall>buf b. 0 < buf \<longrightarrow> b + length bs \<le> 64 * 1024 * 1024 \<longrightarrow>
          (\<exists>pc' bc'. subnode_value (unicode_source (Suc H) file Permute page) unicode_subnode_format buf ctx nid (pr_type r) (Some b) pc bc =
            (Inr (length bs, reader_value v), Some (b + length bs), pc', bc') \<and> cache_ok H file page pc' bc')) \<and>
        (\<forall>sha256. \<exists>pc' bc'. stream_property_identity sha256 (unicode_source (Suc H) file Permute page) unicode_subnode_format ctx r pc bc =
          (Inr (property_type_code (writer_property_type v), length bs, sha256 bs), pc', bc'))))"

definition context_readable ::
  "nat \<Rightarrow> bytes \<Rightarrow> (unicode_block_entry, u64) btree_root \<Rightarrow> u64 \<Rightarrow> u64 option \<Rightarrow> properties \<Rightarrow> bool" where
  "context_readable H file page data_block subnode_block props \<longleftrightarrow> (\<exists>heap pc h m.
    heap_node_read (unicode_source (Suc H) file Permute page) (block_id_search_key data_block) (\<lambda>_. None) = (Inr heap, pc) \<and>
    unicode_lookup_ok H file page pc \<and> heap_header heap = Inr h \<and> hn_client_signature h = HeapTypeProperties \<and>
    (let ctx = \<lparr>ctx_sub_node = subnode_block, ctx_heap = heap, ctx_root = hn_user_root h\<rparr> in
     context_properties ctx = Inr m \<and> dom m = fst ` set props \<and>
     (\<forall>(property_id, v)\<in>set props. \<exists>r. m property_id = Some r \<and> property_readable H file page ctx r v)))"

lemma moved_readable:
  assumes store: "block_store file H page specs"
    and found: "properties_found heap props'" "heap_header heap = Inr h" "context_properties \<lparr>ctx_sub_node = sub, ctx_heap = heap, ctx_root = hn_user_root h\<rparr> = Inr m"
    and mv: "moved (set specs) (set subs) (k, v) p'" "p' \<in> set props'" and v: "writer_value_ok v" "\<not> external v"
    and subs: "\<forall>s\<in>set subs. node_id_id_type (sl_node s) = Inr ListsTablesProperties" "sorted_wrt (<) (map sl_node subs)"
      "subs = [] \<or> (\<exists>r. sub = Some r \<and> subnodes_in (set specs) r subs)"
  shows "\<exists>r. m k = Some r \<and> property_readable H file page \<lparr>ctx_sub_node = sub, ctx_heap = heap, ctx_root = hn_user_root h\<rparr> r v"
proof -
  let ?ctx = "\<lparr>ctx_sub_node = sub, ctx_heap = heap, ctx_root = hn_user_root h\<rparr>" and ?S = "unicode_source (Suc H) file Permute page"
  obtain v' where p': "p' = (k, v')" using mv(1) by (cases p') (simp add: moved_def)
  obtain r where r: "m k = Some r" "pr_type r = writer_property_type v'"
    "\<exists>code. pr_value r = property_record_of (writer_property_type v') code"
    "case v' of WExternal kind nid \<Rightarrow> pr_value r = property_record_of kind nid
       | _ \<Rightarrow> (\<forall>nid. pr_value r \<noteq> RecordNode nid) \<and> (\<forall>N L buf pc bc. read_property ?S N L buf ?ctx r None pc bc = (Inr (reader_value v'), None, pc, bc))"
    using found(1) mv(2) found(2,3) unfolding properties_found_def p' by (fastforce split: writer_value.splits)
  show ?thesis
  proof (cases "value_size v \<le> 2048")
    case True
    then have "v' = v" using mv(1) by (auto simp: moved_def p' value_size_def split: sum.splits option.splits)
    moreover from this have "(\<forall>nid. pr_value r \<noteq> RecordNode nid) \<and> (\<forall>N L buf pc bc. read_property ?S N L buf ?ctx r None pc bc = (Inr (reader_value v), None, pc, bc))"
      using r(4) v(2) by (auto simp: external_def split: writer_value.splits)
    ultimately show ?thesis using r(1-3) True by (auto simp: property_readable_def)
  next
    case False
    then obtain bs e where e: "variable_bytes v = Inr (Some bs)" "length bs \<le> MAX_PST_PROPERTY_BYTES" "2048 < length bs" "\<forall>nid len. v \<noteq> WObject nid len"
      "e \<in> set subs" "v' = WExternal (writer_property_type v) (sl_node e)" "value_in (set specs) (sl_block e) bs"
      using mv(1) by (auto simp: moved_def p' value_size_def split: sum.splits option.splits)
    obtain root where root: "sub = Some root" "subnodes_in (set specs) root subs" using subs(3) e(5) by auto
    have holds: "subnode_holds (set specs) root subs (sl_node e) bs" using root(2) subs(2) e(5,7) by (auto simp: subnode_holds_def)
    have pv: "pr_value r = RecordNode (sl_node e)" "pr_type r = writer_property_type v"
      using r(2,4) moved_external_kind [OF e(1,3,4) v(1), of "sl_node e"] subs(1) e(5,6) by simp_all
    have val: "property_value_read (writer_property_type v) bs = Inr (reader_value v)"
      using variable_bytes_read [OF e(1) v(1)] e(1,3) by (auto simp: reader_value_def)
    have "\<exists>pc' bc'. read_property ?S unicode_subnode_format L buf ?ctx r None pc bc = (Inr (reader_value v), None, pc', bc') \<and> cache_ok H file page pc' bc'"
      if "cache_ok H file page pc bc" "length bs \<le> 64 * 1024 * 1024" "0 < buf" for L buf pc bc
      using subnode_value_read [OF store holds _ that val, of ?ctx None] root(1) pv
      by (auto simp: read_property_def charge_decoded_def)
    moreover have "\<exists>pc' bc'. subnode_value ?S unicode_subnode_format buf ?ctx (sl_node e) (pr_type r) (Some b) pc bc =
        (Inr (length bs, reader_value v), Some (b + length bs), pc', bc') \<and> cache_ok H file page pc' bc'"
      if "cache_ok H file page pc bc" "b + length bs \<le> 64 * 1024 * 1024" "0 < buf" for b buf pc bc
      using subnode_value_read [OF store holds _ that(1) _ that(3) val, of ?ctx "Some b"] that(2) root(1) pv(2) by auto
    moreover have "\<exists>pc' bc'. stream_property_identity sha256 ?S unicode_subnode_format ?ctx r pc bc =
        (Inr (property_type_code (writer_property_type v), length bs, sha256 bs), pc', bc')"
      if "cache_ok H file page pc bc" for sha256 pc bc
      using subnode_identity [OF store holds _ _ _ _ pv(1), of ?ctx pc bc sha256] that root(1) pv(2) e(2) by (auto simp: MAX_PST_PROPERTY_BYTES_def cache_ok_def)
    moreover have "\<exists>pc' bc'. read_property ?S unicode_subnode_format L buf ?ctx r None pc bc =
        (Inl (NdbIo (DataTreeMaterializationLimitExceeded MAX_MATERIALIZED_DATA_TREE_BYTES)), None, pc', bc')"
      if "cache_ok H file page pc bc" "64 * 1024 * 1024 < length bs" for L buf pc bc
      using subnode_value_refused [OF store holds _ that, of ?ctx buf "pr_type r"] root(1) pv(1) e(2)
      by (auto simp: read_property_def MAX_PST_PROPERTY_BYTES_def)
    moreover have "\<exists>code. pr_value r = property_record_of (writer_property_type v) code" using r(3) e(6) by simp
    ultimately show ?thesis using r(1) pv e(1,3) unfolding property_readable_def value_size_def by auto
  qed
qed

lemma context_in_readable:
  assumes store: "block_store file H page specs" and ctx: "context_in (set specs) data_block subnode_block heap props"
    and props: "\<forall>p\<in>set props. writer_value_ok (snd p) \<and> \<not> external (snd p)"
  shows "context_readable H file page data_block subnode_block props"
proof -
  obtain props' subs where c: "properties_found heap props'" "list_all2 (moved (set specs) (set subs)) props props'"
    "\<forall>s\<in>set subs. node_id_id_type (sl_node s) = Inr ListsTablesProperties" "sorted_wrt (<) (map sl_node subs)"
    "subs = [] \<or> (\<exists>r. subnode_block = Some r \<and> subnodes_in (set specs) r subs)"
    "pages_in (set specs) data_block heap" "length heap \<le> 1021" "\<forall>p\<in>set heap. length p \<le> 8176" using ctx by (auto simp: context_in_def)
  obtain pc where pc: "heap_node_read (unicode_source (Suc H) file Permute page) (block_id_search_key data_block) (\<lambda>_. None) = (Inr heap, pc)" "unicode_lookup_ok H file page pc"
    using pages_in_heap [OF store c(6-8)] by blast
  obtain h m where h: "heap_header heap = Inr h" "hn_client_signature h = HeapTypeProperties"
    "\<forall>sub. context_properties (\<lparr>ctx_sub_node = sub, ctx_heap = heap, ctx_root = hn_user_root h\<rparr> :: u64 property_context) = Inr m" "dom m = fst ` set props'"
    using c(1) by (auto simp: properties_found_def)
  have "map fst props' = map fst props" using c(2) by (induction rule: list_all2_induct) (auto simp: moved_def)
  then have dom: "dom m = fst ` set props" using h(4) by (metis list.set_map)
  have "\<exists>r. m k = Some r \<and> property_readable H file page \<lparr>ctx_sub_node = subnode_block, ctx_heap = heap, ctx_root = hn_user_root h\<rparr> r v"
    if kv: "(k, v) \<in> set props" for k v
  proof -
    obtain i where i: "i < length props" "props ! i = (k, v)" using kv by (auto simp: in_set_conv_nth)
    have "moved (set specs) (set subs) (k, v) (props' ! i)" "props' ! i \<in> set props'"
      using list_all2_nthD [OF c(2) i(1)] i list_all2_lengthD [OF c(2)] by simp_all
    then show ?thesis using props kv by (intro moved_readable [OF store c(1) h(1) h(3) [rule_format] _ _ _ _ c(3,4,5)]) auto
  qed
  then show ?thesis using pc h(1-3) dom unfolding context_readable_def Let_def by blast
qed

section \<open>Properties\<close>


definition sample_bytes :: bytes where "sample_bytes = replicate 3000 7"

definition sample_properties :: properties where
  "sample_properties = [(0x3001, WUnicode [0x50, 0x53, 0x54]), (0x0E08, WInteger32 7), (0x1013, WBinary sample_bytes)]"

definition sample_moved :: properties where
  "sample_moved = [(0x3001, WUnicode [0x50, 0x53, 0x54]), (0x0E08, WInteger32 7), (0x1013, WExternal PtypBinary 0xA0001F)]"

definition sample_value_node :: "u64 subnode_leaf_entry" where
  "sample_value_node = \<lparr>sl_node = 0xA0001F, sl_block = 12, sl_sub_node = None\<rparr>"

lemma sample_unicode: "variable_bytes (WUnicode [0x50, 0x53, 0x54]) = Inr (Some (write_u16 0x50 @ write_u16 0x53 @ write_u16 0x54))"
  by (simp add: variable_bytes_def unicode_bytes_def encode_utf16_def utf16_units_def)

lemma sample_externalized:
  "externalize_large_properties sample_properties \<lparr>ext_next_block = word_of_nat 3, ext_next_value_node = 0x50000, ext_blocks = [], ext_subnodes = []\<rparr> =
    Inr (sample_moved, \<lparr>ext_next_block = word_of_nat 4, ext_next_value_node = 0x50001, ext_blocks = [data_spec 12 sample_bytes],
      ext_subnodes = [sample_value_node]\<rparr>)"
proof -
  have c: "chunks 8176 sample_bytes = [sample_bytes]" by (subst chunks.simps) (simp add: sample_bytes_def chunks.simps [of _ "[]"])
  have "cut_ok 3 [sample_bytes]" by (simp add: cut_ok_def sample_bytes_def)
  from append_data_tree_one(1) [OF this, of sample_bytes "[]"] c
  have "append_data_tree sample_bytes (word_of_nat 3) [] = Inr (12, word_of_nat 4, [data_spec 12 sample_bytes])"
    by (simp add: data_specs_def block_bid_def)
  moreover have "node_id_new ListsTablesProperties 0x50000 = Inr 0xA0001F"
    by code_simp
  moreover have "checked_add_w (0x50000 :: u32) 1 = Some 0x50001" by (simp add: checked_add_w_def)
  moreover have "length sample_bytes = 3000" by (simp add: sample_bytes_def)
  moreover have "variable_bytes (WInteger32 7) = Inr None" "variable_bytes (WBinary sample_bytes) = Inr (Some sample_bytes)"
    by (simp_all add: variable_bytes_def)
  ultimately show ?thesis
    by (simp add: sample_properties_def sample_moved_def sample_value_node_def externalize_value_def of_io_def of_ndb_def writer_node_def
        validate_pst_property_len_def MAX_PST_PROPERTY_BYTES_def sample_unicode)
qed

lemma sample_context: "\<exists>page. property_context sample_moved = Inr page"
proof -
  let ?sorted = "[(0x0E08, WInteger32 7), (0x1013, WExternal PtypBinary 0xA0001F), (0x3001, WUnicode [0x50, 0x53, 0x54])]"
  have "sort_key fst sample_moved = ?sorted" by (simp add: sample_moved_def)
  moreover obtain allocations records c where "context_records ?sorted [[], []] [] = Inr (allocations, records)"
    and len: "allocations = [[], [], c]" "length c + length records \<le> 90"
    by (simp add: serialized_def of_io_def sample_unicode inline_value_def heap_id_new_cases record_head_def)
  moreover obtain header where "heap_tree_header_new 2 6 0 0x40 = Inr header" by (simp add: heap_tree_header_new_def)
  moreover have "length (heap_tree_header_write header) = 8" by (simp add: heap_tree_header_write_def heap_id_write_def node_id_write_def)
  then have "page_fits \<lparr>ph_index = 0, ph_kind = HeapTypeProperties, ph_levels = replicate 8 LevelEmpty\<rparr>
      (allocations[1 := records, 0 := heap_tree_header_write header]) (pad_of (length (concat (allocations[1 := records, 0 := heap_tree_header_write header]))))"
    using len by (simp add: page_fits_def header_ok_def header_length_def pad_of_def)
  note heap_page_eq [OF this]
  ultimately show ?thesis by (simp add: property_context_def of_ltp_def heap_id_new_cases)
qed

lemma sample_large_context:
  "\<exists>page. build_large_context sample_properties 0x50000 8 (word_of_nat 3) =
    Inr ((8, Some (block_bid True 4), [data_spec 12 sample_bytes, data_spec 8 page, subnode_spec (block_bid True 4) [sample_value_node]]), word_of_nat 5)"
proof -
  obtain page where "property_context sample_moved = Inr page" using sample_context by blast
  then have "build_property_context sample_moved 8 (word_of_nat 4) = Inr (8, word_of_nat 4, [data_spec 8 page])"
    by (simp add: build_property_context_def data_spec_def)
  moreover have "append_subnode_tree [sample_value_node] (word_of_nat 4) [data_spec 12 sample_bytes, data_spec 8 page] =
      Inr (block_bid True 4, word_of_nat 5, [data_spec 12 sample_bytes, data_spec 8 page, subnode_spec (block_bid True 4) [sample_value_node]])"
    using append_subnode_leaves_eq [of 4 "[[sample_value_node]]" "[data_spec 12 sample_bytes, data_spec 8 page]"]
    by (simp add: append_subnode_tree_def WRITER_MAX_SUBNODE_TREE_ENTRIES_def SUBNODE_LEAF_CAPACITY_def SUBNODE_INTERMEDIATE_CAPACITY_def
        MAX_DATA_BLOCK_PAYLOAD_def chunks.simps [of _ "[sample_value_node]"] chunks.simps [of _ "[]"] append_subnode_levels.simps [of _ "[_]"] leaf_entry_root_def)
  ultimately show ?thesis unfolding build_large_context_def sample_externalized by (auto simp: Let_def)
qed


end
