(* ===== verification/Msg_Named.thy ===== *)
theory Msg_Named
  imports Ltp_Prop Crc Ndb_Header Ndb_SubNode
begin

text \<open>
  The named property lookup map of the messaging layer (\<open>messaging/named_prop.rs\<close>): entries of the
  \<open>NAMEID\<close> streams, the string stream, the GUID stream and the hash buckets, over the properties of
  the map node. The errors are those of \<open>messaging/mod.rs\<close>.
\<close>

section \<open>Errors\<close>

text \<open>The variants of \<open>MessagingError\<close> that the map returns; the others belong to stores, folders and messages.\<close>

datatype (plugins only: code) messaging_error =
    NamedPropertyMapGuidIndexOutOfBounds u16 | NamedPropertyMapPropertyIndexOutOfBounds u16
  | NamedPropertyMapBucketCountOutOfBounds u32 | NamedPropertyMapBucketOffsetOutOfBounds u32 | NamedPropertyMapStringEntryOutOfBounds
  | NamedPropertyMapBucketCountNotFound | InvalidNamedPropertyMapBucketCount property_type
  | NamedPropertyMapStreamGuidNotFound | InvalidNamedPropertyMapStreamGuid property_type
  | NamedPropertyMapStreamEntryNotFound | InvalidNamedPropertyMapStreamEntry property_type
  | NamedPropertyMapStreamStringNotFound | InvalidNamedPropertyMapStreamString property_type
  | NamedPropertyMapBucketNotFound u16

text \<open>An \<open>io::Error\<close> of this layer: one that wraps a messaging error, or one from below.\<close>

datatype (plugins only: code) messaging_io = MessagingIo messaging_error | LowerIo io_error

definition of_lower :: "io_error + 'a \<Rightarrow> messaging_io + 'a" where
  "of_lower r = (case r of Inl e \<Rightarrow> Inl (LowerIo e) | Inr x \<Rightarrow> Inr x)"

section \<open>Identifiers\<close>

datatype named_property_id = NameNumber u32 | NameStringOffset u32

datatype named_property_guid = NameGuidNone | NameGuidMapi | NameGuidPublicStrings | NameGuidIndex u16

primrec named_guid_code :: "named_property_guid \<Rightarrow> u16" where
  "named_guid_code NameGuidNone = 0x0000"
| "named_guid_code NameGuidMapi = 0x0001"
| "named_guid_code NameGuidPublicStrings = 0x0002"
| "named_guid_code (NameGuidIndex index) = index + 3"

definition named_guid_try_from :: "u16 \<Rightarrow> messaging_error + named_property_guid" where
  "named_guid_try_from v =
    (if v AND 0x8000 \<noteq> 0 then Inl (NamedPropertyMapGuidIndexOutOfBounds v)
     else Inr (if v = 0x0000 then NameGuidNone else if v = 0x0001 then NameGuidMapi
       else if v = 0x0002 then NameGuidPublicStrings else NameGuidIndex (v - 3)))"

text \<open>\<open>NamedPropertyIndex\<close> holds the property identifier; on disk it is the index.\<close>

definition named_index_code :: "u16 \<Rightarrow> u16" where
  "named_index_code prop_id = prop_id - 0x8000"

definition named_index_try_from :: "u16 \<Rightarrow> messaging_error + u16" where
  "named_index_try_from v = (if v \<ge> 0x8000 then Inl (NamedPropertyMapPropertyIndexOutOfBounds v) else Inr (v + 0x8000))"

definition PS_MAPI :: guid_value where
  "PS_MAPI = \<lparr>guid_data1 = 0x00020328, guid_data2 = 0, guid_data3 = 0, guid_data4 = [0xC0, 0, 0, 0, 0, 0, 0, 0x46]\<rparr>"

definition PS_PUBLIC_STRINGS :: guid_value where
  "PS_PUBLIC_STRINGS = \<lparr>guid_data1 = 0x00020329, guid_data2 = 0, guid_data3 = 0, guid_data4 = [0xC0, 0, 0, 0, 0, 0, 0, 0x46]\<rparr>"

section \<open>The string stream\<close>

record string_entry =
  se_size :: u32
  se_buffer :: bytes

definition string_entry_new :: "u32 \<Rightarrow> bytes \<Rightarrow> messaging_error + string_entry" where
  "string_entry_new sz buffer =
    (if sz mod 2 \<noteq> 0 \<or> unat sz \<noteq> length buffer then Inl NamedPropertyMapStringEntryOutOfBounds
     else Inr \<lparr>se_size = sz, se_buffer = buffer\<rparr>)"

definition string_entry_read :: "bytes \<Rightarrow> messaging_io + string_entry \<times> bytes" where
  "string_entry_read f =
    (case read_u32 f of Inl e \<Rightarrow> Inl (LowerIo e)
     | Inr (sz, f) \<Rightarrow>
       if sz mod 2 \<noteq> 0 then Inl (MessagingIo (InvalidNamedPropertyMapStreamString PtypBinary))
       else let buffer = take (unat sz) f in
         if length buffer \<noteq> unat sz then Inl (MessagingIo NamedPropertyMapStringEntryOutOfBounds)
         else (case string_entry_new sz buffer of Inl e \<Rightarrow> Inl (MessagingIo e) | Inr entry \<Rightarrow> Inr (entry, drop (unat sz) f)))"

definition string_entry_write :: "string_entry \<Rightarrow> bytes" where
  "string_entry_write e = write_u32 (se_size e) @ se_buffer e"

lemma string_entry_read_shorter: "string_entry_read f = Inr (entry, rest) \<Longrightarrow> length rest < length f"
  by (auto simp: string_entry_read_def read_u32_def read_exact_def Let_def split: sum.splits if_splits)

text \<open>The loop with its cursor at a position of the stream.\<close>

function string_entries_loop :: "bytes \<Rightarrow> nat \<Rightarrow> messaging_io + (u32 \<times> string_entry) list" where
  "string_entries_loop bytes position =
    (if \<not> position < length bytes then Inr []
     else if position \<ge> 2 ^ 32 then Inl (MessagingIo NamedPropertyMapStringEntryOutOfBounds)
     else case string_entry_read (drop position bytes) of Inl e \<Rightarrow> Inl e
     | Inr (entry, rest) \<Rightarrow>
       let padding = unat ((4 - se_size entry mod 4) mod 4); start = length bytes - length rest; stop = start + padding in
       if stop > length bytes \<or> list_ex (\<lambda>byte. byte \<noteq> 0) (take padding rest)
       then Inl (MessagingIo NamedPropertyMapStringEntryOutOfBounds)
       else (case string_entries_loop bytes stop of Inl e \<Rightarrow> Inl e
         | Inr results \<Rightarrow> Inr ((word_of_nat position, entry) # results)))"
  by pat_completeness auto
termination
  by (relation "measure (\<lambda>(bytes, position). length bytes - position)") (auto dest: string_entry_read_shorter)

declare string_entries_loop.simps [simp del]

definition parse_string_entries :: "bytes \<Rightarrow> messaging_io + (u32 \<times> string_entry) list" where
  "parse_string_entries bytes = string_entries_loop bytes 0"

text \<open>\<open>String::from_utf16_lossy\<close>: surrogates without a partner become the replacement character.\<close>

fun from_utf16_lossy :: "u16 list \<Rightarrow> u32 list" where
  "from_utf16_lossy [] = []"
| "from_utf16_lossy [u] = [if u < 0xD800 \<or> 0xE000 \<le> u then ucast u else 0xFFFD]"
| "from_utf16_lossy (u # v # us) =
    (if u < 0xD800 \<or> 0xE000 \<le> u then ucast u # from_utf16_lossy (v # us)
     else if u < 0xDC00 \<and> 0xDC00 \<le> v \<and> v < 0xE000
     then ((push_bit 10 (ucast u - 0xD800) OR (ucast v - 0xDC00)) + 0x10000) # from_utf16_lossy us
     else 0xFFFD # from_utf16_lossy (v # us))"

text \<open>The loop of \<open>fmt\<close>: a missing unit is read as 0.\<close>

fun entry_units :: "nat \<Rightarrow> bytes \<Rightarrow> u16 list" where
  "entry_units 0 f = []"
| "entry_units (Suc n) f =
    (case read_u16 f of Inl _ \<Rightarrow> 0 # entry_units n [] | Inr (u, f) \<Rightarrow> u # entry_units n f)"

definition string_entry_fmt :: "string_entry \<Rightarrow> u32 list" where
  "string_entry_fmt e = from_utf16_lossy (entry_units (unat (se_size e div 2)) (se_buffer e))"

section \<open>Entries\<close>

record name_id_entry =
  ni_id :: named_property_id
  ni_guid :: named_property_guid
  ni_prop_index :: u16

definition name_id_fields :: "name_id_entry \<Rightarrow> u32 \<times> u16" where
  "name_id_fields e =
    (let guid = named_guid_code (ni_guid e) in
     case ni_id e of
       NameNumber n \<Rightarrow> (n, push_bit 1 guid)
     | NameStringOffset offset \<Rightarrow> (offset, push_bit 1 guid OR 0x0001))"

definition hash_value :: "name_id_entry \<Rightarrow> u32" where
  "hash_value e = (case name_id_fields e of (prop_id, guid_index) \<Rightarrow> prop_id XOR ucast guid_index)"

definition name_id_entry_read :: "bytes \<Rightarrow> messaging_io + name_id_entry \<times> bytes" where
  "name_id_entry_read f =
    (case read_u32 f of Inl e \<Rightarrow> Inl (LowerIo e) | Inr (prop_id, f) \<Rightarrow>
    (case read_u16 f of Inl e \<Rightarrow> Inl (LowerIo e) | Inr (guid_index, f) \<Rightarrow>
    (case read_u16 f of Inl e \<Rightarrow> Inl (LowerIo e) | Inr (index, f) \<Rightarrow>
    (case named_index_try_from index of Inl e \<Rightarrow> Inl (MessagingIo e) | Inr prop_index \<Rightarrow>
    (case named_guid_try_from (drop_bit 1 guid_index) of Inl e \<Rightarrow> Inl (MessagingIo e) | Inr guid \<Rightarrow>
     Inr (\<lparr>ni_id = (if guid_index AND 0x0001 = 0 then NameNumber prop_id else NameStringOffset prop_id),
           ni_guid = guid, ni_prop_index = prop_index\<rparr>, f))))))"

definition name_id_entry_write :: "name_id_entry \<Rightarrow> bytes" where
  "name_id_entry_write e =
    (case name_id_fields e of (prop_id, guid_index) \<Rightarrow>
      write_u32 prop_id @ write_u16 guid_index @ write_u16 (named_index_code (ni_prop_index e)))"

lemma name_id_entry_read_shorter: "name_id_entry_read f = Inr (entry, rest) \<Longrightarrow> length rest < length f"
  by (auto simp: name_id_entry_read_def read_u32_def read_u16_def read_exact_def split: sum.splits if_splits; linarith)

text \<open>The loop of the entry stream and of a bucket, until the cursor is at the end.\<close>

function read_name_ids :: "bytes \<Rightarrow> messaging_io + name_id_entry list" where
  "read_name_ids f =
    (if f = [] then Inr []
     else case name_id_entry_read f of Inl e \<Rightarrow> Inl e
     | Inr (entry, f) \<Rightarrow> (case read_name_ids f of Inl e \<Rightarrow> Inl e | Inr results \<Rightarrow> Inr (entry # results)))"
  by pat_completeness auto
termination
  by (relation "measure length") (auto dest: name_id_entry_read_shorter)

declare read_name_ids.simps [simp del]

section \<open>The map\<close>

text \<open>The ordered map of the properties, as the list of its items; a property is found with \<open>map_of\<close>.\<close>

type_synonym named_properties = "(u16 \<times> property_value) list"

definition stream_name_ids :: "messaging_error \<Rightarrow> (property_type \<Rightarrow> messaging_error) \<Rightarrow> property_value option \<Rightarrow> messaging_io + name_id_entry list" where
  "stream_name_ids missing invalid v =
    (case v of None \<Rightarrow> Inl (MessagingIo missing)
     | Some (PropBinary buffer) \<Rightarrow> if length buffer mod 8 \<noteq> 0 then Inl (LowerIo (Io InvalidData)) else read_name_ids buffer
     | Some v \<Rightarrow> Inl (MessagingIo (invalid (property_value_type v))))"

definition stream_entry :: "named_properties \<Rightarrow> messaging_io + name_id_entry list" where
  "stream_entry m = stream_name_ids NamedPropertyMapStreamEntryNotFound InvalidNamedPropertyMapStreamEntry (map_of m 0x0003)"

definition string_stream :: "named_properties \<Rightarrow> messaging_io + (u32 \<times> string_entry) list" where
  "string_stream m =
    (case map_of m 0x0004 of None \<Rightarrow> Inl (MessagingIo NamedPropertyMapStreamStringNotFound)
     | Some (PropBinary buffer) \<Rightarrow> parse_string_entries buffer
     | Some v \<Rightarrow> Inl (MessagingIo (InvalidNamedPropertyMapStreamString (property_value_type v))))"

definition lookup_string :: "named_properties \<Rightarrow> u32 \<Rightarrow> messaging_io + string_entry" where
  "lookup_string m offset =
    (case string_stream m of Inl e \<Rightarrow> Inl e
     | Inr entries \<Rightarrow>
       (case List.find (\<lambda>(entry_offset, _). entry_offset = offset) entries of
          None \<Rightarrow> Inl (MessagingIo NamedPropertyMapStringEntryOutOfBounds)
        | Some (_, entry) \<Rightarrow> Inr entry))"

definition stream_string :: "named_properties \<Rightarrow> messaging_io + string_entry list" where
  "stream_string m = (case string_stream m of Inl e \<Rightarrow> Inl e | Inr entries \<Rightarrow> Inr (map snd entries))"

definition hash_entry :: "named_properties \<Rightarrow> name_id_entry \<Rightarrow> messaging_io + name_id_entry" where
  "hash_entry m e =
    (case ni_id e of
       NameNumber _ \<Rightarrow> Inr e
     | NameStringOffset offset \<Rightarrow>
       (case lookup_string m offset of Inl err \<Rightarrow> Inl err
        | Inr s \<Rightarrow> Inr \<lparr>ni_id = NameStringOffset (compute_crc 0 (se_buffer s)), ni_guid = NameGuidNone, ni_prop_index = ni_prop_index e\<rparr>))"

definition bucket_count :: "named_properties \<Rightarrow> messaging_io + u16" where
  "bucket_count m =
    (case map_of m 0x0001 of None \<Rightarrow> Inl (MessagingIo NamedPropertyMapBucketCountNotFound)
     | Some (PropInteger32 v) \<Rightarrow>
       if sint v < 0 \<or> sint v \<ge> 2 ^ 16 then Inl (MessagingIo (NamedPropertyMapBucketCountOutOfBounds v))
       else let buckets = (ucast v :: u16) in
         if buckets = 0 \<or> buckets > 0xFFFF - 0x1000 then Inl (MessagingIo (NamedPropertyMapBucketCountOutOfBounds v))
         else Inr buckets
     | Some v \<Rightarrow> Inl (MessagingIo (InvalidNamedPropertyMapBucketCount (property_value_type v))))"

definition hash_bucket :: "named_properties \<Rightarrow> name_id_entry \<Rightarrow> messaging_io + name_id_entry list" where
  "hash_bucket m e =
    (case bucket_count m of Inl err \<Rightarrow> Inl err
     | Inr buckets \<Rightarrow>
       let offset = hash_value e mod ucast buckets in
       if offset \<ge> 2 ^ 16 then Inl (MessagingIo (NamedPropertyMapBucketOffsetOutOfBounds offset))
       else let bucket_offset = (ucast offset :: u16) in
         if bucket_offset > 0xFFFF - 0x1000 then Inl (MessagingIo (NamedPropertyMapBucketNotFound bucket_offset))
         else stream_name_ids (NamedPropertyMapBucketNotFound bucket_offset) InvalidNamedPropertyMapStreamString (map_of m (0x1000 + bucket_offset)))"

definition lookup_guid :: "named_properties \<Rightarrow> named_property_guid \<Rightarrow> messaging_io + guid_value" where
  "lookup_guid m g =
    (case g of
       NameGuidMapi \<Rightarrow> Inr PS_MAPI
     | NameGuidPublicStrings \<Rightarrow> Inr PS_PUBLIC_STRINGS
     | NameGuidNone \<Rightarrow> Inl (MessagingIo (NamedPropertyMapGuidIndexOutOfBounds 0))
     | NameGuidIndex index \<Rightarrow>
       (case map_of m 0x0002 of None \<Rightarrow> Inl (MessagingIo NamedPropertyMapStreamGuidNotFound)
        | Some (PropBinary buffer) \<Rightarrow>
          let start = unat index * 16 in
          if start + 16 > length buffer then Inl (MessagingIo (NamedPropertyMapGuidIndexOutOfBounds index))
          else (case of_lower (property_value_read PtypGuid (take 16 (drop start buffer))) of Inl e \<Rightarrow> Inl e
            | Inr (PropGuid guid) \<Rightarrow> Inr guid
            | Inr v \<Rightarrow> Inl (MessagingIo (InvalidNamedPropertyMapStreamGuid (property_value_type v))))
        | Some v \<Rightarrow> Inl (MessagingIo (InvalidNamedPropertyMapStreamGuid (property_value_type v)))))"

text \<open>The buffer of the GUID stream is a multiple of 16 bytes long when its GUIDs are read one by one.\<close>

fun read_guids :: "nat \<Rightarrow> bytes \<Rightarrow> io_error + guid_value list" where
  "read_guids 0 f = Inr []"
| "read_guids (Suc n) f =
    (case guid_read f of Inl e \<Rightarrow> Inl e
     | Inr (guid, f) \<Rightarrow> (case read_guids n f of Inl e \<Rightarrow> Inl e | Inr guids \<Rightarrow> Inr (guid # guids)))"

definition stream_guid :: "named_properties \<Rightarrow> messaging_io + guid_value list" where
  "stream_guid m =
    (case map_of m 0x0002 of None \<Rightarrow> Inl (MessagingIo NamedPropertyMapStreamGuidNotFound)
     | Some (PropBinary buffer) \<Rightarrow>
       if length buffer mod 16 \<noteq> 0 then Inl (LowerIo (Io InvalidData)) else of_lower (read_guids (length buffer div 16) buffer)
     | Some v \<Rightarrow> Inl (MessagingIo (InvalidNamedPropertyMapStreamGuid (property_value_type v))))"

section \<open>Reading the map of a store\<close>

text \<open>The properties of a context in the order of their identifiers, as the \<open>BTreeMap\<close> iterates.\<close>

definition context_items :: "'w property_context \<Rightarrow> io_error + (u16 \<times> property_record) list" where
  "context_items ctx =
    (case heap_tree_entries 2 6 read_u16 property_record_read (ctx_heap ctx) (ctx_root ctx) of Inl e \<Rightarrow> Inl e
     | Inr entries \<Rightarrow> Inr (map (\<lambda>k. (k, the (map_of (rev entries) k))) (sort (remdups (map fst entries)))))"

fun read_properties ::
  "('a::len word, 'e, 'c) block_source \<Rightarrow> 'a word subnode_format \<Rightarrow> value_layout \<Rightarrow> nat \<Rightarrow> 'a word property_context
    \<Rightarrow> (u16 \<times> property_record) list \<Rightarrow> nat option \<Rightarrow> 'c \<Rightarrow> 'a word block_cache
    \<Rightarrow> (io_error + named_properties) \<times> 'c" where
  "read_properties S N L buf ctx [] budget pc bc = (Inr [], pc)"
| "read_properties S N L buf ctx ((prop_id, record_value) # items) budget pc bc =
    (case read_property S N L buf ctx record_value budget pc bc of
       (Inl e, _, pc, _) \<Rightarrow> (Inl e, pc)
     | (Inr v, budget, pc, bc) \<Rightarrow>
       (case read_properties S N L buf ctx items budget pc bc of (Inl e, pc) \<Rightarrow> (Inl e, pc)
        | (Inr properties, pc) \<Rightarrow> (Inr ((prop_id, v) # properties), pc)))"

definition NID_NAME_TO_ID_MAP :: node_id where
  "NID_NAME_TO_ID_MAP = 0x61"

text \<open>
  \<open>NamedPropertyMapInner::read\<close> for a Unicode file, with the depths of the two searches and the caches of the file; the
  lock on the file is free.
\<close>

definition named_map_read ::
  "nat \<Rightarrow> nat \<Rightarrow> value_layout \<Rightarrow> nat \<Rightarrow> bytes \<Rightarrow> unicode_header
    \<Rightarrow> (unicode_node_entry, u64) page_cache \<Rightarrow> (unicode_block_entry, u64) page_cache
    \<Rightarrow> (io_error + named_properties) \<times> (unicode_node_entry, u64) page_cache \<times> (unicode_block_entry, u64) page_cache" where
  "named_map_read node_stack block_stack L buf file h npc bpc =
    (case unicode_node_btree_read file (root_node_btree (uh_root h)) of Inl e \<Rightarrow> (Inl e, npc, bpc)
     | Inr node_btree \<Rightarrow>
    (case unicode_block_btree_read file (root_block_btree (uh_root h)) of Inl e \<Rightarrow> (Inl e, npc, bpc)
     | Inr block_btree \<Rightarrow>
    (case btree_find node_stack (unicode_node_btree_read file) id unicode_node_entry_key node_btree (ucast NID_NAME_TO_ID_MAP) npc of
       (Inl e, npc) \<Rightarrow> (Inl e, npc, bpc)
     | (Inr node, npc) \<Rightarrow>
       let S = unicode_source block_stack file (uh_crypt_method h) block_btree in
    (case heap_node_read S (block_id_search_key (un_data node)) bpc of (Inl e, bpc) \<Rightarrow> (Inl e, npc, bpc)
     | (Inr heap, bpc) \<Rightarrow>
    (case heap_header heap of Inl e \<Rightarrow> (Inl e, npc, bpc)
     | Inr header \<Rightarrow>
       let ctx = \<lparr>ctx_sub_node = un_sub_node node, ctx_heap = heap, ctx_root = hn_user_root header\<rparr> in
    (case context_items ctx of Inl e \<Rightarrow> (Inl e, npc, bpc)
     | Inr items \<Rightarrow>
       (case read_properties S unicode_subnode_format L buf ctx items (Some 0) bpc (\<lambda>_. None) of (r, bpc) \<Rightarrow> (r, npc, bpc))))))))"

section \<open>Round trips\<close>

definition name_id_entry_ok :: "name_id_entry \<Rightarrow> bool" where
  "name_id_entry_ok e \<longleftrightarrow> 0x8000 \<le> ni_prop_index e \<and> (\<forall>i. ni_guid e = NameGuidIndex i \<longrightarrow> i < 0x7FFD)"

lemma push_drop_guid:
  assumes "(w :: u16) < 0x8000"
  shows "drop_bit 1 (push_bit 1 w) = w" "drop_bit 1 (push_bit 1 w OR 1) = w" "push_bit 1 w AND 1 = 0" "(push_bit 1 w OR 1) AND 1 = 1"
proof -
  have "drop_bit 15 w = 0" using assms by (simp add: drop_bit_eq_div word_arith_nat_div unat_div word_less_nat_alt)
  then have "\<not> bit w 15" by (metis bit_0 bit_drop_bit_eq comp_apply add.right_neutral odd_iff_mod_2_eq_one bit_iff_odd_drop_bit even_zero)
  then have top: "bit w n \<Longrightarrow> Suc n < 16" for n using bit_imp_le_length [of w n] by (cases "n = 15") auto
  show "drop_bit 1 (push_bit 1 w) = w" "drop_bit 1 (push_bit 1 w OR 1) = w"
    by (rule bit_word_eqI; simp only: bit_drop_bit_eq bit_push_bit_iff bit_or_iff bit_1_iff comp_def; use top in auto)+
  show "push_bit 1 w AND 1 = 0" "(push_bit 1 w OR 1) AND 1 = 1"
    by (rule bit_word_eqI; simp only: bit_simps; auto)+
qed

lemma named_index_round_trip:
  assumes "0x8000 \<le> p"
  shows "named_index_try_from (named_index_code p) = Inr p"
proof -
  have "p - 0x8000 < 0x8000" using assms unsigned_less [of p, where 'a = nat] by (simp add: word_less_nat_alt word_le_nat_alt unat_sub)
  then show ?thesis by (simp add: named_index_try_from_def named_index_code_def linorder_not_le)
qed

lemma three_le: "3 \<le> (w :: u16) \<Longrightarrow> w \<noteq> 0 \<and> w \<noteq> 1 \<and> w \<noteq> 2"
  by (auto simp: word_le_nat_alt)

lemma named_guid_round_trip:
  assumes "\<forall>i. g = NameGuidIndex i \<longrightarrow> i < 0x7FFD"
  shows "named_guid_code g < 0x8000" "named_guid_try_from (named_guid_code g) = Inr g"
proof -
  have code: "named_guid_code (NameGuidIndex i) < 0x8000 \<and> 3 \<le> named_guid_code (NameGuidIndex i)" if "i < 0x7FFD" for i
  proof -
    have "unat (i + 3) = unat i + 3" using that by (simp add: word_less_nat_alt unat_word_ariths)
    then show ?thesis using that by (simp add: word_less_nat_alt word_le_nat_alt)
  qed
  show lt: "named_guid_code g < 0x8000" using assms code by (cases g) auto
  then have "named_guid_code g AND 0x8000 = 0"
  proof -
    have m: "(0x8000 :: u16) = push_bit 15 1" by simp
    have "\<not> bit (named_guid_code g) 15"
      using lt by (simp add: bit_iff_odd drop_bit_eq_div word_arith_nat_div unat_div word_less_nat_alt)
    then show ?thesis unfolding m by (intro bit_word_eqI) (simp only: bit_simps, auto dest: le_antisym)
  qed
  moreover have "i + 3 \<noteq> 0 \<and> i + 3 \<noteq> 1 \<and> i + 3 \<noteq> 2" if "g = NameGuidIndex i" for i
    using code [of i] assms that three_le [of "i + 3"] by simp
  ultimately show "named_guid_try_from (named_guid_code g) = Inr g"
    by (cases g) (simp_all add: named_guid_try_from_def)
qed

lemma name_id_entry_round_trip:
  assumes "name_id_entry_ok e"
  shows "name_id_entry_read (name_id_entry_write e @ r) = Inr (e, r)"
proof -
  have g: "named_guid_code (ni_guid e) < 0x8000" "named_guid_try_from (named_guid_code (ni_guid e)) = Inr (ni_guid e)"
    using named_guid_round_trip [of "ni_guid e"] assms by (auto simp: name_id_entry_ok_def)
  have i: "named_index_try_from (named_index_code (ni_prop_index e)) = Inr (ni_prop_index e)"
    using assms by (simp add: name_id_entry_ok_def named_index_round_trip)
  show ?thesis
    using i g push_drop_guid [OF g(1)]
    by (cases "ni_id e") (simp_all add: name_id_entry_read_def name_id_entry_write_def name_id_fields_def Let_def)
qed

lemma length_name_id_entry [simp]: "length (name_id_entry_write e) = 8"
  by (simp add: name_id_entry_write_def split: prod.splits)

lemma read_name_ids_written:
  assumes "\<forall>e\<in>set es. name_id_entry_ok e"
  shows "read_name_ids (concat (map name_id_entry_write es)) = Inr es"
  using assms
proof (induction es)
  case (Cons e es)
  have "name_id_entry_write e \<noteq> []" by (metis length_name_id_entry list.size(3) zero_neq_numeral)
  then show ?case using Cons by (subst read_name_ids.simps) (simp add: name_id_entry_round_trip)
qed (simp add: read_name_ids.simps)

lemma length_name_ids: "length (concat (map name_id_entry_write es)) = 8 * length es"
  by (induction es) simp_all

text \<open>The string stream: an entry with its padding, and the offsets of a list of entries.\<close>

definition padded_entry :: "bytes \<Rightarrow> bytes" where
  "padded_entry bs = write_u32 (word_of_nat (length bs)) @ bs @ replicate ((4 - length bs mod 4) mod 4) 0"

definition entry_of :: "bytes \<Rightarrow> string_entry" where
  "entry_of bs = \<lparr>se_size = word_of_nat (length bs), se_buffer = bs\<rparr>"

fun string_index :: "nat \<Rightarrow> bytes list \<Rightarrow> (u32 \<times> string_entry) list" where
  "string_index position [] = []"
| "string_index position (bs # bss) = (word_of_nat position, entry_of bs) # string_index (position + length (padded_entry bs)) bss"

definition entry_bytes_ok :: "bytes \<Rightarrow> bool" where
  "entry_bytes_ok bs \<longleftrightarrow> even (length bs) \<and> length bs < 2 ^ 32"

lemma length_padded_entry: "length (padded_entry bs) = 4 + length bs + (4 - length bs mod 4) mod 4"
  by (simp add: padded_entry_def)

lemma padded_entry_dvd: "4 dvd length (padded_entry bs)"
proof -
  define q r where "q = length bs div 4" and "r = length bs mod 4"
  then have n: "length bs = 4 * q + r" "r < 4" by simp_all
  then have "4 + length bs + (4 - r) mod 4 = 4 * (if r = 0 then q + 1 else q + 2)" by auto
  then show ?thesis unfolding length_padded_entry r_def by (metis dvd_triv_left)
qed

lemma word_length_ops:
  assumes "length bs < 2 ^ 32"
  shows "unat (word_of_nat (length bs) :: u32) = length bs"
    "(word_of_nat (length bs) :: u32) mod 2 = 0 \<longleftrightarrow> even (length bs)"
    "unat ((4 - (word_of_nat (length bs) :: u32) mod 4) mod 4) = (4 - length bs mod 4) mod 4"
proof -
  show u: "unat (word_of_nat (length bs) :: u32) = length bs" using assms by (simp add: unsigned_of_nat take_bit_nat_eq_self)
  show "(word_of_nat (length bs) :: u32) mod 2 = 0 \<longleftrightarrow> even (length bs)"
    by (simp add: unat_eq_0 [symmetric] unat_mod u even_iff_mod_2_eq_zero)
  have m: "unat ((word_of_nat (length bs) :: u32) mod 4) = length bs mod 4" by (simp add: unat_mod u)
  then have "(word_of_nat (length bs) :: u32) mod 4 \<le> 4" by (simp add: word_le_nat_alt)
  then show "unat ((4 - (word_of_nat (length bs) :: u32) mod 4) mod 4) = (4 - length bs mod 4) mod 4"
    by (simp add: unat_mod unat_sub u)
qed

lemma string_entry_read_padded:
  assumes "entry_bytes_ok bs"
  shows "string_entry_read (padded_entry bs @ rest) = Inr (entry_of bs, replicate ((4 - length bs mod 4) mod 4) 0 @ rest)"
  using assms word_length_ops [of bs]
  by (simp add: entry_bytes_ok_def padded_entry_def string_entry_read_def string_entry_new_def entry_of_def Let_def)

lemma string_entries_loop_padded:
  assumes "bytes = front @ concat (map padded_entry bss)" "\<forall>bs\<in>set bss. entry_bytes_ok bs" "length front = position"
    "\<forall>k<length bss. position + length (concat (map padded_entry (take k bss))) < 2 ^ 32"
  shows "string_entries_loop bytes position = Inr (string_index position bss)"
  using assms
proof (induction bss arbitrary: front position)
  case Nil
  then show ?case by (simp add: string_entries_loop.simps)
next
  case (Cons bs bss)
  let ?pad = "(4 - length bs mod 4) mod 4" and ?rest = "concat (map padded_entry bss)"
  have ok: "entry_bytes_ok bs" "length bs < 2 ^ 32" using Cons.prems(2) by (auto simp: entry_bytes_ok_def)
  have pos: "position < 2 ^ 32" using Cons.prems(4) by fastforce
  have stop: "length bytes - length (replicate ?pad (0 :: u8) @ ?rest) + ?pad = position + length (padded_entry bs)"
    using Cons.prems(1,3) by (simp add: length_padded_entry)
  have "string_entries_loop bytes (position + length (padded_entry bs)) = Inr (string_index (position + length (padded_entry bs)) bss)"
  proof (rule Cons.IH [of "front @ padded_entry bs"])
    show "\<forall>k<length bss. position + length (padded_entry bs) + length (concat (map padded_entry (take k bss))) < 2 ^ 32"
    proof (intro allI impI)
      fix k assume "k < length bss"
      then show "position + length (padded_entry bs) + length (concat (map padded_entry (take k bss))) < 2 ^ 32"
        using Cons.prems(4) [rule_format, of "Suc k"] by simp
    qed
  qed (use Cons.prems in auto)
  moreover have "position < length bytes" using Cons.prems(1,3) by (simp add: length_padded_entry)
  moreover have "position + length (padded_entry bs) \<le> length bytes" using Cons.prems(1,3) by simp
  ultimately show ?case using pos stop Cons.prems(1,3) string_entry_read_padded [OF ok(1), of ?rest] word_length_ops(3) [OF ok(2)]
    by (subst string_entries_loop.simps) (simp add: Let_def entry_of_def list_ex_iff)
qed

lemma string_index_nth:
  "k < length bss \<Longrightarrow> string_index position bss ! k = (word_of_nat (position + length (concat (map padded_entry (take k bss)))), entry_of (bss ! k))"
  by (induction bss arbitrary: position k) (auto simp: nth_Cons' take_Cons' add.assoc)

lemma length_string_index [simp]: "length (string_index position bss) = length bss"
  by (induction bss arbitrary: position) simp_all

lemma length_take_padded_mono:
  "j < k \<Longrightarrow> k \<le> length bss \<Longrightarrow> length (concat (map padded_entry (take j bss))) < length (concat (map padded_entry (take k bss)))"
proof -
  assume j: "j < k" "k \<le> length bss"
  then have "take k bss = take j bss @ bss ! j # drop (Suc j) (take k bss)"
    using id_take_nth_drop [of j "take k bss"] by (simp add: min_def)
  then have "concat (map padded_entry (take k bss)) =
      concat (map padded_entry (take j bss)) @ padded_entry (bss ! j) @ concat (map padded_entry (drop (Suc j) (take k bss)))"
    by (metis map_append concat_append list.map(2) concat.simps(2))
  then show ?thesis by (simp add: length_padded_entry)
qed

lemma find_string_index:
  assumes "k < length bss" "\<forall>k<length bss. length (concat (map padded_entry (take k bss))) < 2 ^ 32"
  shows "List.find (\<lambda>(entry_offset, _). entry_offset = word_of_nat (length (concat (map padded_entry (take k bss))))) (string_index 0 bss) =
    Some (word_of_nat (length (concat (map padded_entry (take k bss)))), entry_of (bss ! k))"
proof -
  let ?o = "\<lambda>k. length (concat (map padded_entry (take k bss)))"
  have "fst (string_index 0 bss ! j) \<noteq> word_of_nat (?o k)" if "j < k" for j
  proof -
    have "?o j < ?o k" "?o k < 2 ^ 32" using length_take_padded_mono [OF that] assms by simp_all
    then have "(word_of_nat (?o j) :: u32) \<noteq> word_of_nat (?o k)"
      by (subst word_unat_eq_iff) (simp add: unsigned_of_nat take_bit_nat_eq_self)
    then show ?thesis using that assms(1) by (simp add: string_index_nth)
  qed
  then show ?thesis using assms(1) by (subst find_Some_iff) (force simp: string_index_nth split_beta)
qed

lemma context_items_Inr:
  assumes "context_properties ctx = Inr m"
  shows "\<exists>items. context_items ctx = Inr items \<and> sorted_wrt (<) (map fst items) \<and> set items = {(k, r). m k = Some r}"
proof -
  obtain entries where e: "heap_tree_entries 2 6 read_u16 property_record_read (ctx_heap ctx) (ctx_root ctx) = Inr entries" "m = map_of (rev entries)"
    using assms by (auto simp: context_properties_def split: sum.splits)
  have "k \<in> fst ` set entries \<longleftrightarrow> k \<in> dom m" for k by (simp add: e(2) dom_map_of_conv_image_fst)
  then show ?thesis using e
    by (auto simp: context_items_def comp_def strict_sorted_iff image_iff dom_def) force+
qed

text \<open>Decoding UTF-16 after encoding it is in the theory of the writer, which has the encoder.\<close>

lemma entry_units_bytes: "entry_units (length us) (concat (map write_u16 us)) = us"
  by (induction us) simp_all

end
