(* ===== verification/Writer_Named.thy ===== *)
theory Writer_Named
  imports Writer_Large Msg_Named "HOL-Library.List_Lexorder"
begin

text \<open>
  The named property map of a store (\<open>writer.rs\<close>): the streams and hash buckets built from the
  names of all messages, their context, and the validation of a finished store against the names. The theorems
  compose them with the reader of the map in \<open>Msg_Named\<close>.
\<close>

section \<open>Names\<close>

datatype named_property_set = SetMapi | SetPublicStrings | SetGuid bytes

datatype named_property_name = NumericName u32 | StringName rust_string

type_synonym named_identity = "named_property_set \<times> named_property_name"

fun named_identity_index :: "named_identity list \<Rightarrow> named_identity \<Rightarrow> nat option" where
  "named_identity_index [] identity = None"
| "named_identity_index (candidate # candidates) identity =
    (if candidate = identity then Some 0 else map_option Suc (named_identity_index candidates identity))"

section \<open>The map\<close>

definition reserved_entry :: bytes where
  "reserved_entry = write_u32 0x00008005 @ write_u16 0x0002 @ write_u16 0"

definition mapi_guid :: bytes where
  "mapi_guid = [0x28, 0x03, 0x02, 0x00, 0x00, 0x00, 0x00, 0x00, 0xC0, 0x00, 0x00, 0x00, 0x00, 0x00, 0x00, 0x46]"

text \<open>The GUIDs in lexicographic order without repetitions, and \<open>binary_search\<close> in them.\<close>

definition custom_guids :: "named_identity list \<Rightarrow> bytes list" where
  "custom_guids named =
    remdups_adj (sort (List.map_filter (\<lambda>(set, _). case set of SetGuid guid \<Rightarrow> Some guid | _ \<Rightarrow> None) named))"

definition binary_search :: "bytes list \<Rightarrow> bytes \<Rightarrow> nat option" where
  "binary_search xs v =
    (let position = partition_point (\<lambda>x. x < v) xs in if position < length xs \<and> xs ! position = v then Some position else None)"

definition named_guid :: "bytes list \<Rightarrow> named_property_set \<Rightarrow> writer_error + u16" where
  "named_guid custom st =
    (case st of
       SetMapi \<Rightarrow> Inr 1
     | SetPublicStrings \<Rightarrow> Inr 2
     | SetGuid v \<Rightarrow>
       (case binary_search custom v of None \<Rightarrow> Inl (InvalidStructure (Literal ''named GUID is not indexed''))
        | Some position \<Rightarrow>
          if position \<ge> 2 ^ 16 then Inl (ValueTooLarge ''named-property GUID count'')
          else (case checked_add_w (word_of_nat position) 3 of None \<Rightarrow> Inl (ValueTooLarge ''named-property GUID count'')
            | Some guid \<Rightarrow> Inr guid)))"

text \<open>The ordered map of buckets: \<open>entry(bucket).or_default().extend_from_slice\<close>.\<close>

fun bucket_extend :: "u16 \<Rightarrow> bytes \<Rightarrow> (u16 \<times> bytes) list \<Rightarrow> (u16 \<times> bytes) list" where
  "bucket_extend k bs [] = [(k, bs)]"
| "bucket_extend k bs ((k', bs') # buckets) =
    (if k = k' then (k', bs' @ bs) # buckets
     else if k < k' then (k, bs) # (k', bs') # buckets
     else (k', bs') # bucket_extend k bs buckets)"

record named_streams =
  nm_entries :: bytes
  nm_strings :: bytes
  nm_buckets :: "(u16 \<times> bytes) list"

text \<open>The three parts of an entry for a name, with the string stream after it.\<close>

definition named_parts :: "u16 \<Rightarrow> named_property_name \<Rightarrow> bytes \<Rightarrow> writer_error + (u32 \<times> u16 \<times> u32) \<times> bytes" where
  "named_parts guid name strings =
    (case name of
       NumericName identifier \<Rightarrow> Inr ((identifier, push_bit 1 guid, identifier), strings)
     | StringName name \<Rightarrow>
       if length strings \<ge> 2 ^ 32 then Inl (ValueTooLarge ''named-property string stream'')
       else let offset = word_of_nat (length strings); encoded = unicode_bytes name in
         if length encoded \<ge> 2 ^ 32 then Inl (ValueTooLarge ''named-property name'')
         else let strings = strings @ write_u32 (word_of_nat (length encoded)) @ encoded;
                  strings = strings @ replicate ((4 - length strings mod 4) mod 4) 0
           in Inr ((offset, push_bit 1 guid OR 1, compute_crc 0 encoded), strings))"

text \<open>The bucket is below 251, so its conversion to \<open>u16\<close> always succeeds.\<close>

definition named_step :: "bytes list \<Rightarrow> nat \<Rightarrow> named_identity \<Rightarrow> named_streams \<Rightarrow> writer_error + named_streams" where
  "named_step custom index identity st =
    (case named_guid custom (fst identity) of Inl e \<Rightarrow> Inl e
     | Inr guid \<Rightarrow>
    (case named_parts guid (snd identity) (nm_strings st) of Inl e \<Rightarrow> Inl e
     | Inr ((identifier, guid_and_kind, hash_identifier), strings) \<Rightarrow>
       if index \<ge> 2 ^ 16 then Inl (ValueTooLarge ''named-property count'')
       else let entry = write_u32 identifier @ write_u16 guid_and_kind @ write_u16 (word_of_nat index);
                bucket = ucast ((hash_identifier XOR ucast guid_and_kind) mod 251)
         in Inr \<lparr>nm_entries = nm_entries st @ entry, nm_strings = strings, nm_buckets = bucket_extend bucket entry (nm_buckets st)\<rparr>))"

fun named_loop :: "bytes list \<Rightarrow> nat \<Rightarrow> named_identity list \<Rightarrow> named_streams \<Rightarrow> writer_error + named_streams" where
  "named_loop custom index [] st = Inr st"
| "named_loop custom index (identity # named) st =
    (case named_step custom index identity st of Inl e \<Rightarrow> Inl e | Inr st \<Rightarrow> named_loop custom (index + 1) named st)"

definition named_property_map :: "named_identity list \<Rightarrow> writer_error + properties" where
  "named_property_map named =
    (if named = [] then
       Inr [(0x0001, WInteger32 251), (0x0002, WBinary mapi_guid), (0x0003, WBinary reserved_entry),
            (0x0004, WBinary []), (0x1000, WBinary reserved_entry)]
     else let custom = custom_guids named in
       (case named_loop custom 0 named \<lparr>nm_entries = [], nm_strings = [], nm_buckets = []\<rparr> of Inl e \<Rightarrow> Inl e
        | Inr st \<Rightarrow>
          Inr ([(0x0001, WInteger32 251), (0x0002, WBinary (if custom = [] then mapi_guid else concat custom)),
                (0x0003, WBinary (nm_entries st)), (0x0004, WBinary (nm_strings st))] @
               map (\<lambda>(bucket, entries). (0x1000 + bucket, WBinary entries)) (nm_buckets st))))"

definition build_named_property_context ::
  "named_identity list \<Rightarrow> u64 \<Rightarrow> writer_error + (u64 \<times> u64 option \<times> block_spec list) \<times> u64" where
  "build_named_property_context named next_index =
    (case named_property_map named of Inl e \<Rightarrow> Inl e
     | Inr properties \<Rightarrow>
    (case leaf_bid 2 of Inl e \<Rightarrow> Inl e
     | Inr preferred \<Rightarrow> build_large_context properties 0x50000 preferred next_index))"

section \<open>Validation of the finished map\<close>

text \<open>The error of \<open>?\<close> on an \<open>io::Error\<close> of the messaging layer, and the others.\<close>

datatype (plugins only: code) named_map_error = NamedMapIo messaging_io | NamedMapError writer_error

definition named_invalid :: "string \<Rightarrow> named_map_error + 'a" where
  "named_invalid message = Inl (NamedMapError (InvalidStructure (Literal message)))"

definition hex04 :: "u16 \<Rightarrow> string" where
  "hex04 w = map (\<lambda>n. ''0123456789ABCDEF'' ! unat (drop_bit n w AND 0xF)) [12, 8, 4, 0]"

definition value_matches :: "writer_value \<Rightarrow> property_value option \<Rightarrow> bool" where
  "value_matches expected actual =
    (case (expected, actual) of
       (WInteger32 left, Some (PropInteger32 right)) \<Rightarrow> left = right
     | (WBinary left, Some (PropBinary right)) \<Rightarrow> left = right
     | (WBinary left, Some PropNull) \<Rightarrow> left = []
     | _ \<Rightarrow> False)"

fun validate_streams :: "named_properties \<Rightarrow> properties \<Rightarrow> named_map_error + unit" where
  "validate_streams m [] = Inr ()"
| "validate_streams m ((prop_id, expected) # properties) =
    (if value_matches expected (map_of m prop_id) then validate_streams m properties
     else named_invalid (''completed store NAMEID stream or bucket 0x'' @ hex04 prop_id @ '' mismatch''))"

definition validate_name :: "named_properties \<Rightarrow> named_property_id \<Rightarrow> named_property_name \<Rightarrow> named_map_error + unit" where
  "validate_name m actual expected =
    (case (actual, expected) of
       (NameNumber actual, NumericName expected) \<Rightarrow>
         if actual = expected then Inr () else named_invalid ''completed store NAMEID name mismatch''
     | (NameStringOffset offset, StringName expected) \<Rightarrow>
         (case lookup_string m offset of Inl e \<Rightarrow> Inl (NamedMapIo e)
          | Inr s \<Rightarrow> if string_entry_fmt s = expected then Inr () else named_invalid ''completed store NAMEID name mismatch'')
     | _ \<Rightarrow> named_invalid ''completed store NAMEID name mismatch'')"

definition validate_guid :: "named_properties \<Rightarrow> named_property_guid \<Rightarrow> named_property_set \<Rightarrow> named_map_error + unit" where
  "validate_guid m actual expected =
    (case (actual, expected) of
       (NameGuidMapi, SetMapi) \<Rightarrow> Inr ()
     | (NameGuidPublicStrings, SetPublicStrings) \<Rightarrow> Inr ()
     | (NameGuidIndex index, SetGuid expected) \<Rightarrow>
         (case lookup_guid m (NameGuidIndex index) of Inl e \<Rightarrow> Inl (NamedMapIo e)
          | Inr guid \<Rightarrow> if guid_to_le_bytes guid = expected then Inr () else named_invalid ''completed store NAMEID GUID mismatch'')
     | _ \<Rightarrow> named_invalid ''completed store NAMEID GUID mismatch'')"

fun validate_entries :: "named_properties \<Rightarrow> nat \<Rightarrow> (name_id_entry \<times> named_identity) list \<Rightarrow> named_map_error + unit" where
  "validate_entries m index [] = Inr ()"
| "validate_entries m index ((entry, expected_set, expected_name) # rest) =
    (if index \<ge> 2 ^ 16 then named_invalid ''NAMEID index overflow''
     else case checked_add_w 0x8000 (word_of_nat index) of None \<Rightarrow> named_invalid ''NAMEID index overflow''
     | Some expected_id \<Rightarrow>
       if ni_prop_index entry \<noteq> expected_id then named_invalid ''completed store NAMEID property index mismatch''
       else (case validate_name m (ni_id entry) expected_name of Inl e \<Rightarrow> Inl e
         | Inr _ \<Rightarrow> (case validate_guid m (ni_guid entry) expected_set of Inl e \<Rightarrow> Inl e
           | Inr _ \<Rightarrow> validate_entries m (index + 1) rest)))"

definition validate_named_map :: "named_properties \<Rightarrow> named_identity list \<Rightarrow> named_map_error + unit" where
  "validate_named_map m expected =
    (case named_property_map expected of Inl e \<Rightarrow> Inl (NamedMapError e)
     | Inr expected_properties \<Rightarrow>
       if length m \<noteq> length expected_properties then named_invalid ''completed store NAMEID property count mismatch''
       else (case validate_streams m expected_properties of Inl e \<Rightarrow> Inl e
         | Inr _ \<Rightarrow>
           if expected = [] then Inr ()
           else (case stream_entry m of Inl e \<Rightarrow> Inl (NamedMapIo e)
             | Inr entries \<Rightarrow>
               if length entries \<noteq> length expected then named_invalid ''completed store NAMEID entry count mismatch''
               else validate_entries m 0 (zip entries expected))))"

section \<open>UTF-16\<close>

definition scalar :: "u32 \<Rightarrow> bool" where
  "scalar c \<longleftrightarrow> c < 0xD800 \<or> 0xE000 \<le> c \<and> c \<le> 0x10FFFF"

lemma lossy_plain: "u < 0xD800 \<or> 0xE000 \<le> u \<Longrightarrow> from_utf16_lossy (u # us) = ucast u # from_utf16_lossy us"
  by (cases us) auto

lemma or_small:
  assumes "unat (w :: u16) < 0x400"
  shows "unat (0xD800 OR w) = 0xD800 + unat w" "unat (0xDC00 OR w) = 0xDC00 + unat w"
proof -
  have "take_bit 10 w = w" using assms by (simp add: word_unat_eq_iff unsigned_take_bit_eq take_bit_nat_eq_self)
  then have small: "bit w n \<Longrightarrow> n < 10" for n by (metis bit_take_bit_iff)
  have d: "(0xD800 :: u16) = push_bit 10 54" "(0xDC00 :: u16) = push_bit 10 55" by simp_all
  have "0xD800 OR w = 0xD800 + w" "0xDC00 OR w = 0xDC00 + w"
    unfolding d by (rule disjunctive_add [symmetric]; use small in \<open>force simp only: bit_push_bit_iff\<close>)+
  then show "unat (0xD800 OR w) = 0xD800 + unat w" "unat (0xDC00 OR w) = 0xDC00 + unat w"
    using assms by (simp_all add: unat_word_ariths)
qed

lemma lossy_units:
  assumes "scalar c"
  shows "from_utf16_lossy (utf16_units c @ us) = c # from_utf16_lossy us"
proof (cases "c < 0x10000")
  case True
  then have u: "unat (ucast c :: u16) = unat c" by (simp add: word_less_nat_alt unsigned_ucast_eq take_bit_nat_eq_self)
  then have "(ucast c :: u16) < 0xD800 \<or> 0xE000 \<le> (ucast c :: u16)" using assms by (auto simp: scalar_def word_less_nat_alt word_le_nat_alt)
  moreover have "ucast (ucast c :: u16) = c" using u by (simp only: word_unat_eq_iff) (simp add: unsigned_ucast_eq unsigned_take_bit_eq take_bit_nat_eq_self)
  ultimately show ?thesis using True by (simp add: utf16_units_def lossy_plain)
next
  case False
  define d where "d = c - 0x10000"
  have c: "unat c = unat d + 0x10000" "unat d < 2 ^ 20"
    using False assms by (auto simp: d_def scalar_def unat_sub word_less_nat_alt word_le_nat_alt)
  let ?a = "ucast (drop_bit 10 d) :: u16" and ?b = "ucast (d AND 0x3FF) :: u16"
  have m: "d AND 0x3FF = take_bit 10 d" by (simp add: take_bit_eq_mask mask_eq_exp_minus_1)
  have parts: "unat (drop_bit 10 d) = unat d div 0x400" "unat (take_bit 10 d) = unat d mod 0x400"
    by (simp_all add: drop_bit_eq_div take_bit_eq_mod unat_div unat_mod)
  have u: "unat ?a = unat d div 0x400" "unat ?b = unat d mod 0x400"
    unfolding m using c(2) by (simp_all add: unsigned_ucast_eq parts take_bit_nat_eq_self)
  then have hl: "unat (0xD800 OR ?a) = 0xD800 + unat d div 0x400" "unat (0xDC00 OR ?b) = 0xDC00 + unat d mod 0x400"
    using c(2) or_small by simp_all
  have sub: "ucast w - word_of_nat k = (v :: u32)" if "unat (w :: u16) = k + unat v" "k < 2 ^ 16" for w k v
  proof -
    have "unat (ucast w :: u32) = k + unat v" "unat (word_of_nat k :: u32) = k"
      using that unsigned_less [of w, where 'a = nat] by (simp_all add: unsigned_ucast_eq unsigned_of_nat take_bit_nat_eq_self)
    then show ?thesis by (simp only: word_unat_eq_iff) (simp add: unat_sub word_le_nat_alt)
  qed
  have "ucast (0xD800 OR ?a) - 0xD800 = drop_bit 10 d" "ucast (0xDC00 OR ?b) - 0xDC00 = take_bit 10 d"
    using sub [of "0xD800 OR ?a" "0xD800" "drop_bit 10 d"] sub [of "0xDC00 OR ?b" "0xDC00" "take_bit 10 d"] hl parts by (simp_all only:) simp_all
  moreover have "push_bit 10 (drop_bit 10 d) OR take_bit 10 d = d"
    by (rule bit_word_eqI) (simp only: bit_simps, auto)
  moreover have "d + 0x10000 = c" by (simp add: d_def)
  moreover have "\<not> (0xD800 OR ?a) < 0xD800" "(0xD800 OR ?a) < 0xDC00" "0xDC00 \<le> (0xDC00 OR ?b)" "(0xDC00 OR ?b) < 0xE000"
    using c(2) by (simp_all add: word_less_nat_alt word_le_nat_alt hl)
  ultimately show ?thesis using False
    by (simp add: utf16_units_def Let_def d_def [symmetric] word_less_nat_alt word_le_nat_alt hl del: ucast_drop_bit_eq)
qed

lemma lossy_encode: "\<forall>c\<in>set s. scalar c \<Longrightarrow> from_utf16_lossy (encode_utf16 s) = s"
  by (induction s) (simp_all add: encode_utf16_def lossy_units)

lemma string_entry_fmt_bytes:
  assumes "\<forall>c\<in>set s. scalar c" "length (unicode_bytes s) < 2 ^ 32"
  shows "string_entry_fmt (entry_of (unicode_bytes s)) = s"
proof -
  have len: "length (unicode_bytes s) = 2 * length (encode_utf16 s)" by (simp add: unicode_bytes_def length_concat comp_def sum_list_triv)
  then have "unat ((word_of_nat (length (unicode_bytes s)) :: u32) div 2) = length (encode_utf16 s)"
    using word_length_ops(1) [OF assms(2)] by (simp add: unat_div)
  then show ?thesis using lossy_encode [OF assms(1)]
    by (simp add: string_entry_fmt_def entry_of_def entry_units_bytes unicode_bytes_def)
qed

section \<open>Sorted lists\<close>

lemma sorted_dedup: "sorted xs \<Longrightarrow> sorted_wrt (<) (remdups_adj xs)"
  by (induction xs rule: remdups_adj.induct) (auto simp: order.order_iff_strict)

lemma custom_guids_sorted: "sorted_wrt (<) (custom_guids named)"
  by (simp add: custom_guids_def sorted_dedup)

lemma set_custom_guids: "set (custom_guids named) = {g. SetGuid g \<in> fst ` set named}"
  by (force simp: custom_guids_def List.map_filter_def split: named_property_set.splits)

lemma binary_search_nth:
  assumes "sorted_wrt (<) xs" "j < length xs"
  shows "partition_point (\<lambda>x. x < xs ! j) xs = j" "binary_search xs (xs ! j) = Some j"
proof -
  show p: "partition_point (\<lambda>x. x < xs ! j) xs = j"
    using assms sorted_wrt_nth_less [OF assms(1)] by (intro partition_point_eq) (auto, metis linorder_neqE_nat order_less_asym order_less_irrefl)
  show "binary_search xs (xs ! j) = Some j" using assms(2) by (simp add: binary_search_def Let_def p)
qed

section \<open>Buckets\<close>

lemma bucket_extend_keys: "fst ` set (bucket_extend k bs buckets) = insert k (fst ` set buckets)"
  by (induction k bs buckets rule: bucket_extend.induct) auto

lemma bucket_extend_sorted: "sorted_wrt (<) (map fst buckets) \<Longrightarrow> sorted_wrt (<) (map fst (bucket_extend k bs buckets))"
  by (induction k bs buckets rule: bucket_extend.induct) (auto simp: bucket_extend_keys [unfolded image_set [symmetric]] image_iff)

lemma bucket_extend_lookup:
  assumes "sorted_wrt (<) (map fst buckets)"
  shows "map_of (bucket_extend k bs buckets) = (map_of buckets)(k \<mapsto> (case map_of buckets k of None \<Rightarrow> [] | Some old \<Rightarrow> old) @ bs)"
  using assms
proof (induction k bs buckets rule: bucket_extend.induct)
  case (2 k bs k' bs' buckets)
  moreover have "map_of buckets k = None" if "k < k'"
    using 2(2) that by (auto simp: map_of_eq_None_iff)
  ultimately show ?case by (auto simp: fun_eq_iff)
qed auto

section \<open>What the loop writes\<close>

text \<open>The entries of the names, in the reader's terms, when the string stream starts at a position.\<close>

definition name_bytes :: "named_property_name \<Rightarrow> bytes list" where
  "name_bytes name = (case name of NumericName _ \<Rightarrow> [] | StringName s \<Rightarrow> [unicode_bytes s])"

definition string_bytes :: "named_identity list \<Rightarrow> bytes list" where
  "string_bytes named = concat (map (name_bytes \<circ> snd) named)"

definition set_guid :: "bytes list \<Rightarrow> named_property_set \<Rightarrow> named_property_guid" where
  "set_guid custom st = (case st of SetMapi \<Rightarrow> NameGuidMapi | SetPublicStrings \<Rightarrow> NameGuidPublicStrings
    | SetGuid v \<Rightarrow> NameGuidIndex (word_of_nat (partition_point (\<lambda>x. x < v) custom)))"

definition named_entry :: "bytes list \<Rightarrow> named_identity list \<Rightarrow> nat \<Rightarrow> name_id_entry" where
  "named_entry custom named i =
    \<lparr>ni_id = (case snd (named ! i) of NumericName n \<Rightarrow> NameNumber n
       | StringName _ \<Rightarrow> NameStringOffset (word_of_nat (length (concat (map padded_entry (string_bytes (take i named))))))),
     ni_guid = set_guid custom (fst (named ! i)), ni_prop_index = 0x8000 + word_of_nat i\<rparr>"

definition name_hash :: "named_property_name \<Rightarrow> u32" where
  "name_hash name = (case name of NumericName n \<Rightarrow> n | StringName s \<Rightarrow> compute_crc 0 (unicode_bytes s))"

definition entry_bucket :: "named_property_name \<Rightarrow> name_id_entry \<Rightarrow> u16" where
  "entry_bucket name e = ucast ((name_hash name XOR ucast (snd (name_id_fields e))) mod 251)"

text \<open>Names whose streams the reader can address.\<close>

definition identity_ok :: "named_identity \<Rightarrow> bool" where
  "identity_ok identity \<longleftrightarrow> (\<forall>g. fst identity = SetGuid g \<longrightarrow> length g = 16) \<and> (\<forall>s. snd identity = StringName s \<longrightarrow> (\<forall>c\<in>set s. scalar c))"

definition written_prefix :: "bytes list \<Rightarrow> named_identity list \<Rightarrow> nat \<Rightarrow> named_streams \<Rightarrow> bool" where
  "written_prefix custom named i st \<longleftrightarrow> i \<le> length named \<and> i \<le> 2 ^ 16 \<and>
    nm_entries st = concat (map (\<lambda>k. name_id_entry_write (named_entry custom named k)) [0..<i]) \<and>
    nm_strings st = concat (map padded_entry (string_bytes (take i named))) \<and>
    (\<forall>bs\<in>set (string_bytes (take i named)). entry_bytes_ok bs) \<and>
    (\<forall>k<i. \<forall>s. snd (named ! k) = StringName s \<longrightarrow> length (concat (map padded_entry (string_bytes (take k named)))) < 2 ^ 32) \<and>
    sorted_wrt (<) (map fst (nm_buckets st)) \<and>
    (\<forall>b. map_of (nm_buckets st) b =
      (let ks = filter (\<lambda>k. entry_bucket (snd (named ! k)) (named_entry custom named k) = b) [0..<i] in
       if ks = [] then None else Some (concat (map (\<lambda>k. name_id_entry_write (named_entry custom named k)) ks))))"

lemma length_concat_padded: "4 dvd length (concat (map padded_entry bss))"
  by (induction bss) (simp_all add: padded_entry_dvd)

lemma even_unicode_bytes: "even (length (unicode_bytes s))"
  by (simp add: unicode_bytes_def length_concat comp_def sum_list_triv)

lemma named_guid_code_set:
  assumes "named_guid custom st = Inr guid" "sorted_wrt (<) custom"
  shows "named_guid_code (set_guid custom st) = guid"
  using assms
  by (auto simp: named_guid_def set_guid_def binary_search_def Let_def checked_add_w_def split: named_property_set.splits option.splits if_splits)

lemma padding_aligned:
  assumes "4 dvd (n :: nat)"
  shows "(n + k) mod 4 = k mod 4"
  using assms by (metis dvd_imp_mod_0 mod_add_left_eq add_0)

lemma named_parts_spec:
  assumes "named_parts guid name strings = Inr ((identifier, guid_and_kind, hash), strings')" "4 dvd length strings"
  shows "strings' = strings @ concat (map padded_entry (name_bytes name))" "\<forall>bs\<in>set (name_bytes name). entry_bytes_ok bs"
    "\<forall>s. name = StringName s \<longrightarrow> length strings < 2 ^ 32" "hash = name_hash name"
    "named_guid_code g = guid \<Longrightarrow>
      name_id_fields \<lparr>ni_id = (case name of NumericName n \<Rightarrow> NameNumber n | StringName _ \<Rightarrow> NameStringOffset (word_of_nat (length strings))),
       ni_guid = g, ni_prop_index = p\<rparr> = (identifier, guid_and_kind)"
  using assms even_unicode_bytes
  by (auto simp: named_parts_def name_bytes_def name_hash_def name_id_fields_def Let_def padded_entry_def entry_bytes_ok_def
      padding_aligned add.assoc split: named_property_name.splits if_splits)

lemma string_bytes_Suc: "i < length named \<Longrightarrow> string_bytes (take (Suc i) named) = string_bytes (take i named) @ name_bytes (snd (named ! i))"
  by (simp add: string_bytes_def take_Suc_conv_app_nth)

lemma named_step_spec:
  assumes step: "named_step custom i (named ! i) st = Inr st'" and pre: "written_prefix custom named i st"
    and i: "i < length named" and custom: "sorted_wrt (<) custom"
  shows "written_prefix custom named (Suc i) st'"
proof -
  let ?e = "named_entry custom named i" and ?name = "snd (named ! i)"
  obtain guid ident guid_and_kind hash strings where
    p: "named_guid custom (fst (named ! i)) = Inr guid"
      "named_parts guid ?name (nm_strings st) = Inr ((ident, guid_and_kind, hash), strings)" "i < 2 ^ 16"
    and st': "st' = (let entry = write_u32 ident @ write_u16 guid_and_kind @ write_u16 (word_of_nat i);
        bucket = ucast ((hash XOR ucast guid_and_kind) mod 251)
      in \<lparr>nm_entries = nm_entries st @ entry, nm_strings = strings, nm_buckets = bucket_extend bucket entry (nm_buckets st)\<rparr>)"
    using step by (auto simp: named_step_def Let_def split: sum.splits if_splits)
  have strings: "nm_strings st = concat (map padded_entry (string_bytes (take i named)))" using pre by (simp add: written_prefix_def)
  then have dvd: "4 dvd length (nm_strings st)" by (simp only: length_concat_padded)
  note parts = named_parts_spec [OF p(2) dvd]
  have fields: "name_id_fields ?e = (ident, guid_and_kind)"
    using parts(5) [OF named_guid_code_set [OF p(1) custom], of "0x8000 + word_of_nat i"] by (simp only: named_entry_def strings)
  have entry: "write_u32 ident @ write_u16 guid_and_kind @ write_u16 (word_of_nat i) = name_id_entry_write ?e"
    by (simp add: name_id_entry_write_def fields) (simp add: named_entry_def named_index_code_def)
  have bucket: "ucast ((hash XOR ucast guid_and_kind) mod 251) = entry_bucket ?name ?e"
    by (simp add: entry_bucket_def fields parts(4))
  have new: "st' = \<lparr>nm_entries = nm_entries st @ name_id_entry_write ?e, nm_strings = strings,
      nm_buckets = bucket_extend (entry_bucket ?name ?e) (name_id_entry_write ?e) (nm_buckets st)\<rparr>"
    unfolding st' Let_def entry bucket ..
  have sorted: "sorted_wrt (<) (map fst (nm_buckets st))" using pre by (simp add: written_prefix_def)
  have "map_of (nm_buckets st') b =
      (let ks = filter (\<lambda>k. entry_bucket (snd (named ! k)) (named_entry custom named k) = b) [0..<Suc i] in
       if ks = [] then None else Some (concat (map (\<lambda>k. name_id_entry_write (named_entry custom named k)) ks)))" for b
    using pre by (auto simp: new bucket_extend_lookup [OF sorted] written_prefix_def Let_def)
  moreover have "length (concat (map padded_entry (string_bytes (take k named)))) < 2 ^ 32" if "k < Suc i" "snd (named ! k) = StringName s" for k s
    using pre parts(3) strings that by (cases "k = i") (auto simp: written_prefix_def)
  ultimately show ?thesis
    using pre i p(3) parts(1,2) bucket_extend_sorted [OF sorted]
    by (simp add: written_prefix_def new string_bytes_Suc strings ball_Un)
qed

lemma named_loop_spec:
  assumes "named_loop custom i (drop i named) st = Inr st'" "written_prefix custom named i st" "sorted_wrt (<) custom"
  shows "written_prefix custom named (length named) st'"
  using assms
proof (induction "length named - i" arbitrary: i st)
  case 0
  then show ?case by (simp add: written_prefix_def)
next
  case (Suc n)
  then have i: "i < length named" by simp
  then have d: "drop i named = named ! i # drop (Suc i) named" by (simp add: Cons_nth_drop_Suc)
  obtain st1 where st1: "named_step custom i (named ! i) st = Inr st1" "named_loop custom (Suc i) (drop (Suc i) named) st1 = Inr st'"
    using Suc.prems(1) by (auto simp: d split: sum.splits)
  show ?case using Suc.hyps(2) by (intro Suc.hyps(1) [OF _ st1(2) named_step_spec [OF st1(1) Suc.prems(2) i Suc.prems(3)] Suc.prems(3)]) simp
qed

lemma written_prefix_0: "written_prefix custom named 0 \<lparr>nm_entries = [], nm_strings = [], nm_buckets = []\<rparr>"
  by (simp add: written_prefix_def string_bytes_def)

section \<open>The streams in the reader's map\<close>

definition map_read :: "properties \<Rightarrow> named_properties" where
  "map_read props = map (\<lambda>(prop_id, v). (prop_id, reader_value v)) props"

lemma map_of_map_read: "map_of (map_read props) k = map_option reader_value (map_of props k)"
  by (simp add: map_read_def map_of_map)

lemma reader_value_binary: "reader_value (WBinary bs) = (if bs = [] then PropNull else PropBinary bs)"
  by (simp add: reader_value_def variable_bytes_def as_reader_def terminated_def)

lemma reader_value_integer: "reader_value (WInteger32 x) = PropInteger32 x"
  by (simp add: reader_value_def variable_bytes_def as_reader_def terminated_def)

text \<open>The parts of the map of a non-empty list of names.\<close>

definition streams_of :: "named_identity list \<Rightarrow> named_streams \<Rightarrow> properties" where
  "streams_of named st =
    [(0x0001, WInteger32 251), (0x0002, WBinary (if custom_guids named = [] then mapi_guid else concat (custom_guids named))),
     (0x0003, WBinary (nm_entries st)), (0x0004, WBinary (nm_strings st))] @
    map (\<lambda>(bucket, entries). (0x1000 + bucket, WBinary entries)) (nm_buckets st)"

lemma named_property_map_Inr:
  assumes "named_property_map named = Inr props" "named \<noteq> []"
  shows "\<exists>st. props = streams_of named st \<and> written_prefix (custom_guids named) named (length named) st"
  using assms named_loop_spec [of "custom_guids named" 0 named, OF _ written_prefix_0 custom_guids_sorted]
  by (auto simp: named_property_map_def Let_def streams_of_def split: sum.splits)

lemma unat_bucket: "unat (ucast ((h :: u32) mod 251) :: u16) = unat h mod 251"
proof -
  have "unat h mod 251 < 2 ^ 16" using mod_less_divisor [of 251 "unat h"] by simp
  then show ?thesis by (simp add: unsigned_ucast_eq unat_mod take_bit_nat_eq_self)
qed

lemma entry_bucket_less: "entry_bucket name e < 251"
  unfolding entry_bucket_def word_less_nat_alt unat_bucket by simp

lemma bucket_keys:
  assumes "written_prefix custom named i st"
  shows "\<forall>b\<in>set (map fst (nm_buckets st)). b < 251" "length (nm_buckets st) \<le> 251"
proof -
  show less: "\<forall>b\<in>set (map fst (nm_buckets st)). b < 251"
  proof
    fix b assume "b \<in> set (map fst (nm_buckets st))"
    then have "map_of (nm_buckets st) b \<noteq> None" by (simp add: map_of_eq_None_iff)
    then have "filter (\<lambda>k. entry_bucket (snd (named ! k)) (named_entry custom named k) = b) [0..<i] \<noteq> []"
      using assms by (auto simp: written_prefix_def Let_def split: if_splits)
    then show "b < 251" using entry_bucket_less by (auto simp: filter_empty_conv)
  qed
  have "distinct (map fst (nm_buckets st))" using assms by (simp add: written_prefix_def strict_sorted_iff)
  then have "distinct (map unat (map fst (nm_buckets st)))" using distinct_map [of unat "map fst (nm_buckets st)"] by (simp add: inj_on_def word_unat_eq_iff)
  moreover have "set (map unat (map fst (nm_buckets st))) \<subseteq> {..<251}" using less by (auto simp: word_less_nat_alt)
  ultimately have "length (map unat (map fst (nm_buckets st))) \<le> 251"
    by (metis card_lessThan card_mono distinct_card finite_lessThan)
  then show "length (nm_buckets st) \<le> 251" by simp
qed

lemma bucket_add: "b < 251 \<Longrightarrow> unat (0x1000 + b :: u16) = 0x1000 + unat b"
  by (simp add: word_less_nat_alt unat_word_ariths)

lemma streams_of_keys:
  assumes "written_prefix custom named i st"
  shows "distinct (map fst (streams_of named st))" "length (streams_of named st) \<le> 255"
proof -
  have b: "\<forall>b\<in>set (map fst (nm_buckets st)). unat (0x1000 + b) = 0x1000 + unat b" using bucket_keys(1) [OF assms] bucket_add by blast
  have "distinct (map fst (nm_buckets st))" using assms by (simp add: written_prefix_def strict_sorted_iff)
  then have "distinct (map ((+) 0x1000) (map fst (nm_buckets st)))" by (simp add: distinct_map inj_on_def)
  moreover have "map fst (map (\<lambda>(bucket, entries). (0x1000 + bucket, WBinary entries)) (nm_buckets st)) = map ((+) 0x1000) (map fst (nm_buckets st))"
    by (simp add: comp_def split_beta)
  moreover have "x \<notin> set (map ((+) 0x1000) (map fst (nm_buckets st)))" if "unat x < 0x1000" for x
    using b that by auto
  ultimately show "distinct (map fst (streams_of named st))" by (simp add: streams_of_def del: map_map)
  show "length (streams_of named st) \<le> 255" using bucket_keys(2) [OF assms] by (simp add: streams_of_def)
qed

lemma streams_of_bucket:
  assumes "written_prefix custom named i st" "b < 251"
  shows "map_of (streams_of named st) (0x1000 + b) = map_option WBinary (map_of (nm_buckets st) b)"
proof -
  have "map_of (map (\<lambda>(bucket, entries). (0x1000 + bucket, WBinary entries)) xs) (0x1000 + b) = map_option WBinary (map_of xs b)" for xs
    by (induction xs) auto
  moreover have "0x1000 + b \<noteq> k" if "unat k < 0x1000" for k using bucket_add [OF assms(2)] that by auto
  ultimately show ?thesis by (simp add: streams_of_def)
qed

lemma named_property_map_shape:
  assumes "named_property_map named = Inr props"
  shows "distinct (map fst props)" "length props \<le> 1000" "\<forall>p\<in>set props. (\<exists>bs. snd p = WBinary bs) \<or> snd p = WInteger32 251"
proof -
  have "distinct (map fst props) \<and> length props \<le> 1000 \<and> (\<forall>p\<in>set props. (\<exists>bs. snd p = WBinary bs) \<or> snd p = WInteger32 251)"
  proof (cases "named = []")
    case True
    then show ?thesis using assms by (auto simp: named_property_map_def)
  next
    case False
    obtain st where st: "props = streams_of named st" "written_prefix (custom_guids named) named (length named) st"
      using named_property_map_Inr [OF assms False] by blast
    have "length props \<le> 255" using streams_of_keys(2) [OF st(2)] st(1) by simp
    then show ?thesis using streams_of_keys(1) [OF st(2)] st(1) by (auto simp: streams_of_def)
  qed
  then show "distinct (map fst props)" "length props \<le> 1000" "\<forall>p\<in>set props. (\<exists>bs. snd p = WBinary bs) \<or> snd p = WInteger32 251" by blast+
qed

section \<open>Validation succeeds\<close>

text \<open>Names the reader can address: no more than its identifiers and GUID indices reach.\<close>

definition names_ok :: "named_identity list \<Rightarrow> bool" where
  "names_ok named \<longleftrightarrow> (\<forall>identity\<in>set named. identity_ok identity) \<and> length named \<le> 0x8000 \<and> length (custom_guids named) \<le> 0x7FFD"

lemma custom_position:
  assumes "i < length named" "fst (named ! i) = SetGuid g"
  shows "\<exists>j<length (custom_guids named). custom_guids named ! j = g \<and> partition_point (\<lambda>x. x < g) (custom_guids named) = j"
proof -
  have "SetGuid g \<in> fst ` set named" using assms by (metis image_eqI nth_mem)
  then have "g \<in> set (custom_guids named)" by (simp add: set_custom_guids)
  then obtain j where "j < length (custom_guids named)" "custom_guids named ! j = g" by (auto simp: in_set_conv_nth)
  then show ?thesis using binary_search_nth(1) [OF custom_guids_sorted] by blast
qed

lemma index_id: "i < 0x8000 \<Longrightarrow> unat (0x8000 + word_of_nat i :: u16) = 0x8000 + i"
  by (simp add: unat_word_ariths unsigned_of_nat take_bit_nat_eq_self)

lemma named_entry_ok:
  assumes "names_ok named" "i < length named"
  shows "name_id_entry_ok (named_entry (custom_guids named) named i)"
proof -
  have "j < 0x7FFD" if p: "set_guid (custom_guids named) (fst (named ! i)) = NameGuidIndex j" for j
  proof -
    obtain g where g: "fst (named ! i) = SetGuid g" using p by (auto simp: set_guid_def split: named_property_set.splits)
    obtain p where "p < length (custom_guids named)" "partition_point (\<lambda>x. x < g) (custom_guids named) = p"
      using custom_position [OF assms(2) g] by blast
    then show ?thesis using p g assms(1) by (auto simp: set_guid_def names_ok_def word_less_nat_alt unsigned_of_nat take_bit_nat_eq_self)
  qed
  moreover have "i < 0x8000" using assms by (simp add: names_ok_def)
  ultimately show ?thesis using index_id [of i] by (simp add: name_id_entry_ok_def named_entry_def word_le_nat_alt)
qed

lemma stream_name_ids_binary:
  assumes "\<forall>e\<in>set es. name_id_entry_ok e"
  shows "stream_name_ids missing invalid (Some (PropBinary (concat (map name_id_entry_write es)))) = Inr es"
  using read_name_ids_written [OF assms] length_name_ids [of es] by (simp add: stream_name_ids_def)

lemma concat_entries_nonempty: "es \<noteq> [] \<Longrightarrow> concat (map name_id_entry_write es) \<noteq> []"
  using length_name_ids [of es] by (metis length_0_conv mult_eq_0_iff zero_neq_numeral)

lemma stream_entry_streams:
  assumes "written_prefix (custom_guids named) named (length named) st" "names_ok named" "named \<noteq> []"
  shows "stream_entry (map_read (streams_of named st)) = Inr (map (named_entry (custom_guids named) named) [0..<length named])"
proof -
  let ?es = "map (named_entry (custom_guids named) named) [0..<length named]"
  have "nm_entries st = concat (map name_id_entry_write ?es)" using assms(1) by (simp add: written_prefix_def comp_def)
  moreover have "concat (map name_id_entry_write ?es) \<noteq> []" using assms(3) by (intro concat_entries_nonempty) simp
  moreover have "map_of (streams_of named st) 3 = Some (WBinary (nm_entries st))" by (simp add: streams_of_def)
  ultimately have "map_of (map_read (streams_of named st)) 3 = Some (PropBinary (concat (map name_id_entry_write ?es)))"
    by (simp only: map_of_map_read reader_value_binary option.map if_False)
  moreover have "\<forall>e\<in>set ?es. name_id_entry_ok e" using named_entry_ok [OF assms(2)] by simp
  ultimately show ?thesis by (simp only: stream_entry_def stream_name_ids_binary)
qed

text \<open>Where the string of a name is among all strings.\<close>

lemma string_bytes_split:
  assumes "i < length named" "snd (named ! i) = StringName s"
  shows "string_bytes named = string_bytes (take i named) @ unicode_bytes s # string_bytes (drop (Suc i) named)"
proof -
  have "string_bytes named = string_bytes (take i named @ named ! i # drop (Suc i) named)" using id_take_nth_drop [OF assms(1)] by simp
  then show ?thesis using assms(2) by (simp add: string_bytes_def name_bytes_def)
qed

lemma string_bytes_prefix:
  "k < length (string_bytes named) \<Longrightarrow>
    \<exists>i<length named. \<exists>s. snd (named ! i) = StringName s \<and> take k (string_bytes named) = string_bytes (take i named)"
proof (induction named arbitrary: k)
  case (Cons x named)
  have cons: "string_bytes (x # named) = name_bytes (snd x) @ string_bytes named" by (simp add: string_bytes_def)
  show ?case
  proof (cases "name_bytes (snd x) = [] \<or> k \<noteq> 0")
    case True
    let ?k = "k - length (name_bytes (snd x))"
    have len: "length (name_bytes (snd x)) \<le> 1" by (simp add: name_bytes_def split: named_property_name.splits)
    then have k: "length (name_bytes (snd x)) \<le> k" using True by auto
    then have "?k < length (string_bytes named)" using Cons.prems by (simp add: cons)
    then obtain i s where "i < length named" "snd (named ! i) = StringName s" "take ?k (string_bytes named) = string_bytes (take i named)"
      using Cons.IH by blast
    then show ?thesis using k by (intro exI [of _ "Suc i"]) (simp add: cons string_bytes_def)
  next
    case False
    then show ?thesis by (intro exI [of _ 0]) (auto simp: name_bytes_def string_bytes_def split: named_property_name.splits)
  qed
qed (simp add: string_bytes_def)

lemma lookup_string_streams:
  assumes st: "written_prefix (custom_guids named) named (length named) st" and i: "i < length named" "snd (named ! i) = StringName s"
  shows "lookup_string (map_read (streams_of named st)) (word_of_nat (length (concat (map padded_entry (string_bytes (take i named)))))) =
    Inr (entry_of (unicode_bytes s))"
proof -
  let ?bss = "string_bytes named" and ?k = "length (string_bytes (take i named))"
  have strings: "nm_strings st = concat (map padded_entry ?bss)" "\<forall>bs\<in>set ?bss. entry_bytes_ok bs" using st by (simp_all add: written_prefix_def)
  note split = string_bytes_split [OF i]
  have k: "?k < length ?bss" "take ?k ?bss = string_bytes (take i named)" "?bss ! ?k = unicode_bytes s" by (simp_all add: split nth_append)
  have bound: "\<forall>k<length ?bss. length (concat (map padded_entry (take k ?bss))) < 2 ^ 32"
  proof (intro allI impI)
    fix k assume "k < length ?bss"
    then obtain i s where "i < length named" "snd (named ! i) = StringName s" "take k ?bss = string_bytes (take i named)"
      using string_bytes_prefix by blast
    then show "length (concat (map padded_entry (take k ?bss))) < 2 ^ 32" using st by (auto simp: written_prefix_def)
  qed
  have "nm_strings st \<noteq> []" using k(1) by (auto simp: strings(1) padded_entry_def split)
  moreover have "map_of (streams_of named st) 4 = Some (WBinary (nm_strings st))" by (simp add: streams_of_def)
  ultimately have "map_of (map_read (streams_of named st)) 4 = Some (PropBinary (nm_strings st))" by (simp add: map_of_map_read reader_value_binary)
  moreover have "parse_string_entries (nm_strings st) = Inr (string_index 0 ?bss)"
    unfolding parse_string_entries_def using bound by (intro string_entries_loop_padded [of _ "[]"]) (simp_all add: strings)
  ultimately show ?thesis using find_string_index [OF k(1) bound] by (simp add: lookup_string_def string_stream_def k)
qed

lemma concat_slice:
  assumes "\<forall>x\<in>set xs. length x = n" "j < length xs"
  shows "take n (drop (j * n) (concat xs)) = xs ! j" "j * n + n \<le> length (concat xs)"
proof -
  have "take n (drop (j * n) (concat xs)) = xs ! j \<and> j * n + n \<le> length (concat xs)"
    using assms
  proof (induction xs arbitrary: j)
    case (Cons x xs)
    show ?case
    proof (cases j)
      case (Suc i)
      then show ?thesis using Cons.IH [of i] Cons.prems by (simp add: algebra_simps)
    qed (use Cons.prems in simp)
  qed simp
  then show "take n (drop (j * n) (concat xs)) = xs ! j" "j * n + n \<le> length (concat xs)" by simp_all
qed

lemma lookup_guid_streams:
  assumes "names_ok named" "i < length named" "fst (named ! i) = SetGuid g"
  shows "\<exists>guid. lookup_guid (map_read (streams_of named st)) (set_guid (custom_guids named) (SetGuid g)) = Inr guid \<and> guid_to_le_bytes guid = g"
proof -
  let ?c = "custom_guids named"
  obtain j where j: "j < length ?c" "?c ! j = g" "partition_point (\<lambda>x. x < g) ?c = j" using custom_position [OF assms(2,3)] by blast
  have len: "length x = 16" if "SetGuid x \<in> fst ` set named" for x using assms(1) that by (auto simp: names_ok_def identity_ok_def)
  then have g: "\<forall>x\<in>set ?c. length x = 16" by (simp add: set_custom_guids)
  then have "length g = 16" using j nth_mem by blast
  then have read: "property_value_read PtypGuid g = Inr (PropGuid (guid_decode g))"
    using guid_read_bytes [of "guid_decode g"] guid_decode_inverse [of g]
    by (simp add: property_value_read_def of_decoder_def guid_decode_def)
  have "0 < length (concat ?c)" using concat_slice(2) [OF g j(1)] by linarith
  then have ne: "concat ?c \<noteq> []" by (simp only: length_greater_0_conv not_False_eq_True)
  have "j < 2 ^ 16" using j(1) assms(1) by (simp add: names_ok_def)
  then have index: "unat (word_of_nat j :: u16) = j" by (simp add: unsigned_of_nat take_bit_nat_eq_self)
  have "map_of (streams_of named st) 2 = Some (WBinary (concat ?c))" using j(1) by (auto simp: streams_of_def)
  then have "map_of (map_read (streams_of named st)) 2 = Some (PropBinary (concat ?c))" using ne by (simp add: map_of_map_read reader_value_binary)
  then have "lookup_guid (map_read (streams_of named st)) (set_guid ?c (SetGuid g)) = Inr (guid_decode g)"
    using concat_slice [OF g j(1)] j(2) read by (simp add: lookup_guid_def set_guid_def j(3) index of_lower_def Let_def)
  then show ?thesis using guid_decode_inverse [OF \<open>length g = 16\<close>] by blast
qed

lemma validate_entries_ok:
  assumes "\<forall>k<length zs. index + k < 0x8000 \<and> ni_prop_index (fst (zs ! k)) = 0x8000 + word_of_nat (index + k) \<and>
    validate_name m (ni_id (fst (zs ! k))) (snd (snd (zs ! k))) = Inr () \<and> validate_guid m (ni_guid (fst (zs ! k))) (fst (snd (zs ! k))) = Inr ()"
  shows "validate_entries m index zs = Inr ()"
  using assms
proof (induction zs arbitrary: index)
  case (Cons z zs)
  have "validate_entries m (index + 1) zs = Inr ()"
  proof (rule Cons.IH, intro allI impI)
    fix k assume "k < length zs"
    then show "index + 1 + k < 0x8000 \<and> ni_prop_index (fst (zs ! k)) = 0x8000 + word_of_nat (index + 1 + k) \<and>
      validate_name m (ni_id (fst (zs ! k))) (snd (snd (zs ! k))) = Inr () \<and> validate_guid m (ni_guid (fst (zs ! k))) (fst (snd (zs ! k))) = Inr ()"
      using Cons.prems [rule_format, of "Suc k"] by (simp only: nth_Cons_Suc list.size add_Suc_right add_Suc Suc_less_eq add_0_right add_0 One_nat_def simp_thms)
  qed
  moreover have "index < 0x8000" "ni_prop_index (fst z) = 0x8000 + word_of_nat index"
    "validate_name m (ni_id (fst z)) (snd (snd z)) = Inr ()" "validate_guid m (ni_guid (fst z)) (fst (snd z)) = Inr ()"
    using Cons.prems [rule_format, of 0] by simp_all
  ultimately show ?case
    by (cases z) (auto simp: checked_add_w_def unsigned_of_nat take_bit_nat_eq_self)
qed simp

lemma validate_streams_ok:
  assumes "\<forall>p\<in>set props. value_matches (snd p) (map_of m (fst p))"
  shows "validate_streams m props = Inr ()"
  using assms by (induction props) auto

lemma value_matches_read: "(\<exists>bs. v = WBinary bs) \<or> v = WInteger32 x \<Longrightarrow> value_matches v (Some (reader_value v))"
  by (auto simp: value_matches_def reader_value_binary reader_value_integer)

lemma validate_named_map_ok:
  assumes props: "named_property_map named = Inr props" and ok: "names_ok named"
  shows "validate_named_map (map_read props) named = Inr ()"
proof -
  let ?m = "map_read props" and ?c = "custom_guids named"
  have "value_matches (snd p) (map_of ?m (fst p))" if "p \<in> set props" for p
  proof -
    have "map_of props (fst p) = Some (snd p)" using that named_property_map_shape(1) [OF props] by (simp add: map_of_eq_Some_iff)
    then show ?thesis using named_property_map_shape(3) [OF props] that value_matches_read by (auto simp: map_of_map_read)
  qed
  then have streams: "validate_streams ?m props = Inr ()" by (intro validate_streams_ok) blast
  show ?thesis
  proof (cases "named = []")
    case True
    then show ?thesis using props streams by (simp add: validate_named_map_def map_read_def)
  next
    case False
    obtain st where st: "props = streams_of named st" "written_prefix ?c named (length named) st"
      using named_property_map_Inr [OF props False] by blast
    let ?es = "map (named_entry ?c named) [0..<length named]"
    have "validate_entries ?m 0 (zip ?es named) = Inr ()"
    proof (rule validate_entries_ok, intro allI impI)
      fix k assume "k < length (zip ?es named)"
      then have k: "k < length named" by simp
      have id: "identity_ok (named ! k)" using ok k by (simp add: names_ok_def)
      have "validate_name ?m (ni_id (named_entry ?c named k)) (snd (named ! k)) = Inr ()"
      proof (cases "snd (named ! k)")
        case (StringName s)
        have "unicode_bytes s \<in> set (string_bytes named)" by (simp add: string_bytes_split [OF k StringName])
        then have "length (unicode_bytes s) < 2 ^ 32" using st(2) by (simp add: written_prefix_def entry_bytes_ok_def)
        then show ?thesis using lookup_string_streams [OF st(2) k StringName] string_entry_fmt_bytes [of s] id StringName
          by (simp add: validate_name_def named_entry_def st(1) identity_ok_def)
      qed (simp add: validate_name_def named_entry_def)
      moreover have "validate_guid ?m (ni_guid (named_entry ?c named k)) (fst (named ! k)) = Inr ()"
      proof (cases "fst (named ! k)")
        case (SetGuid g)
        then show ?thesis using lookup_guid_streams [OF ok k SetGuid, of st] by (auto simp: validate_guid_def named_entry_def st(1) set_guid_def)
      qed (simp_all add: validate_guid_def named_entry_def set_guid_def)
      ultimately show "0 + k < 0x8000 \<and> ni_prop_index (fst (zip ?es named ! k)) = 0x8000 + word_of_nat (0 + k) \<and>
        validate_name ?m (ni_id (fst (zip ?es named ! k))) (snd (snd (zip ?es named ! k))) = Inr () \<and>
        validate_guid ?m (ni_guid (fst (zip ?es named ! k))) (fst (snd (zip ?es named ! k))) = Inr ()"
        using k ok by (simp add: names_ok_def) (simp add: named_entry_def)
    qed
    then show ?thesis using props streams stream_entry_streams [OF st(2) ok False] False
      by (simp add: validate_named_map_def st(1) [symmetric]) (simp add: map_read_def)
  qed
qed

section \<open>Hash buckets\<close>

lemma xor_small_bucket:
  assumes "(a :: u32) < 8" "b < 8" "a \<noteq> b"
  shows "unat (h XOR a) mod 251 \<noteq> unat (h XOR b) mod 251"
proof -
  have small: "drop_bit 3 c = 0" if "c < 8" for c :: u32
    using that by (simp add: drop_bit_eq_div word_arith_nat_div word_less_nat_alt)
  have "unat (h XOR c) div 8 = unat h div 8" if "c < 8" for c
  proof -
    have "drop_bit 3 (h XOR c) = drop_bit 3 h" by (simp only: drop_bit_xor small [OF that] xor.right_neutral)
    then have "unat (drop_bit 3 (h XOR c)) = unat (drop_bit 3 h)" by simp
    then show ?thesis by (simp add: drop_bit_eq_div unat_div)
  qed
  then have q: "unat (h XOR a) div 8 = unat (h XOR b) div 8" using assms by metis
  obtain q x y where xy: "unat (h XOR a) = 8 * q + x" "unat (h XOR b) = 8 * q + y" "x < 8" "y < 8"
  proof
    show "unat (h XOR a) = 8 * (unat (h XOR a) div 8) + unat (h XOR a) mod 8" by (rule mult_div_mod_eq [symmetric])
    show "unat (h XOR b) = 8 * (unat (h XOR a) div 8) + unat (h XOR b) mod 8" unfolding q by (rule mult_div_mod_eq [symmetric])
  qed simp_all
  have cancel: "h XOR (h XOR c) = c" for c by (simp add: xor.assoc [symmetric])
  have "h XOR a \<noteq> h XOR b" using assms(3) by (metis cancel)
  then have "x \<noteq> y" using xy by (auto simp: word_unat_eq_iff)
  have mod: "m mod 251 \<noteq> (m + d) mod 251" if "0 < d" "d < 251" for m d :: nat
    using that mod_eq_dvd_iff_nat [of m "m + d" 251] by (auto dest: nat_dvd_not_less [rotated 2] sym)
  show ?thesis
  proof (cases "x < y")
    case True
    then show ?thesis using mod [of "y - x" "8 * q + x"] xy by (simp only:) simp
  next
    case False
    then show ?thesis using mod [of "x - y" "8 * q + y", THEN not_sym] xy \<open>x \<noteq> y\<close> by (simp only:) simp
  qed
qed

lemma bucket_count_streams: "bucket_count (map_read (streams_of named st)) = Inr 251"
proof -
  have "map_of (map_read (streams_of named st)) 1 = Some (PropInteger32 251)"
    by (simp add: map_of_map_read streams_of_def reader_value_integer)
  then show ?thesis by (simp add: bucket_count_def Let_def)
qed

lemma hash_bucket_streams:
  assumes st: "written_prefix (custom_guids named) named (length named) st" and ok: "names_ok named" and b: "b = ucast (hash_value e mod 251)"
  shows "hash_bucket (map_read (streams_of named st)) e =
    (let ks = filter (\<lambda>k. entry_bucket (snd (named ! k)) (named_entry (custom_guids named) named k) = b) [0..<length named] in
     if ks = [] then Inl (MessagingIo (NamedPropertyMapBucketNotFound b)) else Inr (map (named_entry (custom_guids named) named) ks))"
proof -
  let ?ks = "filter (\<lambda>k. entry_bucket (snd (named ! k)) (named_entry (custom_guids named) named k) = b) [0..<length named]"
  let ?es = "map (named_entry (custom_guids named) named) ?ks"
  have ub: "unat b = unat (hash_value e) mod 251" unfolding b by (rule unat_bucket)
  then have less: "b < 251" "\<not> b > 0xFFFF - 0x1000" by (simp_all add: word_less_nat_alt)
  have small: "\<not> hash_value e mod 251 \<ge> 2 ^ 16" by (simp add: word_le_nat_alt unat_mod)
  have v: "map_of (nm_buckets st) b = (if ?ks = [] then None else Some (concat (map name_id_entry_write ?es)))"
    using st by (simp add: written_prefix_def Let_def comp_def)
  have "map_of (map_read (streams_of named st)) (0x1000 + b) = (if ?ks = [] then None else Some (PropBinary (concat (map name_id_entry_write ?es))))"
  proof (cases "?ks = []")
    case False
    then have "concat (map name_id_entry_write ?es) \<noteq> []" by (intro concat_entries_nonempty) (simp only: map_is_Nil_conv not_False_eq_True)
    then show ?thesis unfolding map_of_map_read streams_of_bucket [OF st less(1)] v
      using False by (simp only: if_False option.map reader_value_binary)
  qed (simp add: map_of_map_read streams_of_bucket [OF st less(1)] v)
  moreover have "\<forall>e\<in>set ?es. name_id_entry_ok e" using named_entry_ok [OF ok] by auto
  ultimately show ?thesis using stream_name_ids_binary [of ?es] less(2) small
    by (simp add: hash_bucket_def bucket_count_streams Let_def b [symmetric]) (simp add: stream_name_ids_def)
qed

lemma named_entry_inj:
  assumes "names_ok named" "i < length named" "k < length named" "named_entry custom named i = named_entry custom named k"
  shows "i = k"
proof -
  have "i < 0x8000" "k < 0x8000" using assms by (simp_all add: names_ok_def)
  moreover have "unat (0x8000 + word_of_nat i :: u16) = unat (0x8000 + word_of_nat k :: u16)" using assms(4) by (simp add: named_entry_def)
  ultimately show ?thesis using index_id [of i] index_id [of k] by simp
qed

lemma numeric_found:
  assumes st: "written_prefix (custom_guids named) named (length named) st" and ok: "names_ok named"
    and i: "i < length named" "snd (named ! i) = NumericName n"
  shows "\<exists>bucket. hash_bucket (map_read (streams_of named st)) (named_entry (custom_guids named) named i) = Inr bucket \<and>
    named_entry (custom_guids named) named i \<in> set bucket"
proof -
  let ?e = "named_entry (custom_guids named) named i"
  have "fst (name_id_fields ?e) = n" using i(2) by (simp add: named_entry_def name_id_fields_def Let_def)
  then have "entry_bucket (snd (named ! i)) ?e = ucast (hash_value ?e mod 251)"
    using i(2) by (simp add: entry_bucket_def hash_value_def name_hash_def split_beta)
  then show ?thesis using i(1) unfolding hash_bucket_streams [OF st ok refl, of ?e] Let_def by (auto simp: filter_empty_conv)
qed

text \<open>The reader hashes a string name without its set, the writer with it.\<close>

lemma string_missed:
  assumes st: "written_prefix (custom_guids named) named (length named) st" and ok: "names_ok named"
    and i: "i < length named" "named ! i = (set_name, StringName s)" "set_name = SetMapi \<or> set_name = SetPublicStrings"
  shows "\<exists>e. hash_entry (map_read (streams_of named st)) (named_entry (custom_guids named) named i) = Inr e \<and>
    (\<forall>bucket. hash_bucket (map_read (streams_of named st)) e = Inr bucket \<longrightarrow> named_entry (custom_guids named) named i \<notin> set bucket)"
proof -
  let ?e = "named_entry (custom_guids named) named i" and ?crc = "compute_crc 0 (unicode_bytes s)"
  have name: "snd (named ! i) = StringName s" using i(2) by simp
  let ?h = "\<lparr>ni_id = NameStringOffset ?crc, ni_guid = NameGuidNone, ni_prop_index = ni_prop_index ?e\<rparr>"
  have h: "hash_entry (map_read (streams_of named st)) ?e = Inr ?h"
    using lookup_string_streams [OF st i(1) name] by (simp add: hash_entry_def named_entry_def i(2) entry_of_def)
  have "hash_value ?h = ?crc XOR 1" by (simp add: hash_value_def name_id_fields_def Let_def)
  moreover have "unat (entry_bucket (snd (named ! i)) ?e) = unat (?crc XOR (if set_name = SetMapi then 3 else 5)) mod 251"
    unfolding entry_bucket_def unat_bucket using i(2,3)
    by (auto simp: name_hash_def named_entry_def name_id_fields_def set_guid_def)
  ultimately have ne: "entry_bucket (snd (named ! i)) ?e \<noteq> ucast (hash_value ?h mod 251)"
    using xor_small_bucket [of 3 1 ?crc] xor_small_bucket [of 5 1 ?crc] by (auto simp: word_unat_eq_iff unat_bucket split: if_splits)
  have "?e \<notin> set bucket" if "hash_bucket (map_read (streams_of named st)) ?h = Inr bucket" for bucket
  proof
    assume e: "?e \<in> set bucket"
    let ?ks = "filter (\<lambda>k. entry_bucket (snd (named ! k)) (named_entry (custom_guids named) named k) = ucast (hash_value ?h mod 251)) [0..<length named]"
    have "bucket = map (named_entry (custom_guids named) named) ?ks"
      using that unfolding hash_bucket_streams [OF st ok refl, of ?h] Let_def by (simp split: if_splits)
    then have "?e \<in> named_entry (custom_guids named) named ` set ?ks" using e by (simp only: set_map)
    then obtain k where k: "?e = named_entry (custom_guids named) named k" "k \<in> set ?ks" by (rule imageE)
    have "k < length named" "entry_bucket (snd (named ! k)) (named_entry (custom_guids named) named k) = ucast (hash_value ?h mod 251)"
      using k(2) by simp_all
    moreover have "i = k" by (rule named_entry_inj [OF ok i(1) calculation(1) k(1)])
    ultimately show False using ne by (simp only:)
  qed
  then show ?thesis using h by blast
qed

section \<open>The map in a finished file\<close>

text \<open>What the map costs of the materialisation budget.\<close>

definition map_cost :: "value_layout \<Rightarrow> properties \<Rightarrow> nat" where
  "map_cost L props = sum_list (map (\<lambda>(_, v). size_of_value L + value_size v) props)"

definition stream_value :: "writer_value \<Rightarrow> bool" where
  "stream_value v \<longleftrightarrow> (\<exists>bs. v = WBinary bs) \<or> (\<exists>x. v = WInteger32 x)"

lemma charge_within: "b + n \<le> 64 * 1024 * 1024 \<Longrightarrow> charge_budget (Some b) n = (Inr (), Some (b + n))"
  by (simp add: charge_budget_def charge_def checked_add_usize_def usize_max_def MAX_PROPERTY_MATERIALIZATION_BYTES_def)

lemma charge_decoded_within:
  assumes "materialized_size L v = Some n" "b + n \<le> reserved + 64 * 1024 * 1024" "b \<le> 64 * 1024 * 1024"
  shows "\<exists>b'. charge_decoded L reserved (Some b) v = (Inr v, Some b') \<and> b' \<le> b + (n - reserved)"
  using assms charge_within [of b "n - reserved"] by (auto simp: charge_decoded_def)

lemma materialized_stream_value:
  assumes "stream_value v" "size_of_value L + value_size v \<le> 64 * 1024 * 1024"
  shows "materialized_size L (reader_value v) = Some n \<Longrightarrow> n \<le> size_of_value L + value_size v"
    "materialized_size L (reader_value v) \<noteq> None"
  using assms
  by (auto simp: stream_value_def reader_value_binary reader_value_integer materialized_size_def Let_def checked_add_usize_def usize_max_def
      value_size_def variable_bytes_def split: if_splits)

lemma property_readable_read:
  "property_readable H file page ctx r v \<Longrightarrow> cache_ok H file page pc bc \<Longrightarrow> value_size v \<le> 64 * 1024 * 1024 \<Longrightarrow> 0 < buf \<Longrightarrow>
    \<exists>pc' bc'. read_property (unicode_source (Suc H) file Permute page) unicode_subnode_format L buf ctx r None pc bc =
      (Inr (reader_value v), None, pc', bc') \<and> cache_ok H file page pc' bc'"
  unfolding property_readable_def by blast

lemma property_readable_subnode:
  "property_readable H file page ctx r v \<Longrightarrow> cache_ok H file page pc bc \<Longrightarrow> pr_value r = RecordNode nid \<Longrightarrow> variable_bytes v = Inr (Some bs) \<Longrightarrow>
    0 < buf \<Longrightarrow> b + length bs \<le> 64 * 1024 * 1024 \<Longrightarrow>
    \<exists>pc' bc'. subnode_value (unicode_source (Suc H) file Permute page) unicode_subnode_format buf ctx nid (pr_type r) (Some b) pc bc =
      (Inr (length bs, reader_value v), Some (b + length bs), pc', bc') \<and> cache_ok H file page pc' bc'"
  unfolding property_readable_def by blast

lemma read_property_budget:
  assumes r: "property_readable H file page ctx r v" and v: "stream_value v" and cache: "cache_ok H file page pc bc"
    and buf: "0 < buf" and b: "b + size_of_value L + value_size v \<le> 64 * 1024 * 1024"
  shows "\<exists>b' pc' bc'. read_property (unicode_source (Suc H) file Permute page) unicode_subnode_format L buf ctx r (Some b) pc bc =
    (Inr (reader_value v), Some b', pc', bc') \<and> b' \<le> b + size_of_value L + value_size v \<and> cache_ok H file page pc' bc'"
proof -
  let ?S = "unicode_source (Suc H) file Permute page"
  obtain n where n: "materialized_size L (reader_value v) = Some n" "n \<le> size_of_value L + value_size v"
    using materialized_stream_value [OF v] b by fastforce
  obtain pc1 bc1 where none: "read_property ?S unicode_subnode_format L buf ctx r None pc bc = (Inr (reader_value v), None, pc1, bc1)"
    "cache_ok H file page pc1 bc1"
    using property_readable_read [OF r cache _ buf, of L] b by auto
  obtain code where code: "pr_value r = property_record_of (writer_property_type v) code" and type: "pr_type r = writer_property_type v"
    using r by (auto simp: property_readable_def)
  show ?thesis
  proof (cases "pr_value r")
    case (RecordSmall x)
    obtain b' where b': "charge_decoded L 0 (Some b) (reader_value v) = (Inr (reader_value v), Some b')" "b' \<le> b + n"
      using charge_decoded_within [OF n(1), of b 0] n(2) b by auto
    then show ?thesis using none n(2) RecordSmall
      by (auto simp: read_property_def charge_decoded_def split: option.splits)
  next
    case (RecordHeap hid)
    then obtain bs where bs: "v = WBinary bs"
      using code v by (auto simp: stream_value_def property_record_of_def writer_property_type_def)
    show ?thesis
    proof (cases "hid = 0")
      case True
      then show ?thesis using none RecordHeap by (auto simp: read_property_def)
    next
      case False
      then obtain data where data: "heap_find_entry (ctx_heap ctx) hid = Inr data" "property_value_read (pr_type r) data = Inr (reader_value v)"
        using none(1) RecordHeap by (auto simp: read_property_def heap_value_def charge_budget_def charge_decoded_def split: sum.splits)
      then have "length data = value_size v"
        using type bs by (auto simp: reader_value_binary writer_property_type_def property_value_read_def value_size_def variable_bytes_def split: if_splits)
      then have "charge_budget (Some b) (length data) = (Inr (), Some (b + length data))" "b + length data + n \<le> length data + 64 * 1024 * 1024"
        "b + length data \<le> 64 * 1024 * 1024"
        using charge_within [of b "length data"] b n(2) by simp_all
      moreover obtain b' where "charge_decoded L (length data) (Some (b + length data)) (reader_value v) = (Inr (reader_value v), Some b')"
        "b' \<le> b + length data + (n - length data)"
        using charge_decoded_within [OF n(1) calculation(2,3)] by blast
      ultimately show ?thesis using data False RecordHeap none n(2) \<open>length data = value_size v\<close>
        by (auto simp: read_property_def heap_value_def charge_budget_def charge_decoded_def)
    qed
  next
    case (RecordNode nid)
    then obtain bs where bs: "v = WBinary bs"
      using code v by (auto simp: stream_value_def property_record_of_def writer_property_type_def)
    then have len: "variable_bytes v = Inr (Some bs)" "value_size v = length bs" by (simp_all add: variable_bytes_def value_size_def)
    then obtain pc' bc' where s: "subnode_value ?S unicode_subnode_format buf ctx nid (pr_type r) (Some b) pc bc =
        (Inr (length bs, reader_value v), Some (b + length bs), pc', bc')" "cache_ok H file page pc' bc'"
      using property_readable_subnode [OF r cache RecordNode _ buf, of bs b] b by auto
    have "b + length bs + n \<le> length bs + 64 * 1024 * 1024" "b + length bs \<le> 64 * 1024 * 1024" using b n(2) len(2) by simp_all
    then obtain b' where "charge_decoded L (length bs) (Some (b + length bs)) (reader_value v) = (Inr (reader_value v), Some b')"
        "b' \<le> b + length bs + (n - length bs)"
      using charge_decoded_within [OF n(1)] by blast
    then show ?thesis using s n(2) len(2) RecordNode by (auto simp: read_property_def)
  qed
qed

lemma read_properties_ok:
  assumes "\<forall>(k, r)\<in>set items. \<exists>v. map_of props k = Some v \<and> stream_value v \<and> property_readable H file page ctx r v"
    and "cache_ok H file page pc bc" and buf: "0 < buf"
    and "b + sum_list (map (\<lambda>(k, _). size_of_value L + value_size (the (map_of props k))) items) \<le> 64 * 1024 * 1024"
  shows "\<exists>pc'. read_properties (unicode_source (Suc H) file Permute page) unicode_subnode_format L buf ctx items (Some b) pc bc =
    (Inr (map (\<lambda>(k, _). (k, reader_value (the (map_of props k)))) items), pc')"
  using assms(1,2,4)
proof (induction items arbitrary: b pc bc)
  case (Cons item items)
  obtain k r where item: "item = (k, r)" by fastforce
  obtain v where v: "map_of props k = Some v" "stream_value v" "property_readable H file page ctx r v" using Cons.prems(1) item by auto
  let ?rest = "sum_list (map (\<lambda>(k, _). size_of_value L + value_size (the (map_of props k))) items)"
  have cost: "b + size_of_value L + value_size v + ?rest \<le> 64 * 1024 * 1024" using Cons.prems(3) item v(1) by simp
  then obtain b' pc' bc' where p: "read_property (unicode_source (Suc H) file Permute page) unicode_subnode_format L buf ctx r (Some b) pc bc =
    (Inr (reader_value v), Some b', pc', bc')" "b' \<le> b + size_of_value L + value_size v" "cache_ok H file page pc' bc'"
    using read_property_budget [OF v(3,2) Cons.prems(2) buf, of b L] by auto
  obtain pc'' where "read_properties (unicode_source (Suc H) file Permute page) unicode_subnode_format L buf ctx items (Some b') pc' bc' =
    (Inr (map (\<lambda>(k, _). (k, reader_value (the (map_of props k)))) items), pc'')"
    using Cons.IH [OF _ p(3), of b'] Cons.prems(1) cost p(2) by auto
  then show ?case using p(1) v(1) item by simp
qed simp

lemma streams_of_sorted:
  assumes "written_prefix custom named i st"
  shows "sorted_wrt (<) (map fst (streams_of named st))"
proof -
  have keys: "unat (0x1000 + b) = 0x1000 + unat b" if "b \<in> set (map fst (nm_buckets st))" for b using bucket_keys(1) [OF assms] bucket_add that by blast
  have "sorted_wrt (<) (map fst (nm_buckets st))" using assms by (simp add: written_prefix_def)
  then have "sorted_wrt (\<lambda>x y. unat (0x1000 + x) < unat (0x1000 + y)) (map fst (nm_buckets st))"
    by (rule sorted_wrt_mono_rel [rotated]) (auto simp: keys word_less_nat_alt)
  then have "sorted_wrt (<) (map ((+) 0x1000) (map fst (nm_buckets st)))" by (simp add: sorted_wrt_map word_less_nat_alt)
  moreover have "map fst (map (\<lambda>(bucket, entries). (0x1000 + bucket, WBinary entries)) (nm_buckets st)) = map ((+) 0x1000) (map fst (nm_buckets st))"
    by (simp add: comp_def split_beta)
  moreover have "\<forall>y\<in>set (map ((+) 0x1000) (map fst (nm_buckets st))). x < y" if "unat x < 0x1000" for x
    using keys that by (auto simp: word_less_nat_alt)
  ultimately show ?thesis by (simp add: streams_of_def del: map_map)
qed

lemma named_property_map_sorted:
  assumes "named_property_map named = Inr props"
  shows "sorted_wrt (<) (map fst props)"
proof (cases "named = []")
  case True
  then show ?thesis using assms by (auto simp: named_property_map_def)
next
  case False
  then show ?thesis using named_property_map_Inr [OF assms] streams_of_sorted by blast
qed

lemma map_keys:
  assumes "map fst items = map fst props" "distinct (map fst props)"
  shows "map (\<lambda>(k, _). f k (the (map_of props k))) items = map (\<lambda>(k, v). f k v) props"
proof -
  have "map (\<lambda>(k, _). f k (the (map_of props k))) items = map (\<lambda>k. f k (the (map_of props k))) (map fst items)" by (simp add: split_beta)
  moreover have "f (fst p) (the (map_of props (fst p))) = f (fst p) (snd p)" if "p \<in> set props" for p
    using map_of_is_SomeI [OF assms(2), of "fst p" "snd p"] that by simp
  ultimately show ?thesis by (simp add: assms(1) split_beta)
qed

lemma context_items_read:
  assumes props: "named_property_map named = Inr props" and ctx: "context_properties ctx = Inr m" "dom m = fst ` set props"
  shows "\<exists>items. context_items ctx = Inr items \<and> set items = {(k, r). m k = Some r} \<and> map fst items = map fst props"
proof -
  obtain items where items: "context_items ctx = Inr items" "sorted_wrt (<) (map fst items)" "set items = {(k, r). m k = Some r}"
    using context_items_Inr [OF ctx(1)] by blast
  have "fst ` set items = dom m" unfolding items(3) by (auto simp: dom_def image_iff)
  then have "set (map fst items) = set (map fst props)" using ctx(2) by simp
  then have "map fst items = map fst props"
    using items(2) named_property_map_sorted [OF props] by (intro sorted_distinct_set_unique) (simp_all add: strict_sorted_iff)
  then show ?thesis using items(1,3) by blast
qed

lemma named_map_read_context:
  assumes props: "named_property_map named = Inr props" and cost: "map_cost L props \<le> 64 * 1024 * 1024" and buf: "0 < buf"
    and ctx: "context_readable H file page (un_data node) (un_sub_node node) props"
    and store: "unicode_block_btree_read file (root_block_btree (uh_root h)) = Inr page" "uh_crypt_method h = Permute"
      "unicode_node_btree_read file (root_node_btree (uh_root h)) = Inr npage"
      "btree_find (Suc Hn) (unicode_node_btree_read file) id unicode_node_entry_key npage (ucast NID_NAME_TO_ID_MAP) npc = (Inr node, npc')"
  shows "\<exists>bpc. named_map_read (Suc Hn) (Suc H) L buf file h npc (\<lambda>_. None) = (Inr (map_read props), npc', bpc)"
proof -
  let ?S = "unicode_source (Suc H) file Permute page"
  obtain heap pc hh m where c: "heap_node_read ?S (block_id_search_key (un_data node)) (\<lambda>_. None) = (Inr heap, pc)" "unicode_lookup_ok H file page pc"
    "heap_header heap = Inr hh" "context_properties \<lparr>ctx_sub_node = un_sub_node node, ctx_heap = heap, ctx_root = hn_user_root hh\<rparr> = Inr m"
    "dom m = fst ` set props"
    "\<forall>(k, v)\<in>set props. \<exists>r. m k = Some r \<and> property_readable H file page \<lparr>ctx_sub_node = un_sub_node node, ctx_heap = heap, ctx_root = hn_user_root hh\<rparr> r v"
    using ctx unfolding context_readable_def Let_def by blast
  let ?ctx = "\<lparr>ctx_sub_node = un_sub_node node, ctx_heap = heap, ctx_root = hn_user_root hh\<rparr>"
  obtain items where items: "context_items ?ctx = Inr items" "set items = {(k, r). m k = Some r}" "map fst items = map fst props"
    using context_items_read [OF props c(4,5)] by blast
  note keys = map_keys [OF items(3) named_property_map_shape(1) [OF props]]
  have "\<exists>v. map_of props k = Some v \<and> stream_value v \<and> property_readable H file page ?ctx r v" if kr: "(k, r) \<in> set items" for k r
  proof -
    have "m k = Some r" using kr items(2) by simp
    then obtain v where v: "(k, v) \<in> set props" using c(5) by (metis domI imageE prod.collapse)
    have "map_of props k = Some v" by (rule map_of_is_SomeI [OF named_property_map_shape(1) [OF props] v])
    moreover have "stream_value v" using named_property_map_shape(3) [OF props] v by (fastforce simp: stream_value_def)
    ultimately show ?thesis using c(6) v \<open>m k = Some r\<close> by fastforce
  qed
  then have all: "\<forall>(k, r)\<in>set items. \<exists>v. map_of props k = Some v \<and> stream_value v \<and> property_readable H file page ?ctx r v" by blast
  have cache: "cache_ok H file page pc (\<lambda>_. None)" using c(2) by (simp add: cache_ok_def block_cache_agrees_def)
  have "0 + sum_list (map (\<lambda>(k, _). size_of_value L + value_size (the (map_of props k))) items) \<le> 64 * 1024 * 1024"
    using cost by (simp add: map_cost_def keys [of "\<lambda>_ v. size_of_value L + value_size v"])
  from read_properties_ok [OF all cache buf this]
  obtain pc' where "read_properties ?S unicode_subnode_format L buf ?ctx items (Some 0) pc (\<lambda>_. None) =
      (Inr (map (\<lambda>(k, _). (k, reader_value (the (map_of props k)))) items), pc')" by blast
  then show ?thesis using c(1,3) items(1) store keys [of "\<lambda>k v. (k, reader_value v)"] by (simp add: named_map_read_def Let_def map_read_def)
qed

lemma leaf_bid_2: "leaf_bid 2 = Inr 8"
proof -
  have "unicode_block_id_new False 2 = Inr 8" by code_simp
  then show ?thesis by (simp add: leaf_bid_def of_ndb_def)
qed

section \<open>Properties\<close>

text \<open>
  C1. The named property map from the names to the validated file: the writer builds the map of any list of names within the reader's
  identifiers, adds its blocks to a store and finalises it. In the file it gives, the reader opens the map from its node,
  reads all its streams and buckets within the materialisation budget, and the validation of the finished store accepts it: the streams
  are those of the names, and the entry of every name has its identifier, its number or string and its set.
\<close>

theorem named_map_validated:
  assumes stream: "stream_ok file cursor specs written"
    and blocks: "list_all (\<lambda>b. payload_ok (sp_id b) (sp_payload b)) blocks" "\<forall>i. \<not> interrupted i"
      "length specs + length blocks + length new \<le> 2 ^ 24" "ids_ok (specs @ blocks)"
    and nodes: "nodes \<noteq> []" "length nodes \<le> 2 ^ 22" "list_all unicode_node_entry_ok nodes"
      "sorted_wrt (<) (map unicode_node_entry_key nodes)" "nid_counters nodes (blocks @ new) streamed_subnodes = Inr nids"
    and ids: "\<forall>b\<in>set (specs @ blocks). unat (sp_id b) div 4 < n" "2 < n" "n \<le> 2 ^ 61" "8 \<notin> sp_id ` set (specs @ blocks)"
    and build: "build_named_property_context named (word_of_nat n) = Inr ((data_block, subnode_block, new), next_index)"
    and node: "node \<in> set nodes" "un_node node = NID_NAME_TO_ID_MAP" "un_data node = data_block" "un_sub_node node = subnode_block"
    and names: "names_ok named"
    and cost: "\<forall>props. named_property_map named = Inr props \<longrightarrow> map_cost L props \<le> MAX_PROPERTY_MATERIALIZATION_BYTES" and buf: "0 < buf"
  shows "\<exists>projected file' h Hn H m npc bpc.
    projected_finalized_file_eof cursor (length written) (blocks @ new) (length nodes) = Inr projected \<and>
    finalize_store interrupted file cursor written streamed_subnodes (blocks @ new) nodes next_index projected = Inr file' \<and>
    unicode_header_read file' = Inr (h, drop 564 file') \<and>
    named_map_read (Suc Hn) (Suc H) L buf file' h (\<lambda>_. None) (\<lambda>_. None) = (Inr m, npc, bpc) \<and>
    validate_named_map m named = Inr ()"
proof -
  obtain props where props: "named_property_map named = Inr props"
    "build_large_context props 0x50000 8 (word_of_nat n) = Inr ((data_block, subnode_block, new), next_index)"
    using build by (auto simp: build_named_property_context_def leaf_bid_2 split: sum.splits)
  note shape = named_property_map_shape [OF props(1)]
  have ok: "\<forall>p\<in>set props. writer_value_ok (snd p)" "\<forall>p\<in>set props. writer_value_ok (snd p) \<and> \<not> external (snd p)"
    using shape(3) by (auto simp: writer_value_ok_def external_def)
  have preferred: "block_id_search_key 8 = (8 :: u64)" "\<not> block_id_is_internal (8 :: u64)" "unat (8 :: u64) div 4 < n"
    using ids(2) by (simp_all add: block_id_search_key_def block_id_is_internal_def)
  obtain heap where new: "specs_ok new" "new \<noteq> []" "ids_ok ((specs @ blocks) @ new)" "next_index \<le> MAX_UNICODE_BLOCK_INDEX"
    "context_in (set new) data_block subnode_block heap props"
    using build_large_context_Inr [OF props(2) shape(1) ok(1) shape(2) ids(3) preferred(2) blocks(4) ids(1) ids(4) preferred(1,3)] by blast
  have all: "list_all (\<lambda>b. payload_ok (sp_id b) (sp_payload b)) (blocks @ new)" "\<forall>i<length (blocks @ new). \<not> interrupted i"
      "specs @ blocks @ new \<noteq> []" "length specs + length (blocks @ new) \<le> 2 ^ 24" "ids_ok (specs @ blocks @ new)"
    using blocks new by (simp_all add: specs_ok_def)
  from finalize_store_correct [OF stream all nodes(1-4) new(4) nodes(5)]
  obtain projected file' h H page Hn npage where
    f: "projected_finalized_file_eof cursor (length written) (blocks @ new) (length nodes) = Inr projected"
      "finalize_store interrupted file cursor written streamed_subnodes (blocks @ new) nodes next_index projected = Inr file'"
      "unicode_header_read file' = Inr (h, drop 564 file')" "uh_crypt_method h = Permute"
      "unicode_block_btree_read file' (root_block_btree (uh_root h)) = Inr page"
      "block_store file' H page (specs @ blocks @ new)"
      "unicode_node_btree_read file' (root_node_btree (uh_root h)) = Inr npage"
    and find: "\<forall>k. \<exists>cache. root_btree_find_entry (Suc Hn) (unicode_node_btree_read file') id unicode_node_entry_key npage k (\<lambda>_. None) =
      Some (lookup_result unicode_node_entry_key k nodes, cache)" by (elim exE conjE)
  have "block_store file' H page new" by (rule block_store_subset [OF f(6)]) auto
  from context_in_readable [OF this new(5) ok(2)] have ctx: "context_readable H file' page (un_data node) (un_sub_node node) props"
    by (simp only: node(3,4))
  have key: "unicode_node_entry_key node = ucast NID_NAME_TO_ID_MAP" by (simp add: unicode_node_entry_key_def node(2))
  obtain npc where "btree_find (Suc Hn) (unicode_node_btree_read file') id unicode_node_entry_key npage (ucast NID_NAME_TO_ID_MAP) (\<lambda>_. None) = (Inr node, npc)"
    using find lookup_result_member [OF nodes(4) node(1)] unfolding key btree_find_def
    by (metis (no_types, lifting) id_apply option.simps(5))
  moreover have "map_cost L props \<le> 64 * 1024 * 1024" using cost props(1) by (simp add: MAX_PROPERTY_MATERIALIZATION_BYTES_def)
  ultimately obtain bpc where "named_map_read (Suc Hn) (Suc H) L buf file' h (\<lambda>_. None) (\<lambda>_. None) = (Inr (map_read props), npc, bpc)"
    using named_map_read_context [OF props(1) _ buf ctx f(5,4,7)] by blast
  then show ?thesis using f(1-3) validate_named_map_ok [OF props(1) names] by blast
qed

definition sample_names :: "named_identity list" where
  "sample_names = [(SetMapi, NumericName 0x8005)]"

definition sample_map :: properties where
  "sample_map = [(0x0001, WInteger32 251), (0x0002, WBinary mapi_guid), (0x0003, WBinary reserved_entry), (0x0004, WBinary []),
    (0x1091, WBinary reserved_entry)]"

definition sample_map_node :: unicode_node_entry where
  "sample_map_node = unicode_node_entry_new 0x61 8 None None"

definition sample_layout :: value_layout where
  "sample_layout = \<lparr>size_of_value = 32, vec_capacity = (\<lambda>_. 0), item_capacity = (\<lambda>_ _. 0)\<rparr>"

lemma sample_sizes: "length mapi_guid = 16" "length reserved_entry = 8" "mapi_guid \<noteq> []" "reserved_entry \<noteq> []"
proof -
  show l: "length mapi_guid = 16" "length reserved_entry = 8" by (simp_all add: mapi_guid_def reserved_entry_def)
  then show "mapi_guid \<noteq> []" "reserved_entry \<noteq> []" by force+
qed

lemma sample_map_named: "named_property_map sample_names = Inr sample_map"
  by (simp add: sample_names_def named_property_map_def custom_guids_def List.map_filter_def named_step_def named_guid_def named_parts_def Let_def
      sample_map_def reserved_entry_def)

lemma sample_names_ok: "names_ok sample_names"
  by (simp add: names_ok_def sample_names_def identity_ok_def custom_guids_def List.map_filter_def)

lemma sample_map_cost: "map_cost sample_layout sample_map = 192"
  by (simp add: map_cost_def sample_map_def sample_layout_def value_size_def variable_bytes_def sample_sizes)

lemma sample_map_page: "\<exists>page. property_context sample_map = Inr page"
proof -
  have "sort_key fst sample_map = sample_map" by (simp add: sample_map_def)
  moreover obtain records where "context_records sample_map [[], []] [] = Inr ([[], [], mapi_guid, reserved_entry, reserved_entry], records)"
    and len: "length records = 40"
    by (simp add: sample_map_def serialized_def of_io_def variable_bytes_def inline_value_def heap_id_new_cases record_head_def sample_sizes)
  moreover obtain header where "heap_tree_header_new 2 6 0 0x40 = Inr header" by (simp add: heap_tree_header_new_def)
  moreover have "length (heap_tree_header_write header) = 8" by (simp add: heap_tree_header_write_def heap_id_write_def node_id_write_def)
  then have "page_fits \<lparr>ph_index = 0, ph_kind = HeapTypeProperties, ph_levels = replicate 8 LevelEmpty\<rparr>
      ([[], [], mapi_guid, reserved_entry, reserved_entry][1 := records, 0 := heap_tree_header_write header])
      (pad_of (length (concat ([[], [], mapi_guid, reserved_entry, reserved_entry][1 := records, 0 := heap_tree_header_write header]))))"
    using len by (simp add: page_fits_def header_ok_def header_length_def pad_of_def sample_sizes)
  note heap_page_eq [OF this]
  ultimately show ?thesis by (simp add: property_context_def of_ltp_def heap_id_new_cases)
qed

lemma sample_named_context:
  "\<exists>page. build_named_property_context sample_names (word_of_nat 3) = Inr ((8, None, [data_spec 8 page]), word_of_nat 3)"
proof -
  obtain page where page: "property_context sample_map = Inr page" using sample_map_page by blast
  have "externalize_large_properties sample_map \<lparr>ext_next_block = 3, ext_next_value_node = 0x50000, ext_blocks = [], ext_subnodes = []\<rparr> =
      Inr (sample_map, \<lparr>ext_next_block = 3, ext_next_value_node = 0x50000, ext_blocks = [], ext_subnodes = []\<rparr>)"
    by (simp add: sample_map_def externalize_value_def of_io_def variable_bytes_def validate_pst_property_len_def MAX_PST_PROPERTY_BYTES_def sample_sizes)
  then show ?thesis using page
    by (simp add: build_named_property_context_def sample_map_named leaf_bid_2 build_large_context_def build_property_context_def data_spec_def Let_def)
qed

theorem named_map_validated_witness:
  "\<exists>new next_index projected file' h Hn H m npc bpc.
    build_named_property_context sample_names 3 = Inr ((8, None, new), next_index) \<and>
    projected_finalized_file_eof 0x4800 0 ([sample_spec] @ new) 1 = Inr projected \<and>
    finalize_store (\<lambda>_. False) [] 0x4800 [] [] ([sample_spec] @ new) [sample_map_node] next_index projected = Inr file' \<and>
    unicode_header_read file' = Inr (h, drop 564 file') \<and>
    named_map_read (Suc Hn) (Suc H) sample_layout 4096 file' h (\<lambda>_. None) (\<lambda>_. None) = (Inr m, npc, bpc) \<and>
    validate_named_map m sample_names = Inr ()"
proof -
  obtain page where b: "build_named_property_context sample_names (word_of_nat 3) = Inr ((8, None, [data_spec 8 page]), word_of_nat 3)"
    using sample_named_context by blast
  have "stream_ok [] 0x4800 [] []" by (simp add: stream_ok_def)
  moreover have "payload_ok (sp_id sample_spec) (sp_payload sample_spec)" "ids_ok [sample_spec]" "unat (sp_id sample_spec) div 4 < 3" "sp_id sample_spec = 4"
    by (simp_all add: sample_spec_def block_id_is_internal_def ids_ok_def block_id_search_key_def)
  moreover have "unicode_node_entry_ok sample_map_node"
    by (simp add: sample_map_node_def unicode_node_entry_new_def unicode_node_entry_ok_def)
  moreover obtain nids where "nid_counters [sample_map_node] ([sample_spec] @ [data_spec 8 page]) [] = Inr nids"
    by (simp add: nid_counters_def sample_map_node_def unicode_node_entry_new_def sample_spec_def data_spec_def update_nid_counter_def
        node_id_id_type_def node_id_type_try_from_def node_id_type_usize_def Let_def node_id_index_def checked_add_w_def)
  moreover have "un_node sample_map_node = NID_NAME_TO_ID_MAP" "un_data sample_map_node = 8" "un_sub_node sample_map_node = None"
    by (simp_all add: sample_map_node_def unicode_node_entry_new_def NID_NAME_TO_ID_MAP_def)
  moreover have "\<forall>props. named_property_map sample_names = Inr props \<longrightarrow> map_cost sample_layout props \<le> MAX_PROPERTY_MATERIALIZATION_BYTES"
    by (simp add: sample_map_named sample_map_cost MAX_PROPERTY_MATERIALIZATION_BYTES_def)
  ultimately show ?thesis
    using b named_map_validated [of "[]" "0x4800" "[]" "[]" "[sample_spec]" "\<lambda>_. False" "[data_spec 8 page]" "[sample_map_node]" "[]" nids 3
        sample_names 8 None "word_of_nat 3" sample_map_node sample_layout 4096, OF _ _ _ _ _ _ _ _ _ _ _ _ _ _ b] sample_names_ok
    by simp
qed

text \<open>
  C15. Looking names up in the hash buckets: in the map of a list of names, the entry stream has the entry of every name
  at its index. For a numeric name the bucket the reader selects contains this entry. For a string name of one of the two well-known
  sets the bucket selected from \<open>hash_entry\<close> never contains it, because the reader leaves the set out of the hash
  and the writer does not.
\<close>

theorem named_hash_lookup:
  assumes props: "named_property_map named = Inr props" and ok: "names_ok named" and ne: "named \<noteq> []"
  shows "\<exists>entries. stream_entry (map_read props) = Inr entries \<and> length entries = length named \<and>
    (\<forall>i<length named. unat (ni_prop_index (entries ! i)) = 0x8000 + i \<and>
      (case named ! i of
         (_, NumericName n) \<Rightarrow> ni_id (entries ! i) = NameNumber n \<and>
           (\<exists>bucket. hash_bucket (map_read props) (entries ! i) = Inr bucket \<and> entries ! i \<in> set bucket)
       | (SetGuid _, StringName _) \<Rightarrow> True
       | (_, StringName _) \<Rightarrow> (\<exists>e. hash_entry (map_read props) (entries ! i) = Inr e \<and>
           (\<forall>bucket. hash_bucket (map_read props) e = Inr bucket \<longrightarrow> entries ! i \<notin> set bucket))))"
proof -
  let ?c = "custom_guids named"
  obtain st where st: "props = streams_of named st" "written_prefix ?c named (length named) st"
    using named_property_map_Inr [OF props ne] by blast
  let ?es = "map (named_entry ?c named) [0..<length named]"
  have "unat (ni_prop_index (?es ! i)) = 0x8000 + i \<and>
      (case named ! i of
         (_, NumericName n) \<Rightarrow> ni_id (?es ! i) = NameNumber n \<and>
           (\<exists>bucket. hash_bucket (map_read props) (?es ! i) = Inr bucket \<and> ?es ! i \<in> set bucket)
       | (SetGuid _, StringName _) \<Rightarrow> True
       | (_, StringName _) \<Rightarrow> (\<exists>e. hash_entry (map_read props) (?es ! i) = Inr e \<and>
           (\<forall>bucket. hash_bucket (map_read props) e = Inr bucket \<longrightarrow> ?es ! i \<notin> set bucket)))"
    if i: "i < length named" for i
  proof -
    have "i < 0x8000" using i ok by (simp add: names_ok_def)
    moreover obtain set_name name where id: "named ! i = (set_name, name)" by fastforce
    ultimately show ?thesis
      using i index_id [of i] numeric_found [OF st(2) ok i] string_missed [OF st(2) ok i, of set_name]
      by (cases name; cases set_name) (auto simp: st(1) named_entry_def)
  qed
  then show ?thesis using stream_entry_streams [OF st(2) ok ne] st(1) by (intro exI [of _ ?es]) simp
qed

definition sample_hashed :: "named_identity list" where
  "sample_hashed = [(SetMapi, NumericName 0x8005), (SetPublicStrings, StringName [0x4B])]"

theorem named_hash_lookup_witness:
  "\<exists>props entries. named_property_map sample_hashed = Inr props \<and> stream_entry (map_read props) = Inr entries \<and> length entries = 2 \<and>
    (\<exists>bucket. hash_bucket (map_read props) (entries ! 0) = Inr bucket \<and> entries ! 0 \<in> set bucket) \<and>
    (\<exists>e. hash_entry (map_read props) (entries ! 1) = Inr e \<and>
      (\<forall>bucket. hash_bucket (map_read props) e = Inr bucket \<longrightarrow> entries ! 1 \<notin> set bucket))"
proof -
  have "length (unicode_bytes [0x4B]) = 2" by (simp add: unicode_bytes_def encode_utf16_def utf16_units_def)
  then obtain props where props: "named_property_map sample_hashed = Inr props"
    by (simp add: sample_hashed_def named_property_map_def custom_guids_def List.map_filter_def named_step_def named_guid_def named_parts_def Let_def)
  have "names_ok sample_hashed"
    by (simp add: names_ok_def sample_hashed_def identity_ok_def custom_guids_def List.map_filter_def scalar_def)
  then obtain entries where "stream_entry (map_read props) = Inr entries" "length entries = length sample_hashed"
    and e: "\<forall>i<length sample_hashed. unat (ni_prop_index (entries ! i)) = 0x8000 + i \<and>
      (case sample_hashed ! i of
         (_, NumericName n) \<Rightarrow> ni_id (entries ! i) = NameNumber n \<and>
           (\<exists>bucket. hash_bucket (map_read props) (entries ! i) = Inr bucket \<and> entries ! i \<in> set bucket)
       | (SetGuid _, StringName _) \<Rightarrow> True
       | (_, StringName _) \<Rightarrow> (\<exists>e. hash_entry (map_read props) (entries ! i) = Inr e \<and>
           (\<forall>bucket. hash_bucket (map_read props) e = Inr bucket \<longrightarrow> entries ! i \<notin> set bucket)))"
    using named_hash_lookup [OF props] by (auto simp: sample_hashed_def)
  moreover have "sample_hashed ! 0 = (SetMapi, NumericName 0x8005)" "sample_hashed ! 1 = (SetPublicStrings, StringName [0x4B])" "length sample_hashed = 2"
    by (simp_all add: sample_hashed_def)
  ultimately show ?thesis using props e [rule_format, of 0] e [rule_format, of 1] by auto
qed

end
