(* ===== verification/Packing.thy ===== *)
theory Packing
  imports Pst_Prelude "HOL-Library.Product_Lexorder" "HOL-Library.Option_ord" "HOL-Library.List_Lexorder"
begin

text \<open>
  The assignment of candidates to output parts, from \<open>pstforge-core/src/packing.rs\<close>: candidates
  are sorted canonically and packed greedily, without ever splitting one, into parts whose
  estimated size with the safety reserve stays below the maximum. The size estimator is the
  trait parameter of the code, an argument here. Strings are their UTF-8 bytes, which is how
  Rust orders them.
\<close>

section \<open>Keys and candidates\<close>

datatype recovery_provenance = ProvNormal | ProvRecovered | ProvOrphan | ProvFragment

datatype canonical_folder_location = StoreRoot | IpmSubtree

text \<open>The derived orders: variants in the order of their declaration.\<close>

primrec provenance_rank :: "recovery_provenance \<Rightarrow> nat" where
  "provenance_rank ProvNormal = 0"
| "provenance_rank ProvRecovered = 1"
| "provenance_rank ProvOrphan = 2"
| "provenance_rank ProvFragment = 3"

primrec location_rank :: "canonical_folder_location \<Rightarrow> nat" where
  "location_rank StoreRoot = 0"
| "location_rank IpmSubtree = 1"

lemma provenance_rank_inject [simp]: "provenance_rank a = provenance_rank b \<longleftrightarrow> a = b"
  by (cases a; cases b) simp_all

lemma location_rank_inject [simp]: "location_rank a = location_rank b \<longleftrightarrow> a = b"
  by (cases a; cases b) simp_all

instantiation recovery_provenance :: linorder
begin

definition less_eq_recovery_provenance :: "recovery_provenance \<Rightarrow> recovery_provenance \<Rightarrow> bool" where
  "a \<le> b \<longleftrightarrow> provenance_rank a \<le> provenance_rank b"

definition less_recovery_provenance :: "recovery_provenance \<Rightarrow> recovery_provenance \<Rightarrow> bool" where
  "a < b \<longleftrightarrow> provenance_rank a < provenance_rank b"

instance
  by intro_classes (auto simp: less_eq_recovery_provenance_def less_recovery_provenance_def
      dest: order.antisym)

end

instantiation canonical_folder_location :: linorder
begin

definition less_eq_canonical_folder_location ::
  "canonical_folder_location \<Rightarrow> canonical_folder_location \<Rightarrow> bool" where
  "a \<le> b \<longleftrightarrow> location_rank a \<le> location_rank b"

definition less_canonical_folder_location ::
  "canonical_folder_location \<Rightarrow> canonical_folder_location \<Rightarrow> bool" where
  "a < b \<longleftrightarrow> location_rank a < location_rank b"

instance
  by intro_classes (auto simp: less_eq_canonical_folder_location_def less_canonical_folder_location_def
      dest: order.antisym)

end

record item_key =
  provenance :: recovery_provenance
  source_node_id :: "u32 option"
  recovery_index :: "u64 option"
  occurrence :: u32

record pack_candidate =
  pc_key :: item_key
  folder_location :: canonical_folder_location
  folder_path :: "bytes list"
  payload_bytes :: u64

record part_assignment =
  pa_index :: u32
  pa_candidates :: "pack_candidate list"
  estimated_bytes :: u64
  oversize :: bool

datatype packing_error =
    ZeroMaximumSize
  | ReserveExceedsMaximum u64 u64
  | InvalidFolderPath
  | DuplicateCandidate item_key
  | TooManyParts
  | SizeOverflow
  | Estimator bytes

type_synonym estimator = "pack_candidate list \<Rightarrow> packing_error + u64"

text \<open>The key order derived for \<open>ItemKey\<close> and the comparison of \<open>sort_by\<close>, both lexicographic.\<close>

definition item_key_order :: "item_key \<Rightarrow> recovery_provenance \<times> u32 option \<times> u64 option \<times> u32" where
  "item_key_order k = (provenance k, source_node_id k, recovery_index k, occurrence k)"

definition candidate_order ::
  "pack_candidate \<Rightarrow> canonical_folder_location \<times> bytes list \<times> (recovery_provenance \<times> u32 option \<times> u64 option \<times> u32)" where
  "candidate_order c = (folder_location c, folder_path c, item_key_order (pc_key c))"

section \<open>Packing\<close>

definition push_part ::
  "part_assignment list \<Rightarrow> pack_candidate list \<Rightarrow> u64 \<Rightarrow> bool \<Rightarrow> packing_error + part_assignment list" where
  "push_part parts candidates estimated over =
    (if length parts < 2 ^ 32
     then (case checked_add_w (word_of_nat (length parts)) 1 of None \<Rightarrow> Inl TooManyParts
           | Some index \<Rightarrow> Inr (parts @ [\<lparr>pa_index = index, pa_candidates = candidates,
               estimated_bytes = estimated, oversize = over\<rparr>]))
     else Inl TooManyParts)"

fun check_duplicates :: "item_key set \<Rightarrow> pack_candidate list \<Rightarrow> packing_error + unit" where
  "check_duplicates keys [] = Inr ()"
| "check_duplicates keys (c # cs) =
    (if pc_key c \<in> keys then Inl (DuplicateCandidate (pc_key c))
     else check_duplicates (insert (pc_key c) keys) cs)"

fun pack_loop ::
  "estimator \<Rightarrow> u64 \<Rightarrow> part_assignment list \<Rightarrow> pack_candidate list \<Rightarrow> u64 \<Rightarrow> pack_candidate list
    \<Rightarrow> packing_error + part_assignment list" where
  "pack_loop est limit parts current current_estimate [] =
    (if current \<noteq> [] then push_part parts current current_estimate False else Inr parts)"
| "pack_loop est limit parts current current_estimate (candidate # candidates) =
    (let proposed = current @ [candidate] in
     case est proposed of Inl e \<Rightarrow> Inl e
     | Inr proposed_estimate \<Rightarrow>
       if current \<noteq> [] \<and> proposed_estimate > limit
       then (case push_part parts current current_estimate False of Inl e \<Rightarrow> Inl e
         | Inr parts \<Rightarrow>
           (case est [candidate] of Inl e \<Rightarrow> Inl e
            | Inr current_estimate \<Rightarrow>
              if current_estimate > limit
              then (case push_part parts [candidate] current_estimate True of Inl e \<Rightarrow> Inl e
                    | Inr parts \<Rightarrow> pack_loop est limit parts [] 0 candidates)
              else pack_loop est limit parts [candidate] current_estimate candidates))
       else if proposed_estimate > limit
       then (case push_part parts proposed proposed_estimate True of Inl e \<Rightarrow> Inl e
             | Inr parts \<Rightarrow> pack_loop est limit parts [] 0 candidates)
       else pack_loop est limit parts proposed proposed_estimate candidates)"

definition pack_candidates ::
  "pack_candidate list \<Rightarrow> u64 \<Rightarrow> u64 \<Rightarrow> estimator \<Rightarrow> packing_error + part_assignment list" where
  "pack_candidates candidates maximum_bytes safety_reserve_bytes est =
    (if maximum_bytes = 0 then Inl ZeroMaximumSize else
     case checked_sub_w maximum_bytes safety_reserve_bytes of
       None \<Rightarrow> Inl (ReserveExceedsMaximum safety_reserve_bytes maximum_bytes)
     | Some effective_limit \<Rightarrow>
       if list_ex (\<lambda>c. list_ex (\<lambda>s. s = []) (folder_path c)) candidates then Inl InvalidFolderPath
       else let candidates = sort_key candidate_order candidates in
         (case check_duplicates {} candidates of Inl e \<Rightarrow> Inl e
          | Inr _ \<Rightarrow> pack_loop est effective_limit [] [] 0 candidates))"

section \<open>Specification\<close>

text \<open>
  A part: it is not empty, its estimate is the one of the estimator, and it is over the limit
  exactly when it is marked so, which only a single candidate can be.
\<close>

definition part_ok :: "estimator \<Rightarrow> u64 \<Rightarrow> part_assignment \<Rightarrow> bool" where
  "part_ok est limit p \<longleftrightarrow> pa_candidates p \<noteq> [] \<and> est (pa_candidates p) = Inr (estimated_bytes p) \<and>
    (oversize p \<longleftrightarrow> limit < estimated_bytes p) \<and> (oversize p \<longrightarrow> length (pa_candidates p) = 1)"

text \<open>
  Greedy: the first candidate of the next part did not fit into this one.
\<close>

definition part_full :: "estimator \<Rightarrow> u64 \<Rightarrow> part_assignment \<Rightarrow> pack_candidate \<Rightarrow> bool" where
  "part_full est limit p c \<longleftrightarrow> (oversize p \<or> (\<exists>e. est (pa_candidates p @ [c]) = Inr e \<and> limit < e))"

definition parts_ok :: "estimator \<Rightarrow> u64 \<Rightarrow> part_assignment list \<Rightarrow> bool" where
  "parts_ok est limit parts \<longleftrightarrow> list_all (part_ok est limit) parts \<and>
    successively (\<lambda>p q. part_full est limit p (hd (pa_candidates q))) parts \<and>
    map (\<lambda>p. unat (pa_index p)) parts = [1..<Suc (length parts)]"

text \<open>The state of the loop: the open part fits, and the last closed part is full for it.\<close>

definition loop_ok :: "estimator \<Rightarrow> u64 \<Rightarrow> part_assignment list \<Rightarrow> pack_candidate list \<Rightarrow> u64 \<Rightarrow> bool" where
  "loop_ok est limit parts current current_estimate \<longleftrightarrow> parts_ok est limit parts \<and>
    (if current = [] then parts = [] \<or> oversize (last parts)
     else est current = Inr current_estimate \<and> current_estimate \<le> limit \<and>
       (parts \<noteq> [] \<longrightarrow> part_full est limit (last parts) (hd current)))"

lemma push_part_cases:
  "push_part parts cs e over =
    (if Suc (length parts) < 2 ^ 32
     then Inr (parts @ [\<lparr>pa_index = word_of_nat (Suc (length parts)), pa_candidates = cs,
        estimated_bytes = e, oversize = over\<rparr>])
     else Inl TooManyParts)"
proof (cases "length parts < 2 ^ 32")
  case True
  define w where "w = (word_of_nat (length parts) :: u32)"
  have "unat w = length parts" using True by (simp add: w_def unsigned_of_nat take_bit_nat_eq_self)
  moreover have "word_of_nat (Suc (length parts)) = w + 1" by (simp add: w_def add.commute)
  ultimately show ?thesis
    using True by (simp add: push_part_def checked_add_w_def w_def [symmetric] del: of_nat_Suc)
qed (simp add: push_part_def)

lemma parts_ok_snoc:
  assumes "parts_ok est limit parts" "part_ok est limit p" "unat (pa_index p) = Suc (length parts)"
    and "parts \<noteq> [] \<Longrightarrow> part_full est limit (last parts) (hd (pa_candidates p))"
  shows "parts_ok est limit (parts @ [p])"
proof -
  have "[1..<Suc (length (parts @ [p]))] = [1..<Suc (length parts)] @ [Suc (length parts)]"
    by (simp add: upt_Suc_append)
  then show ?thesis
    using assms by (auto simp: parts_ok_def successively_append_iff simp del: upt_Suc upt_Suc_append)
qed

lemma push_part_ok:
  assumes "push_part parts cs e over = Inr parts'" "parts_ok est limit parts"
    and "cs \<noteq> []" "est cs = Inr e" "over \<longleftrightarrow> limit < e" "over \<Longrightarrow> length cs = 1"
    and "parts \<noteq> [] \<Longrightarrow> part_full est limit (last parts) (hd cs)"
  shows "parts_ok est limit parts'" "parts' \<noteq> []" "oversize (last parts') = over"
    "pa_candidates (last parts') = cs"
    "concat (map pa_candidates parts') = concat (map pa_candidates parts) @ cs"
proof -
  define p where "p = \<lparr>pa_index = word_of_nat (Suc (length parts)), pa_candidates = cs,
      estimated_bytes = e, oversize = over\<rparr>"
  have p: "parts' = parts @ [p]" and small: "Suc (length parts) < 2 ^ 32"
    using assms(1) by (simp_all add: push_part_cases p_def split: if_splits)
  have "unat (word_of_nat (Suc (length parts)) :: u32) = Suc (length parts)"
    using small by (simp del: of_nat_Suc add: unsigned_of_nat take_bit_nat_eq_self)
  then have "unat (pa_index p) = Suc (length parts)" by (simp add: p_def)
  moreover have "part_ok est limit p" using assms(3-6) by (auto simp: part_ok_def p_def)
  ultimately show "parts_ok est limit parts'"
    unfolding p using assms(2,7) by (intro parts_ok_snoc) (simp_all add: p_def)
  show "parts' \<noteq> []" "oversize (last parts') = over" "pa_candidates (last parts') = cs"
    "concat (map pa_candidates parts') = concat (map pa_candidates parts) @ cs"
    by (simp_all add: p p_def)
qed

lemma pack_loop_ok:
  "pack_loop est limit parts current ce cs = Inr out \<Longrightarrow> loop_ok est limit parts current ce \<Longrightarrow>
    parts_ok est limit out \<and> concat (map pa_candidates out) = concat (map pa_candidates parts) @ current @ cs"
proof (induction est limit parts current ce cs rule: pack_loop.induct)
  case (1 est limit parts current ce)
  then show ?case
    using push_part_ok [of parts current ce False out est limit]
    by (auto simp: loop_ok_def not_less split: if_splits)
next
  case (2 est limit parts current ce c cs)
  obtain pe where pe: "est (current @ [c]) = Inr pe"
    using "2.prems"(1) by (cases "est (current @ [c])") (simp_all add: Let_def)
  note run = "2.prems"(1) [unfolded pack_loop.simps Let_def pe sum.case]
  have ok: "parts_ok est limit parts" using "2.prems"(2) by (simp add: loop_ok_def)
  consider (split) "current \<noteq> []" "limit < pe" | (over) "current = []" "limit < pe" | (fits) "\<not> limit < pe"
    by blast
  then show ?case
  proof cases
    case split
    have cur: "est current = Inr ce" "\<not> limit < ce" "parts \<noteq> [] \<Longrightarrow> part_full est limit (last parts) (hd current)"
      using "2.prems"(2) split by (auto simp: loop_ok_def)
    obtain parts1 ce1 where p1: "push_part parts current ce False = Inr parts1" and ce1: "est [c] = Inr ce1"
      using run split by (auto split: sum.splits)
    note pp = push_part_ok [OF p1 ok split(1) cur(1) _ _ cur(3), simplified]
    have full: "part_full est limit (last parts1) c"
      using pe split(2) pp(4) cur(2) by (auto simp: part_full_def)
    show ?thesis
    proof (cases "limit < ce1")
      case True
      obtain parts2 where p2: "push_part parts1 [c] ce1 True = Inr parts2"
          and out: "pack_loop est limit parts2 [] 0 cs = Inr out"
        using run split p1 ce1 True by (auto split: sum.splits)
      note qq = push_part_ok [OF p2 pp(1) [OF cur(2)], simplified, OF ce1]
      have "loop_ok est limit parts2 [] 0" using qq True full by (simp add: loop_ok_def)
      then show ?thesis
        using "2.IH"(1) [OF refl pe] split p1 ce1 True p2 out qq(5) pp(5) full cur(2) by simp
    next
      case False
      then have "loop_ok est limit parts1 [c] ce1" using pp cur(2) ce1 full by (simp add: loop_ok_def)
      then show ?thesis
        using "2.IH"(2) [OF refl pe] run split p1 ce1 False pp(5) cur(2) by simp
    qed
  next
    case over
    obtain parts1 where p1: "push_part parts [c] pe True = Inr parts1"
        and out: "pack_loop est limit parts1 [] 0 cs = Inr out"
      using run over by (auto split: sum.splits)
    have full: "parts \<noteq> [] \<Longrightarrow> part_full est limit (last parts) c"
      using "2.prems"(2) over by (auto simp: loop_ok_def part_full_def)
    note pp = push_part_ok [OF p1 ok, simplified, OF pe [unfolded over(1), simplified]]
    have "loop_ok est limit parts1 [] 0" using pp over full by (simp add: loop_ok_def)
    then show ?thesis using "2.IH"(3) [OF refl pe] over p1 out pp(5) full by simp
  next
    case fits
    have "loop_ok est limit parts (current @ [c]) pe"
      using "2.prems"(2) fits pe by (cases current) (auto simp: loop_ok_def part_full_def)
    then show ?thesis using "2.IH"(4) [OF refl pe] run fits by simp
  qed
qed

lemma pack_loop_total:
  assumes "\<And>xs. \<exists>e. est xs = Inr e"
  shows "length parts + (if current = [] then 0 else 1) + length cs < 2 ^ 32 \<Longrightarrow> \<exists>out. pack_loop est limit parts current ce cs = Inr out"
proof (induction cs arbitrary: parts current ce)
  case Nil
  then show ?case by (auto simp: push_part_cases split: if_splits)
next
  case (Cons c cs)
  obtain pe ce1 where e: "est (current @ [c]) = Inr pe" "est [c] = Inr ce1" using assms by metis
  show ?case using Cons.prems by (auto simp: Let_def e push_part_cases intro!: Cons.IH split: if_splits)
qed

lemma check_duplicates_Inr:
  "check_duplicates keys cs = Inr u \<longleftrightarrow> distinct (map pc_key cs) \<and> keys \<inter> pc_key ` set cs = {}"
  by (induction cs arbitrary: keys) auto

section \<open>Properties\<close>

text \<open>
  C14. Packing: a plan that is returned distributes the sorted candidates over the parts in order,
  without losing, repeating or splitting one, numbers the parts from one, closes a part only when
  the next candidate does not fit, and keeps every part with its reserve within the maximum except
  for single candidates, which are marked oversize exactly when they are over it. A plan is returned for
  all valid input when the estimator gives a size for every proposed part.
\<close>

theorem pack_candidates_spec:
  "(\<forall>parts. pack_candidates cands maximum_bytes reserve est = Inr parts \<longrightarrow>
      concat (map pa_candidates parts) = sort_key candidate_order cands \<and>
      mset (concat (map pa_candidates parts)) = mset cands \<and> distinct (map pc_key cands) \<and>
      list_all (\<lambda>p. pa_candidates p \<noteq> [] \<and> est (pa_candidates p) = Inr (estimated_bytes p) \<and>
        (oversize p \<longleftrightarrow> unat maximum_bytes < unat (estimated_bytes p) + unat reserve) \<and>
        (oversize p \<longrightarrow> length (pa_candidates p) = 1)) parts \<and>
      successively (\<lambda>p q. oversize p \<or> (\<exists>e. est (pa_candidates p @ [hd (pa_candidates q)]) = Inr e \<and>
        unat maximum_bytes < unat e + unat reserve)) parts \<and>
      map (\<lambda>p. unat (pa_index p)) parts = [1..<Suc (length parts)]) \<and>
   (maximum_bytes \<noteq> 0 \<and> reserve \<le> maximum_bytes \<and> list_all (\<lambda>c. [] \<notin> set (folder_path c)) cands \<and>
      distinct (map pc_key cands) \<and> length cands < 2 ^ 32 \<and> (\<forall>xs. \<exists>e. est xs = Inr e) \<longrightarrow>
    (\<exists>parts. pack_candidates cands maximum_bytes reserve est = Inr parts))"
proof (intro conjI allI impI)
  fix parts assume "pack_candidates cands maximum_bytes reserve est = Inr parts"
  then have le: "reserve \<le> maximum_bytes" and dup: "check_duplicates {} (sort_key candidate_order cands) = Inr ()"
    and run: "pack_loop est (maximum_bytes - reserve) [] [] 0 (sort_key candidate_order cands) = Inr parts"
    by (auto simp: pack_candidates_def checked_sub_w_def Let_def split: if_splits sum.splits)
  have "loop_ok est (maximum_bytes - reserve) [] [] 0" by (simp add: loop_ok_def parts_ok_def)
  from pack_loop_ok [OF run this] have ok: "parts_ok est (maximum_bytes - reserve) parts"
    and c: "concat (map pa_candidates parts) = sort_key candidate_order cands" by simp_all
  show "concat (map pa_candidates parts) = sort_key candidate_order cands" by (rule c)
  show "mset (concat (map pa_candidates parts)) = mset cands" by (simp add: c)
  have "distinct (map pc_key (sort_key candidate_order cands))" using dup by (simp add: check_duplicates_Inr)
  then show "distinct (map pc_key cands)" by (simp add: distinct_map)
  have lim: "maximum_bytes - reserve < e \<longleftrightarrow> unat maximum_bytes < unat e + unat reserve" for e
    using le by (simp add: word_less_nat_alt unat_sub word_le_nat_alt less_diff_conv2)
  show "list_all (\<lambda>p. pa_candidates p \<noteq> [] \<and> est (pa_candidates p) = Inr (estimated_bytes p) \<and>
        (oversize p \<longleftrightarrow> unat maximum_bytes < unat (estimated_bytes p) + unat reserve) \<and>
        (oversize p \<longrightarrow> length (pa_candidates p) = 1)) parts"
    using ok by (auto simp: parts_ok_def part_ok_def lim list_all_iff)
  show "successively (\<lambda>p q. oversize p \<or> (\<exists>e. est (pa_candidates p @ [hd (pa_candidates q)]) = Inr e \<and>
        unat maximum_bytes < unat e + unat reserve)) parts"
    using ok by (simp add: parts_ok_def part_full_def lim)
  show "map (\<lambda>p. unat (pa_index p)) parts = [1..<Suc (length parts)]" using ok by (simp add: parts_ok_def)
next
  assume a: "maximum_bytes \<noteq> 0 \<and> reserve \<le> maximum_bytes \<and> list_all (\<lambda>c. [] \<notin> set (folder_path c)) cands \<and>
      distinct (map pc_key cands) \<and> length cands < 2 ^ 32 \<and> (\<forall>xs. \<exists>e. est xs = Inr e)"
  then have "check_duplicates {} (sort_key candidate_order cands) = Inr ()"
    by (simp add: check_duplicates_Inr distinct_map)
  moreover have "\<exists>out. pack_loop est (maximum_bytes - reserve) [] [] 0 (sort_key candidate_order cands) = Inr out"
    using a by (intro pack_loop_total) auto
  moreover have "\<not> list_ex (\<lambda>c. list_ex (\<lambda>s. s = []) (folder_path c)) cands"
    using a by (auto simp: list_ex_iff list_all_iff)
  ultimately show "\<exists>parts. pack_candidates cands maximum_bytes reserve est = Inr parts"
    using a by (simp add: pack_candidates_def checked_sub_w_def)
qed

definition sample_candidate :: "u32 \<Rightarrow> u64 \<Rightarrow> pack_candidate" where
  "sample_candidate n bytes = \<lparr>pc_key = \<lparr>provenance = ProvNormal, source_node_id = Some n,
     recovery_index = None, occurrence = 0\<rparr>, folder_location = IpmSubtree, folder_path = [[73]], payload_bytes = bytes\<rparr>"

definition sample_estimator :: estimator where
  "sample_estimator cs = Inr (sum_list (map payload_bytes cs))"

theorem pack_candidates_spec_witness:
  "\<exists>parts. pack_candidates [sample_candidate 2 50, sample_candidate 1 20, sample_candidate 3 200] 100 10 sample_estimator = Inr parts \<and>
    concat (map pa_candidates parts) = [sample_candidate 1 20, sample_candidate 2 50, sample_candidate 3 200] \<and>
    map (\<lambda>p. unat (pa_index p)) parts = [1..<Suc (length parts)]"
proof -
  let ?c = "[sample_candidate 2 50, sample_candidate 1 20, sample_candidate 3 200]"
  have "list_all (\<lambda>c. [] \<notin> set (folder_path c)) ?c" "distinct (map pc_key ?c)" "\<forall>xs. \<exists>e. sample_estimator xs = Inr e"
    by (simp_all add: sample_candidate_def sample_estimator_def)
  moreover have "sort_key candidate_order ?c = [sample_candidate 1 20, sample_candidate 2 50, sample_candidate 3 200]"
    by (simp add: sample_candidate_def candidate_order_def item_key_order_def word_le_nat_alt word_less_nat_alt)
  ultimately show ?thesis using pack_candidates_spec [of ?c 100 10 sample_estimator] by auto
qed

end
