(* ===== verification/Spec2Isabelle.thy ===== *)
theory Spec2Isabelle
  imports Encode Ndb_Header Ndb_SubNode Ltp_Heap Ltp_Prop Writer_Stream Writer_Named Packing
begin

text \<open>
  Verification library of PSTForge, a program that recovers, splits and rebuilds Outlook PST files.

  \<^bold>\<open>The program.\<close> The crate \<open>pstforge-pst\<close> (\<open>src/crates/pstforge-pst/src\<close>) has the file format in
  layers: checksums and encodings (\<open>crc.rs\<close>, \<open>block_sig.rs\<close>, \<open>encode/\<close>); the node database
  (\<open>ndb/\<close>) with header, map pages, two B-trees, data blocks, data trees and sub-node trees; lists,
  tables and properties (\<open>ltp/\<close>) with the heap on a node, the B-tree on a heap and property
  contexts; the messaging layer (\<open>messaging/\<close>) with the map of named properties; and the writer (\<open>writer.rs\<close>), which cuts values into blocks, lays heaps out in pages, places blocks
  into extents while messages are streamed, and at the end writes both B-trees, the allocation maps
  and the header. The readers never see the writer's data structures: what ties the two halves
  together is the file, and the theorems at the top of the manifest compose them through it. The crate
  \<open>pstforge-core\<close> assigns messages to output parts (\<open>packing.rs\<close>) before the writer is called.

  \<^bold>\<open>How the code is modelled.\<close> Machine integers are words of their width, with checked, wrapping
  and saturating operations kept apart (\<open>Pst_Prelude\<close>). A file is its list of bytes, and
  reading and writing at an offset are functions on it (\<open>Pst_Error\<close>). Errors are values of \<open>io_error\<close> (with the variants of
  \<open>NdbError\<close> and \<open>LtpError\<close> in it) and \<open>writer_error\<close>; a slice or index that leaves its buffer is the value
  \<open>Panic\<close>. Mutable state is passed explicitly, and every operation returns what it has changed also when
  it fails where a caller can observe it: the page cache of the B-trees, the block cache of data trees, the
  allocation cursor, the emitted blocks. Code shared by the Unicode and ANSI formats through the
  \<open>Pst\<close> traits is modelled once over a record of the members of the trait (\<open>pst_format\<close>, \<open>block_source\<close>,
  \<open>subnode_format\<close>).

  \<^bold>\<open>Theories and sources.\<close>
  \<^item> \<open>Pst_Prelude\<close>: integers, little-endian codecs, \<open>slice::chunks\<close>, \<open>partition_point\<close>, \<open>div_ceil\<close> and
    shared lemmas.
  \<^item> \<open>Pst_Error\<close>: the enumerations with their discriminants, the error types, decoders; the locale \<open>codec\<close>, the
    contract of a writer and a reader that are inverse, is interpreted for the integers and for every fixed-size record of the format.
  \<^item> \<open>Crc\<close> (\<open>crc.rs\<close>, \<open>block_sig.rs\<close>): the sliced CRC equals the bytewise reference at every alignment
    of the buffer; a burst of up to 32 changed bits is detected at any bit position.
  \<^item> \<open>Encode\<close> (\<open>encode/\<close>): both block encodings are inverted by their decoders.
  \<^item> \<open>Ndb_Ids\<close>, \<open>Ndb_Header\<close>, \<open>Ndb_Page\<close>, \<open>Ndb_BTree\<close> (\<open>ndb/node_id.rs\<close>, \<open>block_id.rs\<close>, \<open>header.rs\<close>, \<open>root.rs\<close>,
    \<open>page.rs\<close>, \<open>read_write.rs\<close>): identifiers, header, map pages, B-tree pages of both formats; round trips,
    and the errors for damaged input.
  \<^item> \<open>Ndb_Amap\<close>: \<open>find_free_bits\<close> returns the first longest run among the slots it looks at, which are all, or end with the byte in
    which a run of the requested length is found; the run is cut to the request.
  \<^item> \<open>Ndb_Search\<close>: reading, writing and searching the B-trees with their page cache: \<open>find_entry\<close> is the
    lookup in the list of all entries and keeps the cache consistent. The round trips of pages and
    trees are proved once, in the locales \<open>page_codec\<close> and \<open>tree_codec\<close>, and interpreted for the four trees.
  \<^item> \<open>Ndb_Block\<close>, \<open>Ndb_DataTree\<close>, \<open>Ndb_SubNode\<close> (\<open>ndb/block.rs\<close>): blocks with trailer and encoding;
    the traversal of data trees with its budgets; the buffered reader; enumeration and search of
    sub-node trees. They use the block B-tree through the locales \<open>block_lookup\<close> and
    \<open>tree_source\<close> (a search that agrees with a lookup function and keeps an invariant of the cache), interpreted for both formats
    on \<open>Ndb_Search\<close>.
  \<^item> \<open>Ltp_Heap\<close> (\<open>ltp/heap.rs\<close>, \<open>ltp/tree.rs\<close>): heap pages, page maps, the lookup of an allocation, the B-tree on
    a heap.
  \<^item> \<open>Ltp_Prop\<close> (\<open>ltp/prop_context.rs\<close>): records, values of every property type, reading a property
    from its record, the heap or a sub-node, the materialisation budget, the streamed
    identity.
  \<^item> \<open>Writer_Alloc\<close>, \<open>Writer_BTree\<close>, \<open>Writer_Block\<close>, \<open>Writer_Store\<close> (\<open>writer.rs\<close>): extents that avoid map pages,
    planning and writing of B-tree pages (locale \<open>btree_writer\<close>, interpreted for both trees), blocks, the allocation pages, the header, and \<open>finalize_store\<close>,
    the last phase of \<open>create_fidelity_store\<close>.
  \<^item> \<open>Writer_Tree\<close>, \<open>Writer_Stream\<close>: data trees and sub-node trees from memory; the message stream, payloads read
    from a reader, projections from declared sizes.
  \<^item> \<open>Writer_SubNode\<close>: the sub-node trees of the writer in a finished file: search, and enumeration within its limit.
  \<^item> \<open>Writer_Heap\<close>, \<open>Writer_Prop\<close>, \<open>Writer_Context\<close>, \<open>Writer_Large\<close>: heap pages, placing of allocations, filling of pages, fill
    levels; the writer's property values and contexts; contexts in a finished file, with their large values in sub-nodes.
  \<^item> \<open>Msg_Named\<close> (\<open>messaging/named_prop.rs\<close>): the streams and hash buckets of the named property map and reading it from a file.
  \<^item> \<open>Writer_Named\<close>: the map the writer builds from the names of all messages, and the validation of the finished map.
  \<^item> \<open>Packing\<close> (\<open>pstforge-core/src/packing.rs\<close>): the greedy assignment to parts.

  \<^bold>\<open>What the theorems show.\<close> Every theorem has a claim number and a text of its own in its
  theory. The main ones compose writer and reader: a context built from properties, the map of named properties, a value from memory, and a payload from a reader
  are written and the finished store is opened and searched with the reader's own operations, which give back
  the properties and the bytes. \<open>finalize_store_spec\<close> is the specification they
  rest on: finalising succeeds, the projected size is exact, every block and node is found, and the allocation maps
  mark exactly the used slots. The other groups are: search
  and traversal agree with lookup in the abstract content (refinement); codecs are
  inverse (round trips); damaged input is rejected or detected (errors, safety); identifiers, sizes and
  indices stay in range (bounds).

  \<^bold>\<open>Bounds, fuel and parameters.\<close> The recursion of \<open>find_entry\<close> is bounded by the call stack in the
  code; its depth is a parameter, a search tree of height \<open>h\<close> needs \<open>Suc h\<close>, and a page whose selected entry refers to the page itself exhausts every depth
  (\<open>find_entry_cycle\<close>). Loops over levels end because the level is a byte or the list of roots shrinks. Rows of a heap
  allocation are read with fuel of its length, which is enough since every row takes a byte. Traversals
  carry the budgets of the code (16384 entries, 300000 when streaming, 64 MiB materialised). The
  interruption flag is a function from the number of the check to its value. A source of a payload is the list of its bytes with
  the way it ends. Parameters for what the crate does not define: SHA-256, the size estimator of the packer,
  the buffer sizes of \<open>read_to_end\<close>, the capacities of vectors in \<open>materialized_size\<close>. Sizes in theorems
  (values of two gibibytes, \<open>2 ^ 24\<close> blocks, \<open>2 ^ 22\<close> nodes, block indices up to \<open>2 ^ 61\<close>, contexts of 1000
  properties) are above what the limits of the code let through or what a file can hold, except
  the last, with which the heap of a context stays below the 1021 pages of one XBLOCK. Named properties are
  32768 at most, as in the code, with 32765 GUIDs, beyond which an index does not fit into its 15 bits.

  \<^bold>\<open>Not modelled.\<close> Table contexts and the stores, folders, messages and attachments of the messaging layer; in the writer the assembly of messages,
  folders and tables into nodes, the rollback of the message stream, and the publication
  of the output file (file system operations); the update of an allocation map in place (\<open>lib.rs\<close>); the recovery
  pipeline, the job store on SQLite, the command line, the bindings to libpff and the build tasks, which are I/O and
  calls to code outside the repository. Concurrency occurs only there, apart from the interruption flag.
\<close>

end
